(* ===== verification/Prelude.thy ===== *)
theory Prelude
  imports Main "HOL-Library.Word" "HOL-Library.Monad_Syntax"
begin

text \<open>
  Shared vocabulary of the development: the machine integers of
  \<^verbatim>\<open>src/common/common_types.h\<close>, checked access to C++ arrays, the alignment helpers of
  \<^verbatim>\<open>src/common/alignment.h\<close>, and the generic interface of a component that keeps an
  invariant across its operations.

  Undefined behaviour of the C++ program (an array index out of range, a dereferenced null
  pointer or end iterator) is the value \<open>None\<close> of an option type, so a theorem that an
  operation returns \<open>Some\<close> is a theorem that it is free of it.  The macro \<open>ASSERT\<close> of
  \<^verbatim>\<open>src/common/assert.h\<close> only logs in a default build, so the operations continue past a
  failed assertion as the code does; where the assertions of an operation matter they are collected
  in a predicate of their own and proved from the invariant.
\<close>

unbundle bit_operations_syntax

type_synonym u8 = "8 word"
type_synonym u16 = "16 word"
type_synonym u32 = "32 word"
type_synonym u64 = "64 word"

named_theorems ub_simps \<open>unfolding of checked array accesses\<close>
named_theorems frame_simps \<open>fields and entries an operation leaves alone\<close>

section \<open>Checked arrays\<close>

definition arr_get :: "'a list \<Rightarrow> nat \<Rightarrow> 'a option" where
  "arr_get xs i = (if i < length xs then Some (xs ! i) else None)"

definition arr_set :: "'a list \<Rightarrow> nat \<Rightarrow> 'a \<Rightarrow> 'a list option" where
  "arr_set xs i v = (if i < length xs then Some (xs[i := v]) else None)"

lemma arr_get_in [simp, ub_simps]: "i < length xs \<Longrightarrow> arr_get xs i = Some (xs ! i)"
  by (simp add: arr_get_def)

lemma arr_set_in [simp, ub_simps]: "i < length xs \<Longrightarrow> arr_set xs i v = Some (xs[i := v])"
  by (simp add: arr_set_def)

lemma arr_get_eq_Some: "arr_get xs i = Some v \<longleftrightarrow> i < length xs \<and> xs ! i = v"
  by (simp add: arr_get_def)

lemma arr_set_eq_Some: "arr_set xs i v = Some ys \<longleftrightarrow> i < length xs \<and> ys = xs[i := v]"
  by (auto simp: arr_set_def)

section \<open>Words\<close>

lemma unat_inc:
  fixes a b :: "'a::len word"
  assumes "a < b"
  shows "unat (a + 1) = Suc (unat a)"
proof -
  have "unat a + 1 < 2 ^ LENGTH('a)"
    using assms unsigned_less [of b] by (simp add: word_less_nat_alt less_trans_Suc)
  then show ?thesis
    by (simp add: unat_word_ariths(1))
qed

lemma unat_dec:
  fixes a :: "'a::len word"
  assumes "a \<noteq> 0"
  shows "unat (a - 1) = unat a - 1"
  using assms by (simp add: unat_minus_one)

section \<open>Little-endian bytes\<close>

text \<open>The \<open>n\<close> low bytes of a 64-bit value, lowest first, and the value of bytes.\<close>

primrec le_bytes :: "nat \<Rightarrow> u64 \<Rightarrow> u8 list" where
  "le_bytes 0 v = []"
| "le_bytes (Suc n) v = ucast v # le_bytes n (drop_bit 8 v)"

fun le_value :: "u8 list \<Rightarrow> u64" where
  "le_value [] = 0"
| "le_value (b # bs) = ucast b OR push_bit 8 (le_value bs)"

section \<open>Bits of words\<close>

text \<open>\<open>std::countr_zero\<close>: the number of the lowest bit.\<close>

definition countr_zero :: "u64 \<Rightarrow> nat" where
  "countr_zero v = length (takeWhile (\<lambda>i. \<not> bit v i) [0..<64])"

lemma countr_zero_bit:
  assumes "v \<noteq> 0"
  shows "countr_zero v < 64" "bit v (countr_zero v)"
proof -
  obtain n where n: "n < 64" "bit v n" using assms bit_eq_iff [of v 0] bit_imp_le_length [of v] by fastforce
  then have "n \<in> set [0..<64]" "\<not> \<not> bit v n" by simp_all
  then have l: "length (takeWhile (\<lambda>i. \<not> bit v i) [0..<64]) < length [0..<64]"
    by (metis length_takeWhile_le le_neq_implies_less takeWhile_eq_all_conv takeWhile_eq_take take_all_iff)
  then show "countr_zero v < 64" by (simp add: countr_zero_def)
  from nth_length_takeWhile [OF l] l show "bit v (countr_zero v)" by (simp add: countr_zero_def)
qed

lemma countr_zero_least:
  assumes "v \<noteq> 0" "i < countr_zero v"
  shows "\<not> bit v i"
proof -
  have "[0..<64] ! i = i" using assms(2) countr_zero_bit(1) [OF assms(1)] by simp
  then show ?thesis using nth_mem [of i "takeWhile (\<lambda>i. \<not> bit v i) [0..<64]"] assms(2)
    by (metis countr_zero_def set_takeWhileD takeWhile_nth)
qed

lemma bit_cleared: "bit (v AND NOT (push_bit n 1)) i \<longleftrightarrow> bit v i \<and> i \<noteq> n" for v :: u64
  by (auto simp: bit_simps dest: bit_imp_le_length)

lemma unat_clear_less:
  fixes v :: u64
  assumes "bit v n"
  shows "unat (v AND NOT (push_bit n 1)) < unat v"
proof -
  let ?w = "v AND NOT (push_bit n 1)"
  have "?w \<noteq> v" using assms bit_cleared [of v n n] by metis
  moreover have "?w \<le> v" by (rule word_and_le2)
  ultimately have "?w < v" by simp
  then show ?thesis by (rule unat_mono)
qed

section \<open>Addresses and sizes\<close>

text \<open>
  Addresses (\<open>KProcessAddress\<close>) and sizes (\<open>size_t\<close>) are 64-bit unsigned integers,
  kept as natural numbers with the wrap-around written out.
\<close>

definition add64 :: "nat \<Rightarrow> nat \<Rightarrow> nat" where
  "add64 a b = (a + b) mod 2 ^ 64"

definition sub64 :: "nat \<Rightarrow> nat \<Rightarrow> nat" where
  "sub64 a b = nat ((int a - int b) mod 2 ^ 64)"

definition mul64 :: "nat \<Rightarrow> nat \<Rightarrow> nat" where
  "mul64 a b = a * b mod 2 ^ 64"

lemma add64_exact: "a + b < 2 ^ 64 \<Longrightarrow> add64 a b = a + b"
  by (simp add: add64_def)

lemma mul64_exact: "a * b < 2 ^ 64 \<Longrightarrow> mul64 a b = a * b"
  by (simp add: mul64_def)

lemma sub64_exact: "b \<le> a \<Longrightarrow> a < 2 ^ 64 \<Longrightarrow> sub64 a b = a - b"
  by (simp add: sub64_def nat_diff_distrib flip: of_nat_diff)

section \<open>Alignment (common/alignment.h)\<close>

definition AlignDown :: "nat \<Rightarrow> nat \<Rightarrow> nat" where
  "AlignDown v n = v - v mod n"

lemma AlignDown_le: "AlignDown v n \<le> v"
  by (simp add: AlignDown_def)

lemma AlignDown_dvd: "n dvd AlignDown v n"
  by (simp add: AlignDown_def dvd_minus_mod)

section \<open>Runs of a component\<close>

text \<open>
  A component is a state, a partial step function (\<open>None\<close>: undefined behaviour or a call
  outside its contract) and an invariant.
\<close>

primrec run_ops :: "('op \<Rightarrow> 's \<Rightarrow> 's option) \<Rightarrow> 'op list \<Rightarrow> 's \<Rightarrow> 's option" where
  "run_ops step [] s = Some s"
| "run_ops step (x # xs) s = (case step x s of None \<Rightarrow> None | Some s' \<Rightarrow> run_ops step xs s')"

locale invariant_component =
  fixes inv :: "'s \<Rightarrow> bool" and pre :: "'op \<Rightarrow> 's \<Rightarrow> bool"
    and step :: "'op \<Rightarrow> 's \<Rightarrow> 's option"
  assumes step_defined: "\<lbrakk>inv s; pre x s\<rbrakk> \<Longrightarrow> \<exists>s'. step x s = Some s'"
    and step_inv: "\<lbrakk>inv s; pre x s; step x s = Some s'\<rbrakk> \<Longrightarrow> inv s'"
begin

primrec admissible :: "'op list \<Rightarrow> 's \<Rightarrow> bool" where
  "admissible [] s \<longleftrightarrow> True"
| "admissible (x # xs) s \<longleftrightarrow> pre x s \<and> (\<forall>s'. step x s = Some s' \<longrightarrow> admissible xs s')"

lemma run_keeps_inv:
  assumes "inv s" and "admissible xs s"
  shows "\<exists>s'. run_ops step xs s = Some s' \<and> inv s'"
  using assms
proof (induction xs arbitrary: s)
  case Nil
  then show ?case by simp
next
  case (Cons x xs)
  then obtain s' where s': "step x s = Some s'"
    using step_defined [of s x] by auto
  with Cons.prems have "inv s'" and "admissible xs s'"
    using step_inv by auto
  from Cons.IH [OF this] s' show ?case by simp
qed

end


section \<open>Stores that issue handles\<close>

text \<open>
  The contract of a table that hands out a handle for an object and resolves it later: the table
  abstracts to a partial map, adding updates the map at a handle that was unused, removing clears
  one handle.  \<open>store_run\<close> performs a sequence of requests and records the answers;
  \<open>map_run\<close> is what the answers mean for the map.
\<close>

datatype ('h, 'o) store_req = AddReq 'o | RemoveReq 'h

datatype 'h store_ans = Issued 'h | Refused | Removed bool

primrec store_run ::
  "('o \<Rightarrow> 's \<Rightarrow> (('e + 'h) \<times> 's) option) \<Rightarrow> ('h \<Rightarrow> 's \<Rightarrow> (bool \<times> 's) option) \<Rightarrow>
   ('h, 'o) store_req list \<Rightarrow> 's \<Rightarrow> ('h store_ans list \<times> 's) option" where
  "store_run add remove [] s = Some ([], s)"
| "store_run add remove (r # rs) s = do {
     (a, s1) \<leftarrow> (case r of
        AddReq x \<Rightarrow> map_option (apfst (case_sum (\<lambda>e. Refused) Issued)) (add x s)
      | RemoveReq h \<Rightarrow> map_option (apfst Removed) (remove h s));
     (as, s') \<leftarrow> store_run add remove rs s1;
     Some (a # as, s')
   }"

fun map_step :: "('h, 'o) store_req \<Rightarrow> 'h store_ans \<Rightarrow> ('h \<rightharpoonup> 'o) \<Rightarrow> ('h \<rightharpoonup> 'o) option" where
  "map_step (AddReq x) (Issued h) m = (if m h = None then Some (m(h \<mapsto> x)) else None)"
| "map_step (AddReq x) Refused m = Some m"
| "map_step (RemoveReq h) (Removed b) m = (if b = (m h \<noteq> None) then Some (m(h := None)) else None)"
| "map_step _ _ m = None"

fun map_run :: "('h, 'o) store_req list \<Rightarrow> 'h store_ans list \<Rightarrow> ('h \<rightharpoonup> 'o) \<Rightarrow> ('h \<rightharpoonup> 'o) option" where
  "map_run [] [] m = Some m"
| "map_run (r # rs) (a # as) m = Option.bind (map_step r a m) (map_run rs as)"
| "map_run _ _ m = None"

locale handle_store =
  fixes inv :: "'s \<Rightarrow> bool" and lookup :: "'s \<Rightarrow> 'h \<rightharpoonup> 'o" and full :: "'s \<Rightarrow> bool"
    and add :: "'o \<Rightarrow> 's \<Rightarrow> (('e + 'h) \<times> 's) option"
    and remove :: "'h \<Rightarrow> 's \<Rightarrow> (bool \<times> 's) option"
  assumes add_full: "\<lbrakk>inv s; full s\<rbrakk> \<Longrightarrow> \<exists>e. add x s = Some (Inl e, s)"
    and add_ok: "\<lbrakk>inv s; \<not> full s\<rbrakk> \<Longrightarrow> \<exists>h s'. add x s = Some (Inr h, s') \<and> inv s' \<and>
      lookup s h = None \<and> lookup s' = (lookup s)(h \<mapsto> x)"
    and remove_hit: "\<lbrakk>inv s; lookup s h = Some x\<rbrakk> \<Longrightarrow> \<exists>s'. remove h s = Some (True, s') \<and>
      inv s' \<and> lookup s' = (lookup s)(h := None)"
    and remove_miss: "\<lbrakk>inv s; lookup s h = None\<rbrakk> \<Longrightarrow> remove h s = Some (False, s)"
begin

lemma add_then_remove:
  assumes "inv s" and "\<not> full s"
  shows "\<exists>h s1 s2. add x s = Some (Inr h, s1) \<and> lookup s1 h = Some x \<and>
    remove h s1 = Some (True, s2) \<and> inv s2 \<and> lookup s2 = lookup s"
proof -
  from add_ok [OF assms] obtain h s1 where a: "add x s = Some (Inr h, s1)" "inv s1"
    "lookup s h = None" "lookup s1 = (lookup s)(h \<mapsto> x)" by blast
  then have "lookup s1 h = Some x" by simp
  from remove_hit [OF a(2) this] obtain s2 where "remove h s1 = Some (True, s2)" "inv s2"
    "lookup s2 = (lookup s1)(h := None)" by blast
  with a \<open>lookup s1 h = Some x\<close> show ?thesis
    by (auto simp: fun_upd_idem)
qed

lemma one_request:
  assumes "inv s"
  shows "\<exists>a s1. (case r of
        AddReq x \<Rightarrow> map_option (apfst (case_sum (\<lambda>e. Refused) Issued)) (add x s)
      | RemoveReq h \<Rightarrow> map_option (apfst Removed) (remove h s)) = Some (a, s1) \<and> inv s1 \<and>
    map_step r a (lookup s) = Some (lookup s1)"
proof (cases r)
  case (AddReq x)
  show ?thesis
  proof (cases "full s")
    case True
    from add_full [OF assms True, of x] AddReq assms show ?thesis by auto
  next
    case False
    from add_ok [OF assms False, of x] AddReq show ?thesis by auto
  qed
next
  case (RemoveReq h)
  show ?thesis
  proof (cases "lookup s h")
    case None
    with remove_miss [OF assms None] RemoveReq assms show ?thesis by (auto simp: fun_upd_idem)
  next
    case (Some x)
    from remove_hit [OF assms Some] obtain s1 where "remove h s = Some (True, s1)" "inv s1"
      "lookup s1 = (lookup s)(h := None)" by blast
    with RemoveReq Some show ?thesis
      by (intro exI [of _ "Removed True"] exI [of _ s1]) simp
  qed
qed

theorem run_refines:
  assumes "inv s"
  shows "\<exists>as s'. store_run add remove rs s = Some (as, s') \<and> inv s' \<and>
    map_run rs as (lookup s) = Some (lookup s')"
  using assms
proof (induction rs arbitrary: s)
  case Nil
  then show ?case by simp
next
  case (Cons r rs)
  from one_request [OF Cons.prems, of r] obtain a s1 where a: "(case r of
        AddReq x \<Rightarrow> map_option (apfst (case_sum (\<lambda>e. Refused) Issued)) (add x s)
      | RemoveReq h \<Rightarrow> map_option (apfst Removed) (remove h s)) = Some (a, s1)"
    "inv s1" "map_step r a (lookup s) = Some (lookup s1)" by blast
  from Cons.IH [OF a(2)] obtain as s' where "store_run add remove rs s1 = Some (as, s')" "inv s'"
    "map_run rs as (lookup s1) = Some (lookup s')" by blast
  with a(1,3) show ?case
    by (intro exI [of _ "a # as"] exI [of _ s']) simp
qed

end

end
