(* ===== verification/KAutoObject.thy ===== *)
theory KAutoObject
  imports Prelude
begin

text \<open>
  Reference counts of kernel objects (\<^verbatim>\<open>src/core/hle/kernel/k_auto_object.h\<close>) and the result
  codes of the supervisor calls (\<^verbatim>\<open>src/core/hle/kernel/svc_results.h\<close>).  An object is named by
  a value of the type parameter \<open>'o\<close> (its address); the record \<open>kernel\<close> holds the
  reference count of every object, the objects registered as in use, and the objects whose virtual
  \<open>Destroy\<close> has been called, in order.  \<open>Open\<close> and \<open>Close\<close> are modelled at
  the point where their compare-and-swap succeeds.
\<close>

datatype kresult =
    ResultSuccess
  | ResultOutOfSessions | ResultInvalidArgument | ResultNotImplemented
  | ResultNoSynchronizationObject | ResultTerminationRequested | ResultInvalidSize
  | ResultInvalidAddress | ResultOutOfResource | ResultOutOfMemory | ResultOutOfHandles
  | ResultInvalidCurrentMemory | ResultInvalidNewMemoryPermission | ResultInvalidMemoryRegion
  | ResultInvalidPriority | ResultInvalidCoreId | ResultInvalidHandle | ResultInvalidPointer
  | ResultInvalidCombination | ResultTimedOut | ResultCancelled | ResultOutOfRange
  | ResultInvalidEnumValue | ResultNotFound | ResultBusy | ResultSessionClosed
  | ResultInvalidState | ResultReservedUsed | ResultPortClosed | ResultLimitReached
  | ResultReceiveListBroken | ResultOutOfAddressSpace | ResultMessageTooLarge | ResultInvalidId

record 'o kernel =
  m_ref_count :: "'o \<Rightarrow> u32"
  registered_in_use_objects :: "'o set"
  destroyed_objects :: "'o list"

definition Open :: "'o \<Rightarrow> 'o kernel \<Rightarrow> bool \<times> 'o kernel" where
  "Open obj k =
     (if m_ref_count k obj = 0 then (False, k)
      else (True, k\<lparr>m_ref_count := (m_ref_count k)(obj := m_ref_count k obj + 1)\<rparr>))"

definition Close :: "'o \<Rightarrow> 'o kernel \<Rightarrow> 'o kernel" where
  "Close obj k =
     (let cur_ref_count = m_ref_count k obj in
      if cur_ref_count = 0 then k
      else let k' = k\<lparr>m_ref_count := (m_ref_count k)(obj := cur_ref_count - 1)\<rparr> in
           if cur_ref_count = 1
           then k'\<lparr>destroyed_objects := destroyed_objects k' @ [obj]\<rparr>
           else k')"

definition UnregisterInUseObject :: "'o \<Rightarrow> 'o kernel \<Rightarrow> 'o kernel" where
  "UnregisterInUseObject obj k =
     k\<lparr>registered_in_use_objects := registered_in_use_objects k - {obj}\<rparr>"

text \<open>\<open>KScopedAutoObject\<close>: opens on construction when the pointer is not null.\<close>

definition OpenScoped :: "'o option \<Rightarrow> 'o kernel \<Rightarrow> 'o kernel" where
  "OpenScoped obj k = (case obj of None \<Rightarrow> k | Some p \<Rightarrow> snd (Open p k))"

definition CloseScoped :: "'o option \<Rightarrow> 'o kernel \<Rightarrow> 'o kernel" where
  "CloseScoped obj k = (case obj of None \<Rightarrow> k | Some p \<Rightarrow> Close p k)"

text \<open>
  An object is live when it is referenced and one more reference still fits the 32-bit count.
\<close>

definition live :: "'o kernel \<Rightarrow> 'o \<Rightarrow> bool" where
  "live k obj \<longleftrightarrow> 0 < m_ref_count k obj \<and> m_ref_count k obj + 1 \<noteq> 0"

lemma Close_Open: "live k obj \<Longrightarrow> Close obj (snd (Open obj k)) = k"
  by (auto simp: live_def Open_def Close_def Let_def)

lemma Open_other [frame_simps]: "x \<noteq> obj \<Longrightarrow> m_ref_count (snd (Open obj k)) x = m_ref_count k x"
  by (simp add: Open_def)

lemma Close_other [frame_simps]: "x \<noteq> obj \<Longrightarrow> m_ref_count (Close obj k) x = m_ref_count k x"
  by (simp add: Close_def Let_def)

lemma Open_destroyed [simp]: "destroyed_objects (snd (Open obj k)) = destroyed_objects k"
  by (simp add: Open_def)

lemma Open_live: "live k obj \<Longrightarrow> fst (Open obj k)"
  by (auto simp: live_def Open_def)

lemma CloseScoped_OpenScoped:
  "(\<forall>p. obj = Some p \<longrightarrow> live k p) \<Longrightarrow> CloseScoped obj (OpenScoped obj k) = k"
  by (simp add: CloseScoped_def OpenScoped_def Close_Open split: option.splits)

end
