(* ===== verification/KHandleTable.thy ===== *)
theory KHandleTable
  imports KAutoObject
begin

text \<open>
  The per-process handle table (\<^verbatim>\<open>src/core/hle/kernel/k_handle_table.h\<close> and
  \<^verbatim>\<open>.cpp\<close>).  A handle packs a 15-bit slot index, a 15-bit serial ("linear") id and two
  reserved bits.  Free slots form a linked list threaded through the union \<open>EntryInfo\<close>, which
  is modelled by its 16 raw bits: \<open>linear_id\<close> reads them unsigned, \<open>next_free_index\<close>
  signed.  The main results: the table implements a partial map from handles to objects that is
  updated at a fresh handle by \<open>Add\<close> and cleared at one handle by \<open>Remove\<close>, no
  operation used within its contract reads or writes outside the arrays, and a handle is not
  reissued while its slot is recycled.
\<close>

section \<open>Model\<close>

definition MaxTableSize :: nat where
  "MaxTableSize = 1024"

definition MinLinearId :: u16 where
  "MinLinearId = 1"

definition MaxLinearId :: u16 where
  "MaxLinearId = 0x7FFF"

record 'o handle_table =
  m_entry_infos :: "u16 list"
  m_objects :: "'o option list"
  m_free_head_index :: int
  m_table_size :: u16
  m_max_count :: u16
  m_next_linear_id :: u16
  m_count :: u16

definition handle_table_default :: "'o handle_table" where
  "handle_table_default = \<lparr>m_entry_infos = replicate MaxTableSize 0,
     m_objects = replicate MaxTableSize None, m_free_head_index = 0, m_table_size = 0,
     m_max_count = 0, m_next_linear_id = 0, m_count = 0\<rparr>"

subsection \<open>HandlePack\<close>

definition pack_index :: "u32 \<Rightarrow> u32" where
  "pack_index h = h AND 0x7FFF"

definition pack_linear_id :: "u32 \<Rightarrow> u32" where
  "pack_linear_id h = drop_bit 15 h AND 0x7FFF"

definition pack_reserved :: "u32 \<Rightarrow> u32" where
  "pack_reserved h = drop_bit 30 h AND 3"

definition EncodeHandle :: "u16 \<Rightarrow> u16 \<Rightarrow> u32" where
  "EncodeHandle index linear_id =
     (ucast index AND 0x7FFF) OR (push_bit 15 (ucast linear_id) AND 0x3FFF8000)"

definition CurrentThreadHandle :: u32 where
  "CurrentThreadHandle = 0xFFFF8000"

definition CurrentProcessHandle :: u32 where
  "CurrentProcessHandle = 0xFFFF8001"

definition IsPseudoHandle :: "u32 \<Rightarrow> bool" where
  "IsPseudoHandle h \<longleftrightarrow> h = CurrentProcessHandle \<or> h = CurrentThreadHandle"

subsection \<open>Private operations\<close>

definition Initialize_loop :: "nat \<Rightarrow> 'o handle_table \<Rightarrow> 'o handle_table" where
  "Initialize_loop i t =
     t\<lparr>m_objects := (m_objects t)[i := None],
       m_entry_infos := (m_entry_infos t)[i := word_of_int (int i - 1)],
       m_free_head_index := int i\<rparr>"

definition Initialize :: "int \<Rightarrow> 'o handle_table \<Rightarrow> kresult \<times> 'o handle_table" where
  "Initialize sz t =
     (if \<not> sz \<le> int MaxTableSize then (ResultOutOfMemory, t)
      else let t1 = t\<lparr>m_max_count := 0,
                     m_table_size := word_of_int (if sz \<le> 0 then int MaxTableSize else sz),
                     m_next_linear_id := MinLinearId, m_count := 0, m_free_head_index := - 1\<rparr>
           in (ResultSuccess, fold Initialize_loop [0..<unat (m_table_size t1)] t1))"

definition AllocateEntry :: "'o handle_table \<Rightarrow> (int \<times> 'o handle_table) option" where
  "AllocateEntry t =
     (let index = m_free_head_index t in
      if index < 0 then None
      else do {
        info \<leftarrow> arr_get (m_entry_infos t) (nat index);
        Some (index, t\<lparr>m_free_head_index := sint info, m_count := m_count t + 1,
                       m_max_count := max (m_max_count t) (m_count t + 1)\<rparr>)
      })"

definition FreeEntry :: "nat \<Rightarrow> 'o handle_table \<Rightarrow> 'o handle_table option" where
  "FreeEntry index t = do {
     objs \<leftarrow> arr_set (m_objects t) index None;
     infos \<leftarrow> arr_set (m_entry_infos t) index (word_of_int (m_free_head_index t));
     Some (t\<lparr>m_objects := objs, m_entry_infos := infos, m_free_head_index := int index,
             m_count := m_count t - 1\<rparr>)
   }"

definition AllocateLinearId :: "'o handle_table \<Rightarrow> u16 \<times> 'o handle_table" where
  "AllocateLinearId t =
     (let ident = m_next_linear_id t; nxt = m_next_linear_id t + 1 in
      (ident, t\<lparr>m_next_linear_id := (if nxt > MaxLinearId then MinLinearId else nxt)\<rparr>))"

definition IsValidHandle :: "u32 \<Rightarrow> 'o handle_table \<Rightarrow> bool option" where
  "IsValidHandle h t =
     (if h = 0 then Some False
      else if pack_linear_id h = 0 then Some False
      else if pack_index h \<ge> ucast (m_table_size t) then Some False
      else do {
        obj \<leftarrow> arr_get (m_objects t) (unat (pack_index h));
        if obj = None then Some False
        else do {
          info \<leftarrow> arr_get (m_entry_infos t) (unat (pack_index h));
          Some (ucast info = pack_linear_id h)
        }
      })"

definition GetObjectImpl :: "u32 \<Rightarrow> 'o handle_table \<Rightarrow> 'o option option" where
  "GetObjectImpl h t =
     (if pack_reserved h \<noteq> 0 then Some None
      else do {
        valid \<leftarrow> IsValidHandle h t;
        if valid then arr_get (m_objects t) (unat (pack_index h)) else Some None
      })"

definition GetObjectByIndexImpl ::
  "nat \<Rightarrow> 'o handle_table \<Rightarrow> (u32 \<times> 'o) option option" where
  "GetObjectByIndexImpl index t =
     (if index \<ge> unat (m_table_size t) then Some None
      else do {
        obj \<leftarrow> arr_get (m_objects t) index;
        case obj of
          None \<Rightarrow> Some None
        | Some p \<Rightarrow> do {
            info \<leftarrow> arr_get (m_entry_infos t) index;
            Some (Some (EncodeHandle (of_nat index) info, p))
          }
      })"

subsection \<open>Public operations\<close>

text \<open>
  \<open>Add\<close>, \<open>Reserve\<close>: the error code and, on success, the handle.  The public
  getters return the object they hand out together with the kernel in which the returned
  \<open>KScopedAutoObject\<close> holds its reference.
\<close>

definition Add ::
  "'o \<Rightarrow> 'o kernel \<Rightarrow> 'o handle_table \<Rightarrow> ((kresult + u32) \<times> 'o kernel \<times> 'o handle_table) option" where
  "Add obj k t =
     (if \<not> m_count t < m_table_size t then Some (Inl ResultOutOfHandles, k, t)
      else let (linear_id, t1) = AllocateLinearId t in do {
        (index, t2) \<leftarrow> AllocateEntry t1;
        infos \<leftarrow> arr_set (m_entry_infos t2) (nat index) linear_id;
        objs \<leftarrow> arr_set (m_objects t2) (nat index) (Some obj);
        Some (Inr (EncodeHandle (word_of_int index) linear_id), snd (Open obj k),
              t2\<lparr>m_entry_infos := infos, m_objects := objs\<rparr>)
      })"

definition Reserve :: "'o handle_table \<Rightarrow> ((kresult + u32) \<times> 'o handle_table) option" where
  "Reserve t =
     (if \<not> m_count t < m_table_size t then Some (Inl ResultOutOfHandles, t)
      else do {
        (index, t1) \<leftarrow> AllocateEntry t;
        let (linear_id, t2) = AllocateLinearId t1;
        Some (Inr (EncodeHandle (word_of_int index) linear_id), t2)
      })"

definition Unreserve :: "u32 \<Rightarrow> 'o handle_table \<Rightarrow> 'o handle_table option" where
  "Unreserve h t =
     (if pack_index h < ucast (m_table_size t) then FreeEntry (unat (pack_index h)) t else Some t)"

definition Register ::
  "u32 \<Rightarrow> 'o \<Rightarrow> 'o kernel \<Rightarrow> 'o handle_table \<Rightarrow> ('o kernel \<times> 'o handle_table) option" where
  "Register h obj k t =
     (if pack_index h < ucast (m_table_size t)
      then do {
        infos \<leftarrow> arr_set (m_entry_infos t) (unat (pack_index h)) (ucast (pack_linear_id h));
        objs \<leftarrow> arr_set (m_objects t) (unat (pack_index h)) (Some obj);
        Some (snd (Open obj k), t\<lparr>m_entry_infos := infos, m_objects := objs\<rparr>)
      }
      else Some (k, t))"

definition Remove ::
  "u32 \<Rightarrow> 'o kernel \<Rightarrow> 'o handle_table \<Rightarrow> (bool \<times> 'o kernel \<times> 'o handle_table) option" where
  "Remove h k t =
     (if IsPseudoHandle h then Some (False, k, t)
      else if pack_reserved h \<noteq> 0 then Some (False, k, t)
      else do {
        valid \<leftarrow> IsValidHandle h t;
        if \<not> valid then Some (False, k, t)
        else do {
          obj \<leftarrow> arr_get (m_objects t) (unat (pack_index h));
          t' \<leftarrow> FreeEntry (unat (pack_index h)) t;
          p \<leftarrow> obj;
          Some (True, Close p (UnregisterInUseObject p k), t')
        }
      })"

definition Finalize :: "'o kernel \<Rightarrow> 'o handle_table \<Rightarrow> ('o kernel \<times> 'o handle_table) option" where
  "Finalize k t =
     (let saved_table_size = unat (m_table_size t) in
      if saved_table_size > length (m_objects t) then None
      else Some (fold CloseScoped (take saved_table_size (m_objects t)) k, t\<lparr>m_table_size := 0\<rparr>))"

text \<open>
  \<open>GetObject\<close> is a template.  The type argument decides, by \<open>if constexpr\<close>, which
  pseudo handle is resolved and which dynamic cast is applied: \<open>cast\<close> is the test
  \<open>IsDerivedFrom\<close> for the type, and \<open>pseudo\<close> the pseudo handle with the current
  process or thread, if the type admits one.
\<close>

definition GetObjectWithoutPseudoHandle ::
  "('o \<Rightarrow> bool) \<Rightarrow> u32 \<Rightarrow> 'o kernel \<Rightarrow> 'o handle_table \<Rightarrow> ('o option \<times> 'o kernel) option" where
  "GetObjectWithoutPseudoHandle cast h k t = do {
     obj \<leftarrow> GetObjectImpl h t;
     let r = (case obj of None \<Rightarrow> None | Some p \<Rightarrow> if cast p then Some p else None);
     Some (r, OpenScoped r k)
   }"

definition GetObject ::
  "(u32 \<times> 'o) option \<Rightarrow> ('o \<Rightarrow> bool) \<Rightarrow> u32 \<Rightarrow> 'o kernel \<Rightarrow> 'o handle_table
     \<Rightarrow> ('o option \<times> 'o kernel) option" where
  "GetObject pseudo cast h k t =
     (case pseudo of
        Some (ph, cur) \<Rightarrow>
          if h = ph then Some (Some cur, OpenScoped (Some cur) k)
          else GetObjectWithoutPseudoHandle cast h k t
      | None \<Rightarrow> GetObjectWithoutPseudoHandle cast h k t)"

definition GetObjectForIpc ::
  "'o \<Rightarrow> 'o \<Rightarrow> u32 \<Rightarrow> 'o kernel \<Rightarrow> 'o handle_table \<Rightarrow> ('o option \<times> 'o kernel) option" where
  "GetObjectForIpc cur_process cur_thread h k t =
     (if h = CurrentProcessHandle then Some (Some cur_process, OpenScoped (Some cur_process) k)
      else if h = CurrentThreadHandle then Some (Some cur_thread, OpenScoped (Some cur_thread) k)
      else GetObjectWithoutPseudoHandle (\<lambda>_. True) h k t)"

definition GetObjectByIndex ::
  "nat \<Rightarrow> 'o kernel \<Rightarrow> 'o handle_table \<Rightarrow> ((u32 \<times> 'o) option \<times> 'o kernel) option" where
  "GetObjectByIndex index k t = do {
     r \<leftarrow> GetObjectByIndexImpl index t;
     Some (r, OpenScoped (map_option snd r) k)
   }"

primrec GetMultipleObjects_open ::
  "('o \<Rightarrow> bool) \<Rightarrow> u32 list \<Rightarrow> 'o kernel \<Rightarrow> 'o handle_table \<Rightarrow> ('o list \<times> 'o kernel) option" where
  "GetMultipleObjects_open cast [] k t = Some ([], k)"
| "GetMultipleObjects_open cast (h # hs) k t = do {
     obj \<leftarrow> GetObjectImpl h t;
     case obj of
       None \<Rightarrow> Some ([], k)
     | Some p \<Rightarrow>
         if \<not> cast p then Some ([], k)
         else do {
           (ps, k') \<leftarrow> GetMultipleObjects_open cast hs (snd (Open p k)) t;
           Some (p # ps, k')
         }
   }"

definition GetMultipleObjects ::
  "('o \<Rightarrow> bool) \<Rightarrow> u32 list \<Rightarrow> 'o kernel \<Rightarrow> 'o handle_table \<Rightarrow> (bool \<times> 'o list \<times> 'o kernel) option" where
  "GetMultipleObjects cast handles k t = do {
     (out, k') \<leftarrow> GetMultipleObjects_open cast handles k t;
     if length out = length handles then Some (True, out, k')
     else Some (False, out, fold Close out k')
   }"

section \<open>Encoding of handles\<close>

lemma mask15: "x AND 0x7FFF = take_bit 15 (x :: 32 word)"
  by (simp add: take_bit_eq_mask mask_eq_exp_minus_1)

lemma mask2: "x AND 3 = take_bit 2 (x :: 32 word)"
  by (simp add: take_bit_eq_mask mask_eq_exp_minus_1)

lemma push_mask15: "x AND 0x3FFF8000 = push_bit 15 (take_bit 15 (drop_bit 15 (x :: 32 word)))"
proof -
  have m: "(0x3FFF8000 :: 32 word) = push_bit 15 (mask 15)" by (simp add: mask_eq_exp_minus_1)
  show ?thesis unfolding m by (rule bit_word_eqI) (auto simp: bit_simps)
qed

lemmas pack_defs = pack_index_def pack_linear_id_def pack_reserved_def EncodeHandle_def
  mask15 mask2 push_mask15

lemma pack_index_Encode: "pack_index (EncodeHandle i l) = ucast (take_bit 15 i)"
  by (auto intro!: bit_word_eqI simp: pack_defs bit_simps)

lemma pack_linear_id_Encode: "pack_linear_id (EncodeHandle i l) = ucast (take_bit 15 l)"
  by (auto intro!: bit_word_eqI simp: pack_defs bit_simps)

lemma pack_reserved_Encode: "pack_reserved (EncodeHandle i l) = 0"
  by (auto intro!: bit_word_eqI simp: pack_defs bit_simps)

lemma Encode_pack:
  assumes "pack_reserved h = 0"
  shows "EncodeHandle (ucast (pack_index h)) (ucast (pack_linear_id h)) = h"
proof (rule bit_word_eqI)
  fix n assume n: "n < LENGTH(32)"
  have hi: "\<not> bit h m" if "30 \<le> m" "m < 32" for m
  proof -
    have "bit (pack_reserved h) (m - 30) = bit h m"
      using that by (auto simp: pack_defs bit_simps)
    then show ?thesis using assms by simp
  qed
  consider "n < 15" | "15 \<le> n" "n < 30" | "30 \<le> n" "n < 32"
    using n by fastforce
  then show "bit (EncodeHandle (ucast (pack_index h)) (ucast (pack_linear_id h))) n = bit h n"
  proof cases
    case 3
    with hi [of n] show ?thesis by (auto simp: pack_defs bit_simps)
  qed (auto simp: pack_defs bit_simps)
qed

lemma pack_inj:
  assumes "pack_reserved h = 0" "pack_reserved h' = 0"
    and "pack_index h = pack_index h'" "pack_linear_id h = pack_linear_id h'"
  shows "h = h'"
  by (metis Encode_pack assms)

lemma pack_index_less: "unat (pack_index h) < 32768"
  by (simp add: pack_defs take_bit_eq_mod unat_mod)

lemma pack_zero [simp]: "pack_linear_id 0 = 0" "pack_index 0 = 0"
  by (simp_all add: pack_defs)

lemma take_bit15_small: "x \<le> (0x7FFF :: 16 word) \<Longrightarrow> take_bit 15 x = x"
  by (simp add: take_bit_eq_mod word_le_nat_alt word_unat_eq_iff unat_mod)

section \<open>Invariant\<close>

fun free_chain :: "u16 list \<Rightarrow> int \<Rightarrow> nat list \<Rightarrow> bool" where
  "free_chain infos head [] \<longleftrightarrow> head = - 1"
| "free_chain infos head (i # is) \<longleftrightarrow>
     head = int i \<and> i < length infos \<and> free_chain infos (sint (infos ! i)) is"

text \<open>\<open>ht_free t fl\<close>: the free list of \<open>t\<close> visits exactly the slots \<open>fl\<close>.\<close>

definition ht_free :: "'o handle_table \<Rightarrow> nat list \<Rightarrow> bool" where
  "ht_free t fl \<longleftrightarrow>
     free_chain (m_entry_infos t) (m_free_head_index t) fl \<and> distinct fl \<and>
     (\<forall>i \<in> set fl. i < unat (m_table_size t) \<and> m_objects t ! i = None) \<and>
     length fl + unat (m_count t) = unat (m_table_size t)"

definition ht_wf :: "'o handle_table \<Rightarrow> bool" where
  "ht_wf t \<longleftrightarrow>
     length (m_entry_infos t) = MaxTableSize \<and> length (m_objects t) = MaxTableSize \<and>
     unat (m_table_size t) \<le> MaxTableSize \<and>
     MinLinearId \<le> m_next_linear_id t \<and> m_next_linear_id t \<le> MaxLinearId \<and>
     m_count t \<le> m_max_count t \<and> m_max_count t \<le> m_table_size t \<and>
     (\<forall>i < unat (m_table_size t). m_objects t ! i \<noteq> None \<longrightarrow>
        MinLinearId \<le> m_entry_infos t ! i \<and> m_entry_infos t ! i \<le> MaxLinearId)"

definition ht_inv :: "'o handle_table \<Rightarrow> bool" where
  "ht_inv t \<longleftrightarrow> ht_wf t \<and> (\<exists>fl. ht_free t fl)"

lemmas ht_consts = MaxTableSize_def MinLinearId_def MaxLinearId_def

lemma free_chain_update:
  "i \<notin> set fl \<Longrightarrow> free_chain (infos[i := v]) head fl = free_chain infos head fl"
  by (induction fl arbitrary: head) auto

lemma free_chain_deterministic:
  "free_chain infos head fl \<Longrightarrow> free_chain infos head fl' \<Longrightarrow> fl = fl'"
proof (induction fl arbitrary: head fl')
  case Nil
  then show ?case by (cases fl') auto
next
  case (Cons i fl)
  then show ?case by (cases fl') auto
qed

lemma AllocateEntry_spec:
  assumes "ht_wf t" and "ht_free t fl" and "m_count t < m_table_size t"
  obtains i fl' where "fl = i # fl'" and "i < unat (m_table_size t)" and "m_objects t ! i = None"
    and "AllocateEntry t = Some (int i, t\<lparr>m_free_head_index := sint (m_entry_infos t ! i),
           m_count := m_count t + 1, m_max_count := max (m_max_count t) (m_count t + 1)\<rparr>)"
proof (cases fl)
  case Nil
  with assms show ?thesis by (simp add: ht_free_def word_less_nat_alt)
next
  case (Cons i fl')
  with assms(2) have "m_free_head_index t = int i" and "i < length (m_entry_infos t)"
    and "i < unat (m_table_size t)" and "m_objects t ! i = None"
    by (auto simp: ht_free_def)
  then show ?thesis
    by (intro that [OF Cons]) (auto simp: AllocateEntry_def Let_def)
qed

lemma AllocateLinearId_simps [simp]:
  "m_entry_infos (snd (AllocateLinearId t)) = m_entry_infos t"
  "m_objects (snd (AllocateLinearId t)) = m_objects t"
  "m_free_head_index (snd (AllocateLinearId t)) = m_free_head_index t"
  "m_table_size (snd (AllocateLinearId t)) = m_table_size t"
  "m_max_count (snd (AllocateLinearId t)) = m_max_count t"
  "m_count (snd (AllocateLinearId t)) = m_count t"
  "fst (AllocateLinearId t) = m_next_linear_id t"
  by (simp_all add: AllocateLinearId_def Let_def)

lemma AllocateLinearId_wf:
  assumes "ht_wf t"
  shows "MinLinearId \<le> m_next_linear_id t" and "m_next_linear_id t \<le> MaxLinearId"
    and "MinLinearId \<le> m_next_linear_id (snd (AllocateLinearId t))"
    and "m_next_linear_id (snd (AllocateLinearId t)) \<le> MaxLinearId"
proof -
  show b: "MinLinearId \<le> m_next_linear_id t" "m_next_linear_id t \<le> MaxLinearId"
    using assms by (auto simp: ht_wf_def)
  then have "unat (m_next_linear_id t + 1) = Suc (unat (m_next_linear_id t))"
    by (intro unat_inc [where b = "0x8000"]) (auto simp: ht_consts word_le_nat_alt word_less_nat_alt)
  with b show "MinLinearId \<le> m_next_linear_id (snd (AllocateLinearId t))"
    and "m_next_linear_id (snd (AllocateLinearId t)) \<le> MaxLinearId"
    by (auto simp: AllocateLinearId_def Let_def ht_consts word_le_nat_alt word_less_nat_alt)
qed

lemma ht_wf_linear_id: "ht_wf t \<Longrightarrow> ht_wf (snd (AllocateLinearId t))"
  by (frule AllocateLinearId_wf(3), frule AllocateLinearId_wf(4)) (simp add: ht_wf_def)

lemma ht_free_linear_id: "ht_free (snd (AllocateLinearId t)) fl = ht_free t fl"
  by (simp add: ht_free_def)

section \<open>The table as a map from handles to objects\<close>

definition ht_slot :: "u32 \<Rightarrow> nat" where
  "ht_slot h = unat (pack_index h)"

definition ht_names :: "'o handle_table \<Rightarrow> u32 \<Rightarrow> bool" where
  "ht_names t h \<longleftrightarrow> pack_reserved h = 0 \<and> pack_linear_id h \<noteq> 0 \<and>
     ht_slot h < unat (m_table_size t) \<and> ucast (m_entry_infos t ! ht_slot h) = pack_linear_id h"

definition ht_abs :: "'o handle_table \<Rightarrow> u32 \<rightharpoonup> 'o" where
  "ht_abs t h = (if ht_names t h then m_objects t ! ht_slot h else None)"

lemma unat_ucast_u16 [simp]: "unat (ucast (x :: u16) :: u32) = unat x"
  by (simp add: unsigned_ucast_eq take_bit_nat_eq_self unsigned_less [THEN less_le_trans])

lemma ucast_u32_u16 [simp]: "(ucast (ucast (x :: u16) :: u32) :: u16) = x"
  by (rule bit_word_eqI) (simp add: bit_simps)

lemma ht_slot_bound:
  "ht_wf t \<Longrightarrow> pack_index h < ucast (m_table_size t) \<longleftrightarrow> ht_slot h < unat (m_table_size t)"
  by (simp add: ht_slot_def word_less_nat_alt)

lemma ht_slot_in_arrays:
  assumes "ht_wf t" and "ht_slot h < unat (m_table_size t)"
  shows "ht_slot h < length (m_entry_infos t)" and "ht_slot h < length (m_objects t)"
  using assms by (auto simp: ht_wf_def)

lemma IsValidHandle_abs:
  assumes "ht_wf t" and "pack_reserved h = 0"
  shows "IsValidHandle h t = Some (ht_abs t h \<noteq> None)"
proof (cases "pack_linear_id h = 0 \<or> \<not> ht_slot h < unat (m_table_size t)")
  case True
  then show ?thesis
    using ht_slot_bound [OF assms(1), of h]
    by (auto simp: IsValidHandle_def ht_abs_def ht_names_def linorder_not_le)
next
  case False
  then show ?thesis
    using assms ht_slot_bound [OF assms(1), of h] ht_slot_in_arrays [OF assms(1), of h]
    by (auto simp: IsValidHandle_def ht_abs_def ht_names_def linorder_not_le ht_slot_def)
qed

lemma GetObjectImpl_abs:
  assumes "ht_wf t"
  shows "GetObjectImpl h t = Some (ht_abs t h)"
proof (cases "pack_reserved h = 0")
  case True
  show ?thesis
  proof (cases "ht_abs t h")
    case None
    with True IsValidHandle_abs [OF assms True] show ?thesis by (simp add: GetObjectImpl_def)
  next
    case (Some p)
    then have "ht_slot h < unat (m_table_size t)" and "m_objects t ! ht_slot h = Some p"
      by (auto simp: ht_abs_def ht_names_def split: if_splits)
    with True Some IsValidHandle_abs [OF assms True] ht_slot_in_arrays [OF assms]
    show ?thesis by (simp add: GetObjectImpl_def ht_slot_def)
  qed
next
  case False
  then show ?thesis by (simp add: GetObjectImpl_def ht_abs_def ht_names_def)
qed

lemma ht_names_unique:
  "ht_names t h \<Longrightarrow> ht_names t h' \<Longrightarrow> ht_slot h = ht_slot h' \<Longrightarrow> h = h'"
  by (rule pack_inj) (auto simp: ht_names_def ht_slot_def word_unat_eq_iff)

lemma ht_slot_Encode:
  assumes i: "i < MaxTableSize"
  shows "ht_slot (EncodeHandle (of_nat i) l) = i"
proof -
  have u: "unat (of_nat i :: u16) = i"
    using i by (simp add: unat_of_nat ht_consts)
  with i have "take_bit 15 (of_nat i :: u16) = of_nat i"
    by (intro take_bit15_small) (simp add: word_le_nat_alt ht_consts)
  with u show ?thesis
    by (simp add: ht_slot_def pack_index_Encode)
qed

lemma ht_names_Encode:
  assumes "i < unat (m_table_size t)" and "unat (m_table_size t) \<le> MaxTableSize"
    and "MinLinearId \<le> l" and "l \<le> MaxLinearId" and "m_entry_infos t ! i = l"
  shows "ht_names t (EncodeHandle (of_nat i) l)"
proof -
  have l: "take_bit 15 l = l"
    using assms(4) by (intro take_bit15_small) (simp add: ht_consts)
  have "l \<noteq> 0" using assms(3) by (auto simp: ht_consts)
  then have "(ucast l :: u32) \<noteq> 0" by (simp add: word_unat_eq_iff)
  with assms l show ?thesis
    by (simp add: ht_names_def pack_reserved_Encode pack_linear_id_Encode ht_slot_Encode)
qed

lemma ht_abs_fill:
  assumes wf: "ht_wf t" and i: "i < unat (m_table_size t)" and free: "m_objects t ! i = None"
    and l: "MinLinearId \<le> l" "l \<le> MaxLinearId"
    and t': "m_entry_infos t' = (m_entry_infos t)[i := l]"
      "m_objects t' = (m_objects t)[i := Some obj]" "m_table_size t' = m_table_size t"
  shows "ht_abs t' = (ht_abs t)(EncodeHandle (of_nat i) l \<mapsto> obj)"
    and "ht_abs t (EncodeHandle (of_nat i) l) = None"
proof -
  let ?h = "EncodeHandle (of_nat i) l"
  from wf i have len: "i < length (m_entry_infos t)" "i < length (m_objects t)"
    and sz: "unat (m_table_size t) \<le> MaxTableSize"
    by (auto simp: ht_wf_def)
  have slot: "ht_slot ?h = i"
    using i sz by (intro ht_slot_Encode) simp
  have names: "ht_names t' ?h"
    using i sz l len by (intro ht_names_Encode) (auto simp: t')
  show "ht_abs t ?h = None"
    by (simp add: ht_abs_def slot free)
  show "ht_abs t' = (ht_abs t)(?h \<mapsto> obj)"
  proof
    fix h
    show "ht_abs t' h = ((ht_abs t)(?h \<mapsto> obj)) h"
    proof (cases "ht_slot h = i")
      case True
      then have n: "ht_names t' h \<longleftrightarrow> h = ?h"
        using names slot ht_names_unique [of t' h ?h] by metis
      have old: "ht_abs t h = None"
        by (simp add: ht_abs_def True free)
      from len(2) show ?thesis
        by (simp add: ht_abs_def [of t'] n t' True old slot)
    next
      case False
      with slot show ?thesis by (auto simp: ht_abs_def ht_names_def t')
    qed
  qed
qed

lemma ht_abs_clear:
  assumes "ht_wf t" and "i < unat (m_table_size t)"
    and t': "m_entry_infos t' = (m_entry_infos t)[i := v]"
      "m_objects t' = (m_objects t)[i := None]" "m_table_size t' = m_table_size t"
  shows "ht_abs t' = (\<lambda>h. if ht_slot h = i then None else ht_abs t h)"
  using assms by (auto simp: ht_abs_def ht_names_def ht_wf_def fun_eq_iff)

lemma ht_abs_SomeD:
  "ht_abs t h = Some p \<Longrightarrow> ht_names t h \<and> ht_slot h < unat (m_table_size t) \<and>
     m_objects t ! ht_slot h = Some p"
  by (auto simp: ht_abs_def ht_names_def split: if_splits)

lemma ht_abs_clear_handle:
  assumes "ht_abs t h = Some p"
  shows "(\<lambda>h'. if ht_slot h' = ht_slot h then None else ht_abs t h') = (ht_abs t)(h := None)"
proof
  fix h'
  have "ht_abs t h' = None" if "ht_slot h' = ht_slot h" "h' \<noteq> h"
    using that assms ht_names_unique [of t h h'] by (auto simp: ht_abs_def split: if_splits)
  then show "(if ht_slot h' = ht_slot h then None else ht_abs t h') = ((ht_abs t)(h := None)) h'"
    by auto
qed

section \<open>Every operation keeps the invariant\<close>

lemma sint_u16: "- 32768 \<le> x \<Longrightarrow> x < 32768 \<Longrightarrow> sint (word_of_int x :: u16) = x"
  by (simp add: sint_sbintrunc' signed_take_bit_int_eq_self)

lemma unat_u16: "0 \<le> x \<Longrightarrow> x < 65536 \<Longrightarrow> unat (word_of_int x :: u16) = nat x"
  by (simp add: unat_eq_nat_uint uint_word_of_int_eq take_bit_int_eq_self)

lemma ht_free_head_small:
  assumes "ht_wf t" and "ht_free t fl"
  shows "sint (word_of_int (m_free_head_index t) :: u16) = m_free_head_index t"
proof -
  have "- 1 \<le> m_free_head_index t \<and> m_free_head_index t < 1024"
    using assms by (cases fl) (auto simp: ht_free_def ht_wf_def ht_consts)
  then show ?thesis
    by (intro sint_u16) auto
qed

lemma FreeEntry_spec:
  assumes wf: "ht_wf t" and free: "ht_free t fl"
    and i: "i < unat (m_table_size t)" "i \<notin> set fl"
  obtains t' where "FreeEntry i t = Some t'" and "ht_wf t'" and "ht_free t' (i # fl)"
    and "ht_abs t' = (\<lambda>h. if ht_slot h = i then None else ht_abs t h)"
proof -
  let ?t = "t\<lparr>m_objects := (m_objects t)[i := None],
    m_entry_infos := (m_entry_infos t)[i := word_of_int (m_free_head_index t)],
    m_free_head_index := int i, m_count := m_count t - 1\<rparr>"
  have len: "i < length (m_entry_infos t)" "i < length (m_objects t)"
    using wf i by (auto simp: ht_wf_def)
  have "insert i (set fl) \<subseteq> {..<unat (m_table_size t)}" and "distinct fl"
    using free i by (auto simp: ht_free_def)
  from card_mono [OF _ this(1)] this(2) i(2) have "length fl < unat (m_table_size t)"
    by (simp add: distinct_card)
  with free have cnt0: "0 < unat (m_count t)"
    by (simp add: ht_free_def)
  then have cnt: "m_count t \<noteq> 0" by auto
  show ?thesis
  proof (rule that)
    show "FreeEntry i t = Some ?t"
      using len by (simp add: FreeEntry_def)
    show "ht_free ?t (i # fl)"
      using free i len cnt cnt0 ht_free_head_small [OF wf free]
      by (auto simp: ht_free_def free_chain_update unat_dec nth_list_update)
    show "ht_wf ?t"
      using wf len cnt
      by (auto simp: ht_wf_def nth_list_update word_le_nat_alt unat_dec)
    show "ht_abs ?t = (\<lambda>h. if ht_slot h = i then None else ht_abs t h)"
      by (rule ht_abs_clear [OF wf i(1)]) simp_all
  qed
qed

lemma ht_take_entry:
  assumes wf: "ht_wf t" and free: "ht_free t (i # fl)" and c: "m_count t < m_table_size t"
    and t': "m_free_head_index t' = sint (m_entry_infos t ! i)" "m_count t' = m_count t + 1"
      "m_max_count t' = max (m_max_count t) (m_count t + 1)" "m_table_size t' = m_table_size t"
      "MinLinearId \<le> m_next_linear_id t'" "m_next_linear_id t' \<le> MaxLinearId"
      "m_entry_infos t' = (m_entry_infos t)[i := v]" "m_objects t' = (m_objects t)[i := x]"
    and v: "x \<noteq> None \<Longrightarrow> MinLinearId \<le> v \<and> v \<le> MaxLinearId"
  shows "ht_wf t' \<and> ht_free t' fl"
proof
  have inc: "unat (m_count t + 1) = Suc (unat (m_count t))"
    using c by (rule unat_inc)
  show "ht_free t' fl"
    using free by (auto simp: ht_free_def t' inc free_chain_update) (metis nth_list_update_neq)
  have "m_count t + 1 \<le> m_table_size t"
    using c by (simp add: word_le_nat_alt word_less_nat_alt inc)
  moreover have "i < MaxTableSize"
    using wf free by (auto simp: ht_wf_def ht_free_def)
  ultimately show "ht_wf t'"
    using wf v by (auto simp: ht_wf_def t' nth_list_update)
qed

lemma Add_spec:
  assumes inv: "ht_inv t" and c: "m_count t < m_table_size t"
  obtains h t' where "Add obj k t = Some (Inr h, snd (Open obj k), t')" and "ht_inv t'"
    and "ht_abs t h = None" and "ht_abs t' = (ht_abs t)(h \<mapsto> obj)" and "m_count t' = m_count t + 1"
    and "pack_linear_id h = ucast (m_next_linear_id t)"
    and "m_next_linear_id t' = m_next_linear_id (snd (AllocateLinearId t))"
    and "m_table_size t' = m_table_size t"
proof -
  from inv obtain fl where wf: "ht_wf t" and free: "ht_free t fl"
    by (auto simp: ht_inv_def)
  let ?l = "m_next_linear_id t" and ?t1 = "snd (AllocateLinearId t)"
  have l: "MinLinearId \<le> ?l" "?l \<le> MaxLinearId"
    using AllocateLinearId_wf [OF wf] by auto
  obtain i fl' where fl: "fl = i # fl'" and i: "i < unat (m_table_size t)" "m_objects t ! i = None"
    and al: "AllocateEntry ?t1 = Some (int i, ?t1\<lparr>m_free_head_index := sint (m_entry_infos t ! i),
           m_count := m_count t + 1, m_max_count := max (m_max_count t) (m_count t + 1)\<rparr>)"
    using AllocateEntry_spec [of ?t1 fl] wf free c
    by (auto simp: ht_wf_linear_id ht_free_linear_id)
  have len: "i < length (m_entry_infos t)" "i < length (m_objects t)"
    using wf i by (auto simp: ht_wf_def)
  let ?t = "?t1\<lparr>m_free_head_index := sint (m_entry_infos t ! i), m_count := m_count t + 1,
     m_max_count := max (m_max_count t) (m_count t + 1),
     m_entry_infos := (m_entry_infos t)[i := ?l], m_objects := (m_objects t)[i := Some obj]\<rparr>"
  have "ht_wf ?t \<and> ht_free ?t fl'"
    by (rule ht_take_entry [OF wf free [unfolded fl] c, where v = ?l and x = "Some obj"])
       (use AllocateLinearId_wf [OF wf] in simp_all)
  moreover have "Add obj k t = Some (Inr (EncodeHandle (of_nat i) ?l), snd (Open obj k), ?t)"
    using c al len by (simp add: Add_def case_prod_beta)
  moreover have "take_bit 15 ?l = ?l"
    using l by (intro take_bit15_small) (simp add: ht_consts)
  moreover note ht_abs_fill [OF wf i l, of ?t obj]
  ultimately show ?thesis
    by (intro that [of "EncodeHandle (of_nat i) ?l" ?t])
       (auto simp: ht_inv_def pack_linear_id_Encode)
qed

lemma Remove_spec:
  assumes inv: "ht_inv t" and h: "ht_abs t h = Some p"
  obtains t' where "Remove h k t = Some (True, Close p (UnregisterInUseObject p k), t')"
    and "ht_inv t'" and "ht_abs t' = (ht_abs t)(h := None)"
    and "m_next_linear_id t' = m_next_linear_id t" and "m_table_size t' = m_table_size t"
    and "m_count t' = m_count t - 1"
proof -
  from inv obtain fl where wf: "ht_wf t" and free: "ht_free t fl"
    by (auto simp: ht_inv_def)
  from ht_abs_SomeD [OF h] have n: "ht_names t h" and i: "ht_slot h < unat (m_table_size t)"
    and obj: "m_objects t ! ht_slot h = Some p" by auto
  from n have res: "pack_reserved h = 0" by (simp add: ht_names_def)
  then have np: "\<not> IsPseudoHandle h"
    by (auto simp: IsPseudoHandle_def CurrentProcessHandle_def CurrentThreadHandle_def pack_reserved_def)
  from free obj have "ht_slot h \<notin> set fl" by (auto simp: ht_free_def)
  from FreeEntry_spec [OF wf free i this] obtain t' where
    t': "FreeEntry (ht_slot h) t = Some t'" "ht_wf t'" "ht_free t' (ht_slot h # fl)"
    "ht_abs t' = (\<lambda>h'. if ht_slot h' = ht_slot h then None else ht_abs t h')" .
  moreover have "m_next_linear_id t' = m_next_linear_id t \<and> m_table_size t' = m_table_size t \<and>
      m_count t' = m_count t - 1"
    using t'(1) by (auto simp: FreeEntry_def arr_set_eq_Some bind_eq_Some_conv)
  moreover have "Remove h k t = Some (True, Close p (UnregisterInUseObject p k), t')"
    using np res h IsValidHandle_abs [OF wf res] obj t'(1) ht_slot_in_arrays [OF wf i]
    by (simp add: Remove_def ht_slot_def)
  ultimately show ?thesis
    using ht_abs_clear_handle [OF h] by (intro that [of t']) (auto simp: ht_inv_def)
qed

lemma Reserve_spec:
  assumes wf: "ht_wf t" and free: "ht_free t fl" and c: "m_count t < m_table_size t"
  obtains i fl' t' where "fl = i # fl'" and "i < unat (m_table_size t)" and "m_objects t ! i = None"
    and "Reserve t = Some (Inr (EncodeHandle (of_nat i) (m_next_linear_id t)), t')"
    and "ht_wf t'" and "ht_free t' fl'" and "ht_abs t' = ht_abs t"
    and "m_table_size t' = m_table_size t" and "m_objects t' = m_objects t"
proof -
  obtain i fl' where fl: "fl = i # fl'" and i: "i < unat (m_table_size t)" "m_objects t ! i = None"
    and al: "AllocateEntry t = Some (int i, t\<lparr>m_free_head_index := sint (m_entry_infos t ! i),
           m_count := m_count t + 1, m_max_count := max (m_max_count t) (m_count t + 1)\<rparr>)"
    using AllocateEntry_spec [OF wf free c] by blast
  have objs: "(m_objects t)[i := None] = m_objects t"
    using i(2) by (metis list_update_id)
  let ?t = "t\<lparr>m_free_head_index := sint (m_entry_infos t ! i), m_count := m_count t + 1,
     m_max_count := max (m_max_count t) (m_count t + 1),
     m_next_linear_id := m_next_linear_id (snd (AllocateLinearId t))\<rparr>"
  have "ht_wf ?t \<and> ht_free ?t fl'"
    by (rule ht_take_entry [OF wf free [unfolded fl] c, where v = "m_entry_infos t ! i" and x = None])
       (use AllocateLinearId_wf [OF wf] objs in simp_all)
  moreover have "Reserve t = Some (Inr (EncodeHandle (of_nat i) (m_next_linear_id t)), ?t)"
    using c al by (simp add: Reserve_def AllocateLinearId_def Let_def)
  moreover have "ht_abs ?t = ht_abs t"
    by (simp add: ht_abs_def ht_names_def fun_eq_iff)
  ultimately show ?thesis
    using i fl by (intro that [of i fl' ?t]) auto
qed

lemma Register_spec:
  assumes wf: "ht_wf t" and free: "ht_free t fl"
    and i: "i < unat (m_table_size t)" "i \<notin> set fl" "m_objects t ! i = None"
    and l: "MinLinearId \<le> l" "l \<le> MaxLinearId"
  obtains t' where "Register (EncodeHandle (of_nat i) l) obj k t = Some (snd (Open obj k), t')"
    and "ht_wf t'" and "ht_free t' fl" and "ht_abs t' = (ht_abs t)(EncodeHandle (of_nat i) l \<mapsto> obj)"
proof -
  let ?h = "EncodeHandle (of_nat i) l"
  let ?t = "t\<lparr>m_entry_infos := (m_entry_infos t)[i := l], m_objects := (m_objects t)[i := Some obj]\<rparr>"
  have sz: "i < MaxTableSize" and len: "i < length (m_entry_infos t)" "i < length (m_objects t)"
    using wf i by (auto simp: ht_wf_def)
  have slot: "ht_slot ?h = i" using sz by (rule ht_slot_Encode)
  have lid: "ucast (pack_linear_id ?h) = l"
    using l take_bit15_small [of l] by (simp add: pack_linear_id_Encode ht_consts)
  show ?thesis
  proof (rule that)
    show "Register ?h obj k t = Some (snd (Open obj k), ?t)"
      using ht_slot_bound [OF wf, of ?h] slot i len lid by (simp add: Register_def flip: ht_slot_def)
    show "ht_wf ?t" using wf l len by (auto simp: ht_wf_def nth_list_update)
    show "ht_free ?t fl" using free i len by (auto simp: ht_free_def free_chain_update nth_list_update)
    show "ht_abs ?t = (ht_abs t)(?h \<mapsto> obj)" by (rule ht_abs_fill [OF wf i(1,3) l]) simp_all
  qed
qed

lemma Initialize_loop_fields:
  assumes "n \<le> length (m_entry_infos t)" and "n \<le> length (m_objects t)"
  defines "t' \<equiv> fold Initialize_loop [0..<n] t"
  shows "m_objects t' = replicate n None @ drop n (m_objects t)"
    and "m_entry_infos t' = map (\<lambda>i. word_of_int (int i - 1)) [0..<n] @ drop n (m_entry_infos t)"
    and "m_free_head_index t' = (if n = 0 then m_free_head_index t else int n - 1)"
    and "m_table_size t' = m_table_size t \<and> m_max_count t' = m_max_count t \<and>
      m_next_linear_id t' = m_next_linear_id t \<and> m_count t' = m_count t"
  using assms(1,2) unfolding t'_def
  by (induction n) (simp_all add: Initialize_loop_def list_update_append Cons_nth_drop_Suc [symmetric]
      replicate_append_same [symmetric])

lemma free_chain_initial:
  assumes "n \<le> 1024" and "n \<le> length infos"
    and "\<And>i. i < n \<Longrightarrow> infos ! i = word_of_int (int i - 1)"
  shows "free_chain infos (int n - 1) (rev [0..<n])"
  using assms
proof (induction n)
  case 0
  then show ?case by simp
next
  case (Suc n)
  have "sint (word_of_int (int n - 1) :: u16) = int n - 1"
    using Suc.prems(1) by (intro sint_u16) auto
  with Suc show ?case by simp
qed

lemma Initialize_spec:
  assumes "length (m_entry_infos t) = MaxTableSize" and "length (m_objects t) = MaxTableSize"
    and sz: "sz \<le> int MaxTableSize"
  obtains t' where "Initialize sz t = (ResultSuccess, t')" and "ht_inv t'" and "ht_abs t' = Map.empty"
    and "m_count t' = 0" and "unat (m_table_size t') = (if sz \<le> 0 then MaxTableSize else nat sz)"
proof -
  define n where "n = (if sz \<le> 0 then MaxTableSize else nat sz)"
  define t1 where "t1 = t\<lparr>m_max_count := 0,
     m_table_size := word_of_int (if sz \<le> 0 then int MaxTableSize else sz),
     m_next_linear_id := MinLinearId, m_count := 0, m_free_head_index := - 1\<rparr>"
  define t' where "t' = fold Initialize_loop [0..<n] t1"
  have n: "unat (m_table_size t1) = n" "n \<le> MaxTableSize" "0 < n"
    using sz by (auto simp: t1_def n_def ht_consts unat_u16)
  note f = Initialize_loop_fields [of n t1, folded t'_def]
  have f': "m_objects t' = replicate n None @ drop n (m_objects t)"
    "m_entry_infos t' = map (\<lambda>i. word_of_int (int i - 1)) [0..<n] @ drop n (m_entry_infos t)"
    "m_free_head_index t' = int n - 1" "unat (m_table_size t') = n" "m_max_count t' = 0"
    "m_next_linear_id t' = MinLinearId" "m_count t' = 0"
    using f n assms by (simp_all add: t1_def)
  have "free_chain (m_entry_infos t') (int n - 1) (rev [0..<n])"
    by (rule free_chain_initial) (use n f' in \<open>simp_all add: ht_consts nth_append\<close>)
  then have "ht_free t' (rev [0..<n])"
    using n f' by (auto simp: ht_free_def nth_append)
  moreover have "ht_wf t'"
    using n(2) f' assms(1,2) by (auto simp: ht_wf_def nth_append ht_consts)
  moreover have "ht_abs t' = Map.empty"
    using f' by (auto simp: ht_abs_def ht_names_def nth_append fun_eq_iff)
  moreover have "Initialize sz t = (ResultSuccess, t')"
    using sz n by (simp add: Initialize_def Let_def t'_def flip: t1_def)
  ultimately show ?thesis
    using f' by (intro that [of t']) (auto simp: ht_inv_def n_def)
qed

text \<open>An operation of the table together with the kernel it opens and closes objects in.\<close>

datatype 'o ht_op = OpAdd 'o | OpRemove u32 | OpReserve | OpUnreserve u32 | OpRegister u32 'o

fun ht_step :: "'o ht_op \<Rightarrow> 'o kernel \<times> 'o handle_table \<Rightarrow> ('o kernel \<times> 'o handle_table) option" where
  "ht_step (OpAdd obj) (k, t) = map_option snd (Add obj k t)"
| "ht_step (OpRemove h) (k, t) = map_option snd (Remove h k t)"
| "ht_step OpReserve (k, t) = map_option (\<lambda>(r, t'). (k, t')) (Reserve t)"
| "ht_step (OpUnreserve h) (k, t) = map_option (Pair k) (Unreserve h t)"
| "ht_step (OpRegister h obj) (k, t) = Register h obj k t"

text \<open>
  The contract of the callers: \<open>Unreserve\<close> and \<open>Register\<close> are only called with a
  handle whose slot \<open>Reserve\<close> has taken off the free list and that holds no object.
\<close>

definition ht_reserved :: "u32 \<Rightarrow> 'o handle_table \<Rightarrow> bool" where
  "ht_reserved h t \<longleftrightarrow> pack_reserved h = 0 \<and> pack_linear_id h \<noteq> 0 \<and>
     ht_slot h < unat (m_table_size t) \<and> m_objects t ! ht_slot h = None \<and>
     (\<exists>fl. ht_free t fl \<and> ht_slot h \<notin> set fl)"

fun ht_pre :: "'o ht_op \<Rightarrow> 'o kernel \<times> 'o handle_table \<Rightarrow> bool" where
  "ht_pre (OpUnreserve h) (k, t) = ht_reserved h t"
| "ht_pre (OpRegister h obj) (k, t) = ht_reserved h t"
| "ht_pre _ _ = True"

lemma Add_full: "\<not> m_count t < m_table_size t \<Longrightarrow> Add obj k t = Some (Inl ResultOutOfHandles, k, t)"
  by (simp add: Add_def)

lemma Remove_miss:
  assumes "ht_wf t" and "ht_abs t h = None"
  shows "Remove h k t = Some (False, k, t)"
  using assms IsValidHandle_abs [of t h] by (cases "pack_reserved h = 0") (auto simp: Remove_def)

lemma ht_reserved_encoding:
  assumes "ht_wf t" and "ht_reserved h t"
  obtains i l where "h = EncodeHandle (of_nat i) l" and "i = ht_slot h"
    and "MinLinearId \<le> l" and "l \<le> MaxLinearId"
proof
  show "h = EncodeHandle (of_nat (ht_slot h)) (ucast (pack_linear_id h))"
    using assms Encode_pack [of h] by (simp add: ht_reserved_def ht_slot_def unsigned_ucast_eq)
  have "unat (pack_linear_id h) < 32768"
    by (simp add: pack_defs take_bit_eq_mod unat_mod)
  then have u: "unat (ucast (pack_linear_id h) :: u16) = unat (pack_linear_id h)"
    by (simp add: unsigned_ucast_eq take_bit_nat_eq_self)
  show "ht_slot h = ht_slot h" ..
  show "MinLinearId \<le> ucast (pack_linear_id h)"
    using assms(2) u by (simp add: ht_reserved_def ht_consts word_le_nat_alt Suc_le_eq unat_gt_0)
  show "ucast (pack_linear_id h) \<le> MaxLinearId"
    using \<open>unat (pack_linear_id h) < 32768\<close> u by (simp add: ht_consts word_le_nat_alt)
qed

lemma ht_step_inv:
  assumes inv: "ht_inv t" and pre: "ht_pre x (k, t)"
  shows "\<exists>k' t'. ht_step x (k, t) = Some (k', t') \<and> ht_inv t'"
proof (cases x)
  case (OpAdd obj)
  show ?thesis
  proof (cases "m_count t < m_table_size t")
    case True
    from Add_spec [OF inv True] OpAdd show ?thesis by (metis ht_step.simps(1) option.map(2) snd_conv)
  next
    case False
    with OpAdd inv show ?thesis by (simp add: Add_full)
  qed
next
  case (OpRemove h)
  from inv have wf: "ht_wf t" by (simp add: ht_inv_def)
  show ?thesis
  proof (cases "ht_abs t h")
    case None
    with OpRemove inv Remove_miss [OF wf None] show ?thesis by simp
  next
    case (Some p)
    from Remove_spec [OF inv Some] OpRemove show ?thesis
      by (metis ht_step.simps(2) option.map(2) snd_conv)
  qed
next
  case OpReserve
  from inv obtain fl where f: "ht_wf t" "ht_free t fl" by (auto simp: ht_inv_def)
  show ?thesis
  proof (cases "m_count t < m_table_size t")
    case True
    from Reserve_spec [OF f True] obtain r t' where "Reserve t = Some (r, t')" "ht_inv t'"
      by (metis ht_inv_def)
    with OpReserve show ?thesis by simp
  next
    case False
    with OpReserve inv show ?thesis by (simp add: Reserve_def)
  qed
next
  case (OpUnreserve h)
  with pre inv obtain fl where f: "ht_wf t" "ht_free t fl" "ht_slot h < unat (m_table_size t)"
    "ht_slot h \<notin> set fl" by (auto simp: ht_inv_def ht_reserved_def)
  from FreeEntry_spec [OF f] obtain t' where "FreeEntry (ht_slot h) t = Some t'" "ht_inv t'"
    by (metis ht_inv_def)
  with OpUnreserve ht_slot_bound [OF f(1), of h] f(3) show ?thesis
    by (simp add: Unreserve_def flip: ht_slot_def)
next
  case (OpRegister h obj)
  with pre inv obtain fl where r: "ht_reserved h t" and f: "ht_wf t" "ht_free t fl"
    "ht_slot h < unat (m_table_size t)" "ht_slot h \<notin> set fl" "m_objects t ! ht_slot h = None"
    by (auto simp: ht_inv_def ht_reserved_def)
  from ht_reserved_encoding [OF f(1) r] obtain l where l: "h = EncodeHandle (of_nat (ht_slot h)) l"
    "MinLinearId \<le> l" "l \<le> MaxLinearId" by metis
  from Register_spec [OF f l(2,3), of obj k] obtain t' where
    "Register (EncodeHandle (of_nat (ht_slot h)) l) obj k t = Some (snd (Open obj k), t')" "ht_inv t'"
    by (metis ht_inv_def)
  with OpRegister l(1) show ?thesis by (metis ht_step.simps(5))
qed

interpretation ht_store: handle_store "\<lambda>(k, t). ht_inv t" "\<lambda>(k, t). ht_abs t"
  "\<lambda>(k, t). \<not> m_count t < m_table_size t" "\<lambda>obj (k, t). Add obj k t" "\<lambda>h (k, t). Remove h k t"
proof (unfold_locales, goal_cases)
  case (1 s x)
  then show ?case by (auto simp: Add_full)
next
  case (2 s x)
  then obtain k t where s: "s = (k, t)" and "ht_inv t" and "m_count t < m_table_size t"
    by (cases s) auto
  from Add_spec [OF this(2,3), of x k] show ?case unfolding s by (metis case_prod_conv)
next
  case (3 s h x)
  then obtain k t where s: "s = (k, t)" and "ht_inv t" and "ht_abs t h = Some x"
    by (cases s) auto
  from Remove_spec [OF this(2,3), of k] show ?case unfolding s by (metis case_prod_conv)
next
  case (4 s h)
  then show ?case by (auto simp: ht_inv_def Remove_miss)
qed

interpretation ht_component: invariant_component "\<lambda>(k, t). ht_inv t" ht_pre ht_step
  by unfold_locales (use ht_step_inv in \<open>fastforce+\<close>)

section \<open>References\<close>

lemma Open_many:
  assumes "\<forall>p \<in> set ps. 0 < m_ref_count k p \<and> unat (m_ref_count k p) + length ps < 2 ^ 32"
  shows "fold (\<lambda>p k. snd (Open p k)) ps k =
    k\<lparr>m_ref_count := \<lambda>x. m_ref_count k x + of_nat (count_list ps x)\<rparr>"
  using assms
proof (induction ps arbitrary: k)
  case Nil
  then show ?case by simp
next
  case (Cons p ps)
  let ?k = "snd (Open p k)"
  have r: "m_ref_count ?k = (m_ref_count k)(p := m_ref_count k p + 1)"
    using Cons.prems by (auto simp: Open_def)
  have "unat (m_ref_count k p + 1) = Suc (unat (m_ref_count k p))"
    using Cons.prems by (simp add: unat_word_ariths(1))
  moreover from this have "0 < m_ref_count k p + 1"
    by (simp add: word_less_nat_alt)
  ultimately have "\<forall>q \<in> set ps. 0 < m_ref_count ?k q \<and> unat (m_ref_count ?k q) + length ps < 2 ^ 32"
    using Cons.prems by (auto simp: r)
  from Cons.IH [OF this] r show ?case
    using Cons.prems by (auto simp: fun_eq_iff Open_def)
qed

lemma Close_many:
  assumes "\<forall>p \<in> set ps. count_list ps p < unat (m_ref_count k p)"
  shows "fold Close ps k = k\<lparr>m_ref_count := \<lambda>x. m_ref_count k x - of_nat (count_list ps x)\<rparr>"
  using assms
proof (induction ps arbitrary: k)
  case Nil
  then show ?case by simp
next
  case (Cons p ps)
  let ?k = "Close p k"
  from Cons.prems have g: "1 < unat (m_ref_count k p)" by auto
  then have ne: "m_ref_count k p \<noteq> 0" "m_ref_count k p \<noteq> 1" by auto
  then have k: "?k = k\<lparr>m_ref_count := (m_ref_count k)(p := m_ref_count k p - 1)\<rparr>"
    by (simp add: Close_def Let_def)
  have "\<forall>q \<in> set ps. count_list ps q < unat (m_ref_count ?k q)"
    using Cons.prems g ne by (auto simp: k unat_dec)
  from Cons.IH [OF this] show ?case
    by (auto simp: k fun_eq_iff)
qed

lemma GetMultipleObjects_open_eq:
  assumes "ht_wf t"
  shows "\<exists>out. GetMultipleObjects_open cast hs k t = Some (out, fold (\<lambda>p k. snd (Open p k)) out k) \<and>
     length out \<le> length hs \<and> (\<forall>i < length out. ht_abs t (hs ! i) = Some (out ! i) \<and> cast (out ! i)) \<and>
     (length out < length hs \<longrightarrow>
        \<not> (\<exists>p. ht_abs t (hs ! length out) = Some p \<and> cast p))"
proof (induction hs arbitrary: k)
  case Nil
  then show ?case by simp
next
  case (Cons h hs)
  show ?case
  proof (cases "\<exists>p. ht_abs t h = Some p \<and> cast p")
    case True
    then obtain p where p: "ht_abs t h = Some p" "cast p" by blast
    from Cons.IH [of "snd (Open p k)"] obtain out where o:
      "GetMultipleObjects_open cast hs (snd (Open p k)) t =
         Some (out, fold (\<lambda>p k. snd (Open p k)) out (snd (Open p k)))"
      "length out \<le> length hs" "\<forall>i < length out. ht_abs t (hs ! i) = Some (out ! i) \<and> cast (out ! i)"
      "length out < length hs \<longrightarrow> \<not> (\<exists>p. ht_abs t (hs ! length out) = Some p \<and> cast p)" by blast
    show ?thesis
      by (rule exI [of _ "p # out"])
         (use o p in \<open>auto simp: GetObjectImpl_abs [OF assms] nth_Cons less_Suc_eq_0_disj\<close>)
  next
    case False
    then show ?thesis
      by (intro exI [of _ "[]"]) (auto simp: GetObjectImpl_abs [OF assms] split: option.splits)
  qed
qed

section \<open>Properties\<close>

lemma Initialize_default:
  fixes t :: "'o handle_table"
  assumes "sz \<le> int MaxTableSize" and t: "t = snd (Initialize sz handle_table_default)"
  shows "Initialize sz handle_table_default = (ResultSuccess, t)" and "ht_inv t" and "m_count t = 0"
    and "ht_abs t = Map.empty" and "unat (m_table_size t) = (if sz \<le> 0 then MaxTableSize else nat sz)"
proof -
  obtain t' :: "'o handle_table" where "Initialize sz handle_table_default = (ResultSuccess, t')" "ht_inv t'" "m_count t' = 0"
    "ht_abs t' = Map.empty" "unat (m_table_size t') = (if sz \<le> 0 then MaxTableSize else nat sz)"
    by (rule Initialize_spec [of "handle_table_default :: 'o handle_table" sz])
       (use assms(1) in \<open>auto simp: handle_table_default_def\<close>)
  with t show "Initialize sz handle_table_default = (ResultSuccess, t)" and "ht_inv t" and "m_count t = 0"
    and "ht_abs t = Map.empty" and "unat (m_table_size t) = (if sz \<le> 0 then MaxTableSize else nat sz)"
    by simp_all
qed

text \<open>
  C1.  The handle table refines a map from handles to objects: any sequence of \<open>Add\<close> and
  \<open>Remove\<close> calls from a state satisfying the invariant runs without undefined behaviour, keeps
  the invariant, and the objects that \<open>GetObjectImpl\<close> resolves afterwards are exactly those
  the answers describe (each issued handle was unused, each removed handle is cleared, nothing else
  changes).
\<close>

theorem handle_table_refines_map:
  assumes "ht_inv t"
  shows "\<exists>as k' t' m m'.
    store_run (\<lambda>obj (k, t). Add obj k t) (\<lambda>h (k, t). Remove h k t) rs (k, t) = Some (as, (k', t')) \<and>
    ht_inv t' \<and> (\<forall>h. GetObjectImpl h t = Some (m h)) \<and> (\<forall>h. GetObjectImpl h t' = Some (m' h)) \<and>
    map_run rs as m = Some m'"
proof -
  from ht_store.run_refines [of "(k, t)" rs] assms obtain as k' t' where
    r: "store_run (\<lambda>obj (k, t). Add obj k t) (\<lambda>h (k, t). Remove h k t) rs (k, t) = Some (as, (k', t'))"
    "ht_inv t'" "map_run rs as (ht_abs t) = Some (ht_abs t')" by fastforce
  from assms r(2) have "ht_wf t" "ht_wf t'" by (auto simp: ht_inv_def)
  with r show ?thesis using GetObjectImpl_abs by metis
qed

theorem handle_table_refines_map_witness:
  "\<exists>as k' t' m m'.
    store_run (\<lambda>obj (k, t). Add obj k t) (\<lambda>h (k, t). Remove h k t) [AddReq (7::nat), RemoveReq 0]
      (\<lparr>m_ref_count = \<lambda>_. 1, registered_in_use_objects = {}, destroyed_objects = []\<rparr>,
       snd (Initialize 4 handle_table_default)) = Some (as, (k', t')) \<and>
    ht_inv t' \<and> (\<forall>h. GetObjectImpl h (snd (Initialize 4 handle_table_default)) = Some (m h)) \<and>
    (\<forall>h. GetObjectImpl h t' = Some (m' h)) \<and> map_run [AddReq 7, RemoveReq 0] as m = Some m'"
  by (rule handle_table_refines_map, rule Initialize_default(2) [OF _ refl]) (simp add: MaxTableSize_def)

text \<open>
  C2.  After \<open>Initialize\<close> succeeds on a table, every sequence of \<open>Add\<close>,
  \<open>Remove\<close>, \<open>Reserve\<close>, \<open>Unreserve\<close> and \<open>Register\<close> calls that
  only unreserves and registers reserved handles is free of out-of-range accesses and keeps the free
  list, the counts and the linear ids consistent.
\<close>

theorem handle_table_runs_safe:
  assumes "length (m_entry_infos t0) = MaxTableSize" and "length (m_objects t0) = MaxTableSize"
    and "Initialize sz t0 = (ResultSuccess, t)" and "ht_component.admissible xs (k, t)"
  shows "\<exists>k' t'. run_ops ht_step xs (k, t) = Some (k', t') \<and> ht_inv t'"
proof -
  have "sz \<le> int MaxTableSize"
    using assms(3) by (auto simp: Initialize_def split: if_splits)
  then have "ht_inv t"
    using Initialize_spec [OF assms(1,2)] assms(3) by (metis prod.inject)
  with assms(4) ht_component.run_keeps_inv [of "(k, t)" xs] show ?thesis by fastforce
qed

theorem handle_table_runs_safe_witness:
  "\<exists>k' t'. run_ops ht_step [OpAdd (7::nat), OpReserve, OpRemove 0]
    (\<lparr>m_ref_count = \<lambda>_. 1, registered_in_use_objects = {}, destroyed_objects = []\<rparr>,
     snd (Initialize 4 handle_table_default)) = Some (k', t') \<and> ht_inv t'"
  by (rule handle_table_runs_safe [of handle_table_default 4])
     (use Initialize_default(1) [OF _ refl, of 4] in \<open>auto simp: handle_table_default_def MaxTableSize_def\<close>)

text \<open>
  C3.  A handle is not revived by the reuse of its slot: when an object is added, removed and another
  object is added, the second handle differs from the first and the first resolves to nothing.
\<close>

theorem stale_handle_stays_dead:
  assumes inv: "ht_inv t" and "Add obj k t = Some (Inr h, k1, t1)"
    and "Remove h k1 t1 = Some (b, k2, t2)" and "Add obj' k2 t2 = Some (Inr h', k3, t3)"
  shows "b \<and> h' \<noteq> h \<and> GetObjectImpl h t3 = Some None \<and> GetObjectImpl h' t3 = Some (Some obj')"
proof -
  have c: "m_count t < m_table_size t"
    using assms(2) by (auto simp: Add_def split: if_splits)
  obtain h0 t0 where "Add obj k t = Some (Inr h0, snd (Open obj k), t0)" "ht_inv t0"
    "ht_abs t0 h0 = Some obj" "pack_linear_id h0 = ucast (m_next_linear_id t)"
    "m_next_linear_id t0 = m_next_linear_id (snd (AllocateLinearId t))"
    using Add_spec [OF inv c, of obj k] by (metis fun_upd_same)
  with assms(2) have a: "ht_inv t1" "ht_abs t1 h = Some obj"
    "pack_linear_id h = ucast (m_next_linear_id t)"
    "m_next_linear_id t1 = m_next_linear_id (snd (AllocateLinearId t))" by auto
  obtain t0 where "Remove h k1 t1 = Some (True, Close obj (UnregisterInUseObject obj k1), t0)"
    "ht_inv t0" "ht_abs t0 = (ht_abs t1)(h := None)" "m_next_linear_id t0 = m_next_linear_id t1"
    using Remove_spec [OF a(1,2), of k1] by metis
  with assms(3) have r: "b" "ht_inv t2"
    "ht_abs t2 = (ht_abs t1)(h := None)" "m_next_linear_id t2 = m_next_linear_id t1" by auto
  have c2: "m_count t2 < m_table_size t2"
    using assms(4) by (auto simp: Add_def split: if_splits)
  obtain h0 t0 where "Add obj' k2 t2 = Some (Inr h0, snd (Open obj' k2), t0)" "ht_inv t0"
    "ht_abs t0 = (ht_abs t2)(h0 \<mapsto> obj')" "pack_linear_id h0 = ucast (m_next_linear_id t2)"
    using Add_spec [OF r(2) c2, of obj' k2] by metis
  with assms(4) have a2: "ht_inv t3"
    "ht_abs t3 = (ht_abs t2)(h' \<mapsto> obj')" "pack_linear_id h' = ucast (m_next_linear_id t2)" by auto
  have "m_next_linear_id (snd (AllocateLinearId t)) \<noteq> m_next_linear_id t"
    using inv by (auto simp: AllocateLinearId_def Let_def ht_inv_def ht_wf_def ht_consts)
  then have "pack_linear_id h' \<noteq> pack_linear_id h"
    using a(3,4) r(4) a2(3) by (metis ucast_u32_u16)
  then have "h' \<noteq> h" by auto
  with a2 r show ?thesis
    using GetObjectImpl_abs [of t3] by (simp add: ht_inv_def)
qed

text \<open>A small table and kernel for the witnesses.\<close>

definition ht_example :: "nat handle_table" where
  "ht_example = snd (Initialize 4 handle_table_default)"

definition kernel_example :: "nat kernel" where
  "kernel_example = \<lparr>m_ref_count = \<lambda>_. 1, registered_in_use_objects = {}, destroyed_objects = []\<rparr>"

lemma ht_example:
  "ht_inv ht_example" "m_count ht_example = 0" "ht_abs ht_example = Map.empty"
  "unat (m_table_size ht_example) = 4"
  using Initialize_default [OF _ ht_example_def] by (simp_all add: MaxTableSize_def)

theorem stale_handle_stays_dead_witness:
  "\<exists>h k1 t1 b k2 t2 h' k3 t3. Add 7 kernel_example ht_example = Some (Inr h, k1, t1) \<and>
    Remove h k1 t1 = Some (b, k2, t2) \<and> Add 8 k2 t2 = Some (Inr h', k3, t3) \<and>
    b \<and> h' \<noteq> h \<and> GetObjectImpl h t3 = Some None \<and> GetObjectImpl h' t3 = Some (Some 8)"
proof -
  have c: "m_count ht_example < m_table_size ht_example"
    using ht_example by (simp add: word_less_nat_alt)
  obtain h t1 where a: "Add 7 kernel_example ht_example = Some (Inr h, snd (Open 7 kernel_example), t1)"
    "ht_inv t1" "ht_abs t1 h = Some 7" "m_count t1 = m_count ht_example + 1"
    "m_table_size t1 = m_table_size ht_example"
    using Add_spec [OF ht_example(1) c, of 7 kernel_example] by (metis fun_upd_same)
  obtain k2 t2 where r: "Remove h (snd (Open 7 kernel_example)) t1 = Some (True, k2, t2)" "ht_inv t2"
    "m_count t2 = m_count t1 - 1" "m_table_size t2 = m_table_size t1"
    using Remove_spec [OF a(2,3)] by metis
  have "m_count t2 < m_table_size t2"
    using r a c by simp
  from Add_spec [OF r(2) this, of 8 k2] obtain h' k3 t3 where
    "Add 8 k2 t2 = Some (Inr h', k3, t3)" by metis
  with a(1) r(1) stale_handle_stays_dead [OF ht_example(1) a(1) r(1) this] show ?thesis by blast
qed

text \<open>
  C4.  \<open>GetMultipleObjects\<close> opens exactly the objects it returns: on success the i-th object
  is the one the i-th handle names, of the requested type; on failure every reference it opened is
  closed again and the kernel is left as it was.
\<close>

theorem GetMultipleObjects_balanced:
  assumes inv: "ht_inv t"
    and refs: "\<And>h p. ht_abs t h = Some p \<Longrightarrow> 0 < m_ref_count k p \<and>
      unat (m_ref_count k p) + length handles < 2 ^ 32"
    and call: "GetMultipleObjects cast handles k t = Some (ok, out, k')"
  shows "if ok then length out = length handles \<and>
      (\<forall>i < length handles. GetObjectImpl (handles ! i) t = Some (Some (out ! i)) \<and> cast (out ! i)) \<and>
      k' = k\<lparr>m_ref_count := \<lambda>x. m_ref_count k x + of_nat (count_list out x)\<rparr>
    else k' = k"
proof -
  from inv have wf: "ht_wf t" by (simp add: ht_inv_def)
  from GetMultipleObjects_open_eq [OF wf, of cast handles k] obtain o1 where
    o: "GetMultipleObjects_open cast handles k t = Some (o1, fold (\<lambda>p k. snd (Open p k)) o1 k)"
    "length o1 \<le> length handles" "\<forall>i < length o1. ht_abs t (handles ! i) = Some (o1 ! i) \<and> cast (o1 ! i)"
    by blast
  have b: "\<forall>p \<in> set o1. 0 < m_ref_count k p \<and> unat (m_ref_count k p) + length o1 < 2 ^ 32"
    using o(2,3) refs by (fastforce simp: in_set_conv_nth)
  note op = Open_many [OF b]
  let ?k = "fold (\<lambda>p k. snd (Open p k)) o1 k"
  have cl: "fold Close o1 ?k = k"
  proof -
    have "\<forall>p \<in> set o1. count_list o1 p < unat (m_ref_count ?k p)"
    proof
      fix p assume p: "p \<in> set o1"
      have "count_list o1 p \<le> length o1" by (rule count_le_length)
      moreover from b p have "0 < unat (m_ref_count k p)"
        and "unat (m_ref_count k p) + length o1 < 4294967296" by (auto simp: word_less_nat_alt)
      ultimately show "count_list o1 p < unat (m_ref_count ?k p)"
        by (simp add: op unat_word_ariths(1) unat_of_nat)
    qed
    from Close_many [OF this] show ?thesis by (simp add: op)
  qed
  show ?thesis
  proof (cases "length o1 = length handles")
    case True
    with call o have "ok" "out = o1" "k' = ?k" by (auto simp: GetMultipleObjects_def)
    with True o(3) op show ?thesis by (simp add: GetObjectImpl_abs [OF wf])
  next
    case False
    with call o cl show ?thesis by (auto simp: GetMultipleObjects_def)
  qed
qed

theorem GetMultipleObjects_balanced_witness:
  "\<exists>h k1 t1. Add 7 kernel_example ht_example = Some (Inr h, k1, t1) \<and>
    (let (ok, out, k') = the (GetMultipleObjects (\<lambda>_. True) [h, 0] k1 t1) in \<not> ok \<and> k' = k1)"
proof -
  have c: "m_count ht_example < m_table_size ht_example"
    using ht_example by (simp add: word_less_nat_alt)
  obtain h t1 where a: "Add 7 kernel_example ht_example = Some (Inr h, snd (Open 7 kernel_example), t1)"
    "ht_inv t1" "ht_abs t1 = (ht_abs ht_example)(h \<mapsto> 7)"
    using Add_spec [OF ht_example(1) c, of 7 kernel_example] by metis
  let ?k = "snd (Open 7 kernel_example)"
  have "ht_abs t1 0 = None" by (simp add: ht_abs_def ht_names_def)
  then have g: "\<exists>k'. GetMultipleObjects (\<lambda>_. True) [h, 0] ?k t1 = Some (False, [7], k')"
    using a(2,3) by (auto simp: GetMultipleObjects_def ht_inv_def GetObjectImpl_abs ht_example(3))
  then obtain k' where g: "GetMultipleObjects (\<lambda>_. True) [h, 0] ?k t1 = Some (False, [7], k')" ..
  have "k' = ?k"
    using GetMultipleObjects_balanced [OF a(2) _ g] a(3)
    by (auto simp: Open_def kernel_example_def ht_example(3) split: if_splits)
  with a(1) g show ?thesis by simp
qed

lemma CloseScoped_fold: "fold CloseScoped xs k = fold Close (List.map_filter id xs) k"
  by (induction xs arbitrary: k) (auto simp: CloseScoped_def List.map_filter_def split: option.splits)

text \<open>
  \<open>Finalize\<close> drops exactly one reference for every occupied slot, destroys nothing that
  is referenced elsewhere, and leaves a table that resolves no handle.
\<close>

theorem Finalize_releases_every_slot:
  assumes inv: "ht_inv t"
    and refs: "\<forall>p \<in> set (List.map_filter id (take (unat (m_table_size t)) (m_objects t))).
      count_list (List.map_filter id (take (unat (m_table_size t)) (m_objects t))) p < unat (m_ref_count k p)"
  shows "\<exists>t'. Finalize k t = Some (k\<lparr>m_ref_count := \<lambda>x. m_ref_count k x -
      of_nat (count_list (List.map_filter id (take (unat (m_table_size t)) (m_objects t))) x)\<rparr>, t') \<and>
    (\<forall>h. GetObjectImpl h t' = Some None)"
proof -
  from inv have "unat (m_table_size t) \<le> length (m_objects t)"
    by (simp add: ht_inv_def ht_wf_def)
  moreover have "GetObjectImpl h (t\<lparr>m_table_size := 0\<rparr>) = Some None" for h
    by (auto simp: GetObjectImpl_def IsValidHandle_def)
  ultimately show ?thesis
    using Close_many [OF refs] by (simp add: Finalize_def Let_def CloseScoped_fold)
qed

theorem Finalize_releases_every_slot_witness:
  "\<exists>t'. Finalize kernel_example ht_example = Some (kernel_example, t') \<and>
    (\<forall>h. GetObjectImpl h t' = Some None)"
proof -
  have "m_objects ht_example = replicate 4 None @ drop 4 (replicate MaxTableSize None)"
    by (simp add: ht_example_def Initialize_def handle_table_default_def Let_def MaxTableSize_def
        Initialize_loop_fields(1))
  then have e: "List.map_filter id (take (unat (m_table_size ht_example)) (m_objects ht_example)) = []"
    by (simp add: ht_example(4) List.map_filter_def)
  show ?thesis
    using Finalize_releases_every_slot [OF ht_example(1), of kernel_example] by (simp add: e)
qed

end
