(* ===== verification/KResourceLimit.thy ===== *)
theory KResourceLimit
  imports KAutoObject
begin

text \<open>
  Resource accounting (\<^verbatim>\<open>src/core/hle/kernel/k_resource_limit.h\<close>, \<^verbatim>\<open>.cpp\<close> and
  \<^verbatim>\<open>k_scoped_resource_reservation.h\<close>).  The four arrays indexed by the enumeration
  \<open>LimitableResource\<close> are functions on it; the 64-bit signed values are integers, an addition
  that overflows is undefined (\<open>s64_add\<close>) and \<open>WrappingAdd\<close> wraps.  \<open>Reserve\<close>
  may wait on a condition variable: the body of its loop is \<open>Reserve_iter\<close>, and the
  interleavings with other threads are the step relation \<open>rl_step\<close>.
\<close>

section \<open>Model\<close>

datatype limitable_resource =
  PhysicalMemoryMax | ThreadCountMax | EventCountMax | TransferMemoryCountMax | SessionCountMax

definition IsValidResourceType :: "u32 \<Rightarrow> bool" where
  "IsValidResourceType which \<longleftrightarrow> which < 5"

definition resource_of :: "u32 \<Rightarrow> limitable_resource" where
  "resource_of which =
     (if which = 0 then PhysicalMemoryMax else if which = 1 then ThreadCountMax
      else if which = 2 then EventCountMax else if which = 3 then TransferMemoryCountMax
      else SessionCountMax)"

text \<open>
  The number of waiting threads, a signed 32-bit field, is an unbounded integer here: the invariant below says
  that it is the number of threads inside \<open>Reserve\<close>, so that it could overflow only with two to the 31 of them.
\<close>

record resource_limit =
  m_limit_values :: "limitable_resource \<Rightarrow> int"
  m_current_values :: "limitable_resource \<Rightarrow> int"
  m_current_hints :: "limitable_resource \<Rightarrow> int"
  m_peak_values :: "limitable_resource \<Rightarrow> int"
  m_waiter_count :: int

definition resource_limit_default :: resource_limit where
  "resource_limit_default = \<lparr>m_limit_values = \<lambda>_. 0, m_current_values = \<lambda>_. 0,
     m_current_hints = \<lambda>_. 0, m_peak_values = \<lambda>_. 0, m_waiter_count = 0\<rparr>"

definition s64_range :: "int \<Rightarrow> bool" where
  "s64_range x \<longleftrightarrow> - (2 ^ 63) \<le> x \<and> x < 2 ^ 63"

definition s64_add :: "int \<Rightarrow> int \<Rightarrow> int option" where
  "s64_add a b = (if s64_range (a + b) then Some (a + b) else None)"

definition WrappingAdd :: "int \<Rightarrow> int \<Rightarrow> int" where
  "WrappingAdd a b = (a + b + 2 ^ 63) mod 2 ^ 64 - 2 ^ 63"

definition GetLimitValue :: "limitable_resource \<Rightarrow> resource_limit \<Rightarrow> int" where
  "GetLimitValue which s = m_limit_values s which"

definition GetCurrentValue :: "limitable_resource \<Rightarrow> resource_limit \<Rightarrow> int" where
  "GetCurrentValue which s = m_current_values s which"

definition GetPeakValue :: "limitable_resource \<Rightarrow> resource_limit \<Rightarrow> int" where
  "GetPeakValue which s = m_peak_values s which"

definition GetFreeValue :: "limitable_resource \<Rightarrow> resource_limit \<Rightarrow> int option" where
  "GetFreeValue which s = s64_add (m_limit_values s which) (- m_current_values s which)"

text \<open>The assertions shared by the four getters, and the one of \<open>Release\<close>.\<close>

definition getter_asserts :: "limitable_resource \<Rightarrow> int \<Rightarrow> resource_limit \<Rightarrow> bool" where
  "getter_asserts which v s \<longleftrightarrow> 0 \<le> v \<and> m_current_values s which \<le> m_limit_values s which \<and>
     m_current_hints s which \<le> m_current_values s which"

definition Release_asserts :: "limitable_resource \<Rightarrow> int \<Rightarrow> int \<Rightarrow> resource_limit \<Rightarrow> bool" where
  "Release_asserts which v hint s \<longleftrightarrow> 0 \<le> v \<and> 0 \<le> hint \<and>
     m_current_values s which \<le> m_limit_values s which \<and>
     m_current_hints s which \<le> m_current_values s which \<and>
     v \<le> m_current_values s which \<and> hint \<le> m_current_hints s which"

definition SetLimitValue ::
  "limitable_resource \<Rightarrow> int \<Rightarrow> resource_limit \<Rightarrow> kresult \<times> resource_limit" where
  "SetLimitValue which v s =
     (if \<not> m_current_values s which \<le> v then (ResultInvalidState, s)
      else (ResultSuccess,
        s\<lparr>m_limit_values := (m_limit_values s)(which := v),
          m_peak_values := (m_peak_values s)(which := m_current_values s which)\<rparr>))"

text \<open>
  One iteration of the loop of \<open>Reserve\<close>: it either returns (\<open>Some b\<close>), or increments
  the waiter count and waits (\<open>None\<close>).
\<close>

definition Reserve_iter ::
  "limitable_resource \<Rightarrow> int \<Rightarrow> int \<Rightarrow> int \<Rightarrow> resource_limit \<Rightarrow> (bool option \<times> resource_limit) option" where
  "Reserve_iter which v timeout tick s =
     (let cur = m_current_values s which; limit = m_limit_values s which in
      if WrappingAdd cur v \<le> cur then Some (Some False, s)
      else do {
        new_cur \<leftarrow> s64_add cur v;
        if new_cur \<le> limit
        then do {
          new_hint \<leftarrow> s64_add (m_current_hints s which) v;
          Some (Some True,
            s\<lparr>m_current_values := (m_current_values s)(which := new_cur),
              m_current_hints := (m_current_hints s)(which := new_hint),
              m_peak_values := (m_peak_values s)(which := max (m_peak_values s which) new_cur)\<rparr>)
        }
        else do {
          hint_sum \<leftarrow> s64_add (m_current_hints s which) v;
          if hint_sum \<le> limit \<and> (timeout < 0 \<or> tick < timeout)
          then Some (None, s\<lparr>m_waiter_count := m_waiter_count s + 1\<rparr>)
          else Some (Some False, s)
        }
      })"

text \<open>Up to the first wait or return, and from a wake-up to the next wait or return.\<close>

definition Reserve_start ::
  "limitable_resource \<Rightarrow> int \<Rightarrow> int \<Rightarrow> int \<Rightarrow> resource_limit \<Rightarrow> (bool option \<times> resource_limit) option" where
  "Reserve_start which v timeout tick s =
     (if m_current_hints s which \<ge> m_limit_values s which then Some (Some False, s)
      else Reserve_iter which v timeout tick s)"

definition Reserve_wake ::
  "limitable_resource \<Rightarrow> int \<Rightarrow> int \<Rightarrow> int \<Rightarrow> resource_limit \<Rightarrow> (bool option \<times> resource_limit) option" where
  "Reserve_wake which v timeout tick s =
     Reserve_iter which v timeout tick (s\<lparr>m_waiter_count := m_waiter_count s - 1\<rparr>)"

text \<open>The result of \<open>Release\<close> tells whether the waiters are woken.\<close>

definition Release ::
  "limitable_resource \<Rightarrow> int \<Rightarrow> int \<Rightarrow> resource_limit \<Rightarrow> (bool \<times> resource_limit) option" where
  "Release which v hint s = do {
     new_cur \<leftarrow> s64_add (m_current_values s which) (- v);
     new_hint \<leftarrow> s64_add (m_current_hints s which) (- hint);
     Some (m_waiter_count s \<noteq> 0,
           s\<lparr>m_current_values := (m_current_values s)(which := new_cur),
             m_current_hints := (m_current_hints s)(which := new_hint)\<rparr>)
   }"

definition CreateResourceLimitForProcess :: "int \<Rightarrow> resource_limit" where
  "CreateResourceLimitForProcess physical_memory_size =
     (let set_limit = (\<lambda>w v s. snd (SetLimitValue w v s)) in
      set_limit SessionCountMax 1133 (set_limit TransferMemoryCountMax 200
        (set_limit EventCountMax 900 (set_limit ThreadCountMax 800
          (set_limit PhysicalMemoryMax physical_memory_size resource_limit_default)))))"

subsection \<open>KScopedResourceReservation\<close>

record scoped_reservation =
  sr_limit :: bool        \<comment> \<open>the pointer \<open>m_limit\<close> is not null\<close>
  sr_value :: int
  sr_resource :: limitable_resource
  sr_succeeded :: bool

text \<open>The constructor, for a reservation that does not have to wait.\<close>

definition scoped_construct ::
  "bool \<Rightarrow> limitable_resource \<Rightarrow> int \<Rightarrow> int \<Rightarrow> int \<Rightarrow> resource_limit
     \<Rightarrow> (scoped_reservation \<times> resource_limit) option" where
  "scoped_construct has_limit which v timeout tick s =
     (if has_limit \<and> v \<noteq> 0
      then do {
        (r, s') \<leftarrow> Reserve_start which v timeout tick s;
        b \<leftarrow> r;
        Some (\<lparr>sr_limit = has_limit, sr_value = v, sr_resource = which, sr_succeeded = b\<rparr>, s')
      }
      else Some (\<lparr>sr_limit = has_limit, sr_value = v, sr_resource = which, sr_succeeded = True\<rparr>, s))"

definition scoped_Commit :: "scoped_reservation \<Rightarrow> scoped_reservation" where
  "scoped_Commit r = r\<lparr>sr_limit := False\<rparr>"

definition scoped_destruct :: "scoped_reservation \<Rightarrow> resource_limit \<Rightarrow> resource_limit option" where
  "scoped_destruct r s =
     (if sr_limit r \<and> sr_value r \<noteq> 0 \<and> sr_succeeded r
      then map_option snd (Release (sr_resource r) (sr_value r) (sr_value r) s)
      else Some s)"

section \<open>Invariant\<close>

definition rl_inv :: "resource_limit \<Rightarrow> bool" where
  "rl_inv s \<longleftrightarrow> (\<forall>w. 0 \<le> m_current_hints s w \<and> m_current_hints s w \<le> m_current_values s w \<and>
     m_current_values s w \<le> m_peak_values s w \<and> m_peak_values s w \<le> m_limit_values s w \<and>
     m_limit_values s w < 2 ^ 63)"

lemma rl_invD:
  assumes "rl_inv s"
  shows "0 \<le> m_current_hints s w" "m_current_hints s w \<le> m_current_values s w"
    "m_current_values s w \<le> m_peak_values s w" "m_peak_values s w \<le> m_limit_values s w"
    "m_limit_values s w < 2 ^ 63"
  using assms by (auto simp: rl_inv_def)

lemma WrappingAdd_overflow:
  assumes "0 \<le> a" "a < 2 ^ 63" "0 \<le> b" "b < 2 ^ 63"
  shows "WrappingAdd a b \<le> a \<longleftrightarrow> b = 0 \<or> \<not> s64_range (a + b)"
proof (cases "a + b < 2 ^ 63")
  case True
  with assms show ?thesis
    by (auto simp: WrappingAdd_def s64_range_def)
next
  case False
  have "(a + b + 2 ^ 63) mod 2 ^ 64 = a + b + 2 ^ 63 - 2 ^ 64"
    using assms False by (subst mod_pos_geq) (auto simp: mod_pos_pos_trivial)
  with assms False show ?thesis
    by (auto simp: WrappingAdd_def s64_range_def)
qed

lemma rl_inv_default: "rl_inv resource_limit_default"
  by (simp add: rl_inv_def resource_limit_default_def)

lemma SetLimitValue_inv:
  "rl_inv s \<Longrightarrow> v < 2 ^ 63 \<Longrightarrow> rl_inv (snd (SetLimitValue which v s))"
  by (auto simp: rl_inv_def SetLimitValue_def)

text \<open>The exact behaviour of one iteration, for a value that fits.\<close>

lemma Reserve_iter_cases:
  assumes inv: "rl_inv s" and v: "0 \<le> v" "v < 2 ^ 63"
  shows "Reserve_iter which v timeout tick s =
    (if 0 < v \<and> m_current_values s which + v \<le> m_limit_values s which
     then Some (Some True,
       s\<lparr>m_current_values := (m_current_values s)(which := m_current_values s which + v),
         m_current_hints := (m_current_hints s)(which := m_current_hints s which + v),
         m_peak_values := (m_peak_values s)(which :=
           max (m_peak_values s which) (m_current_values s which + v))\<rparr>)
     else if 0 < v \<and> m_current_values s which + v < 2 ^ 63 \<and>
       m_current_hints s which + v \<le> m_limit_values s which \<and> (timeout < 0 \<or> tick < timeout)
     then Some (None, s\<lparr>m_waiter_count := m_waiter_count s + 1\<rparr>)
     else Some (Some False, s))"
proof -
  note b = rl_invD [OF inv, of which]
  have w: "WrappingAdd (m_current_values s which) v \<le> m_current_values s which \<longleftrightarrow>
      v = 0 \<or> \<not> s64_range (m_current_values s which + v)"
    using b v by (intro WrappingAdd_overflow) auto
  have r: "s64_range (m_current_values s which + v) \<longleftrightarrow> m_current_values s which + v < 2 ^ 63"
    and h: "m_current_values s which + v < 2 ^ 63 \<Longrightarrow> s64_range (m_current_hints s which + v)"
    using b v by (auto simp: s64_range_def)
  show ?thesis
    using b v by (auto simp: Reserve_iter_def Let_def w r h s64_add_def)
qed

lemma Reserve_iter_inv:
  assumes "rl_inv s" and "0 \<le> v" "v < 2 ^ 63" and "Reserve_iter which v timeout tick s = Some (r, s')"
  shows "rl_inv s'"
  using assms(4) unfolding Reserve_iter_cases [OF assms(1-3)]
  using assms(1,2) by (auto simp: rl_inv_def split: if_splits)

lemma rl_inv_waiter [simp]: "rl_inv (s\<lparr>m_waiter_count := n\<rparr>) = rl_inv s"
  by (simp add: rl_inv_def)

lemma Release_ok:
  assumes "rl_inv s" and "Release_asserts which v hint s"
  shows "Release which v hint s = Some (m_waiter_count s \<noteq> 0,
    s\<lparr>m_current_values := (m_current_values s)(which := m_current_values s which - v),
      m_current_hints := (m_current_hints s)(which := m_current_hints s which - hint)\<rparr>)"
  using assms rl_invD [OF assms(1), of which]
  by (auto simp: Release_def Release_asserts_def s64_add_def s64_range_def)


section \<open>Threads that reserve and release concurrently\<close>

text \<open>
  A configuration: the resource limit, the threads waiting inside \<open>Reserve\<close> with their
  arguments, and the amount each resource has handed out and not yet got back.  A step is what one
  thread does while it holds \<open>m_lock\<close>.  A release meets the assertions of \<open>Release\<close> and, beyond them, the contract
  of the callers that what is hinted stays within what is in use: nothing is released that was hinted as
  released before.
\<close>

record rl_system =
  sys_limit :: resource_limit
  sys_waiting :: "nat \<rightharpoonup> limitable_resource \<times> int \<times> int"
  sys_granted :: "limitable_resource \<Rightarrow> int"

inductive rl_step :: "rl_system \<Rightarrow> rl_system \<Rightarrow> bool" where
  reserve: "\<lbrakk>sys_waiting s i = None; 0 \<le> v; v < 2 ^ 63;
      Reserve_start w v timeout tick (sys_limit s) = Some (Some b, l)\<rbrakk> \<Longrightarrow>
    rl_step s (s\<lparr>sys_limit := l, sys_granted := (sys_granted s)(w := sys_granted s w + (if b then v else 0))\<rparr>)"
| reserve_wait: "\<lbrakk>sys_waiting s i = None; 0 \<le> v; v < 2 ^ 63;
      Reserve_start w v timeout tick (sys_limit s) = Some (None, l)\<rbrakk> \<Longrightarrow>
    rl_step s (s\<lparr>sys_limit := l, sys_waiting := (sys_waiting s)(i \<mapsto> (w, v, timeout))\<rparr>)"
| wake: "\<lbrakk>sys_waiting s i = Some (w, v, timeout);
      Reserve_wake w v timeout tick (sys_limit s) = Some (Some b, l)\<rbrakk> \<Longrightarrow>
    rl_step s (s\<lparr>sys_limit := l, sys_waiting := (sys_waiting s)(i := None),
      sys_granted := (sys_granted s)(w := sys_granted s w + (if b then v else 0))\<rparr>)"
| wake_wait: "\<lbrakk>sys_waiting s i = Some (w, v, timeout);
      Reserve_wake w v timeout tick (sys_limit s) = Some (None, l)\<rbrakk> \<Longrightarrow>
    rl_step s (s\<lparr>sys_limit := l\<rparr>)"
| release: "\<lbrakk>Release_asserts w v hint (sys_limit s);
      m_current_hints (sys_limit s) w - hint \<le> m_current_values (sys_limit s) w - v;
      Release w v hint (sys_limit s) = Some (woken, l)\<rbrakk> \<Longrightarrow>
    rl_step s (s\<lparr>sys_limit := l, sys_granted := (sys_granted s)(w := sys_granted s w - v)\<rparr>)"
| set_limit: "\<lbrakk>v < 2 ^ 63; SetLimitValue w v (sys_limit s) = (r, l)\<rbrakk> \<Longrightarrow>
    rl_step s (s\<lparr>sys_limit := l\<rparr>)"

definition rl_system_init :: rl_system where
  "rl_system_init = \<lparr>sys_limit = resource_limit_default, sys_waiting = Map.empty, sys_granted = \<lambda>_. 0\<rparr>"

definition rl_system_inv :: "rl_system \<Rightarrow> bool" where
  "rl_system_inv s \<longleftrightarrow> rl_inv (sys_limit s) \<and> m_current_values (sys_limit s) = sys_granted s \<and>
     finite (dom (sys_waiting s)) \<and> m_waiter_count (sys_limit s) = int (card (dom (sys_waiting s))) \<and>
     (\<forall>w v t. (w, v, t) \<in> ran (sys_waiting s) \<longrightarrow> 0 \<le> v \<and> v < 2 ^ 63)"

inductive_cases rl_stepE: "rl_step s s'"

lemma Reserve_iter_effect:
  assumes "rl_inv s" and "0 \<le> v" "v < 2 ^ 63" and "Reserve_iter w v timeout tick s = Some (r, s')"
  shows "m_current_values s' = (m_current_values s)(w := m_current_values s w + (if r = Some True then v else 0))"
    and "m_waiter_count s' = m_waiter_count s + (if r = None then 1 else 0)"
  using assms(4) unfolding Reserve_iter_cases [OF assms(1-3)] by (auto split: if_splits)

lemma Reserve_start_effect:
  assumes "rl_inv s" and "0 \<le> v" "v < 2 ^ 63" and "Reserve_start w v timeout tick s = Some (r, s')"
  shows "rl_inv s'"
    and "m_current_values s' = (m_current_values s)(w := m_current_values s w + (if r = Some True then v else 0))"
    and "m_waiter_count s' = m_waiter_count s + (if r = None then 1 else 0)"
  using assms Reserve_iter_inv [OF assms(1-3)] Reserve_iter_effect [OF assms(1-3)]
  by (auto simp: Reserve_start_def split: if_splits)

lemma Reserve_wake_effect:
  assumes "rl_inv s" and "0 \<le> v" "v < 2 ^ 63" and "Reserve_wake w v timeout tick s = Some (r, s')"
  shows "rl_inv s'"
    and "m_current_values s' = (m_current_values s)(w := m_current_values s w + (if r = Some True then v else 0))"
    and "m_waiter_count s' = m_waiter_count s - 1 + (if r = None then 1 else 0)"
proof -
  let ?s = "s\<lparr>m_waiter_count := m_waiter_count s - 1\<rparr>"
  have inv: "rl_inv ?s" using assms(1) by simp
  have it: "Reserve_iter w v timeout tick ?s = Some (r, s')"
    using assms(4) by (simp add: Reserve_wake_def)
  from Reserve_iter_inv [OF inv assms(2,3) it] Reserve_iter_effect [OF inv assms(2,3) it]
  show "rl_inv s'"
    and "m_current_values s' = (m_current_values s)(w := m_current_values s w + (if r = Some True then v else 0))"
    and "m_waiter_count s' = m_waiter_count s - 1 + (if r = None then 1 else 0)"
    by simp_all
qed

lemma Release_inv:
  assumes "rl_inv s" and "Release_asserts w v hint s" and "Release w v hint s = Some (b, s')"
  shows "rl_inv s' \<longleftrightarrow> m_current_hints s w - hint \<le> m_current_values s w - v"
proof -
  have s': "s' = s\<lparr>m_current_values := (m_current_values s)(w := m_current_values s w - v),
      m_current_hints := (m_current_hints s)(w := m_current_hints s w - hint)\<rparr>"
    using assms(3) Release_ok [OF assms(1,2)] by simp
  show ?thesis
  proof
    assume "rl_inv s'"
    from rl_invD(2) [OF this, of w] show "m_current_hints s w - hint \<le> m_current_values s w - v"
      by (simp add: s')
  next
    assume h: "m_current_hints s w - hint \<le> m_current_values s w - v"
    have "0 \<le> v" "0 \<le> m_current_hints s w - hint"
      using assms(2) by (simp_all add: Release_asserts_def)
    moreover from this(1) rl_invD [OF assms(1), of w]
    have "m_current_values s w - v \<le> m_peak_values s w" by linarith
    ultimately show "rl_inv s'"
      using h assms(1) by (simp add: s' rl_inv_def)
  qed
qed

lemma rl_waiting_upd:
  "finite (dom m) \<Longrightarrow> m i = None \<Longrightarrow> int (card (insert i (dom m))) = int (card (dom m)) + 1"
  "finite (dom m) \<Longrightarrow> m i = Some y \<Longrightarrow> int (card (dom m - {i})) = int (card (dom m)) - 1"
proof -
  show "int (card (insert i (dom m))) = int (card (dom m)) + 1" if "finite (dom m)" "m i = None"
    using that by (simp add: domIff)
  show "int (card (dom m - {i})) = int (card (dom m)) - 1" if f: "finite (dom m)" "m i = Some y"
  proof -
    have "i \<in> dom m" using f by auto
    with f(1) show ?thesis
      using card_gt_0_iff [of "dom m"] by (auto simp: card_Diff_singleton)
  qed
qed

lemma rl_step_inv:
  assumes "rl_step s s'" and inv: "rl_system_inv s"
  shows "rl_system_inv s'"
  using assms(1)
proof cases
  case (reserve i v w timeout tick b l)
  with inv Reserve_start_effect [OF _ reserve(3,4,5)] show ?thesis
    by (auto simp: rl_system_inv_def)
next
  case (reserve_wait i v w timeout tick l)
  with inv Reserve_start_effect [OF _ reserve_wait(3,4,5)] show ?thesis
    by (auto simp: rl_system_inv_def rl_waiting_upd ran_def)
next
  case (wake i w v timeout tick b l)
  from wake(2) have r: "(w, v, timeout) \<in> ran (sys_waiting s)" by (rule ranI)
  with inv have "0 \<le> v" "v < 2 ^ 63" by (auto simp: rl_system_inv_def)
  from Reserve_wake_effect [OF _ this wake(3)] inv wake show ?thesis
    by (auto simp: rl_system_inv_def rl_waiting_upd ran_def)
next
  case (wake_wait i w v timeout tick l)
  from wake_wait(2) have r: "(w, v, timeout) \<in> ran (sys_waiting s)" by (rule ranI)
  with inv have "0 \<le> v" "v < 2 ^ 63" by (auto simp: rl_system_inv_def)
  from Reserve_wake_effect [OF _ this wake_wait(3)] inv wake_wait show ?thesis
    by (auto simp: rl_system_inv_def)
next
  case (release w v hint woken l)
  from inv have "rl_inv (sys_limit s)" by (simp add: rl_system_inv_def)
  with Release_inv [OF this release(2,4)] Release_ok [OF this release(2)] release inv show ?thesis
    by (auto simp: rl_system_inv_def)
next
  case (set_limit v w r l)
  with inv SetLimitValue_inv [of "sys_limit s" v w] show ?thesis
    by (auto simp: rl_system_inv_def SetLimitValue_def split: if_splits)
qed

inductive rl_reachable :: "rl_system \<Rightarrow> bool" where
  init: "rl_reachable rl_system_init"
| step: "rl_reachable s \<Longrightarrow> rl_step s s' \<Longrightarrow> rl_reachable s'"

lemma rl_reachable_inv: "rl_reachable s \<Longrightarrow> rl_system_inv s"
proof (induction rule: rl_reachable.induct)
  case init
  show ?case
    by (simp add: rl_system_inv_def rl_system_init_def rl_inv_default)
       (simp add: resource_limit_default_def)
next
  case (step s s')
  then show ?case by (blast intro: rl_step_inv)
qed

section \<open>Properties\<close>

text \<open>
  C5.  However threads interleave their calls of \<open>Reserve\<close> (with or without waiting),
  \<open>Release\<close> and \<open>SetLimitValue\<close>, what is handed out of a resource never exceeds
  its limit, the reported current value is exactly what is handed out, and the waiter count is the
  number of waiting threads.
\<close>

theorem reservations_never_exceed_limit:
  assumes "rl_reachable s"
  shows "sys_granted s w \<le> GetLimitValue w (sys_limit s) \<and>
    GetCurrentValue w (sys_limit s) = sys_granted s w \<and> 0 \<le> sys_granted s w \<and>
    m_waiter_count (sys_limit s) = int (card (dom (sys_waiting s)))"
  using rl_reachable_inv [OF assms] rl_invD [of "sys_limit s" w]
  by (auto simp: rl_system_inv_def GetLimitValue_def GetCurrentValue_def)

theorem reservations_never_exceed_limit_witness:
  "\<exists>s. rl_reachable s \<and> sys_granted s ThreadCountMax = 3 \<and>
    sys_granted s ThreadCountMax \<le> GetLimitValue ThreadCountMax (sys_limit s) \<and>
    GetCurrentValue ThreadCountMax (sys_limit s) = sys_granted s ThreadCountMax"
proof -
  define l where "l = snd (SetLimitValue ThreadCountMax 800 resource_limit_default)"
  define s1 where "s1 = rl_system_init\<lparr>sys_limit := l\<rparr>"
  define l2 where "l2 = l\<lparr>m_current_values := (\<lambda>_. 0)(ThreadCountMax := 3),
    m_current_hints := (\<lambda>_. 0)(ThreadCountMax := 3), m_peak_values := (\<lambda>_. 0)(ThreadCountMax := 3)\<rparr>"
  define s2 where "s2 = s1\<lparr>sys_limit := l2, sys_granted := (sys_granted s1)(ThreadCountMax := 3)\<rparr>"
  have "rl_step rl_system_init s1" unfolding s1_def l_def
    by (rule rl_step.set_limit [where v = 800 and w = ThreadCountMax and
          r = "fst (SetLimitValue ThreadCountMax 800 resource_limit_default)"])
       (simp_all add: rl_system_init_def)
  with rl_reachable.init have r1: "rl_reachable s1" by (rule rl_reachable.step)
  have "Reserve_start ThreadCountMax 3 (- 1) 0 l = Some (Some True, l2)"
    by (simp add: l_def l2_def Reserve_start_def Reserve_iter_def SetLimitValue_def
        resource_limit_default_def WrappingAdd_def s64_add_def s64_range_def Let_def)
  then have "rl_step s1 s2"
    using rl_step.reserve [where s = s1 and i = 0 and v = 3 and w = ThreadCountMax and timeout = "- 1"
        and tick = 0 and b = True and l = l2]
    by (simp add: s1_def s2_def rl_system_init_def)
  with r1 have r2: "rl_reachable s2" by (rule rl_reachable.step)
  have "sys_granted s2 ThreadCountMax = 3" by (simp add: s2_def)
  with r2 reservations_never_exceed_limit [OF r2, of ThreadCountMax] show ?thesis by blast
qed

text \<open>
  In every reachable configuration no call is undefined (no signed overflow, on any path of
  \<open>Reserve\<close> and of \<open>Release\<close> within its assertions), and the assertions of the
  getters hold.
\<close>

theorem resource_limit_no_overflow:
  assumes "rl_reachable s" and "0 \<le> v" "v < 2 ^ 63"
  shows "Reserve_start w v timeout tick (sys_limit s) \<noteq> None \<and>
    Reserve_wake w v timeout tick (sys_limit s) \<noteq> None \<and>
    (Release_asserts w v hint (sys_limit s) \<longrightarrow> Release w v hint (sys_limit s) \<noteq> None) \<and>
    GetFreeValue w (sys_limit s) \<noteq> None \<and>
    (\<forall>g \<in> {GetLimitValue, GetCurrentValue, GetPeakValue}. getter_asserts w (g w (sys_limit s)) (sys_limit s))"
proof -
  have inv: "rl_inv (sys_limit s)"
    using rl_reachable_inv [OF assms(1)] by (simp add: rl_system_inv_def)
  note b = rl_invD [OF inv, of w]
  have "getter_asserts w (g w (sys_limit s)) (sys_limit s)"
    if "g \<in> {GetLimitValue, GetCurrentValue, GetPeakValue}" for g
    using that b by (auto simp: getter_asserts_def GetLimitValue_def GetCurrentValue_def GetPeakValue_def)
  moreover have "GetFreeValue w (sys_limit s) \<noteq> None"
    using b by (simp add: GetFreeValue_def s64_add_def s64_range_def)
  moreover have "Reserve_iter w v timeout tick l \<noteq> None" if "rl_inv l" for l
    by (simp add: Reserve_iter_cases [OF that assms(2,3)])
  ultimately show ?thesis
    using inv Release_ok [OF inv] by (simp add: Reserve_start_def Reserve_wake_def)
qed

theorem resource_limit_no_overflow_witness:
  "Reserve_start ThreadCountMax 1 (- 1) 0 resource_limit_default \<noteq> None \<and>
   GetFreeValue ThreadCountMax resource_limit_default \<noteq> None"
  using resource_limit_no_overflow [OF rl_reachable.init, of 1 ThreadCountMax "- 1" 0]
  by (simp add: rl_system_init_def)

text \<open>
  A call of \<open>Reserve\<close> that finds enough room succeeds at once and adds exactly the
  requested amount to the current value and to the hint; it fails, changing nothing, when the amount
  is zero or when the amount does not fit and waiting could not help or the time is up; otherwise it
  waits.
\<close>

theorem Reserve_outcome:
  assumes "rl_inv s" and "0 \<le> v" "v < 2 ^ 63"
  shows "Reserve_start w v timeout tick s =
    (if 0 < v \<and> GetCurrentValue w s + v \<le> GetLimitValue w s
     then Some (Some True,
       s\<lparr>m_current_values := (m_current_values s)(w := m_current_values s w + v),
         m_current_hints := (m_current_hints s)(w := m_current_hints s w + v),
         m_peak_values := (m_peak_values s)(w := max (m_peak_values s w) (m_current_values s w + v))\<rparr>)
     else if 0 < v \<and> GetCurrentValue w s + v < 2 ^ 63 \<and> m_current_hints s w + v \<le> GetLimitValue w s \<and>
       (timeout < 0 \<or> tick < timeout)
     then Some (None, s\<lparr>m_waiter_count := m_waiter_count s + 1\<rparr>)
     else Some (Some False, s))"
  using rl_invD [OF assms(1), of w]
  by (auto simp: Reserve_start_def Reserve_iter_cases [OF assms] GetCurrentValue_def GetLimitValue_def)

theorem Reserve_outcome_witness:
  "Reserve_start ThreadCountMax 3 (- 1) 0 (CreateResourceLimitForProcess 0) =
   Some (Some True, (CreateResourceLimitForProcess 0)
     \<lparr>m_current_values := (\<lambda>_. 0)(ThreadCountMax := 3), m_current_hints := (\<lambda>_. 0)(ThreadCountMax := 3),
      m_peak_values := (\<lambda>_. 0)(ThreadCountMax := 3)\<rparr>)"
proof -
  have f: "m_limit_values (CreateResourceLimitForProcess 0) = (\<lambda>_. 0)(PhysicalMemoryMax := 0,
      ThreadCountMax := 800, EventCountMax := 900, TransferMemoryCountMax := 200, SessionCountMax := 1133)"
    "m_current_values (CreateResourceLimitForProcess 0) = (\<lambda>_. 0)"
    "m_current_hints (CreateResourceLimitForProcess 0) = (\<lambda>_. 0)"
    "m_peak_values (CreateResourceLimitForProcess 0) = (\<lambda>_. 0)"
    by (auto simp: CreateResourceLimitForProcess_def SetLimitValue_def resource_limit_default_def Let_def)
  then have "rl_inv (CreateResourceLimitForProcess 0)"
    by (auto simp: rl_inv_def)
  from Reserve_outcome [OF this, of 3 ThreadCountMax "- 1" 0] f show ?thesis
    by (simp add: GetCurrentValue_def GetLimitValue_def)
qed

text \<open>
  A scoped reservation that is not committed gives everything back: after the destructor the
  current values and hints are those before the constructor.  A committed one keeps what it took.
\<close>

theorem scoped_reservation_rolls_back:
  assumes inv: "rl_inv s" and v: "0 \<le> v" "v < 2 ^ 63"
    and c: "scoped_construct has_limit w v timeout tick s = Some (r, s1)"
  shows "(\<exists>s2. scoped_destruct r s1 = Some s2 \<and> m_current_values s2 = m_current_values s \<and>
      m_current_hints s2 = m_current_hints s \<and> m_limit_values s2 = m_limit_values s) \<and>
    scoped_destruct (scoped_Commit r) s1 = Some s1"
proof
  show "scoped_destruct (scoped_Commit r) s1 = Some s1"
    by (simp add: scoped_destruct_def scoped_Commit_def)
  show "\<exists>s2. scoped_destruct r s1 = Some s2 \<and> m_current_values s2 = m_current_values s \<and>
      m_current_hints s2 = m_current_hints s \<and> m_limit_values s2 = m_limit_values s"
  proof (cases "has_limit \<and> v \<noteq> 0")
    case False
    with c have "r = \<lparr>sr_limit = has_limit, sr_value = v, sr_resource = w, sr_succeeded = True\<rparr>" "s1 = s"
      by (auto simp: scoped_construct_def split: if_splits)
    with False show ?thesis by (auto simp: scoped_destruct_def)
  next
    case True
    with c obtain b where r: "r = \<lparr>sr_limit = True, sr_value = v, sr_resource = w, sr_succeeded = b\<rparr>"
      and st: "Reserve_start w v timeout tick s = Some (Some b, s1)"
      by (auto simp: scoped_construct_def bind_eq_Some_conv)
    note e = Reserve_start_effect(1) [OF inv v st]
    show ?thesis
    proof (cases b)
      case False
      with st have "s1 = s"
        using Reserve_iter_cases [OF inv v, of w timeout tick]
        by (auto simp: Reserve_start_def split: if_splits)
      with r False show ?thesis by (simp add: scoped_destruct_def)
    next
      case b: True
      with st have s1: "m_current_values s1 = (m_current_values s)(w := m_current_values s w + v)"
        "m_current_hints s1 = (m_current_hints s)(w := m_current_hints s w + v)"
        "m_limit_values s1 = m_limit_values s"
        using Reserve_iter_cases [OF inv v, of w timeout tick]
        by (auto simp: Reserve_start_def split: if_splits)
      have "Release_asserts w v v s1"
        using v rl_invD [OF e, of w] rl_invD [OF inv, of w] by (auto simp: Release_asserts_def s1)
      from Release_ok [OF e this] r b True show ?thesis by (simp add: scoped_destruct_def s1)
    qed
  qed
qed

theorem scoped_reservation_rolls_back_witness:
  "\<exists>r s1 s2. scoped_construct True ThreadCountMax 1 (- 1) 0 (snd (SetLimitValue ThreadCountMax 5 resource_limit_default))
      = Some (r, s1) \<and> sr_succeeded r \<and> m_current_values s1 ThreadCountMax = 1 \<and>
    scoped_destruct r s1 = Some s2 \<and> m_current_values s2 = (\<lambda>_. 0)"
proof -
  let ?s = "snd (SetLimitValue ThreadCountMax 5 resource_limit_default)"
  have inv: "rl_inv ?s" by (rule SetLimitValue_inv [OF rl_inv_default]) simp
  have c: "scoped_construct True ThreadCountMax 1 (- 1) 0 ?s =
    Some (\<lparr>sr_limit = True, sr_value = 1, sr_resource = ThreadCountMax, sr_succeeded = True\<rparr>,
      ?s\<lparr>m_current_values := (\<lambda>_. 0)(ThreadCountMax := 1), m_current_hints := (\<lambda>_. 0)(ThreadCountMax := 1),
         m_peak_values := (\<lambda>_. 0)(ThreadCountMax := 1)\<rparr>)"
    by (simp add: scoped_construct_def Reserve_start_def Reserve_iter_def SetLimitValue_def
        resource_limit_default_def WrappingAdd_def s64_add_def s64_range_def Let_def)
  from scoped_reservation_rolls_back [OF inv _ _ c] c show ?thesis
    by (auto simp: SetLimitValue_def resource_limit_default_def)
qed

end
