(* ===== verification/KMemoryBlock.thy ===== *)
theory KMemoryBlock
  imports Prelude KAutoObject
begin

text \<open>
  \<^verbatim>\<open>src/core/hle/kernel/k_memory_block.h\<close>: the memory states, permissions and attributes of
  the guest address space, and the memory block with its operations.  Flags are words of the width of
  their enum, the lock and share counters are 16-bit words that wrap as the code's \<open>u16\<close> do, and
  addresses and page counts are 64-bit naturals (\<open>add64\<close>, \<open>sub64\<close>, \<open>mul64\<close>).
\<close>

section \<open>Flags\<close>

definition KMemoryState_Mask :: u32 where
  "KMemoryState_Mask = 0xFF"

definition KMemoryState_FlagCanReprotect :: u32 where
  "KMemoryState_FlagCanReprotect = push_bit 8 1"

definition KMemoryState_FlagCanDebug :: u32 where
  "KMemoryState_FlagCanDebug = push_bit 9 1"

definition KMemoryState_FlagCanUseIpc :: u32 where
  "KMemoryState_FlagCanUseIpc = push_bit 10 1"

definition KMemoryState_FlagCanUseNonDeviceIpc :: u32 where
  "KMemoryState_FlagCanUseNonDeviceIpc = push_bit 11 1"

definition KMemoryState_FlagCanUseNonSecureIpc :: u32 where
  "KMemoryState_FlagCanUseNonSecureIpc = push_bit 12 1"

definition KMemoryState_FlagMapped :: u32 where
  "KMemoryState_FlagMapped = push_bit 13 1"

definition KMemoryState_FlagCode :: u32 where
  "KMemoryState_FlagCode = push_bit 14 1"

definition KMemoryState_FlagCanAlias :: u32 where
  "KMemoryState_FlagCanAlias = push_bit 15 1"

definition KMemoryState_FlagCanCodeAlias :: u32 where
  "KMemoryState_FlagCanCodeAlias = push_bit 16 1"

definition KMemoryState_FlagCanTransfer :: u32 where
  "KMemoryState_FlagCanTransfer = push_bit 17 1"

definition KMemoryState_FlagCanQueryPhysical :: u32 where
  "KMemoryState_FlagCanQueryPhysical = push_bit 18 1"

definition KMemoryState_FlagCanDeviceMap :: u32 where
  "KMemoryState_FlagCanDeviceMap = push_bit 19 1"

definition KMemoryState_FlagCanAlignedDeviceMap :: u32 where
  "KMemoryState_FlagCanAlignedDeviceMap = push_bit 20 1"

definition KMemoryState_FlagCanIpcUserBuffer :: u32 where
  "KMemoryState_FlagCanIpcUserBuffer = push_bit 21 1"

definition KMemoryState_FlagReferenceCounted :: u32 where
  "KMemoryState_FlagReferenceCounted = push_bit 22 1"

definition KMemoryState_FlagCanMapProcess :: u32 where
  "KMemoryState_FlagCanMapProcess = push_bit 23 1"

definition KMemoryState_FlagCanChangeAttribute :: u32 where
  "KMemoryState_FlagCanChangeAttribute = push_bit 24 1"

definition KMemoryState_FlagCanCodeMemory :: u32 where
  "KMemoryState_FlagCanCodeMemory = push_bit 25 1"

definition KMemoryState_FlagLinearMapped :: u32 where
  "KMemoryState_FlagLinearMapped = push_bit 26 1"

definition KMemoryState_FlagCanPermissionLock :: u32 where
  "KMemoryState_FlagCanPermissionLock = push_bit 27 1"

definition KMemoryState_FlagsData :: u32 where
  "KMemoryState_FlagsData =
     KMemoryState_FlagCanReprotect OR KMemoryState_FlagCanUseIpc OR
     KMemoryState_FlagCanUseNonDeviceIpc OR KMemoryState_FlagCanUseNonSecureIpc OR
     KMemoryState_FlagMapped OR KMemoryState_FlagCanAlias OR KMemoryState_FlagCanTransfer OR
     KMemoryState_FlagCanQueryPhysical OR KMemoryState_FlagCanDeviceMap OR
     KMemoryState_FlagCanAlignedDeviceMap OR KMemoryState_FlagCanIpcUserBuffer OR
     KMemoryState_FlagReferenceCounted OR KMemoryState_FlagCanChangeAttribute OR
     KMemoryState_FlagLinearMapped"

definition KMemoryState_FlagsCode :: u32 where
  "KMemoryState_FlagsCode =
     KMemoryState_FlagCanDebug OR KMemoryState_FlagCanUseIpc OR
     KMemoryState_FlagCanUseNonDeviceIpc OR KMemoryState_FlagCanUseNonSecureIpc OR
     KMemoryState_FlagMapped OR KMemoryState_FlagCode OR KMemoryState_FlagCanQueryPhysical OR
     KMemoryState_FlagCanDeviceMap OR KMemoryState_FlagCanAlignedDeviceMap OR
     KMemoryState_FlagReferenceCounted OR KMemoryState_FlagLinearMapped"

definition KMemoryState_FlagsMisc :: u32 where
  "KMemoryState_FlagsMisc =
     KMemoryState_FlagMapped OR KMemoryState_FlagReferenceCounted OR
     KMemoryState_FlagCanQueryPhysical OR KMemoryState_FlagCanDeviceMap OR
     KMemoryState_FlagLinearMapped"

definition KMemoryState_Free :: u32 where
  "KMemoryState_Free = 0x00"

definition KMemoryState_IoMemory :: u32 where
  "KMemoryState_IoMemory =
     0x01 OR KMemoryState_FlagMapped OR KMemoryState_FlagCanDeviceMap OR
     KMemoryState_FlagCanAlignedDeviceMap"

definition KMemoryState_IoRegister :: u32 where
  "KMemoryState_IoRegister =
     0x01 OR KMemoryState_FlagCanDeviceMap OR KMemoryState_FlagCanAlignedDeviceMap"

definition KMemoryState_Static :: u32 where
  "KMemoryState_Static =
     0x02 OR KMemoryState_FlagMapped OR KMemoryState_FlagCanQueryPhysical"

definition KMemoryState_Code :: u32 where
  "KMemoryState_Code =
     0x03 OR KMemoryState_FlagsCode OR KMemoryState_FlagCanMapProcess"

definition KMemoryState_CodeData :: u32 where
  "KMemoryState_CodeData =
     0x04 OR KMemoryState_FlagsData OR KMemoryState_FlagCanMapProcess OR
     KMemoryState_FlagCanCodeMemory OR KMemoryState_FlagCanPermissionLock"

definition KMemoryState_Normal :: u32 where
  "KMemoryState_Normal =
     0x05 OR KMemoryState_FlagsData OR KMemoryState_FlagCanCodeMemory"

definition KMemoryState_Shared :: u32 where
  "KMemoryState_Shared =
     0x06 OR KMemoryState_FlagMapped OR KMemoryState_FlagReferenceCounted OR
     KMemoryState_FlagLinearMapped"

definition KMemoryState_AliasCode :: u32 where
  "KMemoryState_AliasCode =
     0x08 OR KMemoryState_FlagsCode OR KMemoryState_FlagCanMapProcess OR
     KMemoryState_FlagCanCodeAlias"

definition KMemoryState_AliasCodeData :: u32 where
  "KMemoryState_AliasCodeData =
     0x09 OR KMemoryState_FlagsData OR KMemoryState_FlagCanMapProcess OR
     KMemoryState_FlagCanCodeAlias OR KMemoryState_FlagCanCodeMemory OR
     KMemoryState_FlagCanPermissionLock"

definition KMemoryState_Ipc :: u32 where
  "KMemoryState_Ipc =
     0x0A OR KMemoryState_FlagsMisc OR KMemoryState_FlagCanAlignedDeviceMap OR
     KMemoryState_FlagCanUseIpc OR KMemoryState_FlagCanUseNonSecureIpc OR
     KMemoryState_FlagCanUseNonDeviceIpc"

definition KMemoryState_Stack :: u32 where
  "KMemoryState_Stack =
     0x0B OR KMemoryState_FlagsMisc OR KMemoryState_FlagCanAlignedDeviceMap OR
     KMemoryState_FlagCanUseIpc OR KMemoryState_FlagCanUseNonSecureIpc OR
     KMemoryState_FlagCanUseNonDeviceIpc"

definition KMemoryState_ThreadLocal :: u32 where
  "KMemoryState_ThreadLocal = 0x0C OR KMemoryState_FlagLinearMapped"

definition KMemoryState_Transferred :: u32 where
  "KMemoryState_Transferred =
     0x0D OR KMemoryState_FlagsMisc OR KMemoryState_FlagCanAlignedDeviceMap OR
     KMemoryState_FlagCanChangeAttribute OR KMemoryState_FlagCanUseIpc OR
     KMemoryState_FlagCanUseNonSecureIpc OR KMemoryState_FlagCanUseNonDeviceIpc"

definition KMemoryState_SharedTransferred :: u32 where
  "KMemoryState_SharedTransferred =
     0x0E OR KMemoryState_FlagsMisc OR KMemoryState_FlagCanAlignedDeviceMap OR
     KMemoryState_FlagCanUseNonSecureIpc OR KMemoryState_FlagCanUseNonDeviceIpc"

definition KMemoryState_SharedCode :: u32 where
  "KMemoryState_SharedCode =
     0x0F OR KMemoryState_FlagMapped OR KMemoryState_FlagReferenceCounted OR
     KMemoryState_FlagLinearMapped OR KMemoryState_FlagCanUseNonSecureIpc OR
     KMemoryState_FlagCanUseNonDeviceIpc"

definition KMemoryState_Inaccessible :: u32 where
  "KMemoryState_Inaccessible = 0x10"

definition KMemoryState_NonSecureIpc :: u32 where
  "KMemoryState_NonSecureIpc =
     0x11 OR KMemoryState_FlagsMisc OR KMemoryState_FlagCanAlignedDeviceMap OR
     KMemoryState_FlagCanUseNonSecureIpc OR KMemoryState_FlagCanUseNonDeviceIpc"

definition KMemoryState_NonDeviceIpc :: u32 where
  "KMemoryState_NonDeviceIpc =
     0x12 OR KMemoryState_FlagsMisc OR KMemoryState_FlagCanUseNonDeviceIpc"

definition KMemoryState_Kernel :: u32 where
  "KMemoryState_Kernel = 0x13"

definition KMemoryState_GeneratedCode :: u32 where
  "KMemoryState_GeneratedCode =
     0x14 OR KMemoryState_FlagMapped OR KMemoryState_FlagReferenceCounted OR
     KMemoryState_FlagCanDebug OR KMemoryState_FlagLinearMapped"

definition KMemoryState_CodeOut :: u32 where
  "KMemoryState_CodeOut =
     0x15 OR KMemoryState_FlagMapped OR KMemoryState_FlagReferenceCounted OR
     KMemoryState_FlagLinearMapped"

definition KMemoryState_Coverage :: u32 where
  "KMemoryState_Coverage = 0x16 OR KMemoryState_FlagMapped"

definition KMemoryState_Insecure :: u32 where
  "KMemoryState_Insecure =
     0x17 OR KMemoryState_FlagMapped OR KMemoryState_FlagReferenceCounted OR
     KMemoryState_FlagLinearMapped OR KMemoryState_FlagCanChangeAttribute OR
     KMemoryState_FlagCanDeviceMap OR KMemoryState_FlagCanAlignedDeviceMap OR
     KMemoryState_FlagCanQueryPhysical OR KMemoryState_FlagCanUseNonSecureIpc OR
     KMemoryState_FlagCanUseNonDeviceIpc"

lemmas memory_state_defs =
  KMemoryState_Mask_def KMemoryState_FlagCanReprotect_def
  KMemoryState_FlagCanDebug_def KMemoryState_FlagCanUseIpc_def
  KMemoryState_FlagCanUseNonDeviceIpc_def KMemoryState_FlagCanUseNonSecureIpc_def
  KMemoryState_FlagMapped_def KMemoryState_FlagCode_def
  KMemoryState_FlagCanAlias_def KMemoryState_FlagCanCodeAlias_def
  KMemoryState_FlagCanTransfer_def KMemoryState_FlagCanQueryPhysical_def
  KMemoryState_FlagCanDeviceMap_def KMemoryState_FlagCanAlignedDeviceMap_def
  KMemoryState_FlagCanIpcUserBuffer_def KMemoryState_FlagReferenceCounted_def
  KMemoryState_FlagCanMapProcess_def KMemoryState_FlagCanChangeAttribute_def
  KMemoryState_FlagCanCodeMemory_def KMemoryState_FlagLinearMapped_def
  KMemoryState_FlagCanPermissionLock_def KMemoryState_FlagsData_def
  KMemoryState_FlagsCode_def KMemoryState_FlagsMisc_def
  KMemoryState_Free_def KMemoryState_IoMemory_def
  KMemoryState_IoRegister_def KMemoryState_Static_def
  KMemoryState_Code_def KMemoryState_CodeData_def
  KMemoryState_Normal_def KMemoryState_Shared_def
  KMemoryState_AliasCode_def KMemoryState_AliasCodeData_def
  KMemoryState_Ipc_def KMemoryState_Stack_def
  KMemoryState_ThreadLocal_def KMemoryState_Transferred_def
  KMemoryState_SharedTransferred_def KMemoryState_SharedCode_def
  KMemoryState_Inaccessible_def KMemoryState_NonSecureIpc_def
  KMemoryState_NonDeviceIpc_def KMemoryState_Kernel_def
  KMemoryState_GeneratedCode_def KMemoryState_CodeOut_def
  KMemoryState_Coverage_def KMemoryState_Insecure_def

lemma memory_state_values:
  "KMemoryState_Free = 0x00000000"
  "KMemoryState_IoMemory = 0x00182001"
  "KMemoryState_IoRegister = 0x00180001"
  "KMemoryState_Static = 0x00042002"
  "KMemoryState_Code = 0x04DC7E03"
  "KMemoryState_CodeData = 0x0FFEBD04"
  "KMemoryState_Normal = 0x077EBD05"
  "KMemoryState_Shared = 0x04402006"
  "KMemoryState_AliasCode = 0x04DD7E08"
  "KMemoryState_AliasCodeData = 0x0FFFBD09"
  "KMemoryState_Ipc = 0x045C3C0A"
  "KMemoryState_Stack = 0x045C3C0B"
  "KMemoryState_ThreadLocal = 0x0400000C"
  "KMemoryState_Transferred = 0x055C3C0D"
  "KMemoryState_SharedTransferred = 0x045C380E"
  "KMemoryState_SharedCode = 0x0440380F"
  "KMemoryState_Inaccessible = 0x00000010"
  "KMemoryState_NonSecureIpc = 0x045C3811"
  "KMemoryState_NonDeviceIpc = 0x044C2812"
  "KMemoryState_Kernel = 0x00000013"
  "KMemoryState_GeneratedCode = 0x04402214"
  "KMemoryState_CodeOut = 0x04402015"
  "KMemoryState_Coverage = 0x00002016"
  "KMemoryState_Insecure = 0x055C3817"
  by (simp_all add: memory_state_defs)

definition Perm_None :: u8 where "Perm_None = 0"
definition Perm_KernelShift :: nat where "Perm_KernelShift = 3"
definition Perm_KernelRead :: u8 where "Perm_KernelRead = push_bit Perm_KernelShift 1"
definition Perm_KernelWrite :: u8 where "Perm_KernelWrite = push_bit Perm_KernelShift 2"
definition Perm_KernelExecute :: u8 where "Perm_KernelExecute = push_bit Perm_KernelShift 4"
definition Perm_NotMapped :: u8 where "Perm_NotMapped = push_bit (2 * Perm_KernelShift) 1"
definition Perm_UserRead :: u8 where "Perm_UserRead = 1 OR Perm_KernelRead"
definition Perm_UserWrite :: u8 where "Perm_UserWrite = 2 OR Perm_KernelWrite"
definition Perm_UserExecute :: u8 where "Perm_UserExecute = 4"
definition Perm_UserReadWrite :: u8 where "Perm_UserReadWrite = Perm_UserRead OR Perm_UserWrite"
definition Perm_UserMask :: u8 where "Perm_UserMask = 1 OR 2 OR 4"
definition Perm_IpcLockChangeMask :: u8 where
  "Perm_IpcLockChangeMask = Perm_NotMapped OR Perm_UserReadWrite"

lemmas perm_defs = Perm_None_def Perm_KernelShift_def Perm_KernelRead_def Perm_KernelWrite_def
  Perm_KernelExecute_def Perm_NotMapped_def Perm_UserRead_def Perm_UserWrite_def Perm_UserExecute_def
  Perm_UserReadWrite_def Perm_UserMask_def Perm_IpcLockChangeMask_def

text \<open>The argument is the \<open>u32\<close> behind \<open>Svc::MemoryPermission\<close>.\<close>

definition ConvertToKMemoryPermission :: "u32 \<Rightarrow> u8" where
  "ConvertToKMemoryPermission perm =
     (ucast perm AND Perm_UserMask) OR Perm_KernelRead OR
     push_bit Perm_KernelShift (ucast perm AND Perm_UserWrite) OR
     (if perm = 0 then Perm_NotMapped else Perm_None)"

definition Attr_None :: u8 where "Attr_None = 0"
definition Attr_UserMask :: u8 where "Attr_UserMask = 0xFF"
definition Attr_Locked :: u8 where "Attr_Locked = 1"
definition Attr_IpcLocked :: u8 where "Attr_IpcLocked = 2"
definition Attr_DeviceShared :: u8 where "Attr_DeviceShared = 4"
definition Attr_Uncached :: u8 where "Attr_Uncached = 8"
definition Attr_PermissionLocked :: u8 where "Attr_PermissionLocked = 16"

lemmas attr_defs = Attr_None_def Attr_UserMask_def Attr_Locked_def Attr_IpcLocked_def
  Attr_DeviceShared_def Attr_Uncached_def Attr_PermissionLocked_def

definition Merge_None :: u8 where "Merge_None = 0"
definition Merge_Normal :: u8 where "Merge_Normal = push_bit 0 1"
definition Merge_DeviceLeft :: u8 where "Merge_DeviceLeft = push_bit 1 1"
definition Merge_IpcLeft :: u8 where "Merge_IpcLeft = push_bit 2 1"
definition Merge_Locked :: u8 where "Merge_Locked = push_bit 3 1"
definition Merge_DeviceRight :: u8 where "Merge_DeviceRight = push_bit 4 1"
definition Merge_AllLeft :: u8 where
  "Merge_AllLeft = Merge_Normal OR Merge_DeviceLeft OR Merge_IpcLeft OR Merge_Locked"
definition Merge_AllRight :: u8 where "Merge_AllRight = Merge_DeviceRight"

lemmas merge_defs = Merge_None_def Merge_Normal_def Merge_DeviceLeft_def Merge_IpcLeft_def
  Merge_Locked_def Merge_DeviceRight_def Merge_AllLeft_def Merge_AllRight_def

section \<open>Blocks\<close>

definition PageSize :: nat where
  "PageSize = 4096"

record memory_block =
  m_device_disable_merge_left_count :: u16
  m_device_disable_merge_right_count :: u16
  m_address :: nat
  m_num_pages :: nat
  m_memory_state :: u32
  m_ipc_lock_count :: u16
  m_device_use_count :: u16
  m_ipc_disable_merge_count :: u16
  m_permission :: u8
  m_original_permission :: u8
  m_attribute :: u8
  m_disable_merge_attribute :: u8

definition memory_block_default :: memory_block where
  "memory_block_default = \<lparr>m_device_disable_merge_left_count = 0, m_device_disable_merge_right_count = 0,
     m_address = 0, m_num_pages = 0, m_memory_state = 0, m_ipc_lock_count = 0, m_device_use_count = 0,
     m_ipc_disable_merge_count = 0, m_permission = Perm_None, m_original_permission = Perm_None,
     m_attribute = Attr_None, m_disable_merge_attribute = Merge_None\<rparr>"

definition GetSize :: "memory_block \<Rightarrow> nat" where
  "GetSize b = mul64 (m_num_pages b) PageSize"

definition GetEndAddress :: "memory_block \<Rightarrow> nat" where
  "GetEndAddress b = add64 (m_address b) (GetSize b)"

definition GetLastAddress :: "memory_block \<Rightarrow> nat" where
  "GetLastAddress b = sub64 (GetEndAddress b) 1"

text \<open>The three-way comparison of the tree: negative, zero or positive.\<close>

definition Compare :: "memory_block \<Rightarrow> memory_block \<Rightarrow> int" where
  "Compare lhs rhs =
     (if m_address lhs < m_address rhs then - 1
      else if m_address lhs \<le> GetLastAddress rhs then 0 else 1)"

text \<open>
  \<open>KMemoryInfo\<close> is a copy of the fields of a block with the size in bytes; only its size, end and
  the fields of \<open>GetSvcMemoryInfo\<close> are read, so the copy of a block is the block itself, and
  the service view is a record of its own.
\<close>

record svc_memory_info =
  svc_base_address :: nat
  svc_size :: nat
  svc_state :: u32
  svc_attribute :: u32
  svc_permission :: u32
  svc_ipc_count :: u32
  svc_device_count :: u32

definition GetSvcMemoryInfo :: "memory_block \<Rightarrow> svc_memory_info" where
  "GetSvcMemoryInfo b = \<lparr>svc_base_address = m_address b, svc_size = GetSize b,
     svc_state = m_memory_state b AND KMemoryState_Mask,
     svc_attribute = ucast (m_attribute b AND Attr_UserMask),
     svc_permission = ucast (m_permission b AND Perm_UserMask),
     svc_ipc_count = ucast (m_ipc_lock_count b), svc_device_count = ucast (m_device_use_count b)\<rparr>"

text \<open>\<open>Initialize\<close> leaves \<open>m_ipc_disable_merge_count\<close> as it is.\<close>

definition BlockInitialize :: "nat \<Rightarrow> nat \<Rightarrow> u32 \<Rightarrow> u8 \<Rightarrow> u8 \<Rightarrow> memory_block \<Rightarrow> memory_block" where
  "BlockInitialize addr np ms p attr b =
     b\<lparr>m_device_disable_merge_left_count := 0, m_device_disable_merge_right_count := 0,
       m_address := addr, m_num_pages := np, m_memory_state := ms, m_ipc_lock_count := 0,
       m_device_use_count := 0, m_permission := p, m_original_permission := Perm_None,
       m_attribute := attr, m_disable_merge_attribute := Merge_None\<rparr>"

definition HasProperties :: "u32 \<Rightarrow> u8 \<Rightarrow> u8 \<Rightarrow> memory_block \<Rightarrow> bool" where
  "HasProperties s p a b \<longleftrightarrow>
     (let AttributeIgnoreMask = Attr_IpcLocked OR Attr_DeviceShared in
      m_memory_state b = s \<and> m_permission b = p \<and>
      m_attribute b OR AttributeIgnoreMask = a OR AttributeIgnoreMask)"

definition HasSameProperties :: "memory_block \<Rightarrow> memory_block \<Rightarrow> bool" where
  "HasSameProperties b rhs \<longleftrightarrow>
     m_memory_state b = m_memory_state rhs \<and> m_permission b = m_permission rhs \<and>
     m_original_permission b = m_original_permission rhs \<and> m_attribute b = m_attribute rhs \<and>
     m_ipc_lock_count b = m_ipc_lock_count rhs \<and> m_device_use_count b = m_device_use_count rhs"

definition CanMergeWith :: "memory_block \<Rightarrow> memory_block \<Rightarrow> bool" where
  "CanMergeWith b rhs \<longleftrightarrow> HasSameProperties b rhs \<and>
     m_disable_merge_attribute b AND Merge_AllRight = Merge_None \<and>
     m_disable_merge_attribute rhs AND Merge_AllLeft = Merge_None"

definition Contains :: "nat \<Rightarrow> memory_block \<Rightarrow> bool" where
  "Contains addr b \<longleftrightarrow> m_address b \<le> addr \<and> addr \<le> GetEndAddress b"

definition BlockAdd :: "memory_block \<Rightarrow> memory_block \<Rightarrow> memory_block" where
  "BlockAdd b added_block =
     b\<lparr>m_num_pages := add64 (m_num_pages b) (m_num_pages added_block),
       m_disable_merge_attribute := m_disable_merge_attribute b OR m_disable_merge_attribute added_block,
       m_device_disable_merge_right_count := m_device_disable_merge_right_count added_block\<rparr>"

definition BlockUpdate :: "u32 \<Rightarrow> u8 \<Rightarrow> u8 \<Rightarrow> bool \<Rightarrow> u8 \<Rightarrow> u8 \<Rightarrow> memory_block \<Rightarrow> memory_block" where
  "BlockUpdate s p a set_disable_merge_attr set_mask clear_mask b =
     (let b1 = b\<lparr>m_memory_state := s, m_permission := p,
                m_attribute := a OR (m_attribute b AND (Attr_IpcLocked OR Attr_DeviceShared))\<rparr>;
          b2 = (if set_disable_merge_attr \<and> set_mask \<noteq> 0
                then b1\<lparr>m_disable_merge_attribute := m_disable_merge_attribute b1 OR set_mask\<rparr> else b1)
      in if clear_mask \<noteq> 0
         then b2\<lparr>m_disable_merge_attribute := m_disable_merge_attribute b2 AND NOT clear_mask\<rparr> else b2)"

definition BlockUpdateAttribute :: "u8 \<Rightarrow> u8 \<Rightarrow> memory_block \<Rightarrow> memory_block" where
  "BlockUpdateAttribute msk attr b = b\<lparr>m_attribute := (m_attribute b AND NOT msk) OR attr\<rparr>"

text \<open>The new left block (every field of it is assigned) and the remaining right one.\<close>

definition Split :: "nat \<Rightarrow> memory_block \<Rightarrow> memory_block \<times> memory_block" where
  "Split addr b =
     (let block = \<lparr>m_device_disable_merge_left_count = m_device_disable_merge_left_count b,
            m_device_disable_merge_right_count = 0,
            m_address = m_address b, m_num_pages = sub64 addr (m_address b) div PageSize,
            m_memory_state = m_memory_state b, m_ipc_lock_count = m_ipc_lock_count b,
            m_device_use_count = m_device_use_count b,
            m_ipc_disable_merge_count = m_ipc_disable_merge_count b,
            m_permission = m_permission b, m_original_permission = m_original_permission b,
            m_attribute = m_attribute b,
            m_disable_merge_attribute = m_disable_merge_attribute b AND Merge_AllLeft\<rparr>
      in (block,
          b\<lparr>m_address := addr, m_num_pages := sub64 (m_num_pages b) (m_num_pages block),
            m_ipc_disable_merge_count := 0, m_device_disable_merge_left_count := 0,
            m_disable_merge_attribute := m_disable_merge_attribute b AND Merge_AllRight\<rparr>))"

subsection \<open>Sharing with devices\<close>

text \<open>The new permission that every lock function takes is not read by the device functions.\<close>

definition UpdateDeviceDisableMergeStateForShareLeft ::
  "u8 \<Rightarrow> bool \<Rightarrow> bool \<Rightarrow> memory_block \<Rightarrow> memory_block" where
  "UpdateDeviceDisableMergeStateForShareLeft new_perm left right b =
     (if left
      then b\<lparr>m_disable_merge_attribute := m_disable_merge_attribute b OR Merge_DeviceLeft,
             m_device_disable_merge_left_count := m_device_disable_merge_left_count b + 1\<rparr>
      else b)"

definition UpdateDeviceDisableMergeStateForShareRight ::
  "u8 \<Rightarrow> bool \<Rightarrow> bool \<Rightarrow> memory_block \<Rightarrow> memory_block" where
  "UpdateDeviceDisableMergeStateForShareRight new_perm left right b =
     (if right
      then b\<lparr>m_disable_merge_attribute := m_disable_merge_attribute b OR Merge_DeviceRight,
             m_device_disable_merge_right_count := m_device_disable_merge_right_count b + 1\<rparr>
      else b)"

definition UpdateDeviceDisableMergeStateForShare ::
  "u8 \<Rightarrow> bool \<Rightarrow> bool \<Rightarrow> memory_block \<Rightarrow> memory_block" where
  "UpdateDeviceDisableMergeStateForShare new_perm left right b =
     UpdateDeviceDisableMergeStateForShareRight new_perm left right
       (UpdateDeviceDisableMergeStateForShareLeft new_perm left right b)"

definition ShareToDevice :: "u8 \<Rightarrow> bool \<Rightarrow> bool \<Rightarrow> memory_block \<Rightarrow> memory_block" where
  "ShareToDevice new_perm left right b =
     UpdateDeviceDisableMergeStateForShare new_perm left right
       (b\<lparr>m_device_use_count := m_device_use_count b + 1,
          m_attribute := m_attribute b OR Attr_DeviceShared\<rparr>)"

definition UpdateDeviceDisableMergeStateForUnshareLeft ::
  "u8 \<Rightarrow> bool \<Rightarrow> bool \<Rightarrow> memory_block \<Rightarrow> memory_block" where
  "UpdateDeviceDisableMergeStateForUnshareLeft new_perm left right b =
     (if left \<and> m_device_disable_merge_left_count b = 0 then b
      else let count = (if left then m_device_disable_merge_left_count b - 1
                        else m_device_disable_merge_left_count b);
               b1 = b\<lparr>m_device_disable_merge_left_count := min count (m_device_use_count b)\<rparr>
           in if m_device_disable_merge_left_count b1 = 0
              then b1\<lparr>m_disable_merge_attribute := m_disable_merge_attribute b1 AND NOT Merge_DeviceLeft\<rparr>
              else b1)"

definition UpdateDeviceDisableMergeStateForUnshareRight ::
  "u8 \<Rightarrow> bool \<Rightarrow> bool \<Rightarrow> memory_block \<Rightarrow> memory_block" where
  "UpdateDeviceDisableMergeStateForUnshareRight new_perm left right b =
     (if right
      then let old_count = m_device_disable_merge_right_count b;
               b1 = b\<lparr>m_device_disable_merge_right_count := old_count - 1\<rparr>
           in if old_count = 1
              then b1\<lparr>m_disable_merge_attribute := m_disable_merge_attribute b1 AND NOT Merge_DeviceRight\<rparr>
              else b1
      else b)"

definition UpdateDeviceDisableMergeStateForUnshare ::
  "u8 \<Rightarrow> bool \<Rightarrow> bool \<Rightarrow> memory_block \<Rightarrow> memory_block" where
  "UpdateDeviceDisableMergeStateForUnshare new_perm left right b =
     UpdateDeviceDisableMergeStateForUnshareRight new_perm left right
       (UpdateDeviceDisableMergeStateForUnshareLeft new_perm left right b)"

definition UnshareToDevice :: "u8 \<Rightarrow> bool \<Rightarrow> bool \<Rightarrow> memory_block \<Rightarrow> memory_block" where
  "UnshareToDevice new_perm left right b =
     (let old_count = m_device_use_count b;
          b1 = b\<lparr>m_device_use_count := old_count - 1\<rparr>;
          b2 = (if old_count = 1
                then b1\<lparr>m_attribute := m_attribute b1 AND NOT Attr_DeviceShared\<rparr> else b1)
      in UpdateDeviceDisableMergeStateForUnshare new_perm left right b2)"

definition UnshareToDeviceRight :: "u8 \<Rightarrow> bool \<Rightarrow> bool \<Rightarrow> memory_block \<Rightarrow> memory_block" where
  "UnshareToDeviceRight new_perm left right b =
     (let old_count = m_device_use_count b;
          b1 = b\<lparr>m_device_use_count := old_count - 1\<rparr>;
          b2 = (if old_count = 1
                then b1\<lparr>m_attribute := m_attribute b1 AND NOT Attr_DeviceShared\<rparr> else b1)
      in UpdateDeviceDisableMergeStateForUnshareRight new_perm left right b2)"

subsection \<open>Locking for IPC\<close>

definition LockForIpc :: "u8 \<Rightarrow> bool \<Rightarrow> bool \<Rightarrow> memory_block \<Rightarrow> memory_block" where
  "LockForIpc new_perm left right b =
     (let new_lock_count = m_ipc_lock_count b + 1;
          b1 = b\<lparr>m_ipc_lock_count := new_lock_count\<rparr>;
          b2 = (if new_lock_count = 1
                then b1\<lparr>m_original_permission := m_permission b1,
                        m_permission := (new_perm AND Perm_IpcLockChangeMask) OR
                          (m_permission b1 AND NOT Perm_IpcLockChangeMask)\<rparr>
                else b1);
          b3 = b2\<lparr>m_attribute := m_attribute b2 OR Attr_IpcLocked\<rparr>
      in if left
         then b3\<lparr>m_disable_merge_attribute := m_disable_merge_attribute b3 OR Merge_IpcLeft,
                 m_ipc_disable_merge_count := m_ipc_disable_merge_count b3 + 1\<rparr>
         else b3)"

definition UnlockForIpc :: "u8 \<Rightarrow> bool \<Rightarrow> bool \<Rightarrow> memory_block \<Rightarrow> memory_block" where
  "UnlockForIpc new_perm left right b =
     (let old_lock_count = m_ipc_lock_count b;
          b1 = b\<lparr>m_ipc_lock_count := old_lock_count - 1\<rparr>;
          b2 = (if old_lock_count = 1
                then b1\<lparr>m_permission := m_original_permission b1, m_original_permission := Perm_None,
                        m_attribute := m_attribute b1 AND NOT Attr_IpcLocked\<rparr>
                else b1)
      in if left
         then let old_count = m_ipc_disable_merge_count b2;
                  b3 = b2\<lparr>m_ipc_disable_merge_count := old_count - 1\<rparr>
              in if old_count = 1
                 then b3\<lparr>m_disable_merge_attribute := m_disable_merge_attribute b3 AND NOT Merge_IpcLeft\<rparr>
                 else b3
         else b2)"

text \<open>The functions that the page table passes to \<open>KMemoryBlockManager::UpdateLock\<close>.\<close>

lemmas lock_function_defs = LockForIpc_def UnlockForIpc_def ShareToDevice_def UnshareToDevice_def
  UnshareToDeviceRight_def UpdateDeviceDisableMergeStateForShare_def
  UpdateDeviceDisableMergeStateForShareLeft_def UpdateDeviceDisableMergeStateForShareRight_def
  UpdateDeviceDisableMergeStateForUnshare_def UpdateDeviceDisableMergeStateForUnshareLeft_def
  UpdateDeviceDisableMergeStateForUnshareRight_def

section \<open>Properties of pages\<close>

text \<open>
  The fields two blocks must share to be merged: what the block says of each of its pages.
\<close>

record page_props =
  pp_state :: u32
  pp_permission :: u8
  pp_original_permission :: u8
  pp_attribute :: u8
  pp_ipc_lock_count :: u16
  pp_device_use_count :: u16

definition props :: "memory_block \<Rightarrow> page_props" where
  "props b = \<lparr>pp_state = m_memory_state b, pp_permission = m_permission b,
     pp_original_permission = m_original_permission b, pp_attribute = m_attribute b,
     pp_ipc_lock_count = m_ipc_lock_count b, pp_device_use_count = m_device_use_count b\<rparr>"

lemma props_fields [simp]:
  "pp_state (props b) = m_memory_state b" "pp_permission (props b) = m_permission b"
  "pp_original_permission (props b) = m_original_permission b" "pp_attribute (props b) = m_attribute b"
  "pp_ipc_lock_count (props b) = m_ipc_lock_count b" "pp_device_use_count (props b) = m_device_use_count b"
  by (simp_all add: props_def)

lemma props_eq_iff: "props b = props c \<longleftrightarrow> HasSameProperties b c"
  by (auto simp: props_def HasSameProperties_def)

text \<open>What each operation does to the properties of a page.\<close>

definition props_update :: "u32 \<Rightarrow> u8 \<Rightarrow> u8 \<Rightarrow> page_props \<Rightarrow> page_props" where
  "props_update s p a q = q\<lparr>pp_state := s, pp_permission := p,
     pp_attribute := a OR (pp_attribute q AND (Attr_IpcLocked OR Attr_DeviceShared))\<rparr>"

definition props_attribute :: "u8 \<Rightarrow> u8 \<Rightarrow> page_props \<Rightarrow> page_props" where
  "props_attribute msk a q = q\<lparr>pp_attribute := (pp_attribute q AND NOT msk) OR a\<rparr>"

definition props_lock_ipc :: "u8 \<Rightarrow> page_props \<Rightarrow> page_props" where
  "props_lock_ipc new_perm q =
     (let q1 = q\<lparr>pp_ipc_lock_count := pp_ipc_lock_count q + 1, pp_attribute := pp_attribute q OR Attr_IpcLocked\<rparr>
      in if pp_ipc_lock_count q = 0
         then q1\<lparr>pp_original_permission := pp_permission q,
                 pp_permission := (new_perm AND Perm_IpcLockChangeMask) OR
                   (pp_permission q AND NOT Perm_IpcLockChangeMask)\<rparr>
         else q1)"

definition props_unlock_ipc :: "page_props \<Rightarrow> page_props" where
  "props_unlock_ipc q =
     (let q1 = q\<lparr>pp_ipc_lock_count := pp_ipc_lock_count q - 1\<rparr>
      in if pp_ipc_lock_count q = 1
         then q1\<lparr>pp_permission := pp_original_permission q, pp_original_permission := Perm_None,
                 pp_attribute := pp_attribute q AND NOT Attr_IpcLocked\<rparr>
         else q1)"

definition props_share :: "page_props \<Rightarrow> page_props" where
  "props_share q = q\<lparr>pp_device_use_count := pp_device_use_count q + 1,
     pp_attribute := pp_attribute q OR Attr_DeviceShared\<rparr>"

definition props_unshare :: "page_props \<Rightarrow> page_props" where
  "props_unshare q =
     (let q1 = q\<lparr>pp_device_use_count := pp_device_use_count q - 1\<rparr>
      in if pp_device_use_count q = 1
         then q1\<lparr>pp_attribute := pp_attribute q AND NOT Attr_DeviceShared\<rparr> else q1)"

lemma props_block_ops:
  "props (BlockUpdate s p a f sm cm b) = props_update s p a (props b)"
  "props (BlockUpdateAttribute msk a b) = props_attribute msk a (props b)"
  "props (LockForIpc new_perm l r b) = props_lock_ipc new_perm (props b)"
  "props (UnlockForIpc new_perm l r b) = props_unlock_ipc (props b)"
  "props (ShareToDevice new_perm l r b) = props_share (props b)"
  "props (UnshareToDevice new_perm l r b) = props_unshare (props b)"
  "props (UnshareToDeviceRight new_perm l r b) = props_unshare (props b)"
  by (simp_all add: props_def BlockUpdate_def BlockUpdateAttribute_def lock_function_defs Let_def
      props_update_def props_attribute_def props_lock_ipc_def props_unlock_ipc_def props_share_def
      props_unshare_def)

lemma range_block_ops:
  "m_address (BlockUpdate s p a f sm cm b) = m_address b"
  "m_num_pages (BlockUpdate s p a f sm cm b) = m_num_pages b"
  "m_address (BlockUpdateAttribute msk a b) = m_address b"
  "m_num_pages (BlockUpdateAttribute msk a b) = m_num_pages b"
  "m_address (LockForIpc new_perm l r b) = m_address b"
  "m_num_pages (LockForIpc new_perm l r b) = m_num_pages b"
  "m_address (UnlockForIpc new_perm l r b) = m_address b"
  "m_num_pages (UnlockForIpc new_perm l r b) = m_num_pages b"
  "m_address (ShareToDevice new_perm l r b) = m_address b"
  "m_num_pages (ShareToDevice new_perm l r b) = m_num_pages b"
  "m_address (UnshareToDevice new_perm l r b) = m_address b"
  "m_num_pages (UnshareToDevice new_perm l r b) = m_num_pages b"
  "m_address (UnshareToDeviceRight new_perm l r b) = m_address b"
  "m_num_pages (UnshareToDeviceRight new_perm l r b) = m_num_pages b"
  by (simp_all add: BlockUpdate_def BlockUpdateAttribute_def lock_function_defs Let_def)

section \<open>Exact ends\<close>

definition bend :: "memory_block \<Rightarrow> nat" where
  "bend b = m_address b + m_num_pages b * PageSize"

lemma PageSize_pos [simp]: "0 < PageSize"
  by (simp add: PageSize_def)

lemma bend_gt [simp]: "0 < m_num_pages b \<Longrightarrow> m_address b < bend b"
  by (simp add: bend_def)

text \<open>Within the 64-bit range the code's sizes and ends are exact.\<close>

lemma block_exact:
  assumes "bend b < 2 ^ 64"
  shows "GetSize b = m_num_pages b * PageSize" "GetEndAddress b = bend b"
    and "0 < m_num_pages b \<Longrightarrow> GetLastAddress b = bend b - 1"
proof -
  show s: "GetSize b = m_num_pages b * PageSize"
    using assms by (simp add: GetSize_def bend_def mul64_exact)
  show e: "GetEndAddress b = bend b"
    using assms by (simp add: GetEndAddress_def s add64_exact bend_def)
  show "GetLastAddress b = bend b - 1" if "0 < m_num_pages b"
    using bend_gt [OF that] assms by (simp add: GetLastAddress_def e sub64_exact)
qed

section \<open>Splitting and merging blocks\<close>

lemma Split_pages:
  assumes "0 < k" "k < m_num_pages b" "bend b < 2 ^ 64" and x: "x = m_address b + k * PageSize"
  obtains l r where "Split x b = (l, r)" "m_address l = m_address b" "m_num_pages l = k" "bend l = x"
    "m_address r = x" "m_num_pages r = m_num_pages b - k" "bend r = bend b"
    "props l = props b" "props r = props b"
    "\<And>c. CanMergeWith c l = CanMergeWith c b" "\<And>c. CanMergeWith r c = CanMergeWith b c"
proof -
  have k: "k * PageSize < m_num_pages b * PageSize" using assms(2) by simp
  with assms(3) have lt: "m_address b + k * PageSize < 2 ^ 64" unfolding bend_def by linarith
  have n: "m_num_pages b < 2 ^ 64"
    using assms(3) by (simp add: bend_def PageSize_def)
  have s: "sub64 x (m_address b) div PageSize = k"
    using lt by (simp add: x sub64_exact)
  have d: "sub64 (m_num_pages b) k = m_num_pages b - k"
    using assms(2) n by (simp add: sub64_exact)
  have e: "x + (m_num_pages b - k) * PageSize = bend b"
    using assms(2) k by (simp add: x bend_def diff_mult_distrib)
  have m: "m_disable_merge_attribute b AND Merge_AllLeft AND Merge_AllLeft =
      m_disable_merge_attribute b AND Merge_AllLeft"
    "m_disable_merge_attribute b AND Merge_AllRight AND Merge_AllRight =
      m_disable_merge_attribute b AND Merge_AllRight"
    by (simp_all add: merge_defs)
  show thesis
    by (rule that [of "fst (Split x b)" "snd (Split x b)"])
       (auto simp: Split_def Let_def s d e props_def CanMergeWith_def HasSameProperties_def bend_def
         m [simplified and.assoc] and.assoc simp flip: x)
qed

lemma BlockAdd_merge:
  assumes "CanMergeWith p c" "m_address c = bend p" "bend c < 2 ^ 64"
  shows "m_address (BlockAdd p c) = m_address p" "m_num_pages (BlockAdd p c) = m_num_pages p + m_num_pages c"
    and "bend (BlockAdd p c) = bend c" "props (BlockAdd p c) = props p" "props c = props p"
    and "CanMergeWith (BlockAdd p c) d = CanMergeWith c d" "CanMergeWith d (BlockAdd p c) = CanMergeWith d p"
proof -
  have e: "m_address p + (m_num_pages p + m_num_pages c) * PageSize = bend c"
    using assms(2) by (simp add: bend_def distrib_right)
  then have "m_num_pages p + m_num_pages c < 2 ^ 64"
    using assms(3) by (simp add: PageSize_def)
  then have a: "add64 (m_num_pages p) (m_num_pages c) = m_num_pages p + m_num_pages c"
    by (rule add64_exact)
  show "m_address (BlockAdd p c) = m_address p" "m_num_pages (BlockAdd p c) = m_num_pages p + m_num_pages c"
    by (simp_all add: BlockAdd_def a)
  show "bend (BlockAdd p c) = bend c" using e by (simp add: BlockAdd_def a bend_def)
  show "props (BlockAdd p c) = props p" "props c = props p"
    using assms(1) by (simp_all add: BlockAdd_def props_def CanMergeWith_def HasSameProperties_def)
  show "CanMergeWith (BlockAdd p c) d = CanMergeWith c d" "CanMergeWith d (BlockAdd p c) = CanMergeWith d p"
    using assms(1)
    by (auto simp: BlockAdd_def CanMergeWith_def HasSameProperties_def bit.conj_disj_distrib2 Merge_None_def)
qed

section \<open>Consistent locks\<close>

text \<open>The assertions of the lock functions: a page is marked locked exactly while it is counted.\<close>

definition ipc_consistent :: "page_props \<Rightarrow> bool" where
  "ipc_consistent q \<longleftrightarrow>
     (if pp_ipc_lock_count q = 0
      then pp_original_permission q = Perm_None \<and> pp_attribute q AND Attr_IpcLocked = 0
      else pp_attribute q AND Attr_IpcLocked = Attr_IpcLocked)"

definition device_consistent :: "page_props \<Rightarrow> bool" where
  "device_consistent q \<longleftrightarrow>
     (if pp_device_use_count q = 0 then pp_attribute q AND Attr_DeviceShared = 0
      else pp_attribute q AND Attr_DeviceShared = Attr_DeviceShared)"

lemma or_flag_and:
  fixes x m :: u8
  shows "(x OR m) AND m = m" and "x AND m = 0 \<Longrightarrow> (x OR m) AND NOT m = x"
    and "x AND m = m \<Longrightarrow> x OR m = x"
proof -
  show "(x OR m) AND m = m" by (simp add: bit.conj_disj_distrib2 or.commute)
  show "(x OR m) AND NOT m = x" if "x AND m = 0"
  proof -
    have "x = (x AND m) OR (x AND NOT m)" by (simp flip: bit.conj_disj_distrib)
    with that show ?thesis by (simp add: bit.conj_disj_distrib2)
  qed
  show "x OR m = x" if "x AND m = m"
  proof -
    have "x OR m = x OR (x AND m)" by (simp only: that)
    then show ?thesis by simp
  qed
qed

lemma lock_ipc_consistent:
  assumes "ipc_consistent q" "pp_ipc_lock_count q \<noteq> - 1"
  shows "ipc_consistent (props_lock_ipc perm q)" "props_unlock_ipc (props_lock_ipc perm q) = q"
    and "pp_ipc_lock_count (props_lock_ipc perm q) = pp_ipc_lock_count q + 1"
proof -
  have c: "pp_ipc_lock_count q + 1 \<noteq> 0" using assms(2) by (metis add_diff_cancel diff_0)
  show "ipc_consistent (props_lock_ipc perm q)"
    using c by (simp add: ipc_consistent_def props_lock_ipc_def Let_def or_flag_and)
  show "pp_ipc_lock_count (props_lock_ipc perm q) = pp_ipc_lock_count q + 1"
    by (simp add: props_lock_ipc_def Let_def)
  show "props_unlock_ipc (props_lock_ipc perm q) = q"
    using assms(1) c
    by (auto simp: ipc_consistent_def props_lock_ipc_def props_unlock_ipc_def Let_def or_flag_and)
qed

lemma share_consistent:
  assumes "device_consistent q" "pp_device_use_count q \<noteq> - 1"
  shows "device_consistent (props_share q)" "props_unshare (props_share q) = q"
proof -
  have c: "pp_device_use_count q + 1 \<noteq> 0" using assms(2) by (metis add_diff_cancel diff_0)
  show "device_consistent (props_share q)"
    using c by (simp add: device_consistent_def props_share_def Let_def or_flag_and)
  show "props_unshare (props_share q) = q"
    using assms(1) c by (auto simp: device_consistent_def props_share_def props_unshare_def Let_def or_flag_and)
qed

lemma nested_ipc_locks:
  fixes perm :: u8
  assumes "ipc_consistent q" "unat (pp_ipc_lock_count q) + n < 2 ^ 16"
  defines "q' \<equiv> (props_lock_ipc perm ^^ n) q"
  shows "ipc_consistent q' \<and> unat (pp_ipc_lock_count q') = unat (pp_ipc_lock_count q) + n \<and>
    (props_unlock_ipc ^^ n) q' = q \<and>
    (0 < n \<and> pp_ipc_lock_count q = 0 \<longrightarrow> pp_original_permission q' = pp_permission q)"
  using assms(2) unfolding q'_def
proof (induction n)
  case 0
  then show ?case using assms(1) by simp
next
  case (Suc n)
  let ?l = "(props_lock_ipc perm ^^ n) q"
  from Suc have IH: "ipc_consistent ?l" "unat (pp_ipc_lock_count ?l) = unat (pp_ipc_lock_count q) + n"
    "(props_unlock_ipc ^^ n) ?l = q"
    "0 < n \<and> pp_ipc_lock_count q = 0 \<longrightarrow> pp_original_permission ?l = pp_permission q" by auto
  have c: "pp_ipc_lock_count ?l < - 1"
    using IH(2) Suc.prems by (simp add: word_less_nat_alt unsigned_minus_1_eq_mask mask_eq_exp_minus_1)
  note s = lock_ipc_consistent [OF IH(1), of perm]
  have "unat (pp_ipc_lock_count ?l + 1) = Suc (unat (pp_ipc_lock_count q) + n)"
    using unat_inc [OF c] IH(2) by simp
  moreover have "pp_original_permission (props_lock_ipc perm ?l) = pp_permission q" if "pp_ipc_lock_count q = 0"
  proof (cases "n = 0")
    case True
    with that show ?thesis by (simp add: props_lock_ipc_def Let_def)
  next
    case False
    then have "pp_ipc_lock_count ?l \<noteq> 0" using IH(2) by auto
    with False that IH(4) show ?thesis by (simp add: props_lock_ipc_def Let_def)
  qed
  moreover have "(props_unlock_ipc ^^ Suc n) (props_lock_ipc perm ?l) = q"
    using s(2) c IH(3) by (simp add: funpow_swap1)
  ultimately show ?case using s c by simp
qed

lemma props_funpow: "(\<And>c. props (h c) = g (props c)) \<Longrightarrow> props ((h ^^ n) b) = (g ^^ n) (props b)"
  by (induction n) auto

section \<open>Properties\<close>

text \<open>
  Splitting a block at a page boundary inside it gives two adjacent blocks that cover its range
  and may be merged, and merging them gives back the block with every field as it was, the
  merge-disabling flags and counters included.
\<close>

theorem Split_then_Add:
  assumes "0 < k" "k < m_num_pages b" "m_address b + m_num_pages b * PageSize < 2 ^ 64"
    and "m_disable_merge_attribute b AND NOT (Merge_AllLeft OR Merge_AllRight) = 0"
  shows "case Split (m_address b + k * PageSize) b of (l, r) \<Rightarrow>
    GetEndAddress l = m_address r \<and> GetEndAddress r = GetEndAddress b \<and> CanMergeWith l r \<and> BlockAdd l r = b"
proof -
  let ?x = "m_address b + k * PageSize" and ?d = "m_disable_merge_attribute b"
  have le: "bend b < 2 ^ 64" using assms(3) by (simp add: bend_def)
  have "k * PageSize < m_num_pages b * PageSize" using assms(2) by simp
  with assms(3) have x: "?x < 2 ^ 64" and n: "m_num_pages b < 2 ^ 64" by (auto simp: PageSize_def)
  obtain l r where lr: "Split ?x b = (l, r)" "m_address l = m_address b" "m_num_pages l = k" "bend l = ?x"
      "m_address r = ?x" "m_num_pages r = m_num_pages b - k" "bend r = bend b" "props l = props b" "props r = props b"
    using Split_pages [OF assms(1,2) le refl] by metis
  have "add64 k (m_num_pages b - k) = m_num_pages b" using assms(2) n by (simp add: add64_exact)
  moreover have d: "(?d AND Merge_AllLeft) OR (?d AND Merge_AllRight) = ?d"
  proof -
    have "?d = ?d AND ((Merge_AllLeft OR Merge_AllRight) OR NOT (Merge_AllLeft OR Merge_AllRight))"
      by (simp only: bit.disj_cancel_right bit.conj_one_right)
    also have "\<dots> = ?d AND (Merge_AllLeft OR Merge_AllRight)"
      unfolding bit.conj_disj_distrib [of ?d "Merge_AllLeft OR Merge_AllRight"] assms(4) by simp
    finally show ?thesis by (simp add: bit.conj_disj_distrib)
  qed
  moreover have "fst (Split ?x b) = l" "snd (Split ?x b) = r" using lr(1) by simp_all
  then have "m_device_disable_merge_left_count l = m_device_disable_merge_left_count b"
    "m_device_disable_merge_right_count r = m_device_disable_merge_right_count b"
    "m_ipc_disable_merge_count l = m_ipc_disable_merge_count b"
    "m_disable_merge_attribute l = ?d AND Merge_AllLeft" "m_disable_merge_attribute r = ?d AND Merge_AllRight"
    by (auto simp: Split_def Let_def)
  ultimately have "BlockAdd l r = b" "CanMergeWith l r"
    using lr(2,3,6,8,9)
    by (auto simp: BlockAdd_def props_def CanMergeWith_def HasSameProperties_def and.assoc merge_defs
        intro!: memory_block.equality)
  then show ?thesis
    using lr le x by (simp add: block_exact)
qed

definition block_example :: memory_block where
  "block_example = BlockInitialize 0x200000 16 KMemoryState_Normal Perm_UserReadWrite Attr_None memory_block_default"

theorem Split_then_Add_witness:
  "case Split 0x204000 block_example of (l, r) \<Rightarrow> GetEndAddress l = m_address r \<and> BlockAdd l r = block_example"
  using Split_then_Add [of 4 block_example]
  by (simp add: block_example_def BlockInitialize_def PageSize_def Merge_None_def split: prod.splits)

text \<open>
  IPC locks nest: as long as the 16-bit lock count does not overflow, a page that is locked any
  number of times and unlocked as often has its permission, attribute and counter back, and while it
  is locked it is marked so, counts its locks and keeps its first permission for the last unlock.
\<close>

theorem ipc_locks_nest:
  assumes "ipc_consistent (props b)" "unat (m_ipc_lock_count b) + n < 2 ^ 16"
  shows "props (((\<lambda>c. UnlockForIpc perm lu ru c) ^^ n) (((\<lambda>c. LockForIpc perm l r c) ^^ n) b)) = props b \<and>
    unat (m_ipc_lock_count (((\<lambda>c. LockForIpc perm l r c) ^^ n) b)) = unat (m_ipc_lock_count b) + n \<and>
    (0 < n \<longrightarrow> m_attribute (((\<lambda>c. LockForIpc perm l r c) ^^ n) b) AND Attr_IpcLocked = Attr_IpcLocked \<and>
      (m_ipc_lock_count b = 0 \<longrightarrow>
        m_original_permission (((\<lambda>c. LockForIpc perm l r c) ^^ n) b) = m_permission b))"
proof -
  let ?b = "((\<lambda>c. LockForIpc perm l r c) ^^ n) b"
  have l: "props ?b = (props_lock_ipc perm ^^ n) (props b)"
    by (rule props_funpow) (simp add: props_block_ops)
  have u: "props (((\<lambda>c. UnlockForIpc perm lu ru c) ^^ n) ?b) = (props_unlock_ipc ^^ n) (props ?b)"
    by (rule props_funpow) (simp add: props_block_ops)
  have N: "ipc_consistent (props ?b)" "unat (m_ipc_lock_count ?b) = unat (m_ipc_lock_count b) + n"
    "(props_unlock_ipc ^^ n) (props ?b) = props b"
    "0 < n \<and> m_ipc_lock_count b = 0 \<longrightarrow> m_original_permission ?b = m_permission b"
    using nested_ipc_locks [OF assms(1), of n perm, folded l] assms(2) by simp_all
  have "m_attribute ?b AND Attr_IpcLocked = Attr_IpcLocked" if "0 < n"
  proof -
    have "m_ipc_lock_count ?b \<noteq> 0" using that N(2) by (auto dest: arg_cong [where f = unat])
    with N(1) show ?thesis by (simp add: ipc_consistent_def)
  qed
  with N u show ?thesis by simp
qed

theorem ipc_locks_nest_witness:
  "props ((UnlockForIpc Perm_UserRead True True ^^ 3) ((LockForIpc Perm_UserRead True True ^^ 3) block_example)) =
   props block_example"
  using ipc_locks_nest [of block_example 3 Perm_UserRead True True True True]
  by (simp add: ipc_consistent_def block_example_def BlockInitialize_def memory_block_default_def attr_defs)

end
