(* ===== verification/KMemoryBlockManager.thy ===== *)
theory KMemoryBlockManager
  imports KMemoryBlock
begin

text \<open>
  \<^verbatim>\<open>src/core/hle/kernel/k_memory_block_manager.h\<close> and \<open>.cpp\<close>: the partition of an address
  space into memory blocks.  The intrusive red-black tree is the list of its nodes in address order
  and an iterator is a position in that list, held as the blocks before it and the blocks from it on;
  the end iterator has no block from it on.  Dereferencing or advancing the end iterator and
  decrementing the first position are undefined (\<open>None\<close>): \<open>RB_NEXT\<close> and \<open>RB_PREV\<close>
  would dereference a null node.
\<close>

section \<open>Model\<close>

subsection \<open>The allocator of an update\<close>

text \<open>
  The slab manager is the number of blocks it can still hand out; a block pointer of the allocator is
  whether it is not null.
\<close>

record update_allocator =
  m_blocks :: "bool list"
  m_index :: nat
  slab_free :: nat

definition MaxBlocks :: nat where
  "MaxBlocks = 2"

primrec UpdateAllocator_loop ::
  "nat list \<Rightarrow> update_allocator \<Rightarrow> (kresult \<times> update_allocator) option" where
  "UpdateAllocator_loop [] al = Some (ResultSuccess, al)"
| "UpdateAllocator_loop (i # is) al =
     (if slab_free al = 0
      then do {
        bs \<leftarrow> arr_set (m_blocks al) (m_index al + i) False;
        Some (ResultOutOfResource, al\<lparr>m_blocks := bs\<rparr>)
      }
      else do {
        bs \<leftarrow> arr_set (m_blocks al) (m_index al + i) True;
        UpdateAllocator_loop is (al\<lparr>m_blocks := bs, slab_free := slab_free al - 1\<rparr>)
      })"

definition UpdateAllocator_Initialize :: "nat \<Rightarrow> nat \<Rightarrow> (kresult \<times> update_allocator) option" where
  "UpdateAllocator_Initialize num_blocks slab =
     UpdateAllocator_loop [0..<min num_blocks MaxBlocks]
       \<lparr>m_blocks = replicate MaxBlocks False, m_index = sub64 MaxBlocks num_blocks, slab_free = slab\<rparr>"

definition UpdateAllocator_destruct :: "update_allocator \<Rightarrow> nat" where
  "UpdateAllocator_destruct al = slab_free al + length (filter id (m_blocks al))"

text \<open>Writing through the null pointer of an exhausted allocator is undefined.\<close>

definition Allocate :: "update_allocator \<Rightarrow> update_allocator option" where
  "Allocate al = do {
     b \<leftarrow> arr_get (m_blocks al) (m_index al);
     bs \<leftarrow> arr_set (m_blocks al) (m_index al) False;
     if b then Some (al\<lparr>m_blocks := bs, m_index := m_index al + 1\<rparr>) else None
   }"

definition Free :: "update_allocator \<Rightarrow> update_allocator option" where
  "Free al =
     (if m_index al = 0 then Some (al\<lparr>slab_free := slab_free al + 1\<rparr>)
      else do {
        bs \<leftarrow> arr_set (m_blocks al) (m_index al - 1) True;
        Some (al\<lparr>m_blocks := bs, m_index := m_index al - 1\<rparr>)
      })"

subsection \<open>The manager\<close>

record memory_block_manager =
  m_memory_block_tree :: "memory_block list"
  m_start_address :: nat
  m_end_address :: nat

definition memory_block_manager_default :: memory_block_manager where
  "memory_block_manager_default =
     \<lparr>m_memory_block_tree = [], m_start_address = 0, m_end_address = 0\<rparr>"

text \<open>
  \<open>insert\<close> of the tree: the position is found with \<open>Compare\<close>, and a block that compares
  equal to one of the tree is not inserted.
\<close>

fun tree_insert :: "memory_block \<Rightarrow> memory_block list \<Rightarrow> memory_block list" where
  "tree_insert b [] = [b]"
| "tree_insert b (c # cs) =
     (if Compare b c < 0 then b # c # cs
      else if Compare b c = 0 then c # cs
      else c # tree_insert b cs)"

text \<open>\<open>find\<close> of the tree: the blocks before the one that compares equal, and those from it on.\<close>

definition FindIterator :: "nat \<Rightarrow> memory_block list \<Rightarrow> memory_block list \<times> memory_block list" where
  "FindIterator address bs =
     (let key = BlockInitialize address 1 KMemoryState_Free Perm_None Attr_None memory_block_default;
          pre = takeWhile (\<lambda>b. Compare key b > 0) bs;
          suf = dropWhile (\<lambda>b. Compare key b > 0) bs
      in case suf of
           [] \<Rightarrow> (bs, [])
         | b # _ \<Rightarrow> if Compare key b = 0 then (pre, suf) else (bs, []))"

definition FindBlock :: "nat \<Rightarrow> memory_block_manager \<Rightarrow> memory_block option" where
  "FindBlock address m =
     (case snd (FindIterator address (m_memory_block_tree m)) of [] \<Rightarrow> None | b # _ \<Rightarrow> Some b)"

text \<open>
  \<open>Initialize\<close>: the slab manager returns a default-constructed block, or none.
\<close>

definition ManagerInitialize ::
  "nat \<Rightarrow> nat \<Rightarrow> nat \<Rightarrow> memory_block_manager \<Rightarrow> kresult \<times> nat \<times> memory_block_manager" where
  "ManagerInitialize st nd slab m =
     (if slab = 0 then (ResultOutOfResource, slab, m)
      else let start_block = BlockInitialize st (sub64 nd st div PageSize) KMemoryState_Free Perm_None
                 Attr_None memory_block_default
           in (ResultSuccess, slab - 1,
               m\<lparr>m_start_address := st, m_end_address := nd,
                 m_memory_block_tree := tree_insert start_block (m_memory_block_tree m)\<rparr>))"

text \<open>\<open>Finalize\<close>: the arguments of the callbacks, in order, and the slab manager.\<close>

primrec ManagerFinalize_loop :: "memory_block list \<Rightarrow> nat \<Rightarrow> (nat \<times> nat) list \<times> nat" where
  "ManagerFinalize_loop [] slab = ([], slab)"
| "ManagerFinalize_loop (b # bs) slab =
     (let (calls, slab') = ManagerFinalize_loop bs (slab + 1) in ((m_address b, GetSize b) # calls, slab'))"

definition ManagerFinalize ::
  "nat \<Rightarrow> memory_block_manager \<Rightarrow> (nat \<times> nat) list \<times> nat \<times> memory_block_manager" where
  "ManagerFinalize slab m =
     (let (calls, slab') = ManagerFinalize_loop (m_memory_block_tree m) slab
      in (calls, slab', m\<lparr>m_memory_block_tree := []\<rparr>))"

text \<open>\<open>None\<close> of the loop: the loop goes on; \<open>FindFreeArea\<close> returns 0 for no area.\<close>

definition FindFreeArea_block ::
  "nat \<Rightarrow> nat \<Rightarrow> nat \<Rightarrow> nat \<Rightarrow> nat \<Rightarrow> nat \<Rightarrow> memory_block \<Rightarrow> nat option" where
  "FindFreeArea_block region_start region_last num_pages alignment offset guard_pages info =
     (if m_memory_state info \<noteq> KMemoryState_Free then None
      else let area0 = add64 (if m_address info \<le> region_start then region_start else m_address info)
                 (mul64 guard_pages PageSize);
               offset_area = add64 (AlignDown area0 alignment) offset;
               area = (if area0 \<le> offset_area then offset_area else add64 offset_area alignment);
               area_end = add64 (add64 area (mul64 num_pages PageSize)) (mul64 guard_pages PageSize);
               area_last = sub64 area_end 1
           in if m_address info \<le> area \<and> area < area_last \<and> area_last \<le> region_last \<and>
                area_last \<le> GetLastAddress info
              then Some area else None)"

fun FindFreeArea_loop ::
  "nat \<Rightarrow> nat \<Rightarrow> nat \<Rightarrow> nat \<Rightarrow> nat \<Rightarrow> nat \<Rightarrow> memory_block list \<Rightarrow> nat" where
  "FindFreeArea_loop region_start region_last num_pages alignment offset guard_pages [] = 0"
| "FindFreeArea_loop region_start region_last num_pages alignment offset guard_pages (info # bs) =
     (if region_last < m_address info then 0
      else case FindFreeArea_block region_start region_last num_pages alignment offset guard_pages info of
             Some area \<Rightarrow> area
           | None \<Rightarrow> FindFreeArea_loop region_start region_last num_pages alignment offset guard_pages bs)"

definition FindFreeArea ::
  "nat \<Rightarrow> nat \<Rightarrow> nat \<Rightarrow> nat \<Rightarrow> nat \<Rightarrow> nat \<Rightarrow> memory_block_manager \<Rightarrow> nat" where
  "FindFreeArea region_start region_num_pages num_pages alignment offset guard_pages m =
     (if num_pages > 0
      then let region_end = add64 region_start (mul64 region_num_pages PageSize);
               region_last = sub64 region_end 1
           in FindFreeArea_loop region_start region_last num_pages alignment offset guard_pages
                (snd (FindIterator region_start (m_memory_block_tree m)))
      else 0)"

subsection \<open>Coalescing\<close>

text \<open>
  The loop of \<open>CoalesceForUpdate\<close>: \<open>prev\<close> is the block at the iterator and the list is
  what follows it.
\<close>

fun Coalesce_loop ::
  "nat \<Rightarrow> memory_block \<Rightarrow> memory_block list \<Rightarrow> update_allocator
     \<Rightarrow> (memory_block list \<times> update_allocator) option" where
  "Coalesce_loop end_address prev [] al = Some ([prev], al)"
| "Coalesce_loop end_address prev (it # bs) al =
     (if CanMergeWith prev it
      then let prev' = BlockAdd prev it in do {
        al' \<leftarrow> Free al;
        if end_address < GetEndAddress prev' then Some (prev' # bs, al')
        else Coalesce_loop end_address prev' bs al'
      }
      else if end_address < GetEndAddress it then Some (prev # it # bs, al)
      else do {
        (bs', al') \<leftarrow> Coalesce_loop end_address it bs al;
        Some (prev # bs', al')
      })"

definition CoalesceForUpdate ::
  "nat \<Rightarrow> nat \<Rightarrow> update_allocator \<times> memory_block_manager
     \<Rightarrow> (update_allocator \<times> memory_block_manager) option" where
  "CoalesceForUpdate address num_pages = (\<lambda>(al, m).
     let end_address = add64 address (mul64 num_pages PageSize);
         (pre, suf) = FindIterator address (m_memory_block_tree m)
     in case suf of
          [] \<Rightarrow> None
        | it # bs \<Rightarrow>
            if address \<noteq> m_start_address m
            then (if pre = [] then None
                  else do {
                    (bs', al') \<leftarrow> Coalesce_loop end_address (last pre) (it # bs) al;
                    Some (al', m\<lparr>m_memory_block_tree := butlast pre @ bs'\<rparr>)
                  })
            else do {
              (bs', al') \<leftarrow> Coalesce_loop end_address it bs al;
              Some (al', m\<lparr>m_memory_block_tree := pre @ bs'\<rparr>)
            })"

subsection \<open>Updating a range\<close>

text \<open>
  The loop that \<open>Update\<close>, \<open>UpdateIfMatch\<close>, \<open>UpdateLock\<close> and
  \<open>UpdateAttribute\<close> share, from the iterator on: a block that does not need the change
  (\<open>needs\<close>) is passed over, any other is split at \<open>cur_address\<close> and at the end of the range,
  and what remains is changed by \<open>upd\<close>.  Each split inserts the new left block just before the
  iterator.
\<close>

partial_function (option) update_loop ::
  "(memory_block \<Rightarrow> bool) \<Rightarrow> (memory_block \<Rightarrow> memory_block) \<Rightarrow> nat \<Rightarrow> nat
     \<Rightarrow> memory_block list \<Rightarrow> update_allocator \<Rightarrow> (memory_block list \<times> update_allocator) option" where
  "update_loop needs upd cur_address remaining_pages bs al =
     (if remaining_pages = 0 then Some (bs, al)
      else case bs of
        [] \<Rightarrow> None
      | it # bs' \<Rightarrow>
          let remaining_size = mul64 remaining_pages PageSize in
          if \<not> needs it
          then (if add64 cur_address remaining_size < GetEndAddress it
                then update_loop needs upd (add64 cur_address remaining_size) 0 bs' al \<bind>
                  (\<lambda>(r, al'). Some (it # r, al'))
                else update_loop needs upd (GetEndAddress it)
                  (sub64 (add64 cur_address remaining_size) (GetEndAddress it) div PageSize) bs' al \<bind>
                  (\<lambda>(r, al'). Some (it # r, al')))
          else
            (if m_address it \<noteq> cur_address
             then Allocate al \<bind> (\<lambda>al1. Some ([fst (Split cur_address it)], snd (Split cur_address it), al1))
             else Some ([], it, al)) \<bind>
            (\<lambda>(pre, it1, al1).
              let cur1 = m_address it1 in
              (if GetSize it1 > remaining_size
               then Allocate al1 \<bind> (\<lambda>al2. Some (fst (Split (add64 cur1 remaining_size) it1),
                      [snd (Split (add64 cur1 remaining_size) it1)], al2))
               else Some (it1, [], al1)) \<bind>
              (\<lambda>(it2, post, al2).
                update_loop needs upd (add64 cur1 (GetSize it2)) (sub64 remaining_pages (m_num_pages it2))
                  (post @ bs') al2 \<bind>
                (\<lambda>(r, al'). Some (pre @ upd it2 # r, al')))))"

definition update_range ::
  "(memory_block \<Rightarrow> bool) \<Rightarrow> (memory_block \<Rightarrow> memory_block) \<Rightarrow> nat \<Rightarrow> nat
     \<Rightarrow> update_allocator \<times> memory_block_manager \<Rightarrow> (update_allocator \<times> memory_block_manager) option" where
  "update_range needs upd address num_pages = (\<lambda>(al, m).
     let (pre, suf) = FindIterator address (m_memory_block_tree m)
     in do {
          (suf', al') \<leftarrow> update_loop needs upd address num_pages suf al;
          CoalesceForUpdate address num_pages (al', m\<lparr>m_memory_block_tree := pre @ suf'\<rparr>)
        })"

definition Update ::
  "nat \<Rightarrow> nat \<Rightarrow> u32 \<Rightarrow> u8 \<Rightarrow> u8 \<Rightarrow> u8 \<Rightarrow> u8
     \<Rightarrow> update_allocator \<times> memory_block_manager \<Rightarrow> (update_allocator \<times> memory_block_manager) option" where
  "Update address num_pages state perm attr set_disable_attr clear_disable_attr =
     update_range (\<lambda>it. \<not> HasProperties state perm attr it)
       (\<lambda>it. BlockUpdate state perm attr (m_address it = address) set_disable_attr clear_disable_attr it)
       address num_pages"

definition UpdateIfMatch ::
  "nat \<Rightarrow> nat \<Rightarrow> u32 \<Rightarrow> u8 \<Rightarrow> u8 \<Rightarrow> u32 \<Rightarrow> u8 \<Rightarrow> u8 \<Rightarrow> u8 \<Rightarrow> u8
     \<Rightarrow> update_allocator \<times> memory_block_manager \<Rightarrow> (update_allocator \<times> memory_block_manager) option" where
  "UpdateIfMatch address num_pages test_state test_perm test_attr state perm attr
       set_disable_attr clear_disable_attr =
     update_range (\<lambda>it. HasProperties test_state test_perm test_attr it \<and>
                        \<not> HasProperties state perm attr it)
       (\<lambda>it. BlockUpdate state perm attr False set_disable_attr clear_disable_attr it)
       address num_pages"

definition UpdateLock ::
  "nat \<Rightarrow> nat \<Rightarrow> (u8 \<Rightarrow> bool \<Rightarrow> bool \<Rightarrow> memory_block \<Rightarrow> memory_block) \<Rightarrow> u8
     \<Rightarrow> update_allocator \<times> memory_block_manager \<Rightarrow> (update_allocator \<times> memory_block_manager) option" where
  "UpdateLock address num_pages lock_func perm =
     (let end_address = add64 address (mul64 num_pages PageSize) in
      update_range (\<lambda>_. True)
        (\<lambda>it. lock_func perm (m_address it = address) (GetEndAddress it = end_address) it)
        address num_pages)"

definition UpdateAttribute ::
  "nat \<Rightarrow> nat \<Rightarrow> u8 \<Rightarrow> u8
     \<Rightarrow> update_allocator \<times> memory_block_manager \<Rightarrow> (update_allocator \<times> memory_block_manager) option" where
  "UpdateAttribute address num_pages msk attr =
     update_range (\<lambda>it. m_attribute it AND msk \<noteq> attr) (BlockUpdateAttribute msk attr) address num_pages"

subsection \<open>The audit\<close>

definition CheckState_block :: "memory_block \<Rightarrow> bool" where
  "CheckState_block b \<longleftrightarrow>
     \<not> (m_attribute b AND Attr_IpcLocked \<noteq> Attr_None \<and> m_ipc_lock_count b = 0) \<and>
     \<not> (m_attribute b AND Attr_DeviceShared \<noteq> Attr_None \<and> m_device_use_count b = 0)"

fun CheckState_loop :: "memory_block \<Rightarrow> memory_block list \<Rightarrow> bool" where
  "CheckState_loop prev [] = CheckState_block prev"
| "CheckState_loop prev (it # bs) =
     (if CanMergeWith prev it then False
      else if GetEndAddress prev \<noteq> m_address it then False
      else if \<not> CheckState_block it then False
      else CheckState_loop it bs)"

definition CheckState :: "memory_block_manager \<Rightarrow> bool option" where
  "CheckState m =
     (case m_memory_block_tree m of [] \<Rightarrow> None | b # bs \<Rightarrow> Some (CheckState_loop b bs))"


section \<open>The allocator holds the blocks from its index on\<close>

definition allocator :: "nat \<Rightarrow> nat \<Rightarrow> update_allocator" where
  "allocator i slab = \<lparr>m_blocks = replicate i False @ replicate (MaxBlocks - i) True, m_index = i, slab_free = slab\<rparr>"

definition stock :: "update_allocator \<Rightarrow> nat" where
  "stock al = MaxBlocks - m_index al + slab_free al"

lemma le_MaxBlocksE:
  assumes "i \<le> MaxBlocks"
  obtains "i = 0" | "i = 1" | "i = 2"
  using assms by (auto simp: MaxBlocks_def numeral_2_eq_2 le_Suc_eq)

lemma Allocate_allocator [simp]:
  assumes "i < MaxBlocks"
  shows "Allocate (allocator i slab) = Some (allocator (Suc i) slab)"
  using less_imp_le [OF assms]
proof (cases rule: le_MaxBlocksE)
  case 3
  with assms show ?thesis by (simp add: MaxBlocks_def)
qed (simp_all add: Allocate_def allocator_def MaxBlocks_def numeral_2_eq_2)

lemma Free_allocator [simp]:
  assumes "i \<le> MaxBlocks"
  shows "Free (allocator i slab) =
     Some (if i = 0 then allocator 0 (slab + 1) else allocator (i - 1) slab)"
  using assms
  by (cases rule: le_MaxBlocksE) (simp_all add: Free_def allocator_def MaxBlocks_def numeral_2_eq_2)

lemma stock_allocator [simp]: "stock (allocator i slab) = MaxBlocks - i + slab"
  by (simp add: stock_def allocator_def)

lemma Free_stock:
  assumes "i \<le> MaxBlocks"
  obtains j slab' where "Free (allocator i slab) = Some (allocator j slab')" "j \<le> MaxBlocks"
    "stock (allocator j slab') = stock (allocator i slab) + 1"
proof (cases "i = 0")
  case True
  with assms that [of 0 "slab + 1"] show thesis by simp
next
  case False
  with assms that [of "i - 1" slab] show thesis by simp
qed

lemma UpdateAllocator_Initialize_ok:
  assumes "n \<le> MaxBlocks" "n \<le> slab"
  shows "UpdateAllocator_Initialize n slab = Some (ResultSuccess, allocator (MaxBlocks - n) (slab - n))"
proof -
  have "sub64 (Suc (Suc 0)) 0 = Suc (Suc 0)" "sub64 (Suc (Suc 0)) (Suc 0) = Suc 0"
    "sub64 (Suc (Suc 0)) (Suc (Suc 0)) = 0" by (simp_all add: sub64_exact)
  then show ?thesis
    using assms by (elim le_MaxBlocksE)
      (simp_all add: UpdateAllocator_Initialize_def allocator_def MaxBlocks_def upt_rec numeral_2_eq_2)
qed

lemma UpdateAllocator_destruct_stock:
  assumes "i \<le> MaxBlocks"
  shows "UpdateAllocator_destruct (allocator i slab) = stock (allocator i slab)"
  using assms
  by (cases rule: le_MaxBlocksE)
     (simp_all add: UpdateAllocator_destruct_def allocator_def stock_def MaxBlocks_def)

section \<open>Chains of blocks\<close>

fun chain :: "nat \<Rightarrow> memory_block list \<Rightarrow> nat \<Rightarrow> bool" where
  "chain a [] e \<longleftrightarrow> a = e"
| "chain a (b # bs) e \<longleftrightarrow> m_address b = a \<and> 0 < m_num_pages b \<and> chain (bend b) bs e"

lemma chain_le: "chain a bs e \<Longrightarrow> a \<le> e"
proof (induction bs arbitrary: a)
  case (Cons b bs)
  then have "bend b \<le> e" "m_address b = a" "0 < m_num_pages b" by auto
  with bend_gt [of b] show ?case by linarith
qed simp

lemma chain_same: "chain a bs a \<longleftrightarrow> bs = []"
proof (cases bs)
  case (Cons b cs)
  then show ?thesis using chain_le [of "bend b" cs a] bend_gt [of b] by (auto simp del: bend_gt)
qed simp

lemma chain_append: "chain a (xs @ ys) e \<longleftrightarrow> (\<exists>m. chain a xs m \<and> chain m ys e)"
  by (induction xs arbitrary: a) auto

lemma chain_in:
  assumes "chain a bs e" "b \<in> set bs"
  shows "a \<le> m_address b" "bend b \<le> e" "0 < m_num_pages b"
proof -
  from assms(2) obtain xs ys where "bs = xs @ b # ys" by (meson split_list)
  with assms(1) obtain m where "chain a xs m" "m_address b = m" "0 < m_num_pages b" "chain (bend b) ys e"
    by (auto simp: chain_append)
  then show "a \<le> m_address b" "bend b \<le> e" "0 < m_num_pages b" using chain_le by auto
qed

section \<open>The view of the pages\<close>

definition page_view :: "memory_block list \<Rightarrow> nat \<Rightarrow> page_props option" where
  "page_view bs x = map_option props (find (\<lambda>b. m_address b \<le> x \<and> x < bend b) bs)"

lemma page_view_Nil [simp]: "page_view [] x = None"
  by (simp add: page_view_def)

lemma page_view_Cons [simp]:
  "page_view (b # bs) x = (if m_address b \<le> x \<and> x < bend b then Some (props b) else page_view bs x)"
  by (simp add: page_view_def)

lemma page_view_outside:
  assumes "chain a bs e" "\<not> (a \<le> x \<and> x < e)"
  shows "page_view bs x = None"
proof -
  have "\<not> (m_address b \<le> x \<and> x < bend b)" if "b \<in> set bs" for b
    using chain_in(1,2) [OF assms(1) that] assms(2) by linarith
  then show ?thesis by (auto simp: page_view_def find_None_iff)
qed

lemma page_view_append:
  "page_view (xs @ ys) x = (case page_view xs x of None \<Rightarrow> page_view ys x | Some p \<Rightarrow> Some p)"
  by (induction xs) auto

lemma page_view_defined: "chain a bs e \<Longrightarrow> a \<le> x \<Longrightarrow> x < e \<Longrightarrow> \<exists>p. page_view bs x = Some p"
proof (induction bs arbitrary: a)
  case (Cons b bs)
  then show ?case using Cons.IH [of "bend b"] by (cases "x < bend b") auto
qed simp

section \<open>The loop over a range\<close>

definition coalesced :: "memory_block list \<Rightarrow> bool" where
  "coalesced = successively (\<lambda>p c. \<not> CanMergeWith p c)"

definition coalesced_after :: "nat \<Rightarrow> memory_block list \<Rightarrow> bool" where
  "coalesced_after e bs = coalesced (dropWhile (\<lambda>b. bend b \<le> e) bs)"

lemma coalesced_simps [simp]:
  "coalesced []" "coalesced [b]"
  "coalesced (b # c # bs) \<longleftrightarrow> \<not> CanMergeWith b c \<and> coalesced (c # bs)"
  by (simp_all add: coalesced_def)

lemma coalesced_tl: "coalesced (b # bs) \<Longrightarrow> coalesced bs"
  by (cases bs) auto

lemma coalesced_append:
  "coalesced (xs @ b # ys) \<longleftrightarrow> coalesced (xs @ [b]) \<and> coalesced (b # ys)"
  by (induction xs rule: induct_list012) (auto simp: coalesced_tl)

lemma coalesced_replace_hd:
  "(\<And>c. CanMergeWith b' c = CanMergeWith b c) \<Longrightarrow> coalesced (b' # bs) = coalesced (b # bs)"
  by (cases bs) auto

lemma coalesced_replace_last:
  "(\<And>c. CanMergeWith c b' = CanMergeWith c b) \<Longrightarrow> coalesced (xs @ [b']) = coalesced (xs @ [b])"
  by (induction xs rule: induct_list012) auto

text \<open>
  What an update of the pages of \<open>[lo, hi)\<close> with \<open>f\<close> leaves of the blocks from
  \<open>a\<close> to \<open>e\<close>.
\<close>

definition range_result ::
  "(page_props \<Rightarrow> page_props) \<Rightarrow> nat \<Rightarrow> nat \<Rightarrow> nat \<Rightarrow> nat \<Rightarrow> memory_block list \<Rightarrow> memory_block list \<Rightarrow> bool" where
  "range_result f a e lo hi bs bs' \<longleftrightarrow> chain a bs' e \<and>
     (\<forall>x. page_view bs' x =
        (if lo \<le> x \<and> x < hi then map_option f (page_view bs x) else page_view bs x)) \<and>
     (coalesced bs \<longrightarrow> coalesced_after hi bs')"

lemma range_result_empty:
  assumes "chain a bs e"
  shows "range_result f a e a a bs bs"
proof -
  have "a < bend b" if "b \<in> set bs" for b
    using chain_in(1,3) [OF assms that] bend_gt [of b] by linarith
  then have "dropWhile (\<lambda>b. bend b \<le> a) bs = bs"
    by (cases bs) (auto simp: not_le)
  with assms show ?thesis by (auto simp: range_result_def coalesced_after_def)
qed

lemma range_result_Cons:
  assumes "range_result f (bend b) e (bend b) hi bs r" "bend b \<le> hi" "chain a (b # bs) e"
    and b': "m_address b' = m_address b" "m_num_pages b' = m_num_pages b"
    and "lo \<le> m_address b \<and> props b' = f (props b) \<or> props b' = props b \<and> f (props b) = props b"
    and lo: "lo < bend b"
  shows "range_result f a e lo hi (b # bs) (b' # r)"
proof -
  have e: "bend b' = bend b" using b' by (simp add: bend_def)
  have "page_view bs x = None" if "x < bend b" for x
    using assms(3) that page_view_outside [of "bend b" bs e x] by simp
  with assms e show ?thesis
    by (auto simp: range_result_def coalesced_after_def intro: coalesced_tl)
qed

lemma update_loop_0 [simp]: "update_loop needs upd c 0 bs al = Some (bs, al)"
  by (subst update_loop.simps) simp

lemma update_loop_skip:
  assumes "\<not> needs b" "0 < n" "bend b < 2 ^ 64" "c + n * PageSize < 2 ^ 64"
  shows "c + n * PageSize < bend b \<Longrightarrow> update_loop needs upd c n (b # bs) al = Some (b # bs, al)"
    and "bend b \<le> c + n * PageSize \<Longrightarrow> update_loop needs upd c n (b # bs) al =
      update_loop needs upd (bend b) ((c + n * PageSize - bend b) div PageSize) bs al \<bind>
        (\<lambda>(r, al'). Some (b # r, al'))"
proof -
  have m: "mul64 n PageSize = n * PageSize" "add64 c (n * PageSize) = c + n * PageSize"
    using assms(4) by (simp_all add: mul64_exact add64_exact)
  note e = block_exact(2) [OF assms(3)]
  show "update_loop needs upd c n (b # bs) al = Some (b # bs, al)" if "c + n * PageSize < bend b"
    using assms(1,2) that by (subst update_loop.simps) (simp add: m e)
  show "update_loop needs upd c n (b # bs) al =
      update_loop needs upd (bend b) ((c + n * PageSize - bend b) div PageSize) bs al \<bind>
        (\<lambda>(r, al'). Some (b # r, al'))" if "bend b \<le> c + n * PageSize"
  proof -
    have "sub64 (c + n * PageSize) (bend b) = c + n * PageSize - bend b"
      using that assms(4) by (rule sub64_exact)
    with assms(1,2) that show ?thesis by (subst update_loop.simps) (simp add: m e)
  qed
qed

lemma update_loop_whole:
  assumes "needs b" "0 < n" "bend b < 2 ^ 64" "n * PageSize < 2 ^ 64" "m_num_pages b \<le> n"
  shows "update_loop needs upd (m_address b) n (b # bs) al =
    update_loop needs upd (bend b) (n - m_num_pages b) bs al \<bind> (\<lambda>(r, al'). Some (upd b # r, al'))"
proof -
  have "n < 2 ^ 64" using assms(4) by (simp add: PageSize_def)
  then have m: "mul64 n PageSize = n * PageSize" "sub64 n (m_num_pages b) = n - m_num_pages b"
    using assms(4,5) by (simp_all add: mul64_exact sub64_exact)
  have e: "add64 (m_address b) (m_num_pages b * PageSize) = bend b"
    using assms(3) by (simp add: bend_def add64_exact)
  have "\<not> m_num_pages b * PageSize > n * PageSize" using assms(5) by simp
  with assms(1,2) show ?thesis
    by (subst update_loop.simps) (simp add: m e block_exact(1) [OF assms(3)])
qed

lemma update_loop_cut:
  assumes "needs b" "0 < n" "bend b < 2 ^ 64" "n < m_num_pages b" "Allocate al = Some al'"
    and "Split (m_address b + n * PageSize) b = (l, r)" "m_num_pages l = n"
  shows "update_loop needs upd (m_address b) n (b # bs) al = Some (upd l # r # bs, al')"
proof -
  have "n * PageSize < m_num_pages b * PageSize" using assms(4) by simp
  with assms(3) have "n * PageSize < 2 ^ 64" "m_address b + n * PageSize < 2 ^ 64"
    unfolding bend_def by linarith+
  then have m: "mul64 n PageSize = n * PageSize" "add64 (m_address b) (n * PageSize) = m_address b + n * PageSize"
    by (simp_all add: mul64_exact add64_exact)
  have "sub64 n n = 0" by (simp add: sub64_def)
  moreover have "n * PageSize < m_num_pages b * PageSize" using assms(4) by simp
  ultimately show ?thesis
    using assms by (subst update_loop.simps) (simp add: m block_exact(1) [OF assms(3)])
qed

lemma update_loop_split_before:
  assumes "needs b" "0 < n" "m_address b \<noteq> c" "Allocate al = Some al'"
    and "Split c b = (l, r)" "m_address r = c" "needs r"
  shows "update_loop needs upd c n (b # bs) al =
    update_loop needs upd c n (r # bs) al' \<bind> (\<lambda>(q, al2). Some (l # q, al2))"
  using assms
  by (subst (1 2) update_loop.simps) (auto simp: Let_def bind_eq_Some_conv split: Option.bind_split)


section \<open>Coalescing\<close>

lemma coalesced_after_Cons2:
  assumes "bend p \<le> bend it"
  shows "coalesced_after e (p # it # bs) \<Longrightarrow> coalesced_after e (it # bs)"
    and "coalesced_after e (p # it # bs) \<Longrightarrow> e < bend it \<Longrightarrow> coalesced (it # bs)"
  using assms by (auto simp: coalesced_after_def split: if_splits)

lemma coalesced_after_BlockAdd:
  assumes m: "CanMergeWith p it" "m_address it = bend p" "bend it < 2 ^ 64"
    and "coalesced_after e (p # it # bs)" "bend p \<le> bend it"
  shows "coalesced_after e (BlockAdd p it # bs)"
proof -
  have "coalesced (BlockAdd p it # bs) = coalesced (it # bs)"
    by (rule coalesced_replace_hd) (rule BlockAdd_merge(6) [OF m])
  with coalesced_after_Cons2 [OF assms(5,4)] BlockAdd_merge(3) [OF m] show ?thesis
    by (auto simp: coalesced_after_def split: if_splits)
qed

lemma page_view_BlockAdd:
  assumes m: "CanMergeWith p it" "m_address it = bend p" "bend it < 2 ^ 64" "0 < m_num_pages p" "0 < m_num_pages it"
  shows "page_view (BlockAdd p it # bs) x = page_view (p # it # bs) x"
  using BlockAdd_merge [OF m(1-3)] m(2) bend_gt [OF m(4)] bend_gt [OF m(5)] by auto

lemma Coalesce_loop_result:
  assumes "chain a (p # bs) e" "e < 2 ^ 64" "i \<le> MaxBlocks"
  shows "\<exists>bs' i' slab'. Coalesce_loop z p bs (allocator i slab) = Some (bs', allocator i' slab') \<and> i' \<le> MaxBlocks \<and>
    chain a bs' e \<and> page_view bs' = page_view (p # bs) \<and>
    length bs' + stock (allocator i' slab') = length (p # bs) + stock (allocator i slab) \<and>
    bs' \<noteq> [] \<and> (\<forall>x. CanMergeWith x (hd bs') = CanMergeWith x p) \<and>
    (coalesced_after z (p # bs) \<longrightarrow> coalesced bs')"
  using assms
proof (induction bs arbitrary: p a i slab)
  case Nil
  then show ?case by (intro exI [of _ "[p]"] exI [of _ i] exI [of _ slab]) simp
next
  case (Cons it bs)
  from Cons.prems have ch: "m_address p = a" "0 < m_num_pages p" "m_address it = bend p" "0 < m_num_pages it"
    "chain (bend it) bs e" and le: "bend it < 2 ^ 64" "bend p \<le> bend it"
    using chain_le [of "bend it" bs e] bend_gt [of it] by auto
  have en: "GetEndAddress it = bend it" using le by (simp add: block_exact)
  show ?case
  proof (cases "CanMergeWith p it")
    case True
    note add = BlockAdd_merge [OF True ch(3) le(1)]
    have en': "GetEndAddress (BlockAdd p it) = bend it" using add(3) le by (simp add: block_exact)
    have ch': "chain a (BlockAdd p it # bs) e" using add ch by simp
    have pv: "page_view (BlockAdd p it # bs) = page_view (p # it # bs)"
      using page_view_BlockAdd [OF True ch(3) le(1) ch(2,4)] by blast
    have ca: "coalesced_after z (p # it # bs) \<longrightarrow> coalesced_after z (BlockAdd p it # bs)"
      using coalesced_after_BlockAdd [OF True ch(3) le(1)] le(2) by blast
    obtain j slab1 where fr: "Free (allocator i slab) = Some (allocator j slab1)" "j \<le> MaxBlocks"
      "stock (allocator j slab1) = stock (allocator i slab) + 1"
      using Free_stock [OF Cons.prems(3)] by metis
    show ?thesis
    proof (cases "z < bend it")
      case brk: True
      then have "coalesced_after z (BlockAdd p it # bs) = coalesced (BlockAdd p it # bs)"
        using add(3) by (simp add: coalesced_after_def)
      with True brk fr ch' pv ca en' add(7) show ?thesis
        by (intro exI [of _ "BlockAdd p it # bs"] exI [of _ j] exI [of _ slab1]) (simp add: Let_def)
    next
      case False
      with True en' fr have eq: "Coalesce_loop z p (it # bs) (allocator i slab) =
          Coalesce_loop z (BlockAdd p it) bs (allocator j slab1)" by (simp add: Let_def)
      from Cons.IH [OF ch' Cons.prems(2) fr(2), of slab1] pv ca add(7) fr(3) show ?thesis
        unfolding eq by (elim exE conjE) (intro exI conjI, assumption+, auto)
    qed
  next
    case False
    show ?thesis
    proof (cases "z < bend it")
      case True
      then show ?thesis
        using False Cons.prems en coalesced_after_Cons2(2) [OF le(2)]
        by (intro exI [of _ "p # it # bs"] exI [of _ i] exI [of _ slab]) auto
    next
      case cont: False
      have "chain (bend p) (it # bs) e" using ch by simp
      from Cons.IH [OF this Cons.prems(2,3), of slab] obtain bs' i' slab' where
        r: "Coalesce_loop z it bs (allocator i slab) = Some (bs', allocator i' slab')" "i' \<le> MaxBlocks"
          "chain (bend p) bs' e" "page_view bs' = page_view (it # bs)"
          "length bs' + stock (allocator i' slab') = length (it # bs) + stock (allocator i slab)"
          "bs' \<noteq> []" "\<forall>x. CanMergeWith x (hd bs') = CanMergeWith x it"
          "coalesced_after z (it # bs) \<longrightarrow> coalesced bs'" by blast
      have "coalesced bs' \<longrightarrow> coalesced (p # bs')" using r(6,7) False by (cases bs') auto
      with r(8) coalesced_after_Cons2(1) [OF le(2), of z bs]
      have "coalesced_after z (p # it # bs) \<longrightarrow> coalesced (p # bs')" by blast
      moreover have "page_view (p # bs') = page_view (p # it # bs)" by (rule ext) (simp add: r(4))
      moreover have "Coalesce_loop z p (it # bs) (allocator i slab) = Some (p # bs', allocator i' slab')"
        using r(1) False cont en by simp
      ultimately show ?thesis
        using r(2,3,5) ch(1,2) by (intro exI [of _ "p # bs'"] exI [of _ i'] exI [of _ slab']) (simp del: page_view_Cons)
    qed
  qed
qed

section \<open>Finding a block\<close>

lemma chain_find:
  "chain a bs e \<Longrightarrow> a \<le> x \<Longrightarrow> x < e \<Longrightarrow> \<exists>pre it suf. bs = pre @ it # suf \<and> m_address it \<le> x \<and> x < bend it"
proof (induction bs arbitrary: a)
  case (Cons b bs)
  show ?case
  proof (cases "x < bend b")
    case True
    with Cons.prems show ?thesis by (intro exI [of _ "[]"]) auto
  next
    case False
    with Cons.IH [of "bend b"] Cons.prems obtain pre it suf where
      "bs = pre @ it # suf" "m_address it \<le> x" "x < bend it" by auto
    then show ?thesis by (intro exI [of _ "b # pre"]) auto
  qed
qed simp

text \<open>The tree inserts the left half of a split block just before the right one.\<close>

lemma tree_insert_split:
  assumes "chain a (pre @ r # suf) e" "e < 2 ^ 64" "0 < m_num_pages l" "bend l = m_address r"
    and "\<And>c. c \<in> set pre \<Longrightarrow> bend c \<le> m_address l"
  shows "tree_insert l (pre @ r # suf) = pre @ l # r # suf"
  using assms
proof (induction pre arbitrary: a)
  case Nil
  then show ?case using bend_gt [of l] by (simp add: Compare_def)
next
  case (Cons c pre)
  then have c: "0 < m_num_pages c" "bend c \<le> m_address l" "chain (bend c) (pre @ r # suf) e" by auto
  have "bend c < 2 ^ 64" using chain_le [OF c(3)] Cons.prems(2) by simp
  from block_exact(3) [OF this c(1)] bend_gt [OF c(1)] c(2) have "Compare l c > 0"
    unfolding Compare_def by auto
  with Cons c show ?case by auto
qed

lemma FindIterator_at:
  assumes "chain a (pre @ it # suf) e" "e < 2 ^ 64" "m_address it \<le> x" "x < bend it"
  shows "FindIterator x (pre @ it # suf) = (pre, it # suf)"
proof -
  define key where "key = BlockInitialize x 1 KMemoryState_Free Perm_None Attr_None memory_block_default"
  have k: "m_address key = x" by (simp add: key_def BlockInitialize_def)
  from assms(1) obtain m where m: "chain a pre m" "m_address it = m" "0 < m_num_pages it" "chain (bend it) suf e"
    by (auto simp: chain_append)
  have "Compare key b > 0" if "b \<in> set pre" for b
  proof -
    note b = chain_in [OF m(1) that]
    have "bend b < 2 ^ 64" using b(2) m(2) assms(2,3,4) chain_le [OF m(4)] by linarith
    from block_exact(3) [OF this b(3)] bend_gt [OF b(3)] b(2) m(2) assms(3) show ?thesis
      unfolding Compare_def k by auto
  qed
  moreover have "Compare key it = 0"
    using block_exact(3) [of it] m(3) assms(2,3,4) chain_le [OF m(4)] by (simp add: Compare_def k)
  ultimately show ?thesis
    unfolding FindIterator_def key_def [symmetric] by (simp add: Let_def)
qed

lemma FindIterator_found:
  assumes "FindIterator x bs = (pre, b # suf)" "chain a bs e" "e < 2 ^ 64"
  shows "bs = pre @ b # suf" "m_address b \<le> x" "x < bend b"
proof -
  define key where "key = BlockInitialize x 1 KMemoryState_Free Perm_None Attr_None memory_block_default"
  have k: "m_address key = x" by (simp add: key_def BlockInitialize_def)
  let ?P = "\<lambda>b. Compare key b > 0"
  from assms(1) have d: "dropWhile ?P bs = b # suf" "pre = takeWhile ?P bs" "Compare key b = 0"
    unfolding FindIterator_def key_def [symmetric] Let_def by (auto split: list.splits if_splits)
  then show bs: "bs = pre @ b # suf" using takeWhile_dropWhile_id [of ?P bs] by simp
  have b: "bend b < 2 ^ 64" "0 < m_num_pages b" using chain_in(2,3) [OF assms(2), of b] assms(3) bs by auto
  show "m_address b \<le> x" "x < bend b"
    using d(3) block_exact(3) [OF b] bend_gt [OF b(2)] by (auto simp: Compare_def k split: if_splits)
qed

section \<open>Invariant\<close>

definition mbm_inv :: "memory_block_manager \<Rightarrow> bool" where
  "mbm_inv m \<longleftrightarrow> PageSize dvd m_start_address m \<and> m_start_address m < m_end_address m \<and> m_end_address m < 2 ^ 64 \<and>
     chain (m_start_address m) (m_memory_block_tree m) (m_end_address m)"

text \<open>A non-empty page-aligned range of the address space.\<close>

definition mbm_range :: "nat \<Rightarrow> nat \<Rightarrow> memory_block_manager \<Rightarrow> bool" where
  "mbm_range address n m \<longleftrightarrow> PageSize dvd address \<and> 0 < n \<and> m_start_address m \<le> address \<and>
     address + n * PageSize \<le> m_end_address m"

text \<open>
  What a call on \<open>[lo, hi)\<close> does to a manager and its allocator: the partition is kept, every
  page of the range has its properties changed by \<open>f\<close>, no other page changes, coalesced blocks
  stay coalesced and no block is lost or made up.
\<close>

definition range_changed ::
  "(page_props \<Rightarrow> page_props) \<Rightarrow> nat \<Rightarrow> nat \<Rightarrow> update_allocator \<times> memory_block_manager
     \<Rightarrow> update_allocator \<times> memory_block_manager \<Rightarrow> bool" where
  "range_changed f lo hi = (\<lambda>(al, m) (al', m').
     mbm_inv m' \<and> m_start_address m' = m_start_address m \<and> m_end_address m' = m_end_address m \<and>
     (\<forall>x. page_view (m_memory_block_tree m') x =
        (if lo \<le> x \<and> x < hi then map_option f (page_view (m_memory_block_tree m) x)
         else page_view (m_memory_block_tree m) x)) \<and>
     (coalesced (m_memory_block_tree m) \<longrightarrow> coalesced (m_memory_block_tree m')) \<and>
     length (m_memory_block_tree m') + stock al' = length (m_memory_block_tree m) + stock al)"

lemma range_changedD:
  assumes "range_changed f lo hi (al, m) (al', m')"
  shows "mbm_inv m'" "m_start_address m' = m_start_address m" "m_end_address m' = m_end_address m"
    and "page_view (m_memory_block_tree m') x =
      (if lo \<le> x \<and> x < hi then map_option f (page_view (m_memory_block_tree m) x)
       else page_view (m_memory_block_tree m) x)"
    and "coalesced (m_memory_block_tree m) \<Longrightarrow> coalesced (m_memory_block_tree m')"
    and "length (m_memory_block_tree m') + stock al' = length (m_memory_block_tree m) + stock al"
  using assms by (simp_all add: range_changed_def)

lemma mbm_inv_chain:
  "mbm_inv m \<Longrightarrow> chain (m_start_address m) (m_memory_block_tree m) (m_end_address m)"
  by (simp add: mbm_inv_def)

lemma chain_dvd: "chain a bs e \<Longrightarrow> PageSize dvd a \<Longrightarrow> b \<in> set bs \<Longrightarrow> PageSize dvd m_address b"
proof (induction bs arbitrary: a)
  case (Cons c bs)
  then have "PageSize dvd bend c" by (simp add: bend_def)
  with Cons show ?case by auto
qed simp

lemma pages_between:
  assumes "PageSize dvd a" "PageSize dvd c" "a < c" "c < a + n * PageSize"
  obtains k where "0 < k" "k < n" "c = a + k * PageSize"
proof -
  from assms obtain i j where ij: "a = PageSize * i" "c = PageSize * j" by (auto elim!: dvdE)
  with assms have "i < j" by simp
  then have e: "c = a + (j - i) * PageSize" using ij by (simp add: diff_mult_distrib algebra_simps)
  moreover from e assms(4) have "j - i < n" by simp
  ultimately show thesis using that [of "j - i"] \<open>i < j\<close> by simp
qed

text \<open>Coalescing from the block \<open>q\<close> on, wherever the iterator was when it was found.\<close>

lemma CoalesceForUpdate_result:
  assumes ch: "chain (m_start_address m) (xs @ q # rest) (m_end_address m)" "m_end_address m < 2 ^ 64"
    and find: "FindIterator c (xs @ q # rest) =
      (if c = m_start_address m then (xs, q # rest) else (xs @ [q], rest))"
    and rest: "c \<noteq> m_start_address m \<Longrightarrow> rest \<noteq> []" and "i \<le> MaxBlocks"
  shows "\<exists>bs' i' slab'. CoalesceForUpdate c n (allocator i slab, m\<lparr>m_memory_block_tree := xs @ q # rest\<rparr>) =
      Some (allocator i' slab', m\<lparr>m_memory_block_tree := bs'\<rparr>) \<and> i' \<le> MaxBlocks \<and>
    chain (m_start_address m) bs' (m_end_address m) \<and> page_view bs' = page_view (xs @ q # rest) \<and>
    length bs' + stock (allocator i' slab') = length (xs @ q # rest) + stock (allocator i slab) \<and>
    (coalesced (xs @ [q]) \<and> coalesced_after (add64 c (mul64 n PageSize)) (q # rest) \<longrightarrow> coalesced bs')"
proof -
  let ?z = "add64 c (mul64 n PageSize)"
  from ch(1) obtain a where a: "chain (m_start_address m) xs a" "chain a (q # rest) (m_end_address m)"
    by (auto simp: chain_append)
  obtain bs' i' slab' where r: "Coalesce_loop ?z q rest (allocator i slab) = Some (bs', allocator i' slab')"
      "i' \<le> MaxBlocks" "chain a bs' (m_end_address m)" "page_view bs' = page_view (q # rest)"
      "length bs' + stock (allocator i' slab') = length (q # rest) + stock (allocator i slab)" "bs' \<noteq> []"
      "\<forall>x. CanMergeWith x (hd bs') = CanMergeWith x q" "coalesced_after ?z (q # rest) \<longrightarrow> coalesced bs'"
    using Coalesce_loop_result [OF a(2) ch(2) assms(5), of ?z slab] by blast
  have "CoalesceForUpdate c n (allocator i slab, m\<lparr>m_memory_block_tree := xs @ q # rest\<rparr>) =
      Some (allocator i' slab', m\<lparr>m_memory_block_tree := xs @ bs'\<rparr>)"
    using r(1) find rest
    by (cases rest) (auto simp: CoalesceForUpdate_def Let_def simp del: Coalesce_loop.simps)
  moreover have "chain (m_start_address m) (xs @ bs') (m_end_address m)"
    using a(1) r(3) by (auto simp: chain_append)
  moreover have "page_view (xs @ bs') = page_view (xs @ q # rest)"
    by (rule ext) (simp only: page_view_append r(4))
  moreover have "coalesced (xs @ bs')" if "coalesced (xs @ [q])" "coalesced_after ?z (q # rest)"
  proof -
    obtain h t where ht: "bs' = h # t" using r(6) by (cases bs') auto
    with r(7) have "coalesced (xs @ [h]) = coalesced (xs @ [q])" by (intro coalesced_replace_last) auto
    with that r(8) ht show ?thesis by (simp add: coalesced_append [of xs h t])
  qed
  ultimately show ?thesis
    using r(2,5) by (intro exI [of _ "xs @ bs'"] exI [of _ i'] exI [of _ slab']) simp
qed

section \<open>Operations on a range\<close>

locale block_op =
  fixes N :: "page_props \<Rightarrow> bool" and f :: "page_props \<Rightarrow> page_props"
    and needs :: "memory_block \<Rightarrow> bool" and upd :: "memory_block \<Rightarrow> memory_block"
  assumes needs_props: "needs b = N (props b)"
    and upd_props: "N (props b) \<Longrightarrow> props (upd b) = f (props b)"
    and upd_range: "m_address (upd b) = m_address b" "m_num_pages (upd b) = m_num_pages b"
    and skipped: "\<not> N p \<Longrightarrow> f p = p"
begin

text \<open>The last block of the range, when the range ends inside it.\<close>

lemma loop_short:
  assumes ch: "chain a (b # bs) e" "e < 2 ^ 64" and n: "0 < n" "n < m_num_pages b" and "i < MaxBlocks"
  shows "\<exists>bs' d. d \<le> 1 \<and>
    update_loop needs upd a n (b # bs) (allocator i slab) = Some (bs', allocator (i + d) slab) \<and>
    length bs' = length (b # bs) + d \<and> range_result f a e a (a + n * PageSize) (b # bs) bs'"
proof -
  let ?hi = "a + n * PageSize"
  from ch have b: "m_address b = a" "0 < m_num_pages b" and ch': "chain (bend b) bs e"
    and le: "bend b < 2 ^ 64"
    using chain_le [of "bend b" bs e] by auto
  have lt: "?hi < bend b" using n b by (simp add: bend_def)
  have none: "page_view bs x = None" if "x < bend b" for x
    using page_view_outside [OF ch'] that by simp
  show ?thesis
  proof (cases "needs b")
    case skip: False
    then have "update_loop needs upd a n (b # bs) (allocator i slab) = Some (b # bs, allocator i slab)"
      using update_loop_skip(1) [of needs b n a upd bs "allocator i slab"] n le lt by simp
    moreover have "range_result f a e a ?hi (b # bs) (b # bs)"
      using skip skipped [of "props b"] lt ch b none
      by (auto simp: range_result_def needs_props coalesced_after_def)
    ultimately show ?thesis by (intro exI [of _ "b # bs"] exI [of _ 0]) simp
  next
    case True
    obtain l r where lr: "Split ?hi b = (l, r)" "m_address l = m_address b" "m_num_pages l = n" "bend l = ?hi"
        "m_address r = ?hi" "m_num_pages r = m_num_pages b - n" "bend r = bend b"
        "props l = props b" "props r = props b" "\<And>c. CanMergeWith r c = CanMergeWith b c"
      using Split_pages [of n b ?hi] n le b by metis
    have "update_loop needs upd a n (b # bs) (allocator i slab) = Some (upd l # r # bs, allocator (i + 1) slab)"
      using update_loop_cut [of needs b n "allocator i slab" "allocator (Suc i) slab" l r upd bs]
        True n le assms(5) lr(1,3) b by simp
    moreover have "bend (upd l) = ?hi" using lr(4) upd_range [of l] by (simp add: bend_def)
    moreover have "coalesced (r # bs) = coalesced (b # bs)" by (rule coalesced_replace_hd) (rule lr(10))
    ultimately have "range_result f a e a ?hi (b # bs) (upd l # r # bs)"
      using lr upd_range [of l] upd_props [of l] ch' b n lt none True
      by (auto simp: range_result_def coalesced_after_def needs_props)
    with \<open>update_loop needs upd a n (b # bs) _ = _\<close> show ?thesis
      by (intro exI [of _ "upd l # r # bs"] exI [of _ 1]) simp
  qed
qed

text \<open>A block that the range covers to its end, given what the loop does after it.\<close>

lemma loop_long:
  assumes ch: "chain a (b # bs) e" "e < 2 ^ 64" and c: "a \<le> c" "c < bend b" "c + n * PageSize \<le> e"
    and long: "bend b \<le> c + n * PageSize" "(c + n * PageSize - bend b) div PageSize = k"
    and whole: "needs b \<Longrightarrow> c = a"
    and r: "update_loop needs upd (bend b) k bs al = Some (r, al')"
      "range_result f (bend b) e (bend b) (c + n * PageSize) bs r"
  shows "update_loop needs upd c n (b # bs) al = Some ((if needs b then upd b else b) # r, al')"
    and "range_result f a e c (c + n * PageSize) (b # bs) ((if needs b then upd b else b) # r)"
proof -
  from ch have b: "m_address b = a" "0 < m_num_pages b" and le: "bend b < 2 ^ 64"
    using chain_le [of "bend b" bs e] by auto
  have n: "0 < n" using c long by (cases n) auto
  have hi: "c + n * PageSize < 2 ^ 64" using c ch(2) by linarith
  show "update_loop needs upd c n (b # bs) al = Some ((if needs b then upd b else b) # r, al')"
  proof (cases "needs b")
    case True
    then have ca: "c = m_address b" using whole b by simp
    then have "k = n - m_num_pages b" and "m_num_pages b \<le> n"
      using long by (auto simp: bend_def simp flip: diff_mult_distrib)
    then show ?thesis
      using update_loop_whole [of needs b n upd bs al] True n le hi r(1) ca by simp
  next
    case False
    then show ?thesis
      using update_loop_skip(2) [of needs b n c upd bs al] n le hi long r(1) by simp
  qed
  show "range_result f a e c (c + n * PageSize) (b # bs) ((if needs b then upd b else b) # r)"
    using r(2) long(1) ch(1) c(2) b upd_range [of b] upd_props [of b] skipped [of "props b"] whole
    by (intro range_result_Cons) (auto simp: needs_props)
qed

lemma loop_aligned:
  assumes "chain a bs e" "e < 2 ^ 64" "a + n * PageSize \<le> e" "i < MaxBlocks"
  shows "\<exists>bs' d. d \<le> 1 \<and> update_loop needs upd a n bs (allocator i slab) = Some (bs', allocator (i + d) slab) \<and>
    length bs' = length bs + d \<and> range_result f a e a (a + n * PageSize) bs bs'"
  using assms
proof (induction bs arbitrary: a n)
  case Nil
  then have "n * PageSize = 0" by simp
  then have "n = 0" by (simp add: PageSize_def)
  with Nil show ?case by (intro exI [of _ "[]"] exI [of _ 0]) (simp add: range_result_empty)
next
  case (Cons b bs)
  from Cons.prems have b: "m_address b = a" "0 < m_num_pages b" and ch: "chain (bend b) bs e" by auto
  consider "n = 0" | "0 < n" "n < m_num_pages b" | "m_num_pages b \<le> n" by linarith
  then show ?case
  proof cases
    case 1
    with Cons.prems(1) range_result_empty show ?thesis by (intro exI [of _ "b # bs"] exI [of _ 0]) auto
  next
    case 2
    show ?thesis using loop_short [OF Cons.prems(1,2) 2 Cons.prems(4)] by simp
  next
    case 3
    then have h: "bend b + (n - m_num_pages b) * PageSize = a + n * PageSize"
      using b by (simp add: bend_def diff_mult_distrib)
    obtain r d where r: "d \<le> 1" "length r = length bs + d"
      "update_loop needs upd (bend b) (n - m_num_pages b) bs (allocator i slab) = Some (r, allocator (i + d) slab)"
      "range_result f (bend b) e (bend b) (a + n * PageSize) bs r"
      using Cons.IH [OF ch Cons.prems(2) _ Cons.prems(4), of "n - m_num_pages b"] h Cons.prems(3) by auto
    have "bend b \<le> a + n * PageSize" "(a + n * PageSize - bend b) div PageSize = n - m_num_pages b"
      by (simp_all flip: h)
    from loop_long [OF Cons.prems(1,2) order_refl _ Cons.prems(3) this refl r(3,4)] r(1,2) b bend_gt [of b]
    show ?thesis by (intro exI [of _ "(if needs b then upd b else b) # r"] exI [of _ d]) simp
  qed
qed

text \<open>The loop when the range starts inside a block.\<close>

lemma loop_inside:
  assumes ch: "chain a (b # bs) e" "e < 2 ^ 64" and k: "0 < k" "k < m_num_pages b"
    and c: "c = a + k * PageSize" and n: "0 < n" "c + n * PageSize \<le> e"
  shows "\<exists>bs' d q. d \<le> MaxBlocks \<and> update_loop needs upd c n (b # bs) (allocator 0 slab) = Some (bs', allocator d slab) \<and>
    length bs' = length (b # bs) + d \<and> range_result f a e c (c + n * PageSize) (b # bs) bs' \<and>
    (if needs b then \<exists>l. bs' = l # q \<and> bend l = c \<and> (\<forall>x. CanMergeWith x l = CanMergeWith x b) else bs' = b # q)"
proof -
  from ch have b: "m_address b = a" "0 < m_num_pages b" and ch': "chain (bend b) bs e" and le: "bend b < 2 ^ 64"
    using chain_le [of "bend b" bs e] by auto
  have cb: "c < bend b" "a < c" using k b by (simp_all add: c bend_def)
  have none: "page_view bs x = None" if "x < bend b" for x
    using page_view_outside [OF ch'] that by simp
  show ?thesis
  proof (cases "needs b")
    case True
    obtain l r where lr: "Split c b = (l, r)" "m_address l = a" "m_num_pages l = k" "bend l = c"
        "m_address r = c" "m_num_pages r = m_num_pages b - k" "bend r = bend b"
        "props l = props b" "props r = props b" "\<And>x. CanMergeWith x l = CanMergeWith x b"
        "\<And>x. CanMergeWith r x = CanMergeWith b x"
      using Split_pages [of k b c] k le b c by metis
    have chr: "chain c (r # bs) e" using lr k ch' by simp
    obtain q d where q: "d \<le> 1" "update_loop needs upd c n (r # bs) (allocator 1 slab) = Some (q, allocator (1 + d) slab)"
        "length q = length (r # bs) + d" "range_result f c e c (c + n * PageSize) (r # bs) q"
      using loop_aligned [OF chr ch(2) n(2), of 1 slab] by (auto simp: MaxBlocks_def)
    have "update_loop needs upd c n (b # bs) (allocator 0 slab) = Some (l # q, allocator (1 + d) slab)"
      using update_loop_split_before [of needs b n c "allocator 0 slab" "allocator 1 slab" l r upd bs]
        True n(1) b cb lr(1,5,9) q(2) by (simp add: needs_props MaxBlocks_def)
    moreover have "coalesced (r # bs) = coalesced (b # bs)" by (rule coalesced_replace_hd) (rule lr(11))
    with q(4) lr k b cb none have "range_result f a e c (c + n * PageSize) (b # bs) (l # q)"
      by (auto simp: range_result_def coalesced_after_def)
    ultimately show ?thesis
      using True q(1,3) lr(4,10) by (intro exI [of _ "l # q"] exI [of _ "1 + d"] exI [of _ q]) (auto simp: MaxBlocks_def)
  next
    case False
    show ?thesis
    proof (cases "c + n * PageSize < bend b")
      case short: True
      then have "update_loop needs upd c n (b # bs) (allocator 0 slab) = Some (b # bs, allocator 0 slab)"
        using update_loop_skip(1) [of needs b n c upd bs "allocator 0 slab"] False n le by simp
      moreover have "range_result f a e c (c + n * PageSize) (b # bs) (b # bs)"
        using False skipped [of "props b"] short ch cb b none
        by (auto simp: range_result_def needs_props coalesced_after_def)
      ultimately show ?thesis
        using False by (intro exI [of _ "b # bs"] exI [of _ 0] exI [of _ bs]) simp
    next
      case long: False
      then have "m_num_pages b * PageSize \<le> (k + n) * PageSize"
        using b by (simp add: c bend_def distrib_right)
      then have "m_num_pages b \<le> k + n" by simp
      then obtain j where j: "k + n = m_num_pages b + j" using le_Suc_ex by blast
      have "c + n * PageSize = a + (k + n) * PageSize" by (simp add: c distrib_right)
      with b(1) have h: "bend b + j * PageSize = c + n * PageSize" by (simp add: j bend_def distrib_right)
      obtain q d where q: "d \<le> 1" "update_loop needs upd (bend b) j bs (allocator 0 slab) = Some (q, allocator (0 + d) slab)"
          "length q = length bs + d" "range_result f (bend b) e (bend b) (bend b + j * PageSize) bs q"
        using loop_aligned [OF ch' ch(2), of j 0 slab] h n(2) by (auto simp: MaxBlocks_def)
      have "(c + n * PageSize - bend b) div PageSize = j" by (simp flip: h)
      from loop_long [OF ch less_imp_le [OF cb(2)] cb(1) n(2) _ this _ q(2)] long False q(4)
      have "update_loop needs upd c n (b # bs) (allocator 0 slab) = Some (b # q, allocator (0 + d) slab)"
        and "range_result f a e c (c + n * PageSize) (b # bs) (b # q)"
        unfolding h by simp_all
      then show ?thesis
        using False q(1,3) by (intro exI [of _ "b # q"] exI [of _ d] exI [of _ q]) (auto simp: MaxBlocks_def)
    qed
  qed
qed

text \<open>
  What remains after the loop, whatever happened at its first block: coalescing starts at a block
  \<open>q\<close> whose predecessors the loop has not changed.
\<close>

lemma finish_range:
  assumes inv: "mbm_inv m" and tree: "m_memory_block_tree m = pre @ b # suf"
    and rng: "c + n * PageSize \<le> m_end_address m"
    and loop: "update_loop needs upd c n (b # suf) (allocator 0 slab) = Some (bs', allocator d slab)"
      "d \<le> MaxBlocks" "length bs' = length (b # suf) + d"
      "range_result f (m_address b) (m_end_address m) c (c + n * PageSize) (b # suf) bs'"
    and find: "FindIterator c (pre @ b # suf) = (pre, b # suf)" and c: "m_address b \<le> c"
    and q: "pre @ bs' = xs @ q # rest" "coalesced (pre @ [b]) \<Longrightarrow> coalesced (xs @ [q])"
      "coalesced_after (c + n * PageSize) bs' \<Longrightarrow> coalesced_after (c + n * PageSize) (q # rest)"
      "FindIterator c (xs @ q # rest) = (if c = m_start_address m then (xs, q # rest) else (xs @ [q], rest))"
      "c \<noteq> m_start_address m \<Longrightarrow> rest \<noteq> []"
  shows "\<exists>i' slab' m'. update_range needs upd c n (allocator 0 slab, m) = Some (allocator i' slab', m') \<and>
    i' \<le> MaxBlocks \<and> range_changed f c (c + n * PageSize) (allocator 0 slab, m) (allocator i' slab', m')"
proof -
  let ?hi = "c + n * PageSize"
  have e: "m_end_address m < 2 ^ 64" using inv by (simp add: mbm_inv_def)
  then have z: "add64 c (mul64 n PageSize) = ?hi" using rng by (simp add: mul64_exact add64_exact)
  from inv tree have a: "chain (m_start_address m) pre (m_address b)"
    "chain (m_address b) (b # suf) (m_end_address m)" by (auto simp: mbm_inv_def chain_append)
  have ch: "chain (m_start_address m) (xs @ q # rest) (m_end_address m)"
    using a(1) loop(4) by (auto simp: chain_append range_result_def simp flip: q(1))
  obtain bs2 i' slab' where r:
      "CoalesceForUpdate c n (allocator d slab, m\<lparr>m_memory_block_tree := xs @ q # rest\<rparr>) =
        Some (allocator i' slab', m\<lparr>m_memory_block_tree := bs2\<rparr>)" "i' \<le> MaxBlocks"
      "chain (m_start_address m) bs2 (m_end_address m)" "page_view bs2 = page_view (xs @ q # rest)"
      "length bs2 + stock (allocator i' slab') = length (xs @ q # rest) + stock (allocator d slab)"
      "coalesced (xs @ [q]) \<and> coalesced_after ?hi (q # rest) \<longrightarrow> coalesced bs2"
    using CoalesceForUpdate_result [OF ch e q(4,5) loop(2), of n slab] unfolding z by blast
  have upd: "update_range needs upd c n (allocator 0 slab, m) =
      Some (allocator i' slab', m\<lparr>m_memory_block_tree := bs2\<rparr>)"
    using loop(1) r(1) find by (simp add: update_range_def tree q(1))
  have len: "length bs2 + stock (allocator i' slab') = length (pre @ b # suf) + stock (allocator 0 slab)"
    using r(5) loop(2,3) by (simp flip: q(1))
  have pre_none: "page_view pre x = None" if "c \<le> x" for x
    using page_view_outside [OF a(1)] that c by simp
  have pv: "page_view bs2 x = (if c \<le> x \<and> x < ?hi then map_option f (page_view (pre @ b # suf) x)
      else page_view (pre @ b # suf) x)" for x
    using loop(4) pre_none [of x]
    by (auto simp: r(4) page_view_append range_result_def simp flip: q(1) simp del: page_view_Cons split: option.split)
  have "coalesced bs2" if "coalesced (pre @ b # suf)"
    using that q(2,3) loop(4) r(6) by (auto simp: coalesced_append [of pre b suf] range_result_def)
  with pv len r(3) inv have "range_changed f c ?hi (allocator 0 slab, m)
      (allocator i' slab', m\<lparr>m_memory_block_tree := bs2\<rparr>)"
    by (simp add: range_changed_def mbm_inv_def tree)
  with upd r(2) show ?thesis by blast
qed

lemma finish_found:
  assumes inv: "mbm_inv m" and tree: "m_memory_block_tree m = pre @ b # suf"
    and rng: "c + n * PageSize \<le> m_end_address m"
    and loop: "update_loop needs upd c n (b # suf) (allocator 0 slab) = Some (h # t, allocator d slab)"
      "d \<le> MaxBlocks" "length (h # t) = length (b # suf) + d"
      "range_result f (m_address b) (m_end_address m) c (c + n * PageSize) (b # suf) (h # t)"
    and find: "FindIterator c (pre @ b # suf) = (pre, b # suf)" and c: "m_address b \<le> c"
    and h: "m_address h \<le> c" "c < bend h" "c = m_start_address m \<longleftrightarrow> pre = []"
  shows "\<exists>i' slab' m'. update_range needs upd c n (allocator 0 slab, m) = Some (allocator i' slab', m') \<and>
    i' \<le> MaxBlocks \<and> range_changed f c (c + n * PageSize) (allocator 0 slab, m) (allocator i' slab', m')"
proof -
  have e: "m_end_address m < 2 ^ 64" using inv by (simp add: mbm_inv_def)
  from inv tree have a: "chain (m_start_address m) pre (m_address b)" by (auto simp: mbm_inv_def chain_append)
  have "chain (m_start_address m) (pre @ h # t) (m_end_address m)"
    using a loop(4) by (auto simp: chain_append range_result_def)
  note found = FindIterator_at [OF this e h(1,2)]
  show ?thesis
  proof (cases "pre = []")
    case True
    with found h(3) show ?thesis
      by (intro finish_range [OF inv tree rng loop find c, of "[]" h t]) simp_all
  next
    case False
    then obtain xs q where xq: "pre = xs @ [q]" using append_butlast_last_id by metis
    then have "bend q \<le> m_address b" using chain_in(2) [OF a, of q] by simp
    with c have "bend q \<le> c + n * PageSize" by linarith
    with found h(3) False xq show ?thesis
      by (intro finish_range [OF inv tree rng loop find c, of xs q "h # t"])
        (auto simp: coalesced_append [of xs q "[b]"] coalesced_after_def)
  qed
qed

theorem update_range_result:
  assumes inv: "mbm_inv m" and rng: "mbm_range c n m"
    and first: "c = m_start_address m \<or> bend (hd (m_memory_block_tree m)) \<le> c \<or> needs (hd (m_memory_block_tree m))"
  shows "\<exists>i' slab' m'. update_range needs upd c n (allocator 0 slab, m) = Some (allocator i' slab', m') \<and>
    i' \<le> MaxBlocks \<and> range_changed f c (c + n * PageSize) (allocator 0 slab, m) (allocator i' slab', m')"
proof -
  let ?s = "m_start_address m" and ?e = "m_end_address m"
  have e: "?e < 2 ^ 64" and cht: "chain ?s (m_memory_block_tree m) ?e" and c: "?s \<le> c" "c + n * PageSize \<le> ?e" "0 < n"
    using inv rng by (simp_all add: mbm_inv_def mbm_range_def)
  then have "c < ?e" using mult_pos_pos [OF c(3) PageSize_pos] by linarith
  from chain_find [OF cht c(1) this] obtain pre b suf where
    t: "m_memory_block_tree m = pre @ b # suf" "m_address b \<le> c" "c < bend b" by blast
  note find = FindIterator_at [OF cht [unfolded t] e t(2,3)]
  from cht t have a: "chain ?s pre (m_address b)" "chain (m_address b) (b # suf) ?e" "0 < m_num_pages b"
    by (auto simp: chain_append)
  show ?thesis
  proof (cases "c = m_address b")
    case True
    obtain bs' d where r: "d \<le> 1" "length bs' = length (b # suf) + d"
        "update_loop needs upd c n (b # suf) (allocator 0 slab) = Some (bs', allocator (0 + d) slab)"
        "range_result f (m_address b) ?e c (c + n * PageSize) (b # suf) bs'"
      using loop_aligned [OF a(2) e, of n 0 slab] c(2) True by (auto simp: MaxBlocks_def)
    then obtain h u where bs': "bs' = h # u" by (cases bs') auto
    with r(4) True have h: "m_address h = c" "c < bend h" using bend_gt [of h] by (auto simp: range_result_def)
    have "c = ?s \<longleftrightarrow> pre = []" using a(1) True by (cases "c = ?s") (auto simp: chain_same)
    then show ?thesis
      using r bs' h by (intro finish_found [OF inv t(1) c(2) _ _ _ _ find t(2)]) (auto simp: MaxBlocks_def)
  next
    case False
    have dv: "PageSize dvd m_address b" "PageSize dvd c"
      using chain_dvd [OF cht] inv rng t(1) by (auto simp: mbm_inv_def mbm_range_def)
    from False t(2,3) obtain k where k: "0 < k" "k < m_num_pages b" "c = m_address b + k * PageSize"
      using pages_between [OF dv, of "m_num_pages b"] by (auto simp: bend_def)
    obtain bs' d q where r: "d \<le> MaxBlocks" "length bs' = length (b # suf) + d"
        "update_loop needs upd c n (b # suf) (allocator 0 slab) = Some (bs', allocator d slab)"
        "range_result f (m_address b) ?e c (c + n * PageSize) (b # suf) bs'"
        "if needs b then \<exists>l. bs' = l # q \<and> bend l = c \<and> (\<forall>x. CanMergeWith x l = CanMergeWith x b) else bs' = b # q"
      using loop_inside [OF a(2) e k c(3,2), of slab] by metis
    have ns: "c \<noteq> ?s" using chain_le [OF a(1)] t(2) False by auto
    show ?thesis
    proof (cases "needs b")
      case True
      with r(5) obtain l where l: "bs' = l # q" "bend l = c" "\<And>x. CanMergeWith x l = CanMergeWith x b" by auto
      with r(4) have cq: "chain c q ?e" by (auto simp: range_result_def)
      with \<open>c < ?e\<close> obtain h u where hu: "q = h # u" "m_address h = c" "c < bend h"
        using bend_gt by (cases q) auto
      have "chain ?s ((pre @ [l]) @ h # u) ?e"
        using a(1) r(4) l hu by (auto simp: chain_append range_result_def)
      from FindIterator_at [OF this e _ hu(3)] hu(2) ns l hu(1) show ?thesis
        using coalesced_replace_last [of l b pre]
        by (intro finish_range [OF inv t(1) c(2) r(3,1,2,4) find t(2), of pre l q]) auto
    next
      case skip: False
      have "pre \<noteq> []" using first ns skip t by (cases pre) auto
      with ns r skip t show ?thesis
        by (intro finish_found [OF inv t(1) c(2) _ _ _ _ find t(2)]) auto
    qed
  qed
qed

text \<open>In the remaining case the iterator is decremented at the first block.\<close>

lemma update_range_undefined:
  assumes inv: "mbm_inv m" and rng: "mbm_range c n m"
    and first: "c \<noteq> m_start_address m" "c < bend (hd (m_memory_block_tree m))" "\<not> needs (hd (m_memory_block_tree m))"
  shows "update_range needs upd c n (allocator 0 slab, m) = None"
proof -
  let ?s = "m_start_address m" and ?e = "m_end_address m"
  have e: "?e < 2 ^ 64" "?s < ?e" and cht: "chain ?s (m_memory_block_tree m) ?e" and c: "?s \<le> c" "c + n * PageSize \<le> ?e" "0 < n"
    using inv rng by (simp_all add: mbm_inv_def mbm_range_def)
  then obtain b suf where t: "m_memory_block_tree m = b # suf" by (cases "m_memory_block_tree m") auto
  with cht first have b: "m_address b = ?s" "c < bend b" "\<not> needs b" "chain (m_address b) (b # suf) ?e" by auto
  have dv: "PageSize dvd m_address b" "PageSize dvd c" using inv rng b(1) by (simp_all add: mbm_inv_def mbm_range_def)
  obtain k where k: "0 < k" "k < m_num_pages b" "c = m_address b + k * PageSize"
    using pages_between [OF dv, of "m_num_pages b"] b(1,2) c(1) first(1) by (auto simp: bend_def)
  obtain d q where r: "update_loop needs upd c n (b # suf) (allocator 0 slab) = Some (b # q, allocator d slab)"
    "range_result f (m_address b) ?e c (c + n * PageSize) (b # suf) (b # q)"
    using loop_inside [OF b(4) e(1) k c(3,2), of slab] b(3) by metis
  have "chain (m_address b) (b # q) ?e" using r(2) by (simp add: range_result_def)
  then have "FindIterator c (b # q) = ([], b # q)" "FindIterator c (b # suf) = ([], b # suf)"
    using FindIterator_at [of "m_address b" "[]" b _ ?e c] b e(1) c(1) by simp_all
  then show ?thesis using r(1) first(1) by (simp add: update_range_def CoalesceForUpdate_def t)
qed

end

text \<open>A function that \<open>UpdateLock\<close> applies, with its effect on the properties of a page.\<close>

locale lock_function =
  fixes g :: "u8 \<Rightarrow> page_props \<Rightarrow> page_props"
    and lock_func :: "u8 \<Rightarrow> bool \<Rightarrow> bool \<Rightarrow> memory_block \<Rightarrow> memory_block"
  assumes lock_props: "props (lock_func perm left right b) = g perm (props b)"
    and lock_range: "m_address (lock_func perm left right b) = m_address b"
      "m_num_pages (lock_func perm left right b) = m_num_pages b"

sublocale lock_function \<subseteq> op: block_op "\<lambda>_. True" "g perm" "\<lambda>_. True"
    "\<lambda>it. lock_func perm (m_address it = address) (GetEndAddress it = end_address) it"
  for perm address end_address
  by unfold_locales (simp_all add: lock_props lock_range)

context lock_function
begin

lemma UpdateLock_result:
  assumes "mbm_inv m" "mbm_range c n m"
  shows "\<exists>i' slab' m'. UpdateLock c n lock_func perm (allocator 0 slab, m) = Some (allocator i' slab', m') \<and>
    i' \<le> MaxBlocks \<and> range_changed (g perm) c (c + n * PageSize) (allocator 0 slab, m) (allocator i' slab', m')"
  unfolding UpdateLock_def Let_def using op.update_range_result [OF assms] by simp

end

interpretation lock_ipc: lock_function props_lock_ipc LockForIpc
  by unfold_locales (simp_all add: props_block_ops range_block_ops)

interpretation unlock_ipc: lock_function "\<lambda>_. props_unlock_ipc" UnlockForIpc
  by unfold_locales (simp_all add: props_block_ops range_block_ops)

interpretation share: lock_function "\<lambda>_. props_share" ShareToDevice
  by unfold_locales (simp_all add: props_block_ops range_block_ops)

interpretation unshare: lock_function "\<lambda>_. props_unshare" UnshareToDevice
  by unfold_locales (simp_all add: props_block_ops range_block_ops)

interpretation unshare_right: lock_function "\<lambda>_. props_unshare" UnshareToDeviceRight
  by unfold_locales (simp_all add: props_block_ops range_block_ops)

definition props_have :: "u32 \<Rightarrow> u8 \<Rightarrow> u8 \<Rightarrow> page_props \<Rightarrow> bool" where
  "props_have s p a q \<longleftrightarrow> pp_state q = s \<and> pp_permission q = p \<and>
     pp_attribute q OR (Attr_IpcLocked OR Attr_DeviceShared) = a OR (Attr_IpcLocked OR Attr_DeviceShared)"

lemma HasProperties_props: "HasProperties s p a b = props_have s p a (props b)"
  by (simp add: HasProperties_def props_have_def props_def Let_def)

interpretation update_op: block_op "\<lambda>q. \<not> props_have s p a q" "\<lambda>q. if props_have s p a q then q else props_update s p a q"
    "\<lambda>it. \<not> HasProperties s p a it" "\<lambda>it. BlockUpdate s p a (m_address it = address) set_mask clear_mask it"
  for s p a address set_mask clear_mask
  by unfold_locales (simp_all add: HasProperties_props props_block_ops range_block_ops)

interpretation update_if_match_op: block_op "\<lambda>q. props_have ts tp ta q \<and> \<not> props_have s p a q"
    "\<lambda>q. if props_have ts tp ta q \<and> \<not> props_have s p a q then props_update s p a q else q"
    "\<lambda>it. HasProperties ts tp ta it \<and> \<not> HasProperties s p a it" "\<lambda>it. BlockUpdate s p a False set_mask clear_mask it"
  for ts tp ta s p a set_mask clear_mask
  by unfold_locales (auto simp: HasProperties_props props_block_ops range_block_ops)

interpretation update_attribute_op: block_op "\<lambda>q. pp_attribute q AND msk \<noteq> a"
    "\<lambda>q. if pp_attribute q AND msk \<noteq> a then props_attribute msk a q else q"
    "\<lambda>it. m_attribute it AND msk \<noteq> a" "BlockUpdateAttribute msk a"
  for msk a
  by unfold_locales (auto simp: props_block_ops range_block_ops)

text \<open>Skipping a block that has the properties already is as good as updating it.\<close>

lemma and_sub_mask:
  fixes x y m :: u8
  assumes "x AND m = 0" "y AND m = y"
  shows "x AND y = 0"
proof -
  have "x AND y = x AND (m AND y)" using assms(2) by (simp add: and.commute)
  also have "\<dots> = (x AND m) AND y" by (simp only: and.assoc)
  finally show ?thesis using assms(1) by simp
qed

lemma props_update_have:
  assumes "a AND (Attr_IpcLocked OR Attr_DeviceShared) = 0" "props_have s p a q"
  shows "props_update s p a q = q"
proof -
  define m where "m = Attr_IpcLocked OR Attr_DeviceShared"
  have e: "pp_attribute q OR m = a OR m" using assms(2) by (simp add: props_have_def m_def)
  have "(pp_attribute q OR m) AND NOT m = (a OR m) AND NOT m" by (simp only: e)
  then have "pp_attribute q AND NOT m = a AND NOT m" by (simp add: bit.conj_disj_distrib2)
  moreover have "a AND NOT m = a"
    using assms(1) bit.conj_disj_distrib [of a m "NOT m"] by (simp add: m_def [symmetric])
  ultimately have "a OR (pp_attribute q AND m) = (pp_attribute q AND NOT m) OR (pp_attribute q AND m)" by simp
  also have "\<dots> = pp_attribute q" by (simp flip: bit.conj_disj_distrib)
  finally show ?thesis
    using assms(2) by (simp add: props_update_def props_have_def m_def)
qed

lemma props_attribute_have: "pp_attribute q AND msk = a \<Longrightarrow> props_attribute msk a q = q"
proof -
  assume "pp_attribute q AND msk = a"
  then have "(pp_attribute q AND NOT msk) OR a = (pp_attribute q AND NOT msk) OR (pp_attribute q AND msk)" by simp
  also have "\<dots> = pp_attribute q" by (simp flip: bit.conj_disj_distrib)
  finally show ?thesis by (simp add: props_attribute_def)
qed

section \<open>The audit and the counts\<close>

definition props_counted :: "page_props \<Rightarrow> bool" where
  "props_counted q \<longleftrightarrow> \<not> (pp_attribute q AND Attr_IpcLocked \<noteq> Attr_None \<and> pp_ipc_lock_count q = 0) \<and>
     \<not> (pp_attribute q AND Attr_DeviceShared \<noteq> Attr_None \<and> pp_device_use_count q = 0)"

lemma CheckState_block_props: "CheckState_block b = props_counted (props b)"
  by (simp add: CheckState_block_def props_counted_def)

lemma CheckState_loop_iff:
  assumes "chain a (b # bs) e" "e < 2 ^ 64"
  shows "CheckState_loop b bs \<longleftrightarrow> coalesced (b # bs) \<and> (\<forall>c \<in> set bs. CheckState_block c) \<and> (bs = [] \<longrightarrow> CheckState_block b)"
  using assms
proof (induction bs arbitrary: a b)
  case (Cons c bs)
  then have ch: "chain (bend b) (c # bs) e" by simp
  have "bend b < 2 ^ 64" using chain_le [OF ch] Cons.prems(2) by simp
  with Cons.IH [OF ch Cons.prems(2)] ch show ?case by (auto simp: block_exact)
qed simp

lemma page_view_in:
  "chain a bs e \<Longrightarrow> b \<in> set bs \<Longrightarrow> m_address b \<le> x \<Longrightarrow> x < bend b \<Longrightarrow> page_view bs x = Some (props b)"
proof (induction bs arbitrary: a)
  case (Cons c bs)
  then have "bend c \<le> m_address b" if "b \<in> set bs" using chain_in(1) [of "bend c" bs e b] that by simp
  with Cons show ?case by fastforce
qed simp

lemma page_view_cases: "page_view bs x = Some q \<Longrightarrow> \<exists>b \<in> set bs. m_address b \<le> x \<and> x < bend b \<and> q = props b"
  by (auto simp: page_view_def find_Some_iff)

definition all_counted :: "memory_block list \<Rightarrow> bool" where
  "all_counted bs \<longleftrightarrow> (\<forall>b \<in> set bs. CheckState_block b)"

lemma all_counted_view:
  assumes "chain a bs e"
  shows "all_counted bs \<longleftrightarrow> (\<forall>x q. page_view bs x = Some q \<longrightarrow> props_counted q)"
proof
  show "all_counted bs \<Longrightarrow> \<forall>x q. page_view bs x = Some q \<longrightarrow> props_counted q"
    using page_view_cases by (fastforce simp: all_counted_def CheckState_block_props)
next
  assume v: "\<forall>x q. page_view bs x = Some q \<longrightarrow> props_counted q"
  show "all_counted bs"
    unfolding all_counted_def
  proof
    fix b assume b: "b \<in> set bs"
    from page_view_in [OF assms b order_refl] chain_in(3) [OF assms b] v show "CheckState_block b"
      by (simp add: CheckState_block_props)
  qed
qed

lemma CheckState_holds:
  assumes "mbm_inv m" "coalesced (m_memory_block_tree m)" "all_counted (m_memory_block_tree m)"
  shows "CheckState m = Some True"
proof -
  from assms(1) obtain b bs where t: "m_memory_block_tree m = b # bs"
    by (cases "m_memory_block_tree m") (auto simp: mbm_inv_def)
  with assms CheckState_loop_iff [of "m_start_address m" b bs "m_end_address m"] show ?thesis
    by (auto simp: CheckState_def mbm_inv_def all_counted_def)
qed

text \<open>An operation whose effect on a page keeps the counts keeps the whole audited state.\<close>

lemma range_changed_audit:
  assumes ch: "range_changed f lo hi (al, m) (al', m')" and inv: "mbm_inv m"
    and pre: "coalesced (m_memory_block_tree m)" "all_counted (m_memory_block_tree m)"
    and f: "\<And>x q. lo \<le> x \<Longrightarrow> x < hi \<Longrightarrow> page_view (m_memory_block_tree m) x = Some q \<Longrightarrow> props_counted q \<Longrightarrow> props_counted (f q)"
  shows "coalesced (m_memory_block_tree m') \<and> all_counted (m_memory_block_tree m') \<and> CheckState m' = Some True"
proof -
  note c = mbm_inv_chain [OF inv] mbm_inv_chain [OF range_changedD(1) [OF ch]] range_changedD(1) [OF ch]
  have "props_counted q" if "page_view (m_memory_block_tree m') x = Some q" for x q
    using that f pre(2) [unfolded all_counted_view [OF c(1)]]
    by (auto simp: range_changedD(4) [OF ch] split: if_splits)
  then have "all_counted (m_memory_block_tree m')" by (simp add: all_counted_view [OF c(2)])
  moreover have "coalesced (m_memory_block_tree m')" using range_changedD(5) [OF ch pre(1)] .
  ultimately show ?thesis using CheckState_holds [OF c(3)] by blast
qed

lemma props_update_counted:
  assumes "a AND (Attr_IpcLocked OR Attr_DeviceShared) = 0" "props_counted q"
  shows "props_counted (props_update s p a q)"
proof -
  have "a AND Attr_IpcLocked = 0" "a AND Attr_DeviceShared = 0"
    using and_sub_mask [OF assms(1)] by (simp_all add: attr_defs)
  then have "pp_attribute (props_update s p a q) AND Attr_IpcLocked = pp_attribute q AND Attr_IpcLocked"
    "pp_attribute (props_update s p a q) AND Attr_DeviceShared = pp_attribute q AND Attr_DeviceShared"
    by (simp_all add: props_update_def bit.conj_disj_distrib2 and.assoc attr_defs)
  with assms(2) show ?thesis by (simp add: props_counted_def) (simp add: props_update_def)
qed

section \<open>Finding free areas\<close>

lemma FindFreeArea_loop_found:
  "FindFreeArea_loop rs rl n al off g bs = r \<Longrightarrow> r \<noteq> 0 \<Longrightarrow>
     \<exists>info \<in> set bs. FindFreeArea_block rs rl n al off g info = Some r"
  by (induction bs) (auto split: if_splits option.splits)

lemma FindFreeArea_block_fits:
  assumes "FindFreeArea_block rs rl n al off g info = Some r" "bend info \<le> e" "0 < m_num_pages info" "rs < e"
    and small: "e + off + al + (n + 2 * g) * PageSize < 2 ^ 64" and al: "0 < al" and n: "0 < n"
  shows "m_memory_state info = KMemoryState_Free \<and> off \<le> r \<and> al dvd r - off \<and>
    max rs (m_address info) + g * PageSize \<le> r \<and> r + (n + g) * PageSize \<le> bend info \<and> r + (n + g) * PageSize \<le> rl + 1"
proof -
  have ad: "m_address info < e" using bend_gt [OF assms(3)] assms(2) by linarith
  have sz: "(n + 2 * g) * PageSize = n * PageSize + g * PageSize + g * PageSize" "0 < n * PageSize"
    using n by (simp_all add: algebra_simps)
  define base where "base = (if m_address info \<le> rs then rs else m_address info)"
  define area0 where "area0 = base + g * PageSize"
  define oa where "oa = AlignDown area0 al + off"
  define area where "area = (if area0 \<le> oa then oa else oa + al)"
  have b: "base < e" "base = max rs (m_address info)" using ad assms(4) by (auto simp: base_def)
  have oa: "oa \<le> area0 + off" using AlignDown_le [of area0 al] by (simp add: oa_def)
  have m: "mul64 g PageSize = g * PageSize" "mul64 n PageSize = n * PageSize"
    using small sz by (simp_all add: mul64_exact)
  have a1: "add64 base (g * PageSize) = area0" "add64 (AlignDown area0 al) off = oa"
    using small sz b(1) oa by (simp_all add: add64_exact area0_def oa_def)
  have le: "area \<le> area0 + off + al" using oa by (simp add: area_def)
  then have a2: "(if area0 \<le> oa then oa else add64 oa al) = area" "add64 area (n * PageSize) = area + n * PageSize"
      "add64 (area + n * PageSize) (g * PageSize) = area + n * PageSize + g * PageSize"
    using small sz b(1) oa by (auto simp: add64_exact area0_def area_def)
  have a3: "sub64 (area + n * PageSize + g * PageSize) 1 = area + n * PageSize + g * PageSize - 1"
  proof (rule sub64_exact)
    show "1 \<le> area + n * PageSize + g * PageSize" using sz(2) by linarith
    show "area + n * PageSize + g * PageSize < 2 ^ 64"
      using small sz(1) b(1) le unfolding area0_def by linarith
  qed
  have en: "GetLastAddress info = bend info - 1"
    using block_exact(3) [OF _ assms(3)] assms(2) small by simp
  have r: "m_memory_state info = KMemoryState_Free" "r = area" "area + n * PageSize + g * PageSize - 1 \<le> rl"
      "area + n * PageSize + g * PageSize - 1 \<le> bend info - 1"
    using assms(1) unfolding FindFreeArea_block_def Let_def base_def [symmetric] m a1 a2 a3 en by (auto split: if_splits)
  have "area0 < AlignDown area0 al + al"
    using al by (simp add: AlignDown_def) (metis add.commute add_diff_inverse_nat le_less_trans less_diff_conv
        mod_less_divisor mod_less_eq_dividend nat_add_left_cancel_less not_less order_refl)
  then have "area0 \<le> area" by (simp add: area_def oa_def)
  moreover have "al dvd area - off" "off \<le> area"
    using AlignDown_dvd [of al area0] by (auto simp: area_def oa_def dvd_add)
  moreover have "0 < bend info" using bend_gt [OF assms(3)] by linarith
  ultimately show ?thesis
    using r sz b(2) by (auto simp: area0_def algebra_simps)
qed

section \<open>Properties\<close>

text \<open>
  The code reaches the block before the one that holds the address by decrementing the iterator.
  When the range starts inside the first block of the tree and that block needs no change, no block
  was split off before the address and the iterator leaves the tree.
\<close>

definition enters_after_first :: "nat \<Rightarrow> (memory_block \<Rightarrow> bool) \<Rightarrow> memory_block_manager \<Rightarrow> bool" where
  "enters_after_first c needs m \<longleftrightarrow> c = m_start_address m \<or>
     GetEndAddress (hd (m_memory_block_tree m)) \<le> c \<or> needs (hd (m_memory_block_tree m))"

lemma enters_after_first_iff:
  assumes "mbm_inv m"
  shows "enters_after_first c needs m \<longleftrightarrow>
    c = m_start_address m \<or> bend (hd (m_memory_block_tree m)) \<le> c \<or> needs (hd (m_memory_block_tree m))"
proof -
  have "bend (hd (m_memory_block_tree m)) < 2 ^ 64"
    using chain_in(2) [OF mbm_inv_chain [OF assms(1)]] assms(1)
    by (cases "m_memory_block_tree m") (auto simp: mbm_inv_def intro: le_less_trans)
  then show ?thesis by (simp add: enters_after_first_def block_exact)
qed

lemma enters_after_firstD:
  "mbm_inv m \<Longrightarrow> enters_after_first c needs m \<Longrightarrow>
     c = m_start_address m \<or> bend (hd (m_memory_block_tree m)) \<le> c \<or> needs (hd (m_memory_block_tree m))"
  by (simp add: enters_after_first_iff)

text \<open>
  C6.  \<open>Update\<close> with an allocator of two blocks and arguments that meet its assertions.  Unless the
  range starts inside the first block of the tree and that block has the properties already
  (\<open>enters_after_first\<close>), the call is defined (it never runs out of allocator blocks, never leaves the
  tree and its loops end), keeps the address space a partition into page-aligned non-empty blocks,
  sets state, permission and attribute of exactly the pages of the range while their IPC and device
  marks stay, keeps coalesced blocks coalesced, and neither loses nor makes up a block.  In that one
  case it is always undefined: \<open>CoalesceForUpdate\<close> decrements the iterator to the first block.
\<close>

theorem Update_sets_range:
  assumes "mbm_inv m" "mbm_range address num_pages m"
    and "attr AND (Attr_IpcLocked OR Attr_DeviceShared) = 0"
  shows "if enters_after_first address (\<lambda>b. \<not> HasProperties state perm attr b) m
    then \<exists>al' m'. Update address num_pages state perm attr set_attr clear_attr (allocator 0 slab, m) = Some (al', m') \<and>
      range_changed (props_update state perm attr) address (address + num_pages * PageSize) (allocator 0 slab, m) (al', m')
    else Update address num_pages state perm attr set_attr clear_attr (allocator 0 slab, m) = None"
proof (cases "enters_after_first address (\<lambda>b. \<not> HasProperties state perm attr b) m")
  case True
  have "(\<lambda>q. if props_have state perm attr q then q else props_update state perm attr q) = props_update state perm attr"
    using props_update_have [OF assms(3)] by auto
  with update_op.update_range_result [OF assms(1,2) enters_after_firstD [OF assms(1) True], of address set_attr clear_attr slab]
  have "\<exists>al' m'. Update address num_pages state perm attr set_attr clear_attr (allocator 0 slab, m) = Some (al', m') \<and>
      range_changed (props_update state perm attr) address (address + num_pages * PageSize) (allocator 0 slab, m) (al', m')"
    unfolding Update_def by (metis (no_types, lifting))
  with True show ?thesis by simp
next
  case False
  with update_op.update_range_undefined [OF assms(1,2), of state perm attr address set_attr clear_attr slab] show ?thesis
    by (simp add: enters_after_first_iff [OF assms(1)] Update_def)
qed

definition manager_example :: memory_block_manager where
  "manager_example = \<lparr>m_memory_block_tree =
     [BlockInitialize 0x200000 16 KMemoryState_Free Perm_None Attr_None memory_block_default,
      BlockInitialize 0x210000 16 KMemoryState_Normal Perm_UserReadWrite Attr_None memory_block_default,
      BlockInitialize 0x220000 32 KMemoryState_Free Perm_None Attr_None memory_block_default],
     m_start_address = 0x200000, m_end_address = 0x240000\<rparr>"

lemma manager_example_inv: "mbm_inv manager_example"
  by (simp add: mbm_inv_def manager_example_def BlockInitialize_def bend_def PageSize_def)

theorem Update_sets_range_witness:
  "Update 0x204000 4 KMemoryState_Free Perm_None Attr_None Merge_None Merge_None (allocator 0 5, manager_example) = None \<and>
   (\<exists>al' m'. Update 0x204000 20 KMemoryState_Code Perm_UserRead Attr_None Merge_None Merge_None
      (allocator 0 5, manager_example) = Some (al', m') \<and>
    map_option pp_state (page_view (m_memory_block_tree m') 0x217000) = Some KMemoryState_Code \<and>
    map_option pp_state (page_view (m_memory_block_tree m') 0x218000) = Some KMemoryState_Normal)"
proof -
  have n: "Update 0x204000 4 KMemoryState_Free Perm_None Attr_None Merge_None Merge_None (allocator 0 5, manager_example) = None"
    using Update_sets_range [of manager_example "0x204000" 4 Attr_None KMemoryState_Free Perm_None
        Merge_None Merge_None 5] manager_example_inv
    by (simp add: mbm_range_def manager_example_def PageSize_def enters_after_first_def HasProperties_def
        BlockInitialize_def memory_state_values Let_def attr_defs GetEndAddress_def GetSize_def mul64_def add64_def)
  obtain al' m' where u: "Update 0x204000 20 KMemoryState_Code Perm_UserRead Attr_None Merge_None Merge_None
      (allocator 0 5, manager_example) = Some (al', m')"
    and r: "range_changed (props_update KMemoryState_Code Perm_UserRead Attr_None) 0x204000
      (0x204000 + 20 * PageSize) (allocator 0 5, manager_example) (al', m')"
    using Update_sets_range [of manager_example "0x204000" 20 Attr_None KMemoryState_Code Perm_UserRead
        Merge_None Merge_None 5] manager_example_inv
    by (auto simp: mbm_range_def manager_example_def PageSize_def enters_after_first_def HasProperties_def
        BlockInitialize_def memory_state_values Let_def attr_defs)
  have "map_option pp_state (page_view (m_memory_block_tree m') 0x217000) = Some KMemoryState_Code"
    "map_option pp_state (page_view (m_memory_block_tree m') 0x218000) = Some KMemoryState_Normal"
    by (simp_all add: range_changedD(4) [OF r] manager_example_def BlockInitialize_def bend_def PageSize_def
        props_update_def)
  with u n show ?thesis by blast
qed

text \<open>
  \<open>UpdateIfMatch\<close> changes exactly the pages of the range whose properties match the test;
  everything else is as for \<open>Update\<close>.
\<close>

theorem UpdateIfMatch_sets_matching:
  assumes "mbm_inv m" "mbm_range address num_pages m"
    and "attr AND (Attr_IpcLocked OR Attr_DeviceShared) = 0"
    and "enters_after_first address
      (\<lambda>b. HasProperties test_state test_perm test_attr b \<and> \<not> HasProperties state perm attr b) m"
  shows "\<exists>al' m'. UpdateIfMatch address num_pages test_state test_perm test_attr state perm attr set_attr clear_attr
      (allocator 0 slab, m) = Some (al', m') \<and>
    range_changed (\<lambda>q. if props_have test_state test_perm test_attr q then props_update state perm attr q else q)
      address (address + num_pages * PageSize) (allocator 0 slab, m) (al', m')"
proof -
  have "(\<lambda>q. if props_have test_state test_perm test_attr q \<and> \<not> props_have state perm attr q
      then props_update state perm attr q else q) =
    (\<lambda>q. if props_have test_state test_perm test_attr q then props_update state perm attr q else q)"
    using props_update_have [OF assms(3)] by auto
  with update_if_match_op.update_range_result [OF assms(1,2) enters_after_firstD [OF assms(1,4)],
      of set_attr clear_attr slab]
  show ?thesis unfolding UpdateIfMatch_def by (metis (no_types, lifting))
qed

theorem UpdateIfMatch_sets_matching_witness:
  "\<exists>al' m'. UpdateIfMatch 0x204000 60 KMemoryState_Free Perm_None Attr_None KMemoryState_Code Perm_UserRead
      Attr_None Merge_None Merge_None (allocator 0 5, manager_example) = Some (al', m') \<and>
    map_option pp_state (page_view (m_memory_block_tree m') 0x208000) = Some KMemoryState_Code \<and>
    map_option pp_state (page_view (m_memory_block_tree m') 0x212000) = Some KMemoryState_Normal"
proof -
  obtain al' m' where u: "UpdateIfMatch 0x204000 60 KMemoryState_Free Perm_None Attr_None KMemoryState_Code
      Perm_UserRead Attr_None Merge_None Merge_None (allocator 0 5, manager_example) = Some (al', m')"
    and r: "range_changed (\<lambda>q. if props_have KMemoryState_Free Perm_None Attr_None q
        then props_update KMemoryState_Code Perm_UserRead Attr_None q else q) 0x204000
      (0x204000 + 60 * PageSize) (allocator 0 5, manager_example) (al', m')"
    using UpdateIfMatch_sets_matching [of manager_example "0x204000" 60 Attr_None KMemoryState_Free Perm_None
        Attr_None KMemoryState_Code Perm_UserRead Merge_None Merge_None 5] manager_example_inv
    by (auto simp: mbm_range_def manager_example_def PageSize_def enters_after_first_def HasProperties_def
        BlockInitialize_def memory_state_values Let_def attr_defs memory_block_default_def)
  have "map_option pp_state (page_view (m_memory_block_tree m') 0x208000) = Some KMemoryState_Code"
    "map_option pp_state (page_view (m_memory_block_tree m') 0x212000) = Some KMemoryState_Normal"
    by (simp_all add: range_changedD(4) [OF r] manager_example_def BlockInitialize_def bend_def PageSize_def
        props_update_def props_have_def memory_state_values)
  with u show ?thesis by blast
qed

text \<open>
  \<open>UpdateAttribute\<close> replaces the masked bits of the attribute of every page of the range
  by the given ones and changes nothing else.
\<close>

theorem UpdateAttribute_sets_range:
  assumes "mbm_inv m" "mbm_range address num_pages m"
    and "enters_after_first address (\<lambda>b. m_attribute b AND msk \<noteq> attr) m"
  shows "\<exists>al' m'. UpdateAttribute address num_pages msk attr (allocator 0 slab, m) = Some (al', m') \<and>
    range_changed (props_attribute msk attr) address (address + num_pages * PageSize) (allocator 0 slab, m) (al', m')"
proof -
  have "(\<lambda>q. if pp_attribute q AND msk \<noteq> attr then props_attribute msk attr q else q) = props_attribute msk attr"
    by (intro ext) (auto simp: props_attribute_have)
  with update_attribute_op.update_range_result [OF assms(1,2) enters_after_firstD [OF assms(1,3)], of slab]
  show ?thesis unfolding UpdateAttribute_def by (metis (no_types, lifting))
qed

theorem UpdateAttribute_sets_range_witness:
  "\<exists>al' m'. UpdateAttribute 0x214000 4 Attr_Uncached Attr_Uncached (allocator 0 5, manager_example) = Some (al', m') \<and>
    map_option pp_attribute (page_view (m_memory_block_tree m') 0x215000) = Some 8 \<and>
    map_option pp_attribute (page_view (m_memory_block_tree m') 0x218000) = Some 0"
proof -
  obtain al' m' where u: "UpdateAttribute 0x214000 4 Attr_Uncached Attr_Uncached (allocator 0 5, manager_example)
      = Some (al', m')"
    and r: "range_changed (props_attribute Attr_Uncached Attr_Uncached) 0x214000
      (0x214000 + 4 * PageSize) (allocator 0 5, manager_example) (al', m')"
    using UpdateAttribute_sets_range [of manager_example "0x214000" 4 Attr_Uncached Attr_Uncached 5] manager_example_inv
    by (auto simp: mbm_range_def manager_example_def PageSize_def enters_after_first_def
        BlockInitialize_def attr_defs)
  have "map_option pp_attribute (page_view (m_memory_block_tree m') 0x215000) = Some 8"
    "map_option pp_attribute (page_view (m_memory_block_tree m') 0x218000) = Some 0"
    by (simp_all add: range_changedD(4) [OF r] manager_example_def BlockInitialize_def bend_def PageSize_def
        props_attribute_def attr_defs)
  with u show ?thesis by blast
qed

text \<open>
  C7.  Locking a range for IPC and unlocking it gives every page of the address space its properties
  back, provided the pages of the range are consistently locked and their 16-bit lock counts do not
  overflow; between the two calls exactly the pages of the range count one more lock.  Both calls are
  defined for every range of the address space.
\<close>

theorem UpdateLock_ipc_roundtrip:
  assumes "mbm_inv m" "mbm_range address num_pages m"
    and pages: "\<And>x q. page_view (m_memory_block_tree m) x = Some q \<Longrightarrow> address \<le> x \<Longrightarrow>
      x < address + num_pages * PageSize \<Longrightarrow> ipc_consistent q \<and> pp_ipc_lock_count q \<noteq> - 1"
  shows "\<exists>al1 m1 al2 m2. UpdateLock address num_pages LockForIpc perm (allocator 0 slab, m) = Some (al1, m1) \<and>
    UpdateLock address num_pages UnlockForIpc perm (allocator 0 slab', m1) = Some (al2, m2) \<and>
    mbm_inv m1 \<and> mbm_inv m2 \<and> page_view (m_memory_block_tree m2) = page_view (m_memory_block_tree m) \<and>
    (\<forall>x. map_option pp_ipc_lock_count (page_view (m_memory_block_tree m1) x) =
      map_option (\<lambda>q. pp_ipc_lock_count q + (if address \<le> x \<and> x < address + num_pages * PageSize then 1 else 0))
        (page_view (m_memory_block_tree m) x))"
proof -
  let ?hi = "address + num_pages * PageSize"
  obtain al1 m1 where l: "UpdateLock address num_pages LockForIpc perm (allocator 0 slab, m) = Some (al1, m1)"
    and r1: "range_changed (props_lock_ipc perm) address ?hi (allocator 0 slab, m) (al1, m1)"
    using lock_ipc.UpdateLock_result [OF assms(1,2), of perm slab] by blast
  note d1 = range_changedD [OF r1]
  have "mbm_range address num_pages m1" using assms(2) d1(2,3) by (simp add: mbm_range_def)
  then obtain al2 m2 where u: "UpdateLock address num_pages UnlockForIpc perm (allocator 0 slab', m1) = Some (al2, m2)"
    and r2: "range_changed props_unlock_ipc address ?hi (allocator 0 slab', m1) (al2, m2)"
    using unlock_ipc.UpdateLock_result [OF d1(1), of address num_pages perm slab'] by blast
  have "page_view (m_memory_block_tree m2) x = page_view (m_memory_block_tree m) x" for x
    using lock_ipc_consistent(2) pages [of x]
    by (cases "page_view (m_memory_block_tree m) x") (auto simp: range_changedD(4) [OF r2] d1(4))
  moreover have "map_option pp_ipc_lock_count (page_view (m_memory_block_tree m1) x) =
      map_option (\<lambda>q. pp_ipc_lock_count q + (if address \<le> x \<and> x < ?hi then 1 else 0))
        (page_view (m_memory_block_tree m) x)" for x
    using lock_ipc_consistent(3) pages [of x]
    by (cases "page_view (m_memory_block_tree m) x") (auto simp: d1(4))
  ultimately show ?thesis using l u d1(1) range_changedD(1) [OF r2] by blast
qed

lemma manager_example_pages:
  "page_view (m_memory_block_tree manager_example) x = Some q \<Longrightarrow>
     ipc_consistent q \<and> pp_ipc_lock_count q = 0 \<and> device_consistent q \<and> pp_device_use_count q = 0"
  by (auto simp: manager_example_def BlockInitialize_def ipc_consistent_def device_consistent_def attr_defs split: if_splits)

theorem UpdateLock_ipc_roundtrip_witness:
  "\<exists>al1 m1 al2 m2. UpdateLock 0x214000 20 LockForIpc Perm_UserRead (allocator 0 5, manager_example) = Some (al1, m1) \<and>
    UpdateLock 0x214000 20 UnlockForIpc Perm_UserRead (allocator 0 5, m1) = Some (al2, m2) \<and>
    page_view (m_memory_block_tree m2) = page_view (m_memory_block_tree manager_example) \<and>
    map_option pp_ipc_lock_count (page_view (m_memory_block_tree m1) 0x217000) = Some 1"
proof -
  have "mbm_range 0x214000 20 manager_example" by (simp add: mbm_range_def manager_example_def PageSize_def)
  from UpdateLock_ipc_roundtrip [OF manager_example_inv this, of Perm_UserRead 5 5] manager_example_pages
  obtain al1 m1 al2 m2 where
    r: "UpdateLock 0x214000 20 LockForIpc Perm_UserRead (allocator 0 5, manager_example) = Some (al1, m1)"
      "UpdateLock 0x214000 20 UnlockForIpc Perm_UserRead (allocator 0 5, m1) = Some (al2, m2)"
      "page_view (m_memory_block_tree m2) = page_view (m_memory_block_tree manager_example)"
      "\<forall>x. map_option pp_ipc_lock_count (page_view (m_memory_block_tree m1) x) =
        map_option (\<lambda>q. pp_ipc_lock_count q + (if 0x214000 \<le> x \<and> x < 0x214000 + 20 * PageSize then 1 else 0))
          (page_view (m_memory_block_tree manager_example) x)"
    by (auto 0 3)
  have "map_option pp_ipc_lock_count (page_view (m_memory_block_tree m1) 0x217000) = Some 1"
    unfolding r(4) [rule_format] by (simp add: manager_example_def BlockInitialize_def bend_def PageSize_def)
  with r show ?thesis by blast
qed

text \<open>
  The state that the audit checks survives every update: if no two neighbours can be merged and
  every block marked as IPC-locked or device-shared has a count, then after \<open>Update\<close> the same
  holds, and \<open>CheckState\<close> returns true.
\<close>

theorem Update_keeps_audited_state:
  assumes inv: "mbm_inv m" "mbm_range address num_pages m"
    and attr: "attr AND (Attr_IpcLocked OR Attr_DeviceShared) = 0"
    and "enters_after_first address (\<lambda>b. \<not> HasProperties state perm attr b) m"
    and "coalesced (m_memory_block_tree m)" "all_counted (m_memory_block_tree m)"
    and "Update address num_pages state perm attr set_attr clear_attr (allocator 0 slab, m) = Some (al', m')"
  shows "coalesced (m_memory_block_tree m') \<and> all_counted (m_memory_block_tree m') \<and> CheckState m' = Some True"
proof -
  have "(\<lambda>q. if props_have state perm attr q then q else props_update state perm attr q) = props_update state perm attr"
    using props_update_have [OF attr] by auto
  with update_op.update_range_result [OF inv enters_after_firstD [OF inv(1) assms(4)], of address set_attr clear_attr slab]
    assms(7)
  have "range_changed (props_update state perm attr) address (address + num_pages * PageSize) (allocator 0 slab, m) (al', m')"
    unfolding Update_def by auto
  from range_changed_audit [OF this inv(1) assms(5,6)] props_update_counted [OF attr] show ?thesis by blast
qed

theorem Update_keeps_audited_state_witness:
  "\<exists>al' m'. Update 0x200000 16 KMemoryState_Normal Perm_UserReadWrite Attr_None Merge_None Merge_None
      (allocator 0 5, manager_example) = Some (al', m') \<and> CheckState m' = Some True"
proof -
  let ?m = manager_example
  have h: "mbm_range 0x200000 16 ?m" "enters_after_first 0x200000 (\<lambda>b. \<not> HasProperties KMemoryState_Normal Perm_UserReadWrite Attr_None b) ?m"
    "coalesced (m_memory_block_tree ?m)" "all_counted (m_memory_block_tree ?m)" "Attr_None AND (Attr_IpcLocked OR Attr_DeviceShared) = 0"
    by (simp_all add: mbm_range_def manager_example_def PageSize_def enters_after_first_def all_counted_def
        CheckState_block_def BlockInitialize_def attr_defs CanMergeWith_def HasSameProperties_def memory_state_values)
  obtain al' m' where u: "Update 0x200000 16 KMemoryState_Normal Perm_UserReadWrite Attr_None Merge_None Merge_None
      (allocator 0 5, ?m) = Some (al', m')"
    unfolding Update_def
    using update_op.update_range_result [OF manager_example_inv h(1) enters_after_firstD [OF manager_example_inv h(2)]] by blast
  from Update_keeps_audited_state [OF manager_example_inv h(1,5,2,3,4) u] u show ?thesis by blast
qed

text \<open>A block marked as locked for IPC without a count, which the audit is meant to find.\<close>

definition uncounted :: "memory_block \<Rightarrow> memory_block" where
  "uncounted b = b\<lparr>m_attribute := m_attribute b OR Attr_IpcLocked, m_ipc_lock_count := 0\<rparr>"

lemma uncounted_fails: "\<not> CheckState_block (uncounted b)"
proof -
  have "(m_attribute b OR Attr_IpcLocked) AND Attr_IpcLocked = Attr_IpcLocked" by (rule bit_eqI) (auto simp: bit_and_iff bit_or_iff)
  then show ?thesis by (simp add: CheckState_block_def uncounted_def) (simp add: attr_defs)
qed

lemma uncounted_merges: "CheckState_block c \<Longrightarrow> \<not> CanMergeWith (uncounted b) c"
  using uncounted_fails [of b] by (auto simp: CanMergeWith_def CheckState_block_def HasSameProperties_def)

lemma chain_uncounted: "chain a (bs[i := uncounted (bs ! i)]) e = chain a bs e" if "i < length bs" for a bs i e
  using that
proof (induction bs arbitrary: a i)
  case (Cons b bs)
  then show ?case by (cases i) (auto simp: uncounted_def bend_def)
qed simp

text \<open>
  C8.  \<open>CheckState\<close> does not look at the counts of the first of several blocks: the comment before
  its final check says that the loop may miss the last block, but the loop has checked that one.
  Whatever the blocks of an address space that passes the audit, marking the first of them as locked
  for IPC without a count leaves the audit passed, and marking any other block makes it fail.
\<close>

theorem CheckState_overlooks_first_block:
  assumes "mbm_inv m" "CheckState m = Some True" "1 < length (m_memory_block_tree m)" "i < length (m_memory_block_tree m)"
  shows "CheckState (m\<lparr>m_memory_block_tree := (m_memory_block_tree m)[i := uncounted (m_memory_block_tree m ! i)]\<rparr>) = Some (i = 0)"
proof -
  obtain b c bs where t: "m_memory_block_tree m = b # c # bs" using assms(3) by (cases "m_memory_block_tree m" rule: remdups_adj.cases) auto
  have e: "m_end_address m < 2 ^ 64" and ch: "chain (m_start_address m) (b # c # bs) (m_end_address m)" using assms(1) t by (simp_all add: mbm_inv_def)
  have ok: "coalesced (b # c # bs)" "\<forall>x\<in>set (c # bs). CheckState_block x"
    using assms(2) t CheckState_loop_iff [OF ch e] by (simp_all add: CheckState_def)
  have ch': "chain (m_start_address m) ((b # c # bs)[i := uncounted ((b # c # bs) ! i)]) (m_end_address m)"
    using ch chain_uncounted [of i "b # c # bs"] assms(4) t by simp
  show ?thesis
  proof (cases i)
    case 0
    then have "chain (m_start_address m) (uncounted b # c # bs) (m_end_address m)" using ch' by simp
    from CheckState_loop_iff [OF this e] 0 ok uncounted_merges [of c b] show ?thesis by (simp add: CheckState_def t)
  next
    case (Suc j)
    then have "chain (m_start_address m) (b # (c # bs)[j := uncounted ((c # bs) ! j)]) (m_end_address m)" using ch' by simp
    from CheckState_loop_iff [OF this e] have "\<not> CheckState_loop b ((c # bs)[j := uncounted ((c # bs) ! j)])"
      using set_update_memI [of j "c # bs" "uncounted ((c # bs) ! j)"] uncounted_fails assms(4) t Suc by fastforce
    then show ?thesis using Suc by (simp add: CheckState_def t)
  qed
qed

theorem CheckState_overlooks_first_block_witness:
  "CheckState (manager_example\<lparr>m_memory_block_tree := (m_memory_block_tree manager_example)[0 := uncounted (m_memory_block_tree manager_example ! 0)]\<rparr>) = Some True \<and>
   CheckState (manager_example\<lparr>m_memory_block_tree := (m_memory_block_tree manager_example)[2 := uncounted (m_memory_block_tree manager_example ! 2)]\<rparr>) = Some False"
proof -
  have "CheckState manager_example = Some True"
    by (simp add: manager_example_def CheckState_def CheckState_block_def BlockInitialize_def CanMergeWith_def HasSameProperties_def
        memory_state_values GetEndAddress_def GetSize_def mul64_def add64_def PageSize_def attr_defs)
  moreover have "length (m_memory_block_tree manager_example) = 3" by (simp add: manager_example_def)
  ultimately show ?thesis
    using CheckState_overlooks_first_block [OF manager_example_inv, of 0] CheckState_overlooks_first_block [OF manager_example_inv, of 2] by simp
qed

text \<open>
  C9.  An area that \<open>FindFreeArea\<close> returns is free: with sizes, offset and alignment that stay
  below the 64-bit range, all its pages, and the guard pages before and after it, lie in the region
  and in one block in state \<open>Free\<close>, and its start is the offset plus a multiple of the alignment.
\<close>

theorem FindFreeArea_is_free:
  assumes inv: "mbm_inv m" and al: "0 < alignment"
    and small: "m_end_address m + offset + alignment + (num_pages + 2 * guard_pages) * PageSize < 2 ^ 64"
    and region: "region_start + region_num_pages * PageSize < 2 ^ 64" "0 < region_num_pages"
    and r: "FindFreeArea region_start region_num_pages num_pages alignment offset guard_pages m = r" "r \<noteq> 0"
  shows "offset \<le> r \<and> alignment dvd r - offset \<and> region_start + guard_pages * PageSize \<le> r \<and>
    r + (num_pages + guard_pages) * PageSize \<le> region_start + region_num_pages * PageSize \<and>
    (\<forall>x. r - guard_pages * PageSize \<le> x \<and> x < r + (num_pages + guard_pages) * PageSize \<longrightarrow>
      map_option pp_state (page_view (m_memory_block_tree m) x) = Some KMemoryState_Free)"
proof -
  let ?t = "m_memory_block_tree m" and ?rl = "region_start + region_num_pages * PageSize - 1"
  have n: "0 < num_pages" using r by (auto simp: FindFreeArea_def split: if_splits)
  have "0 < region_num_pages * PageSize" using region(2) by simp
  then have "sub64 (region_start + region_num_pages * PageSize) 1 = ?rl"
    using region(1) by (intro sub64_exact) linarith+
  with \<open>0 < region_num_pages * PageSize\<close> region(1)
  have rl: "sub64 (add64 region_start (mul64 region_num_pages PageSize)) 1 = ?rl" "?rl + 1 = region_start + region_num_pages * PageSize"
    by (simp_all add: mul64_exact add64_exact)
  obtain info where info: "info \<in> set (snd (FindIterator region_start ?t))"
      "FindFreeArea_block region_start ?rl num_pages alignment offset guard_pages info = Some r"
    using FindFreeArea_loop_found r n unfolding FindFreeArea_def rl(1) Let_def by (metis (no_types, lifting))
  note ch = mbm_inv_chain [OF inv]
  have e: "m_end_address m < 2 ^ 64" using inv by (simp add: mbm_inv_def)
  from info(1) obtain pre b suf where fi: "FindIterator region_start ?t = (pre, b # suf)"
    by (cases "FindIterator region_start ?t"; cases "snd (FindIterator region_start ?t)") auto
  note ff = FindIterator_found [OF this ch e]
  have it: "info \<in> set ?t" using info(1) fi ff(1) by auto
  have rs: "region_start < m_end_address m" using ff(3) chain_in(2) [OF ch, of b] ff(1) by simp
  from FindFreeArea_block_fits [OF info(2) chain_in(2,3) [OF ch it] rs small al n] rl(2)
  have f: "m_memory_state info = KMemoryState_Free" "offset \<le> r" "alignment dvd r - offset"
    "max region_start (m_address info) + guard_pages * PageSize \<le> r"
    "r + (num_pages + guard_pages) * PageSize \<le> bend info"
    "r + (num_pages + guard_pages) * PageSize \<le> region_start + region_num_pages * PageSize" by auto
  have "map_option pp_state (page_view ?t x) = Some KMemoryState_Free"
    if "r - guard_pages * PageSize \<le> x" "x < r + (num_pages + guard_pages) * PageSize" for x
    using page_view_in [OF ch it, of x] that f by auto
  with f show ?thesis by auto
qed

theorem FindFreeArea_is_free_witness:
  "FindFreeArea 0x200000 64 10 0x10000 0 1 manager_example = 0x230000 \<and>
   map_option pp_state (page_view (m_memory_block_tree manager_example) 0x22F000) = Some KMemoryState_Free \<and>
   map_option pp_state (page_view (m_memory_block_tree manager_example) 0x23AFFF) = Some KMemoryState_Free"
proof -
  let ?b = "\<lambda>a n s p. BlockInitialize a n s p Attr_None memory_block_default"
  have ch: "chain 0x200000 (m_memory_block_tree manager_example) 0x240000"
    using mbm_inv_chain [OF manager_example_inv] by (simp add: manager_example_def)
  have f: "FindIterator 0x200000 (m_memory_block_tree manager_example) = ([], m_memory_block_tree manager_example)"
    using FindIterator_at [of "0x200000" "[]" "hd (m_memory_block_tree manager_example)"
        "tl (m_memory_block_tree manager_example)" "0x240000" "0x200000"] ch
    by (simp add: manager_example_def BlockInitialize_def bend_def PageSize_def)
  have e: "sub64 (add64 0x200000 (mul64 64 PageSize)) 1 = 0x23FFFF"
    by (simp add: add64_def mul64_def sub64_def PageSize_def)
  note defs = FindFreeArea_block_def GetLastAddress_def GetEndAddress_def GetSize_def BlockInitialize_def
    memory_state_values PageSize_def AlignDown_def add64_def mul64_def sub64_def
  have b1: "FindFreeArea_block 0x200000 0x23FFFF 10 0x10000 0 1 (?b 0x200000 16 KMemoryState_Free Perm_None) = None"
    by (simp add: defs cong: let_weak_cong)
  have b2: "FindFreeArea_block 0x200000 0x23FFFF 10 0x10000 0 1 (?b 0x210000 16 KMemoryState_Normal Perm_UserReadWrite) = None"
    by (simp add: defs cong: let_weak_cong)
  have b3: "FindFreeArea_block 0x200000 0x23FFFF 10 0x10000 0 1 (?b 0x220000 32 KMemoryState_Free Perm_None) = Some 0x230000"
    by (simp add: defs cong: let_weak_cong)
  have a: "m_address (?b x n st p) = x" for x n st p by (simp add: BlockInitialize_def)
  have r: "FindFreeArea 0x200000 64 10 0x10000 0 1 manager_example = 0x230000"
    unfolding FindFreeArea_def Let_def e f snd_conv by (simp add: manager_example_def a b1 [simplified] b2 [simplified] b3 [simplified])
  have h: "m_end_address manager_example = 0x240000" by (simp add: manager_example_def)
  from FindFreeArea_is_free [OF manager_example_inv _ _ _ _ r] r show ?thesis
    by (simp add: h PageSize_def del: page_view_Cons)
qed

text \<open>
  \<open>FindBlock\<close> returns the block that holds the address, whose fields are the properties of
  the page, for every address of the address space, and a null pointer for every other address.
\<close>

theorem FindBlock_finds:
  assumes "mbm_inv m"
  shows "(case FindBlock x m of
      None \<Rightarrow> \<not> (m_start_address m \<le> x \<and> x < m_end_address m)
    | Some b \<Rightarrow> b \<in> set (m_memory_block_tree m) \<and> m_address b \<le> x \<and> x \<le> GetLastAddress b \<and>
        page_view (m_memory_block_tree m) x = Some (props b))"
proof -
  let ?t = "m_memory_block_tree m"
  note ch = mbm_inv_chain [OF assms]
  have e: "m_end_address m < 2 ^ 64" using assms by (simp add: mbm_inv_def)
  show ?thesis
  proof (cases "snd (FindIterator x ?t)")
    case Nil
    have False if "m_start_address m \<le> x" "x < m_end_address m"
      using chain_find [OF ch that] FindIterator_at [OF _ e, of "m_start_address m" _ _ _ x] ch Nil by fastforce
    with Nil show ?thesis by (auto simp: FindBlock_def)
  next
    case (Cons b suf)
    then obtain pre where "FindIterator x ?t = (pre, b # suf)" by (cases "FindIterator x ?t") auto
    note f = FindIterator_found [OF this ch e]
    then have b: "b \<in> set ?t" by simp
    have "GetLastAddress b = bend b - 1"
      using block_exact(3) chain_in(2,3) [OF ch b] e by simp
    with f b Cons page_view_in [OF ch b f(2,3)] show ?thesis by (auto simp: FindBlock_def)
  qed
qed

theorem FindBlock_finds_witness:
  "case FindBlock 0x212345 manager_example of None \<Rightarrow> False | Some b \<Rightarrow> m_address b \<le> 0x212345 \<and> 0x212345 \<le> GetLastAddress b"
  using FindBlock_finds [OF manager_example_inv, of "0x212345"]
  by (auto simp: manager_example_def split: option.splits)

lemma ManagerFinalize_loop_eq:
  "ManagerFinalize_loop bs slab = (map (\<lambda>b. (m_address b, GetSize b)) bs, slab + length bs)"
  by (induction bs arbitrary: slab) auto

fun callbacks_cover :: "nat \<Rightarrow> (nat \<times> nat) list \<Rightarrow> nat \<Rightarrow> bool" where
  "callbacks_cover a [] e \<longleftrightarrow> a = e"
| "callbacks_cover a ((p, n) # cs) e \<longleftrightarrow> p = a \<and> 0 < n \<and> callbacks_cover (a + n) cs e"

lemma chain_callbacks:
  "chain a bs e \<Longrightarrow> e < 2 ^ 64 \<Longrightarrow> callbacks_cover a (map (\<lambda>b. (m_address b, GetSize b)) bs) e"
proof (induction bs arbitrary: a)
  case (Cons b bs)
  then have "bend b < 2 ^ 64" using chain_le [of "bend b" bs e] by simp
  then have "GetSize b = m_num_pages b * PageSize" by (rule block_exact)
  moreover have "bend b = a + m_num_pages b * PageSize" using Cons.prems by (simp add: bend_def)
  ultimately show ?case using Cons by simp
qed simp

text \<open>
  \<open>Initialize\<close> makes one free block of the whole address space, and takes one block from
  the slab manager or fails without one.  \<open>Finalize\<close> reports every block once, in address order,
  each starting where the one before it ends, gives each back to the slab manager and leaves the tree empty.
\<close>

theorem Initialize_Finalize_lifecycle:
  assumes "PageSize dvd st" "PageSize dvd nd" "st < nd" "nd < 2 ^ 64"
  shows "(slab = 0 \<longrightarrow> ManagerInitialize st nd slab memory_block_manager_default =
      (ResultOutOfResource, 0, memory_block_manager_default)) \<and>
    (0 < slab \<longrightarrow> (\<exists>m. ManagerInitialize st nd slab memory_block_manager_default = (ResultSuccess, slab - 1, m) \<and>
      mbm_inv m \<and> m_start_address m = st \<and> m_end_address m = nd \<and> CheckState m = Some True \<and>
      (\<forall>x. st \<le> x \<and> x < nd \<longrightarrow>
        map_option pp_state (page_view (m_memory_block_tree m) x) = Some KMemoryState_Free))) \<and>
    (\<forall>m. mbm_inv m \<longrightarrow> (case ManagerFinalize slab m of (calls, slab', m') \<Rightarrow>
      callbacks_cover (m_start_address m) calls (m_end_address m) \<and>
      slab' = slab + length (m_memory_block_tree m) \<and> m_memory_block_tree m' = []))"
proof (intro conjI impI allI)
  show "ManagerInitialize st nd slab memory_block_manager_default = (ResultOutOfResource, 0, memory_block_manager_default)"
    if "slab = 0" using that by (simp add: ManagerInitialize_def)
next
  let ?b = "BlockInitialize st (sub64 nd st div PageSize) KMemoryState_Free Perm_None Attr_None memory_block_default"
  let ?m = "\<lparr>m_memory_block_tree = [?b], m_start_address = st, m_end_address = nd\<rparr>"
  have "sub64 nd st = nd - st" using assms by (simp add: sub64_exact)
  moreover have "PageSize dvd nd - st" using assms by simp
  moreover from this assms(3) have "0 < (nd - st) div PageSize" by (metis dvd_div_eq_0_iff gr0I zero_less_diff less_irrefl)
  ultimately have b: "bend ?b = nd" "m_address ?b = st" "0 < m_num_pages ?b"
    using assms by (simp_all add: bend_def BlockInitialize_def)
  assume "0 < slab"
  then have "ManagerInitialize st nd slab memory_block_manager_default = (ResultSuccess, slab - 1, ?m)"
    by (simp add: ManagerInitialize_def memory_block_manager_default_def Let_def)
  moreover have "mbm_inv ?m" using assms b by (simp add: mbm_inv_def)
  moreover have "CheckState ?m = Some True"
    by (simp add: CheckState_def CheckState_block_def BlockInitialize_def Attr_None_def)
  moreover have "map_option pp_state (page_view [?b] x) = Some KMemoryState_Free" if "st \<le> x \<and> x < nd" for x
    using that b by (simp add: BlockInitialize_def)
  ultimately show "\<exists>m. ManagerInitialize st nd slab memory_block_manager_default = (ResultSuccess, slab - 1, m) \<and>
      mbm_inv m \<and> m_start_address m = st \<and> m_end_address m = nd \<and> CheckState m = Some True \<and>
      (\<forall>x. st \<le> x \<and> x < nd \<longrightarrow>
        map_option pp_state (page_view (m_memory_block_tree m) x) = Some KMemoryState_Free)"
    by (intro exI [of _ ?m]) (simp del: page_view_Cons)
next
  fix m assume "mbm_inv m"
  then show "case ManagerFinalize slab m of (calls, slab', m') \<Rightarrow>
      callbacks_cover (m_start_address m) calls (m_end_address m) \<and>
      slab' = slab + length (m_memory_block_tree m) \<and> m_memory_block_tree m' = []"
    using chain_callbacks [OF mbm_inv_chain] by (simp add: ManagerFinalize_def ManagerFinalize_loop_eq mbm_inv_def)
qed

theorem Initialize_Finalize_lifecycle_witness:
  "\<exists>m. ManagerInitialize 0x200000 0x240000 7 memory_block_manager_default = (ResultSuccess, 6, m) \<and> mbm_inv m \<and>
    map_option pp_state (page_view (m_memory_block_tree m) 0x23FFFF) = Some KMemoryState_Free"
  using Initialize_Finalize_lifecycle [of "0x200000" "0x240000" 7] by (auto simp: PageSize_def)

end
