(* ===== verification/KPageBitmap.thy ===== *)
theory KPageBitmap
  imports Prelude
begin

text \<open>
  \<^verbatim>\<open>src/core/hle/kernel/k_page_bitmap.h\<close>, with the generator of
  \<^verbatim>\<open>src/common/tiny_mt.h\<close> that it draws from: a set of free blocks as a hierarchy of
  bitmaps.  Every level is an array of 64-bit words; a bit of one level says whether the word of the next
  level with that number has any bit set, and the bits of the last level are the set.

  The pointers into the management storage are kept as the words of each level, from
  \<open>m_bit_storages[depth]\<close> up to \<open>m_end_storages[depth]\<close>; access outside of a level is
  undefined.  \<open>asserted\<close> records whether every \<open>ASSERT\<close> so far has held.
\<close>

section \<open>TinyMT\<close>

definition ParamMat1 :: u32 where "ParamMat1 = 0x8F7011EE"
definition ParamMat2 :: u32 where "ParamMat2 = 0xFC78FF1F"
definition ParamTmat :: u32 where "ParamTmat = 0x3793FDFF"
definition ParamMult :: u32 where "ParamMult = 0x6C078965"
definition ParamPlus :: u32 where "ParamPlus = 0x0019660D"
definition ParamXor :: u32 where "ParamXor = 0x5D588B65"
definition TopBitmask :: u32 where "TopBitmask = 0x7FFFFFFF"
definition MinimumInitIterations :: nat where "MinimumInitIterations = 8"
definition NumDiscardedInitOutputs :: nat where "NumDiscardedInitOutputs = 8"
definition NumStateWords :: nat where "NumStateWords = 4"

text \<open>The four words of the state.\<close>

type_synonym tiny_mt = "u32 list"

definition XorByShifted27 :: "u32 \<Rightarrow> u32" where
  "XorByShifted27 v = v XOR drop_bit 27 v"

definition XorByShifted30 :: "u32 \<Rightarrow> u32" where
  "XorByShifted30 v = v XOR drop_bit 30 v"

definition GenerateRandomU32 :: "tiny_mt \<Rightarrow> u32 \<times> tiny_mt" where
  "GenerateRandomU32 d =
     (let x0 = (d ! 0 AND TopBitmask) XOR d ! 1 XOR d ! 2;
          y0 = d ! 3;
          x1 = x0 XOR push_bit 1 x0;
          y1 = y0 XOR drop_bit 1 y0 XOR x1;
          odd_y = (y1 AND 1 \<noteq> 0);
          state0 = d ! 1;
          state1 = (if odd_y then d ! 2 XOR ParamMat1 else d ! 2);
          state2 = (if odd_y then x1 XOR push_bit 10 y1 XOR ParamMat2 else x1 XOR push_bit 10 y1);
          state3 = y1;
          t1 = state0 + drop_bit 8 state2;
          t0 = state3 XOR t1
      in (if t1 AND 1 \<noteq> 0 then t0 XOR ParamTmat else t0, [state0, state1, state2, state3]))"

definition FinalizeInitialization :: "tiny_mt \<Rightarrow> tiny_mt" where
  "FinalizeInitialization d =
     (let d' = (if d ! 0 AND TopBitmask = 0 \<and> d ! 1 = 0 \<and> d ! 2 = 0 \<and> d ! 3 = 0
                then [0x54, 0x49, 0x4E, 0x59] else d)
      in ((\<lambda>s. snd (GenerateRandomU32 s)) ^^ NumDiscardedInitOutputs) d')"

primrec Initialize_seed_loop :: "nat list \<Rightarrow> tiny_mt \<Rightarrow> tiny_mt" where
  "Initialize_seed_loop [] d = d"
| "Initialize_seed_loop (i # is) d =
     (let mixed = XorByShifted30 (d ! ((i - 1) mod NumStateWords)); j = i mod NumStateWords
      in Initialize_seed_loop is (d[j := d ! j XOR (mixed * ParamMult + of_nat i)]))"

definition Initialize_seed :: "u32 \<Rightarrow> tiny_mt" where
  "Initialize_seed seed = FinalizeInitialization
     (Initialize_seed_loop [1..<MinimumInitIterations] [seed, ParamMat1, ParamMat2, ParamTmat])"

definition GenerateInitialValuePlus :: "nat \<Rightarrow> u32 \<Rightarrow> tiny_mt \<Rightarrow> tiny_mt" where
  "GenerateInitialValuePlus index v d =
     (let i0 = (index + 0) mod NumStateWords; i1 = (index + 1) mod NumStateWords;
          i2 = (index + 2) mod NumStateWords; i3 = (index + 3) mod NumStateWords;
          x = XorByShifted27 (d ! i0 XOR d ! i1 XOR d ! i3) * ParamPlus;
          y = x + of_nat index + v
      in d[i0 := y, i1 := d ! i1 + x, i2 := d ! i2 + y])"

definition GenerateInitialValueXor :: "nat \<Rightarrow> tiny_mt \<Rightarrow> tiny_mt" where
  "GenerateInitialValueXor index d =
     (let i0 = (index + 0) mod NumStateWords; i1 = (index + 1) mod NumStateWords;
          i2 = (index + 2) mod NumStateWords; i3 = (index + 3) mod NumStateWords;
          x = XorByShifted27 (d ! i0 + d ! i1 + d ! i3) * ParamXor;
          y = x - of_nat index
      in d[i0 := y, i1 := d ! i1 XOR x, i2 := d ! i2 XOR y])"

definition Initialize_seeds :: "u32 list \<Rightarrow> tiny_mt" where
  "Initialize_seeds seed =
     (let num_init_iterations = max (length seed + 1) MinimumInitIterations - 1;
          d1 = GenerateInitialValuePlus 0 (of_nat (length seed)) [0, ParamMat1, ParamMat2, ParamTmat];
          d2 = fold (\<lambda>i. GenerateInitialValuePlus ((i + 1) mod NumStateWords) (if i < length seed then seed ! i else 0))
                 [0..<num_init_iterations] d1;
          d3 = fold (\<lambda>i. GenerateInitialValueXor ((i + 1 + num_init_iterations) mod NumStateWords)) [0..<NumStateWords] d2
      in FinalizeInitialization d3)"

section \<open>RandomBitGenerator\<close>

record random_bit_generator =
  m_rng :: tiny_mt
  m_entropy :: u32
  m_bits_available :: nat

text \<open>The constructor, given the random word that it seeds the generator with.\<close>

definition RandomBitGenerator :: "u32 \<Rightarrow> random_bit_generator" where
  "RandomBitGenerator seed = \<lparr>m_rng = Initialize_seed seed, m_entropy = 0, m_bits_available = 0\<rparr>"

definition RefreshEntropy :: "random_bit_generator \<Rightarrow> random_bit_generator" where
  "RefreshEntropy g =
     (let (e, r) = GenerateRandomU32 (m_rng g) in \<lparr>m_rng = r, m_entropy = e, m_bits_available = 32\<rparr>)"

definition refreshed :: "random_bit_generator \<Rightarrow> random_bit_generator" where
  "refreshed g = (if m_bits_available g = 0 then RefreshEntropy g else g)"

definition GenerateRandomBit :: "random_bit_generator \<Rightarrow> bool \<times> random_bit_generator" where
  "GenerateRandomBit g0 =
     (let g = refreshed g0
      in (m_entropy g AND 1 \<noteq> 0, g\<lparr>m_entropy := drop_bit 1 (m_entropy g), m_bits_available := m_bits_available g - 1\<rparr>))"

lemma refreshed_available: "0 < m_bits_available (refreshed g)"
  by (simp add: refreshed_def RefreshEntropy_def split_def Let_def)

text \<open>Shifting the entropy, which has 32 bits, by 32 is undefined.\<close>

function GenerateRandomBits_loop :: "nat \<Rightarrow> u64 \<Rightarrow> random_bit_generator \<Rightarrow> (u64 \<times> random_bit_generator) option" where
  "GenerateRandomBits_loop num_bits result g0 =
     (if num_bits = 0 then Some (result, g0)
      else let g = refreshed g0;
               cur_bits = min num_bits (m_bits_available g);
               low_mask = (push_bit cur_bits 1 - 1 :: u64);
               result' = push_bit cur_bits result OR (ucast (m_entropy g) AND low_mask)
           in if cur_bits \<ge> 32 then None
              else GenerateRandomBits_loop (num_bits - cur_bits) result'
                (g\<lparr>m_entropy := drop_bit cur_bits (m_entropy g), m_bits_available := m_bits_available g - cur_bits\<rparr>))"
  by pat_completeness auto
termination
  by (relation "measure (\<lambda>(n, _, _). n)") (use refreshed_available in auto)

declare GenerateRandomBits_loop.simps [simp del]

definition GenerateRandomBits :: "nat \<Rightarrow> random_bit_generator \<Rightarrow> (u64 \<times> random_bit_generator) option" where
  "GenerateRandomBits num_bits g = GenerateRandomBits_loop num_bits 0 g"

definition countl_zero :: "u64 \<Rightarrow> nat" where
  "countl_zero v = length (takeWhile (\<lambda>i. \<not> bit v (63 - i)) [0..<64])"

definition GenerateRandom :: "u64 \<Rightarrow> random_bit_generator \<Rightarrow> (u64 \<times> random_bit_generator) option" where
  "GenerateRandom mx g = do {
     let bits_needed = 1 + (64 - countl_zero mx);
     (rnd, g') \<leftarrow> GenerateRandomBits bits_needed g;
     if mx = 0 then None else Some (rnd - (rnd div mx) * mx, g')
   }"

function SelectRandomBit_loop :: "nat \<Rightarrow> u64 \<Rightarrow> nat \<Rightarrow> random_bit_generator \<Rightarrow> nat \<times> random_bit_generator" where
  "SelectRandomBit_loop cur_num_bits bitmap selected g =
     (if cur_num_bits = 0 then (selected, g)
      else let high = drop_bit cur_num_bits bitmap;
               low = bitmap AND NOT (push_bit cur_num_bits 0xFFFFFFFFFFFFFFFF);
               (choose_high, g') = (if high = 0 then (False, g) else if low = 0 then (True, g) else GenerateRandomBit g)
           in if choose_high then SelectRandomBit_loop (cur_num_bits div 2) high (selected + cur_num_bits) g'
              else SelectRandomBit_loop (cur_num_bits div 2) low selected g')"
  by pat_completeness auto
termination by (relation "measure (\<lambda>(n, _, _, _). n)") auto

declare SelectRandomBit_loop.simps [simp del]

definition SelectRandomBit :: "u64 \<Rightarrow> random_bit_generator \<Rightarrow> nat \<times> random_bit_generator" where
  "SelectRandomBit bitmap g = SelectRandomBit_loop 32 bitmap 0 g"

section \<open>The bitmap\<close>

definition MaxDepth :: nat where "MaxDepth = 4"

record k_page_bitmap =
  m_bit_storages :: "u64 list list"
  m_gen :: random_bit_generator
  m_num_bits :: nat
  m_used_depths :: nat
  asserted :: bool

definition k_page_bitmap_default :: "random_bit_generator \<Rightarrow> k_page_bitmap" where
  "k_page_bitmap_default g = \<lparr>m_bit_storages = [], m_gen = g, m_num_bits = 0, m_used_depths = 0, asserted = True\<rparr>"

definition AlignUp :: "nat \<Rightarrow> nat \<Rightarrow> nat" where
  "AlignUp v n = (if v mod n = 0 then v - v mod n else add64 (v - v mod n) n)"

text \<open>The number of words that hold \<open>n\<close> bits.\<close>

definition words_for :: "nat \<Rightarrow> nat" where
  "words_for n = AlignUp n 64 div 64"

fun GetRequiredDepth :: "nat \<Rightarrow> nat" where
  "GetRequiredDepth region_size = (if region_size div 64 = 0 then 1 else 1 + GetRequiredDepth (region_size div 64))"

declare GetRequiredDepth.simps [simp del]

primrec overhead_words :: "nat \<Rightarrow> nat \<Rightarrow> nat" where
  "overhead_words 0 region_size = 0"
| "overhead_words (Suc depth) region_size = words_for region_size + overhead_words depth (words_for region_size)"

definition CalculateManagementOverheadSize :: "nat \<Rightarrow> nat" where
  "CalculateManagementOverheadSize region_size = overhead_words (GetRequiredDepth region_size) region_size * 8"

text \<open>The levels carved from the front of the storage, the last level first, and the storage left.\<close>

primrec carve :: "nat \<Rightarrow> nat \<Rightarrow> u64 list \<Rightarrow> (u64 list list \<times> u64 list) option" where
  "carve 0 sz storage = Some ([], storage)"
| "carve (Suc depth) sz storage =
     (if length storage < words_for sz then None
      else map_option (map_prod (\<lambda>ls. ls @ [take (words_for sz) storage]) id)
        (carve depth (words_for sz) (drop (words_for sz) storage)))"

definition Initialize_bitmap :: "u64 list \<Rightarrow> nat \<Rightarrow> k_page_bitmap \<Rightarrow> (u64 list \<times> k_page_bitmap) option" where
  "Initialize_bitmap storage sz b =
     (let depths = GetRequiredDepth sz in
      if depths > MaxDepth then None
      else map_option (\<lambda>(ls, rest). (rest, b\<lparr>m_bit_storages := ls, m_num_bits := 0, m_used_depths := depths\<rparr>))
        (carve depths sz storage))"

text \<open>
  Walking down from the first level; the levels that are left, the depth, and the offset.  A word
  without a bit below the first level would contradict the level above.
\<close>

primrec FindFreeBlock_loop ::
  "u64 list list \<Rightarrow> bool \<Rightarrow> nat \<Rightarrow> nat \<Rightarrow> k_page_bitmap \<Rightarrow> (int \<times> k_page_bitmap) option" where
  "FindFreeBlock_loop [] random depth offset b = Some (int offset, b)"
| "FindFreeBlock_loop (ws # levels) random depth offset b = do {
     v \<leftarrow> arr_get ws offset;
     if v = 0 then Some (- 1, b\<lparr>asserted := asserted b \<and> depth = 0\<rparr>)
     else let (k, g) = (if random then SelectRandomBit v (m_gen b) else (countr_zero v, m_gen b))
          in FindFreeBlock_loop levels random (depth + 1) (offset * 64 + k) (b\<lparr>m_gen := g\<rparr>)
   }"

definition FindFreeBlock :: "bool \<Rightarrow> k_page_bitmap \<Rightarrow> (int \<times> k_page_bitmap) option" where
  "FindFreeBlock random b =
     (if m_used_depths b = 0 then None else FindFreeBlock_loop (take (m_used_depths b) (m_bit_storages b)) random 0 0 b)"

text \<open>The walk of \<open>SetBit\<close> and \<open>ClearBit\<close> towards the first level, from \<open>depth - 1\<close> on.\<close>

primrec SetBit_loop :: "nat \<Rightarrow> nat \<Rightarrow> k_page_bitmap \<Rightarrow> k_page_bitmap option" where
  "SetBit_loop 0 offset b = Some b"
| "SetBit_loop (Suc depth) offset b = do {
     let ind = offset div 64;
     let m = (push_bit (offset mod 64) 1 :: u64);
     ws \<leftarrow> arr_get (m_bit_storages b) depth;
     v \<leftarrow> arr_get ws ind;
     let b' = b\<lparr>asserted := asserted b \<and> v AND m = 0, m_bit_storages := (m_bit_storages b)[depth := ws[ind := v OR m]]\<rparr>;
     if v \<noteq> 0 then Some b' else SetBit_loop depth ind b'
   }"

primrec ClearBit_loop :: "nat \<Rightarrow> nat \<Rightarrow> k_page_bitmap \<Rightarrow> k_page_bitmap option" where
  "ClearBit_loop 0 offset b = Some b"
| "ClearBit_loop (Suc depth) offset b = do {
     let ind = offset div 64;
     let m = (push_bit (offset mod 64) 1 :: u64);
     ws \<leftarrow> arr_get (m_bit_storages b) depth;
     v \<leftarrow> arr_get ws ind;
     let v' = v AND NOT m;
     let b' = b\<lparr>asserted := asserted b \<and> v AND m \<noteq> 0, m_bit_storages := (m_bit_storages b)[depth := ws[ind := v']]\<rparr>;
     if v' \<noteq> 0 then Some b' else ClearBit_loop depth ind b'
   }"

definition SetBit :: "nat \<Rightarrow> k_page_bitmap \<Rightarrow> k_page_bitmap option" where
  "SetBit offset b =
     map_option (\<lambda>b'. b'\<lparr>m_num_bits := add64 (m_num_bits b') 1\<rparr>) (SetBit_loop (m_used_depths b) offset b)"

definition ClearBit :: "nat \<Rightarrow> k_page_bitmap \<Rightarrow> k_page_bitmap option" where
  "ClearBit offset b =
     map_option (\<lambda>b'. b'\<lparr>m_num_bits := sub64 (m_num_bits b') 1\<rparr>) (ClearBit_loop (m_used_depths b) offset b)"

text \<open>Clearing a range within one word, or a range of whole words.\<close>

definition ClearRange_word :: "nat \<Rightarrow> nat \<Rightarrow> k_page_bitmap \<Rightarrow> (bool \<times> k_page_bitmap) option" where
  "ClearRange_word offset count b0 = do {
     let depth = m_used_depths b0 - 1;
     let bit_ind = offset div 64;
     let shift = offset mod 64;
     let b = b0\<lparr>asserted := asserted b0 \<and> shift + count \<le> 64\<rparr>;
     let m = (push_bit shift (push_bit count 1 - 1) :: u64);
     bits \<leftarrow> arr_get (m_bit_storages b) depth;
     v \<leftarrow> arr_get bits bit_ind;
     if v AND m \<noteq> m then Some (False, b)
     else do {
       let v' = v AND NOT m;
       let b1 = b\<lparr>m_bit_storages := (m_bit_storages b)[depth := bits[bit_ind := v']]\<rparr>;
       b2 \<leftarrow> (if v' = 0 then ClearBit_loop depth bit_ind b1 else Some b1);
       Some (True, b2)
     }
   }"

primrec all_ones :: "nat \<Rightarrow> nat \<Rightarrow> u64 list \<Rightarrow> bool option" where
  "all_ones 0 i bits = Some True"
| "all_ones (Suc n) i bits = do {
     v \<leftarrow> arr_get bits i;
     if v \<noteq> NOT 0 then Some False else all_ones n (i + 1) bits
   }"

primrec clear_words :: "nat \<Rightarrow> nat \<Rightarrow> k_page_bitmap \<Rightarrow> k_page_bitmap option" where
  "clear_words 0 i b = Some b"
| "clear_words (Suc n) i b = do {
     let depth = m_used_depths b - 1;
     bits \<leftarrow> arr_get (m_bit_storages b) depth;
     bits' \<leftarrow> arr_set bits i 0;
     b' \<leftarrow> ClearBit_loop depth i (b\<lparr>m_bit_storages := (m_bit_storages b)[depth := bits']\<rparr>);
     clear_words n (i + 1) b'
   }"

text \<open>
  Both loops run once per 64 bits; for a count that is not a multiple of 64 the subtraction from what
  remains wraps around and the walk leaves the level.
\<close>

definition ClearRange_words :: "nat \<Rightarrow> nat \<Rightarrow> k_page_bitmap \<Rightarrow> (bool \<times> k_page_bitmap) option" where
  "ClearRange_words offset count b0 = do {
     let b = b0\<lparr>asserted := asserted b0 \<and> offset mod 64 = 0 \<and> count mod 64 = 0\<rparr>;
     bits \<leftarrow> arr_get (m_bit_storages b) (m_used_depths b - 1);
     if count mod 64 \<noteq> 0 then (if all_ones (length bits - offset div 64) (offset div 64) bits = Some False then Some (False, b) else None)
     else do {
       all \<leftarrow> all_ones (count div 64) (offset div 64) bits;
       if \<not> all then Some (False, b)
       else map_option (Pair True) (clear_words (count div 64) (offset div 64) b)
     }
   }"

definition ClearRange :: "nat \<Rightarrow> nat \<Rightarrow> k_page_bitmap \<Rightarrow> (bool \<times> k_page_bitmap) option" where
  "ClearRange offset count b =
     (if m_used_depths b = 0 then None
      else do {
        (cleared, b') \<leftarrow> (if count < 64 then ClearRange_word offset count b else ClearRange_words offset count b);
        Some (cleared, if cleared then b'\<lparr>m_num_bits := sub64 (m_num_bits b') count\<rparr> else b')
      })"

text \<open>
  The options within one word, then the words of the last level.  A count of 64 passes the check but
  shifts by the width of the word, and a count of zero divides by zero; both are undefined.
\<close>

definition try_option :: "bool \<Rightarrow> nat \<Rightarrow> nat \<times> int \<times> random_bit_generator \<Rightarrow> (nat \<times> int \<times> random_bit_generator) option" where
  "try_option free offset s =
     (if free then
        (case s of (num_valid_options, chosen_offset, g) \<Rightarrow> do {
           let num = num_valid_options + 1;
           (pick, g') \<leftarrow> (if num = 1 then Some (True, g)
              else map_option (map_prod (\<lambda>r. r = 0) id) (GenerateRandom (of_nat num) g));
           Some (num, if pick then int offset else chosen_offset, g')
         })
      else Some s)"

primrec range_options ::
  "nat \<Rightarrow> nat \<Rightarrow> u64 \<Rightarrow> nat \<Rightarrow> nat \<Rightarrow> u64 \<Rightarrow> nat \<times> int \<times> random_bit_generator \<Rightarrow> (nat \<times> int \<times> random_bit_generator) option" where
  "range_options 0 count free_mask storage_index option storage s = Some s"
| "range_options (Suc n) count free_mask storage_index option storage s = do {
     s' \<leftarrow> try_option (storage AND free_mask = free_mask) (storage_index * 64 + option * count) s;
     range_options n count free_mask storage_index (option + 1) (drop_bit count storage) s'
   }"

primrec range_words ::
  "u64 list \<Rightarrow> nat \<Rightarrow> u64 \<Rightarrow> nat \<Rightarrow> nat \<times> int \<times> random_bit_generator \<Rightarrow> (nat \<times> int \<times> random_bit_generator) option" where
  "range_words [] count free_mask storage_index s = Some s"
| "range_words (storage # rest) count free_mask storage_index s = do {
     s' \<leftarrow> range_options (max (64 div count) 1) count free_mask storage_index 0 storage s;
     range_words rest count free_mask (storage_index + 1) s'
   }"

definition FindFreeRange :: "nat \<Rightarrow> k_page_bitmap \<Rightarrow> (int \<times> k_page_bitmap) option" where
  "FindFreeRange count b = do {
     storage \<leftarrow> (if m_used_depths b = 0 then None else arr_get (m_bit_storages b) (m_used_depths b - 1));
     if \<not> (0 < length storage \<and> count \<le> 64) then Some (- 1, b)
     else if count = 0 \<or> count = 64 then None
     else do {
       (num_valid, chosen, g) \<leftarrow> range_words storage count (push_bit count 1 - 1) 0 (0, - 1, m_gen b);
       Some (chosen, b\<lparr>m_gen := g\<rparr>)
     }
   }"

section \<open>Random choices\<close>

lemma bit_low_half: "bit (v AND NOT (push_bit c 0xFFFFFFFFFFFFFFFF)) j \<longleftrightarrow> bit v j \<and> j < c" for v :: u64
proof -
  have "(0xFFFFFFFFFFFFFFFF :: u64) = - 1" by simp
  show ?thesis unfolding \<open>0xFFFFFFFFFFFFFFFF = - 1\<close>
    using bit_imp_le_length [of v j] by (auto simp: bit_simps not_less)
qed

lemma SelectRandomBit_loop_bit:
  assumes "bitmap \<noteq> 0" "\<forall>j. bit bitmap j \<longrightarrow> j < 2 ^ k" "cur = 2 ^ k div 2"
  shows "\<exists>j g'. SelectRandomBit_loop cur bitmap selected g = (selected + j, g') \<and> bit bitmap j"
  using assms
proof (induction k arbitrary: cur bitmap selected g)
  case 0
  then obtain j where "bit bitmap j" using bit_eq_iff [of bitmap 0] by auto
  with 0 show ?case by (subst SelectRandomBit_loop.simps) (auto intro!: exI [of _ 0])
next
  case (Suc k)
  let ?high = "drop_bit cur bitmap" and ?low = "bitmap AND NOT (push_bit cur 0xFFFFFFFFFFFFFFFF)"
  have c: "cur = 2 ^ k" "cur \<noteq> 0" "cur div 2 = 2 ^ k div 2" using Suc.prems(3) by simp_all
  obtain ch g1 where g1: "(if ?high = 0 then (False, g) else if ?low = 0 then (True, g) else GenerateRandomBit g) = (ch, g1)"
    by fastforce
  have step: "SelectRandomBit_loop cur bitmap selected g =
      (if ch then SelectRandomBit_loop (cur div 2) ?high (selected + cur) g1 else SelectRandomBit_loop (cur div 2) ?low selected g1)"
    using c(2) g1 by (subst SelectRandomBit_loop.simps) simp
  have split: "bit bitmap j \<longleftrightarrow> bit ?low j \<or> cur \<le> j \<and> bit ?high (j - cur)" for j
    by (cases "cur \<le> j") (auto simp: bit_low_half bit_drop_bit_eq)
  show ?case
  proof (cases ch)
    case True
    then have "?high \<noteq> 0" using g1 by (auto split: if_splits)
    moreover have "\<forall>j. bit ?high j \<longrightarrow> j < 2 ^ k" using Suc.prems(2) c(1) by (auto simp: bit_drop_bit_eq)
    ultimately obtain j g' where "SelectRandomBit_loop (cur div 2) ?high (selected + cur) g1 = (selected + cur + j, g')"
      "bit ?high j" using Suc.IH [of ?high "cur div 2"] c(3) by blast
    then show ?thesis using True step by (auto simp: bit_drop_bit_eq add.assoc intro!: exI [of _ "cur + j"])
  next
    case False
    have "?low \<noteq> 0"
    proof
      assume "?low = 0"
      then have "?high = 0" using False g1 by (auto split: if_splits)
      with \<open>?low = 0\<close> split Suc.prems(1) show False by (metis bit_0_eq bot_apply bot_bool_def bit_eq_iff)
    qed
    moreover have "\<forall>j. bit ?low j \<longrightarrow> j < 2 ^ k" using c(1) by (simp add: bit_low_half)
    ultimately obtain j g' where "SelectRandomBit_loop (cur div 2) ?low selected g1 = (selected + j, g')"
      "bit ?low j" using Suc.IH [of ?low "cur div 2"] c(3) by blast
    then show ?thesis using False step split by auto
  qed
qed

lemma SelectRandomBit_bit:
  assumes "v \<noteq> 0"
  shows "\<exists>j g'. SelectRandomBit v g = (j, g') \<and> j < 64 \<and> bit v j"
  using SelectRandomBit_loop_bit [OF assms, of 6 32 0 g] bit_imp_le_length [of v]
  by (force simp: SelectRandomBit_def)

lemma GenerateRandomBits_loop_defined:
  "num_bits < 32 \<Longrightarrow> \<exists>r g'. GenerateRandomBits_loop num_bits result g = Some (r, g')"
proof (induction num_bits result g rule: GenerateRandomBits_loop.induct)
  case (1 num_bits result g)
  show ?case
  proof (cases "num_bits = 0")
    case True
    then show ?thesis by (simp add: GenerateRandomBits_loop.simps)
  next
    case False
    have "min num_bits (m_bits_available (refreshed g)) < 32" using 1(2) by linarith
    then show ?thesis using 1(1) [OF False refl refl refl refl] 1(2) False
      by (subst GenerateRandomBits_loop.simps) (auto simp: Let_def)
  qed
qed

lemma countl_zero_le: "countl_zero v \<le> 64"
  unfolding countl_zero_def using length_takeWhile_le [of _ "[0..<64::nat]"] by simp

lemma countl_zero_ge:
  assumes "unat v < 2 ^ n" "n \<le> 64"
  shows "64 - n \<le> countl_zero v"
proof -
  have "\<not> bit v j" if "n \<le> j" for j
  proof -
    have "take_bit n (unat v) = unat v" using assms(1) by (simp add: take_bit_nat_eq_self)
    then have "\<not> bit (unat v) j" using that by (metis bit_take_bit_iff not_less)
    then show ?thesis by (simp add: bit_unsigned_iff)
  qed
  then have "takeWhile (\<lambda>i. \<not> bit v (63 - i)) ([0..<64 - n] @ [64 - n..<64]) =
      [0..<64 - n] @ takeWhile (\<lambda>i. \<not> bit v (63 - i)) [64 - n..<64]"
    by (intro takeWhile_append2) auto
  moreover have "[0..<64 - n] @ [64 - n..<64] = [0..<64]" by (metis diff_le_self le0 upt_add_eq_append le_add_diff_inverse)
  ultimately show ?thesis by (simp add: countl_zero_def)
qed

lemma GenerateRandom_below:
  assumes "0 < unat mx" "unat mx < 2 ^ 30"
  shows "\<exists>r g'. GenerateRandom mx g = Some (r, g') \<and> unat r < unat mx"
proof -
  have "1 + (64 - countl_zero mx) < 32" using countl_zero_ge [OF assms(2)] by simp
  then obtain rnd g' where "GenerateRandomBits (1 + (64 - countl_zero mx)) g = Some (rnd, g')"
    using GenerateRandomBits_loop_defined by (force simp: GenerateRandomBits_def)
  moreover have "rnd - (rnd div mx) * mx = rnd mod mx" by (simp add: minus_div_mult_eq_mod)
  moreover have "unat (rnd mod mx) < unat mx" using assms(1) by (simp add: unat_mod_distrib)
  moreover have "mx \<noteq> 0" using assms(1) by auto
  ultimately show ?thesis by (simp add: GenerateRandom_def Let_def)
qed

section \<open>Levels\<close>

text \<open>
  Bit \<open>i\<close> of an array of words, and which words have a bit.  \<open>represents\<close> takes the levels from the
  last one up: the bits of each are the words with a bit of the one below, the bits of the last are the
  set.
\<close>

definition word_bit :: "u64 list \<Rightarrow> nat \<Rightarrow> bool" where
  "word_bit ws i \<longleftrightarrow> i div 64 < length ws \<and> bit (ws ! (i div 64)) (i mod 64)"

definition nonzero :: "u64 list \<Rightarrow> nat \<Rightarrow> bool" where
  "nonzero ws i \<longleftrightarrow> i < length ws \<and> ws ! i \<noteq> 0"

primrec represents :: "u64 list list \<Rightarrow> (nat \<Rightarrow> bool) \<Rightarrow> bool" where
  "represents [] P \<longleftrightarrow> True"
| "represents (ws # up) P \<longleftrightarrow> word_bit ws = P \<and> (up \<noteq> [] \<longrightarrow> length ws \<le> 64 * length (hd up)) \<and> represents up (nonzero ws)"

lemma word_bit_word: "j < 64 \<Longrightarrow> word_bit ws (i * 64 + j) \<longleftrightarrow> i < length ws \<and> bit (ws ! i) j"
  by (simp add: word_bit_def)

lemma word_bit_nonzero: "word_bit ws i \<Longrightarrow> nonzero ws (i div 64)"
  by (auto simp: word_bit_def nonzero_def)

lemma nonzero_word_bit:
  assumes "nonzero ws i"
  shows "\<exists>j<64. word_bit ws (i * 64 + j)"
proof -
  have "i < length ws" "ws ! i \<noteq> 0" using assms by (simp_all add: nonzero_def)
  then show ?thesis using countr_zero_bit [of "ws ! i"] word_bit_word [of "countr_zero (ws ! i)" ws i] by blast
qed

lemma nonzero_in: "i < length ws \<Longrightarrow> nonzero ws i \<longleftrightarrow> ws ! i \<noteq> 0"
  by (simp add: nonzero_def)

text \<open>Changing a word changes its bits and whether it has any.\<close>

lemma word_bit_update:
  assumes "i < length ws"
  shows "word_bit (ws[i := v]) k \<longleftrightarrow> (if k div 64 = i then bit v (k mod 64) else word_bit ws k)"
  using assms by (auto simp: word_bit_def)

lemma nonzero_update: "i < length ws \<Longrightarrow> nonzero (ws[i := v]) = (nonzero ws)(i := v \<noteq> 0)"
  by (auto simp: nonzero_def fun_eq_iff nth_list_update)

lemma div_mod_eq: "k div n = i div n \<and> k mod n = i mod n \<longleftrightarrow> k = i" for k i n :: nat
  by (metis div_mult_mod_eq)

lemma word_bit_set:
  assumes "off div 64 < length ws"
  shows "word_bit (ws[off div 64 := ws ! (off div 64) OR push_bit (off mod 64) 1]) = (word_bit ws)(off := True)"
proof (rule ext)
  fix k
  have "k div 64 = off div 64 \<Longrightarrow> k mod 64 = off mod 64 \<longleftrightarrow> k = off" using div_mod_eq [of k 64 off] by blast
  then show "word_bit (ws[off div 64 := ws ! (off div 64) OR push_bit (off mod 64) 1]) k = ((word_bit ws)(off := True)) k"
    unfolding word_bit_update [OF assms] using assms
    by (cases "k div 64 = off div 64") (auto simp: word_bit_def bit_simps)
qed

lemma word_bit_clear:
  assumes "off div 64 < length ws"
  shows "word_bit (ws[off div 64 := ws ! (off div 64) AND NOT (push_bit (off mod 64) 1)]) = (word_bit ws)(off := False)"
proof (rule ext)
  fix k
  have "k div 64 = off div 64 \<Longrightarrow> k mod 64 = off mod 64 \<longleftrightarrow> k = off" using div_mod_eq [of k 64 off] by blast
  then show "word_bit (ws[off div 64 := ws ! (off div 64) AND NOT (push_bit (off mod 64) 1)]) k = ((word_bit ws)(off := False)) k"
    unfolding word_bit_update [OF assms] using assms
    by (cases "k div 64 = off div 64") (auto simp: word_bit_def bit_simps)
qed

text \<open>One level at a time: the levels above depth \<open>d\<close> and the level at \<open>d\<close>.\<close>

lemma rev_take_Suc: "d < length st \<Longrightarrow> rev (take (Suc d) st) = st ! d # rev (take d st)"
  by (simp add: take_Suc_conv_app_nth)

lemma hd_rev_take: "0 < d \<Longrightarrow> d \<le> length st \<Longrightarrow> hd (rev (take d st)) = st ! (d - 1)"
  by (cases d) (simp_all add: rev_take_Suc)

lemma drop_Suc_update:
  assumes "drop d st' = drop d (st[d := x])"
  shows "drop (Suc d) st' = drop (Suc d) st"
proof -
  have "drop (Suc d) st' = drop 1 (drop d st')" "drop (Suc d) (st[d := x]) = drop 1 (drop d (st[d := x]))" by simp_all
  with assms show ?thesis by (simp only: drop_update_cancel [OF lessI])
qed

lemma represents_Suc:
  assumes "d < length st"
  shows "represents (rev (take (Suc d) st)) P \<longleftrightarrow> word_bit (st ! d) = P \<and>
    (0 < d \<longrightarrow> length (st ! d) \<le> 64 * length (st ! (d - 1))) \<and> represents (rev (take d st)) (nonzero (st ! d))"
  using assms by (auto simp: rev_take_Suc hd_rev_take)

lemma bit_nonzero: "bit v n \<Longrightarrow> v \<noteq> 0" for v :: u64
  by auto

definition same_shape :: "u64 list list \<Rightarrow> u64 list list \<Rightarrow> bool" where
  "same_shape st st' \<longleftrightarrow> map length st' = map length st"

lemma same_shape_refl [simp]: "same_shape st st"
  by (simp add: same_shape_def)

lemma same_shape_trans: "same_shape st st' \<Longrightarrow> same_shape st' st'' \<Longrightarrow> same_shape st st''"
  by (simp add: same_shape_def)

lemma same_shape_length: "same_shape st st' \<Longrightarrow> length st' = length st"
  unfolding same_shape_def by (metis length_map)

lemma same_shape_nth: "same_shape st st' \<Longrightarrow> d < length st \<Longrightarrow> length (st' ! d) = length (st ! d)"
  using same_shape_length [of st st'] unfolding same_shape_def by (metis nth_map)

lemma same_shape_update: "d < length st \<Longrightarrow> same_shape st (st[d := (st ! d)[i := v]])"
  by (simp add: same_shape_def map_update list_update_same_conv)

text \<open>After the word at \<open>i\<close> of level \<open>d\<close> has become \<open>v\<close> and the levels above have followed.\<close>

lemma represents_changed:
  assumes "d < length st" "represents (rev (take (Suc d) st)) P" "i < length (st ! d)"
    and "same_shape st st'" "drop d st' = drop d (st[d := (st ! d)[i := v]])"
    and "represents (rev (take d st')) ((nonzero (st ! d))(i := v \<noteq> 0))" "word_bit ((st ! d)[i := v]) = Q"
  shows "represents (rev (take (Suc d) st')) Q"
proof -
  have d: "d < length st'" using assms(1) same_shape_length [OF assms(4)] by simp
  have n: "st' ! d = (st ! d)[i := v]"
    using arg_cong [OF assms(5), of hd] assms(1) d by (simp add: hd_drop_conv_nth)
  have "0 < d \<longrightarrow> length (st' ! d) \<le> 64 * length (st' ! (d - 1))"
    using assms(1,2) same_shape_nth [OF assms(4)] represents_Suc [OF assms(1)] by (auto simp: less_imp_diff_less)
  with assms(6,7) n show ?thesis by (simp add: represents_Suc [OF d] nonzero_update [OF assms(3)])
qed

lemma SetBit_loop_represents:
  assumes "d \<le> length (m_bit_storages b)" "represents (rev (take d (m_bit_storages b))) P" "\<not> P off"
    and "0 < d \<longrightarrow> off < 64 * length (m_bit_storages b ! (d - 1))"
  shows "\<exists>st. SetBit_loop d off b = Some (b\<lparr>m_bit_storages := st\<rparr>) \<and> same_shape (m_bit_storages b) st \<and>
    drop d st = drop d (m_bit_storages b) \<and> represents (rev (take d st)) (P(off := True))"
  using assms
proof (induction d arbitrary: b P off)
  case 0
  then show ?case by (intro exI [of _ "m_bit_storages b"]) simp
next
  case (Suc d)
  let ?st = "m_bit_storages b" and ?i = "off div 64" and ?m = "push_bit (off mod 64) 1 :: u64"
  let ?v = "?st ! d ! ?i"
  let ?st1 = "?st[d := (?st ! d)[?i := ?v OR ?m]]" and ?b = "b\<lparr>m_bit_storages := ?st[d := (?st ! d)[?i := ?v OR ?m]]\<rparr>"
  have d: "d < length ?st" using Suc.prems(1) by simp
  note r = Suc.prems(2) [unfolded represents_Suc [OF d]]
  have i: "?i < length (?st ! d)" using Suc.prems(4) by (simp add: less_mult_imp_div_less mult.commute)
  have "\<not> bit ?v (off mod 64)" using Suc.prems(3) r i by (auto simp: word_bit_def fun_eq_iff)
  then have z: "?v AND ?m = 0" by (simp add: and_exp_eq_0_iff_not_bit)
  have nz: "?v OR ?m \<noteq> 0"
    by (rule bit_nonzero [of _ "off mod 64"]) (simp add: bit_simps)
  have wb: "word_bit ((?st ! d)[?i := ?v OR ?m]) = P(off := True)" using word_bit_set [OF i] r by simp
  have "\<exists>st. SetBit_loop (Suc d) off b = Some (b\<lparr>m_bit_storages := st\<rparr>) \<and> same_shape ?st st \<and>
    drop d st = drop d ?st1 \<and> represents (rev (take d st)) ((nonzero (?st ! d))(?i := ?v OR ?m \<noteq> 0))"
  proof (cases "?v = 0")
    case False
    then have "(nonzero (?st ! d))(?i := ?v OR ?m \<noteq> 0) = nonzero (?st ! d)" using i nz by (auto simp: fun_eq_iff nonzero_def)
    with False d i z r show ?thesis by (intro exI [of _ ?st1]) (simp add: same_shape_update Let_def)
  next
    case True
    have "0 < d \<longrightarrow> ?i < 64 * length (m_bit_storages ?b ! (d - 1))" using r i d by auto
    then have "\<exists>st. SetBit_loop d ?i ?b = Some (?b\<lparr>m_bit_storages := st\<rparr>) \<and> same_shape (m_bit_storages ?b) st \<and>
        drop d st = drop d (m_bit_storages ?b) \<and> represents (rev (take d st)) ((nonzero (?st ! d))(?i := True))"
      using d r True i by (intro Suc.IH) (simp_all add: nonzero_in)
    then obtain st where "SetBit_loop d ?i ?b = Some (b\<lparr>m_bit_storages := st\<rparr>)" "same_shape ?st1 st"
      "drop d st = drop d ?st1" "represents (rev (take d st)) ((nonzero (?st ! d))(?i := True))" by auto
    moreover have "SetBit_loop (Suc d) off b = SetBit_loop d ?i ?b" using True d i z by (simp add: Let_def)
    ultimately show ?thesis using nz same_shape_trans [OF same_shape_update [OF d]] by auto
  qed
  then obtain st where st: "SetBit_loop (Suc d) off b = Some (b\<lparr>m_bit_storages := st\<rparr>)" "same_shape ?st st"
    "drop d st = drop d ?st1" "represents (rev (take d st)) ((nonzero (?st ! d))(?i := ?v OR ?m \<noteq> 0))" by blast
  moreover have "represents (rev (take (Suc d) st)) (P(off := True))"
    by (rule represents_changed [OF d Suc.prems(2) i st(2-4) wb])
  moreover have "drop (Suc d) st = drop (Suc d) ?st"
    by (rule drop_Suc_update [OF st(3)])
  ultimately show ?case by blast
qed

lemma ClearBit_loop_represents:
  assumes "d \<le> length (m_bit_storages b)" "represents (rev (take d (m_bit_storages b))) P" "P off"
    and "0 < d \<longrightarrow> off < 64 * length (m_bit_storages b ! (d - 1))"
  shows "\<exists>st. ClearBit_loop d off b = Some (b\<lparr>m_bit_storages := st\<rparr>) \<and> same_shape (m_bit_storages b) st \<and>
    drop d st = drop d (m_bit_storages b) \<and> represents (rev (take d st)) (P(off := False))"
  using assms
proof (induction d arbitrary: b P off)
  case 0
  then show ?case by (intro exI [of _ "m_bit_storages b"]) simp
next
  case (Suc d)
  let ?st = "m_bit_storages b" and ?i = "off div 64" and ?m = "push_bit (off mod 64) 1 :: u64"
  let ?v = "?st ! d ! ?i"
  let ?st1 = "?st[d := (?st ! d)[?i := ?v AND NOT ?m]]" and ?b = "b\<lparr>m_bit_storages := ?st[d := (?st ! d)[?i := ?v AND NOT ?m]]\<rparr>"
  have d: "d < length ?st" using Suc.prems(1) by simp
  note r = Suc.prems(2) [unfolded represents_Suc [OF d]]
  have i: "?i < length (?st ! d)" using Suc.prems(4) by (simp add: less_mult_imp_div_less mult.commute)
  have "bit ?v (off mod 64)" using Suc.prems(3) r i by (auto simp: word_bit_def fun_eq_iff)
  then have z: "?v AND ?m \<noteq> 0" "?v \<noteq> 0" by (auto simp: and_exp_eq_0_iff_not_bit)
  have wb: "word_bit ((?st ! d)[?i := ?v AND NOT ?m]) = P(off := False)" using word_bit_clear [OF i] r by simp
  have "\<exists>st. ClearBit_loop (Suc d) off b = Some (b\<lparr>m_bit_storages := st\<rparr>) \<and> same_shape ?st st \<and>
    drop d st = drop d ?st1 \<and> represents (rev (take d st)) ((nonzero (?st ! d))(?i := ?v AND NOT ?m \<noteq> 0))"
  proof (cases "?v AND NOT ?m = 0")
    case False
    then have "(nonzero (?st ! d))(?i := ?v AND NOT ?m \<noteq> 0) = nonzero (?st ! d)" using i z by (auto simp: fun_eq_iff nonzero_def)
    with False d i z r show ?thesis by (intro exI [of _ ?st1]) (simp add: same_shape_update Let_def)
  next
    case True
    have "0 < d \<longrightarrow> ?i < 64 * length (m_bit_storages ?b ! (d - 1))" using r i d by auto
    then have "\<exists>st. ClearBit_loop d ?i ?b = Some (?b\<lparr>m_bit_storages := st\<rparr>) \<and> same_shape (m_bit_storages ?b) st \<and>
        drop d st = drop d (m_bit_storages ?b) \<and> represents (rev (take d st)) ((nonzero (?st ! d))(?i := False))"
      using d r z i by (intro Suc.IH) (simp_all add: nonzero_in)
    then obtain st where "ClearBit_loop d ?i ?b = Some (b\<lparr>m_bit_storages := st\<rparr>)" "same_shape ?st1 st"
      "drop d st = drop d ?st1" "represents (rev (take d st)) ((nonzero (?st ! d))(?i := False))" by auto
    moreover have "ClearBit_loop (Suc d) off b = ClearBit_loop d ?i ?b" using True d i z by (simp add: Let_def)
    ultimately show ?thesis using True same_shape_trans [OF same_shape_update [OF d]] by auto
  qed
  then obtain st where st: "ClearBit_loop (Suc d) off b = Some (b\<lparr>m_bit_storages := st\<rparr>)" "same_shape ?st st"
    "drop d st = drop d ?st1" "represents (rev (take d st)) ((nonzero (?st ! d))(?i := ?v AND NOT ?m \<noteq> 0))" by blast
  moreover have "represents (rev (take (Suc d) st)) (P(off := False))"
    by (rule represents_changed [OF d Suc.prems(2) i st(2-4) wb])
  moreover have "drop (Suc d) st = drop (Suc d) ?st"
    by (rule drop_Suc_update [OF st(3)])
  ultimately show ?case by blast
qed

text \<open>Clearing bits of one word of the last level; the levels above follow when the word becomes zero.\<close>

lemma clear_word_represents:
  assumes "length (m_bit_storages b) = Suc d" "represents (rev (m_bit_storages b)) P"
    and "i < length (m_bit_storages b ! d)" "m_bit_storages b ! d ! i \<noteq> 0"
  shows "\<exists>st. (if v = 0 then ClearBit_loop d i (b\<lparr>m_bit_storages := (m_bit_storages b)[d := (m_bit_storages b ! d)[i := v]]\<rparr>)
      else Some (b\<lparr>m_bit_storages := (m_bit_storages b)[d := (m_bit_storages b ! d)[i := v]]\<rparr>)) = Some (b\<lparr>m_bit_storages := st\<rparr>) \<and>
    same_shape (m_bit_storages b) st \<and> represents (rev st) (word_bit ((m_bit_storages b ! d)[i := v]))"
proof -
  let ?st = "m_bit_storages b"
  let ?st1 = "?st[d := (?st ! d)[i := v]]" and ?b = "b\<lparr>m_bit_storages := ?st[d := (?st ! d)[i := v]]\<rparr>"
  have d: "d < length ?st" "take (Suc d) ?st = ?st" using assms(1) by simp_all
  have r: "represents (rev (take (Suc d) ?st)) P" using assms(2) d(2) by simp
  note r' = r [unfolded represents_Suc [OF d(1)]]
  have "\<exists>st. (if v = 0 then ClearBit_loop d i ?b else Some ?b) = Some (b\<lparr>m_bit_storages := st\<rparr>) \<and> same_shape ?st st \<and>
      drop d st = drop d ?st1 \<and> represents (rev (take d st)) ((nonzero (?st ! d))(i := v \<noteq> 0))"
  proof (cases "v = 0")
    case False
    then have "(nonzero (?st ! d))(i := v \<noteq> 0) = nonzero (?st ! d)" using assms(3,4) by (auto simp: fun_eq_iff nonzero_def)
    with False r' d show ?thesis by (intro exI [of _ ?st1]) (simp add: same_shape_update)
  next
    case True
    have "0 < d \<longrightarrow> i < 64 * length (m_bit_storages ?b ! (d - 1))" using r' assms(3) d by auto
    then have "\<exists>st. ClearBit_loop d i ?b = Some (?b\<lparr>m_bit_storages := st\<rparr>) \<and> same_shape (m_bit_storages ?b) st \<and>
        drop d st = drop d (m_bit_storages ?b) \<and> represents (rev (take d st)) ((nonzero (?st ! d))(i := False))"
      using d r' assms(3,4) by (intro ClearBit_loop_represents) (simp_all add: nonzero_in)
    then show ?thesis using True same_shape_trans [OF same_shape_update [OF d(1)]] by auto
  qed
  then obtain st where st: "(if v = 0 then ClearBit_loop d i ?b else Some ?b) = Some (b\<lparr>m_bit_storages := st\<rparr>)"
    "same_shape ?st st" "drop d st = drop d ?st1" "represents (rev (take d st)) ((nonzero (?st ! d))(i := v \<noteq> 0))" by blast
  have "represents (rev (take (Suc d) st)) (word_bit ((?st ! d)[i := v]))"
    by (rule represents_changed [OF d(1) r assms(3) st(2-4) refl])
  moreover have "take (Suc d) st = st" using same_shape_length [OF st(2)] assms(1) by simp
  ultimately show ?thesis using st(1,2) by auto
qed

text \<open>From the first level down.\<close>

lemma represents_snoc:
  assumes "us \<noteq> []"
  shows "represents (us @ [w]) P \<longleftrightarrow> represents us P \<and> word_bit w = nonzero (last us) \<and> length (last us) \<le> 64 * length w"
  using assms
proof (induction us arbitrary: P)
  case (Cons u us)
  then show ?case by (cases us) auto
qed simp

lemma chosen_bit:
  assumes "v \<noteq> 0"
  shows "\<exists>k g'. (if random then SelectRandomBit v g else (countr_zero v, g)) = (k, g') \<and> k < 64 \<and> bit v k"
  using SelectRandomBit_bit [OF assms, of g] countr_zero_bit [OF assms] by (cases random) auto

lemma FindFreeBlock_loop_finds:
  assumes "represents (rev (w # ls)) P" "nonzero w off"
  shows "\<exists>k g. FindFreeBlock_loop (w # ls) random depth off b = Some (int k, b\<lparr>m_gen := g\<rparr>) \<and> P k"
  using assms
proof (induction ls arbitrary: w off depth b)
  case Nil
  then have v: "off < length w" "w ! off \<noteq> 0" by (simp_all add: nonzero_def)
  obtain k g where k: "(if random then SelectRandomBit (w ! off) (m_gen b) else (countr_zero (w ! off), m_gen b)) = (k, g)"
    "k < 64" "bit (w ! off) k"
    using chosen_bit [OF v(2), of random "m_gen b"] by blast
  then have "P (off * 64 + k)" using Nil v word_bit_word [of k w off] by auto
  with k v show ?case by (intro exI [of _ "off * 64 + k"] exI [of _ g]) (simp add: Let_def)
next
  case (Cons w' ls)
  then have v: "off < length w" "w ! off \<noteq> 0" by (simp_all add: nonzero_def)
  obtain k g where k: "(if random then SelectRandomBit (w ! off) (m_gen b) else (countr_zero (w ! off), m_gen b)) = (k, g)"
    "k < 64" "bit (w ! off) k"
    using chosen_bit [OF v(2), of random "m_gen b"] by blast
  have r: "represents (rev (w' # ls)) P" "word_bit w = nonzero w'"
    using Cons.prems(1) represents_snoc [of "rev (w' # ls)" w P] by (simp_all add: last_rev)
  then have "nonzero w' (off * 64 + k)" using k v word_bit_word [of k w off] by auto
  from Cons.IH [OF r(1) this, of "depth + 1" "b\<lparr>m_gen := g\<rparr>"] k v show ?case by (auto simp: Let_def)
qed

lemma represents_top:
  assumes "represents (rev (w # ls)) P" "P k"
  shows "\<exists>j. nonzero w j"
  using assms
proof (induction ls arbitrary: w)
  case Nil
  then show ?case using word_bit_nonzero [of w k] by auto
next
  case (Cons w' ls)
  have r: "represents (rev (w' # ls)) P" "word_bit w = nonzero w'"
    using Cons.prems(1) represents_snoc [of "rev (w' # ls)" w P] by (simp_all add: last_rev)
  from Cons.IH [OF r(1) Cons.prems(2)] r(2) word_bit_nonzero [of w] show ?case by auto
qed

section \<open>The set of free blocks\<close>

definition bits :: "k_page_bitmap \<Rightarrow> nat set" where
  "bits b = {i. word_bit (last (m_bit_storages b)) i}"

definition capacity :: "k_page_bitmap \<Rightarrow> nat" where
  "capacity b = 64 * length (last (m_bit_storages b))"

definition bitmap_ok :: "k_page_bitmap \<Rightarrow> bool" where
  "bitmap_ok b \<longleftrightarrow> 0 < m_used_depths b \<and> length (m_bit_storages b) = m_used_depths b \<and>
     length (hd (m_bit_storages b)) = 1 \<and> represents (rev (m_bit_storages b)) (\<lambda>i. i \<in> bits b) \<and>
     m_num_bits b = card (bits b) \<and> capacity b < 2 ^ 63"

text \<open>What an operation makes of a bitmap: another one with the given set, and no assertion has failed.\<close>

definition becomes :: "k_page_bitmap \<Rightarrow> nat set \<Rightarrow> k_page_bitmap \<Rightarrow> bool" where
  "becomes b S b' \<longleftrightarrow> bitmap_ok b' \<and> bits b' = S \<and> capacity b' = capacity b \<and> asserted b' = asserted b"

lemma bits_below: "bits b \<subseteq> {..<capacity b}"
  by (auto simp: bits_def capacity_def word_bit_def)

lemma finite_bits [simp]: "finite (bits b)"
  using bits_below finite_subset by blast

lemma represents_unique: "represents (u # up) P \<Longrightarrow> represents (u # up) Q \<longleftrightarrow> P = Q"
  by auto

lemma bitmap_last:
  assumes "bitmap_ok b"
  obtains d where "m_used_depths b = Suc d" "length (m_bit_storages b) = Suc d" "last (m_bit_storages b) = m_bit_storages b ! d"
    "take (m_used_depths b) (m_bit_storages b) = m_bit_storages b"
proof -
  obtain d where "m_used_depths b = Suc d" using assms by (auto simp: bitmap_ok_def gr0_conv_Suc)
  moreover have "length (m_bit_storages b) = m_used_depths b" using assms by (simp add: bitmap_ok_def)
  moreover have "m_bit_storages b \<noteq> []" using assms by (auto simp: bitmap_ok_def)
  ultimately show thesis by (intro that [of d]) (simp_all add: last_conv_nth)
qed

lemma becomesI:
  assumes "bitmap_ok b" "same_shape (m_bit_storages b) st" "represents (rev st) Q" "n = card {i. Q i}"
  shows "becomes b {i. Q i} (b\<lparr>m_bit_storages := st, m_num_bits := n\<rparr>)"
proof -
  have l: "length st = length (m_bit_storages b)" using same_shape_length [OF assms(2)] .
  have ne: "m_bit_storages b \<noteq> []" "st \<noteq> []" using assms(1) l by (auto simp: bitmap_ok_def)
  have "word_bit (last st) = Q" using assms(3) ne(2) by (cases st rule: rev_cases) auto
  then have b: "bits (b\<lparr>m_bit_storages := st, m_num_bits := n\<rparr>) = {i. Q i}" by (simp add: bits_def)
  have "length (last st) = length (last (m_bit_storages b))" "length (hd st) = length (hd (m_bit_storages b))"
    using same_shape_nth [OF assms(2)] ne l by (simp_all add: last_conv_nth hd_conv_nth)
  with assms b l show ?thesis by (simp add: becomes_def bitmap_ok_def capacity_def)
qed

lemma SetBit_becomes:
  assumes "bitmap_ok b" "i < capacity b" "i \<notin> bits b"
  shows "\<exists>b'. SetBit i b = Some b' \<and> becomes b (insert i (bits b)) b'"
proof -
  obtain d where d: "m_used_depths b = Suc d" "length (m_bit_storages b) = Suc d" "last (m_bit_storages b) = m_bit_storages b ! d"
    "take (m_used_depths b) (m_bit_storages b) = m_bit_storages b" using bitmap_last [OF assms(1)] .
  have "\<exists>st. SetBit_loop (m_used_depths b) i b = Some (b\<lparr>m_bit_storages := st\<rparr>) \<and> same_shape (m_bit_storages b) st \<and>
    drop (m_used_depths b) st = drop (m_used_depths b) (m_bit_storages b) \<and>
    represents (rev (take (m_used_depths b) st)) ((\<lambda>i. i \<in> bits b)(i := True))"
    using assms d by (intro SetBit_loop_represents) (simp_all add: bitmap_ok_def capacity_def)
  then obtain st where st: "SetBit_loop (m_used_depths b) i b = Some (b\<lparr>m_bit_storages := st\<rparr>)"
    "same_shape (m_bit_storages b) st" "represents (rev st) ((\<lambda>i. i \<in> bits b)(i := True))"
    using same_shape_length d by (metis take_all order_refl)
  have s: "{k. ((\<lambda>i. i \<in> bits b)(i := True)) k} = insert i (bits b)" by auto
  have "card (bits b) \<le> capacity b" using card_mono [OF _ bits_below [of b]] by simp
  then have n: "add64 (m_num_bits b) 1 = card (insert i (bits b))"
    using assms by (subst add64_exact) (simp_all add: bitmap_ok_def)
  have "becomes b (insert i (bits b)) (b\<lparr>m_bit_storages := st, m_num_bits := add64 (m_num_bits b) 1\<rparr>)"
    using becomesI [OF assms(1) st(2,3)] unfolding s n by simp
  with st(1) show ?thesis by (simp add: SetBit_def)
qed

lemma ClearBit_becomes:
  assumes "bitmap_ok b" "i \<in> bits b"
  shows "\<exists>b'. ClearBit i b = Some b' \<and> becomes b (bits b - {i}) b'"
proof -
  obtain d where d: "m_used_depths b = Suc d" "length (m_bit_storages b) = Suc d" "last (m_bit_storages b) = m_bit_storages b ! d"
    "take (m_used_depths b) (m_bit_storages b) = m_bit_storages b" using bitmap_last [OF assms(1)] .
  have "i < capacity b" using assms(2) bits_below by auto
  then have "\<exists>st. ClearBit_loop (m_used_depths b) i b = Some (b\<lparr>m_bit_storages := st\<rparr>) \<and> same_shape (m_bit_storages b) st \<and>
    drop (m_used_depths b) st = drop (m_used_depths b) (m_bit_storages b) \<and>
    represents (rev (take (m_used_depths b) st)) ((\<lambda>i. i \<in> bits b)(i := False))"
    using assms d by (intro ClearBit_loop_represents) (simp_all add: bitmap_ok_def capacity_def)
  then obtain st where st: "ClearBit_loop (m_used_depths b) i b = Some (b\<lparr>m_bit_storages := st\<rparr>)"
    "same_shape (m_bit_storages b) st" "represents (rev st) ((\<lambda>i. i \<in> bits b)(i := False))"
    using same_shape_length d by (metis take_all order_refl)
  have s: "{k. ((\<lambda>i. i \<in> bits b)(i := False)) k} = bits b - {i}" by auto
  have "card (bits b) < 2 ^ 64" "1 \<le> card (bits b)"
    using card_mono [OF _ bits_below [of b]] assms by (auto simp: bitmap_ok_def Suc_le_eq card_gt_0_iff)
  then have n: "sub64 (m_num_bits b) 1 = card (bits b - {i})"
    using assms by (subst sub64_exact) (simp_all add: bitmap_ok_def)
  have "becomes b (bits b - {i}) (b\<lparr>m_bit_storages := st, m_num_bits := sub64 (m_num_bits b) 1\<rparr>)"
    using becomesI [OF assms(1) st(2,3)] unfolding s n by simp
  with st(1) show ?thesis by (simp add: ClearBit_def)
qed

lemma FindFreeBlock_finds:
  assumes "bitmap_ok b"
  shows "if bits b = {} then FindFreeBlock random b = Some (- 1, b)
    else \<exists>i g. FindFreeBlock random b = Some (int i, b\<lparr>m_gen := g\<rparr>) \<and> i \<in> bits b"
proof -
  obtain d where d: "m_used_depths b = Suc d" "take (m_used_depths b) (m_bit_storages b) = m_bit_storages b"
    "length (m_bit_storages b) = Suc d" using bitmap_last [OF assms] .
  then obtain w ls where w: "m_bit_storages b = w # ls" by (auto simp: length_Suc_conv)
  have ok: "length w = 1" "represents (rev (w # ls)) (\<lambda>i. i \<in> bits b)" using assms w by (simp_all add: bitmap_ok_def)
  show ?thesis
  proof (cases "nonzero w 0")
    case True
    from FindFreeBlock_loop_finds [OF ok(2) True, of random 0 b] d w show ?thesis by (auto simp: FindFreeBlock_def)
  next
    case False
    then have "bits b = {}" using represents_top [OF ok(2)] ok(1) by (auto simp: nonzero_def)
    with False ok(1) d w show ?thesis by (auto simp: FindFreeBlock_def nonzero_def)
  qed
qed

text \<open>Clearing a range.\<close>

lemma row_range:
  fixes q q' r r' c :: nat
  assumes "r + c \<le> 64" "r' < 64"
  shows "q' = q \<and> r \<le> r' \<and> r' < r + c \<longleftrightarrow> q * 64 + r \<le> q' * 64 + r' \<and> q' * 64 + r' < q * 64 + r + c"
  using assms by (cases q' q rule: linorder_cases) auto

lemma in_word_range:
  fixes i k :: nat
  assumes "i mod 64 + count \<le> 64"
  shows "k div 64 = i div 64 \<and> i mod 64 \<le> k mod 64 \<and> k mod 64 < i mod 64 + count \<longleftrightarrow> i \<le> k \<and> k < i + count"
  using row_range [OF assms, of "k mod 64" "k div 64" "i div 64"] by simp

lemma bit_range_mask:
  "s + count \<le> 64 \<Longrightarrow> bit (push_bit s (push_bit count 1 - 1) :: u64) j \<longleftrightarrow> s \<le> j \<and> j < s + count"
  by (auto simp: bit_push_bit_iff push_bit_of_1 bit_mask_iff simp flip: mask_eq_exp_minus_1)

lemma and_mask_eq: "v AND m = m \<longleftrightarrow> (\<forall>j. bit m j \<longrightarrow> bit v j)" for v m :: u64
proof
  assume "v AND m = m"
  then show "\<forall>j. bit m j \<longrightarrow> bit v j" by (metis bit_and_iff)
qed (auto intro!: bit_word_eqI simp: bit_and_iff)

lemma ClearRange_word_becomes:
  assumes "bitmap_ok b" "0 < count" "count < 64" "i mod 64 + count \<le> 64" "i + count \<le> capacity b"
  shows "if {i..<i + count} \<subseteq> bits b
    then \<exists>st. ClearRange_word i count b = Some (True, b\<lparr>m_bit_storages := st\<rparr>) \<and> same_shape (m_bit_storages b) st \<and>
      represents (rev st) (\<lambda>k. k \<in> bits b \<and> k \<notin> {i..<i + count})
    else ClearRange_word i count b = Some (False, b)"
proof -
  obtain d where d: "m_used_depths b = Suc d" "length (m_bit_storages b) = Suc d"
    "last (m_bit_storages b) = m_bit_storages b ! d" using bitmap_last [OF assms(1)] .
  let ?ws = "m_bit_storages b ! d" and ?m = "push_bit (i mod 64) (push_bit count 1 - 1) :: u64"
  let ?v = "?ws ! (i div 64)"
  have c: "i div 64 < length ?ws" using assms(2,5) d(3) by (simp add: capacity_def less_mult_imp_div_less mult.commute)
  have wb: "k \<in> bits b \<longleftrightarrow> word_bit ?ws k" for k by (simp add: bits_def d(3))
  note r = in_word_range [OF assms(4)] and m = bit_range_mask [OF assms(4)]
  have sub: "?v AND ?m = ?m \<longleftrightarrow> {i..<i + count} \<subseteq> bits b"
  proof -
    have "(\<forall>j. bit ?m j \<longrightarrow> bit ?v j) \<longleftrightarrow> (\<forall>k. i \<le> k \<and> k < i + count \<longrightarrow> word_bit ?ws k)"
    proof safe
      fix k assume a: "\<forall>j. bit ?m j \<longrightarrow> bit ?v j" "i \<le> k" "k < i + count"
      then have "k div 64 = i div 64" "bit ?m (k mod 64)" using r [of k] m by auto
      with a(1) c show "word_bit ?ws k" by (simp add: word_bit_def)
    next
      fix j assume a: "\<forall>k. i \<le> k \<and> k < i + count \<longrightarrow> word_bit ?ws k" "bit ?m j"
      then have j: "i mod 64 \<le> j" "j < i mod 64 + count" using m by auto
      let ?k = "i div 64 * 64 + j"
      have k: "?k div 64 = i div 64" "?k mod 64 = j" using j assms(4) by simp_all
      then have "word_bit ?ws ?k" using a(1) r [of ?k] j by auto
      then show "bit ?v j" using k by (simp add: word_bit_def)
    qed
    then show ?thesis by (auto simp: and_mask_eq wb)
  qed
  have eq: "ClearRange_word i count b = (if ?v AND ?m \<noteq> ?m then Some (False, b)
      else map_option (Pair True) (if ?v AND NOT ?m = 0
        then ClearBit_loop d (i div 64) (b\<lparr>m_bit_storages := (m_bit_storages b)[d := ?ws[i div 64 := ?v AND NOT ?m]]\<rparr>)
        else Some (b\<lparr>m_bit_storages := (m_bit_storages b)[d := ?ws[i div 64 := ?v AND NOT ?m]]\<rparr>)))"
    using assms(4) c d by (simp add: ClearRange_word_def Let_def map_option_bind map_conv_bind_option o_def cong: if_cong)
  show ?thesis
  proof (cases "{i..<i + count} \<subseteq> bits b")
    case False
    with sub eq show ?thesis by simp
  next
    case True
    moreover have "i \<in> {i..<i + count}" using assms(2) by simp
    ultimately have "word_bit ?ws i" using wb by blast
    then have "?v \<noteq> 0" by (auto simp: word_bit_def)
    moreover have "word_bit (?ws[i div 64 := ?v AND NOT ?m]) = (\<lambda>k. k \<in> bits b \<and> k \<notin> {i..<i + count})"
    proof (rule ext)
      fix k show "word_bit (?ws[i div 64 := ?v AND NOT ?m]) k = (k \<in> bits b \<and> k \<notin> {i..<i + count})"
        using r [of k] c
        by (cases "k div 64 = i div 64") (auto simp: word_bit_update wb word_bit_def bit_and_iff bit_not_iff m simp del: push_bit_of_1)
    qed
    ultimately show ?thesis using True sub eq assms(1) c d(2)
      clear_word_represents [of b d "\<lambda>i. i \<in> bits b" "i div 64" "?v AND NOT ?m"] by (auto simp: bitmap_ok_def)
  qed
qed

lemma all_ones_range:
  "i + n \<le> length ws \<Longrightarrow> all_ones n i ws = Some (\<forall>k. i * 64 \<le> k \<and> k < (i + n) * 64 \<longrightarrow> word_bit ws k)"
proof (induction n arbitrary: i)
  case (Suc n)
  have "ws ! i = NOT 0 \<longleftrightarrow> (\<forall>k. i * 64 \<le> k \<and> k < (i + 1) * 64 \<longrightarrow> word_bit ws k)"
  proof
    assume "ws ! i = NOT 0"
    moreover have "k div 64 = i" if "i * 64 \<le> k" "k < (i + 1) * 64" for k using that by (intro div_nat_eqI) simp_all
    ultimately show "\<forall>k. i * 64 \<le> k \<and> k < (i + 1) * 64 \<longrightarrow> word_bit ws k" using Suc.prems by (simp add: word_bit_def)
  next
    assume a: "\<forall>k. i * 64 \<le> k \<and> k < (i + 1) * 64 \<longrightarrow> word_bit ws k"
    have "bit (ws ! i) j" if "j < 64" for j using a [rule_format, of "i * 64 + j"] that word_bit_word [OF that, of ws i] by simp
    then show "ws ! i = NOT 0" by (intro bit_word_eqI) (simp add: bit_not_iff)
  qed
  moreover have "(\<forall>k. i * 64 \<le> k \<and> k < (i + Suc n) * 64 \<longrightarrow> word_bit ws k) \<longleftrightarrow>
      (\<forall>k. i * 64 \<le> k \<and> k < (i + 1) * 64 \<longrightarrow> word_bit ws k) \<and> (\<forall>k. (i + 1) * 64 \<le> k \<and> k < (i + 1 + n) * 64 \<longrightarrow> word_bit ws k)"
    using le_less_linear by (auto 4 3)
  ultimately show ?case using Suc.IH [of "i + 1"] Suc.prems by simp
qed auto

lemma clear_words_represents:
  assumes "m_used_depths b = Suc d" "length (m_bit_storages b) = Suc d" "represents (rev (m_bit_storages b)) P"
    and "i + n \<le> length (m_bit_storages b ! d)" "\<forall>k. i * 64 \<le> k \<and> k < (i + n) * 64 \<longrightarrow> P k"
  shows "\<exists>st. clear_words n i b = Some (b\<lparr>m_bit_storages := st\<rparr>) \<and> same_shape (m_bit_storages b) st \<and>
    represents (rev st) (\<lambda>k. P k \<and> \<not> (i * 64 \<le> k \<and> k < (i + n) * 64))"
  using assms
proof (induction n arbitrary: i b P)
  case 0
  then show ?case by (intro exI [of _ "m_bit_storages b"]) (auto cong: conj_cong)
next
  case (Suc n)
  let ?ws = "m_bit_storages b ! d"
  have wb: "word_bit ?ws = P"
    using Suc.prems(2,3) by (cases "m_bit_storages b" rule: rev_cases) (simp_all add: nth_append)
  have i: "i < length ?ws" using Suc.prems(4) by simp
  have "word_bit ?ws (i * 64 + 0)" unfolding wb using Suc.prems(5) by simp
  then have "?ws ! i \<noteq> 0" using word_bit_word [of 0 ?ws i] by auto
  from clear_word_represents [OF Suc.prems(2,3) i this, of 0] obtain st where st:
    "ClearBit_loop d i (b\<lparr>m_bit_storages := (m_bit_storages b)[d := ?ws[i := 0]]\<rparr>) = Some (b\<lparr>m_bit_storages := st\<rparr>)"
    "same_shape (m_bit_storages b) st" "represents (rev st) (word_bit (?ws[i := 0]))" by auto
  have "word_bit (?ws[i := 0]) = (\<lambda>k. P k \<and> k div 64 \<noteq> i)" by (auto simp: fun_eq_iff word_bit_update [OF i] wb)
  with st(3) have r: "represents (rev (m_bit_storages (b\<lparr>m_bit_storages := st\<rparr>))) (\<lambda>k. P k \<and> k div 64 \<noteq> i)" by simp
  have "length st = Suc d" "length (st ! d) = length ?ws"
    using same_shape_length [OF st(2)] same_shape_nth [OF st(2)] Suc.prems(2) by simp_all
  moreover have "\<forall>k. (i + 1) * 64 \<le> k \<and> k < (i + 1 + n) * 64 \<longrightarrow> P k \<and> k div 64 \<noteq> i"
    using Suc.prems(5) by (auto simp: div_less_iff_less_mult)
  ultimately have "\<exists>st'. clear_words n (i + 1) (b\<lparr>m_bit_storages := st\<rparr>) = Some (b\<lparr>m_bit_storages := st\<rparr>\<lparr>m_bit_storages := st'\<rparr>) \<and>
      same_shape (m_bit_storages (b\<lparr>m_bit_storages := st\<rparr>)) st' \<and>
      represents (rev st') (\<lambda>k. (P k \<and> k div 64 \<noteq> i) \<and> \<not> ((i + 1) * 64 \<le> k \<and> k < (i + 1 + n) * 64))"
    using Suc.prems r by (intro Suc.IH) simp_all
  then obtain st' where st': "clear_words n (i + 1) (b\<lparr>m_bit_storages := st\<rparr>) = Some (b\<lparr>m_bit_storages := st'\<rparr>)"
    "same_shape st st'" "represents (rev st') (\<lambda>k. (P k \<and> k div 64 \<noteq> i) \<and> \<not> ((i + 1) * 64 \<le> k \<and> k < (i + 1 + n) * 64))"
    by auto
  moreover have "(\<lambda>k. (P k \<and> k div 64 \<noteq> i) \<and> \<not> ((i + 1) * 64 \<le> k \<and> k < (i + 1 + n) * 64)) =
      (\<lambda>k. P k \<and> \<not> (i * 64 \<le> k \<and> k < (i + Suc n) * 64))"
  proof (rule ext)
    fix k
    have "k div 64 = i \<longleftrightarrow> i * 64 \<le> k \<and> k < (i + 1) * 64" by (auto intro: div_nat_eqI)
    then show "((P k \<and> k div 64 \<noteq> i) \<and> \<not> ((i + 1) * 64 \<le> k \<and> k < (i + 1 + n) * 64)) =
      (P k \<and> \<not> (i * 64 \<le> k \<and> k < (i + Suc n) * 64))" by auto
  qed
  moreover have "clear_words (Suc n) i b = clear_words n (i + 1) (b\<lparr>m_bit_storages := st\<rparr>)"
    using Suc.prems(1,2) i st(1) by (simp add: Let_def)
  ultimately show ?case using same_shape_trans [OF st(2) st'(2)] by auto
qed

lemma ClearRange_becomes:
  assumes "bitmap_ok b" "0 < count" "i + count \<le> capacity b"
    and "count < 64 \<and> i mod 64 + count \<le> 64 \<or> i mod 64 = 0 \<and> count mod 64 = 0"
  shows "if {i..<i + count} \<subseteq> bits b then \<exists>b'. ClearRange i count b = Some (True, b') \<and> becomes b (bits b - {i..<i + count}) b'
    else ClearRange i count b = Some (False, b)"
proof -
  obtain d where d: "m_used_depths b = Suc d" "length (m_bit_storages b) = Suc d"
    "last (m_bit_storages b) = m_bit_storages b ! d" using bitmap_last [OF assms(1)] .
  have ok: "represents (rev (m_bit_storages b)) (\<lambda>i. i \<in> bits b)" using assms(1) by (simp add: bitmap_ok_def)
  let ?r = "if count < 64 then ClearRange_word i count b else ClearRange_words i count b"
  have r: "if {i..<i + count} \<subseteq> bits b
    then \<exists>st. ?r = Some (True, b\<lparr>m_bit_storages := st\<rparr>) \<and> same_shape (m_bit_storages b) st \<and>
      represents (rev st) (\<lambda>k. k \<in> bits b \<and> k \<notin> {i..<i + count})
    else ?r = Some (False, b)"
  proof (cases "count < 64")
    case True
    then have "i mod 64 + count \<le> 64" using assms(4) by auto
    from ClearRange_word_becomes [OF assms(1,2) True this assms(3)] show ?thesis unfolding if_P [OF True] .
  next
    case False
    then have m: "i mod 64 = 0" "count mod 64 = 0" using assms(4) by auto
    then have e: "i div 64 * 64 = i" "(i div 64 + count div 64) * 64 = i + count" by (simp_all add: add_mult_distrib mod_0_imp_dvd)
    have l: "i div 64 + count div 64 \<le> length (m_bit_storages b ! d)"
      using assms(3) m by (auto simp: capacity_def d(3) elim!: dvdE dest!: mod_0_imp_dvd)
    have sub: "(\<forall>k. i \<le> k \<and> k < i + count \<longrightarrow> word_bit (m_bit_storages b ! d) k) \<longleftrightarrow> {i..<i + count} \<subseteq> bits b"
      by (auto simp: bits_def d(3))
    have w: "?r = (if {i..<i + count} \<subseteq> bits b then map_option (Pair True) (clear_words (count div 64) (i div 64) b) else Some (False, b))"
      using False m d all_ones_range [OF l] unfolding e sub by (simp add: ClearRange_words_def Let_def cong: if_cong)
    show ?thesis
    proof (cases "{i..<i + count} \<subseteq> bits b")
      case True
      then have "\<forall>k. i div 64 * 64 \<le> k \<and> k < (i div 64 + count div 64) * 64 \<longrightarrow> k \<in> bits b" unfolding e by auto
      from clear_words_represents [OF d(1,2) ok l this] True w show ?thesis unfolding e by auto
    qed (simp add: w)
  qed
  show ?thesis
  proof (cases "{i..<i + count} \<subseteq> bits b")
    case False
    with r d show ?thesis by (simp add: ClearRange_def)
  next
    case True
    then obtain st where st: "?r = Some (True, b\<lparr>m_bit_storages := st\<rparr>)" "same_shape (m_bit_storages b) st"
      "represents (rev st) (\<lambda>k. k \<in> bits b \<and> k \<notin> {i..<i + count})" using r by auto
    have s: "{k. k \<in> bits b \<and> k \<notin> {i..<i + count}} = bits b - {i..<i + count}" by auto
    have c: "card (bits b) < 2 ^ 64" "count \<le> card (bits b)"
      using card_mono [OF _ bits_below [of b]] card_mono [OF _ True] assms(1) by (auto simp: bitmap_ok_def)
    have n: "sub64 (m_num_bits b) count = card (bits b - {i..<i + count})"
      using c assms(1) True by (subst sub64_exact) (auto simp: bitmap_ok_def card_Diff_subset)
    have "becomes b (bits b - {i..<i + count}) (b\<lparr>m_bit_storages := st, m_num_bits := sub64 (m_num_bits b) count\<rparr>)"
      using becomesI [OF assms(1) st(2,3)] unfolding s n by simp
    with st(1) True d show ?thesis by (simp add: ClearRange_def)
  qed
qed

text \<open>Initialisation on zeroed storage gives the empty set.\<close>

lemma words_for_exact: "n + 64 < 2 ^ 64 \<Longrightarrow> words_for n = (n + 63) div 64"
proof -
  assume n: "n + 64 < 2 ^ 64"
  have "n - n mod 64 + 64 < 2 ^ 64" using n by linarith
  then have "AlignUp n 64 = (if n mod 64 = 0 then n else n - n mod 64 + 64)" by (simp add: AlignUp_def add64_exact)
  moreover have "n - n mod 64 = n div 64 * 64" by (simp add: minus_mod_eq_div_mult)
  moreover have "(n + 63) div 64 = n div 64 + (n mod 64 + 63) div 64" by (simp add: div_add1_eq [of n 63 64])
  moreover have "n mod 64 \<noteq> 0 \<Longrightarrow> (n mod 64 + 63) div 64 = 1" by (intro div_nat_eqI) auto
  ultimately show ?thesis by (auto simp: words_for_def)
qed

lemma words_for_covers: "n + 64 < 2 ^ 64 \<Longrightarrow> n \<le> 64 * words_for n \<and> 64 * words_for n < n + 64"
  using dividend_less_times_div [of 64 "n + 63"] times_div_less_eq_dividend [of 64 "n + 63"] by (simp add: words_for_exact)

lemma represents_zeros:
  "set ws \<subseteq> {0} \<Longrightarrow> word_bit ws = (\<lambda>_. False)" "set ws \<subseteq> {0} \<Longrightarrow> nonzero ws = (\<lambda>_. False)"
  by (auto simp: fun_eq_iff word_bit_def nonzero_def dest!: nth_mem subsetD)

lemma carve_zeros:
  assumes "0 < n" "n \<le> 64 ^ Suc d" "n + 64 < 2 ^ 64" "overhead_words (Suc d) n \<le> length storage" "set storage \<subseteq> {0}"
  shows "\<exists>ls. carve (Suc d) n storage = Some (ls, drop (overhead_words (Suc d) n) storage) \<and> length ls = Suc d \<and>
    length (hd ls) = 1 \<and> length (last ls) = words_for n \<and> represents (rev ls) (\<lambda>_. False)"
  using assms
proof (induction d arbitrary: n storage)
  case 0
  then have "words_for n = 1" using words_for_exact [of n] by simp
  moreover have "set (take 1 storage) \<subseteq> {0}" using 0(5) set_take_subset by fastforce
  ultimately show ?case using 0(4) represents_zeros by (cases storage) auto
next
  case (Suc d)
  let ?w = "words_for n"
  have w: "?w = (n + 63) div 64" using words_for_exact [OF Suc.prems(3)] .
  have "(n + 63) div 64 \<le> 64 ^ Suc d" 
    using div_le_mono [of "n + 63" "64 ^ Suc d * 64 + 63" 64] Suc.prems(2) by simp
  moreover have "0 < ?w" "?w + 64 < 2 ^ 64" using w Suc.prems(1,3) by (simp_all add: div_greater_zero_iff)
  moreover have "overhead_words (Suc d) ?w \<le> length (drop ?w storage)" "set (drop ?w storage) \<subseteq> {0}"
    using Suc.prems(4,5) set_drop_subset [of ?w storage] by auto
  ultimately obtain ls where ls: "carve (Suc d) ?w (drop ?w storage) = Some (ls, drop (overhead_words (Suc d) ?w) (drop ?w storage))"
    "length ls = Suc d" "length (hd ls) = 1" "length (last ls) = words_for ?w" "represents (rev ls) (\<lambda>_. False)"
    using Suc.IH [of ?w "drop ?w storage"] w by metis
  have z: "set (take ?w storage) \<subseteq> {0}" using Suc.prems(5) set_take_subset by fastforce
  have t: "?w \<le> length storage" "?w \<le> 64 * words_for ?w"
    using Suc.prems(4) words_for_covers [of ?w] \<open>?w + 64 < 2 ^ 64\<close> by simp_all
  have ne: "ls \<noteq> []" using ls(2) by auto
  then have "represents (rev (ls @ [take ?w storage])) (\<lambda>_. False)"
    using ls(4,5) t represents_zeros [OF z] by (simp add: hd_rev min_absorb2)
  then show ?case using ls t ne
    by (intro exI [of _ "ls @ [take ?w storage]"]) (simp add: add.commute min_absorb2)
qed

lemma GetRequiredDepth_bound: "n < 64 ^ GetRequiredDepth n" "n < 64 ^ Suc d \<Longrightarrow> GetRequiredDepth n \<le> Suc d" "0 < GetRequiredDepth n"
proof -
  show "n < 64 ^ GetRequiredDepth n"
  proof (induction n rule: GetRequiredDepth.induct)
    case (1 n)
    then show ?case by (subst GetRequiredDepth.simps) (auto simp: div_less_iff_less_mult mult.commute)
  qed
  show "n < 64 ^ Suc d \<Longrightarrow> GetRequiredDepth n \<le> Suc d"
  proof (induction n arbitrary: d rule: GetRequiredDepth.induct)
    case (1 n)
    show ?case
    proof (cases d)
      case 0
      with 1(2) show ?thesis by (subst GetRequiredDepth.simps) simp
    next
      case (Suc d')
      with 1(2) have "n div 64 < 64 ^ Suc d'" by (simp add: div_less_iff_less_mult mult.commute)
      with 1(1) [of d'] Suc show ?thesis by (subst GetRequiredDepth.simps) simp
    qed
  qed
  show "0 < GetRequiredDepth n" by (subst GetRequiredDepth.simps) simp
qed

lemma Initialize_bitmap_empty:
  assumes "0 < sz" "sz < 64 ^ 4" "CalculateManagementOverheadSize sz \<le> 8 * length storage" "set storage \<subseteq> {0}"
  shows "\<exists>b'. Initialize_bitmap storage sz b = Some (drop (CalculateManagementOverheadSize sz div 8) storage, b') \<and>
    bitmap_ok b' \<and> bits b' = {} \<and> sz \<le> capacity b' \<and> asserted b' = asserted b"
proof -
  obtain d where d: "GetRequiredDepth sz = Suc d" using GetRequiredDepth_bound(3) [of sz] by (cases "GetRequiredDepth sz") auto
  have s: "sz + 64 < 2 ^ 64" "GetRequiredDepth sz \<le> MaxDepth" "sz \<le> 64 ^ Suc d"
    using assms(2) GetRequiredDepth_bound(2) [of sz 3] GetRequiredDepth_bound(1) [of sz] d by (simp_all add: MaxDepth_def)
  from carve_zeros [OF assms(1) s(3,1), of storage] assms(3,4) d obtain ls where ls:
    "carve (Suc d) sz storage = Some (ls, drop (overhead_words (Suc d) sz) storage)" "length ls = Suc d"
    "length (hd ls) = 1" "length (last ls) = words_for sz" "represents (rev ls) (\<lambda>_. False)"
    by (auto simp: CalculateManagementOverheadSize_def)
  have "word_bit (last ls) = (\<lambda>_. False)" using ls(2,5) by (cases ls rule: rev_cases) auto
  moreover have "sz \<le> 64 * words_for sz" "64 * words_for sz < 2 ^ 63"
    using words_for_covers [OF s(1)] assms(2) by simp_all
  ultimately show ?thesis using ls s(2) d
    by (simp add: Initialize_bitmap_def CalculateManagementOverheadSize_def Let_def bitmap_ok_def bits_def capacity_def)
qed

section \<open>Taking blocks out of a set\<close>

text \<open>
  What the clients of the bitmap rely on: finding and removing elements of a set of numbers.
  \<open>becomes b S b'\<close> says that \<open>b'\<close> is \<open>b\<close> with the set \<open>S\<close> instead of its own.
\<close>

primrec take_blocks ::
  "(bool \<Rightarrow> 'b \<Rightarrow> (int \<times> 'b) option) \<Rightarrow> (nat \<Rightarrow> 'b \<Rightarrow> 'b option) \<Rightarrow> bool \<Rightarrow> nat \<Rightarrow> 'b \<Rightarrow> (nat list \<times> 'b) option" where
  "take_blocks find_one remove r 0 b = Some ([], b)"
| "take_blocks find_one remove r (Suc n) b = do {
     (i, b1) \<leftarrow> find_one r b;
     if i < 0 then Some ([], b1)
     else do {
       b2 \<leftarrow> remove (nat i) b1;
       (is, b3) \<leftarrow> take_blocks find_one remove r n b2;
       Some (nat i # is, b3)
     }
   }"

locale block_set =
  fixes ok :: "'b \<Rightarrow> bool" and elems :: "'b \<Rightarrow> nat set" and becomes_set :: "'b \<Rightarrow> nat set \<Rightarrow> 'b \<Rightarrow> bool"
    and find_one :: "bool \<Rightarrow> 'b \<Rightarrow> (int \<times> 'b) option" and remove :: "nat \<Rightarrow> 'b \<Rightarrow> 'b option"
  assumes finite_elems: "ok b \<Longrightarrow> finite (elems b)"
    and becomes_self: "ok b \<Longrightarrow> becomes_set b (elems b) b"
    and becomes_ok: "becomes_set b S b' \<Longrightarrow> ok b' \<and> elems b' = S"
    and becomes_trans: "becomes_set b S b' \<Longrightarrow> becomes_set b' S' b'' \<Longrightarrow> becomes_set b S' b''"
    and find_none: "ok b \<Longrightarrow> elems b = {} \<Longrightarrow> find_one r b = Some (- 1, b)"
    and find_some: "ok b \<Longrightarrow> elems b \<noteq> {} \<Longrightarrow> \<exists>i b'. find_one r b = Some (int i, b') \<and> i \<in> elems b \<and> becomes_set b (elems b) b'"
    and remove_some: "ok b \<Longrightarrow> i \<in> elems b \<Longrightarrow> \<exists>b'. remove i b = Some b' \<and> becomes_set b (elems b - {i}) b'"
begin

lemma take_one:
  assumes "ok b" "elems b \<noteq> {}"
  shows "\<exists>i b1 b2. find_one r b = Some (int i, b1) \<and> remove i b1 = Some b2 \<and> i \<in> elems b \<and> becomes_set b (elems b - {i}) b2"
proof -
  obtain i b1 where b1: "find_one r b = Some (int i, b1)" "i \<in> elems b" "becomes_set b (elems b) b1"
    using find_some [OF assms] by blast
  then have "ok b1" "elems b1 = elems b" using becomes_ok by auto
  with b1(2) obtain b2 where "remove i b1 = Some b2" "becomes_set b1 (elems b - {i}) b2" using remove_some [of b1 i] by auto
  with b1 becomes_trans show ?thesis by blast
qed

lemma take_many:
  assumes "ok b"
  shows "\<exists>is b'. take_blocks find_one remove r n b = Some (is, b') \<and> distinct is \<and> set is \<subseteq> elems b \<and>
    length is = min n (card (elems b)) \<and> becomes_set b (elems b - set is) b'"
  using assms
proof (induction n arbitrary: b)
  case 0
  then show ?case using becomes_self by simp
next
  case (Suc n)
  show ?case
  proof (cases "elems b = {}")
    case True
    then show ?thesis using find_none [OF Suc.prems True, of r] becomes_self [OF Suc.prems] by simp
  next
    case False
    from take_one [OF Suc.prems False, of r] obtain i b1 b2 where t: "find_one r b = Some (int i, b1)" "remove i b1 = Some b2"
      "i \<in> elems b" "becomes_set b (elems b - {i}) b2" by blast
    have e: "ok b2" "elems b2 = elems b - {i}" using becomes_ok [OF t(4)] by auto
    from Suc.IH [OF e(1)] obtain "is" b' where r: "take_blocks find_one remove r n b2 = Some (is, b')" "distinct is"
      "set is \<subseteq> elems b - {i}" "length is = min n (card (elems b - {i}))" "becomes_set b2 (elems b - {i} - set is) b'"
      unfolding e(2) by blast
    have c: "card (elems b) = Suc (card (elems b - {i}))" by (rule card.remove [OF finite_elems [OF Suc.prems] t(3)])
    have "elems b - {i} - set is = elems b - set (i # is)" by auto
    then have "becomes_set b (elems b - set (i # is)) b'" using becomes_trans [OF t(4) r(5)] by simp
    moreover have "distinct (i # is)" "set (i # is) \<subseteq> elems b" using r(2,3) t(3) by auto
    moreover have "take_blocks find_one remove r (Suc n) b = Some (i # is, b')" using t(1,2) r(1) by simp
    moreover have "length (i # is) = min (Suc n) (card (elems b))" using r(4) c by simp
    ultimately show ?thesis by blast
  qed
qed

end

interpretation page_bitmap: block_set bitmap_ok bits becomes FindFreeBlock ClearBit
proof
  fix b i r assume ok: "bitmap_ok b"
  show "bits b = {} \<Longrightarrow> FindFreeBlock r b = Some (- 1, b)" using FindFreeBlock_finds [OF ok, of r] by simp
  assume "bits b \<noteq> {}"
  moreover have "becomes b (bits b) (b\<lparr>m_gen := g\<rparr>)" for g
    using ok by (simp add: becomes_def bitmap_ok_def bits_def capacity_def)
  ultimately show "\<exists>i b'. FindFreeBlock r b = Some (int i, b') \<and> i \<in> bits b \<and> becomes b (bits b) b'"
    using FindFreeBlock_finds [OF ok, of r] by auto
qed (auto simp: becomes_def intro: ClearBit_becomes [unfolded becomes_def])

subsection \<open>Finding a free range\<close>

text \<open>
  \<open>FindFreeRange\<close> looks at the ranges that start at a multiple of \<open>count\<close> within a word.  \<open>fits\<close> says that
  such a range starts at \<open>i\<close> and is free; \<open>picked\<close> is what the loops keep of the ranges seen so far.
\<close>

definition fits :: "k_page_bitmap \<Rightarrow> nat \<Rightarrow> nat \<Rightarrow> bool" where
  "fits b count i \<longleftrightarrow> (\<exists>w k. i = w * 64 + k * count \<and> k < 64 div count \<and> {i..<i + count} \<subseteq> bits b)"

fun picked :: "nat set \<Rightarrow> nat \<times> int \<times> random_bit_generator \<Rightarrow> bool" where
  "picked S (num_valid, chosen, g) \<longleftrightarrow>
     (if S = {} then num_valid = 0 \<and> chosen = - 1 else 0 < num_valid \<and> (\<exists>i\<in>S. chosen = int i))"

definition word_options :: "u64 \<Rightarrow> nat \<Rightarrow> nat \<Rightarrow> nat set \<Rightarrow> nat set" where
  "word_options v count w K = {w * 64 + k * count |k. k \<in> K \<and> (\<forall>j<count. bit v (k * count + j))}"

lemma free_mask_bits:
  fixes v :: u64
  assumes "count < 64"
  shows "drop_bit a v AND (push_bit count 1 - 1) = push_bit count 1 - 1 \<longleftrightarrow> (\<forall>j<count. bit v (a + j))"
proof -
  have "bit (push_bit count 1 - 1 :: u64) j \<longleftrightarrow> j < count" for j
    using bit_range_mask [of 0 count j] assms by (simp del: push_bit_of_1)
  then show ?thesis by (auto simp: and_mask_eq bit_drop_bit_eq simp del: push_bit_of_1)
qed

lemma unat_small: "n < 2 ^ 64 \<Longrightarrow> unat (of_nat n :: u64) = n"
  by (simp add: unat_of_nat take_bit_nat_eq_self)

lemma try_option_picked:
  assumes "picked S s" "fst s + 1 < 2 ^ 30"
  shows "\<exists>s'. try_option free i s = Some s' \<and> picked (if free then insert i S else S) s' \<and> fst s' \<le> fst s + 1"
proof -
  obtain nv c g where s: "s = (nv, c, g)" by (cases s)
  show ?thesis
  proof (cases "free \<and> nv \<noteq> 0")
    case False
    then show ?thesis using assms(1) s by (auto simp: try_option_def)
  next
    case True
    then have S: "S \<noteq> {}" "\<exists>i\<in>S. c = int i" using assms(1) s by (auto split: if_splits)
    have n: "unat (of_nat (nv + 1) :: u64) = nv + 1" "nv + 1 < 2 ^ 30" using assms(2) s by (simp_all add: unat_small del: of_nat_add of_nat_Suc)
    obtain r g' where "GenerateRandom (of_nat (nv + 1)) g = Some (r, g')"
      using GenerateRandom_below [of "of_nat (nv + 1)" g] unfolding n(1) using n(2) by auto
    then show ?thesis using True S s by (auto simp: try_option_def simp del: of_nat_add)
  qed
qed

lemma range_options_picked:
  assumes "0 < count" "count < 64" "picked S s" "fst s + n < 2 ^ 30"
  shows "\<exists>s'. range_options n count (push_bit count 1 - 1) w k (drop_bit (k * count) v) s = Some s' \<and>
    picked (S \<union> word_options v count w {k..<k + n}) s' \<and> fst s' \<le> fst s + n"
  using assms(3,4)
proof (induction n arbitrary: S s k)
  case 0
  then show ?case by (simp add: word_options_def)
next
  case (Suc n)
  let ?S = "S \<union> word_options v count w {k}" and ?free = "\<forall>j<count. bit v (k * count + j)"
  have S: "(if ?free then insert (w * 64 + k * count) S else S) = ?S" by (auto simp: word_options_def)
  have "fst s + 1 < 2 ^ 30" using Suc.prems(2) by simp
  from try_option_picked [OF Suc.prems(1) this, of ?free "w * 64 + k * count", unfolded S]
  obtain s1 where t: "try_option ?free (w * 64 + k * count) s = Some s1" "picked ?S s1" "fst s1 \<le> fst s + 1" by blast
  have d: "drop_bit count (drop_bit (k * count) v) = drop_bit ((k + 1) * count) v" by (simp add: add.commute)
  have s1: "range_options (Suc n) count (push_bit count 1 - 1) w k (drop_bit (k * count) v) s =
      range_options n count (push_bit count 1 - 1) w (k + 1) (drop_bit ((k + 1) * count) v) s1"
    unfolding range_options.simps free_mask_bits [OF assms(2)] t(1) d by simp
  have "fst s1 + n < 2 ^ 30" using t(3) Suc.prems(2) by simp
  from Suc.IH [OF t(2) this, of "k + 1"] obtain s' where s':
    "range_options n count (push_bit count 1 - 1) w (k + 1) (drop_bit ((k + 1) * count) v) s1 = Some s'"
    "picked (?S \<union> word_options v count w {k + 1..<k + 1 + n}) s'" "fst s' \<le> fst s1 + n" by blast
  have "?S \<union> word_options v count w {k + 1..<k + 1 + n} = S \<union> word_options v count w {k..<k + Suc n}"
    by (auto simp: word_options_def Suc_le_eq intro: le_neq_implies_less)
  then show ?case using s1 t(3) s' by auto
qed

lemma range_words_picked:
  assumes "0 < count" "count < 64" "picked S s" "fst s + 64 div count * length ws < 2 ^ 30"
  shows "\<exists>s'. range_words ws count (push_bit count 1 - 1) w s = Some s' \<and>
    picked (S \<union> (\<Union>n<length ws. word_options (ws ! n) count (w + n) {..<64 div count})) s'"
  using assms(3,4)
proof (induction ws arbitrary: S s w)
  case (Cons v ws)
  let ?O = "word_options v count w {..<64 div count}" and ?m = "push_bit count 1 - 1 :: u64"
  have m: "max (64 div count) 1 = 64 div count" using assms(1,2) by (simp add: div_greater_zero_iff Suc_le_eq max_absorb1)
  have "fst s + 64 div count < 2 ^ 30" using Cons.prems(2) by simp
  from range_options_picked [OF assms(1,2) Cons.prems(1) this, of w 0 v] obtain s1 where s1:
    "range_options (max (64 div count) 1) count ?m w 0 v s = Some s1" "picked (S \<union> ?O) s1" "fst s1 \<le> fst s + 64 div count"
    unfolding m by (auto simp: atLeast0LessThan simp del: push_bit_of_1)
  have "fst s1 + 64 div count * length ws < 2 ^ 30" using s1(3) Cons.prems(2) by simp
  from Cons.IH [OF s1(2) this, of "w + 1"] obtain s' where s': "range_words ws count ?m (w + 1) s1 = Some s'"
    "picked (S \<union> ?O \<union> (\<Union>n<length ws. word_options (ws ! n) count (w + 1 + n) {..<64 div count})) s'" by blast
  have "(\<Union>n<length (v # ws). word_options ((v # ws) ! n) count (w + n) {..<64 div count}) =
    ?O \<union> (\<Union>n<length ws. word_options (ws ! n) count (w + 1 + n) {..<64 div count})"
    by (simp add: lessThan_Suc_eq_insert_0 image_image)
  then show ?case using s1(1) s' by (simp add: Un_assoc del: push_bit_of_1)
qed simp

lemma option_in_word:
  fixes k count j :: nat
  assumes "k < 64 div count" "j < count"
  shows "k * count + j < 64"
proof -
  have "k * count + j < (k + 1) * count" using assms(2) by (simp add: add_mult_distrib)
  also have "\<dots> \<le> 64 div count * count" using assms(1) by (intro mult_le_mono1) simp
  finally show ?thesis using div_times_less_eq_dividend [of 64 count] by linarith
qed

lemma fits_options:
  assumes "0 < count" "ws = last (m_bit_storages b)"
  shows "fits b count i \<longleftrightarrow> i \<in> (\<Union>n<length ws. word_options (ws ! n) count n {..<64 div count})"
proof -
  have wb: "n * 64 + k * count + j \<in> bits b \<longleftrightarrow> n < length ws \<and> bit (ws ! n) (k * count + j)" if "k < 64 div count" "j < count" for n k j
    using word_bit_word [OF option_in_word [OF that], of ws n] assms(2) by (simp add: bits_def add.assoc)
  have rng: "{a..<a + count} \<subseteq> bits b \<longleftrightarrow> (\<forall>j<count. a + j \<in> bits b)" for a
    by (auto simp: subset_iff) (metis le_Suc_ex nat_add_left_cancel_less)
  have "fits b count i \<longleftrightarrow> (\<exists>w k. i = w * 64 + k * count \<and> k < 64 div count \<and> w < length ws \<and> (\<forall>j<count. bit (ws ! w) (k * count + j)))"
    unfolding fits_def rng using wb assms(1) by blast
  then show ?thesis by (auto simp: word_options_def)
qed

lemma FindFreeRange_finds:
  assumes "bitmap_ok b" "capacity b < 2 ^ 30" "0 < count" "count < 64"
  shows "\<exists>r g. FindFreeRange count b = Some (r, b\<lparr>m_gen := g\<rparr>) \<and>
    (if \<exists>i. fits b count i then \<exists>i. r = int i \<and> fits b count i else r = - 1)"
proof -
  let ?ws = "last (m_bit_storages b)"
  obtain d where d: "m_used_depths b = Suc d" "length (m_bit_storages b) = Suc d" "?ws = m_bit_storages b ! d"
    using bitmap_last [OF assms(1)] .
  have "64 div count * length ?ws < 2 ^ 30"
    using assms(2) by (rule le_less_trans [rotated]) (simp add: capacity_def)
  then obtain nv c g where r: "range_words ?ws count (push_bit count 1 - 1) 0 (0, - 1, m_gen b) = Some (nv, c, g)"
    "picked (\<Union>n<length ?ws. word_options (?ws ! n) count n {..<64 div count}) (nv, c, g)"
    using range_words_picked [OF assms(3,4), of "{}" "(0, - 1, m_gen b)" ?ws 0] by (auto simp del: push_bit_of_1)
  have f: "(\<Union>n<length ?ws. word_options (?ws ! n) count n {..<64 div count}) = {i. fits b count i}"
    using fits_options [OF assms(3) refl, of b] by blast
  have "?ws \<noteq> []" if "fits b count i" for i
    using that assms(3) d(3) by (auto simp: fits_def bits_def word_bit_def subset_iff)
  then have e: "{i. fits b count i} = {} \<and> c = - 1 \<or> ?ws \<noteq> [] \<and> (\<exists>i. fits b count i \<and> c = int i)"
    using r(2) unfolding f by (auto split: if_splits)
  show ?thesis
  proof (cases "?ws = []")
    case True
    then have "FindFreeRange count b = Some (- 1, b)" using d by (simp add: FindFreeRange_def)
    then show ?thesis using e True by (intro exI [of _ "- 1"] exI [of _ "m_gen b"]) auto
  next
    case False
    then have "FindFreeRange count b = Some (c, b\<lparr>m_gen := g\<rparr>)" using assms(3,4) d r(1) by (simp add: FindFreeRange_def del: push_bit_of_1)
    then show ?thesis using e by auto
  qed
qed

subsection \<open>The bitmap as a set\<close>

lemma fits_clears:
  assumes "bitmap_ok b" "0 < count" "count < 64" "fits b count i"
  shows "\<exists>b'. ClearRange i count b = Some (True, b') \<and> becomes b (bits b - {i..<i + count}) b'"
proof -
  obtain w k where f: "i = w * 64 + k * count" "k < 64 div count" "{i..<i + count} \<subseteq> bits b"
    using assms(4) by (auto simp: fits_def)
  have "k * count + (count - 1) < 64" using assms(2) by (intro option_in_word [OF f(2)]) simp
  then have "k * count < 64" "k * count + count \<le> 64" using assms(2) by linarith+
  then have m: "i mod 64 + count \<le> 64" unfolding f(1) by simp
  have "i + count - 1 \<in> bits b" using f(3) assms(2) by auto
  then have "i + count \<le> capacity b" using bits_below [of b] by auto
  then show ?thesis using ClearRange_becomes [OF assms(1,2)] m assms(3) f(3) by auto
qed

text \<open>
  C22.  Through its operations a bitmap is a finite set of block numbers, and the counter is its size.
  Setting a bit inserts it and clearing removes it, at every level; neither touches memory outside of the
  levels or breaks an assertion.  Searching, at random or not, finds a block exactly when there is one, and
  taking \<open>n\<close> blocks one after the other gives \<open>n\<close> different ones while there are any.  A search for a range
  finds one exactly when one lies free at a multiple of its length within a word, and the range that it
  finds can be cleared.
\<close>

theorem bitmap_refines_set:
  assumes "bitmap_ok b"
  shows "m_num_bits b = card (bits b) \<and>
    (i < capacity b \<and> i \<notin> bits b \<longrightarrow> (\<exists>b'. SetBit i b = Some b' \<and> becomes b (insert i (bits b)) b')) \<and>
    (i \<in> bits b \<longrightarrow> (\<exists>b'. ClearBit i b = Some b' \<and> becomes b (bits b - {i}) b')) \<and>
    (if bits b = {} then FindFreeBlock random b = Some (- 1, b)
     else \<exists>j b'. FindFreeBlock random b = Some (int j, b') \<and> j \<in> bits b \<and> becomes b (bits b) b') \<and>
    (\<exists>js b'. take_blocks FindFreeBlock ClearBit random n b = Some (js, b') \<and> distinct js \<and> set js \<subseteq> bits b \<and>
       length js = min n (card (bits b)) \<and> becomes b (bits b - set js) b') \<and>
    (0 < count \<and> count < 64 \<and> capacity b < 2 ^ 30 \<longrightarrow>
       (if \<exists>j. fits b count j
        then \<exists>j b1 b2. FindFreeRange count b = Some (int j, b1) \<and> fits b count j \<and>
          ClearRange j count b1 = Some (True, b2) \<and> becomes b (bits b - {j..<j + count}) b2
        else \<exists>b1. FindFreeRange count b = Some (- 1, b1) \<and> becomes b (bits b) b1))"
proof (intro conjI impI)
  show "m_num_bits b = card (bits b)" using assms by (simp add: bitmap_ok_def)
  show "\<exists>b'. SetBit i b = Some b' \<and> becomes b (insert i (bits b)) b'" if "i < capacity b \<and> i \<notin> bits b"
    using SetBit_becomes assms that by blast
  show "\<exists>b'. ClearBit i b = Some b' \<and> becomes b (bits b - {i}) b'" if "i \<in> bits b" using ClearBit_becomes assms that by blast
  show "if bits b = {} then FindFreeBlock random b = Some (- 1, b)
     else \<exists>j b'. FindFreeBlock random b = Some (int j, b') \<and> j \<in> bits b \<and> becomes b (bits b) b'"
    using page_bitmap.find_none [OF assms] page_bitmap.find_some [OF assms] by simp
  show "\<exists>js b'. take_blocks FindFreeBlock ClearBit random n b = Some (js, b') \<and> distinct js \<and> set js \<subseteq> bits b \<and>
       length js = min n (card (bits b)) \<and> becomes b (bits b - set js) b'"
    by (rule page_bitmap.take_many [OF assms])
  assume c: "0 < count \<and> count < 64 \<and> capacity b < 2 ^ 30"
  then obtain r g where r: "FindFreeRange count b = Some (r, b\<lparr>m_gen := g\<rparr>)"
    "if \<exists>i. fits b count i then \<exists>i. r = int i \<and> fits b count i else r = - 1" using FindFreeRange_finds [OF assms] by blast
  let ?b = "b\<lparr>m_gen := g\<rparr>"
  have e: "bitmap_ok ?b" "becomes b (bits b) ?b" "bits ?b = bits b" "fits ?b count j \<longleftrightarrow> fits b count j" for j
    using assms by (simp_all add: becomes_def bitmap_ok_def bits_def capacity_def fits_def)
  have cl: "\<exists>b2. ClearRange j count ?b = Some (True, b2) \<and> becomes b (bits b - {j..<j + count}) b2" if "fits b count j" for j
    using fits_clears [OF e(1), of count j] c that page_bitmap.becomes_trans [OF e(2)] unfolding e(3,4) by blast
  show "if \<exists>j. fits b count j
        then \<exists>j b1 b2. FindFreeRange count b = Some (int j, b1) \<and> fits b count j \<and>
          ClearRange j count b1 = Some (True, b2) \<and> becomes b (bits b - {j..<j + count}) b2
        else \<exists>b1. FindFreeRange count b = Some (- 1, b1) \<and> becomes b (bits b) b1"
  proof (cases "\<exists>j. fits b count j")
    case True
    then obtain j where "r = int j" "fits b count j" using r(2) by auto
    then show ?thesis using r(1) cl [of j] True by auto
  next
    case False
    then show ?thesis using r e(2) by auto
  qed
qed

definition example_bitmap :: k_page_bitmap where
  "example_bitmap = snd (the (Initialize_bitmap (replicate 3 0) 100 (k_page_bitmap_default (RandomBitGenerator 7))))"

lemma example_bitmap_ok: "bitmap_ok example_bitmap" "bits example_bitmap = {}" "100 \<le> capacity example_bitmap"
proof -
  have "GetRequiredDepth 100 = Suc (Suc 0)" by (simp add: GetRequiredDepth.simps)
  then have "CalculateManagementOverheadSize 100 \<le> 8 * length (replicate 3 (0 :: u64))"
    by (simp add: CalculateManagementOverheadSize_def words_for_exact)
  moreover have "set (replicate 3 (0 :: u64)) \<subseteq> {0}" by simp
  ultimately show "bitmap_ok example_bitmap" "bits example_bitmap = {}" "100 \<le> capacity example_bitmap"
    using Initialize_bitmap_empty [of 100 "replicate 3 0" "k_page_bitmap_default (RandomBitGenerator 7)"]
    by (auto simp: example_bitmap_def)
qed

theorem bitmap_refines_set_witness:
  "bitmap_ok example_bitmap \<and> (\<exists>b. SetBit 70 example_bitmap = Some b \<and> bits b = {70} \<and> bitmap_ok b)"
  using bitmap_refines_set [OF example_bitmap_ok(1), of 70, THEN conjunct2, THEN conjunct1] example_bitmap_ok
  by (auto simp: becomes_def)

end
