(* ===== verification/KPageHeap.thy ===== *)
theory KPageHeap
  imports KPageBitmap
begin

text \<open>
  \<^verbatim>\<open>src/core/hle/kernel/k_page_heap.h\<close> and \<open>.cpp\<close>: the heap of physical pages.  It
  keeps the free memory as free blocks of seven sizes, one bitmap of \<open>KPageBitmap\<close> for each size,
  and merges blocks into the next size as soon as a whole group of them is free.

  Physical addresses are natural numbers; the heap ends far below \<open>2\<^sup>6\<^sup>4\<close>, so that the
  sums of the code do not wrap around.  The address zero stands for no block, as in the code.
\<close>

definition PageSize :: nat where "PageSize = 0x1000"

definition NumMemoryBlockPageShifts :: nat where "NumMemoryBlockPageShifts = 7"

definition MemoryBlockPageShifts :: "nat list" where
  "MemoryBlockPageShifts = [0xC, 0x10, 0x15, 0x16, 0x19, 0x1D, 0x1E]"

section \<open>Blocks of one size\<close>

record heap_block =
  m_bitmap :: k_page_bitmap
  m_block_address :: nat
  m_end_offset :: nat
  m_block_shift :: nat
  m_next_block_shift :: nat

definition Block_GetSize :: "heap_block \<Rightarrow> nat" where
  "Block_GetSize blk = 2 ^ m_block_shift blk"

definition Block_GetNumPages :: "heap_block \<Rightarrow> nat" where
  "Block_GetNumPages blk = Block_GetSize blk div PageSize"

definition Block_GetNumFreeBlocks :: "heap_block \<Rightarrow> nat" where
  "Block_GetNumFreeBlocks blk = m_num_bits (m_bitmap blk)"

definition Block_GetNumFreePages :: "heap_block \<Rightarrow> nat" where
  "Block_GetNumFreePages blk = Block_GetNumFreeBlocks blk * Block_GetNumPages blk"

definition Block_Initialize ::
  "nat \<Rightarrow> nat \<Rightarrow> nat \<Rightarrow> nat \<Rightarrow> u64 list \<Rightarrow> heap_block \<Rightarrow> (u64 list \<times> heap_block) option" where
  "Block_Initialize addr sz bs nbs bit_storage blk =
     (let align = (if nbs \<noteq> 0 then 2 ^ nbs else 2 ^ bs);
          start = AlignDown addr align;
          stop = AlignUp (addr + sz) align;
          end_offset = (stop - start) div 2 ^ bs
      in map_option (\<lambda>(rest, bm). (rest, blk\<lparr>m_bitmap := bm, m_block_address := start, m_end_offset := end_offset,
           m_block_shift := bs, m_next_block_shift := nbs\<rparr>))
         (Initialize_bitmap bit_storage end_offset (m_bitmap blk)))"

definition Block_CalculateManagementOverheadSize :: "nat \<Rightarrow> nat \<Rightarrow> nat \<Rightarrow> nat" where
  "Block_CalculateManagementOverheadSize region_size cur_block_shift next_block_shift =
     (let cur_block_size = 2 ^ cur_block_shift; next_block_size = 2 ^ next_block_shift;
          align = (if next_block_shift \<noteq> 0 then next_block_size else cur_block_size)
      in CalculateManagementOverheadSize ((align * 2 + AlignUp region_size align) div cur_block_size))"

text \<open>The address of the merged block, or zero.\<close>

definition PushBlock :: "nat \<Rightarrow> heap_block \<Rightarrow> (nat \<times> heap_block) option" where
  "PushBlock address blk = do {
     let offset = sub64 address (m_block_address blk) div 2 ^ m_block_shift blk;
     bm \<leftarrow> SetBit offset (m_bitmap blk);
     if m_next_block_shift blk \<noteq> 0 then do {
       let diff = 2 ^ (m_next_block_shift blk - m_block_shift blk);
       let first = AlignDown offset diff;
       (cleared, bm') \<leftarrow> ClearRange first diff bm;
       Some (if cleared then m_block_address blk + first * 2 ^ m_block_shift blk else 0, blk\<lparr>m_bitmap := bm'\<rparr>)
     }
     else Some (0, blk\<lparr>m_bitmap := bm\<rparr>)
   }"

definition PopBlock :: "bool \<Rightarrow> heap_block \<Rightarrow> (nat \<times> heap_block) option" where
  "PopBlock random blk = do {
     (soffset, bm) \<leftarrow> FindFreeBlock random (m_bitmap blk);
     if soffset < 0 then Some (0, blk\<lparr>m_bitmap := bm\<rparr>)
     else do {
       bm' \<leftarrow> ClearBit (nat soffset) bm;
       Some (m_block_address blk + nat soffset * 2 ^ m_block_shift blk, blk\<lparr>m_bitmap := bm'\<rparr>)
     }
   }"

section \<open>The heap\<close>

record k_page_heap =
  m_heap_address :: nat
  m_heap_size :: nat
  m_initial_used_size :: nat
  m_num_blocks :: nat
  m_blocks :: "heap_block list"
  heap_rng :: random_bit_generator
  heap_asserted :: bool

definition GetEndAddress :: "k_page_heap \<Rightarrow> nat" where
  "GetEndAddress h = m_heap_address h + m_heap_size h"

definition GetPageOffset :: "nat \<Rightarrow> k_page_heap \<Rightarrow> nat" where
  "GetPageOffset block h = sub64 block (m_heap_address h) div PageSize"

definition GetPageOffsetToEnd :: "nat \<Rightarrow> k_page_heap \<Rightarrow> nat" where
  "GetPageOffsetToEnd block h = sub64 (GetEndAddress h) block div PageSize"

definition set_block :: "nat \<Rightarrow> heap_block \<Rightarrow> k_page_heap \<Rightarrow> k_page_heap" where
  "set_block i blk h = h\<lparr>m_blocks := (m_blocks h)[i := blk]\<rparr>"

primrec Initialize_blocks ::
  "nat list \<Rightarrow> nat list \<Rightarrow> k_page_heap \<Rightarrow> u64 list \<Rightarrow> (u64 list \<times> k_page_heap) option" where
  "Initialize_blocks [] block_shifts h storage = Some (storage, h)"
| "Initialize_blocks (i # is) block_shifts h storage = do {
     cur_block_shift \<leftarrow> arr_get block_shifts i;
     next_block_shift \<leftarrow> (if i \<noteq> length block_shifts - 1 then arr_get block_shifts (i + 1) else Some 0);
     blk \<leftarrow> arr_get (m_blocks h) i;
     (storage', blk') \<leftarrow> Block_Initialize (m_heap_address h) (m_heap_size h) cur_block_shift next_block_shift storage blk;
     Initialize_blocks is block_shifts (set_block i blk' h) storage'
   }"

text \<open>
  The management data is a vector of zeros of the given size in bytes.  The last assertion of the code,
  which compares a host pointer into that vector with a guest address, has no counterpart: going past
  the vector is undefined here.
\<close>

definition Initialize_heap :: "nat \<Rightarrow> nat \<Rightarrow> nat \<Rightarrow> nat list \<Rightarrow> k_page_heap \<Rightarrow> k_page_heap option" where
  "Initialize_heap address sz management_size block_shifts h0 =
     (let h = h0\<lparr>heap_asserted := heap_asserted h0 \<and> address mod PageSize = 0 \<and> sz mod PageSize = 0 \<and>
              0 < length block_shifts \<and> length block_shifts \<le> NumMemoryBlockPageShifts,
            m_heap_address := address, m_heap_size := sz, m_num_blocks := length block_shifts\<rparr>
      in map_option snd (Initialize_blocks [0..<length block_shifts] block_shifts h (replicate (management_size div 8) 0)))"

definition GetNumFreePages :: "k_page_heap \<Rightarrow> nat option" where
  "GetNumFreePages h =
     (if m_num_blocks h \<le> length (m_blocks h)
      then Some (sum_list (map Block_GetNumFreePages (take (m_num_blocks h) (m_blocks h)))) else None)"

definition GetFreeSize :: "k_page_heap \<Rightarrow> nat option" where
  "GetFreeSize h = map_option (\<lambda>n. n * PageSize) (GetNumFreePages h)"

definition SetInitialUsedSize :: "nat \<Rightarrow> k_page_heap \<Rightarrow> k_page_heap option" where
  "SetInitialUsedSize reserved_size h = do {
     pages \<leftarrow> GetNumFreePages h;
     let free_size = pages * PageSize;
     Some (h\<lparr>heap_asserted := heap_asserted h \<and> m_heap_size h \<ge> free_size + reserved_size,
       m_initial_used_size := sub64 (sub64 (m_heap_size h) free_size) reserved_size\<rparr>)
   }"

primrec heap_overhead :: "nat list \<Rightarrow> nat \<Rightarrow> nat" where
  "heap_overhead [] region_size = 0"
| "heap_overhead (s # ss) region_size =
     Block_CalculateManagementOverheadSize region_size s (case ss of [] \<Rightarrow> 0 | n # _ \<Rightarrow> n) + heap_overhead ss region_size"

definition Heap_CalculateManagementOverheadSize :: "nat \<Rightarrow> nat list \<Rightarrow> nat" where
  "Heap_CalculateManagementOverheadSize region_size block_shifts = AlignUp (heap_overhead block_shifts region_size) PageSize"

subsection \<open>Freeing\<close>

text \<open>Pushing a block at \<open>index\<close>, and the blocks that it merges into at the next indices.\<close>

function FreeBlock :: "nat \<Rightarrow> nat \<Rightarrow> k_page_heap \<Rightarrow> k_page_heap option" where
  "FreeBlock block index h =
     (if index < length (m_blocks h) then do {
        (block', blk) \<leftarrow> PushBlock block (m_blocks h ! index);
        if block' \<noteq> 0 then FreeBlock block' (index + 1) (set_block index blk h) else Some (set_block index blk h)
      }
      else None)"
  by pat_completeness auto
termination by (relation "measure (\<lambda>(_, i, h). length (m_blocks h) - i)") (auto simp: set_block_def)

declare FreeBlock.simps [simp del]

text \<open>The largest size of which the range has a whole block, from index \<open>n - 1\<close> down, and its whole blocks.\<close>

primrec find_big :: "nat \<Rightarrow> nat \<Rightarrow> nat \<Rightarrow> k_page_heap \<Rightarrow> (nat \<times> nat \<times> nat) option option" where
  "find_big 0 start stop h = Some None"
| "find_big (Suc i) start stop h = do {
     blk \<leftarrow> arr_get (m_blocks h) i;
     let big_start = AlignUp start (Block_GetSize blk);
     let big_stop = AlignDown stop (Block_GetSize blk);
     if big_start < big_stop then Some (Some (i, big_start, big_stop)) else find_big i start stop h
   }"

text \<open>Freeing blocks of size \<open>2\<^sup>s\<close> and index \<open>i\<close> upwards to an end, and downwards or upwards while they fit.\<close>

function free_to :: "nat \<Rightarrow> nat \<Rightarrow> nat \<Rightarrow> nat \<Rightarrow> k_page_heap \<Rightarrow> k_page_heap option" where
  "free_to block stop s i h =
     (if block < stop then do { h' \<leftarrow> FreeBlock block i h; free_to (block + 2 ^ s) stop s i h' } else Some h)"
  by pat_completeness auto
termination by (relation "measure (\<lambda>(block, stop, _). stop - block)") (auto intro: diff_less_mono2)

function free_down :: "nat \<Rightarrow> nat \<Rightarrow> nat \<Rightarrow> nat \<Rightarrow> k_page_heap \<Rightarrow> (nat \<times> k_page_heap) option" where
  "free_down start stop s i h =
     (if start + 2 ^ s \<le> stop then do { h' \<leftarrow> FreeBlock (stop - 2 ^ s) i h; free_down start (stop - 2 ^ s) s i h' }
      else Some (stop, h))"
  by pat_completeness auto
termination
proof (relation "measure (\<lambda>(_, stop, _). stop)")
  fix start stop s i :: nat and h h' :: k_page_heap
  assume "start + 2 ^ s \<le> stop"
  moreover have "0 < (2::nat) ^ s" by simp
  ultimately have "stop - 2 ^ s < stop" by linarith
  then show "((start, stop - 2 ^ s, s, i, h'), start, stop, s, i, h) \<in> measure (\<lambda>(_, stop, _). stop)" by simp
qed simp

function free_up :: "nat \<Rightarrow> nat \<Rightarrow> nat \<Rightarrow> nat \<Rightarrow> k_page_heap \<Rightarrow> (nat \<times> k_page_heap) option" where
  "free_up start stop s i h =
     (if start + 2 ^ s \<le> stop then do { h' \<leftarrow> FreeBlock start i h; free_up (start + 2 ^ s) stop s i h' }
      else Some (start, h))"
  by pat_completeness auto
termination
proof (relation "measure (\<lambda>(start, stop, _). stop - start)")
  fix start stop s i :: nat and h h' :: k_page_heap
  assume "start + 2 ^ s \<le> stop"
  moreover have "0 < (2::nat) ^ s" by simp
  ultimately have "stop - (start + 2 ^ s) < stop - start" by linarith
  then show "((start + 2 ^ s, stop, s, i, h'), start, stop, s, i, h) \<in> measure (\<lambda>(start, stop, _). stop - start)" by simp
qed simp

declare free_to.simps [simp del] free_down.simps [simp del] free_up.simps [simp del]

primrec free_before :: "nat \<Rightarrow> nat \<Rightarrow> nat \<Rightarrow> k_page_heap \<Rightarrow> k_page_heap option" where
  "free_before 0 start stop h = Some h"
| "free_before (Suc i) start stop h = do {
     blk \<leftarrow> arr_get (m_blocks h) i;
     (stop', h') \<leftarrow> free_down start stop (m_block_shift blk) i h;
     free_before i start stop' h'
   }"

primrec free_after :: "nat \<Rightarrow> nat \<Rightarrow> nat \<Rightarrow> k_page_heap \<Rightarrow> k_page_heap option" where
  "free_after 0 start stop h = Some h"
| "free_after (Suc i) start stop h = do {
     blk \<leftarrow> arr_get (m_blocks h) i;
     (start', h') \<leftarrow> free_up start stop (m_block_shift blk) i h;
     free_after i start' stop h'
   }"

definition Free :: "nat \<Rightarrow> nat \<Rightarrow> k_page_heap \<Rightarrow> k_page_heap option" where
  "Free addr num_pages h =
     (if num_pages = 0 then Some h
      else do {
        let stop = addr + num_pages * PageSize;
        big \<leftarrow> find_big (m_num_blocks h) addr stop h;
        case big of
          None \<Rightarrow> Some (h\<lparr>heap_asserted := False\<rparr>)
        | Some (big_index, big_start, big_stop) \<Rightarrow> do {
            h1 \<leftarrow> free_to big_start big_stop (m_block_shift (m_blocks h ! big_index)) big_index h;
            h2 \<leftarrow> free_before big_index addr big_start h1;
            free_after big_index big_stop stop h2
          }
      })"

subsection \<open>Allocating\<close>

primrec linear_search :: "nat list \<Rightarrow> nat \<Rightarrow> k_page_heap \<Rightarrow> (nat \<times> k_page_heap) option" where
  "linear_search [] needed_size h = Some (0, h)"
| "linear_search (i # is) needed_size h = do {
     blk \<leftarrow> arr_get (m_blocks h) i;
     (addr, blk') \<leftarrow> PopBlock False blk;
     let h1 = set_block i blk' h;
     if addr \<noteq> 0 then do {
       let allocated_size = Block_GetSize blk;
       h2 \<leftarrow> (if allocated_size > needed_size
              then Free (addr + needed_size) ((allocated_size - needed_size) div PageSize) h1 else Some h1);
       Some (addr, h2)
     }
     else linear_search is needed_size h1
   }"

definition AllocateByLinearSearch :: "nat \<Rightarrow> k_page_heap \<Rightarrow> (nat \<times> k_page_heap) option" where
  "AllocateByLinearSearch index h = do {
     blk \<leftarrow> arr_get (m_blocks h) index;
     linear_search [index..<m_num_blocks h] (Block_GetSize blk) h
   }"

definition MinimumPossibleAlignments :: nat where "MinimumPossibleAlignments = 4"

text \<open>The ways to place the allocation in the free blocks of one size.\<close>

definition alignments_in :: "heap_block \<Rightarrow> nat \<Rightarrow> nat \<Rightarrow> nat" where
  "alignments_in blk needed_size align_shift =
     (1 + sub64 (Block_GetSize blk) needed_size div 2 ^ align_shift) * Block_GetNumFreeBlocks blk"

primrec count_alignments ::
  "nat list \<Rightarrow> nat \<Rightarrow> nat \<Rightarrow> nat \<Rightarrow> nat \<Rightarrow> k_page_heap \<Rightarrow> (nat \<times> nat) option" where
  "count_alignments [] needed_size align_shift possible max_blocks h = Some (possible, max_blocks)"
| "count_alignments (i # is) needed_size align_shift possible max_blocks h = do {
     blk \<leftarrow> arr_get (m_blocks h) i;
     let possible' = possible + alignments_in blk needed_size align_shift;
     if possible' \<ge> MinimumPossibleAlignments then Some (possible', i + 1)
     else count_alignments is needed_size align_shift possible' max_blocks h
   }"

primrec choose_index ::
  "nat list \<Rightarrow> nat \<Rightarrow> nat \<Rightarrow> nat \<Rightarrow> nat \<Rightarrow> nat \<Rightarrow> k_page_heap \<Rightarrow> nat option" where
  "choose_index [] needed_size align_shift rnd possible index h = Some index"
| "choose_index (i # is) needed_size align_shift rnd possible index h = do {
     blk \<leftarrow> arr_get (m_blocks h) i;
     let possible' = possible + alignments_in blk needed_size align_shift;
     if rnd < possible' then Some i else choose_index is needed_size align_shift rnd possible' index h
   }"

definition select_index :: "nat \<Rightarrow> nat \<Rightarrow> nat \<Rightarrow> k_page_heap \<Rightarrow> (nat \<times> k_page_heap) option" where
  "select_index index needed_size align_shift h = do {
     (possible, max_blocks) \<leftarrow> count_alignments [index..<m_num_blocks h] needed_size align_shift 0 (m_num_blocks h) h;
     if possible > 0 \<and> index + 1 < max_blocks then do {
       (rnd, g) \<leftarrow> GenerateRandom (of_nat possible) (heap_rng h);
       index' \<leftarrow> choose_index [index..<max_blocks] needed_size align_shift (unat rnd) 0 index h;
       Some (index', h\<lparr>heap_rng := g\<rparr>)
     }
     else Some (index, h)
   }"

text \<open>Keeping a random aligned part of the popped block and freeing what is before and behind it.\<close>

definition keep_part :: "nat \<Rightarrow> nat \<Rightarrow> nat \<Rightarrow> nat \<Rightarrow> k_page_heap \<Rightarrow> (nat \<times> k_page_heap) option" where
  "keep_part addr needed_size leftover_size align_shift h = do {
     let possible_alignments = 1 + leftover_size div 2 ^ align_shift;
     (rnd, g) \<leftarrow> GenerateRandom (of_nat possible_alignments) (heap_rng h);
     let random_offset = unat rnd * 2 ^ align_shift;
     let h1 = h\<lparr>heap_rng := g\<rparr>;
     h2 \<leftarrow> (if random_offset \<noteq> 0 then Free addr (random_offset div PageSize) h1 else Some h1);
     let addr' = addr + random_offset;
     h3 \<leftarrow> (if random_offset \<noteq> leftover_size
            then Free (addr' + needed_size) ((leftover_size - random_offset) div PageSize) h2 else Some h2);
     Some (addr', h3)
   }"

definition AllocateByRandom :: "nat \<Rightarrow> nat \<Rightarrow> nat \<Rightarrow> k_page_heap \<Rightarrow> (nat \<times> k_page_heap) option" where
  "AllocateByRandom index0 num_pages align_pages h0 = do {
     let needed_size = num_pages * PageSize;
     let align_size = align_pages * PageSize;
     let align_shift = countr_zero (of_nat align_size);
     (index, h) \<leftarrow> select_index index0 needed_size align_shift h0;
     blk \<leftarrow> arr_get (m_blocks h) index;
     (addr, blk') \<leftarrow> PopBlock True blk;
     let h1 = set_block index blk' h;
     if addr = 0 then Some (0, h1)
     else do {
       let leftover_size = sub64 (Block_GetSize blk) needed_size;
       if leftover_size > 0 then keep_part addr needed_size leftover_size align_shift h1 else Some (addr, h1)
     }
   }"

definition AllocateBlock :: "nat \<Rightarrow> bool \<Rightarrow> k_page_heap \<Rightarrow> (nat \<times> k_page_heap) option" where
  "AllocateBlock index random h =
     (if random then do {
        blk \<leftarrow> arr_get (m_blocks h) index;
        AllocateByRandom index (Block_GetNumPages blk) (Block_GetNumPages blk) h
      }
      else AllocateByLinearSearch index h)"

definition AllocateAligned :: "nat \<Rightarrow> nat \<Rightarrow> nat \<Rightarrow> k_page_heap \<Rightarrow> (nat \<times> k_page_heap) option" where
  "AllocateAligned index num_pages align_pages h = AllocateByRandom index num_pages align_pages h"

definition GetAlignedBlockIndex :: "nat \<Rightarrow> nat \<Rightarrow> nat option" where
  "GetAlignedBlockIndex num_pages align_pages =
     (let target_pages = max num_pages align_pages
      in find (\<lambda>i. target_pages \<le> 2 ^ (MemoryBlockPageShifts ! i) div PageSize) [0..<NumMemoryBlockPageShifts])"

definition GetBlockIndex :: "nat \<Rightarrow> nat option" where
  "GetBlockIndex num_pages =
     find (\<lambda>i. num_pages \<ge> 2 ^ (MemoryBlockPageShifts ! i) div PageSize) (rev [0..<NumMemoryBlockPageShifts])"

definition GetBlockSize :: "nat \<Rightarrow> nat" where
  "GetBlockSize index = 2 ^ (MemoryBlockPageShifts ! index)"

definition GetBlockNumPages :: "nat \<Rightarrow> nat" where
  "GetBlockNumPages index = GetBlockSize index div PageSize"

section \<open>What is free\<close>

definition covers :: "heap_block \<Rightarrow> nat \<Rightarrow> bool" where
  "covers blk a \<longleftrightarrow> m_block_address blk \<le> a \<and> (a - m_block_address blk) div 2 ^ m_block_shift blk \<in> bits (m_bitmap blk)"

definition free_set :: "k_page_heap \<Rightarrow> nat set" where
  "free_set h = {a. \<exists>i<length (m_blocks h). covers (m_blocks h ! i) a}"

text \<open>What never changes of a block of the heap, and what of the heap.\<close>

definition block_shape :: "heap_block \<Rightarrow> nat \<times> nat \<times> nat \<times> nat \<times> nat \<times> bool" where
  "block_shape blk = (m_block_address blk, m_end_offset blk, m_block_shift blk, m_next_block_shift blk,
     capacity (m_bitmap blk), asserted (m_bitmap blk))"

definition same_heap :: "k_page_heap \<Rightarrow> k_page_heap \<Rightarrow> bool" where
  "same_heap h h' \<longleftrightarrow> map block_shape (m_blocks h') = map block_shape (m_blocks h) \<and> m_heap_address h' = m_heap_address h \<and>
     m_heap_size h' = m_heap_size h \<and> m_num_blocks h' = m_num_blocks h \<and> heap_asserted h' = heap_asserted h"

definition heap_end :: "k_page_heap \<Rightarrow> nat" where
  "heap_end h = m_heap_address h + m_heap_size h"

definition block_ok :: "k_page_heap \<Rightarrow> heap_block \<Rightarrow> bool" where
  "block_ok h blk \<longleftrightarrow> bitmap_ok (m_bitmap blk) \<and> m_end_offset blk \<le> capacity (m_bitmap blk) \<and>
     12 \<le> m_block_shift blk \<and> m_block_shift blk \<le> 30 \<and>
     2 ^ m_block_shift blk dvd m_block_address blk \<and> m_block_address blk \<le> m_heap_address h \<and>
     heap_end h \<le> m_block_address blk + m_end_offset blk * 2 ^ m_block_shift blk \<and>
     m_end_offset blk * 2 ^ m_block_shift blk \<le> m_heap_size h + 2 ^ 32 \<and>
     (m_next_block_shift blk \<noteq> 0 \<longrightarrow> m_block_shift blk < m_next_block_shift blk \<and>
       2 ^ m_next_block_shift blk dvd m_block_address blk \<and>
       2 ^ (m_next_block_shift blk - m_block_shift blk) dvd m_end_offset blk) \<and>
     (\<forall>a. covers blk a \<longrightarrow> m_heap_address h \<le> a \<and> a < heap_end h)"

definition heap_ok :: "k_page_heap \<Rightarrow> bool" where
  "heap_ok h \<longleftrightarrow> 0 < m_num_blocks h \<and> length (m_blocks h) = m_num_blocks h \<and> 0 < m_heap_address h \<and> heap_end h \<le> 2 ^ 40 \<and>
     m_block_shift (m_blocks h ! 0) = 12 \<and> (\<forall>blk\<in>set (m_blocks h). block_ok h blk) \<and>
     (\<forall>i<m_num_blocks h. m_next_block_shift (m_blocks h ! i) =
       (if Suc i < m_num_blocks h then m_block_shift (m_blocks h ! Suc i) else 0)) \<and>
     (\<forall>i<m_num_blocks h. \<forall>j<m_num_blocks h. \<forall>a. covers (m_blocks h ! i) a \<and> covers (m_blocks h ! j) a \<longrightarrow> i = j)"

lemma div_in_range:
  fixes a base g n p :: nat
  assumes "0 < p" "base \<le> a"
  shows "(a - base) div p \<in> {g..<g + n} \<longleftrightarrow> base + g * p \<le> a \<and> a < base + (g + n) * p"
  using assms by (auto simp: less_eq_div_iff_mult_less_eq div_less_iff_less_mult)

lemma block_offset:
  fixes base block p :: nat
  assumes "p dvd base" "p dvd block" "base \<le> block"
  shows "base + (block - base) div p * p = block"
  using assms by (simp add: dvd_diff_nat)

lemma same_block:
  fixes base block p a :: nat
  assumes "0 < p" "p dvd base" "p dvd block" "base \<le> block"
  shows "base \<le> a \<and> (a - base) div p = (block - base) div p \<longleftrightarrow> block \<le> a \<and> a < block + p"
  using div_in_range [OF assms(1), of base a "(block - base) div p" 1] block_offset [OF assms(2-4)] assms(4)
  by (auto simp: add_mult_distrib)

lemma pow2_dvd_64: "n = 2 ^ k \<Longrightarrow> n < 64 \<Longrightarrow> n dvd 64" "n = 2 ^ k \<Longrightarrow> 64 \<le> n \<Longrightarrow> 64 dvd n" for n k :: nat
proof -
  have e: "(64::nat) = 2 ^ 6" by simp
  assume n: "n = 2 ^ k"
  { assume "n < 64"
    then have "k < 6" unfolding n e by (rule power_less_imp_less_exp [rotated]) simp
    then show "n dvd 64" unfolding n e by (intro le_imp_power_dvd) simp }
  { assume "64 \<le> n"
    then have "6 \<le> k" unfolding n e by (rule power_le_imp_le_exp [rotated]) simp
    then show "64 dvd n" unfolding n e by (rule le_imp_power_dvd) }
qed

text \<open>A group of blocks that is aligned to its own size is within a word or consists of whole words.\<close>

lemma group_aligned:
  fixes g n :: nat
  assumes "n = 2 ^ k" "n dvd g"
  shows "n < 64 \<and> g mod 64 + n \<le> 64 \<or> g mod 64 = 0 \<and> n mod 64 = 0"
proof (cases "n < 64")
  case True
  then have "n dvd 64" using pow2_dvd_64(1) assms(1) by blast
  then obtain q where q: "64 = n * q" by blast
  have "n dvd g mod 64" using assms(2) \<open>n dvd 64\<close> by (simp add: dvd_mod)
  then obtain r where r: "g mod 64 = n * r" by blast
  have "n * r < n * q" using r q mod_less_divisor [of 64 g] by simp
  then have "r + 1 \<le> q" by simp
  then have "n * (r + 1) \<le> n * q" by (rule mult_le_mono2)
  then have "g mod 64 + n \<le> 64" using r q by simp
  with True show ?thesis by blast
next
  case False
  then have "64 dvd n" using pow2_dvd_64(2) assms(1) by (meson not_less)
  then show ?thesis using assms(2) by (auto intro: dvd_trans)
qed

subsection \<open>Blocks\<close>

lemma shape_eqs:
  assumes "block_shape blk' = block_shape blk"
  shows "m_block_address blk' = m_block_address blk" "m_end_offset blk' = m_end_offset blk"
    "m_block_shift blk' = m_block_shift blk" "m_next_block_shift blk' = m_next_block_shift blk"
    "capacity (m_bitmap blk') = capacity (m_bitmap blk)" "asserted (m_bitmap blk') = asserted (m_bitmap blk)"
  using assms by (simp_all add: block_shape_def)

lemma becomes_shape: "becomes (m_bitmap blk) S bm \<Longrightarrow> block_shape (blk\<lparr>m_bitmap := bm\<rparr>) = block_shape blk"
  by (simp add: becomes_def block_shape_def)

lemma covers_becomes:
  "becomes (m_bitmap blk) S bm \<Longrightarrow> covers (blk\<lparr>m_bitmap := bm\<rparr>) a \<longleftrightarrow>
     m_block_address blk \<le> a \<and> (a - m_block_address blk) div 2 ^ m_block_shift blk \<in> S"
  by (simp add: covers_def becomes_def)

text \<open>The two outcomes of pushing a block: it stays, or its whole group becomes one block of the next size.\<close>

lemma PushBlock_cases:
  assumes "block_ok h blk" "2 ^ m_block_shift blk dvd block" "m_heap_address h \<le> block" "block < heap_end h" "\<not> covers blk block" "heap_end h \<le> 2 ^ 40"
  obtains (stays) blk' where "PushBlock block blk = Some (0, blk')" "block_shape blk' = block_shape blk" "bitmap_ok (m_bitmap blk')"
      "\<And>a. covers blk' a \<longleftrightarrow> covers blk a \<or> block \<le> a \<and> a < block + 2 ^ m_block_shift blk"
  | (merges) blk' block' where "m_next_block_shift blk \<noteq> 0" "PushBlock block blk = Some (block', blk')"
      "block_shape blk' = block_shape blk" "bitmap_ok (m_bitmap blk')" "2 ^ m_next_block_shift blk dvd block'"
      "\<And>a. block' \<le> a \<and> a < block' + 2 ^ m_next_block_shift blk \<Longrightarrow>
         covers blk a \<or> block \<le> a \<and> a < block + 2 ^ m_block_shift blk"
      "\<And>a. covers blk' a \<longleftrightarrow> (covers blk a \<or> block \<le> a \<and> a < block + 2 ^ m_block_shift blk) \<and>
         \<not> (block' \<le> a \<and> a < block' + 2 ^ m_next_block_shift blk)"
proof -
  let ?base = "m_block_address blk" and ?p = "2 ^ m_block_shift blk :: nat" and ?bm = "m_bitmap blk"
  let ?o = "(block - ?base) div ?p"
  have so: "sub64 block ?base = block - ?base" using assms(1,3,4,6) by (intro sub64_exact) (auto simp: block_ok_def)
  have ok: "bitmap_ok ?bm" "m_end_offset blk \<le> capacity ?bm" "?p dvd ?base" "?base \<le> block"
    "block < ?base + m_end_offset blk * ?p" using assms(1,3,4) by (auto simp: block_ok_def)
  have new: "?base \<le> a \<and> (a - ?base) div ?p = ?o \<longleftrightarrow> block \<le> a \<and> a < block + ?p" for a
    by (rule same_block) (use ok assms(2) in simp_all)
  have o: "?o < m_end_offset blk" "?o \<notin> bits ?bm"
    using ok assms(5) by (simp_all add: div_less_iff_less_mult less_diff_conv2 add.commute covers_def)
  then obtain bm where bm: "SetBit ?o ?bm = Some bm" "becomes ?bm (insert ?o (bits ?bm)) bm"
    using SetBit_becomes [OF ok(1), of ?o] ok(2) by auto
  have cov: "covers (blk\<lparr>m_bitmap := bm\<rparr>) a \<longleftrightarrow> covers blk a \<or> block \<le> a \<and> a < block + ?p" for a
    using new [of a] covers_becomes [OF bm(2), of a] covers_def [of blk a] by auto
  have okbm: "bitmap_ok bm" "bits bm = insert ?o (bits ?bm)" "capacity bm = capacity ?bm" using bm(2) by (auto simp: becomes_def)
  show thesis
  proof (cases "m_next_block_shift blk = 0")
    case True
    with bm okbm cov becomes_shape [OF bm(2)] show thesis by (intro stays [of "blk\<lparr>m_bitmap := bm\<rparr>"]) (simp_all add: PushBlock_def so)
  next
    case False
    let ?n = "2 ^ (m_next_block_shift blk - m_block_shift blk) :: nat"
    let ?g = "AlignDown ?o ?n"
    have nx: "m_block_shift blk < m_next_block_shift blk" "2 ^ m_next_block_shift blk dvd ?base" "?n dvd m_end_offset blk"
      using assms(1) False by (auto simp: block_ok_def)
    have np: "?n * ?p = 2 ^ m_next_block_shift blk" using nx(1) by (simp flip: power_add)
    have g: "?n dvd ?g" "?g \<le> ?o" "?g + ?n \<le> m_end_offset blk"
    proof -
      show "?n dvd ?g" "?g \<le> ?o" by (rule AlignDown_dvd, rule AlignDown_le)
      then obtain x y where "?g = ?n * x" "m_end_offset blk = ?n * y" using nx(3) by blast
      moreover have "?g < m_end_offset blk" using \<open>?g \<le> ?o\<close> o(1) by simp
      ultimately have "Suc x \<le> y" "?g + ?n = ?n * Suc x" by simp_all
      then show "?g + ?n \<le> m_end_offset blk" using \<open>m_end_offset blk = ?n * y\<close> mult_le_mono2 by metis
    qed
    let ?b = "?base + ?g * ?p"
    have grp: "?base \<le> a \<and> (a - ?base) div ?p \<in> {?g..<?g + ?n} \<longleftrightarrow> ?b \<le> a \<and> a < ?b + 2 ^ m_next_block_shift blk" for a
      using div_in_range [of ?p ?base a ?g ?n] np by (cases "?base \<le> a") (auto simp: add_mult_distrib)
    have clear: "if {?g..<?g + ?n} \<subseteq> bits bm
        then \<exists>b'. ClearRange ?g ?n bm = Some (True, b') \<and> becomes bm (bits bm - {?g..<?g + ?n}) b'
        else ClearRange ?g ?n bm = Some (False, bm)"
      using g(3) ok(2) okbm(3) group_aligned [OF refl g(1)] by (intro ClearRange_becomes okbm(1)) simp_all
    show thesis
    proof (cases "{?g..<?g + ?n} \<subseteq> bits bm")
      case no: False
      with clear bm okbm cov becomes_shape [OF bm(2)] False show thesis
        by (intro stays [of "blk\<lparr>m_bitmap := bm\<rparr>"]) (simp_all add: PushBlock_def so Let_def)
    next
      case yes: True
      with clear obtain bm' where bm': "ClearRange ?g ?n bm = Some (True, bm')" "becomes bm (bits bm - {?g..<?g + ?n}) bm'" by auto
      then have b2: "becomes ?bm (bits bm - {?g..<?g + ?n}) bm'" using bm(2) by (simp add: becomes_def)
      have "covers blk a \<or> block \<le> a \<and> a < block + ?p" if "?b \<le> a \<and> a < ?b + 2 ^ m_next_block_shift blk" for a
        unfolding cov [of a, symmetric] covers_becomes [OF bm(2)]
        using grp [of a, THEN iffD2, OF that] yes [unfolded okbm(2)] by blast
      moreover have "covers (blk\<lparr>m_bitmap := bm'\<rparr>) a \<longleftrightarrow> (covers blk a \<or> block \<le> a \<and> a < block + ?p) \<and>
          \<not> (?b \<le> a \<and> a < ?b + 2 ^ m_next_block_shift blk)" for a
        unfolding cov [of a, symmetric] covers_becomes [OF bm(2)] covers_becomes [OF b2] okbm(2) grp [of a, symmetric] by blast
      moreover have "2 ^ m_next_block_shift blk dvd ?b"
        using nx(2) g(1) np by (metis dvd_add mult_dvd_mono dvd_refl)
      moreover have "bitmap_ok bm'" using b2 by (simp add: becomes_def)
      ultimately show thesis using False bm(1) bm'(1) becomes_shape [OF b2]
        by (intro merges [of ?b "blk\<lparr>m_bitmap := bm'\<rparr>"]) (simp_all add: PushBlock_def so Let_def)
    qed
  qed
qed

subsection \<open>Freeing\<close>

lemma same_heap_refl [simp]: "same_heap h h"
  by (simp add: same_heap_def)

lemma same_heap_trans: "same_heap h h' \<Longrightarrow> same_heap h' h'' \<Longrightarrow> same_heap h h''"
  by (simp add: same_heap_def)

lemma same_heap_eqs:
  assumes "same_heap h h'"
  shows "m_heap_address h' = m_heap_address h" "heap_end h' = heap_end h" "m_num_blocks h' = m_num_blocks h"
    "length (m_blocks h') = length (m_blocks h)"
    "i < length (m_blocks h) \<Longrightarrow> m_block_shift (m_blocks h' ! i) = m_block_shift (m_blocks h ! i)"
proof -
  have m: "map block_shape (m_blocks h') = map block_shape (m_blocks h)" using assms by (simp add: same_heap_def)
  then show l: "length (m_blocks h') = length (m_blocks h)" by (metis length_map)
  show "i < length (m_blocks h) \<Longrightarrow> m_block_shift (m_blocks h' ! i) = m_block_shift (m_blocks h ! i)"
    by (rule shape_eqs(3)) (use arg_cong [OF m, of "\<lambda>l. l ! i"] l in simp)
qed (use assms in \<open>simp_all add: same_heap_def heap_end_def\<close>)

lemma block_ok_in: "heap_ok h \<Longrightarrow> i < m_num_blocks h \<Longrightarrow> block_ok h (m_blocks h ! i)"
  by (simp add: heap_ok_def)

lemma block_ok_shape:
  assumes "block_ok h blk" "block_shape blk' = block_shape blk" "bitmap_ok (m_bitmap blk')"
    and "\<And>a. covers blk' a \<Longrightarrow> m_heap_address h \<le> a \<and> a < heap_end h"
    and "m_heap_address h' = m_heap_address h" "m_heap_size h' = m_heap_size h"
  shows "block_ok h' blk'"
  using assms unfolding block_ok_def heap_end_def shape_eqs [OF assms(2)] by simp

lemma covered_once:
  "heap_ok h \<Longrightarrow> i < m_num_blocks h \<Longrightarrow> j < m_num_blocks h \<Longrightarrow> covers (m_blocks h ! i) a \<Longrightarrow> covers (m_blocks h ! j) a \<Longrightarrow> i = j"
  unfolding heap_ok_def by blast

lemma heap_ok_set_block:
  assumes "heap_ok h" "i < m_num_blocks h" "block_shape blk = block_shape (m_blocks h ! i)" "bitmap_ok (m_bitmap blk)"
    and "\<And>a. covers blk a \<Longrightarrow> m_heap_address h \<le> a \<and> a < heap_end h"
    and "\<And>a j. covers blk a \<Longrightarrow> j < m_num_blocks h \<Longrightarrow> j \<noteq> i \<Longrightarrow> \<not> covers (m_blocks h ! j) a"
  shows "heap_ok (set_block i blk h)" "same_heap h (set_block i blk h)"
    "a \<in> free_set (set_block i blk h) \<longleftrightarrow> covers blk a \<or> (\<exists>j<m_num_blocks h. j \<noteq> i \<and> covers (m_blocks h ! j) a)"
proof -
  let ?h = "set_block i blk h"
  have l: "length (m_blocks h) = m_num_blocks h" using assms(1) by (simp add: heap_ok_def)
  show "same_heap h ?h"
    using assms(3) by (simp add: same_heap_def set_block_def map_update) (metis assms(2) l list_update_id map_update nth_map)
  show "a \<in> free_set ?h \<longleftrightarrow> covers blk a \<or> (\<exists>j<m_num_blocks h. j \<noteq> i \<and> covers (m_blocks h ! j) a)"
    using assms(2) l by (auto simp: free_set_def set_block_def nth_list_update)
  have f: "m_heap_address ?h = m_heap_address h" "m_heap_size ?h = m_heap_size h" "heap_end ?h = heap_end h"
    "m_num_blocks ?h = m_num_blocks h" "m_blocks ?h = (m_blocks h)[i := blk]" by (simp_all add: set_block_def heap_end_def)
  have okb: "block_ok ?h blk'" if "blk' \<in> set (m_blocks ?h)" for blk'
  proof -
    from that consider "blk' = blk" | "blk' \<in> set (m_blocks h)" using f(5) set_update_subset_insert by fastforce
    then show ?thesis
    proof cases
      case 1
      show ?thesis unfolding 1
        by (rule block_ok_shape [OF block_ok_in [OF assms(1,2)] assms(3,4)]) (use assms(5) f in simp_all)
    next
      case 2
      then have "block_ok h blk'" using assms(1) by (simp add: heap_ok_def)
      then show ?thesis using f by (simp add: block_ok_def)
    qed
  qed
  have sh: "m_block_shift (m_blocks ?h ! j) = m_block_shift (m_blocks h ! j) \<and>
    m_next_block_shift (m_blocks ?h ! j) = m_next_block_shift (m_blocks h ! j)" for j
  proof (cases "j = i")
    case True
    then show ?thesis unfolding f(5) using shape_eqs(3,4) [OF assms(3)] assms(2) l by (simp only: nth_list_update_eq)
  qed (simp add: f(5))
  have uniq: "j = k" if c: "j < m_num_blocks h" "k < m_num_blocks h" "covers (m_blocks ?h ! j) a" "covers (m_blocks ?h ! k) a" for j k a
  proof -
    have at: "m_blocks ?h ! j = (if j = i then blk else m_blocks h ! j)" if "j < m_num_blocks h" for j
      using that assms(2) l by (simp add: f(5))
    show ?thesis
      using c(3,4) assms(6) [of a] covered_once [OF assms(1) c(1,2), of a] c(1,2)
      unfolding at [OF c(1)] at [OF c(2)] by metis
  qed
  have len: "length (m_blocks ?h) = m_num_blocks h" using l f(5) by simp
  have "\<forall>blk\<in>set (m_blocks ?h). block_ok ?h blk" using okb by blast
  moreover have "\<forall>i<m_num_blocks h. \<forall>j<m_num_blocks h. \<forall>a. covers (m_blocks ?h ! i) a \<and> covers (m_blocks ?h ! j) a \<longrightarrow> i = j"
    using uniq by blast
  ultimately show "heap_ok ?h"
    using assms(1) len unfolding heap_ok_def f(1,3,4) sh [THEN conjunct1] sh [THEN conjunct2] by (elim conjE) (intro conjI)
qed

definition in_heap :: "k_page_heap \<Rightarrow> nat set \<Rightarrow> bool" where
  "in_heap h R \<longleftrightarrow> R \<subseteq> {m_heap_address h..<heap_end h}"

text \<open>What freeing a set of addresses does.\<close>

definition freed :: "k_page_heap \<Rightarrow> nat set \<Rightarrow> k_page_heap \<Rightarrow> bool" where
  "freed h R h' \<longleftrightarrow> heap_ok h' \<and> same_heap h h' \<and> free_set h' = free_set h \<union> R"

lemma free_set_at: "heap_ok h \<Longrightarrow> a \<in> free_set h \<longleftrightarrow> (\<exists>j<m_num_blocks h. covers (m_blocks h ! j) a)"
  by (simp add: free_set_def heap_ok_def)

lemma free_in_heap: "heap_ok h \<Longrightarrow> a \<in> free_set h \<Longrightarrow> m_heap_address h \<le> a \<and> a < heap_end h"
  by (auto simp: free_set_at block_ok_def dest!: block_ok_in)

lemma next_level:
  assumes "heap_ok h" "i < m_num_blocks h" "m_next_block_shift (m_blocks h ! i) \<noteq> 0"
  shows "Suc i < m_num_blocks h" "m_next_block_shift (m_blocks h ! i) = m_block_shift (m_blocks h ! Suc i)"
  using assms unfolding heap_ok_def by presburger+

lemma FreeBlock_frees:
  assumes "heap_ok h" "i < m_num_blocks h" "2 ^ m_block_shift (m_blocks h ! i) dvd block"
    and "in_heap h {block..<block + 2 ^ m_block_shift (m_blocks h ! i)}"
    and "{block..<block + 2 ^ m_block_shift (m_blocks h ! i)} \<inter> free_set h = {}"
  shows "\<exists>h'. FreeBlock block i h = Some h' \<and> freed h {block..<block + 2 ^ m_block_shift (m_blocks h ! i)} h'"
  using assms
proof (induction "m_num_blocks h - i" arbitrary: i h block rule: less_induct)
  case less
  let ?blk = "m_blocks h ! i" and ?p = "2 ^ m_block_shift (m_blocks h ! i) :: nat"
  let ?R = "{block..<block + ?p}"
  have len: "i < length (m_blocks h)" using less.prems(1,2) by (simp add: heap_ok_def)
  have R: "m_heap_address h \<le> a \<and> a < heap_end h" "\<not> covers (m_blocks h ! j) a"
    if "block \<le> a \<and> a < block + ?p" "j < m_num_blocks h" for a j
  proof -
    have a: "a \<in> ?R" using that(1) by simp
    then show "m_heap_address h \<le> a \<and> a < heap_end h"
      using subsetD [OF less.prems(4) [unfolded in_heap_def] a] by simp
    have "a \<notin> free_set h" using a less.prems(5) by blast
    then show "\<not> covers (m_blocks h ! j) a" using free_set_at [OF less.prems(1)] that(2) by blast
  qed
  have b: "m_heap_address h \<le> block" "block < heap_end h" "\<not> covers ?blk block"
    using R [of block i] less.prems(2) by simp_all
  have C: "m_heap_address h \<le> a \<and> a < heap_end h" if "covers ?blk a" for a
    using block_ok_in [OF less.prems(1,2)] that by (simp add: block_ok_def)
  have step: "FreeBlock block i h = (case PushBlock block ?blk of None \<Rightarrow> None | Some (block', blk) \<Rightarrow>
      if block' \<noteq> 0 then FreeBlock block' (i + 1) (set_block i blk h) else Some (set_block i blk h))"
    using len by (subst FreeBlock.simps) (simp split: option.splits)
  have e40: "heap_end h \<le> 2 ^ 40" using less.prems(1) by (simp add: heap_ok_def)
  from block_ok_in [OF less.prems(1,2)] less.prems(3) b e40 show ?case
  proof (cases rule: PushBlock_cases)
    case (stays blk')
    have "\<not> covers (m_blocks h ! j) a" if "covers blk' a" "j < m_num_blocks h" "j \<noteq> i" for a j
      using that stays(4) R(2) covered_once [OF less.prems(1,2), of j a] by blast
    note sb = heap_ok_set_block [OF less.prems(1,2) stays(2,3) _ this]
    have in_h: "covers blk' a \<Longrightarrow> m_heap_address h \<le> a \<and> a < heap_end h" for a
      using stays(4) R(1) less.prems(2) C by blast
    have "free_set (set_block i blk' h) = free_set h \<union> ?R"
      using sb(3) [OF in_h] stays(4) free_set_at [OF less.prems(1)] less.prems(2) by (auto 4 3)
    then have "freed h ?R (set_block i blk' h)" using sb(1,2) [OF in_h] by (simp add: freed_def)
    then show ?thesis using step stays(1) by simp
  next
    case (merges blk' block')
    let ?q = "2 ^ m_next_block_shift ?blk :: nat"
    let ?h = "set_block i blk' h"
    have nl: "Suc i < m_num_blocks h" "m_next_block_shift ?blk = m_block_shift (m_blocks h ! Suc i)"
      using next_level [OF less.prems(1,2) merges(1)] by auto
    have "\<not> covers (m_blocks h ! j) a" if "covers blk' a" "j < m_num_blocks h" "j \<noteq> i" for a j
      using that merges(7) R(2) covered_once [OF less.prems(1,2), of j a] by blast
    note sb = heap_ok_set_block [OF less.prems(1,2) merges(3,4) _ this]
    have in_h: "covers blk' a \<Longrightarrow> m_heap_address h \<le> a \<and> a < heap_end h" for a
      using merges(7) R(1) less.prems(2) C by blast
    have Q: "m_heap_address h \<le> a \<and> a < heap_end h" if "block' \<le> a \<and> a < block' + ?q" for a
      using merges(6) [OF that] R(1) less.prems(2) C by blast
    have fr: "free_set ?h = (free_set h \<union> ?R) - {block'..<block' + ?q}"
    proof -
      have "\<not> covers (m_blocks h ! j) a" if "block' \<le> a \<and> a < block' + ?q" "j < m_num_blocks h" "j \<noteq> i" for a j
        using merges(6) [OF that(1)] that(2,3) R(2) covered_once [OF less.prems(1,2), of j a] by blast
      then show ?thesis using sb(3) [OF in_h] merges(7) free_set_at [OF less.prems(1)] less.prems(2) by (auto 4 3)
    qed
    have sub: "{block'..<block' + ?q} \<subseteq> free_set h \<union> ?R"
    proof
      fix a assume "a \<in> {block'..<block' + ?q}"
      then have "covers ?blk a \<or> block \<le> a \<and> a < block + ?p" by (intro merges(6)) simp
      then show "a \<in> free_set h \<union> ?R" using free_set_at [OF less.prems(1)] less.prems(2) by auto
    qed
    have sh: "same_heap h ?h" "heap_ok ?h" using sb(1,2) [OF in_h] by simp_all
    note sm = same_heap_eqs [OF sh(1)]
    have s: "m_block_shift (m_blocks ?h ! Suc i) = m_next_block_shift ?blk" using sm(5) [of "Suc i"] nl len less.prems(1) by (simp add: heap_ok_def)
    have "\<exists>h'. FreeBlock block' (Suc i) ?h = Some h' \<and> freed ?h {block'..<block' + 2 ^ m_block_shift (m_blocks ?h ! Suc i)} h'"
    proof (rule less.hyps)
      show "m_num_blocks ?h - Suc i < m_num_blocks h - i" "Suc i < m_num_blocks ?h" using nl(1) sm(3) by simp_all
      show "heap_ok ?h" using sh(2) .
      show "2 ^ m_block_shift (m_blocks ?h ! Suc i) dvd block'" using merges(5) s by simp
      show "in_heap ?h {block'..<block' + 2 ^ m_block_shift (m_blocks ?h ! Suc i)}"
        unfolding in_heap_def s sm by (rule subsetI) (use Q in simp)
      show "{block'..<block' + 2 ^ m_block_shift (m_blocks ?h ! Suc i)} \<inter> free_set ?h = {}" using fr s by auto
    qed
    then obtain h' where h': "FreeBlock block' (Suc i) ?h = Some h'" "freed ?h {block'..<block' + ?q} h'" unfolding s by blast
    have "block' \<noteq> 0" using Q [of block'] less.prems(1) by (auto simp: heap_ok_def)
    with step merges(2) h'(1) have "FreeBlock block i h = Some h'" by simp
    moreover have "freed h ?R h'"
      using h'(2) same_heap_trans [OF sh(1)] fr sub by (auto simp: freed_def)
    ultimately show ?thesis by blast
  qed
qed

text \<open>Freeing piece by piece.\<close>

lemma freed_refl: "heap_ok h \<Longrightarrow> freed h {} h"
  by (simp add: freed_def)

lemma freed_trans: "freed h R h' \<Longrightarrow> freed h' R' h'' \<Longrightarrow> freed h (R \<union> R') h''"
  by (auto simp: freed_def intro: same_heap_trans)

lemma freed_geometry:
  assumes "freed h R h'" "heap_ok h"
  shows "heap_ok h'" "m_num_blocks h' = m_num_blocks h" "in_heap h' S \<longleftrightarrow> in_heap h S" "free_set h' = free_set h \<union> R"
    "i < m_num_blocks h \<Longrightarrow> m_block_shift (m_blocks h' ! i) = m_block_shift (m_blocks h ! i)"
  using assms same_heap_eqs [of h h'] by (auto simp: freed_def in_heap_def heap_ok_def)

text \<open>A range that can be freed.\<close>

definition freeable :: "k_page_heap \<Rightarrow> nat set \<Rightarrow> bool" where
  "freeable h R \<longleftrightarrow> heap_ok h \<and> in_heap h R \<and> R \<inter> free_set h = {}"

lemma freeable_part: "freeable h R \<Longrightarrow> S \<subseteq> R \<Longrightarrow> freeable h S"
  by (auto simp: freeable_def in_heap_def)

lemma freeable_rest:
  assumes "freeable h R" "freed h S h'" "S' \<subseteq> R" "S' \<inter> S = {}"
  shows "freeable h' S'"
proof -
  have "heap_ok h" using assms(1) by (simp add: freeable_def)
  note g = freed_geometry [OF assms(2) this]
  show ?thesis using assms g by (auto simp: freeable_def in_heap_def [of h])
qed

lemma FreeBlock_freed:
  assumes "freeable h {block..<block + 2 ^ s}" "i < m_num_blocks h" "s = m_block_shift (m_blocks h ! i)" "2 ^ s dvd block"
  shows "\<exists>h'. FreeBlock block i h = Some h' \<and> freed h {block..<block + 2 ^ s} h'"
  using FreeBlock_frees [of h i block] assms by (simp add: freeable_def)

lemma aligned_step: "n dvd a \<Longrightarrow> n dvd b \<Longrightarrow> a < b \<Longrightarrow> a + n \<le> b" for a b n :: nat
  by (metis dvd_diff_nat dvd_imp_le le_diff_conv2 less_imp_le zero_less_diff add.commute)

lemma free_to_freed:
  assumes "freeable h {block..<stop}" "i < m_num_blocks h" "s = m_block_shift (m_blocks h ! i)" "2 ^ s dvd block" "2 ^ s dvd stop"
  shows "\<exists>h'. free_to block stop s i h = Some h' \<and> freed h {block..<stop} h'"
  using assms
proof (induction block stop s i h rule: free_to.induct)
  case (1 block stop s i h)
  have ok: "heap_ok h" using 1(2) by (simp add: freeable_def)
  show ?case
  proof (cases "block < stop")
    case False
    then show ?thesis using freed_refl [OF ok] by (subst free_to.simps) simp
  next
    case True
    have st: "block + 2 ^ s \<le> stop" using aligned_step [OF 1(5,6) True] .
    have "freeable h {block..<block + 2 ^ s}" using freeable_part [OF 1(2)] st by (simp add: ivl_subset)
    then obtain h1 where h1: "FreeBlock block i h = Some h1" "freed h {block..<block + 2 ^ s} h1"
      using FreeBlock_freed 1(3-5) by blast
    note g = freed_geometry [OF h1(2) ok]
    have "freeable h1 {block + 2 ^ s..<stop}" by (rule freeable_rest [OF 1(2) h1(2)]) auto
    from 1(1) [OF True h1(1) this] 1(3-6) g obtain h2 where
      h2: "free_to (block + 2 ^ s) stop s i h1 = Some h2" "freed h1 {block + 2 ^ s..<stop} h2" by (auto simp: dvd_add)
    have "{block..<stop} = {block..<block + 2 ^ s} \<union> {block + 2 ^ s..<stop}" using st by auto
    then show ?thesis using freed_trans [OF h1(2) h2(2)] h1(1) h2(1) True by (subst free_to.simps) simp
  qed
qed

text \<open>Downwards and upwards while whole blocks fit; what is left is smaller than a block.\<close>

lemma free_down_freed:
  assumes "freeable h {start..<stop}" "i < m_num_blocks h" "s = m_block_shift (m_blocks h ! i)" "2 ^ s dvd stop" "start \<le> stop"
  shows "\<exists>stop' h'. free_down start stop s i h = Some (stop', h') \<and> freed h {stop'..<stop} h' \<and>
    start \<le> stop' \<and> stop' \<le> stop \<and> stop' < start + 2 ^ s \<and> 2 ^ s dvd stop'"
  using assms
proof (induction start stop s i h rule: free_down.induct)
  case (1 start stop s i h)
  have ok: "heap_ok h" using 1(2) by (simp add: freeable_def)
  show ?case
  proof (cases "start + 2 ^ s \<le> stop")
    case False
    then show ?thesis using freed_refl [OF ok] 1(5,6) by (subst free_down.simps) simp
  next
    case True
    have e: "stop - 2 ^ s + 2 ^ s = stop" "start \<le> stop - 2 ^ s" "2 ^ s dvd stop - 2 ^ s" using True 1(5) by (simp_all add: dvd_diff_nat)
    have "freeable h {stop - 2 ^ s..<stop - 2 ^ s + 2 ^ s}" by (rule freeable_part [OF 1(2)]) (use e in simp)
    then obtain h1 where h1: "FreeBlock (stop - 2 ^ s) i h = Some h1" "freed h {stop - 2 ^ s..<stop} h1"
      using FreeBlock_freed [of h "stop - 2 ^ s" s i] 1(3,4) e by auto
    note g = freed_geometry [OF h1(2) ok]
    have "freeable h1 {start..<stop - 2 ^ s}" by (rule freeable_rest [OF 1(2) h1(2)]) auto
    from 1(1) [OF True h1(1) this] 1(3-6) g e obtain stop' h2 where
      h2: "free_down start (stop - 2 ^ s) s i h1 = Some (stop', h2)" "freed h1 {stop'..<stop - 2 ^ s} h2"
        "start \<le> stop'" "stop' \<le> stop - 2 ^ s" "stop' < start + 2 ^ s" "2 ^ s dvd stop'" by auto
    have "{stop'..<stop} = {stop - 2 ^ s..<stop} \<union> {stop'..<stop - 2 ^ s}" using h2(4) by auto
    then have "freed h {stop'..<stop} h2" using freed_trans [OF h1(2) h2(2)] by simp
    moreover have "free_down start stop s i h = Some (stop', h2)" using True h1(1) h2(1) by (subst free_down.simps) simp
    ultimately show ?thesis using h2(3-6) by (metis diff_le_self order_trans)
  qed
qed

lemma free_up_freed:
  assumes "freeable h {start..<stop}" "i < m_num_blocks h" "s = m_block_shift (m_blocks h ! i)" "2 ^ s dvd start" "start \<le> stop"
  shows "\<exists>start' h'. free_up start stop s i h = Some (start', h') \<and> freed h {start..<start'} h' \<and>
    start \<le> start' \<and> start' \<le> stop \<and> stop < start' + 2 ^ s \<and> 2 ^ s dvd start'"
  using assms
proof (induction start stop s i h rule: free_up.induct)
  case (1 start stop s i h)
  have ok: "heap_ok h" using 1(2) by (simp add: freeable_def)
  show ?case
  proof (cases "start + 2 ^ s \<le> stop")
    case False
    then show ?thesis using freed_refl [OF ok] 1(5,6) by (subst free_up.simps) simp
  next
    case True
    have "freeable h {start..<start + 2 ^ s}" by (rule freeable_part [OF 1(2)]) (use True in auto)
    then obtain h1 where h1: "FreeBlock start i h = Some h1" "freed h {start..<start + 2 ^ s} h1"
      using FreeBlock_freed [of h start s i] 1(3-5) by auto
    note g = freed_geometry [OF h1(2) ok]
    have "freeable h1 {start + 2 ^ s..<stop}" by (rule freeable_rest [OF 1(2) h1(2)]) auto
    from 1(1) [OF True h1(1) this] 1(3-6) g True obtain start' h2 where
      h2: "free_up (start + 2 ^ s) stop s i h1 = Some (start', h2)" "freed h1 {start + 2 ^ s..<start'} h2"
        "start + 2 ^ s \<le> start'" "start' \<le> stop" "stop < start' + 2 ^ s" "2 ^ s dvd start'" by auto
    have "{start..<start'} = {start..<start + 2 ^ s} \<union> {start + 2 ^ s..<start'}" using h2(3) by auto
    then have "freed h {start..<start'} h2" using freed_trans [OF h1(2) h2(2)] by simp
    moreover have "free_up start stop s i h = Some (start', h2)" using True h1(1) h2(1) by (subst free_up.simps) simp
    ultimately show ?thesis using h2(3-6) by (metis add_leD1)
  qed
qed

lemma shift_step: "heap_ok h \<Longrightarrow> Suc i < m_num_blocks h \<Longrightarrow> m_block_shift (m_blocks h ! i) < m_block_shift (m_blocks h ! Suc i)"
proof -
  assume h: "heap_ok h" "Suc i < m_num_blocks h"
  then have "m_next_block_shift (m_blocks h ! i) = m_block_shift (m_blocks h ! Suc i)" by (simp add: heap_ok_def)
  moreover have "12 \<le> m_block_shift (m_blocks h ! Suc i)" using block_ok_in [OF h] by (simp add: block_ok_def)
  ultimately show ?thesis using block_ok_in [OF h(1), of i] h(2) by (auto simp: block_ok_def)
qed

lemma shift_mono:
  assumes "heap_ok h" "j < m_num_blocks h" "i \<le> j"
  shows "m_block_shift (m_blocks h ! i) \<le> m_block_shift (m_blocks h ! j)"
  using assms(3,2)
proof (induction j rule: dec_induct)
  case (step k)
  then show ?case using shift_step [OF assms(1), of k] by simp
qed simp

lemma page_dvd: "heap_ok h \<Longrightarrow> i < m_num_blocks h \<Longrightarrow> 2 ^ m_block_shift (m_blocks h ! i) dvd a \<Longrightarrow> PageSize dvd a"
proof -
  assume "heap_ok h" "i < m_num_blocks h" and d: "2 ^ m_block_shift (m_blocks h ! i) dvd a"
  then have "12 \<le> m_block_shift (m_blocks h ! i)" using block_ok_in [of h i] by (simp add: block_ok_def)
  then have "(2 ^ 12 :: nat) dvd 2 ^ m_block_shift (m_blocks h ! i)" by (rule le_imp_power_dvd)
  then show ?thesis using d by (auto simp: PageSize_def intro: dvd_trans)
qed

lemma close_aligned: "n dvd a \<Longrightarrow> n dvd b \<Longrightarrow> a \<le> b \<Longrightarrow> b < a + n \<Longrightarrow> a = b" for a b n :: nat
  using aligned_step [of n a b] by linarith

lemma free_before_freed:
  assumes "freeable h {start..<stop}" "k \<le> m_num_blocks h" "start \<le> stop" "PageSize dvd start"
    and "0 < k \<longrightarrow> 2 ^ m_block_shift (m_blocks h ! (k - 1)) dvd stop" "k = 0 \<longrightarrow> start = stop"
  shows "\<exists>h'. free_before k start stop h = Some h' \<and> freed h {start..<stop} h'"
  using assms
proof (induction k arbitrary: stop h)
  case 0
  then show ?case using freed_refl by (simp add: freeable_def)
next
  case (Suc i)
  let ?s = "m_block_shift (m_blocks h ! i)"
  have ok: "heap_ok h" and i: "i < m_num_blocks h" "i < length (m_blocks h)" using Suc.prems(1,2) by (auto simp: freeable_def heap_ok_def)
  obtain stop' h1 where h1: "free_down start stop ?s i h = Some (stop', h1)" "freed h {stop'..<stop} h1"
    "start \<le> stop'" "stop' \<le> stop" "stop' < start + 2 ^ ?s" "2 ^ ?s dvd stop'"
    using free_down_freed [OF Suc.prems(1) i(1) refl] Suc.prems(3,5) by auto
  note g = freed_geometry [OF h1(2) ok]
  have "freeable h1 {start..<stop'}" by (rule freeable_rest [OF Suc.prems(1) h1(2)]) (use h1(4) in auto)
  moreover have "2 ^ m_block_shift (m_blocks h1 ! (i - 1)) dvd stop'" if "0 < i"
    using that i(1) g(5) [of "i - 1"] shift_mono [OF ok i(1), of "i - 1"] h1(6)
    by (simp add: dvd_trans [OF le_imp_power_dvd])
  moreover have "start = stop'" if "i = 0"
  proof -
    have "(2::nat) ^ ?s = PageSize" using ok that by (simp add: heap_ok_def PageSize_def)
    then show ?thesis using h1(3,5,6) Suc.prems(4) by (intro close_aligned) simp_all
  qed
  ultimately obtain h2 where h2: "free_before i start stop' h1 = Some h2" "freed h1 {start..<stop'} h2"
    using Suc.IH [of h1 stop'] i(1) g(2) h1(3) Suc.prems(4) by auto
  have "{stop'..<stop} \<union> {start..<stop'} = {start..<stop}" using h1(3,4) by auto
  then show ?case using freed_trans [OF h1(2) h2(2)] h1(1) h2(1) i(2) by simp
qed

lemma free_after_freed:
  assumes "freeable h {start..<stop}" "k \<le> m_num_blocks h" "start \<le> stop" "PageSize dvd stop"
    and "0 < k \<longrightarrow> 2 ^ m_block_shift (m_blocks h ! (k - 1)) dvd start" "k = 0 \<longrightarrow> start = stop"
  shows "\<exists>h'. free_after k start stop h = Some h' \<and> freed h {start..<stop} h'"
  using assms
proof (induction k arbitrary: start h)
  case 0
  then show ?case using freed_refl by (simp add: freeable_def)
next
  case (Suc i)
  let ?s = "m_block_shift (m_blocks h ! i)"
  have ok: "heap_ok h" and i: "i < m_num_blocks h" "i < length (m_blocks h)" using Suc.prems(1,2) by (auto simp: freeable_def heap_ok_def)
  obtain start' h1 where h1: "free_up start stop ?s i h = Some (start', h1)" "freed h {start..<start'} h1"
    "start \<le> start'" "start' \<le> stop" "stop < start' + 2 ^ ?s" "2 ^ ?s dvd start'"
    using free_up_freed [OF Suc.prems(1) i(1) refl] Suc.prems(3,5) by auto
  note g = freed_geometry [OF h1(2) ok]
  have "freeable h1 {start'..<stop}" by (rule freeable_rest [OF Suc.prems(1) h1(2)]) (use h1(3) in auto)
  moreover have "2 ^ m_block_shift (m_blocks h1 ! (i - 1)) dvd start'" if "0 < i"
    using that i(1) g(5) [of "i - 1"] shift_mono [OF ok i(1), of "i - 1"] h1(6)
    by (simp add: dvd_trans [OF le_imp_power_dvd])
  moreover have "start' = stop" if "i = 0"
  proof -
    have "(2::nat) ^ ?s = PageSize" using ok that by (simp add: heap_ok_def PageSize_def)
    then show ?thesis using h1(4,5,6) Suc.prems(4) by (intro close_aligned) simp_all
  qed
  ultimately obtain h2 where h2: "free_after i start' stop h1 = Some h2" "freed h1 {start'..<stop} h2"
    using Suc.IH [of h1 start'] i(1) g(2) h1(4) Suc.prems(4) by auto
  have "{start..<start'} \<union> {start'..<stop} = {start..<stop}" using h1(3,4) by auto
  then show ?case using freed_trans [OF h1(2) h2(2)] h1(1) h2(1) i(2) by simp
qed

lemma AlignUp_aligned:
  assumes "v + n < 2 ^ 64" "0 < n"
  shows "v \<le> AlignUp v n" "AlignUp v n < v + n" "n dvd AlignUp v n" "n dvd v \<Longrightarrow> AlignUp v n = v"
proof -
  have "v - v mod n + n < 2 ^ 64" using assms(1) by linarith
  then have e: "AlignUp v n = (if v mod n = 0 then v else v - v mod n + n)" by (simp add: AlignUp_def add64_exact)
  have "v mod n < n" "v mod n \<le> v" using assms(2) by simp_all
  moreover have "r < n \<Longrightarrow> r \<le> v \<Longrightarrow> v \<le> (if r = 0 then v else v - r + n) \<and> (if r = 0 then v else v - r + n) < v + n" for r
    using assms(2) by auto
  ultimately show "v \<le> AlignUp v n" "AlignUp v n < v + n" unfolding e by blast+
  have "n dvd v - v mod n + n" by (intro dvd_add dvd_minus_mod) simp
  then show "n dvd AlignUp v n" unfolding e by auto
  show "n dvd v \<Longrightarrow> AlignUp v n = v" unfolding e by simp
qed

lemma find_big_found:
  assumes "heap_ok h" "0 < n" "n \<le> m_num_blocks h" "start < stop" "stop \<le> heap_end h" "PageSize dvd start" "PageSize dvd stop"
  shows "\<exists>i bs be. find_big n start stop h = Some (Some (i, bs, be)) \<and> i < n \<and> bs < be \<and> start \<le> bs \<and> be \<le> stop \<and>
    2 ^ m_block_shift (m_blocks h ! i) dvd bs \<and> 2 ^ m_block_shift (m_blocks h ! i) dvd be \<and>
    bs < start + 2 ^ m_block_shift (m_blocks h ! i) \<and> stop < be + 2 ^ m_block_shift (m_blocks h ! i)"
  using assms(2,3)
proof (induction n)
  case (Suc i)
  let ?p = "2 ^ m_block_shift (m_blocks h ! i) :: nat"
  have i: "i < length (m_blocks h)" "i < m_num_blocks h" using assms(1) Suc.prems(2) by (auto simp: heap_ok_def)
  have "?p \<le> 2 ^ 30" using block_ok_in [OF assms(1) i(2)] by (intro power_increasing) (simp_all add: block_ok_def)
  then have "start + ?p < 2 ^ 64" using assms(1,4,5) by (simp add: heap_ok_def)
  note up = AlignUp_aligned [OF this, simplified]
  have "r < ?p \<Longrightarrow> r \<le> stop \<Longrightarrow> stop < stop - r + ?p" for r by simp
  then have down: "stop < AlignDown stop ?p + ?p" unfolding AlignDown_def by simp
  show ?case
  proof (cases "AlignUp start ?p < AlignDown stop ?p")
    case True
    then show ?thesis using i up down AlignDown_le AlignDown_dvd by (simp add: Block_GetSize_def Let_def)
  next
    case False
    have "i \<noteq> 0"
    proof
      assume "i = 0"
      then have p: "?p = PageSize" using assms(1) by (simp add: heap_ok_def PageSize_def)
      have "AlignUp start ?p = start" "AlignDown stop ?p = stop" using up(4) assms(6,7) p by (simp_all add: AlignDown_def)
      then show False using False assms(4) by simp
    qed
    then show ?thesis using False Suc i by (auto simp: Block_GetSize_def Let_def)
  qed
qed simp

lemma Free_frees:
  assumes "freeable h {addr..<addr + n * PageSize}" "PageSize dvd addr"
  shows "\<exists>h'. Free addr n h = Some h' \<and> freed h {addr..<addr + n * PageSize} h'"
proof (cases "n = 0")
  case True
  then show ?thesis using assms(1) freed_refl by (simp add: Free_def freeable_def)
next
  case False
  let ?stop = "addr + n * PageSize"
  have ok: "heap_ok h" "0 < m_num_blocks h" using assms(1) by (auto simp: freeable_def heap_ok_def)
  have ps: "0 < n * PageSize" "PageSize dvd ?stop" using False assms(2) by (auto simp: PageSize_def)
  then have e: "?stop \<le> heap_end h" "addr < ?stop" using assms(1) by (simp_all add: freeable_def in_heap_def)
  obtain i bs be where big: "find_big (m_num_blocks h) addr ?stop h = Some (Some (i, bs, be))" "i < m_num_blocks h" "bs < be"
    "addr \<le> bs" "be \<le> ?stop" "2 ^ m_block_shift (m_blocks h ! i) dvd bs" "2 ^ m_block_shift (m_blocks h ! i) dvd be"
    "bs < addr + 2 ^ m_block_shift (m_blocks h ! i)" "?stop < be + 2 ^ m_block_shift (m_blocks h ! i)"
    using find_big_found [OF ok(1,2) order_refl e(2,1) assms(2) ps(2)] by blast
  have lower: "2 ^ m_block_shift (m_blocks h ! (i - 1)) dvd a" if "2 ^ m_block_shift (m_blocks h ! i) dvd a" for a :: nat
    using that shift_mono [OF ok(1) big(2), of "i - 1"] by (simp add: dvd_trans [OF le_imp_power_dvd])
  have zero: "i = 0 \<Longrightarrow> addr = bs \<and> be = ?stop"
  proof -
    assume "i = 0"
    then have p: "(2::nat) ^ m_block_shift (m_blocks h ! i) = PageSize" using ok(1) by (simp add: heap_ok_def PageSize_def)
    show ?thesis
      using close_aligned [OF assms(2), of bs] close_aligned [OF big(7) [unfolded p] ps(2)] big(4-6,8,9) unfolding p by blast
  qed
  obtain h1 where h1: "free_to bs be (m_block_shift (m_blocks h ! i)) i h = Some h1" "freed h {bs..<be} h1"
    using free_to_freed [OF freeable_part [OF assms(1)] big(2) refl big(6,7)] big(3-5) by auto
  note g1 = freed_geometry [OF h1(2) ok(1)]
  have "freeable h1 {addr..<bs}" by (rule freeable_rest [OF assms(1) h1(2)]) (use big(3-5) in auto)
  then obtain h2 where h2: "free_before i addr bs h1 = Some h2" "freed h1 {addr..<bs} h2"
    using free_before_freed [of h1 addr bs i] g1(2,5) big(2,4,6) lower zero assms(2) by auto
  note g2 = freed_geometry [OF h2(2) g1(1)]
  have h12: "freed h ({bs..<be} \<union> {addr..<bs}) h2" using freed_trans [OF h1(2) h2(2)] .
  have "freeable h2 {be..<?stop}" by (rule freeable_rest [OF assms(1) h12]) (use big(3-5) in auto)
  then obtain h3 where h3: "free_after i be ?stop h2 = Some h3" "freed h2 {be..<?stop} h3"
    using free_after_freed [of h2 be ?stop i] g1(2,5) g2(2,5) big(2,5,7) lower zero ps(2) by auto
  have "{bs..<be} \<union> {addr..<bs} \<union> {be..<?stop} = {addr..<?stop}" using big(3-5) by auto
  then show ?thesis using freed_trans [OF h12 h3(2)] big(1) h1(1) h2(1) h3(1) False by (simp add: Free_def Let_def)
qed

subsection \<open>Allocating\<close>

text \<open>What taking a set of addresses away does.\<close>

definition taken :: "k_page_heap \<Rightarrow> nat set \<Rightarrow> k_page_heap \<Rightarrow> bool" where
  "taken h R h' \<longleftrightarrow> R \<subseteq> free_set h \<and> heap_ok h' \<and> same_heap h h' \<and> free_set h' = free_set h - R"

lemma block_of_bit:
  assumes "block_ok h blk" "o' \<in> bits (m_bitmap blk)"
  shows "covers blk (m_block_address blk + o' * 2 ^ m_block_shift blk)" "o' < m_end_offset blk"
proof -
  show c: "covers blk (m_block_address blk + o' * 2 ^ m_block_shift blk)" using assms(2) by (simp add: covers_def)
  then have "o' * 2 ^ m_block_shift blk < m_end_offset blk * 2 ^ m_block_shift blk"
    using assms(1) unfolding block_ok_def by (meson add_less_cancel_left less_le_trans)
  then show "o' < m_end_offset blk" by simp
qed

lemma PopBlock_takes:
  assumes "heap_ok h" "i < m_num_blocks h"
  shows "if bits (m_bitmap (m_blocks h ! i)) = {} then PopBlock random (m_blocks h ! i) = Some (0, m_blocks h ! i)
    else \<exists>addr blk. PopBlock random (m_blocks h ! i) = Some (addr, blk) \<and> addr \<noteq> 0 \<and>
      2 ^ m_block_shift (m_blocks h ! i) dvd addr \<and>
      taken h {addr..<addr + 2 ^ m_block_shift (m_blocks h ! i)} (set_block i blk h)"
proof (cases "bits (m_bitmap (m_blocks h ! i)) = {}")
  case True
  have "bitmap_ok (m_bitmap (m_blocks h ! i))" using block_ok_in [OF assms] by (simp add: block_ok_def)
  with True show ?thesis by (simp add: PopBlock_def page_bitmap.find_none)
next
  case False
  let ?blk = "m_blocks h ! i" and ?p = "2 ^ m_block_shift (m_blocks h ! i) :: nat"
  have ok: "block_ok h ?blk" "bitmap_ok (m_bitmap ?blk)" "?p dvd m_block_address ?blk"
    using block_ok_in [OF assms] by (auto simp: block_ok_def)
  obtain k b1 bm where t: "FindFreeBlock random (m_bitmap ?blk) = Some (int k, b1)" "ClearBit k b1 = Some bm" "k \<in> bits (m_bitmap ?blk)"
    "becomes (m_bitmap ?blk) (bits (m_bitmap ?blk) - {k}) bm" using page_bitmap.take_one [OF ok(2) False, of random] by blast
  let ?addr = "m_block_address ?blk + k * ?p" and ?blk' = "?blk\<lparr>m_bitmap := bm\<rparr>"
  have pop: "PopBlock random ?blk = Some (?addr, ?blk')" using t(1,2) by (simp add: PopBlock_def)
  have rng: "m_block_address ?blk \<le> a \<and> (a - m_block_address ?blk) div ?p = k \<longleftrightarrow> ?addr \<le> a \<and> a < ?addr + ?p" for a
    using same_block [of ?p "m_block_address ?blk" ?addr a] ok(3) by simp
  have cov: "covers ?blk' a \<longleftrightarrow> covers ?blk a \<and> \<not> (?addr \<le> a \<and> a < ?addr + ?p)" for a
    unfolding covers_becomes [OF t(4)] covers_def [of ?blk] rng [of a, symmetric] by blast
  have sub: "covers ?blk a" if "?addr \<le> a \<and> a < ?addr + ?p" for a
    using iffD2 [OF rng that] t(3) unfolding covers_def by blast
  have in_h: "m_heap_address h \<le> a \<and> a < heap_end h" if "covers ?blk' a" for a using that cov ok(1) by (simp add: block_ok_def)
  have others: "\<not> covers (m_blocks h ! j) a" if "covers ?blk' a" "j < m_num_blocks h" "j \<noteq> i" for a j
    using that cov covered_once [OF assms, of j a] by blast
  have okb: "bitmap_ok (m_bitmap ?blk')" using t(4) by (simp add: becomes_def)
  note sb = heap_ok_set_block [OF assms becomes_shape [OF t(4)] okb in_h others, simplified]
  have "a \<in> free_set (set_block i ?blk' h) \<longleftrightarrow> a \<in> free_set h - {?addr..<?addr + ?p}" for a
    using sb(3) [of a] cov [of a] sub [of a] covered_once [OF assms, of _ a] free_set_at [OF assms(1), of a] assms(2)
    by (auto 4 3)
  moreover have "{?addr..<?addr + ?p} \<subseteq> free_set h"
  proof
    fix a assume "a \<in> {?addr..<?addr + ?p}"
    then have "covers ?blk a" by (intro sub) simp
    then show "a \<in> free_set h" using free_set_at [OF assms(1)] assms(2) by blast
  qed
  ultimately have "taken h {?addr..<?addr + ?p} (set_block i ?blk' h)" using sb(1,2) by (auto simp: taken_def)
  moreover have "m_heap_address h \<le> ?addr" using block_of_bit(1) [OF ok(1) t(3)] ok(1) by (simp add: block_ok_def)
  moreover have "0 < m_heap_address h" using assms(1) by (simp add: heap_ok_def)
  moreover have "?p dvd ?addr" using ok(3) by simp
  ultimately show ?thesis using False pop by auto
qed

text \<open>Giving a part of what was taken back.\<close>

lemma taken_freed:
  assumes "heap_ok h" "taken h R h1" "freed h1 S h2" "S \<subseteq> R"
  shows "taken h (R - S) h2"
  using assms same_heap_trans [of h h1 h2] by (auto simp: taken_def freed_def)

lemma taken_freeable:
  assumes "heap_ok h" "taken h R h'" "S \<subseteq> R"
  shows "freeable h' S"
  using assms free_in_heap [OF assms(1)] same_heap_eqs [of h h'] by (auto simp: taken_def freeable_def in_heap_def)

lemma give_back:
  assumes "heap_ok h" "taken h R h1" "{a..<a + n} \<subseteq> R" "PageSize dvd a" "PageSize dvd n"
  shows "\<exists>h2. Free a (n div PageSize) h1 = Some h2 \<and> taken h (R - {a..<a + n}) h2"
  using Free_frees [OF taken_freeable [OF assms(1,2)] assms(4), of "n div PageSize"] taken_freed [OF assms(1,2)] assms(3,5)
  by auto

text \<open>Whether a block of at least the given size is free, which decides whether an allocation succeeds.\<close>

definition has_block :: "k_page_heap \<Rightarrow> nat \<Rightarrow> bool" where
  "has_block h index \<longleftrightarrow> (\<exists>i. index \<le> i \<and> i < m_num_blocks h \<and> bits (m_bitmap (m_blocks h ! i)) \<noteq> {})"

definition allocates :: "k_page_heap \<Rightarrow> nat \<Rightarrow> nat \<Rightarrow> nat \<Rightarrow> (nat \<times> k_page_heap) option \<Rightarrow> bool" where
  "allocates h index sz align r \<longleftrightarrow>
     (if has_block h index then \<exists>addr h'. r = Some (addr, h') \<and> addr \<noteq> 0 \<and> align dvd addr \<and> taken h {addr..<addr + sz} h'
      else \<exists>h'. r = Some (0, h') \<and> taken h {} h')"

lemma taken_none: "heap_ok h \<Longrightarrow> taken h {} h"
  by (simp add: taken_def)

lemma set_block_same [simp]: "set_block i (m_blocks h ! i) h = h"
  by (simp add: set_block_def)

lemma pages_dvd: "12 \<le> s \<Longrightarrow> PageSize dvd 2 ^ s"
  using le_imp_power_dvd [of 12 s "2::nat"] by (simp add: PageSize_def)

lemma linear_search_allocates:
  assumes "heap_ok h" "k \<le> m_num_blocks h" "needed = 2 ^ m_block_shift (m_blocks h ! index)" "index \<le> k" "index < m_num_blocks h"
  shows "allocates h k needed needed (linear_search [k..<m_num_blocks h] needed h)"
  using assms(2,4)
proof (induction k rule: inc_induct)
  case base
  then show ?case using taken_none [OF assms(1)] by (auto simp: allocates_def has_block_def)
next
  case (step i)
  let ?blk = "m_blocks h ! i" and ?p = "2 ^ m_block_shift (m_blocks h ! i) :: nat"
  have i: "i < length (m_blocks h)" using assms(1) step(2) by (simp add: heap_ok_def)
  have list: "[i..<m_num_blocks h] = i # [Suc i..<m_num_blocks h]" using step(2) by (simp add: upt_conv_Cons)
  show ?case
  proof (cases "bits (m_bitmap ?blk) = {}")
    case True
    then have "has_block h i \<longleftrightarrow> has_block h (Suc i)" unfolding has_block_def by (metis Suc_leD Suc_leI le_neq_implies_less)
    moreover have "linear_search [i..<m_num_blocks h] needed h = linear_search [Suc i..<m_num_blocks h] needed h"
      using PopBlock_takes [OF assms(1) step(2), of False] True i by (simp add: list Let_def)
    ultimately show ?thesis using step(3,4) by (simp add: allocates_def)
  next
    case False
    then obtain addr blk where p: "PopBlock False ?blk = Some (addr, blk)" "addr \<noteq> 0" "?p dvd addr"
      "taken h {addr..<addr + ?p} (set_block i blk h)" using PopBlock_takes [OF assms(1) step(2), of False] by auto
    have hb: "has_block h i" using False step(2) by (auto simp: has_block_def)
    have s: "m_block_shift (m_blocks h ! index) \<le> m_block_shift ?blk" "12 \<le> m_block_shift (m_blocks h ! index)"
      using shift_mono [OF assms(1) step(2) step(4)] block_ok_in [OF assms(1,5)] by (auto simp: block_ok_def)
    then have n: "needed \<le> ?p" "needed dvd addr" "PageSize dvd needed" "PageSize dvd ?p"
      using assms(3) p(3) pages_dvd by (auto intro: power_increasing dvd_trans [OF le_imp_power_dvd])
    have "\<exists>h2. (if ?p > needed then Free (addr + needed) ((?p - needed) div PageSize) (set_block i blk h) else Some (set_block i blk h)) = Some h2 \<and>
      taken h {addr..<addr + needed} h2"
    proof (cases "?p > needed")
      case True
      have "addr + needed + (?p - needed) = addr + ?p" using n(1) by simp
      moreover have "{addr..<addr + ?p} - {addr + needed..<addr + ?p} = {addr..<addr + needed}" using n(1) by auto
      moreover have "PageSize dvd addr" using n(2,3) by (rule dvd_trans [rotated])
      ultimately show ?thesis
        using give_back [OF assms(1) p(4), of "addr + needed" "?p - needed"] n True by (auto simp: dvd_diff_nat)
    next
      case False
      with n(1) p(4) show ?thesis by simp
    qed
    then show ?thesis using p(1,2) n(2) hb i by (auto simp: allocates_def list Block_GetSize_def Let_def)
  qed
qed

lemma AllocateByLinearSearch_allocates:
  assumes "heap_ok h" "index < m_num_blocks h"
  shows "allocates h index (2 ^ m_block_shift (m_blocks h ! index)) (2 ^ m_block_shift (m_blocks h ! index)) (AllocateByLinearSearch index h)"
proof -
  have "index < length (m_blocks h)" using assms by (simp add: heap_ok_def)
  then show ?thesis using linear_search_allocates [OF assms(1) _ refl order_refl assms(2)] assms(2)
    by (simp add: AllocateByLinearSearch_def Block_GetSize_def)
qed

text \<open>Random allocation: the number of ways stays small, and the chosen size has a free block if any has.\<close>

lemma div_mult_le_div: "0 < n \<Longrightarrow> x div n * y \<le> y * x div n" for x y n :: nat
proof -
  assume "0 < n"
  have "y * (x div n * n) \<le> y * x" by (intro mult_le_mono2) (rule div_times_less_eq_dividend)
  then have "x div n * y * n \<le> y * x" by (simp add: ac_simps)
  with \<open>0 < n\<close> show ?thesis by (simp add: less_eq_div_iff_mult_less_eq)
qed

lemma alignments_bound:
  assumes "heap_ok h" "i < m_num_blocks h" "PageSize \<le> needed" "needed \<le> 2 ^ m_block_shift (m_blocks h ! i)" "12 \<le> a"
  shows "alignments_in (m_blocks h ! i) needed a < 2 ^ 29"
    "0 < alignments_in (m_blocks h ! i) needed a \<longleftrightarrow> bits (m_bitmap (m_blocks h ! i)) \<noteq> {}"
proof -
  let ?blk = "m_blocks h ! i" and ?p = "2 ^ m_block_shift (m_blocks h ! i) :: nat"
  have ok: "block_ok h ?blk" using block_ok_in [OF assms(1,2)] .
  then have num: "Block_GetNumFreeBlocks ?blk = card (bits (m_bitmap ?blk))"
    by (simp add: Block_GetNumFreeBlocks_def block_ok_def bitmap_ok_def)
  then show "0 < alignments_in ?blk needed a \<longleftrightarrow> bits (m_bitmap ?blk) \<noteq> {}"
    by (simp add: alignments_in_def card_gt_0_iff)
  have "bits (m_bitmap ?blk) \<subseteq> {..<m_end_offset ?blk}" using block_of_bit(2) [OF ok] by auto
  from card_mono [OF finite_lessThan this] have c: "card (bits (m_bitmap ?blk)) \<le> m_end_offset ?blk" by simp
  have "(2::nat) ^ 12 \<le> 2 ^ a" using assms(5) by (rule power_increasing) simp
  then have "(?p - needed) div 2 ^ a \<le> (?p - PageSize) div PageSize"
    using assms(3) by (intro order_trans [OF div_le_mono2 div_le_mono]) (simp_all add: PageSize_def)
  moreover have "(?p - PageSize) div PageSize + 1 = ?p div PageSize"
    using assms(3,4) by (subst le_div_geq [of PageSize ?p]) (simp_all add: PageSize_def)
  ultimately have w: "1 + (?p - needed) div 2 ^ a \<le> ?p div PageSize" by linarith
  have "?p \<le> 2 ^ 30" using ok by (intro power_increasing) (simp_all add: block_ok_def)
  then have s: "sub64 ?p needed = ?p - needed" using assms(4) by (intro sub64_exact) simp_all
  have "alignments_in ?blk needed a \<le> ?p div PageSize * m_end_offset ?blk"
    unfolding alignments_in_def num Block_GetSize_def s by (rule mult_le_mono [OF w c])
  also have "\<dots> \<le> (m_end_offset ?blk * ?p) div PageSize"
    by (rule div_mult_le_div) (simp add: PageSize_def)
  also have "\<dots> \<le> (m_heap_size h + 2 ^ 32) div PageSize" using ok by (intro div_le_mono) (simp add: block_ok_def)
  also have "\<dots> < 2 ^ 29"
  proof -
    have "m_heap_size h \<le> 2 ^ 40" using assms(1) unfolding heap_ok_def heap_end_def by linarith
    then have "m_heap_size h + 2 ^ 32 < 2 ^ 29 * PageSize" unfolding PageSize_def by simp
    then show ?thesis by (simp only: div_less_iff_less_mult PageSize_def)
  qed
  finally show "alignments_in ?blk needed a < 2 ^ 29" .
qed

lemma bit_unat: "bit v i \<longleftrightarrow> bit (unat v) i" for v :: u64
  by (simp add: bit_unsigned_iff)

lemma rng_block_ok [simp]: "block_ok (h\<lparr>heap_rng := g\<rparr>) blk \<longleftrightarrow> block_ok h blk"
  by (simp add: block_ok_def heap_end_def)

lemma rng_simps [simp]:
  "heap_ok (h\<lparr>heap_rng := g\<rparr>) \<longleftrightarrow> heap_ok h" "free_set (h\<lparr>heap_rng := g\<rparr>) = free_set h"
  "same_heap h0 (h\<lparr>heap_rng := g\<rparr>) \<longleftrightarrow> same_heap h0 h" "same_heap (h\<lparr>heap_rng := g\<rparr>) h0 \<longleftrightarrow> same_heap h h0"
  "taken h0 R (h\<lparr>heap_rng := g\<rparr>) \<longleftrightarrow> taken h0 R h" "taken (h\<lparr>heap_rng := g\<rparr>) R h0 \<longleftrightarrow> taken h R h0"
  by (simp_all add: heap_ok_def free_set_def same_heap_def heap_end_def taken_def)

lemma count_alignments_counts:
  assumes "heap_ok h" "\<And>i. k0 \<le> i \<Longrightarrow> i < m_num_blocks h \<Longrightarrow> alignments_in (m_blocks h ! i) needed a < 2 ^ 29"
    and "k \<le> m_num_blocks h" "k0 \<le> k" "p < 4"
  shows "\<exists>m. k \<le> m \<and> m \<le> m_num_blocks h \<and> (m = m_num_blocks h \<or> k < m) \<and>
    count_alignments [k..<m_num_blocks h] needed a p (m_num_blocks h) h =
      Some (p + (\<Sum>i = k..<m. alignments_in (m_blocks h ! i) needed a), m) \<and>
    p + (\<Sum>i = k..<m. alignments_in (m_blocks h ! i) needed a) < 2 ^ 30 \<and>
    (m = m_num_blocks h \<or> 0 < p + (\<Sum>i = k..<m. alignments_in (m_blocks h ! i) needed a))"
  using assms(3-5)
proof (induction k arbitrary: p rule: inc_induct)
  case base
  then show ?case by (intro exI [of _ "m_num_blocks h"]) simp
next
  case (step i)
  let ?A = "\<lambda>i. alignments_in (m_blocks h ! i) needed a"
  have i: "i < length (m_blocks h)" "[i..<m_num_blocks h] = i # [Suc i..<m_num_blocks h]"
    using assms(1) step(2) by (simp_all add: heap_ok_def upt_conv_Cons)
  have b: "?A i < 2 ^ 29" using assms(2) step(2,4) by blast
  show ?case
  proof (cases "p + ?A i \<ge> MinimumPossibleAlignments")
    case True
    then have "0 < p + ?A i" unfolding MinimumPossibleAlignments_def by linarith
    then show ?thesis using True i b step(2,5) by (intro exI [of _ "Suc i"]) (simp add: Let_def)
  next
    case False
    then have "p + ?A i < 4" by (simp add: MinimumPossibleAlignments_def)
    with step(3) [of "p + ?A i"] step(4) obtain m where m: "Suc i \<le> m" "m \<le> m_num_blocks h" "m = m_num_blocks h \<or> Suc i < m"
      "count_alignments [Suc i..<m_num_blocks h] needed a (p + ?A i) (m_num_blocks h) h = Some (p + ?A i + (\<Sum>i = Suc i..<m. ?A i), m)"
      "p + ?A i + (\<Sum>i = Suc i..<m. ?A i) < 2 ^ 30"
      "m = m_num_blocks h \<or> 0 < p + ?A i + (\<Sum>i = Suc i..<m. ?A i)" by auto
    have "(\<Sum>i = i..<m. ?A i) = ?A i + (\<Sum>i = Suc i..<m. ?A i)" using m(1) by (simp add: sum.atLeast_Suc_lessThan)
    then show ?thesis using False i m by (intro exI [of _ m]) (simp add: Let_def add.assoc)
  qed
qed

lemma choose_index_chooses:
  assumes "heap_ok h" "k \<le> m" "m \<le> m_num_blocks h"
    and "p \<le> rnd" "rnd < p + (\<Sum>i = k..<m. alignments_in (m_blocks h ! i) needed a)"
  shows "\<exists>i. k \<le> i \<and> i < m \<and> 0 < alignments_in (m_blocks h ! i) needed a \<and>
    choose_index [k..<m] needed a rnd p idx h = Some i"
  using assms(2,4,5)
proof (induction k arbitrary: p rule: inc_induct)
  case (step i)
  let ?A = "\<lambda>i. alignments_in (m_blocks h ! i) needed a"
  have i: "i < length (m_blocks h)" "[i..<m] = i # [Suc i..<m]"
    using assms(1,3) step(2) by (simp_all add: heap_ok_def upt_conv_Cons)
  show ?case
  proof (cases "rnd < p + ?A i")
    case True
    then show ?thesis using i step(2,4) by (intro exI [of _ i]) (simp add: Let_def)
  next
    case False
    have "(\<Sum>i = i..<m. ?A i) = ?A i + (\<Sum>i = Suc i..<m. ?A i)" using step(2) by (simp add: sum.atLeast_Suc_lessThan)
    then have "rnd < p + ?A i + (\<Sum>i = Suc i..<m. ?A i)" using step(5) by simp
    with step(3) [of "p + ?A i"] False i show ?thesis by (auto simp: Let_def dest: Suc_leD)
  qed
qed simp

lemma select_index_selects:
  assumes "heap_ok h" "index < m_num_blocks h" "PageSize \<le> needed" "needed \<le> 2 ^ m_block_shift (m_blocks h ! index)" "12 \<le> a"
  shows "\<exists>i g. select_index index needed a h = Some (i, h\<lparr>heap_rng := g\<rparr>) \<and> index \<le> i \<and> i < m_num_blocks h \<and>
    (has_block h index \<longleftrightarrow> bits (m_bitmap (m_blocks h ! i)) \<noteq> {})"
proof -
  let ?A = "\<lambda>i. alignments_in (m_blocks h ! i) needed a"
  have fits: "needed \<le> 2 ^ m_block_shift (m_blocks h ! i)" if "index \<le> i" "i < m_num_blocks h" for i
    using assms(4) shift_mono [OF assms(1) that(2,1)] by (auto intro: order_trans power_increasing)
  note bound = alignments_bound [OF assms(1) _ assms(3) fits assms(5)]
  obtain m where m: "index \<le> m" "m \<le> m_num_blocks h" "m = m_num_blocks h \<or> index < m"
    "count_alignments [index..<m_num_blocks h] needed a 0 (m_num_blocks h) h = Some (\<Sum>i = index..<m. ?A i, m)"
    "(\<Sum>i = index..<m. ?A i) < 2 ^ 30" "m = m_num_blocks h \<or> 0 < (\<Sum>i = index..<m. ?A i)"
    using count_alignments_counts [OF assms(1) bound(1), of index index 0] assms(2) by auto
  have im: "index < m" using m(3) assms(2) by auto
  have pos: "has_block h index" if "0 < ?A i" "index \<le> i" "i < m_num_blocks h" for i
    using that bound(2) [of i] by (auto simp: has_block_def)
  show ?thesis
  proof (cases "(\<Sum>i = index..<m. ?A i) > 0 \<and> index + 1 < m")
    case True
    let ?S = "\<Sum>i = index..<m. ?A i"
    have S: "unat (of_nat ?S :: u64) = ?S" by (rule unat_small [OF less_trans [OF m(5)]]) simp
    obtain rnd g where g: "GenerateRandom (of_nat ?S) (heap_rng h) = Some (rnd, g)" "unat rnd < ?S"
      using GenerateRandom_below [of "of_nat ?S" "heap_rng h", unfolded S, OF conjunct1 [OF True] m(5)] by blast
    obtain i where i: "index \<le> i" "i < m" "0 < ?A i" "choose_index [index..<m] needed a (unat rnd) 0 index h = Some i"
      using choose_index_chooses [OF assms(1) m(1,2), of 0 "unat rnd" needed a index] g(2) by auto
    have "bits (m_bitmap (m_blocks h ! i)) \<noteq> {}" "has_block h index" using i m(2) bound(2) [of i] pos [of i] by simp_all
    then show ?thesis using True m(2,4) g(1) i by (auto simp: select_index_def)
  next
    case False
    have eq: "select_index index needed a h = Some (index, h\<lparr>heap_rng := heap_rng h\<rparr>)"
      using False m(4) by (auto simp: select_index_def)
    have "has_block h index \<longleftrightarrow> bits (m_bitmap (m_blocks h ! index)) \<noteq> {}"
    proof (cases "(\<Sum>i = index..<m. ?A i) = 0")
      case True
      then have "m = m_num_blocks h" using m(6) by simp
      with True have "\<And>i. index \<le> i \<Longrightarrow> i < m_num_blocks h \<Longrightarrow> ?A i = 0" by simp
      then have "\<And>i. index \<le> i \<Longrightarrow> i < m_num_blocks h \<Longrightarrow> bits (m_bitmap (m_blocks h ! i)) = {}"
        using bound(2) by (metis less_numeral_extra(3))
      then show ?thesis using assms(2) by (auto simp: has_block_def)
    next
      case nz: False
      then have "\<not> index + 1 < m" using False neq0_conv by blast
      then have "m = Suc index" using im by simp
      then have "0 < ?A index" using nz by simp
      then show ?thesis using bound(2) [of index] pos [of index] assms(2) by simp
    qed
    then show ?thesis using eq assms(2) by blast
  qed
qed

text \<open>Alignment: the trailing zeros of a size.\<close>

lemma pow2_dvd_bits: "2 ^ k dvd n \<longleftrightarrow> (\<forall>i<k. \<not> bit n i)" for n k :: nat
proof -
  have "2 ^ k dvd n \<longleftrightarrow> take_bit k n = 0" by (simp add: take_bit_eq_0_iff)
  also have "\<dots> \<longleftrightarrow> (\<forall>i<k. \<not> bit n i)" by (auto simp: bit_eq_iff bit_take_bit_iff)
  finally show ?thesis .
qed

lemma countr_zero_dvd:
  assumes "0 < n" "n < 2 ^ 64"
  shows "2 ^ countr_zero (of_nat n) dvd n" "2 ^ k dvd n \<Longrightarrow> k \<le> countr_zero (of_nat n)"
proof -
  let ?v = "of_nat n :: u64"
  have bn: "bit ?v i \<longleftrightarrow> bit n i" for i
    unfolding bit_unat unat_small [OF assms(2)] ..
  have nz: "?v \<noteq> 0" using unat_small [OF assms(2)] assms(1) by auto
  have "\<not> bit ?v i" if "i < countr_zero ?v" for i using countr_zero_least [OF nz that] .
  then show "2 ^ countr_zero ?v dvd n" by (simp add: pow2_dvd_bits bn)
  show "2 ^ k dvd n \<Longrightarrow> k \<le> countr_zero ?v" using countr_zero_bit(2) [OF nz] by (auto simp: pow2_dvd_bits bn not_less [symmetric])
qed

lemma keep_part_keeps:
  assumes "heap_ok h" "taken h {addr..<addr + sz} h1" "PageSize dvd addr" "PageSize dvd needed" "PageSize dvd sz" "12 \<le> a"
    and "needed + leftover = sz" "sz \<le> 2 ^ 30"
  shows "\<exists>k h2. keep_part addr needed leftover a h1 = Some (addr + k * 2 ^ a, h2) \<and>
    taken h {addr + k * 2 ^ a..<addr + k * 2 ^ a + needed} h2"
proof -
  let ?m = "1 + leftover div 2 ^ a"
  have pa: "PageSize dvd 2 ^ a" using pages_dvd [OF assms(6)] .
  have "(2::nat) ^ 12 \<le> 2 ^ a" using assms(6) by (rule power_increasing) simp
  then have "leftover div 2 ^ a \<le> leftover div 2 ^ 12" by (rule div_le_mono2 [rotated]) simp
  also have "leftover div 2 ^ 12 \<le> 2 ^ 30 div 2 ^ 12" using assms(7,8) by (intro div_le_mono) simp
  finally have m: "?m < 2 ^ 30" by simp
  have um: "unat (of_nat ?m :: u64) = ?m" by (rule unat_small [OF less_trans [OF m]]) simp
  obtain rnd g where g: "GenerateRandom (of_nat ?m) (heap_rng h1) = Some (rnd, g)" "unat rnd < ?m"
    using GenerateRandom_below [of "of_nat ?m" "heap_rng h1"] m unfolding um by auto
  let ?off = "unat rnd * 2 ^ a" and ?h1 = "h1\<lparr>heap_rng := g\<rparr>"
  have off: "?off \<le> leftover" "PageSize dvd ?off" using g(2) pa by (simp_all add: less_eq_div_iff_mult_less_eq less_Suc_eq_le)
  have t1: "taken h {addr..<addr + sz} ?h1" using assms(2) by simp
  have lo: "PageSize dvd leftover" using assms(4,5,7) by (metis dvd_add_right_iff)
  have "\<exists>h2. (if ?off \<noteq> 0 then Free addr (?off div PageSize) ?h1 else Some ?h1) = Some h2 \<and> taken h {addr + ?off..<addr + sz} h2"
  proof (cases "?off = 0")
    case True
    with t1 show ?thesis by simp
  next
    case False
    have "{addr..<addr + sz} - {addr..<addr + ?off} = {addr + ?off..<addr + sz}" by auto
    with give_back [OF assms(1) t1, of addr ?off] False off assms(3,7) show ?thesis by auto
  qed
  then obtain h2 where h2: "(if ?off \<noteq> 0 then Free addr (?off div PageSize) ?h1 else Some ?h1) = Some h2"
    "taken h {addr + ?off..<addr + sz} h2" by blast
  have "\<exists>h3. (if ?off \<noteq> leftover then Free (addr + ?off + needed) ((leftover - ?off) div PageSize) h2 else Some h2) = Some h3 \<and>
    taken h {addr + ?off..<addr + ?off + needed} h3"
  proof (cases "?off = leftover")
    case True
    with h2(2) assms(7) show ?thesis by (simp add: ac_simps)
  next
    case False
    have e: "addr + ?off + needed + (leftover - ?off) = addr + sz" using off(1) assms(7) by simp
    have "{addr + ?off..<addr + sz} - {addr + ?off + needed..<addr + sz} = {addr + ?off..<addr + ?off + needed}"
      using off(1) assms(7) by auto
    with give_back [OF assms(1) h2(2), of "addr + ?off + needed" "leftover - ?off"] False off lo assms(3,4)
    show ?thesis unfolding e by (auto simp: dvd_diff_nat)
  qed
  then obtain h3 where h3: "(if ?off \<noteq> leftover then Free (addr + ?off + needed) ((leftover - ?off) div PageSize) h2 else Some h2) = Some h3"
    "taken h {addr + ?off..<addr + ?off + needed} h3" by blast
  have "keep_part addr needed leftover a h1 = Some (addr + ?off, h3)"
    unfolding keep_part_def Let_def using g(1) h2(1) h3(1) by simp
  then show ?thesis using h3(2) by blast
qed

lemma AllocateByRandom_allocates:
  assumes "heap_ok h" "index < m_num_blocks h" "0 < num_pages" "num_pages * PageSize \<le> 2 ^ m_block_shift (m_blocks h ! index)"
    and "0 < align_pages" "align_pages * PageSize \<le> 2 ^ m_block_shift (m_blocks h ! index)"
  shows "allocates h index (num_pages * PageSize) (2 ^ countr_zero (of_nat (align_pages * PageSize)))
    (AllocateByRandom index num_pages align_pages h)"
proof -
  let ?needed = "num_pages * PageSize" and ?a = "countr_zero (of_nat (align_pages * PageSize))"
  have s30: "m_block_shift (m_blocks h ! j) \<le> 30" if "j < m_num_blocks h" for j using block_ok_in [OF assms(1) that] by (simp add: block_ok_def)
  have "align_pages * PageSize \<le> 2 ^ 30"
    using assms(6) power_increasing [OF s30 [OF assms(2)], of "2::nat"] by simp
  then have al: "0 < align_pages * PageSize" "align_pages * PageSize < 2 ^ 64" using assms(5) by (simp_all add: PageSize_def)
  note cz = countr_zero_dvd [OF al]
  have a12: "12 \<le> ?a" by (rule cz(2)) (simp add: PageSize_def)
  have as: "?a \<le> m_block_shift (m_blocks h ! index)"
    using dvd_imp_le [OF cz(1) al(1)] assms(6) by (meson order_trans one_less_numeral_iff power_le_imp_le_exp semiring_norm(76))
  have nd: "PageSize \<le> ?needed" "PageSize dvd ?needed" using assms(3) by (simp_all add: PageSize_def)
  obtain i g where i: "select_index index ?needed ?a h = Some (i, h\<lparr>heap_rng := g\<rparr>)" "index \<le> i" "i < m_num_blocks h"
    "has_block h index \<longleftrightarrow> bits (m_bitmap (m_blocks h ! i)) \<noteq> {}"
    using select_index_selects [OF assms(1,2) nd(1) assms(4) a12] by blast
  let ?h = "h\<lparr>heap_rng := g\<rparr>" and ?blk = "m_blocks h ! i" and ?p = "2 ^ m_block_shift (m_blocks h ! i) :: nat"
  have ok: "heap_ok ?h" "i < m_num_blocks ?h" using assms(1) i(3) by simp_all
  have len: "i < length (m_blocks h)" using assms(1) i(3) by (simp add: heap_ok_def)
  note pop = PopBlock_takes [OF ok(1,2), of True, simplified]
  show ?thesis
  proof (cases "bits (m_bitmap ?blk) = {}")
    case True
    then have "PopBlock True ?blk = Some (0, ?blk)" using pop by simp
    moreover have "set_block i ?blk ?h = ?h" using set_block_same [of i ?h] by simp
    ultimately show ?thesis using True i taken_none [OF assms(1)] len
      by (auto simp: allocates_def AllocateByRandom_def Let_def)
  next
    case False
    then obtain addr blk where p: "PopBlock True ?blk = Some (addr, blk)" "addr \<noteq> 0" "?p dvd addr"
      "taken h {addr..<addr + ?p} (set_block i blk ?h)" using pop by auto
    have si: "m_block_shift (m_blocks h ! index) \<le> m_block_shift ?blk" using shift_mono [OF assms(1) i(3,2)] .
    then have fit: "?needed \<le> ?p" using assms(4) by (auto intro: order_trans power_increasing)
    have sb: "sub64 ?p ?needed = ?p - ?needed"
      using fit power_increasing [OF s30 [OF i(3)], of "2::nat"] by (intro sub64_exact) simp_all
    have ad: "2 ^ ?a dvd addr" using p(3) as si by (meson dvd_trans le_imp_power_dvd order_trans)
    have pp: "PageSize dvd ?p" "PageSize dvd addr"
      using pages_dvd [of "m_block_shift ?blk"] p(3) a12 as si by (auto intro: dvd_trans)
    have "\<exists>addr' h'. (if ?p - ?needed > 0 then keep_part addr ?needed (?p - ?needed) ?a (set_block i blk ?h) else Some (addr, set_block i blk ?h)) =
      Some (addr', h') \<and> 2 ^ ?a dvd addr' \<and> addr \<le> addr' \<and> taken h {addr'..<addr' + ?needed} h'"
    proof (cases "?p - ?needed > 0")
      case True
      have lo: "?needed + (?p - ?needed) = ?p" "?p \<le> 2 ^ 30" using fit power_increasing [OF s30 [OF i(3)], of "2::nat"] by simp_all
      obtain k h' where "keep_part addr ?needed (?p - ?needed) ?a (set_block i blk ?h) = Some (addr + k * 2 ^ ?a, h')"
        "taken h {addr + k * 2 ^ ?a..<addr + k * 2 ^ ?a + ?needed} h'"
        using keep_part_keeps [OF assms(1) p(4) pp(2) nd(2) pp(1) a12 lo] by blast
      then show ?thesis using True ad by auto
    next
      case False
      then show ?thesis using fit p(4) ad by auto
    qed
    then obtain addr' h' where r: "(if ?p - ?needed > 0 then keep_part addr ?needed (?p - ?needed) ?a (set_block i blk ?h) else Some (addr, set_block i blk ?h)) =
      Some (addr', h')" "2 ^ ?a dvd addr'" "addr \<le> addr'" "taken h {addr'..<addr' + ?needed} h'" by blast
    have "AllocateByRandom index num_pages align_pages h = Some (addr', h')"
      unfolding AllocateByRandom_def Let_def using i(1) len p(1,2) r(1)
      by (simp add: Block_GetSize_def sb del: of_nat_mult cong: if_cong)
    then show ?thesis using False i(4) r p(2) by (auto simp: allocates_def)
  qed
qed

subsection \<open>Initialisation\<close>

lemma words_for_mono: "n \<le> m \<Longrightarrow> m + 64 < 2 ^ 64 \<Longrightarrow> words_for n \<le> words_for m"
  by (simp add: words_for_exact div_le_mono)

lemma words_for_small: "m + 64 < 2 ^ 64 \<Longrightarrow> words_for m + 64 < 2 ^ 64"
  using words_for_covers [of m] by linarith

lemma GetRequiredDepth_mono: "n \<le> m \<Longrightarrow> GetRequiredDepth n \<le> GetRequiredDepth m"
proof -
  assume "n \<le> m"
  obtain d where d: "GetRequiredDepth m = Suc d" using GetRequiredDepth_bound(3) [of m] by (cases "GetRequiredDepth m") auto
  then have "n < 64 ^ Suc d" using GetRequiredDepth_bound(1) [of m] \<open>n \<le> m\<close> by simp
  then show ?thesis using GetRequiredDepth_bound(2) d by simp
qed

lemma overhead_words_mono: "d \<le> d' \<Longrightarrow> n \<le> m \<Longrightarrow> m + 64 < 2 ^ 64 \<Longrightarrow> overhead_words d n \<le> overhead_words d' m"
proof (induction d arbitrary: d' n m)
  case (Suc d)
  then obtain d1 where d1: "d' = Suc d1" "d \<le> d1" by (cases d') auto
  have "words_for n \<le> words_for m" "words_for m + 64 < 2 ^ 64" using Suc.prems words_for_mono words_for_small by blast+
  then have "overhead_words d (words_for n) \<le> overhead_words d1 (words_for m)" using Suc.IH d1(2) by blast
  then show ?case using \<open>words_for n \<le> words_for m\<close> by (simp add: d1(1))
qed simp

lemma CalculateManagementOverheadSize_mono:
  "n \<le> m \<Longrightarrow> m + 64 < 2 ^ 64 \<Longrightarrow> CalculateManagementOverheadSize n \<le> CalculateManagementOverheadSize m"
  unfolding CalculateManagementOverheadSize_def using overhead_words_mono [OF GetRequiredDepth_mono] by simp

lemma AlignDown_gt: "0 < n \<Longrightarrow> v < AlignDown v n + n"
proof -
  assume "0 < n"
  have "v mod n < n" "v mod n \<le> v" using \<open>0 < n\<close> by simp_all
  then show ?thesis unfolding AlignDown_def by linarith
qed

definition fresh_block :: "k_page_heap \<Rightarrow> nat \<Rightarrow> nat \<Rightarrow> heap_block \<Rightarrow> bool" where
  "fresh_block h bs nbs blk \<longleftrightarrow> block_ok h blk \<and> bits (m_bitmap blk) = {} \<and> m_block_shift blk = bs \<and> m_next_block_shift blk = nbs"

text \<open>The storage set aside for one size is enough for its bitmap.\<close>

lemma Block_Initialize_fresh:
  assumes "0 < m_heap_size h" "heap_end h \<le> 2 ^ 35" "12 \<le> bs" "bs \<le> 30" "nbs = 0 \<or> bs < nbs \<and> nbs \<le> 30"
    and "Block_CalculateManagementOverheadSize (m_heap_size h) bs nbs \<le> 8 * length storage" "set storage \<subseteq> {0}"
  shows "\<exists>k blk'. Block_Initialize (m_heap_address h) (m_heap_size h) bs nbs storage blk = Some (drop k storage, blk') \<and>
    8 * k \<le> Block_CalculateManagementOverheadSize (m_heap_size h) bs nbs \<and> fresh_block h bs nbs blk'"
proof -
  let ?al = "(if nbs \<noteq> 0 then 2 ^ nbs else 2 ^ bs) :: nat" and ?addr = "m_heap_address h" and ?sz = "m_heap_size h"
  let ?start = "AlignDown ?addr ?al" and ?stop = "AlignUp (?addr + ?sz) ?al" and ?p = "2 ^ bs :: nat"
  let ?off = "(?stop - ?start) div ?p"
  have pal: "?p dvd ?al" "0 < ?al" using assms(5) by (auto intro: le_imp_power_dvd)
  have al30: "?al \<le> 2 ^ 30"
    using assms(4,5) power_increasing [of nbs 30 "2::nat"] power_increasing [of bs 30 "2::nat"] by auto
  have b: "?addr + ?sz \<le> 2 ^ 35" using assms(2) by (simp add: heap_end_def)
  then have "?addr + ?sz + ?al < 2 ^ 64" using al30 by simp
  note up = AlignUp_aligned [OF this pal(2)]
  have down: "?start \<le> ?addr" "?al dvd ?start" "?addr < ?start + ?al"
    by (rule AlignDown_le, rule AlignDown_dvd, rule AlignDown_gt [OF pal(2)])
  have dv: "?al dvd ?stop - ?start" using up(3) down(2) by (rule dvd_diff_nat)
  then have off: "?off * ?p = ?stop - ?start" using pal(1) by (meson dvd_div_mult_self dvd_trans)
  have rng: "?stop - ?start < ?sz + 2 * ?al" "?sz \<le> ?stop - ?start" using up(1,2) down(1,3) by linarith+
  have "?off * ?p < 64 ^ 4 * ?p"
  proof -
    have "?off * ?p < 2 ^ 36" using off rng(1) b al30 by simp
    also have "\<dots> = 64 ^ 4 * 2 ^ 12" by simp
    also have "\<dots> \<le> 64 ^ 4 * ?p" by (intro mult_le_mono2 power_increasing) (use assms(3) in simp_all)
    finally show ?thesis .
  qed
  then have o1: "?off < 64 ^ 4" by simp
  have o0: "0 < ?off" using off rng(2) assms(1) by (cases "?off = 0") auto
  have su: "?sz + ?al < 2 ^ 64" using b al30 by simp
  note usz = AlignUp_aligned [OF su pal(2)]
  have ov: "CalculateManagementOverheadSize ?off \<le> Block_CalculateManagementOverheadSize ?sz bs nbs"
  proof -
    have "?off \<le> (?al * 2 + AlignUp ?sz ?al) div ?p" by (rule div_le_mono) (use rng(1) usz(1) in linarith)
    moreover have "(?al * 2 + AlignUp ?sz ?al) div ?p \<le> ?al * 2 + AlignUp ?sz ?al" by (rule div_le_dividend)
    moreover have "?al * 2 + AlignUp ?sz ?al + 64 < 2 ^ 64" using usz(2) b al30 by simp
    ultimately have "CalculateManagementOverheadSize ?off \<le> CalculateManagementOverheadSize ((?al * 2 + AlignUp ?sz ?al) div ?p)"
      by (intro CalculateManagementOverheadSize_mono) linarith+
    then show ?thesis unfolding Block_CalculateManagementOverheadSize_def Let_def .
  qed
  then obtain bm where bm: "Initialize_bitmap storage ?off (m_bitmap blk) = Some (drop (CalculateManagementOverheadSize ?off div 8) storage, bm)"
    "bitmap_ok bm" "bits bm = {}" "?off \<le> capacity bm"
    using Initialize_bitmap_empty [OF o0 o1 _ assms(7), of "m_bitmap blk"] assms(6) by auto
  let ?blk = "blk\<lparr>m_bitmap := bm, m_block_address := ?start, m_end_offset := ?off, m_block_shift := bs, m_next_block_shift := nbs\<rparr>"
  have "Block_Initialize ?addr ?sz bs nbs storage blk = Some (drop (CalculateManagementOverheadSize ?off div 8) storage, ?blk)"
    using bm(1) by (simp add: Block_Initialize_def Let_def)
  moreover have "8 * (CalculateManagementOverheadSize ?off div 8) \<le> Block_CalculateManagementOverheadSize ?sz bs nbs"
    using ov by (simp add: CalculateManagementOverheadSize_def)
  moreover have "2 ^ (nbs - bs) dvd ?off" if "nbs \<noteq> 0"
  proof -
    have "2 ^ (nbs - bs) * ?p = 2 ^ nbs" using assms(5) that by (simp flip: power_add)
    then have "2 ^ (nbs - bs) * ?p dvd ?off * ?p" using dv off that by simp
    then show ?thesis by simp
  qed
  moreover have "heap_end h \<le> ?start + ?off * ?p" using off up(1) down(1) by (simp add: heap_end_def)
  moreover have "?off * ?p \<le> ?sz + 2 ^ 32" using off rng(1) al30 by simp
  moreover have "?p dvd ?start" using pal(1) down(2) by (rule dvd_trans)
  moreover have "2 ^ nbs dvd ?start" if "nbs \<noteq> 0" using down(2) that by simp
  moreover have "bs < nbs" if "nbs \<noteq> 0" using assms(5) that by blast
  ultimately show ?thesis using bm(2-4) assms(3,4) down(1)
    by (intro exI [of _ "CalculateManagementOverheadSize ?off div 8"] exI [of _ ?blk] conjI)
      (simp_all add: fresh_block_def block_ok_def covers_def)
qed

lemma fresh_block_blocks [simp]: "fresh_block (h\<lparr>m_blocks := bs\<rparr>) s n blk \<longleftrightarrow> fresh_block h s n blk"
  by (simp add: fresh_block_def block_ok_def heap_end_def)

definition next_shift :: "nat list \<Rightarrow> nat \<Rightarrow> nat" where
  "next_shift ss i = (if Suc i < length ss then ss ! Suc i else 0)"

lemma heap_overhead_step:
  "k < length ss \<Longrightarrow> heap_overhead (drop k ss) sz =
     Block_CalculateManagementOverheadSize sz (ss ! k) (next_shift ss k) + heap_overhead (drop (Suc k) ss) sz"
  by (cases "Suc k < length ss") (auto simp: next_shift_def simp flip: Cons_nth_drop_Suc)

text \<open>The sizes from \<open>k\<close> on take their storage one after the other.\<close>

lemma Initialize_blocks_fresh:
  assumes "sorted_wrt (<) ss" "set ss \<subseteq> {12..30}" "k \<le> length ss"
    and "0 < m_heap_size h" "heap_end h \<le> 2 ^ 35" "length ss \<le> length (m_blocks h)"
    and "heap_overhead (drop k ss) (m_heap_size h) \<le> 8 * length storage" "set storage \<subseteq> {0}"
  shows "\<exists>rest bs. Initialize_blocks [k..<length ss] ss h storage = Some (rest, h\<lparr>m_blocks := bs\<rparr>) \<and>
    length bs = length (m_blocks h) \<and> (\<forall>i<k. bs ! i = m_blocks h ! i) \<and>
    (\<forall>i\<in>{k..<length ss}. fresh_block h (ss ! i) (next_shift ss i) (bs ! i))"
  using assms(3-)
proof (induction k arbitrary: h storage rule: inc_induct)
  case base
  show ?case by (intro exI [of _ storage] exI [of _ "m_blocks h"]) simp
next
  case (step k)
  let ?s = "ss ! k" and ?n = "next_shift ss k" and ?blk = "m_blocks h ! k" and ?sz = "m_heap_size h"
  have k: "k < length ss" "k < length (m_blocks h)" using step(2,6) by simp_all
  have s: "12 \<le> ?s" "?s \<le> 30" using assms(2) nth_mem [OF k(1)] by auto
  have n: "?n = 0 \<or> ?s < ?n \<and> ?n \<le> 30"
  proof (cases "Suc k < length ss")
    case True
    then have "?s < ss ! Suc k" using assms(1) by (simp add: sorted_wrt_iff_nth_less)
    moreover have "ss ! Suc k \<in> {12..30}" using assms(2) nth_mem [OF True] by (rule subsetD)
    ultimately show ?thesis by (simp add: next_shift_def)
  qed (simp add: next_shift_def)
  note ov = step(7) [unfolded heap_overhead_step [OF k(1)]]
  then have "Block_CalculateManagementOverheadSize ?sz ?s ?n \<le> 8 * length storage" by simp
  then obtain j blk where b: "Block_Initialize (m_heap_address h) ?sz ?s ?n storage ?blk = Some (drop j storage, blk)"
    "8 * j \<le> Block_CalculateManagementOverheadSize ?sz ?s ?n" "fresh_block h ?s ?n blk"
    using Block_Initialize_fresh [OF step(4,5) s n _ step(8), of ?blk] by blast
  let ?h = "set_block k blk h"
  have h: "m_heap_address ?h = m_heap_address h" "m_heap_size ?h = ?sz" "length (m_blocks ?h) = length (m_blocks h)"
    "heap_end ?h = heap_end h" by (simp_all add: set_block_def heap_end_def)
  have st: "heap_overhead (drop (Suc k) ss) ?sz \<le> 8 * length (drop j storage)" "set (drop j storage) \<subseteq> {0}"
    using ov b(2) step(8) by (auto dest: in_set_dropD)
  obtain rest bs where r: "Initialize_blocks [Suc k..<length ss] ss ?h (drop j storage) = Some (rest, ?h\<lparr>m_blocks := bs\<rparr>)"
    "length bs = length (m_blocks h)" "\<forall>i<Suc k. bs ! i = m_blocks ?h ! i"
    "\<forall>i\<in>{Suc k..<length ss}. fresh_block ?h (ss ! i) (next_shift ss i) (bs ! i)"
    using step(3) [of ?h "drop j storage"] step(4-6) st unfolding h by blast
  have "(if k \<noteq> length ss - 1 then arr_get ss (k + 1) else Some 0) = Some ?n"
    using k(1) by (auto simp: next_shift_def)
  then have "Initialize_blocks [k..<length ss] ss h storage = Some (rest, h\<lparr>m_blocks := bs\<rparr>)"
    using r(1) b(1) k by (simp add: upt_conv_Cons set_block_def)
  moreover have "fresh_block h (ss ! i) (next_shift ss i) (bs ! i)" if "i \<in> {k..<length ss}" for i
    using that r(3,4) b(3) k(2) by (cases "i = k") (auto simp: set_block_def)
  moreover have "bs ! i = m_blocks h ! i" if "i < k" for i using r(3) that by (simp add: set_block_def)
  ultimately show ?case using r(2) by blast
qed

text \<open>A heap that starts with the overhead the code computes for it.\<close>

lemma Initialize_heap_fresh:
  assumes "sorted_wrt (<) ss" "set ss \<subseteq> {12..30}" "ss \<noteq> []" "ss ! 0 = 12" "length (m_blocks h0) = length ss" "length ss \<le> 7"
    and "0 < address" "PageSize dvd address" "0 < sz" "PageSize dvd sz" "address + sz \<le> 2 ^ 35"
    and "heap_overhead ss sz \<le> management_size" "8 dvd management_size"
  shows "\<exists>h. Initialize_heap address sz management_size ss h0 = Some h \<and> heap_ok h \<and> free_set h = {} \<and>
    m_heap_address h = address \<and> m_heap_size h = sz \<and> (\<forall>i<length ss. m_block_shift (m_blocks h ! i) = ss ! i) \<and>
    m_num_blocks h = length ss \<and> heap_asserted h = heap_asserted h0"
proof -
  let ?h = "h0\<lparr>heap_asserted := heap_asserted h0 \<and> address mod PageSize = 0 \<and> sz mod PageSize = 0 \<and>
      0 < length ss \<and> length ss \<le> NumMemoryBlockPageShifts,
    m_heap_address := address, m_heap_size := sz, m_num_blocks := length ss\<rparr>"
  let ?storage = "replicate (management_size div 8) (0 :: u64)"
  have h: "0 < m_heap_size ?h" "heap_end ?h \<le> 2 ^ 35" "length ss \<le> length (m_blocks ?h)"
    using assms(5,9,11) by (simp_all add: heap_end_def)
  have st: "heap_overhead (drop 0 ss) (m_heap_size ?h) \<le> 8 * length ?storage" "set ?storage \<subseteq> {0}"
    using assms(12,13) by auto
  obtain rest bs where r: "Initialize_blocks [0..<length ss] ss ?h ?storage = Some (rest, ?h\<lparr>m_blocks := bs\<rparr>)"
    "length bs = length ss" "\<forall>i\<in>{0..<length ss}. fresh_block ?h (ss ! i) (next_shift ss i) (bs ! i)"
    using Initialize_blocks_fresh [OF assms(1,2) _ h st] assms(5) by auto
  let ?h' = "?h\<lparr>m_blocks := bs\<rparr>"
  have fr: "fresh_block ?h' (ss ! i) (next_shift ss i) (bs ! i)" if "i < length ss" for i
    using r(3) that by simp
  have fb: "block_ok ?h' (bs ! i)" "bits (m_bitmap (bs ! i)) = {}" "m_block_shift (bs ! i) = ss ! i"
    "m_next_block_shift (bs ! i) = next_shift ss i" if "i < length ss" for i
    using fr [OF that] by (simp_all only: fresh_block_def)
  have cv: "\<not> covers (bs ! i) a" if "i < length ss" for i a using fb(2) [OF that] by (simp add: covers_def)
  have "heap_ok ?h'"
    unfolding heap_ok_def
  proof (intro conjI)
    show "\<forall>blk\<in>set (m_blocks ?h'). block_ok ?h' blk" using fb(1) r(2) by (auto simp: in_set_conv_nth)
    show "\<forall>i<m_num_blocks ?h'. m_next_block_shift (m_blocks ?h' ! i) =
      (if Suc i < m_num_blocks ?h' then m_block_shift (m_blocks ?h' ! Suc i) else 0)" using fb(3,4) by (simp add: next_shift_def)
    show "heap_end ?h' \<le> 2 ^ 40" using assms(11) by (simp add: heap_end_def)
    show "m_block_shift (m_blocks ?h' ! 0) = 12" using fb(3) assms(3,4) by simp
  qed (use assms(3,7) r(2) cv in simp_all)
  moreover have "free_set ?h' = {}" using cv r(2) by (auto simp: free_set_def)
  moreover have "Initialize_heap address sz management_size ss h0 = Some ?h'" using r(1) by (simp add: Initialize_heap_def)
  ultimately show ?thesis using assms(3,6,8,10) fb(3)
    by (intro exI [of _ ?h'] conjI) (simp_all add: NumMemoryBlockPageShifts_def dvd_eq_mod_eq_0)
qed

section \<open>What the heap promises\<close>

lemma card_covered:
  assumes "2 ^ m_block_shift blk = p"
  shows "card {a. covers blk a} = card (bits (m_bitmap blk)) * p" "finite {a. covers blk a}"
proof -
  let ?blk = "\<lambda>k. {m_block_address blk + k * p..<m_block_address blk + k * p + p}"
  have p: "0 < p" using assms by auto
  have eq: "{a. covers blk a} = (\<Union>k\<in>bits (m_bitmap blk). ?blk k)"
  proof (intro set_eqI iffI)
    fix a assume "a \<in> {a. covers blk a}"
    then have c: "m_block_address blk \<le> a" "(a - m_block_address blk) div p \<in> bits (m_bitmap blk)" using assms by (auto simp: covers_def)
    moreover have "a \<in> ?blk ((a - m_block_address blk) div p)"
      using div_in_range [OF p c(1), of "(a - m_block_address blk) div p" 1] by (simp add: add_mult_distrib)
    ultimately show "a \<in> (\<Union>k\<in>bits (m_bitmap blk). ?blk k)" by blast
  next
    fix a assume "a \<in> (\<Union>k\<in>bits (m_bitmap blk). ?blk k)"
    then obtain k where k: "k \<in> bits (m_bitmap blk)" "a \<in> ?blk k" by blast
    then have "m_block_address blk \<le> a" by (simp add: trans_le_add1 le_trans [OF le_add1])
    then show "a \<in> {a. covers blk a}" using k div_in_range [OF p, of "m_block_address blk" a k 1] assms
      by (auto simp: covers_def add_mult_distrib)
  qed
  have dis: "?blk k \<inter> ?blk k' = {}" if "k < k'" for k k'
  proof -
    have "k * p + p \<le> k' * p" using mult_le_mono1 [of "Suc k" k' p] that by simp
    then show ?thesis by auto
  qed
  then have "pairwise (\<lambda>k k'. ?blk k \<inter> ?blk k' = {}) (bits (m_bitmap blk))"
    by (intro pairwiseI) (metis Int_commute linorder_neqE_nat)
  then show "card {a. covers blk a} = card (bits (m_bitmap blk)) * p"
    unfolding eq by (subst card_UN_disjoint) (auto simp: pairwise_def)
  show "finite {a. covers blk a}" unfolding eq by simp
qed

text \<open>The free pages that the heap counts are those of the free addresses.\<close>

lemma GetNumFreePages_counts:
  assumes "heap_ok h"
  shows "\<exists>n. GetNumFreePages h = Some n \<and> n * PageSize = card (free_set h)"
proof -
  let ?C = "\<lambda>i. {a. covers (m_blocks h ! i) a}"
  have n: "length (m_blocks h) = m_num_blocks h" using assms by (simp add: heap_ok_def)
  have fs: "free_set h = (\<Union>i<m_num_blocks h. ?C i)" using n by (auto simp: free_set_def)
  have dis: "?C i \<inter> ?C j = {}" if "i < m_num_blocks h" "j < m_num_blocks h" "i \<noteq> j" for i j
    using that covered_once [OF assms that(1,2)] by auto
  have pg: "Block_GetNumFreePages (m_blocks h ! i) * PageSize = card (?C i)" if "i < m_num_blocks h" for i
  proof -
    have ok: "block_ok h (m_blocks h ! i)" using block_ok_in [OF assms that] .
    then have "PageSize dvd 2 ^ m_block_shift (m_blocks h ! i)" by (intro pages_dvd) (simp add: block_ok_def)
    then show ?thesis using ok card_covered(1) [OF refl, of "m_blocks h ! i"]
      by (simp add: Block_GetNumFreePages_def Block_GetNumFreeBlocks_def Block_GetNumPages_def Block_GetSize_def block_ok_def bitmap_ok_def mult.assoc)
  qed
  have "sum_list (map Block_GetNumFreePages (m_blocks h)) = (\<Sum>i<m_num_blocks h. Block_GetNumFreePages (m_blocks h ! i))"
    using n by (simp add: sum_list_sum_nth atLeast0LessThan)
  then have "sum_list (map Block_GetNumFreePages (m_blocks h)) * PageSize = (\<Sum>i<m_num_blocks h. card (?C i))"
    using pg by (simp add: sum_distrib_right)
  also have "\<dots> = card (free_set h)" unfolding fs
    by (rule card_UN_disjoint [symmetric]) (use dis card_covered(2) [OF refl] in auto)
  finally show ?thesis using n by (simp add: GetNumFreePages_def)
qed

lemma countr_zero_pow2:
  assumes "s < 64"
  shows "2 ^ countr_zero (of_nat (2 ^ s)) = (2 ^ s :: nat)"
proof -
  have "0 < (2 ^ s :: nat)" "(2 ^ s :: nat) < 2 ^ 64" using assms by (simp, intro power_strict_increasing) simp_all
  note c = countr_zero_dvd [OF this]
  show ?thesis by (rule dvd_antisym [OF c(1) le_imp_power_dvd [OF c(2)]]) simp
qed

lemma AllocateBlock_allocates:
  assumes "heap_ok h" "index < m_num_blocks h"
  shows "allocates h index (2 ^ m_block_shift (m_blocks h ! index)) (2 ^ m_block_shift (m_blocks h ! index)) (AllocateBlock index random h)"
proof (cases random)
  case False
  then show ?thesis using AllocateByLinearSearch_allocates [OF assms] by (simp add: AllocateBlock_def)
next
  case True
  let ?s = "m_block_shift (m_blocks h ! index)" and ?n = "Block_GetNumPages (m_blocks h ! index)"
  have s: "12 \<le> ?s" "?s \<le> 30" "index < length (m_blocks h)"
    using block_ok_in [OF assms] assms by (simp_all add: block_ok_def heap_ok_def)
  have n: "?n * PageSize = 2 ^ ?s" using pages_dvd [OF s(1)] by (simp add: Block_GetNumPages_def Block_GetSize_def)
  then have "0 < ?n" by (cases ?n) auto
  with AllocateByRandom_allocates [OF assms this, of ?n] show ?thesis
    unfolding n using True s countr_zero_pow2 [of ?s] by (simp add: AllocateBlock_def del: of_nat_power)
qed

text \<open>A heap of the standard sizes, which the memory manager uses.\<close>

definition standard_heap :: "k_page_heap \<Rightarrow> bool" where
  "standard_heap h \<longleftrightarrow> heap_ok h \<and> m_num_blocks h = NumMemoryBlockPageShifts \<and>
     (\<forall>i<NumMemoryBlockPageShifts. m_block_shift (m_blocks h ! i) = MemoryBlockPageShifts ! i)"

lemma heap_overhead_standard: "heap_overhead ss sz \<le> Heap_CalculateManagementOverheadSize sz ss \<and>
    8 dvd Heap_CalculateManagementOverheadSize sz ss" if "heap_overhead ss sz + PageSize < 2 ^ 64"
proof -
  have "0 < PageSize" by (simp add: PageSize_def)
  note a = AlignUp_aligned [OF that this]
  have "8 dvd PageSize" by (simp add: PageSize_def)
  then show ?thesis using a unfolding Heap_CalculateManagementOverheadSize_def by (meson dvd_trans)
qed

lemma overhead_words_bound: "n + 64 < 2 ^ 64 \<Longrightarrow> overhead_words d n \<le> d * (n + 64)"
proof (induction d arbitrary: n)
  case (Suc d)
  have w: "words_for n \<le> n + 64" using words_for_covers [OF Suc.prems] by linarith
  have "words_for n \<le> n \<or> n = 0 \<or> words_for n = 1" using words_for_exact [OF Suc.prems] by linarith
  then have "words_for n \<le> n" using words_for_exact [OF Suc.prems] by (cases "n = 0") auto
  then have "overhead_words d (words_for n) \<le> d * (n + 64)"
    using Suc.IH [of "words_for n"] Suc.prems mult_le_mono2 [of "words_for n + 64" "n + 64" d] by linarith
  then show ?case using w by simp
qed simp

lemma CalculateManagementOverheadSize_bound:
  assumes "n < 2 ^ 40"
  shows "CalculateManagementOverheadSize n < 2 ^ 50"
proof -
  have "GetRequiredDepth n \<le> Suc 6" using assms by (intro GetRequiredDepth_bound(2)) simp
  then have "overhead_words (GetRequiredDepth n) n \<le> 7 * (n + 64)"
    using overhead_words_bound [of n "GetRequiredDepth n"] assms mult_le_mono1 [of "GetRequiredDepth n" 7 "n + 64"] by simp
  then show ?thesis using assms by (simp add: CalculateManagementOverheadSize_def)
qed

lemma Block_overhead_bound:
  assumes "sz \<le> 2 ^ 35" "s \<le> 30" "n \<le> 30"
  shows "Block_CalculateManagementOverheadSize sz s n < 2 ^ 50"
proof -
  let ?al = "(if n \<noteq> 0 then 2 ^ n else 2 ^ s) :: nat"
  have al: "?al \<le> 2 ^ 30" "0 < ?al" using assms(2,3) power_increasing [of n 30 "2::nat"] power_increasing [of s 30 "2::nat"] by auto
  then have "AlignUp sz ?al < sz + ?al" using assms(1) by (intro AlignUp_aligned(2)) auto
  then have "?al * 2 + AlignUp sz ?al < 2 ^ 40" using al(1) assms(1) by simp
  then have "(?al * 2 + AlignUp sz ?al) div 2 ^ s < 2 ^ 40" by (rule le_less_trans [OF div_le_dividend])
  then show ?thesis unfolding Block_CalculateManagementOverheadSize_def Let_def by (rule CalculateManagementOverheadSize_bound)
qed

lemma heap_overhead_bound:
  "sz \<le> 2 ^ 35 \<Longrightarrow> set ss \<subseteq> {12..30} \<Longrightarrow> heap_overhead ss sz \<le> length ss * 2 ^ 50"
proof (induction ss)
  case (Cons s ss)
  have "Block_CalculateManagementOverheadSize sz s (case ss of [] \<Rightarrow> 0 | n # _ \<Rightarrow> n) < 2 ^ 50"
    using Cons.prems by (intro Block_overhead_bound) (auto split: list.split)
  with Cons show ?case by simp
qed simp

text \<open>
  C23.  Allocation and freeing of pages.  A request for a block succeeds exactly when a block of its size
  or a larger one is free, and then takes exactly the bytes of one block, aligned to its size, out of the
  free memory: what was split off goes back.  A request for some pages with an alignment that fit into the
  block does so with exactly these pages.  Freeing a range of allocated pages adds exactly these pages,
  however they are merged, and freeing what was allocated restores the free memory.  The heap stays
  well-formed, no access is undefined and no assertion fails.
\<close>

theorem page_heap_allocates_and_frees:
  assumes "heap_ok h" "index < m_num_blocks h" "Block_GetSize (m_blocks h ! index) = block_size"
  shows "allocates h index block_size block_size (AllocateBlock index random h) \<and>
    (0 < num_pages \<and> num_pages * PageSize \<le> block_size \<and> 0 < align_pages \<and> align_pages * PageSize \<le> block_size \<longrightarrow>
       allocates h index (num_pages * PageSize) (2 ^ countr_zero (of_nat (align_pages * PageSize)))
         (AllocateAligned index num_pages align_pages h)) \<and>
    (PageSize dvd addr \<and> freeable h {addr..<addr + n * PageSize} \<longrightarrow>
       (\<exists>h'. Free addr n h = Some h' \<and> freed h {addr..<addr + n * PageSize} h')) \<and>
    (AllocateBlock index random h = Some (block, h1) \<and> block \<noteq> 0 \<longrightarrow>
       (\<exists>h2. Free block (block_size div PageSize) h1 = Some h2 \<and> heap_ok h2 \<and> free_set h2 = free_set h))"
proof (intro conjI impI)
  have sz: "block_size = 2 ^ m_block_shift (m_blocks h ! index)" using assms(3) by (simp add: Block_GetSize_def)
  show alloc: "allocates h index block_size block_size (AllocateBlock index random h)"
    using AllocateBlock_allocates [OF assms(1,2)] sz by simp
  show "allocates h index (num_pages * PageSize) (2 ^ countr_zero (of_nat (align_pages * PageSize)))
      (AllocateAligned index num_pages align_pages h)"
    if "0 < num_pages \<and> num_pages * PageSize \<le> block_size \<and> 0 < align_pages \<and> align_pages * PageSize \<le> block_size"
    using AllocateByRandom_allocates [OF assms(1,2), of num_pages align_pages] that sz by (simp add: AllocateAligned_def)
  show "\<exists>h'. Free addr n h = Some h' \<and> freed h {addr..<addr + n * PageSize} h'"
    if "PageSize dvd addr \<and> freeable h {addr..<addr + n * PageSize}" using Free_frees that by blast
  assume a: "AllocateBlock index random h = Some (block, h1) \<and> block \<noteq> 0"
  then have t: "block_size dvd block" "taken h {block..<block + block_size} h1"
    using alloc by (auto simp: allocates_def split: if_splits)
  have "PageSize dvd block_size" unfolding sz by (rule pages_dvd) (use block_ok_in [OF assms(1,2)] in \<open>simp add: block_ok_def\<close>)
  then obtain h2 where "Free block (block_size div PageSize) h1 = Some h2" "taken h {} h2"
    using give_back [OF assms(1) t(2), of block block_size] t(1) by (auto intro: dvd_trans)
  then show "\<exists>h2. Free block (block_size div PageSize) h1 = Some h2 \<and> heap_ok h2 \<and> free_set h2 = free_set h"
    by (auto simp: taken_def)
qed

lemma standard_shifts: "sorted_wrt (<) MemoryBlockPageShifts" "set MemoryBlockPageShifts \<subseteq> {12..30}"
  "MemoryBlockPageShifts \<noteq> []" "MemoryBlockPageShifts ! 0 = 12" "length MemoryBlockPageShifts = NumMemoryBlockPageShifts"
  "length MemoryBlockPageShifts \<le> 7"
  by (simp_all add: MemoryBlockPageShifts_def NumMemoryBlockPageShifts_def)

lemma Initialize_heap_standard:
  assumes "length (m_blocks h0) = NumMemoryBlockPageShifts" "0 < address" "PageSize dvd address" "0 < sz" "PageSize dvd sz"
    and "address + sz \<le> 2 ^ 35"
  shows "\<exists>h. Initialize_heap address sz (Heap_CalculateManagementOverheadSize sz MemoryBlockPageShifts) MemoryBlockPageShifts h0 = Some h \<and>
    standard_heap h \<and> free_set h = {} \<and> m_heap_address h = address \<and> m_heap_size h = sz \<and> heap_asserted h = heap_asserted h0"
proof -
  have "heap_overhead MemoryBlockPageShifts sz \<le> length MemoryBlockPageShifts * 2 ^ 50"
    using assms(6) by (intro heap_overhead_bound standard_shifts) simp
  then have "heap_overhead MemoryBlockPageShifts sz + PageSize < 2 ^ 64" using standard_shifts(6) by (simp add: PageSize_def)
  note ov = heap_overhead_standard [OF this]
  show ?thesis
    using Initialize_heap_fresh [OF standard_shifts(1-4) _ standard_shifts(6) assms(2-6) ov [THEN conjunct1] ov [THEN conjunct2], of h0]
      assms(1) standard_shifts(5) by (auto simp: standard_heap_def)
qed

text \<open>
  C24.  The management data that \<open>CalculateManagementOverheadSize\<close> reserves is enough: a heap that is
  initialised with it over any page-aligned region below 32 GiB carves every level of the seven bitmaps
  out of it without leaving it, and is well-formed and empty.  Freeing the region to it makes all of the
  region free and nothing else, which is what the heap then counts.
\<close>

theorem page_heap_initialises_within_overhead:
  assumes "length (m_blocks h0) = NumMemoryBlockPageShifts" "0 < address" "PageSize dvd address" "0 < sz" "PageSize dvd sz"
    and "address + sz \<le> 2 ^ 35"
  shows "\<exists>h h'. Initialize_heap address sz (Heap_CalculateManagementOverheadSize sz MemoryBlockPageShifts) MemoryBlockPageShifts h0 = Some h \<and>
    heap_ok h \<and> free_set h = {} \<and> GetNumFreePages h = Some 0 \<and> heap_asserted h = heap_asserted h0 \<and>
    Free address (sz div PageSize) h = Some h' \<and> heap_ok h' \<and> free_set h' = {address..<address + sz} \<and>
    GetNumFreePages h' = Some (sz div PageSize)"
proof -
  obtain h where h: "Initialize_heap address sz (Heap_CalculateManagementOverheadSize sz MemoryBlockPageShifts) MemoryBlockPageShifts h0 = Some h"
    "standard_heap h" "free_set h = {}" "m_heap_address h = address" "m_heap_size h = sz" "heap_asserted h = heap_asserted h0"
    using Initialize_heap_standard [OF assms] by blast
  then have ok: "heap_ok h" by (simp add: standard_heap_def)
  have n: "sz div PageSize * PageSize = sz" using assms(5) by simp
  have "freeable h {address..<address + sz div PageSize * PageSize}"
    unfolding n using ok h(3-5) by (simp add: freeable_def in_heap_def heap_end_def)
  then obtain h' where h': "Free address (sz div PageSize) h = Some h'" "heap_ok h'" "free_set h' = {address..<address + sz}"
    using Free_frees [OF _ assms(3), of h "sz div PageSize"] unfolding n freed_def h(3) by auto
  have p: "0 < PageSize" by (simp add: PageSize_def)
  obtain k where "GetNumFreePages h = Some k" "k * PageSize = 0" using GetNumFreePages_counts [OF ok] h(3) by auto
  moreover obtain k' where "GetNumFreePages h' = Some k'" "k' * PageSize = sz" using GetNumFreePages_counts [OF h'(2)] h'(3) by auto
  ultimately have "GetNumFreePages h = Some 0" "GetNumFreePages h' = Some (sz div PageSize)" using p by auto
  then show ?thesis using h(1,3,6) ok h' by blast
qed

definition empty_heap :: k_page_heap where
  "empty_heap = \<lparr>m_heap_address = 0, m_heap_size = 0, m_initial_used_size = 0, m_num_blocks = 0,
     m_blocks = replicate NumMemoryBlockPageShifts
       \<lparr>m_bitmap = k_page_bitmap_default (RandomBitGenerator 7), m_block_address = 0, m_end_offset = 0, m_block_shift = 0, m_next_block_shift = 0\<rparr>,
     heap_rng = RandomBitGenerator 7, heap_asserted = True\<rparr>"

definition example_heap :: "k_page_heap" where
  "example_heap = the (Initialize_heap 0x80000000 0x10000 (Heap_CalculateManagementOverheadSize 0x10000 MemoryBlockPageShifts) MemoryBlockPageShifts empty_heap)"

lemma example_heap_ok: "standard_heap example_heap" "free_set example_heap = {}" "m_heap_address example_heap = 0x80000000"
    "m_heap_size example_heap = 0x10000"
  using Initialize_heap_standard [of empty_heap "0x80000000" "0x10000"]
  by (auto simp: example_heap_def empty_heap_def PageSize_def)

theorem page_heap_initialises_within_overhead_witness:
  "\<exists>h'. Free 0x80000000 16 example_heap = Some h' \<and> free_set h' = {0x80000000..<0x80010000} \<and> GetNumFreePages h' = Some 16"
proof -
  have "length (m_blocks empty_heap) = NumMemoryBlockPageShifts" by (simp add: empty_heap_def)
  from page_heap_initialises_within_overhead [OF this, of "0x80000000" "0x10000"]
  show ?thesis by (auto simp: example_heap_def PageSize_def)
qed

theorem page_heap_allocates_and_frees_witness:
  "\<exists>h'. Free 0x80001000 3 example_heap = Some h' \<and> free_set h' = {0x80001000..<0x80004000}"
proof -
  have ok: "heap_ok example_heap" "0 < m_num_blocks example_heap"
    using example_heap_ok(1) by (simp_all add: standard_heap_def NumMemoryBlockPageShifts_def)
  moreover have "freeable example_heap {0x80001000..<0x80001000 + 3 * PageSize}"
    using ok example_heap_ok by (auto simp: freeable_def in_heap_def heap_end_def PageSize_def)
  ultimately show ?thesis using page_heap_allocates_and_frees [OF ok refl, of False 1 1 "0x80001000" 3,
      THEN conjunct2, THEN conjunct2, THEN conjunct1] example_heap_ok(2)
    by (auto simp: freed_def PageSize_def)
qed

end
