(* ===== verification/KPriorityQueue.thy ===== *)
theory KPriorityQueue
  imports Prelude
begin

text \<open>
  \<^verbatim>\<open>src/core/hle/kernel/k_priority_queue.h\<close>: the run queues of the scheduler, as instantiated in
  \<^verbatim>\<open>global_scheduler_context.h\<close> with four cores and the priorities 0 to 63, and
  \<^verbatim>\<open>k_affinity_mask.h\<close>.

  The queues are doubly linked through entries within the threads, one entry per core and thread, so that
  a thread can be on at most one queue of each core.  Threads are numbers, a null pointer is \<open>None\<close>.
  \<open>entries\<close> holds the entries of all threads, \<open>roots\<close> the roots of the queues and \<open>available\<close> the bit
  sets of the priorities that are in use, of each of the two \<open>KPriorityQueueImpl\<close>.  An access to a core or
  a priority that the arrays do not have is undefined.
\<close>

section \<open>Threads, as far as the queue sees them\<close>

definition NumCores :: nat where "NumCores = 4"

definition LowestPriority :: int where "LowestPriority = 63"

definition HighestPriority :: int where "HighestPriority = 0"

definition NumPriority :: nat where "NumPriority = nat (LowestPriority - HighestPriority + 1)"

definition IsValidCore :: "int \<Rightarrow> bool" where
  "IsValidCore core \<longleftrightarrow> 0 \<le> core \<and> core < int NumCores"

definition IsValidPriority :: "int \<Rightarrow> bool" where
  "IsValidPriority priority \<longleftrightarrow> HighestPriority \<le> priority \<and> priority \<le> LowestPriority + 1"

record kthread =
  m_priority :: int
  m_core_id :: int
  m_affinity_mask :: u64
  is_dummy :: bool

definition GetAffinity :: "u64 \<Rightarrow> nat \<Rightarrow> bool" where
  "GetAffinity affinity core \<longleftrightarrow> affinity AND push_bit core 1 \<noteq> 0"

section \<open>Entries\<close>

record queue_entry =
  m_prev :: "nat option"
  m_next :: "nat option"

text \<open>The two queues that the class has.\<close>

datatype queue_kind = Scheduled | Suggested

record k_priority_queue =
  entries :: "nat \<Rightarrow> nat \<Rightarrow> queue_entry"
  roots :: "queue_kind \<Rightarrow> nat \<Rightarrow> nat \<Rightarrow> queue_entry"
  available :: "queue_kind \<Rightarrow> nat \<Rightarrow> u64"
  pq_asserted :: bool

definition empty_queue :: k_priority_queue where
  "empty_queue = \<lparr>entries = (\<lambda>_ _. \<lparr>m_prev = None, m_next = None\<rparr>), roots = (\<lambda>_ _ _. \<lparr>m_prev = None, m_next = None\<rparr>),
     available = (\<lambda>_ _. 0), pq_asserted = True\<rparr>"

text \<open>The entry that a pointer stands for: the root, for the null pointer, or the entry of a thread.\<close>

fun entry_at :: "queue_kind \<Rightarrow> nat \<Rightarrow> nat \<Rightarrow> nat option \<Rightarrow> k_priority_queue \<Rightarrow> queue_entry" where
  "entry_at k priority core None q = roots q k priority core"
| "entry_at k priority core (Some t) q = entries q t core"

fun set_entry ::
  "queue_kind \<Rightarrow> nat \<Rightarrow> nat \<Rightarrow> nat option \<Rightarrow> (queue_entry \<Rightarrow> queue_entry) \<Rightarrow> k_priority_queue \<Rightarrow> k_priority_queue" where
  "set_entry k priority core None f q =
     q\<lparr>roots := (roots q)(k := (roots q k)(priority := (roots q k priority)(core := f (roots q k priority core))))\<rparr>"
| "set_entry k priority core (Some t) f q =
     q\<lparr>entries := (entries q)(t := (entries q t)(core := f (entries q t core)))\<rparr>"

section \<open>The queue of one priority and core\<close>

definition Core_PushBack :: "queue_kind \<Rightarrow> nat \<Rightarrow> nat \<Rightarrow> nat \<Rightarrow> k_priority_queue \<Rightarrow> bool \<times> k_priority_queue" where
  "Core_PushBack k priority core member q =
     (let tail = m_prev (entry_at k priority core None q);
          q1 = set_entry k priority core (Some member) (\<lambda>e. e\<lparr>m_prev := tail\<rparr>) q;
          q2 = set_entry k priority core (Some member) (\<lambda>e. e\<lparr>m_next := None\<rparr>) q1;
          q3 = set_entry k priority core tail (\<lambda>e. e\<lparr>m_next := Some member\<rparr>) q2;
          q4 = set_entry k priority core None (\<lambda>e. e\<lparr>m_prev := Some member\<rparr>) q3
      in (tail = None, q4))"

definition Core_PushFront :: "queue_kind \<Rightarrow> nat \<Rightarrow> nat \<Rightarrow> nat \<Rightarrow> k_priority_queue \<Rightarrow> bool \<times> k_priority_queue" where
  "Core_PushFront k priority core member q =
     (let head = m_next (entry_at k priority core None q);
          q1 = set_entry k priority core (Some member) (\<lambda>e. e\<lparr>m_prev := None\<rparr>) q;
          q2 = set_entry k priority core (Some member) (\<lambda>e. e\<lparr>m_next := head\<rparr>) q1;
          q3 = set_entry k priority core head (\<lambda>e. e\<lparr>m_prev := Some member\<rparr>) q2;
          q4 = set_entry k priority core None (\<lambda>e. e\<lparr>m_next := Some member\<rparr>) q3
      in (head = None, q4))"

definition Core_GetFront :: "queue_kind \<Rightarrow> nat \<Rightarrow> nat \<Rightarrow> k_priority_queue \<Rightarrow> nat option" where
  "Core_GetFront k priority core q = m_next (entry_at k priority core None q)"

definition Core_Remove :: "queue_kind \<Rightarrow> nat \<Rightarrow> nat \<Rightarrow> nat \<Rightarrow> k_priority_queue \<Rightarrow> bool \<times> k_priority_queue" where
  "Core_Remove k priority core member q =
     (let prev = m_prev (entry_at k priority core (Some member) q);
          next = m_next (entry_at k priority core (Some member) q);
          q1 = set_entry k priority core prev (\<lambda>e. e\<lparr>m_next := next\<rparr>) q;
          q2 = set_entry k priority core next (\<lambda>e. e\<lparr>m_prev := prev\<rparr>) q1
      in (Core_GetFront k priority core q2 = None, q2))"

section \<open>The queues of all priorities\<close>

definition check :: "bool \<Rightarrow> k_priority_queue \<Rightarrow> k_priority_queue" where
  "check a q = q\<lparr>pq_asserted := pq_asserted q \<and> a\<rparr>"

definition set_available :: "queue_kind \<Rightarrow> nat \<Rightarrow> u64 \<Rightarrow> k_priority_queue \<Rightarrow> k_priority_queue" where
  "set_available k core v q = q\<lparr>available := (available q)(k := (available q k)(core := v))\<rparr>"

text \<open>The assertions, the early return and the array accesses that the operations share.\<close>

definition on_queue ::
  "int \<Rightarrow> int \<Rightarrow> (nat \<Rightarrow> nat \<Rightarrow> k_priority_queue \<Rightarrow> k_priority_queue) \<Rightarrow> k_priority_queue \<Rightarrow> k_priority_queue option" where
  "on_queue priority core f q =
     (let q1 = check (IsValidCore core \<and> IsValidPriority priority) q
      in if priority > LowestPriority then Some q1
         else if \<not> IsValidCore core \<or> priority < 0 then None
         else Some (f (nat priority) (nat core) q1))"

definition Impl_PushBack :: "queue_kind \<Rightarrow> int \<Rightarrow> int \<Rightarrow> nat \<Rightarrow> k_priority_queue \<Rightarrow> k_priority_queue option" where
  "Impl_PushBack k priority core member = on_queue priority core (\<lambda>p c q.
     let (first, q') = Core_PushBack k p c member q
     in if first then set_available k c (available q' k c OR push_bit p 1) q' else q')"

definition Impl_PushFront :: "queue_kind \<Rightarrow> int \<Rightarrow> int \<Rightarrow> nat \<Rightarrow> k_priority_queue \<Rightarrow> k_priority_queue option" where
  "Impl_PushFront k priority core member = on_queue priority core (\<lambda>p c q.
     let (first, q') = Core_PushFront k p c member q
     in if first then set_available k c (available q' k c OR push_bit p 1) q' else q')"

definition Impl_Remove :: "queue_kind \<Rightarrow> int \<Rightarrow> int \<Rightarrow> nat \<Rightarrow> k_priority_queue \<Rightarrow> k_priority_queue option" where
  "Impl_Remove k priority core member = on_queue priority core (\<lambda>p c q.
     let (last, q') = Core_Remove k p c member q
     in if last then set_available k c (available q' k c AND NOT (push_bit p 1)) q' else q')"

text \<open>The first priority in use from \<open>n\<close> on, or 64; \<open>GetFront\<close> and \<open>GetNext\<close> look for it.\<close>

definition next_set :: "u64 \<Rightarrow> nat \<Rightarrow> nat" where
  "next_set v n = (case find (bit v) [n..<NumPriority] of None \<Rightarrow> NumPriority | Some i \<Rightarrow> i)"

definition Impl_GetFront :: "queue_kind \<Rightarrow> int \<Rightarrow> k_priority_queue \<Rightarrow> nat option option" where
  "Impl_GetFront k core q =
     (if \<not> IsValidCore core then None
      else let priority = next_set (available q k (nat core)) 0
           in Some (if int priority \<le> LowestPriority then Core_GetFront k priority (nat core) q else None))"

definition Impl_GetFront_at :: "queue_kind \<Rightarrow> int \<Rightarrow> int \<Rightarrow> k_priority_queue \<Rightarrow> nat option option" where
  "Impl_GetFront_at k priority core q =
     (if priority > LowestPriority then Some None
      else if \<not> IsValidCore core \<or> priority < 0 then None
      else Some (Core_GetFront k (nat priority) (nat core) q))"

definition Impl_GetNext :: "(nat \<Rightarrow> 'a kthread_scheme) \<Rightarrow> queue_kind \<Rightarrow> int \<Rightarrow> nat \<Rightarrow> k_priority_queue \<Rightarrow> nat option option" where
  "Impl_GetNext ts k core member q =
     (if \<not> IsValidCore core then None
      else case m_next (entries q member (nat core)) of
        Some next \<Rightarrow> Some (Some next)
      | None \<Rightarrow>
          (let start = m_priority (ts member) + 1;
               priority = (if start < 0 then NumPriority else next_set (available q k (nat core)) (nat start))
           in Some (if int priority \<le> LowestPriority then Core_GetFront k priority (nat core) q else None)))"

definition Impl_MoveToFront :: "queue_kind \<Rightarrow> int \<Rightarrow> int \<Rightarrow> nat \<Rightarrow> k_priority_queue \<Rightarrow> k_priority_queue option" where
  "Impl_MoveToFront k priority core member = on_queue priority core (\<lambda>p c q.
     snd (Core_PushFront k p c member (snd (Core_Remove k p c member q))))"

definition Impl_MoveToBack ::
  "queue_kind \<Rightarrow> int \<Rightarrow> int \<Rightarrow> nat \<Rightarrow> k_priority_queue \<Rightarrow> (nat option \<times> k_priority_queue) option" where
  "Impl_MoveToBack k priority core member q = do {
     q' \<leftarrow> on_queue priority core (\<lambda>p c q. snd (Core_PushBack k p c member (snd (Core_Remove k p c member q)))) q;
     Some (if priority \<le> LowestPriority then Core_GetFront k (nat priority) (nat core) q' else None, q')
   }"

section \<open>The operations on threads\<close>

text \<open>Taking the cores of an affinity mask one after the other, lowest first.\<close>

function each_core :: "(nat \<Rightarrow> 's \<Rightarrow> 's option) \<Rightarrow> u64 \<Rightarrow> 's \<Rightarrow> 's option" where
  "each_core f affinity s =
     (if affinity = 0 then Some s
      else do {
        let core = countr_zero affinity;
        s' \<leftarrow> f core s;
        each_core f (affinity AND NOT (push_bit core 1)) s'
      })"
  by pat_completeness auto
termination
  by (relation "measure (\<lambda>(_, v, _). unat v)") (auto simp: unat_clear_less countr_zero_bit simp del: push_bit_of_1)

declare each_core.simps [simp del]

definition ClearAffinityBit :: "u64 \<Rightarrow> nat \<Rightarrow> u64" where
  "ClearAffinityBit affinity core = affinity AND NOT (push_bit core 1)"

text \<open>The scheduled queue of the active core, if the thread has one, and the suggested queues of the others.\<close>

definition on_all_queues ::
  "(nat \<Rightarrow> k_priority_queue \<Rightarrow> k_priority_queue option) \<Rightarrow> (nat \<Rightarrow> k_priority_queue \<Rightarrow> k_priority_queue option) \<Rightarrow>
   'a kthread_scheme \<Rightarrow> k_priority_queue \<Rightarrow> k_priority_queue option" where
  "on_all_queues scheduled suggested th q =
     (let affinity = m_affinity_mask th; core = m_core_id th
      in if core \<ge> 0 then do {
           q' \<leftarrow> scheduled (nat core) q;
           each_core suggested (ClearAffinityBit affinity (nat core)) q'
         }
         else each_core suggested affinity q)"

definition PushBack_at :: "int \<Rightarrow> nat \<Rightarrow> (nat \<Rightarrow> 'a kthread_scheme) \<Rightarrow> k_priority_queue \<Rightarrow> k_priority_queue option" where
  "PushBack_at priority member ts q =
     on_all_queues (\<lambda>c. Impl_PushBack Scheduled priority (int c) member) (\<lambda>c. Impl_PushBack Suggested priority (int c) member)
       (ts member) (check (IsValidPriority priority) q)"

definition PushFront_at :: "int \<Rightarrow> nat \<Rightarrow> (nat \<Rightarrow> 'a kthread_scheme) \<Rightarrow> k_priority_queue \<Rightarrow> k_priority_queue option" where
  "PushFront_at priority member ts q =
     on_all_queues (\<lambda>c. Impl_PushFront Scheduled priority (int c) member) (\<lambda>c. Impl_PushBack Suggested priority (int c) member)
       (ts member) (check (IsValidPriority priority) q)"

definition Remove_at :: "int \<Rightarrow> nat \<Rightarrow> (nat \<Rightarrow> 'a kthread_scheme) \<Rightarrow> k_priority_queue \<Rightarrow> k_priority_queue option" where
  "Remove_at priority member ts q =
     on_all_queues (\<lambda>c. Impl_Remove Scheduled priority (int c) member) (\<lambda>c. Impl_Remove Suggested priority (int c) member)
       (ts member) (check (IsValidPriority priority) q)"

definition GetScheduledFront :: "int \<Rightarrow> k_priority_queue \<Rightarrow> nat option option" where
  "GetScheduledFront core q = Impl_GetFront Scheduled core q"

definition GetScheduledFront_at :: "int \<Rightarrow> int \<Rightarrow> k_priority_queue \<Rightarrow> nat option option" where
  "GetScheduledFront_at core priority q = Impl_GetFront_at Scheduled priority core q"

definition GetSuggestedFront :: "int \<Rightarrow> k_priority_queue \<Rightarrow> nat option option" where
  "GetSuggestedFront core q = Impl_GetFront Suggested core q"

definition GetSuggestedFront_at :: "int \<Rightarrow> int \<Rightarrow> k_priority_queue \<Rightarrow> nat option option" where
  "GetSuggestedFront_at core priority q = Impl_GetFront_at Suggested priority core q"

definition GetScheduledNext :: "(nat \<Rightarrow> 'a kthread_scheme) \<Rightarrow> int \<Rightarrow> nat \<Rightarrow> k_priority_queue \<Rightarrow> nat option option" where
  "GetScheduledNext ts core member q = Impl_GetNext ts Scheduled core member q"

definition GetSuggestedNext :: "(nat \<Rightarrow> 'a kthread_scheme) \<Rightarrow> int \<Rightarrow> nat \<Rightarrow> k_priority_queue \<Rightarrow> nat option option" where
  "GetSuggestedNext ts core member q = Impl_GetNext ts Suggested core member q"

definition GetSamePriorityNext :: "int \<Rightarrow> nat \<Rightarrow> k_priority_queue \<Rightarrow> nat option option" where
  "GetSamePriorityNext core member q = (if IsValidCore core then Some (m_next (entries q member (nat core))) else None)"

definition PushBack :: "nat \<Rightarrow> (nat \<Rightarrow> 'a kthread_scheme) \<Rightarrow> k_priority_queue \<Rightarrow> k_priority_queue option" where
  "PushBack member ts q = (if is_dummy (ts member) then Some q else PushBack_at (m_priority (ts member)) member ts q)"

definition Remove :: "nat \<Rightarrow> (nat \<Rightarrow> 'a kthread_scheme) \<Rightarrow> k_priority_queue \<Rightarrow> k_priority_queue option" where
  "Remove member ts q = (if is_dummy (ts member) then Some q else Remove_at (m_priority (ts member)) member ts q)"

definition MoveToScheduledFront :: "nat \<Rightarrow> (nat \<Rightarrow> 'a kthread_scheme) \<Rightarrow> k_priority_queue \<Rightarrow> k_priority_queue option" where
  "MoveToScheduledFront member ts q =
     (if is_dummy (ts member) then Some q
      else Impl_MoveToFront Scheduled (m_priority (ts member)) (m_core_id (ts member)) member q)"

definition MoveToScheduledBack ::
  "nat \<Rightarrow> (nat \<Rightarrow> 'a kthread_scheme) \<Rightarrow> k_priority_queue \<Rightarrow> (nat option \<times> k_priority_queue) option" where
  "MoveToScheduledBack member ts q =
     (if is_dummy (ts member) then Some (None, q)
      else Impl_MoveToBack Scheduled (m_priority (ts member)) (m_core_id (ts member)) member q)"

definition ChangePriority :: "int \<Rightarrow> bool \<Rightarrow> nat \<Rightarrow> (nat \<Rightarrow> 'a kthread_scheme) \<Rightarrow> k_priority_queue \<Rightarrow> k_priority_queue option" where
  "ChangePriority prev_priority is_running member ts q =
     (if is_dummy (ts member) then Some q
      else do {
        let new_priority = m_priority (ts member);
        q1 \<leftarrow> Remove_at prev_priority member ts (check (IsValidPriority prev_priority) q);
        if is_running then PushFront_at new_priority member ts q1 else PushBack_at new_priority member ts q1
      })"

text \<open>One pass of \<open>ChangeAffinityMask\<close> over the cores.\<close>

definition on_cores ::
  "(queue_kind \<Rightarrow> nat \<Rightarrow> k_priority_queue \<Rightarrow> k_priority_queue option) \<Rightarrow> u64 \<Rightarrow> int \<Rightarrow> k_priority_queue \<Rightarrow> k_priority_queue option" where
  "on_cores f affinity active q = run_ops (\<lambda>core q.
     if GetAffinity affinity core then f (if int core = active then Scheduled else Suggested) core q else Some q) [0..<NumCores] q"

definition ChangeAffinityMask ::
  "int \<Rightarrow> u64 \<Rightarrow> nat \<Rightarrow> (nat \<Rightarrow> 'a kthread_scheme) \<Rightarrow> k_priority_queue \<Rightarrow> k_priority_queue option" where
  "ChangeAffinityMask prev_core prev_affinity member ts q =
     (if is_dummy (ts member) then Some q
      else do {
        let priority = m_priority (ts member);
        q1 \<leftarrow> on_cores (\<lambda>k core. Impl_Remove k priority (int core) member) prev_affinity prev_core q;
        on_cores (\<lambda>k core. Impl_PushBack k priority (int core) member) (m_affinity_mask (ts member)) (m_core_id (ts member)) q1
      })"

definition ChangeCore :: "int \<Rightarrow> nat \<Rightarrow> bool \<Rightarrow> (nat \<Rightarrow> 'a kthread_scheme) \<Rightarrow> k_priority_queue \<Rightarrow> k_priority_queue option" where
  "ChangeCore prev_core member to_front ts q =
     (let new_core = m_core_id (ts member); priority = m_priority (ts member)
      in if is_dummy (ts member) \<or> prev_core = new_core then Some q
         else do {
           q1 \<leftarrow> (if prev_core \<ge> 0 then Impl_Remove Scheduled priority prev_core member q else Some q);
           q2 \<leftarrow> (if new_core \<ge> 0 then do {
                    q' \<leftarrow> Impl_Remove Suggested priority new_core member q1;
                    if to_front then Impl_PushFront Scheduled priority new_core member q'
                    else Impl_PushBack Scheduled priority new_core member q'
                  } else Some q1);
           if prev_core \<ge> 0 then Impl_PushBack Suggested priority prev_core member q2 else Some q2
         })"

section \<open>Linked lists\<close>

text \<open>
  \<open>seg nx pv p xs q\<close>: from \<open>p\<close> the pointers lead forwards through \<open>xs\<close> to \<open>q\<close>, and backwards again.  A
  queue is a segment from its root to its root.
\<close>

primrec seg :: "(nat option \<Rightarrow> nat option) \<Rightarrow> (nat option \<Rightarrow> nat option) \<Rightarrow> nat option \<Rightarrow> nat list \<Rightarrow> nat option \<Rightarrow> bool" where
  "seg nx pv p [] q \<longleftrightarrow> nx p = q \<and> pv q = p"
| "seg nx pv p (x # xs) q \<longleftrightarrow> nx p = Some x \<and> pv (Some x) = p \<and> seg nx pv (Some x) xs q"

lemma seg_append: "seg nx pv p (xs @ x # ys) q \<longleftrightarrow> seg nx pv p xs (Some x) \<and> seg nx pv (Some x) ys q"
  by (induction xs arbitrary: p) auto

lemma seg_cong:
  assumes "\<forall>l\<in>insert p (Some ` set xs). nx' l = nx l" "\<forall>l\<in>insert q (Some ` set xs). pv' l = pv l"
  shows "seg nx' pv' p xs q \<longleftrightarrow> seg nx pv p xs q"
  using assms
proof (induction xs arbitrary: p)
  case (Cons x xs)
  have "seg nx' pv' (Some x) xs q \<longleftrightarrow> seg nx pv (Some x) xs q" by (rule Cons.IH) (use Cons.prems in simp_all)
  moreover have "nx' p = nx p" "pv' (Some x) = pv (Some x)" using Cons.prems by auto
  ultimately show ?case by (simp only: seg.simps)
qed auto

lemma seg_ends:
  "seg nx pv p xs q \<Longrightarrow> nx p = (if xs = [] then q else Some (hd xs))"
  "seg nx pv p xs q \<Longrightarrow> pv q = (if xs = [] then p else Some (last xs))"
  by (cases xs; simp) (cases xs rule: rev_cases; simp add: seg_append)

lemma seg_push_back:
  assumes "seg nx pv None xs None" "distinct xs" "t \<notin> set xs"
  shows "seg (nx(Some t := None, pv None := Some t)) (pv(Some t := pv None, None := Some t)) None (xs @ [t]) None"
proof (cases xs rule: rev_cases)
  case Nil
  then show ?thesis using assms by simp
next
  case (snoc ys y)
  then have y: "pv None = Some y" "y \<notin> set ys" "y \<noteq> t" "t \<notin> set ys" using seg_ends(2) [OF assms(1)] assms(2,3) by auto
  have "seg nx pv None ys (Some y)" using assms(1) snoc by (simp add: seg_append)
  then have "seg (nx(Some t := None, Some y := Some t)) (pv(Some t := Some y, None := Some t)) None ys (Some y)"
    by (subst seg_cong [of _ _ _ nx _ _ pv]) (use y in auto)
  then show ?thesis using y unfolding snoc append_assoc append_Cons append_Nil seg_append y(1) by simp
qed

lemma seg_push_front:
  assumes "seg nx pv None xs None" "distinct xs" "t \<notin> set xs"
  shows "seg (nx(Some t := nx None, None := Some t)) (pv(Some t := None, nx None := Some t)) None (t # xs) None"
proof (cases xs)
  case Nil
  then show ?thesis using assms by simp
next
  case (Cons y ys)
  then have y: "nx None = Some y" "y \<notin> set ys" "y \<noteq> t" "t \<notin> set ys" using seg_ends(1) [OF assms(1)] assms(2,3) by auto
  have "seg nx pv (Some y) ys None" using assms(1) Cons by simp
  then have "seg (nx(Some t := Some y, None := Some t)) (pv(Some t := None, Some y := Some t)) (Some y) ys None"
    by (subst seg_cong [of _ _ _ nx _ _ pv]) (use y in auto)
  then show ?thesis using y unfolding Cons by simp
qed

lemma seg_remove:
  assumes "seg nx pv None (xs @ t # ys) None" "distinct (xs @ t # ys)"
  shows "seg (nx(pv (Some t) := nx (Some t))) (pv(nx (Some t) := pv (Some t))) None (xs @ ys) None"
proof -
  have s: "seg nx pv None xs (Some t)" "seg nx pv (Some t) ys None" using assms(1) by (simp_all add: seg_append)
  let ?nx = "nx(pv (Some t) := nx (Some t))" and ?pv = "pv(nx (Some t) := pv (Some t))"
  show ?thesis
  proof (cases xs rule: rev_cases)
    case Nil
    then have p: "pv (Some t) = None" using s(1) by simp
    show ?thesis
    proof (cases ys)
      case (Cons b zs)
      then have "seg ?nx ?pv (Some b) zs None" using s(2) assms(2) p by (subst seg_cong [of _ _ _ nx _ _ pv]) auto
      then show ?thesis using Nil Cons s(2) p by simp
    qed (use Nil p s(2) in simp)
  next
    case (snoc ws a)
    then have p: "pv (Some t) = Some a" "seg nx pv None ws (Some a)" using s(1) by (simp_all add: seg_append)
    have n: "nx (Some t) = (if ys = [] then None else Some (hd ys))" using seg_ends(1) [OF s(2)] by simp
    have ws: "seg ?nx ?pv None ws (Some a)" using p(2)
      by (subst seg_cong [of _ _ _ nx _ _ pv]) (use assms(2) snoc p(1) n hd_in_set [of ys] in auto)
    show ?thesis
    proof (cases ys)
      case (Cons b zs)
      then have "seg ?nx ?pv (Some b) zs None" using s(2) assms(2) p(1) snoc by (subst seg_cong [of _ _ _ nx _ _ pv]) auto
      then show ?thesis using snoc Cons n p(1) ws by (simp add: seg_append)
    qed (use snoc p(1) n ws in \<open>simp add: seg_append\<close>)
  qed
qed

section \<open>What the queues hold\<close>

lemma entry_at_set [simp]:
  "entry_at k' p' c' l' (set_entry k p c l f q) =
     (if l' = l \<and> c' = c \<and> (l = None \<longrightarrow> k' = k \<and> p' = p) then f (entry_at k' p' c' l' q) else entry_at k' p' c' l' q)"
  by (cases l; cases l') auto

lemma set_entry_rest [simp]: "available (set_entry k p c l f q) = available q" "pq_asserted (set_entry k p c l f q) = pq_asserted q"
  by (cases l; simp)+

declare set_entry.simps [simp del] entry_at.simps [simp del]

definition nexts :: "queue_kind \<Rightarrow> nat \<Rightarrow> nat \<Rightarrow> k_priority_queue \<Rightarrow> nat option \<Rightarrow> nat option" where
  "nexts k p c q l = m_next (entry_at k p c l q)"

definition prevs :: "queue_kind \<Rightarrow> nat \<Rightarrow> nat \<Rightarrow> k_priority_queue \<Rightarrow> nat option \<Rightarrow> nat option" where
  "prevs k p c q l = m_prev (entry_at k p c l q)"

definition linked :: "queue_kind \<Rightarrow> nat \<Rightarrow> nat \<Rightarrow> k_priority_queue \<Rightarrow> nat list \<Rightarrow> bool" where
  "linked k p c q xs \<longleftrightarrow> seg (nexts k p c q) (prevs k p c q) None xs None \<and> distinct xs"

text \<open>What an operation on one queue with the threads \<open>T\<close> changes.\<close>

definition changes_only :: "queue_kind \<Rightarrow> nat \<Rightarrow> nat \<Rightarrow> nat set \<Rightarrow> k_priority_queue \<Rightarrow> k_priority_queue \<Rightarrow> bool" where
  "changes_only k p c T q q' \<longleftrightarrow> available q' = available q \<and> pq_asserted q' = pq_asserted q \<and>
     (\<forall>k' p' c'. (k', p', c') \<noteq> (k, p, c) \<longrightarrow> entry_at k' p' c' None q' = entry_at k' p' c' None q) \<and>
     (\<forall>k' p' c' t. t \<notin> T \<or> c' \<noteq> c \<longrightarrow> entry_at k' p' c' (Some t) q' = entry_at k' p' c' (Some t) q)"

lemma changes_only_refl: "changes_only k p c T q q"
  by (simp add: changes_only_def)

lemma changes_only_step:
  "changes_only k p c T q q' \<Longrightarrow> (case l of None \<Rightarrow> True | Some t \<Rightarrow> t \<in> T) \<Longrightarrow> changes_only k p c T q (set_entry k p c l f q')"
  unfolding changes_only_def by (auto split: option.splits)

lemmas changes_only_steps = changes_only_step changes_only_refl

lemma pointers_set [simp]:
  "nexts k p c (set_entry k p c l (\<lambda>e. e\<lparr>m_next := v\<rparr>) q) = (nexts k p c q)(l := v)"
  "nexts k p c (set_entry k p c l (\<lambda>e. e\<lparr>m_prev := v\<rparr>) q) = nexts k p c q"
  "prevs k p c (set_entry k p c l (\<lambda>e. e\<lparr>m_prev := v\<rparr>) q) = (prevs k p c q)(l := v)"
  "prevs k p c (set_entry k p c l (\<lambda>e. e\<lparr>m_next := v\<rparr>) q) = prevs k p c q"
  by (auto simp: nexts_def prevs_def fun_eq_iff)

lemma linked_frame:
  assumes "changes_only k p c T q q'" "(k', p', c') \<noteq> (k, p, c)" "c' = c \<Longrightarrow> set xs \<inter> T = {}" "linked k' p' c' q xs"
  shows "linked k' p' c' q' xs"
proof -
  have "entry_at k' p' c' l q' = entry_at k' p' c' l q" if "l \<in> insert None (Some ` set xs)" for l
    using that assms(1-3) unfolding changes_only_def by blast
  then have "seg (nexts k' p' c' q') (prevs k' p' c' q') None xs None \<longleftrightarrow> seg (nexts k' p' c' q) (prevs k' p' c' q) None xs None"
    by (intro seg_cong) (auto simp: nexts_def prevs_def)
  then show ?thesis using assms(4) by (simp add: linked_def)
qed

lemma Core_PushBack_pushes:
  assumes "linked k p c q xs" "t \<notin> set xs" "Core_PushBack k p c t q = (e, q')"
  shows "e \<longleftrightarrow> xs = []" "linked k p c q' (xs @ [t])" "changes_only k p c (insert t (set xs)) q q'"
proof -
  let ?tail = "prevs k p c q None"
  have s: "seg (nexts k p c q) (prevs k p c q) None xs None" "distinct xs" using assms(1) by (auto simp: linked_def)
  have tail: "?tail = (if xs = [] then None else Some (last xs))" using seg_ends(2) [OF s(1)] by simp
  then have nt: "?tail \<noteq> Some t" using assms(2) last_in_set [of xs] by auto
  have e: "nexts k p c q' = (nexts k p c q)(Some t := None, ?tail := Some t)"
    "prevs k p c q' = (prevs k p c q)(Some t := ?tail, None := Some t)"
    using assms(3) unfolding Core_PushBack_def Let_def nexts_def [symmetric] prevs_def [symmetric] by auto
  show "linked k p c q' (xs @ [t])" using seg_push_back [OF s assms(2)] s(2) assms(2) by (simp add: linked_def e)
  show "e \<longleftrightarrow> xs = []" using assms(3) tail by (auto simp: Core_PushBack_def Let_def prevs_def split: if_splits)
  have "case ?tail of None \<Rightarrow> True | Some u \<Rightarrow> u \<in> insert t (set xs)" using tail by simp
  then show "changes_only k p c (insert t (set xs)) q q'" using assms(3)
    unfolding Core_PushBack_def Let_def prevs_def by (auto intro!: changes_only_steps)
qed

lemma Core_PushFront_pushes:
  assumes "linked k p c q xs" "t \<notin> set xs" "Core_PushFront k p c t q = (e, q')"
  shows "e \<longleftrightarrow> xs = []" "linked k p c q' (t # xs)" "changes_only k p c (insert t (set xs)) q q'"
proof -
  let ?head = "nexts k p c q None"
  have s: "seg (nexts k p c q) (prevs k p c q) None xs None" "distinct xs" using assms(1) by (auto simp: linked_def)
  have head: "?head = (if xs = [] then None else Some (hd xs))" using seg_ends(1) [OF s(1)] by simp
  then have nt: "?head \<noteq> Some t" using assms(2) hd_in_set [of xs] by auto
  have e: "nexts k p c q' = (nexts k p c q)(Some t := ?head, None := Some t)"
    "prevs k p c q' = (prevs k p c q)(Some t := None, ?head := Some t)"
    using assms(3) unfolding Core_PushFront_def Let_def nexts_def [symmetric] prevs_def [symmetric] by auto
  show "linked k p c q' (t # xs)" using seg_push_front [OF s assms(2)] s(2) assms(2) by (simp add: linked_def e)
  show "e \<longleftrightarrow> xs = []" using assms(3) head by (auto simp: Core_PushFront_def Let_def nexts_def split: if_splits)
  have "case ?head of None \<Rightarrow> True | Some u \<Rightarrow> u \<in> insert t (set xs)" using head by simp
  then show "changes_only k p c (insert t (set xs)) q q'" using assms(3)
    unfolding Core_PushFront_def Let_def nexts_def by (auto intro!: changes_only_steps)
qed

lemma Core_GetFront_first: "linked k p c q xs \<Longrightarrow> Core_GetFront k p c q = (if xs = [] then None else Some (hd xs))"
  using seg_ends(1) [of "nexts k p c q" "prevs k p c q" None xs None] by (simp add: linked_def Core_GetFront_def nexts_def)

lemma Core_Remove_removes:
  assumes "linked k p c q xs" "t \<in> set xs" "Core_Remove k p c t q = (e, q')"
  shows "linked k p c q' (remove1 t xs)" "e \<longleftrightarrow> remove1 t xs = []" "changes_only k p c (set xs) q q'"
proof -
  let ?prev = "prevs k p c q (Some t)" and ?next = "nexts k p c q (Some t)"
  obtain ys zs where x: "xs = ys @ t # zs" using split_list [OF assms(2)] by blast
  have s: "seg (nexts k p c q) (prevs k p c q) None (ys @ t # zs) None" "distinct (ys @ t # zs)"
    using assms(1) x by (auto simp: linked_def)
  have r: "remove1 t xs = ys @ zs" using s(2) x by (simp add: remove1_append)
  have pn: "?prev = (if ys = [] then None else Some (last ys))" "?next = (if zs = [] then None else Some (hd zs))"
    using s(1) seg_ends [of "nexts k p c q" "prevs k p c q"] by (auto simp: seg_append)
  have e: "nexts k p c q' = (nexts k p c q)(?prev := ?next)" "prevs k p c q' = (prevs k p c q)(?next := ?prev)"
    using assms(3) unfolding Core_Remove_def Let_def nexts_def [symmetric] prevs_def [symmetric] by auto
  show l: "linked k p c q' (remove1 t xs)" using seg_remove [OF s] s(2) unfolding linked_def r e by auto
  show "e \<longleftrightarrow> remove1 t xs = []" using assms(3) Core_GetFront_first [OF l] by (auto simp: Core_Remove_def Let_def split: if_splits)
  have "case ?prev of None \<Rightarrow> True | Some u \<Rightarrow> u \<in> set xs" "case ?next of None \<Rightarrow> True | Some u \<Rightarrow> u \<in> set xs"
    unfolding pn x by simp_all
  then show "changes_only k p c (set xs) q q'" using assms(3)
    unfolding Core_Remove_def Let_def prevs_def nexts_def by (auto intro!: changes_only_steps)
qed

text \<open>
  The abstract state: for each of the two kinds, each core and each priority the list of the threads.
  \<open>represents\<close> relates it to the pointers and the bit sets; each thread is on at most one queue of a core.
\<close>

type_synonym contents = "queue_kind \<Rightarrow> nat \<Rightarrow> nat \<Rightarrow> nat list"

definition put :: "queue_kind \<Rightarrow> nat \<Rightarrow> nat \<Rightarrow> nat list \<Rightarrow> contents \<Rightarrow> contents" where
  "put k c p xs C = C(k := (C k)(c := (C k c)(p := xs)))"

lemma put_apply [simp]: "put k c p xs C k' c' p' = (if k' = k \<and> c' = c \<and> p' = p then xs else C k' c' p')"
  by (simp add: put_def)

definition represents :: "k_priority_queue \<Rightarrow> contents \<Rightarrow> bool" where
  "represents q C \<longleftrightarrow>
     (\<forall>k. \<forall>c<NumCores. \<forall>p<NumPriority. linked k p c q (C k c p) \<and> (bit (available q k c) p \<longleftrightarrow> C k c p \<noteq> [])) \<and>
     (\<forall>c<NumCores. \<forall>k p k' p' t. p < NumPriority \<and> p' < NumPriority \<and> t \<in> set (C k c p) \<and> t \<in> set (C k' c p') \<longrightarrow> k = k' \<and> p = p')"

definition free_of :: "contents \<Rightarrow> nat \<Rightarrow> nat \<Rightarrow> bool" where
  "free_of C c t \<longleftrightarrow> (\<forall>k. \<forall>p<NumPriority. t \<notin> set (C k c p))"

lemma represents_at:
  assumes "represents q C" "c < NumCores" "p < NumPriority"
  shows "linked k p c q (C k c p)" "bit (available q k c) p \<longleftrightarrow> C k c p \<noteq> []" "distinct (C k c p)"
  using assms by (auto simp: represents_def linked_def)

lemma represents_once:
  assumes "represents q C" "c < NumCores" "p < NumPriority" "p' < NumPriority" "t \<in> set (C k c p)" "t \<in> set (C k' c p')"
  shows "k' = k \<and> p' = p"
  using assms unfolding represents_def by blast

lemma represents_put:
  assumes "represents q C" "c < NumCores" "p < NumPriority" "changes_only k p c (insert t (set (C k c p))) q q1" "linked k p c q1 xs"
    and "free_of C c t \<or> t \<in> set (C k c p)" "set xs \<subseteq> insert t (set (C k c p))"
    and "\<And>i. bit v i \<longleftrightarrow> (if i = p then xs \<noteq> [] else bit (available q k c) i)"
  shows "represents (set_available k c v q1) (put k c p xs C)"
proof -
  have other: "u \<notin> insert t (set (C k c p))" if "u \<in> set (C k' c p')" "p' < NumPriority" "(k', p') \<noteq> (k, p)" for u k' p'
    using that assms(6) represents_once [OF assms(1,2,3) that(2), of u k k'] represents_once [OF assms(1,2,3) that(2), of t k k']
    by (auto simp: free_of_def)
  have av: "available q1 = available q" using assms(4) by (simp add: changes_only_def)
  have lk: "linked k' p' c' (set_available k c v q1) ys \<longleftrightarrow> linked k' p' c' q1 ys" for k' p' c' ys
  proof -
    have "entry_at k' p' c' l (set_available k c v q1) = entry_at k' p' c' l q1" for l
      by (cases l) (simp_all add: set_available_def entry_at.simps)
    then show ?thesis by (simp add: linked_def nexts_def [abs_def] prevs_def [abs_def])
  qed
  have A: "linked k' p' c' q1 (put k c p xs C k' c' p')" if "c' < NumCores" "p' < NumPriority"  for k' p' c'
  proof (cases "(k', p', c') = (k, p, c)")
    case True
    then show ?thesis using assms(5) by simp
  next
    case False
    have "linked k' p' c' q1 (C k' c' p')"
      by (rule linked_frame [OF assms(4) False _ represents_at(1) [OF assms(1) that]]) (use other that False in auto)
    then show ?thesis using False by auto
  qed
  have B: "bit (available (set_available k c v q1) k' c') p' \<longleftrightarrow> put k c p xs C k' c' p' \<noteq> []"
    if "c' < NumCores" "p' < NumPriority" for k' c' p'
    using assms(8) represents_at(2) [OF assms(1) that, of k'] av by (auto simp: set_available_def)
  have D: "k' = k'' \<and> p' = p''" if "c' < NumCores" "p' < NumPriority" "p'' < NumPriority"
    "u \<in> set (put k c p xs C k' c' p')" "u \<in> set (put k c p xs C k'' c' p'')" for c' k' p' k'' p'' u
  proof (cases "c' = c")
    case False
    then show ?thesis using that(4,5) represents_once [OF assms(1) that(1-3), of u k' k''] by auto
  next
    case True
    have new: "u \<in> insert t (set (C k c p))" if "u \<in> set xs" using that assms(7) by blast
    show ?thesis
    proof (cases "(k', p') = (k, p)")
      case first: True
      then have "u \<in> insert t (set (C k c p))" using that(4) True new by simp
      then show ?thesis using other [of u k'' p''] that(3,5) True first by (cases "(k'', p'') = (k, p)") auto
    next
      case first: False
      then have u: "u \<in> set (C k' c p')" using that(4) True by auto
      then have "(k'', p'') \<noteq> (k, p)" using other [OF u that(2) first] new that(5) True by auto
      then have "u \<in> set (C k'' c p'')" using that(5) True by auto
      then show ?thesis using represents_once [OF assms(1,2) that(2,3) u] by simp
    qed
  qed
  show ?thesis unfolding represents_def lk
  proof (intro conjI allI impI, goal_cases)
    case (1 k' c' p')
    show ?case by (rule A [OF 1])
  next
    case (2 k' c' p')
    show ?case by (rule B [OF 2])
  qed (use D in blast)+
qed

lemma set_available_same: "available q1 = available q \<Longrightarrow> set_available k c (available q k c) q1 = q1"
  by (simp add: set_available_def)

lemma check_represents [simp]: "represents (check a q) C \<longleftrightarrow> represents q C"
proof -
  have "entry_at k p c l (check a q) = entry_at k p c l q" for k p c l by (cases l) (simp_all add: check_def entry_at.simps)
  then show ?thesis by (simp add: represents_def linked_def nexts_def [abs_def] prevs_def [abs_def]) (simp add: check_def)
qed

lemma asserted_simps [simp]: "pq_asserted (check a q) \<longleftrightarrow> pq_asserted q \<and> a" "pq_asserted (set_available k c v q) \<longleftrightarrow> pq_asserted q"
  "available (check a q) = available q"
  by (simp_all add: check_def set_available_def)

lemma on_queue_in:
  "p < NumPriority \<Longrightarrow> c < NumCores \<Longrightarrow> on_queue (int p) (int c) f q = Some (f p c (check True q))"
  by (simp add: on_queue_def IsValidCore_def IsValidPriority_def NumPriority_def LowestPriority_def HighestPriority_def Let_def)

lemma bit_set_available: "p < 64 \<Longrightarrow> bit (v OR push_bit p 1) i \<longleftrightarrow> (if i = p then True else bit v i)" for v :: u64
  by (auto simp: bit_simps)

lemma NumPriority_64: "NumPriority = 64"
  by (simp add: NumPriority_def LowestPriority_def HighestPriority_def)

lemma Impl_PushBack_pushes:
  assumes "represents q C" "c < NumCores" "p < NumPriority" "free_of C c t"
  shows "\<exists>q'. Impl_PushBack k (int p) (int c) t q = Some q' \<and> represents q' (put k c p (C k c p @ [t]) C) \<and> pq_asserted q' = pq_asserted q"
proof -
  obtain e q1 where q1: "Core_PushBack k p c t (check True q) = (e, q1)" by fastforce
  have r: "represents (check True q) C" and nt: "t \<notin> set (C k c p)" using assms by (auto simp: free_of_def)
  note push = Core_PushBack_pushes [OF represents_at(1) [OF r assms(2,3)] nt q1]
  have av: "available q1 = available q" "pq_asserted q1 = pq_asserted q" using push(3) by (auto simp: changes_only_def)
  let ?v = "if e then available q1 k c OR push_bit p 1 else available q1 k c"
  have "represents (set_available k c ?v q1) (put k c p (C k c p @ [t]) C)"
    using represents_at(2) [OF assms(1-3), of k] assms(3) push(1)
    by (intro represents_put [OF r assms(2,3) push(3,2)])
      (auto simp: assms(4) av NumPriority_64 bit_set_available simp del: push_bit_of_1)
  moreover have "Impl_PushBack k (int p) (int c) t q = Some (set_available k c ?v q1)"
    using q1 av(1) by (auto simp: Impl_PushBack_def on_queue_in [OF assms(3,2)] set_available_same)
  ultimately show ?thesis using av(2) by simp
qed

lemma changes_only_mono: "changes_only k p c T q q' \<Longrightarrow> T \<subseteq> T' \<Longrightarrow> changes_only k p c T' q q'"
  unfolding changes_only_def by blast

lemma changes_only_trans: "changes_only k p c T q q' \<Longrightarrow> changes_only k p c T q' q'' \<Longrightarrow> changes_only k p c T q q''"
  by (simp add: changes_only_def)

lemma Impl_PushFront_pushes:
  assumes "represents q C" "c < NumCores" "p < NumPriority" "free_of C c t"
  shows "\<exists>q'. Impl_PushFront k (int p) (int c) t q = Some q' \<and> represents q' (put k c p (t # C k c p) C) \<and> pq_asserted q' = pq_asserted q"
proof -
  obtain e q1 where q1: "Core_PushFront k p c t (check True q) = (e, q1)" by fastforce
  have r: "represents (check True q) C" and nt: "t \<notin> set (C k c p)" using assms by (auto simp: free_of_def)
  note push = Core_PushFront_pushes [OF represents_at(1) [OF r assms(2,3)] nt q1]
  have av: "available q1 = available q" "pq_asserted q1 = pq_asserted q" using push(3) by (auto simp: changes_only_def)
  let ?v = "if e then available q1 k c OR push_bit p 1 else available q1 k c"
  have "represents (set_available k c ?v q1) (put k c p (t # C k c p) C)"
    using represents_at(2) [OF assms(1-3), of k] assms(3) push(1)
    by (intro represents_put [OF r assms(2,3) push(3,2)])
      (auto simp: assms(4) av NumPriority_64 bit_set_available simp del: push_bit_of_1)
  moreover have "Impl_PushFront k (int p) (int c) t q = Some (set_available k c ?v q1)"
    using q1 av(1) by (auto simp: Impl_PushFront_def on_queue_in [OF assms(3,2)] set_available_same)
  ultimately show ?thesis using av(2) by simp
qed

lemma Impl_Remove_removes:
  assumes "represents q C" "c < NumCores" "p < NumPriority" "t \<in> set (C k c p)"
  shows "\<exists>q'. Impl_Remove k (int p) (int c) t q = Some q' \<and> represents q' (put k c p (remove1 t (C k c p)) C) \<and> pq_asserted q' = pq_asserted q"
proof -
  obtain e q1 where q1: "Core_Remove k p c t (check True q) = (e, q1)" by fastforce
  have r: "represents (check True q) C" using assms(1) by simp
  note rem = Core_Remove_removes [OF represents_at(1) [OF r assms(2,3)] assms(4) q1]
  have ch: "changes_only k p c (insert t (set (C k c p))) (check True q) q1" by (rule changes_only_mono [OF rem(3)]) blast
  have av: "available q1 = available q" "pq_asserted q1 = pq_asserted q" using rem(3) by (auto simp: changes_only_def)
  let ?v = "if e then available q1 k c AND NOT (push_bit p 1) else available q1 k c"
  have "bit ?v i \<longleftrightarrow> (if i = p then remove1 t (C k c p) \<noteq> [] else bit (available (check True q) k c) i)" for i
    using rem(2) av(1) represents_at(2) [OF assms(1-3), of k] assms(4) by (auto simp: bit_cleared simp del: push_bit_of_1)
  then have "represents (set_available k c ?v q1) (put k c p (remove1 t (C k c p)) C)"
    using assms(4) notin_set_remove1 by (intro represents_put [OF r assms(2,3) ch rem(1)]) auto
  moreover have "Impl_Remove k (int p) (int c) t q = Some (set_available k c ?v q1)"
    using q1 av(1) by (auto simp: Impl_Remove_def on_queue_in [OF assms(3,2)] set_available_same)
  ultimately show ?thesis using av(2) by simp
qed

text \<open>Taking a thread out of its queue and putting it back at an end leaves the bit set as it is.\<close>

lemma moved_represents:
  assumes "represents q C" "c < NumCores" "p < NumPriority" "t \<in> set (C k c p)"
    and "push = Core_PushFront \<and> xs = t # remove1 t (C k c p) \<or> push = Core_PushBack \<and> xs = remove1 t (C k c p) @ [t]"
    and "q' = snd (push k p c t (snd (Core_Remove k p c t q)))"
  shows "represents q' (put k c p xs C)" "pq_asserted q' = pq_asserted q" "linked k p c q' xs"
proof -
  obtain e q1 where q1: "Core_Remove k p c t q = (e, q1)" by fastforce
  obtain e' where q2: "push k p c t q1 = (e', q')" using assms(6) q1 by (metis snd_conv surj_pair)
  note rem = Core_Remove_removes [OF represents_at(1) [OF assms(1-3)] assms(4) q1]
  have nt: "t \<notin> set (remove1 t (C k c p))" using represents_at(3) [OF assms(1-3)] by simp
  have sub: "insert t (set (remove1 t (C k c p))) \<subseteq> insert t (set (C k c p))" using notin_set_remove1 by fastforce
  have p2: "linked k p c q' xs" "changes_only k p c (insert t (set (remove1 t (C k c p)))) q1 q'"
    using assms(5) q2 Core_PushFront_pushes [OF rem(1) nt] Core_PushBack_pushes [OF rem(1) nt] by auto
  have ch: "changes_only k p c (insert t (set (C k c p))) q q'"
    by (rule changes_only_trans [OF changes_only_mono [OF rem(3)] changes_only_mono [OF p2(2) sub]]) blast
  have av: "available q' = available q" "pq_asserted q' = pq_asserted q" using ch by (auto simp: changes_only_def)
  have "represents (set_available k c (available q k c) q') (put k c p xs C)"
    using assms(4,5) sub represents_at(2) [OF assms(1-3), of k] by (intro represents_put [OF assms(1-3) ch p2(1)]) auto
  then show "represents q' (put k c p xs C)" using set_available_same [OF av(1)] by simp
  show "pq_asserted q' = pq_asserted q" using av(2) .
  show "linked k p c q' xs" using p2(1) .
qed

lemma Impl_MoveToFront_moves:
  assumes "represents q C" "c < NumCores" "p < NumPriority" "t \<in> set (C k c p)"
  shows "\<exists>q'. Impl_MoveToFront k (int p) (int c) t q = Some q' \<and> represents q' (put k c p (t # remove1 t (C k c p)) C) \<and>
    pq_asserted q' = pq_asserted q"
  using moved_represents(1,2) [of "check True q" C c p t k Core_PushFront "t # remove1 t (C k c p)"] assms
  by (simp add: Impl_MoveToFront_def on_queue_in [OF assms(3,2)])

lemma Impl_MoveToBack_moves:
  assumes "represents q C" "c < NumCores" "p < NumPriority" "t \<in> set (C k c p)"
  shows "\<exists>q'. Impl_MoveToBack k (int p) (int c) t q = Some (Some (hd (remove1 t (C k c p) @ [t])), q') \<and>
    represents q' (put k c p (remove1 t (C k c p) @ [t]) C) \<and> pq_asserted q' = pq_asserted q"
  using moved_represents [of "check True q" C c p t k Core_PushBack "remove1 t (C k c p) @ [t]"] assms
    Core_GetFront_first [of k p c _ "remove1 t (C k c p) @ [t]"]
  by (simp add: Impl_MoveToBack_def on_queue_in [OF assms(3,2)] NumPriority_64 LowestPriority_def)

section \<open>The run queue of a core\<close>

text \<open>The threads of one core in the order of their priorities, and within a priority in queue order.\<close>

definition run_queue :: "contents \<Rightarrow> queue_kind \<Rightarrow> nat \<Rightarrow> nat list" where
  "run_queue C k c = concat (map (C k c) [0..<NumPriority])"

definition first :: "'a list \<Rightarrow> 'a option" where
  "first xs = (case xs of [] \<Rightarrow> None | x # _ \<Rightarrow> Some x)"

definition after :: "'a \<Rightarrow> 'a list \<Rightarrow> 'a option" where
  "after x xs = first (tl (dropWhile (\<lambda>y. y \<noteq> x) xs))"

lemma first_simps [simp]: "first [] = None" "first (x # xs) = Some x"
  by (simp_all add: first_def)

lemma first_append [simp]: "first (xs @ ys) = (if xs = [] then first ys else first xs)"
  by (cases xs) auto

lemma first_hd: "first xs = (if xs = [] then None else Some (hd xs))"
  by (cases xs) auto

lemma after_split: "x \<notin> set xs \<Longrightarrow> after x (xs @ x # ys) = first ys"
  by (subst after_def, subst dropWhile_append2) auto

lemma first_concat: "first (concat (map f ps)) = (case find (\<lambda>p. f p \<noteq> []) ps of None \<Rightarrow> None | Some p \<Rightarrow> first (f p))"
  by (induction ps) auto

lemma next_set_first:
  assumes "represents q C" "c < NumCores"
  shows "(if int (next_set (available q k c) n) \<le> LowestPriority then Core_GetFront k (next_set (available q k c) n) c q else None) =
    first (concat (map (C k c) [n..<NumPriority]))"
proof -
  have "find (bit (available q k c)) [n..<NumPriority] = find (\<lambda>p. C k c p \<noteq> []) [n..<NumPriority]"
    using represents_at(2) [OF assms] by (intro find_cong) auto
  moreover have "p < NumPriority" if "find (\<lambda>p. C k c p \<noteq> []) [n..<NumPriority] = Some p" for p
    using that by (auto simp: find_Some_iff)
  moreover have "Core_GetFront k p c q = first (C k c p)" if "p < NumPriority" for p
    using Core_GetFront_first [OF represents_at(1) [OF assms that]] by (simp add: first_hd)
  ultimately show ?thesis
    by (auto simp: next_set_def first_concat NumPriority_64 LowestPriority_def split: option.splits)
qed

lemma Impl_GetFront_first:
  assumes "represents q C" "c < NumCores"
  shows "Impl_GetFront k (int c) q = Some (first (run_queue C k c))"
  using next_set_first [OF assms, of k 0] assms(2) by (auto simp: Impl_GetFront_def IsValidCore_def run_queue_def Let_def split: if_splits)

lemma Impl_GetFront_at_first:
  assumes "represents q C" "c < NumCores" "p < NumPriority"
  shows "Impl_GetFront_at k (int p) (int c) q = Some (first (C k c p))"
  using Core_GetFront_first [OF represents_at(1) [OF assms]] assms(2,3)
  by (simp add: Impl_GetFront_at_def IsValidCore_def NumPriority_64 LowestPriority_def first_hd)

lemma run_queue_split:
  "p < NumPriority \<Longrightarrow> run_queue C k c = concat (map (C k c) [0..<p]) @ C k c p @ concat (map (C k c) [Suc p..<NumPriority])"
proof -
  assume "p < NumPriority"
  then have "[0..<NumPriority] = [0..<p] @ p # [Suc p..<NumPriority]" using upt_add_eq_append [of 0 p "NumPriority - p"] by (simp add: upt_conv_Cons)
  then show ?thesis by (simp add: run_queue_def)
qed

lemma entry_next:
  assumes "linked k p c q (xs @ t # ys)"
  shows "m_next (entries q t c) = first ys"
proof -
  have "seg (nexts k p c q) (prevs k p c q) (Some t) ys None" using assms by (simp add: linked_def seg_append)
  from seg_ends(1) [OF this] show ?thesis by (simp add: nexts_def entry_at.simps first_hd)
qed

lemma Impl_GetNext_after:
  assumes "represents q C" "c < NumCores" "p < NumPriority" "t \<in> set (C k c p)" "m_priority (ts t) = int p"
  shows "Impl_GetNext ts k (int c) t q = Some (after t (run_queue C k c))"
proof -
  obtain xs ys where s: "C k c p = xs @ t # ys" using split_list [OF assms(4)] by blast
  have nx: "m_next (entries q t c) = first ys" using entry_next represents_at(1) [OF assms(1-3), of k] s by metis
  have "t \<notin> set (C k c p')" if "p' < p" for p'
    using represents_once [OF assms(1-3) _ assms(4), of p' k] that assms(3) by auto
  then have "t \<notin> set (concat (map (C k c) [0..<p]) @ xs)" using represents_at(3) [OF assms(1-3), of k] s by auto
  from after_split [OF this, of "ys @ concat (map (C k c) [Suc p..<NumPriority])"]
  have "after t (run_queue C k c) = first (ys @ concat (map (C k c) [Suc p..<NumPriority]))"
    unfolding run_queue_split [OF assms(3)] s by simp
  then show ?thesis using next_set_first [OF assms(1,2), of k "Suc p"] nx assms(2,5)
    by (cases ys) (auto simp: Impl_GetNext_def IsValidCore_def Let_def nat_add_distrib split: if_splits)
qed

lemma GetSamePriorityNext_after:
  assumes "represents q C" "c < NumCores" "p < NumPriority" "t \<in> set (C k c p)"
  shows "GetSamePriorityNext (int c) t q = Some (after t (C k c p))"
proof -
  obtain xs ys where s: "C k c p = xs @ t # ys" using split_list [OF assms(4)] by blast
  have "m_next (entries q t c) = first ys" using entry_next represents_at(1) [OF assms(1-3), of k] s by metis
  moreover have "t \<notin> set xs" using represents_at(3) [OF assms(1-3), of k] s by auto
  ultimately show ?thesis using s after_split [of t xs ys] assms(2) by (simp add: GetSamePriorityNext_def IsValidCore_def)
qed

section \<open>Threads on the queues\<close>

text \<open>Where a thread belongs on each core, and which threads the queue takes.\<close>

definition place :: "'a kthread_scheme \<Rightarrow> nat \<Rightarrow> queue_kind option" where
  "place th c = (if m_core_id th = int c then Some Scheduled else if bit (m_affinity_mask th) c then Some Suggested else None)"

definition valid_thread :: "'a kthread_scheme \<Rightarrow> bool" where
  "valid_thread th \<longleftrightarrow> \<not> is_dummy th \<and> 0 \<le> m_priority th \<and> m_priority th \<le> LowestPriority \<and> - 1 \<le> m_core_id th \<and> m_core_id th < int NumCores \<and>
     (\<forall>c. bit (m_affinity_mask th) c \<longrightarrow> c < NumCores) \<and> (m_core_id th \<ge> 0 \<longrightarrow> bit (m_affinity_mask th) (nat (m_core_id th)))"

definition enqueue :: "bool \<Rightarrow> 'a kthread_scheme \<Rightarrow> nat \<Rightarrow> contents \<Rightarrow> contents" where
  "enqueue front th t C = (\<lambda>k c p.
     if place th c = Some k \<and> m_priority th = int p
     then if front \<and> k = Scheduled then t # C k c p else C k c p @ [t] else C k c p)"

definition dequeue :: "'a kthread_scheme \<Rightarrow> nat \<Rightarrow> contents \<Rightarrow> contents" where
  "dequeue th t C = (\<lambda>k c p. if place th c = Some k \<and> m_priority th = int p then remove1 t (C k c p) else C k c p)"

definition rehome :: "int \<Rightarrow> bool \<Rightarrow> 'a kthread_scheme \<Rightarrow> nat \<Rightarrow> contents \<Rightarrow> contents" where
  "rehome prev_core front th t C = (\<lambda>k c p.
     if m_priority th \<noteq> int p then C k c p
     else if int c = prev_core then (if k = Scheduled then remove1 t (C k c p) else C k c p @ [t])
     else if int c = m_core_id th then (if k = Suggested then remove1 t (C k c p) else if front then t # C k c p else C k c p @ [t])
     else C k c p)"

text \<open>Every thread of \<open>E\<close> is on its places, and nothing else is on the queues.\<close>

definition queued :: "(nat \<Rightarrow> 'a kthread_scheme) \<Rightarrow> nat set \<Rightarrow> contents \<Rightarrow> bool" where
  "queued ts E C \<longleftrightarrow> (\<forall>t\<in>E. valid_thread (ts t)) \<and>
     (\<forall>t k c p. c < NumCores \<longrightarrow> p < NumPriority \<longrightarrow>
        (t \<in> set (C k c p) \<longleftrightarrow> t \<in> E \<and> m_priority (ts t) = int p \<and> place (ts t) c = Some k))"

lemma valid_place:
  assumes "valid_thread th" "place th c = Some k"
  shows "c < NumCores"
  using assms by (auto simp: valid_thread_def place_def split: if_splits)

subsection \<open>Going over the cores\<close>

lemma cleared_filter:
  assumes "v \<noteq> 0"
  shows "filter (bit v) [0..<64] = countr_zero v # filter (bit (v AND NOT (push_bit (countr_zero v) 1))) [0..<64]"
proof -
  let ?c = "countr_zero v" and ?w = "v AND NOT (push_bit (countr_zero v) 1)"
  have c: "?c < 64" "bit v ?c" using countr_zero_bit [OF assms] by auto
  have s: "[0..<64] = [0..<?c] @ ?c # [Suc ?c..<64]" using c(1) upt_add_eq_append [of 0 ?c "64 - ?c"] by (simp add: upt_conv_Cons)
  have "filter (bit v) [0..<?c] = []" "filter (bit ?w) [0..<?c] = []"
    using countr_zero_least [OF assms] unfolding filter_empty_conv bit_cleared by auto
  moreover have "filter (bit ?w) [Suc ?c..<64] = filter (bit v) [Suc ?c..<64]"
    by (rule filter_cong) (auto simp: bit_cleared simp del: push_bit_of_1)
  ultimately show ?thesis unfolding s filter_append filter.simps using c(2) bit_cleared [of v ?c ?c] by simp
qed

lemma each_core_run: "each_core f v s = run_ops f (filter (bit v) [0..<64]) s"
proof (induction f v s rule: each_core.induct)
  case (1 f v s)
  show ?case
  proof (cases "v = 0")
    case True
    then show ?thesis by (simp add: each_core.simps)
  next
    case False
    then show ?thesis unfolding cleared_filter [OF False]
      using 1 [OF False refl] by (subst each_core.simps) (simp split: bind_splits option.splits del: push_bit_of_1)
  qed
qed

lemma run_ops_append: "run_ops f (xs @ ys) s = (case run_ops f xs s of None \<Rightarrow> None | Some s' \<Rightarrow> run_ops f ys s')"
  by (induction xs arbitrary: s) (auto split: option.splits)

lemma run_ops_cong: "(\<And>x s. x \<in> set xs \<Longrightarrow> f x s = g x s) \<Longrightarrow> run_ops f xs s = run_ops g xs s"
  by (induction xs arbitrary: s) (auto split: option.splits)

lemma run_ops_filter: "run_ops (\<lambda>x s. if P x then f x s else Some s) xs s = run_ops f (filter P xs) s"
  by (induction xs arbitrary: s) (auto split: option.splits)

lemma GetAffinity_bit: "GetAffinity v c \<longleftrightarrow> bit v c"
proof -
  have "v AND push_bit c 1 = 0 \<longleftrightarrow> \<not> bit v c" 
    using bit_imp_le_length [of v c] bit_eq_iff [of "v AND push_bit c 1" 0] by (auto simp: bit_simps)
  then show ?thesis by (simp add: GetAffinity_def)
qed

text \<open>One operation per core, each on one queue of that core.\<close>

definition sweep :: "nat set \<Rightarrow> (nat \<Rightarrow> queue_kind) \<Rightarrow> nat \<Rightarrow> (nat \<Rightarrow> nat list \<Rightarrow> nat list) \<Rightarrow> contents \<Rightarrow> contents" where
  "sweep cs kd p g C = (\<lambda>k c p'. if c \<in> cs \<and> k = kd c \<and> p' = p then g c (C k c p') else C k c p')"

lemma run_sweep:
  assumes op: "\<And>q C c. represents q C \<Longrightarrow> c \<in> set cs \<Longrightarrow> ok c C \<Longrightarrow>
      \<exists>q'. f c q = Some q' \<and> represents q' (put (kd c) c p (g c (C (kd c) c p)) C) \<and> pq_asserted q' = pq_asserted q"
    and local: "\<And>c C C'. C' Scheduled c = C Scheduled c \<Longrightarrow> C' Suggested c = C Suggested c \<Longrightarrow> ok c C \<Longrightarrow> ok c C'"
    and "distinct cs" "represents q C" "\<forall>c\<in>set cs. ok c C"
  shows "\<exists>q'. run_ops f cs q = Some q' \<and> represents q' (sweep (set cs) kd p g C) \<and> pq_asserted q' = pq_asserted q"
  using assms
proof (induction cs arbitrary: q C)
  case Nil
  show ?case using Nil.prems(4) by (simp add: sweep_def)
next
  case (Cons c cs)
  let ?C = "put (kd c) c p (g c (C (kd c) c p)) C"
  obtain q1 where q1: "f c q = Some q1" "represents q1 ?C" "pq_asserted q1 = pq_asserted q"
    using Cons.prems(1) [OF Cons.prems(4), of c] Cons.prems(5) by (meson list.set_intros(1))
  have "\<exists>q'. run_ops f cs q1 = Some q' \<and> represents q' (sweep (set cs) kd p g ?C) \<and> pq_asserted q' = pq_asserted q1"
  proof (rule Cons.IH)
    show "\<forall>c\<in>set cs. ok c ?C"
    proof
      fix d assume d: "d \<in> set cs"
      then have "?C k d = C k d" for k using Cons.prems(3) by (auto simp: fun_eq_iff)
      then show "ok d ?C" using Cons.prems(2) [of ?C d C] Cons.prems(5) d by (meson list.set_intros(2))
    qed
    show "\<And>q C c. represents q C \<Longrightarrow> c \<in> set cs \<Longrightarrow> ok c C \<Longrightarrow>
      \<exists>q'. f c q = Some q' \<and> represents q' (put (kd c) c p (g c (C (kd c) c p)) C) \<and> pq_asserted q' = pq_asserted q"
      by (meson Cons.prems(1) list.set_intros(2))
    show "\<And>c C C'. C' Scheduled c = C Scheduled c \<Longrightarrow> C' Suggested c = C Suggested c \<Longrightarrow> ok c C \<Longrightarrow> ok c C'"
      using Cons.prems(2) by blast
    show "distinct cs" using Cons.prems(3) by simp
  qed (rule q1(2))
  moreover have "sweep (set cs) kd p g ?C = sweep (set (c # cs)) kd p g C"
    using Cons.prems(3) by (auto simp: sweep_def fun_eq_iff)
  ultimately show ?case using q1(1,3) by auto
qed

subsection \<open>Enqueueing and dequeueing\<close>

definition cores_of :: "'a kthread_scheme \<Rightarrow> nat list" where
  "cores_of th = (if m_core_id th \<ge> 0
     then nat (m_core_id th) # filter (bit (ClearAffinityBit (m_affinity_mask th) (nat (m_core_id th)))) [0..<64]
     else filter (bit (m_affinity_mask th)) [0..<64])"

lemma bit_below_64: "bit v c \<Longrightarrow> c < 64" for v :: u64
  using bit_imp_le_length [of v c] by simp

lemma cores_of_places: "valid_thread th \<Longrightarrow> set (cores_of th) = {c. place th c \<noteq> None}" "distinct (cores_of th)"
proof -
  assume v: "valid_thread th"
  show "set (cores_of th) = {c. place th c \<noteq> None}"
  proof (cases "m_core_id th \<ge> 0")
    case True
    then obtain a where "m_core_id th = int a" by (metis zero_le_imp_eq_int)
    then show ?thesis by (auto simp: cores_of_def place_def ClearAffinityBit_def bit_cleared bit_below_64 simp del: push_bit_of_1)
  next
    case False
    then show ?thesis by (auto simp: cores_of_def place_def bit_below_64)
  qed
next
  show "distinct (cores_of th)" by (simp add: cores_of_def ClearAffinityBit_def bit_cleared del: push_bit_of_1)
qed

lemma on_all_queues_run:
  "on_all_queues f g th q = run_ops (\<lambda>c. if m_core_id th = int c then f c else g c) (cores_of th) q"
proof -
  let ?F = "\<lambda>c. if m_core_id th = int c then f c else g c"
  have "run_ops g (filter (bit v) [0..<64]) q' = run_ops ?F (filter (bit v) [0..<64]) q'" if "\<And>c. bit v c \<Longrightarrow> m_core_id th \<noteq> int c" for v q'
    using that by (intro run_ops_cong) auto
  note r = this
  show ?thesis
  proof (cases "m_core_id th \<ge> 0")
    case True
    have "bit (ClearAffinityBit (m_affinity_mask th) (nat (m_core_id th))) c \<Longrightarrow> m_core_id th \<noteq> int c" for c
      by (auto simp: ClearAffinityBit_def bit_cleared simp del: push_bit_of_1)
    then have "run_ops g (filter (bit (ClearAffinityBit (m_affinity_mask th) (nat (m_core_id th)))) [0..<64]) q' =
        run_ops ?F (filter (bit (ClearAffinityBit (m_affinity_mask th) (nat (m_core_id th)))) [0..<64]) q'" for q' by (rule r)
    with True show ?thesis
      by (simp add: on_all_queues_def cores_of_def each_core_run Let_def split: bind_splits option.splits)
  next
    case False
    then show ?thesis using r [of "m_affinity_mask th"] by (simp add: on_all_queues_def cores_of_def each_core_run)
  qed
qed

definition kind_at :: "'a kthread_scheme \<Rightarrow> nat \<Rightarrow> queue_kind" where
  "kind_at th c = (if m_core_id th = int c then Scheduled else Suggested)"

lemma place_kind: "place th c \<noteq> None \<Longrightarrow> place th c = Some k \<longleftrightarrow> k = kind_at th c"
  by (auto simp: place_def kind_at_def split: if_splits)

lemma valid_priority: "valid_thread th \<Longrightarrow> \<exists>p<NumPriority. m_priority th = int p"
  by (rule exI [of _ "nat (m_priority th)"]) (auto simp: valid_thread_def NumPriority_64 LowestPriority_def)

text \<open>Threads that are on none of their queues, and threads that are on all of them.\<close>

definition absent :: "'a kthread_scheme \<Rightarrow> nat \<Rightarrow> contents \<Rightarrow> bool" where
  "absent th t C \<longleftrightarrow> (\<forall>c. place th c \<noteq> None \<longrightarrow> free_of C c t)"

definition present :: "'a kthread_scheme \<Rightarrow> nat \<Rightarrow> contents \<Rightarrow> bool" where
  "present th t C \<longleftrightarrow> (\<forall>c k p. place th c = Some k \<and> m_priority th = int p \<longrightarrow> t \<in> set (C k c p))"

lemma run_enqueue:
  assumes "represents q C" "valid_thread th" "absent th t C" "distinct cs" "set cs = {c. place th c \<noteq> None}"
  shows "\<exists>q'. run_ops (\<lambda>c. if m_core_id th = int c
        then (if front then Impl_PushFront else Impl_PushBack) Scheduled (m_priority th) (int c) t
        else Impl_PushBack Suggested (m_priority th) (int c) t) cs q = Some q' \<and>
    represents q' (enqueue front th t C) \<and> pq_asserted q' = pq_asserted q"
proof -
  obtain p where p: "p < NumPriority" "m_priority th = int p" using valid_priority [OF assms(2)] by blast
  let ?g = "\<lambda>c xs. if front \<and> m_core_id th = int c then t # xs else xs @ [t]"
  have "\<exists>q'. run_ops (\<lambda>c. if m_core_id th = int c
        then (if front then Impl_PushFront else Impl_PushBack) Scheduled (m_priority th) (int c) t
        else Impl_PushBack Suggested (m_priority th) (int c) t) cs q = Some q' \<and>
    represents q' (sweep (set cs) (kind_at th) p ?g C) \<and> pq_asserted q' = pq_asserted q"
  proof (rule run_sweep [where ok = "\<lambda>c C. free_of C c t"])
    fix q C c assume a: "represents q C" "c \<in> set cs" "free_of C c t"
    have c: "c < NumCores" using a(2) assms(2,5) valid_place by auto
    show "\<exists>q'. (if m_core_id th = int c then (if front then Impl_PushFront else Impl_PushBack) Scheduled (m_priority th) (int c) t
        else Impl_PushBack Suggested (m_priority th) (int c) t) q = Some q' \<and>
      represents q' (put (kind_at th c) c p (?g c (C (kind_at th c) c p)) C) \<and> pq_asserted q' = pq_asserted q"
      using Impl_PushBack_pushes [OF a(1) c p(1) a(3), of "kind_at th c"] Impl_PushFront_pushes [OF a(1) c p(1) a(3), of "kind_at th c"]
      unfolding kind_at_def p(2) by (cases "m_core_id th = int c"; cases front) simp_all
  next
    show "\<forall>c\<in>set cs. free_of C c t" using assms(3,5) by (auto simp: absent_def)
  next
    show "free_of C' c t" if "C' Scheduled c = C Scheduled c" "C' Suggested c = C Suggested c" "free_of C c t" for c C C'
      using that by (simp add: free_of_def) (metis queue_kind.exhaust)
  qed (use assms(1,4) in simp_all)
  moreover have "sweep (set cs) (kind_at th) p ?g C = enqueue front th t C"
    using place_kind [of th] assms(5) p(2) by (auto simp: sweep_def enqueue_def fun_eq_iff kind_at_def place_def)
  ultimately show ?thesis by simp
qed

lemma run_dequeue:
  assumes "represents q C" "valid_thread th" "present th t C" "distinct cs" "set cs = {c. place th c \<noteq> None}"
  shows "\<exists>q'. run_ops (\<lambda>c. Impl_Remove (kind_at th c) (m_priority th) (int c) t) cs q = Some q' \<and>
    represents q' (dequeue th t C) \<and> pq_asserted q' = pq_asserted q"
proof -
  obtain p where p: "p < NumPriority" "m_priority th = int p" using valid_priority [OF assms(2)] by blast
  have "\<exists>q'. run_ops (\<lambda>c. Impl_Remove (kind_at th c) (m_priority th) (int c) t) cs q = Some q' \<and>
    represents q' (sweep (set cs) (kind_at th) p (\<lambda>_. remove1 t) C) \<and> pq_asserted q' = pq_asserted q"
  proof (rule run_sweep [where ok = "\<lambda>c C. t \<in> set (C (kind_at th c) c p)"])
    fix q C c assume a: "represents q C" "c \<in> set cs" "t \<in> set (C (kind_at th c) c p)"
    have c: "c < NumCores" using a(2) assms(2,5) valid_place by auto
    show "\<exists>q'. Impl_Remove (kind_at th c) (m_priority th) (int c) t q = Some q' \<and>
      represents q' (put (kind_at th c) c p (remove1 t (C (kind_at th c) c p)) C) \<and> pq_asserted q' = pq_asserted q"
      unfolding p(2) by (rule Impl_Remove_removes [OF a(1) c p(1) a(3)])
  next
    show "\<forall>c\<in>set cs. t \<in> set (C (kind_at th c) c p)" using assms(3,5) p(2) place_kind [of th] by (auto simp: present_def)
  next
    show "t \<in> set (C' (kind_at th c) c p)" if "C' Scheduled c = C Scheduled c" "C' Suggested c = C Suggested c" "t \<in> set (C (kind_at th c) c p)" for c C C'
      using that by (cases "kind_at th c") simp_all
  qed (use assms(1,4) in simp_all)
  moreover have "sweep (set cs) (kind_at th) p (\<lambda>_. remove1 t) C = dequeue th t C"
    using place_kind [of th] assms(5) p(2) by (auto simp: sweep_def dequeue_def fun_eq_iff)
  ultimately show ?thesis by simp
qed

lemma valid_priority_ok: "valid_thread th \<Longrightarrow> IsValidPriority (m_priority th)"
  by (simp add: valid_thread_def IsValidPriority_def HighestPriority_def)

lemma push_at:
  assumes "represents q C" "valid_thread (ts t)" "absent (ts t) t C" "priority = m_priority (ts t)"
  shows "\<exists>q'. (if front then PushFront_at else PushBack_at) priority t ts q = Some q' \<and>
    represents q' (enqueue front (ts t) t C) \<and> pq_asserted q' = pq_asserted q"
  using run_enqueue [of "check True q" C "ts t" t "cores_of (ts t)" True, unfolded if_True] run_enqueue [of "check True q" C "ts t" t "cores_of (ts t)" False, unfolded if_False]
    cores_of_places [of "ts t"] assms valid_priority_ok [OF assms(2)]
  by (cases front) (simp_all add: PushFront_at_def PushBack_at_def on_all_queues_run)

lemma Remove_at_removes:
  assumes "represents q C" "valid_thread ((ts t)\<lparr>m_priority := priority\<rparr>)" "present ((ts t)\<lparr>m_priority := priority\<rparr>) t C"
  shows "\<exists>q'. Remove_at priority t ts q = Some q' \<and> represents q' (dequeue ((ts t)\<lparr>m_priority := priority\<rparr>) t C) \<and> pq_asserted q' = pq_asserted q"
proof -
  let ?th = "(ts t)\<lparr>m_priority := priority\<rparr>"
  have c: "cores_of ?th = cores_of (ts t)" "IsValidPriority priority" using valid_priority_ok [OF assms(2)] by (simp_all add: cores_of_def)
  have "(\<lambda>c. if m_core_id (ts t) = int c then Impl_Remove Scheduled priority (int c) t else Impl_Remove Suggested priority (int c) t) =
    (\<lambda>c. Impl_Remove (kind_at ?th c) (m_priority ?th) (int c) t)" by (auto simp: kind_at_def fun_eq_iff)
  then have "Remove_at priority t ts q = run_ops (\<lambda>c. Impl_Remove (kind_at ?th c) (m_priority ?th) (int c) t) (cores_of ?th) (check True q)"
    by (simp add: Remove_at_def on_all_queues_run c)
  then show ?thesis using run_dequeue [of "check True q" C ?th t "cores_of ?th"] assms cores_of_places [of ?th] by simp
qed

lemma on_cores_run:
  assumes "valid_thread th"
  shows "on_cores f (m_affinity_mask th) (m_core_id th) q = run_ops (\<lambda>c. f (kind_at th c) c) (filter (bit (m_affinity_mask th)) [0..<NumCores]) q"
    "set (filter (bit (m_affinity_mask th)) [0..<NumCores]) = {c. place th c \<noteq> None}"
proof -
  show "on_cores f (m_affinity_mask th) (m_core_id th) q = run_ops (\<lambda>c. f (kind_at th c) c) (filter (bit (m_affinity_mask th)) [0..<NumCores]) q"
    unfolding on_cores_def run_ops_filter GetAffinity_bit by (rule run_ops_cong) (auto simp: kind_at_def)
  show "set (filter (bit (m_affinity_mask th)) [0..<NumCores]) = {c. place th c \<noteq> None}"
    using assms by (auto simp: place_def valid_thread_def)
qed

lemma ChangeAffinityMask_moves:
  assumes "represents q C" "old = (ts t)\<lparr>m_core_id := prev_core, m_affinity_mask := prev_affinity\<rparr>"
    and "valid_thread old" "present old t C" "valid_thread (ts t)" "absent (ts t) t (dequeue old t C)"
  shows "\<exists>q'. ChangeAffinityMask prev_core prev_affinity t ts q = Some q' \<and>
    represents q' (enqueue False (ts t) t (dequeue old t C)) \<and> pq_asserted q' = pq_asserted q"
proof -
  have o: "m_priority old = m_priority (ts t)" "m_core_id old = prev_core" "m_affinity_mask old = prev_affinity" by (simp_all add: assms(2))
  let ?R = "\<lambda>k c. Impl_Remove k (m_priority old) (int c) t" and ?P = "\<lambda>k c. Impl_PushBack k (m_priority (ts t)) (int c) t"
  obtain q1 where q1: "on_cores ?R prev_affinity prev_core q = Some q1" "represents q1 (dequeue old t C)" "pq_asserted q1 = pq_asserted q"
    using run_dequeue [OF assms(1,3,4) _ on_cores_run(2) [OF assms(3)]] on_cores_run(1) [OF assms(3), of ?R q] by (auto simp: o(2,3))
  have "(\<lambda>c. ?P (kind_at (ts t) c) c) = (\<lambda>c. if m_core_id (ts t) = int c
        then (if False then Impl_PushFront else Impl_PushBack) Scheduled (m_priority (ts t)) (int c) t
        else Impl_PushBack Suggested (m_priority (ts t)) (int c) t)" by (auto simp: kind_at_def fun_eq_iff)
  then obtain q2 where q2: "on_cores ?P (m_affinity_mask (ts t)) (m_core_id (ts t)) q1 = Some q2"
    "represents q2 (enqueue False (ts t) t (dequeue old t C))" "pq_asserted q2 = pq_asserted q1"
    using run_enqueue [OF q1(2) assms(5,6) _ on_cores_run(2) [OF assms(5)], of False] on_cores_run(1) [OF assms(5), of ?P q1] by auto
  show ?thesis using q1(1,3) q2 assms(5) by (simp add: ChangeAffinityMask_def valid_thread_def o(1))
qed

subsection \<open>Changing the core\<close>

lemma removed_free:
  assumes "represents q C" "c < NumCores" "p < NumPriority" "t \<in> set (C k c p)"
  shows "free_of (put k c p (remove1 t (C k c p)) C) c t"
  using represents_at(3) [OF assms(1-3), of k] represents_once [OF assms(1-3) _ assms(4)] by (auto simp: free_of_def)

lemma free_of_put: "free_of C c t \<Longrightarrow> c' \<noteq> c \<or> t \<notin> set xs \<Longrightarrow> free_of (put k c' p xs C) c t"
  by (auto simp: free_of_def)

text \<open>The thread leaves the scheduled queue of its old core, and joins that of its new one.\<close>

lemma leave_core:
  assumes "represents q C" "valid_thread old" "present old t C" "m_priority old = int p"
  shows "\<exists>q1. (if m_core_id old \<ge> 0 then Impl_Remove Scheduled (int p) (m_core_id old) t q else Some q) = Some q1 \<and>
    represents q1 (\<lambda>k c p'. if k = Scheduled \<and> int c = m_core_id old \<and> p' = p then remove1 t (C k c p') else C k c p') \<and>
    pq_asserted q1 = pq_asserted q"
proof (cases "m_core_id old \<ge> 0")
  case True
  then obtain a where a: "m_core_id old = int a" by (metis zero_le_imp_eq_int)
  have c: "a < NumCores" "p < NumPriority" using assms(2,4) a by (auto simp: valid_thread_def NumPriority_64 LowestPriority_def)
  have "t \<in> set (C Scheduled a p)" using assms(3,4) a by (auto simp: present_def place_def)
  from Impl_Remove_removes [OF assms(1) c this] obtain q1 where "Impl_Remove Scheduled (int p) (int a) t q = Some q1"
    "represents q1 (put Scheduled a p (remove1 t (C Scheduled a p)) C)" "pq_asserted q1 = pq_asserted q" by blast
  moreover have "put Scheduled a p (remove1 t (C Scheduled a p)) C = (\<lambda>k c p'. if k = Scheduled \<and> int c = int a \<and> p' = p then remove1 t (C k c p') else C k c p')"
    by (auto simp: fun_eq_iff)
  ultimately show ?thesis using a by simp
next
  case False
  then have "(\<lambda>k c p'. if k = Scheduled \<and> int c = m_core_id old \<and> p' = p then remove1 t (C k c p') else C k c p') = C"
    by (auto simp: fun_eq_iff)
  then show ?thesis using assms(1) False by simp
qed

lemma enter_core:
  assumes "represents q C" "c < NumCores" "p < NumPriority" "t \<in> set (C Suggested c p)"
  shows "\<exists>q1 q2. Impl_Remove Suggested (int p) (int c) t q = Some q1 \<and>
    (if front then Impl_PushFront Scheduled (int p) (int c) t q1 else Impl_PushBack Scheduled (int p) (int c) t q1) = Some q2 \<and>
    represents q2 (\<lambda>k c' p'. if c' = c \<and> p' = p
      then if k = Suggested then remove1 t (C k c' p') else if front then t # C k c' p' else C k c' p' @ [t] else C k c' p') \<and>
    pq_asserted q2 = pq_asserted q"
proof -
  let ?C1 = "put Suggested c p (remove1 t (C Suggested c p)) C"
  let ?xs = "if front then t # C Scheduled c p else C Scheduled c p @ [t]"
  obtain q1 where q1: "Impl_Remove Suggested (int p) (int c) t q = Some q1" "represents q1 ?C1" "pq_asserted q1 = pq_asserted q"
    using Impl_Remove_removes [OF assms] by blast
  note free = removed_free [OF assms]
  obtain q2 where "(if front then Impl_PushFront Scheduled (int p) (int c) t q1 else Impl_PushBack Scheduled (int p) (int c) t q1) = Some q2"
    "represents q2 (put Scheduled c p ?xs ?C1)" "pq_asserted q2 = pq_asserted q1"
    using Impl_PushFront_pushes [OF q1(2) assms(2,3) free, of Scheduled] Impl_PushBack_pushes [OF q1(2) assms(2,3) free, of Scheduled]
    by (cases front) auto
  moreover have "put Scheduled c p ?xs ?C1 = (\<lambda>k c' p'. if c' = c \<and> p' = p
      then if k = Suggested then remove1 t (C k c' p') else if front then t # C k c' p' else C k c' p' @ [t] else C k c' p')"
    by (auto simp: fun_eq_iff) (metis queue_kind.exhaust)+
  ultimately show ?thesis using q1 by auto
qed

lemma ChangeCore_rehomes:
  assumes "represents q C" "old = (ts t)\<lparr>m_core_id := prev_core\<rparr>" "valid_thread old" "present old t C" "valid_thread (ts t)"
    and "prev_core \<noteq> m_core_id (ts t)"
  shows "\<exists>q'. ChangeCore prev_core t front ts q = Some q' \<and> represents q' (rehome prev_core front (ts t) t C) \<and> pq_asserted q' = pq_asserted q"
proof -
  let ?new = "m_core_id (ts t)" and ?pri = "m_priority (ts t)"
  obtain p where p: "p < NumPriority" "?pri = int p" using valid_priority [OF assms(5)] by blast
  have o: "m_core_id old = prev_core" "m_priority old = int p" "m_affinity_mask old = m_affinity_mask (ts t)" using p(2) by (simp_all add: assms(2))
  let ?C1 = "\<lambda>k c p'. if k = Scheduled \<and> int c = prev_core \<and> p' = p then remove1 t (C k c p') else C k c p'"
  obtain q1 where q1: "(if prev_core \<ge> 0 then Impl_Remove Scheduled (int p) prev_core t q else Some q) = Some q1"
    "represents q1 ?C1" "pq_asserted q1 = pq_asserted q" using leave_core [OF assms(1,3,4) o(2)] unfolding o(1) by blast
  let ?C2 = "\<lambda>k c p'. if int c = ?new \<and> p' = p
      then if k = Suggested then remove1 t (C k c p') else if front then t # C k c p' else C k c p' @ [t] else ?C1 k c p'"
  have "\<exists>q2. (if ?new \<ge> 0 then Impl_Remove Suggested (int p) ?new t q1 \<bind> (\<lambda>q'.
        if front then Impl_PushFront Scheduled (int p) ?new t q' else Impl_PushBack Scheduled (int p) ?new t q') else Some q1) = Some q2 \<and>
      represents q2 ?C2 \<and> pq_asserted q2 = pq_asserted q1"
  proof (cases "?new \<ge> 0")
    case True
    then obtain b where b: "?new = int b" by (metis zero_le_imp_eq_int)
    have c: "b < NumCores" using assms(5) b by (simp add: valid_thread_def)
    have "bit (m_affinity_mask (ts t)) b" using assms(5) b by (simp add: valid_thread_def)
    then have "t \<in> set (?C1 Suggested b p)" using assms(4,6) o b by (auto simp: present_def place_def)
    from enter_core [OF q1(2) c p(1) this, of front] obtain q' q2 where
      "Impl_Remove Suggested (int p) (int b) t q1 = Some q'"
      "(if front then Impl_PushFront Scheduled (int p) (int b) t q' else Impl_PushBack Scheduled (int p) (int b) t q') = Some q2"
      "represents q2 (\<lambda>k c' p'. if c' = b \<and> p' = p
        then if k = Suggested then remove1 t (?C1 k c' p') else if front then t # ?C1 k c' p' else ?C1 k c' p' @ [t] else ?C1 k c' p')"
      "pq_asserted q2 = pq_asserted q1" by blast
    moreover have "(\<lambda>k c' p'. if c' = b \<and> p' = p
        then if k = Suggested then remove1 t (?C1 k c' p') else if front then t # ?C1 k c' p' else ?C1 k c' p' @ [t] else ?C1 k c' p') = ?C2"
      using assms(6) b by (auto simp: fun_eq_iff)
    ultimately show ?thesis using b by auto
  next
    case False
    then have "?C2 = ?C1" by (auto simp: fun_eq_iff)
    then show ?thesis using q1(2) False by simp
  qed
  then obtain q2 where q2: "(if ?new \<ge> 0 then Impl_Remove Suggested (int p) ?new t q1 \<bind> (\<lambda>q'.
        if front then Impl_PushFront Scheduled (int p) ?new t q' else Impl_PushBack Scheduled (int p) ?new t q') else Some q1) = Some q2"
      "represents q2 ?C2" "pq_asserted q2 = pq_asserted q1" by blast
  have "\<exists>q3. (if prev_core \<ge> 0 then Impl_PushBack Suggested (int p) prev_core t q2 else Some q2) = Some q3 \<and>
      represents q3 (rehome prev_core front (ts t) t C) \<and> pq_asserted q3 = pq_asserted q2"
  proof (cases "prev_core \<ge> 0")
    case True
    then obtain a where a: "prev_core = int a" by (metis zero_le_imp_eq_int)
    have c: "a < NumCores" using assms(3) a o(1) by (simp add: valid_thread_def)
    have t: "t \<in> set (C Scheduled a p)" using assms(4) o a by (auto simp: present_def place_def)
    have "?C2 k a p' = put Scheduled a p (remove1 t (C Scheduled a p)) C k a p'" for k p' using assms(6) a by auto
    then have "free_of ?C2 a t" using removed_free [OF assms(1) c p(1) t] unfolding free_of_def by simp
    from Impl_PushBack_pushes [OF q2(2) c p(1) this, of Suggested] obtain q3 where
      "Impl_PushBack Suggested (int p) (int a) t q2 = Some q3" "represents q3 (put Suggested a p (?C2 Suggested a p @ [t]) ?C2)"
      "pq_asserted q3 = pq_asserted q2" by blast
    moreover have "put Suggested a p (?C2 Suggested a p @ [t]) ?C2 = rehome prev_core front (ts t) t C"
      using assms(6) a p(2) by (auto simp: fun_eq_iff rehome_def) (metis queue_kind.exhaust)+
    ultimately show ?thesis using a by simp
  next
    case False
    then have "?C2 = rehome prev_core front (ts t) t C" using p(2) by (auto simp: fun_eq_iff rehome_def)
    then show ?thesis using q2(2) False by simp
  qed
  then show ?thesis using q1 q2 assms(5,6) by (auto simp: ChangeCore_def p(2) valid_thread_def)
qed

subsection \<open>Every thread on its places\<close>

lemma queued_iff:
  "queued ts E C \<Longrightarrow> c < NumCores \<Longrightarrow> p < NumPriority \<Longrightarrow>
    t \<in> set (C k c p) \<longleftrightarrow> t \<in> E \<and> m_priority (ts t) = int p \<and> place (ts t) c = Some k"
  by (simp add: queued_def)

lemma queued_valid: "queued ts E C \<Longrightarrow> t \<in> E \<Longrightarrow> valid_thread (ts t)"
  by (simp add: queued_def)

lemma queued_absent:
  assumes "queued ts E C" "t \<notin> E" "valid_thread th"
  shows "absent th t C"
proof -
  have "free_of C c t" if "place th c \<noteq> None" for c
  proof -
    have "c < NumCores" using that valid_place [OF assms(3)] by blast
    then show ?thesis unfolding free_of_def using queued_iff [OF assms(1)] assms(2) by blast
  qed
  then show ?thesis by (simp add: absent_def)
qed

lemma queued_present:
  assumes "queued ts E C" "t \<in> E"
  shows "present (ts t) t C"
  unfolding present_def
proof (intro allI impI)
  fix c k p assume a: "place (ts t) c = Some k \<and> m_priority (ts t) = int p"
  have v: "valid_thread (ts t)" using queued_valid [OF assms] .
  have "c < NumCores" using a valid_place [OF v] by blast
  moreover have "p < NumPriority" using a v by (simp add: valid_thread_def NumPriority_64 LowestPriority_def)
  ultimately show "t \<in> set (C k c p)" using queued_iff [OF assms(1)] assms(2) a by blast
qed

lemma queued_other:
  assumes "t \<notin> E"
  shows "queued (ts(t := th)) E C \<longleftrightarrow> queued ts E C"
proof -
  have "u \<in> E \<and> m_priority ((ts(t := th)) u) = int p \<and> place ((ts(t := th)) u) c = Some k \<longleftrightarrow>
      u \<in> E \<and> m_priority (ts u) = int p \<and> place (ts u) c = Some k" for u p c k using assms by (cases "u = t") simp_all
  moreover have "(\<forall>u\<in>E. valid_thread ((ts(t := th)) u)) \<longleftrightarrow> (\<forall>u\<in>E. valid_thread (ts u))" using assms by (intro ball_cong) auto
  ultimately show ?thesis unfolding queued_def by presburger
qed

lemma queued_enqueue:
  assumes "queued ts E C" "t \<notin> E" "valid_thread (ts t)"
  shows "queued ts (insert t E) (enqueue front (ts t) t C)"
  using assms by (simp add: queued_def enqueue_def) blast

lemma queued_dequeue:
  assumes "represents q C" "queued ts E C" "t \<in> E"
  shows "queued ts (E - {t}) (dequeue (ts t) t C)"
proof -
  have "u \<in> set (dequeue (ts t) t C k c p) \<longleftrightarrow> u \<in> E - {t} \<and> m_priority (ts u) = int p \<and> place (ts u) c = Some k"
    if "c < NumCores" "p < NumPriority" for u k c p
  proof -
    have "u \<in> set (C k c p) \<longleftrightarrow> u \<in> E \<and> m_priority (ts u) = int p \<and> place (ts u) c = Some k" for u
      using assms(2) that by (simp add: queued_def)
    then show ?thesis using represents_at(3) [OF assms(1) that, of k] by (auto simp: dequeue_def)
  qed
  then show ?thesis using assms(2) by (simp add: queued_def)
qed

lemma queued_rehome:
  assumes "represents q C" "queued ts E C" "t \<in> E" "ts' = ts(t := (ts t)\<lparr>m_core_id := new_core\<rparr>)" "valid_thread (ts' t)"
    and "m_core_id (ts t) \<noteq> new_core"
  shows "queued ts' E (rehome (m_core_id (ts t)) front (ts' t) t C)"
proof -
  let ?old = "m_core_id (ts t)"
  have old: "valid_thread (ts t)" using assms(2,3) by (simp add: queued_def)
  have "u \<in> set (rehome ?old front (ts' t) t C k c p) \<longleftrightarrow> u \<in> E \<and> m_priority (ts' u) = int p \<and> place (ts' u) c = Some k"
    if cp: "c < NumCores" "p < NumPriority" for u k c p
  proof -
    have C: "u \<in> set (C k c p) \<longleftrightarrow> u \<in> E \<and> m_priority (ts u) = int p \<and> place (ts u) c = Some k" for u
      using assms(2) cp by (simp add: queued_def)
    have r: "u \<in> set (remove1 t (C k c p)) \<longleftrightarrow> u \<noteq> t \<and> u \<in> set (C k c p)" using represents_at(3) [OF assms(1) cp, of k] by auto
    have b: "?old = int c \<Longrightarrow> bit (m_affinity_mask (ts t)) c" "new_core = int c \<Longrightarrow> bit (m_affinity_mask (ts t)) c"
      using old assms(4,5) by (auto simp: valid_thread_def)
    show ?thesis
    proof (cases "u = t")
      case False
      then have "u \<in> set (rehome ?old front (ts' t) t C k c p) \<longleftrightarrow> u \<in> set (C k c p)" using r by (auto simp: rehome_def)
      then show ?thesis using C False assms(4) by simp
    next
      case True
      then show ?thesis using C [of t] r b assms(3,4,6) by (cases k) (auto simp: rehome_def place_def)
    qed
  qed
  moreover have "\<forall>u\<in>E. valid_thread (ts' u)" using assms(2,4,5) by (auto simp: queued_def)
  ultimately show ?thesis by (simp add: queued_def)
qed

lemma queued_moved:
  assumes "queued ts E C" "set xs = set (C k c p)"
  shows "queued ts E (put k c p xs C)"
  using assms by (auto simp: queued_def)

lemma represents_empty: "represents empty_queue (\<lambda>_ _ _. [])"
  by (auto simp: represents_def linked_def nexts_def prevs_def empty_queue_def entry_at.simps)

lemma queued_empty: "queued ts {} (\<lambda>_ _ _. [])"
  by (simp add: queued_def)

section \<open>What the queue promises\<close>

definition pq_inv :: "k_priority_queue \<Rightarrow> (nat \<Rightarrow> 'a kthread_scheme) \<Rightarrow> nat set \<Rightarrow> contents \<Rightarrow> bool" where
  "pq_inv q ts E C \<longleftrightarrow> represents q C \<and> queued ts E C"

lemma run_queue_iff: "t \<in> set (run_queue C k c) \<longleftrightarrow> (\<exists>p<NumPriority. t \<in> set (C k c p))"
  unfolding run_queue_def by (simp only: set_concat set_map set_upt UN_iff image_iff) (auto simp: atLeastLessThan_iff)

lemma set_run_queue:
  assumes "queued ts E C" "c < NumCores"
  shows "set (run_queue C k c) = {t \<in> E. place (ts t) c = Some k}"
proof -
  have "t \<in> set (run_queue C k c) \<longleftrightarrow> (\<exists>p<NumPriority. t \<in> E \<and> m_priority (ts t) = int p \<and> place (ts t) c = Some k)" for t
    using queued_iff [OF assms(1,2), of _ t k] by (auto simp: run_queue_iff)
  then show ?thesis using valid_priority [OF queued_valid [OF assms(1)]] by blast
qed

lemma run_queue_sorted:
  assumes "queued ts E C" "c < NumCores"
  shows "sorted (map (\<lambda>t. m_priority (ts t)) (run_queue C k c))"
proof -
  have "sorted (map (\<lambda>t. m_priority (ts t)) (concat (map (C k c) [0..<n])))" if "n \<le> NumPriority" for n
    using that
  proof (induction n)
    case (Suc n)
    have pr: "m_priority (ts t) = int p" if "t \<in> set (C k c p)" "p \<le> n" for t p
      using queued_iff [OF assms, of p t k] that Suc.prems by auto
    have "map (\<lambda>t. m_priority (ts t)) (C k c n) = replicate (length (C k c n)) (int n)" using pr [of _ n] by (simp add: map_replicate_const [symmetric])
    moreover have "\<forall>t\<in>set (concat (map (C k c) [0..<n])). m_priority (ts t) \<le> int n" using pr by fastforce
    ultimately show ?case using Suc by (simp add: sorted_append)
  qed simp
  then show ?thesis by (simp add: run_queue_def)
qed

lemma run_queue_distinct:
  assumes "represents q C" "c < NumCores"
  shows "distinct (run_queue C k c)"
proof -
  have "distinct (concat (map (C k c) [0..<n]))" if "n \<le> NumPriority" for n
    using that
  proof (induction n)
    case (Suc n)
    have "set (C k c p) \<inter> set (C k c n) = {}" if "p < n" for p
      using represents_once [OF assms, of p n _ k k] that Suc.prems by auto
    then have "set (concat (map (C k c) [0..<n])) \<inter> set (C k c n) = {}" by fastforce
    then show ?case using Suc represents_at(3) [OF assms, of n k] by simp
  qed simp
  then show ?thesis by (simp add: run_queue_def)
qed

text \<open>The facts that the users of the queue rest on.\<close>

lemma pq_sets:
  assumes "pq_inv q ts E C" "c < NumCores"
  shows "set (run_queue C Scheduled c) = {t \<in> E. m_core_id (ts t) = int c}"
    "set (run_queue C Suggested c) = {t \<in> E. m_core_id (ts t) \<noteq> int c \<and> bit (m_affinity_mask (ts t)) c}"
    "distinct (run_queue C k c)"
  using set_run_queue [of ts E C c] run_queue_distinct [of q C c] assms by (auto simp: pq_inv_def place_def)

lemma pq_front:
  assumes "pq_inv q ts E C" "c < NumCores"
  shows "GetScheduledFront (int c) q = Some (first (run_queue C Scheduled c))"
    "GetSuggestedFront (int c) q = Some (first (run_queue C Suggested c))"
  using assms by (simp_all add: pq_inv_def GetScheduledFront_def GetSuggestedFront_def Impl_GetFront_first)

lemma pq_next:
  assumes "pq_inv q ts E C" "c < NumCores"
  shows "t \<in> set (run_queue C Scheduled c) \<Longrightarrow> GetScheduledNext ts (int c) t q = Some (after t (run_queue C Scheduled c))"
    "t \<in> set (run_queue C Suggested c) \<Longrightarrow> GetSuggestedNext ts (int c) t q = Some (after t (run_queue C Suggested c))"
proof -
  have r: "represents q C" and qd: "queued ts E C" using assms(1) by (simp_all add: pq_inv_def)
  have "Impl_GetNext ts k (int c) t q = Some (after t (run_queue C k c))" if t: "t \<in> set (run_queue C k c)" for k
  proof -
    obtain p where "p < NumPriority" "t \<in> set (C k c p)" using t unfolding run_queue_iff by blast
    then show ?thesis using Impl_GetNext_after [OF r assms(2)] queued_iff [OF qd assms(2)] by blast
  qed
  then show "t \<in> set (run_queue C Scheduled c) \<Longrightarrow> GetScheduledNext ts (int c) t q = Some (after t (run_queue C Scheduled c))"
    "t \<in> set (run_queue C Suggested c) \<Longrightarrow> GetSuggestedNext ts (int c) t q = Some (after t (run_queue C Suggested c))"
    by (simp_all add: GetScheduledNext_def GetSuggestedNext_def)
qed

lemma pq_best:
  assumes "pq_inv q ts E C" "c < NumCores" "first (run_queue C k c) = Some f" "t \<in> set (run_queue C k c)"
  shows "m_priority (ts f) \<le> m_priority (ts t)"
proof -
  obtain fs where fs: "run_queue C k c = f # fs" using assms(3) by (cases "run_queue C k c") auto
  then show ?thesis using run_queue_sorted [of ts E C c k] assms(1,2,4) by (auto simp: pq_inv_def)
qed

lemma first_in: "first xs = Some x \<Longrightarrow> x \<in> set xs"
  by (cases xs) auto

lemma PushBack_inv:
  assumes "pq_inv q ts E C" "t \<notin> E" "valid_thread (ts t)"
  shows "\<exists>q'. PushBack t ts q = Some q' \<and> pq_inv q' ts (insert t E) (enqueue False (ts t) t C) \<and> pq_asserted q' = pq_asserted q"
  using push_at [of q C ts t "m_priority (ts t)" False] queued_absent [of ts E C t "ts t"] queued_enqueue [of ts E C t False] assms
  by (auto simp: pq_inv_def PushBack_def valid_thread_def)

lemma Remove_inv:
  assumes "pq_inv q ts E C" "t \<in> E"
  shows "\<exists>q'. Remove t ts q = Some q' \<and> pq_inv q' ts (E - {t}) (dequeue (ts t) t C) \<and> pq_asserted q' = pq_asserted q"
  using Remove_at_removes [where ts = ts and t = t and priority = "m_priority (ts t)"] queued_present [of ts E C t] queued_dequeue [of q C ts E t] queued_valid [of ts E C t] assms
  by (auto simp: pq_inv_def Remove_def valid_thread_def)

lemma replaced_queued:
  assumes "pq_inv q ts E C" "t \<in> E" "valid_thread th"
  shows "queued (ts(t := th)) (E - {t}) (dequeue (ts t) t C)" "absent th t (dequeue (ts t) t C)"
    "queued (ts(t := th)) E (enqueue front th t (dequeue (ts t) t C))"
proof -
  have "queued ts (E - {t}) (dequeue (ts t) t C)" using queued_dequeue assms(1,2) by (auto simp: pq_inv_def)
  then show d: "queued (ts(t := th)) (E - {t}) (dequeue (ts t) t C)" by (simp add: queued_other)
  show "absent th t (dequeue (ts t) t C)" using queued_absent [OF d _ assms(3)] by simp
  show "queued (ts(t := th)) E (enqueue front th t (dequeue (ts t) t C))"
    using queued_enqueue [OF d, of t front] assms(2,3) by (simp add: insert_absorb)
qed

lemma ChangePriority_inv:
  assumes "pq_inv q ts E C" "t \<in> E" "valid_thread ((ts t)\<lparr>m_priority := p'\<rparr>)" "ts' = ts(t := (ts t)\<lparr>m_priority := p'\<rparr>)"
  shows "\<exists>q'. ChangePriority (m_priority (ts t)) running t ts' q = Some q' \<and>
    pq_inv q' ts' E (enqueue running (ts' t) t (dequeue (ts t) t C)) \<and> pq_asserted q' = pq_asserted q"
proof -
  have v: "valid_thread (ts t)" "IsValidPriority (m_priority (ts t))" using assms(1,2) valid_priority_ok by (auto simp: pq_inv_def queued_def)
  have o: "(ts' t)\<lparr>m_priority := m_priority (ts t)\<rparr> = ts t" using assms(4) by simp
  have r: "represents (check True q) C" "present (ts t) t C" using assms(1,2) queued_present by (auto simp: pq_inv_def)
  obtain q1 where q1: "Remove_at (m_priority (ts t)) t ts' (check True q) = Some q1" "represents q1 (dequeue (ts t) t C)" "pq_asserted q1 = pq_asserted q"
    using Remove_at_removes [where ts = ts' and t = t and priority = "m_priority (ts t)" and q = "check True q" and C = C] r v(1) unfolding o by auto
  note rq = replaced_queued [OF assms(1-3)]
  have n: "ts' t = (ts t)\<lparr>m_priority := p'\<rparr>" "valid_thread (ts' t)" "absent (ts' t) t (dequeue (ts t) t C)" using assms(3,4) rq(2) by simp_all
  obtain q2 where q2: "(if running then PushFront_at else PushBack_at) (m_priority (ts' t)) t ts' q1 = Some q2"
    "represents q2 (enqueue running (ts' t) t (dequeue (ts t) t C))" "pq_asserted q2 = pq_asserted q1"
    using push_at [where ts = ts' and t = t, OF q1(2) n(2,3) refl, of running] by blast
  have "queued ts' E (enqueue running (ts' t) t (dequeue (ts t) t C))" using rq(3) [of running] assms(4) n(1) by simp
  moreover have "ChangePriority (m_priority (ts t)) running t ts' q = Some q2"
    using q1(1) q2(1) v n by (cases running) (simp_all add: ChangePriority_def valid_thread_def)
  ultimately show ?thesis using q1(3) q2 by (simp add: pq_inv_def)
qed

lemma ChangeAffinityMask_inv:
  assumes "pq_inv q ts E C" "t \<in> E" "valid_thread ((ts t)\<lparr>m_core_id := c', m_affinity_mask := a'\<rparr>)"
    and "ts' = ts(t := (ts t)\<lparr>m_core_id := c', m_affinity_mask := a'\<rparr>)"
  shows "\<exists>q'. ChangeAffinityMask (m_core_id (ts t)) (m_affinity_mask (ts t)) t ts' q = Some q' \<and>
    pq_inv q' ts' E (enqueue False (ts' t) t (dequeue (ts t) t C)) \<and> pq_asserted q' = pq_asserted q"
proof -
  have o: "ts t = (ts' t)\<lparr>m_core_id := m_core_id (ts t), m_affinity_mask := m_affinity_mask (ts t)\<rparr>" using assms(4) by simp
  have v: "represents q C" "valid_thread (ts t)" "present (ts t) t C" using assms(1,2) queued_present queued_valid by (auto simp: pq_inv_def)
  note rq = replaced_queued [OF assms(1-3)]
  have n: "valid_thread (ts' t)" "absent (ts' t) t (dequeue (ts t) t C)" using assms(3,4) rq(2) by simp_all
  show ?thesis using ChangeAffinityMask_moves [where ts = ts' and t = t, OF v(1) o v(2,3) n] rq(3) [of False] assms(4) by (auto simp: pq_inv_def)
qed

lemma ChangeCore_inv:
  assumes "pq_inv q ts E C" "t \<in> E" "valid_thread ((ts t)\<lparr>m_core_id := c'\<rparr>)" "ts' = ts(t := (ts t)\<lparr>m_core_id := c'\<rparr>)"
  shows "\<exists>q'. ChangeCore (m_core_id (ts t)) t front ts' q = Some q' \<and>
    pq_inv q' ts' E (if m_core_id (ts t) = c' then C else rehome (m_core_id (ts t)) front (ts' t) t C) \<and> pq_asserted q' = pq_asserted q"
proof (cases "m_core_id (ts t) = c'")
  case True
  then have "ts' = ts" using assms(4) by (auto simp: fun_eq_iff)
  then show ?thesis using assms(1) True by (simp add: ChangeCore_def)
next
  case False
  have o: "ts t = (ts' t)\<lparr>m_core_id := m_core_id (ts t)\<rparr>" using assms(4) by simp
  have v: "represents q C" "queued ts E C" "valid_thread (ts t)" "present (ts t) t C" using assms(1,2) queued_present queued_valid by (auto simp: pq_inv_def)
  have n: "valid_thread (ts' t)" "m_core_id (ts t) \<noteq> m_core_id (ts' t)" using assms(3,4) False by simp_all
  show ?thesis using ChangeCore_rehomes [where ts = ts' and t = t, OF v(1) o v(3,4) n, of front] queued_rehome [OF v(1,2) assms(2,4) n(1) False, of front] False
    by (auto simp: pq_inv_def)
qed

lemma scheduled_at:
  assumes "pq_inv q ts E C" "t \<in> E" "m_core_id (ts t) = int c" "m_priority (ts t) = int p"
  shows "t \<in> set (C Scheduled c p)" "c < NumCores" "p < NumPriority" "represents q C" "queued ts E C" "valid_thread (ts t)"
proof -
  show r: "represents q C" "queued ts E C" "valid_thread (ts t)" using assms(1,2) queued_valid by (auto simp: pq_inv_def)
  then show c: "c < NumCores" "p < NumPriority" using assms(3,4) by (auto simp: valid_thread_def NumPriority_64 LowestPriority_def)
  show "t \<in> set (C Scheduled c p)" using queued_iff [OF r(2) c] assms(2-4) by (simp add: place_def)
qed

lemma MoveToScheduledBack_inv:
  assumes "pq_inv q ts E C" "t \<in> E" "m_core_id (ts t) = int c" "m_priority (ts t) = int p"
  shows "\<exists>q'. MoveToScheduledBack t ts q = Some (Some (hd (remove1 t (C Scheduled c p) @ [t])), q') \<and>
    pq_inv q' ts E (put Scheduled c p (remove1 t (C Scheduled c p) @ [t]) C) \<and> pq_asserted q' = pq_asserted q"
proof -
  note s = scheduled_at [OF assms]
  have "set (remove1 t (C Scheduled c p) @ [t]) = set (C Scheduled c p)" using s(1) represents_at(3) [OF s(4,2,3), of Scheduled] by auto
  then show ?thesis using Impl_MoveToBack_moves [OF s(4,2,3,1)] queued_moved [OF s(5)] s(6) assms(3,4)
    by (auto simp: MoveToScheduledBack_def pq_inv_def valid_thread_def)
qed

lemma MoveToScheduledFront_inv:
  assumes "pq_inv q ts E C" "t \<in> E" "m_core_id (ts t) = int c" "m_priority (ts t) = int p"
  shows "\<exists>q'. MoveToScheduledFront t ts q = Some q' \<and> pq_inv q' ts E (put Scheduled c p (t # remove1 t (C Scheduled c p)) C) \<and>
    pq_asserted q' = pq_asserted q"
proof -
  note s = scheduled_at [OF assms]
  have "set (t # remove1 t (C Scheduled c p)) = set (C Scheduled c p)" using s(1) represents_at(3) [OF s(4,2,3), of Scheduled] by auto
  then show ?thesis using Impl_MoveToFront_moves [OF s(4,2,3,1)] queued_moved [OF s(5)] s(6) assms(3,4)
    by (auto simp: MoveToScheduledFront_def pq_inv_def valid_thread_def)
qed

lemma no_core_undefined:
  assumes "pq_inv q ts E C" "t \<in> E" "m_core_id (ts t) < 0"
  shows "MoveToScheduledBack t ts q = None" "MoveToScheduledFront t ts q = None"
proof -
  have "valid_thread (ts t)" using assms(1,2) queued_valid by (auto simp: pq_inv_def)
  then show "MoveToScheduledBack t ts q = None" "MoveToScheduledFront t ts q = None" using assms(3)
    by (simp_all add: MoveToScheduledBack_def MoveToScheduledFront_def Impl_MoveToBack_def Impl_MoveToFront_def on_queue_def IsValidCore_def valid_thread_def)
qed

subsection \<open>The run queues after a migration\<close>

lemma run_queue_other:
  assumes "int c \<noteq> old" "int c \<noteq> m_core_id th"
  shows "run_queue (rehome old front th t C) k c = run_queue C k c"
proof -
  have "rehome old front th t C k c = C k c" using assms by (auto simp: rehome_def fun_eq_iff)
  then show ?thesis by (simp add: run_queue_def)
qed

lemma remove1_concat: "distinct (concat xss) \<Longrightarrow> remove1 t (concat xss) = concat (map (remove1 t) xss)"
proof (induction xss)
  case (Cons xs xss)
  moreover have "concat xss = remove1 t (concat xss)" if "t \<in> set xs" 
  proof -
    have "t \<notin> set (concat xss)" using that Cons.prems unfolding concat.simps distinct_append by blast
    then show ?thesis by (rule remove1_idem [symmetric])
  qed
  ultimately show ?case by (auto simp: remove1_append remove1_idem)
qed simp

lemma run_queue_left:
  assumes "pq_inv q ts E C" "c < NumCores" "m_core_id (ts t) = int c" "t \<in> E" "m_priority th = m_priority (ts t)"
  shows "run_queue (rehome (int c) front th t C) Scheduled c = remove1 t (run_queue C Scheduled c)"
proof -
  have "rehome (int c) front th t C Scheduled c p = remove1 t (C Scheduled c p)" if "p < NumPriority" for p
    using queued_iff [of ts E C c p t Scheduled] assms that by (auto simp: rehome_def pq_inv_def remove1_idem)
  then have "map (rehome (int c) front th t C Scheduled c) [0..<NumPriority] = map (remove1 t) (map (C Scheduled c) [0..<NumPriority])" by simp
  then show ?thesis using pq_sets(3) [OF assms(1,2), of Scheduled] remove1_concat unfolding run_queue_def by metis
qed

lemma run_queue_entered:
  assumes "run_queue C Scheduled c = []" "m_core_id th = int c" "old \<noteq> int c" "m_priority th = int p" "p < NumPriority"
  shows "run_queue (rehome old front th t C) Scheduled c = [t]"
proof -
  have e: "C Scheduled c p' = []" if "p' < NumPriority" for p' using assms(1) that by (simp add: run_queue_def)
  have "map (rehome old front th t C Scheduled c) [0..<NumPriority] = map (\<lambda>p'. if p' = p then [t] else []) [0..<NumPriority]"
    using e assms(2-4) by (intro map_cong refl) (auto simp: rehome_def)
  moreover have "concat (map (\<lambda>p'. if p' = p then [t] else []) [0..<n]) = (if p < n then [t] else [])" for n by (induction n) auto
  ultimately show ?thesis using assms(5) unfolding run_queue_def by metis
qed


text \<open>
  C25.  The order of the run queues.  The scheduled queue of a core holds each of the enqueued threads
  that are active on it once, the suggested queue each of those that may run on it and are not, both in
  the order of the priorities.  \<open>GetFront\<close> gives the first thread of this order and \<open>GetNext\<close> the one
  after a given thread, across the priorities; so the front has the best priority of all.
\<close>

theorem priority_queue_order:
  assumes "pq_inv q ts E C" "c < NumCores"
  shows "set (run_queue C Scheduled c) = {t \<in> E. m_core_id (ts t) = int c} \<and>
    set (run_queue C Suggested c) = {t \<in> E. m_core_id (ts t) \<noteq> int c \<and> bit (m_affinity_mask (ts t)) c} \<and>
    distinct (run_queue C Scheduled c) \<and> distinct (run_queue C Suggested c) \<and>
    GetScheduledFront (int c) q = Some (first (run_queue C Scheduled c)) \<and>
    GetSuggestedFront (int c) q = Some (first (run_queue C Suggested c)) \<and>
    (t \<in> set (run_queue C Scheduled c) \<longrightarrow> GetScheduledNext ts (int c) t q = Some (after t (run_queue C Scheduled c))) \<and>
    (t \<in> set (run_queue C Suggested c) \<longrightarrow> GetSuggestedNext ts (int c) t q = Some (after t (run_queue C Suggested c))) \<and>
    (GetScheduledFront (int c) q = Some (Some f) \<longrightarrow> f \<in> E \<and> m_core_id (ts f) = int c \<and>
       (\<forall>t'\<in>E. m_core_id (ts t') = int c \<longrightarrow> m_priority (ts f) \<le> m_priority (ts t')))"
proof -
  note s = pq_sets [OF assms] and f = pq_front [OF assms]
  have "f \<in> E \<and> m_core_id (ts f) = int c \<and> (\<forall>t'\<in>E. m_core_id (ts t') = int c \<longrightarrow> m_priority (ts f) \<le> m_priority (ts t'))"
    if "first (run_queue C Scheduled c) = Some f"
    using first_in [OF that] pq_best [OF assms that] unfolding s(1) by blast
  then show ?thesis using s f pq_next [OF assms] by simp
qed

text \<open>
  C26.  The operations of the queue keep every thread on its places.  Each is defined, breaks none of the
  assertions of the queue (\<open>pq_asserted\<close> stays as it was), and changes the lists as follows: a thread goes to
  the back of all its queues or is taken out of them; a change of priority or affinity takes it out and puts
  it back (a running thread at the front of its scheduled queue); a change of the core moves it between the
  scheduled and the suggested queue of the two cores and leaves every other queue alone.  These hold for
  threads with an active core and for threads without one.  Moving to the back or the front of the scheduled
  queue is for threads with an active core: it moves the thread within its queue and, for the back, gives the
  new front; for a thread without one the index of the core is out of range.
\<close>

theorem priority_queue_operations:
  assumes "pq_inv q ts E C" "t \<in> E" "u \<notin> E" "valid_thread (ts u)"
    and "valid_thread ((ts t)\<lparr>m_priority := p'\<rparr>)"
    and "valid_thread ((ts t)\<lparr>m_core_id := c', m_affinity_mask := a'\<rparr>)"
    and "valid_thread ((ts t)\<lparr>m_core_id := c''\<rparr>)"
  shows "(\<exists>q'. PushBack u ts q = Some q' \<and> pq_inv q' ts (insert u E) (enqueue False (ts u) u C) \<and> pq_asserted q' = pq_asserted q) \<and>
    (\<exists>q'. Remove t ts q = Some q' \<and> pq_inv q' ts (E - {t}) (dequeue (ts t) t C) \<and> pq_asserted q' = pq_asserted q) \<and>
    (let ts' = ts(t := (ts t)\<lparr>m_priority := p'\<rparr>) in \<exists>q'. ChangePriority (m_priority (ts t)) running t ts' q = Some q' \<and>
       pq_inv q' ts' E (enqueue running (ts' t) t (dequeue (ts t) t C)) \<and> pq_asserted q' = pq_asserted q) \<and>
    (let ts' = ts(t := (ts t)\<lparr>m_core_id := c', m_affinity_mask := a'\<rparr>) in
       \<exists>q'. ChangeAffinityMask (m_core_id (ts t)) (m_affinity_mask (ts t)) t ts' q = Some q' \<and>
       pq_inv q' ts' E (enqueue False (ts' t) t (dequeue (ts t) t C)) \<and> pq_asserted q' = pq_asserted q) \<and>
    (let ts' = ts(t := (ts t)\<lparr>m_core_id := c''\<rparr>) in \<exists>q'. ChangeCore (m_core_id (ts t)) t front ts' q = Some q' \<and>
       pq_inv q' ts' E (if m_core_id (ts t) = c'' then C else rehome (m_core_id (ts t)) front (ts' t) t C) \<and> pq_asserted q' = pq_asserted q) \<and>
    (\<forall>c p. m_core_id (ts t) = int c \<and> m_priority (ts t) = int p \<longrightarrow>
       (\<exists>q'. MoveToScheduledBack t ts q = Some (Some (hd (remove1 t (C Scheduled c p) @ [t])), q') \<and>
          pq_inv q' ts E (put Scheduled c p (remove1 t (C Scheduled c p) @ [t]) C) \<and> pq_asserted q' = pq_asserted q) \<and>
       (\<exists>q'. MoveToScheduledFront t ts q = Some q' \<and> pq_inv q' ts E (put Scheduled c p (t # remove1 t (C Scheduled c p)) C) \<and>
          pq_asserted q' = pq_asserted q)) \<and>
    (m_core_id (ts t) < 0 \<longrightarrow> MoveToScheduledBack t ts q = None \<and> MoveToScheduledFront t ts q = None)"
  unfolding Let_def
proof (intro conjI allI impI; (elim conjE)?)
  show "\<exists>q'. PushBack u ts q = Some q' \<and> pq_inv q' ts (insert u E) (enqueue False (ts u) u C) \<and> pq_asserted q' = pq_asserted q"
    by (rule PushBack_inv [OF assms(1,3,4)])
  show "\<exists>q'. Remove t ts q = Some q' \<and> pq_inv q' ts (E - {t}) (dequeue (ts t) t C) \<and> pq_asserted q' = pq_asserted q"
    by (rule Remove_inv [OF assms(1,2)])
next
  assume "m_core_id (ts t) < 0"
  then show "MoveToScheduledBack t ts q = None" "MoveToScheduledFront t ts q = None" by (rule no_core_undefined [OF assms(1,2)])+
qed (rule ChangePriority_inv [OF assms(1,2,5) refl] ChangeAffinityMask_inv [OF assms(1,2,6) refl] ChangeCore_inv [OF assms(1,2,7) refl]
    MoveToScheduledBack_inv [OF assms(1,2)] MoveToScheduledFront_inv [OF assms(1,2)] | assumption)+

definition example_thread :: kthread where
  "example_thread = \<lparr>m_priority = 44, m_core_id = 0, m_affinity_mask = 7, is_dummy = False\<rparr>"

lemma example_thread_valid: "- 1 \<le> c \<Longrightarrow> c < 3 \<Longrightarrow> valid_thread (example_thread\<lparr>m_core_id := c\<rparr>)"
  "valid_thread example_thread" "valid_thread (example_thread\<lparr>m_priority := 30\<rparr>)"
proof -
  have seven: "(7 :: int) = Bit_Operations.mask 3" by (simp add: mask_eq_exp_minus_1)
  have m: "bit (7 :: int) i \<longleftrightarrow> i < 3" for i unfolding seven bit_mask_iff by simp
  show "- 1 \<le> c \<Longrightarrow> c < 3 \<Longrightarrow> valid_thread (example_thread\<lparr>m_core_id := c\<rparr>)"
    by (auto simp: valid_thread_def example_thread_def NumCores_def LowestPriority_def m nat_less_iff)
  show "valid_thread example_thread" "valid_thread (example_thread\<lparr>m_priority := 30\<rparr>)"
    by (auto simp: valid_thread_def example_thread_def NumCores_def LowestPriority_def m)
qed

lemma example_queue:
  obtains q C where "pq_inv q (\<lambda>_. example_thread) {1} C" "pq_asserted q"
proof -
  have "pq_inv empty_queue (\<lambda>_. example_thread) {} (\<lambda>_ _ _. [])" by (simp add: pq_inv_def represents_empty queued_empty)
  moreover have "pq_asserted empty_queue" by (simp add: empty_queue_def)
  ultimately show thesis using PushBack_inv [of empty_queue "\<lambda>_. example_thread" "{}" _ 1] that example_thread_valid(2) by fastforce
qed

theorem priority_queue_order_witness:
  "\<exists>q C. pq_inv q (\<lambda>_. example_thread) {1} C \<and> set (run_queue C Scheduled 0) = {1} \<and> set (run_queue C Suggested 2) = {1}"
proof -
  obtain q C where inv: "pq_inv q (\<lambda>_. example_thread) {1} C" by (rule example_queue)
  have c: "0 < NumCores" "2 < NumCores" by (simp_all add: NumCores_def)
  have "m_core_id example_thread = 0" "bit (m_affinity_mask example_thread) 2" by (simp_all add: example_thread_def)
  then have "set (run_queue C Scheduled 0) = {1}" "set (run_queue C Suggested 2) = {1}"
    using priority_queue_order [OF inv c(1), THEN conjunct1] priority_queue_order [OF inv c(2), THEN conjunct2, THEN conjunct1] by auto
  then show ?thesis using inv by blast
qed

theorem priority_queue_operations_witness:
  "\<exists>q C q' q''. pq_inv q (\<lambda>_. example_thread) {1} C \<and> pq_asserted q \<and> Remove 1 (\<lambda>_. example_thread) q = Some q' \<and>
     pq_inv q' (\<lambda>_. example_thread) {} (dequeue example_thread 1 C) \<and> pq_asserted q' \<and>
     MoveToScheduledBack 1 (\<lambda>_. example_thread) q = Some (Some (hd (remove1 1 (C Scheduled 0 44) @ [1])), q'') \<and> pq_asserted q''"
proof -
  obtain q C where inv: "pq_inv q (\<lambda>_. example_thread) {1} C" "pq_asserted q" using example_queue .
  have "example_thread\<lparr>m_core_id := 2, m_affinity_mask := 7\<rparr> = example_thread\<lparr>m_core_id := 2\<rparr>" by (simp add: example_thread_def)
  then have v: "valid_thread (example_thread\<lparr>m_core_id := 2, m_affinity_mask := 7\<rparr>)" "valid_thread (example_thread\<lparr>m_core_id := 1\<rparr>)"
    using example_thread_valid(1) [of 2] example_thread_valid(1) [of 1] by simp_all
  have m: "1 \<in> {1 :: nat}" "2 \<notin> {1 :: nat}" "m_core_id example_thread = int 0" "m_priority example_thread = int 44"
    by (simp_all add: example_thread_def)
  note ops = priority_queue_operations [OF inv(1) m(1,2) example_thread_valid(2,3) v, THEN conjunct2]
  obtain q' where "Remove 1 (\<lambda>_. example_thread) q = Some q'" "pq_inv q' (\<lambda>_. example_thread) {} (dequeue example_thread 1 C)" "pq_asserted q'"
    using ops [THEN conjunct1] inv(2) by auto
  moreover obtain q'' where "MoveToScheduledBack 1 (\<lambda>_. example_thread) q = Some (Some (hd (remove1 1 (C Scheduled 0 44) @ [1])), q'')" "pq_asserted q''"
    using ops [THEN conjunct2, THEN conjunct2, THEN conjunct2, THEN conjunct2, THEN conjunct1, rule_format, of 0 44] m(3,4) inv(2) by auto
  ultimately show ?thesis using inv by blast
qed

end
