(* ===== verification/KScheduler.thy ===== *)
theory KScheduler
  imports KPriorityQueue
begin

text \<open>
  \<^verbatim>\<open>src/core/hle/kernel/k_scheduler.cpp\<close>: the choice of the thread that each core runs, with
  \<^verbatim>\<open>global_scheduler_context.cpp\<close> and \<^verbatim>\<open>k_scheduler_lock.h\<close>.

  Threads and processes are numbers; \<open>kernel\<close> holds what the scheduler reads and changes of them, the
  states of the four schedulers, the run queues of \<open>KPriorityQueue\<close> and the scheduler lock.  Both the
  thread and the kernel can be extended, and the operations here leave the extension alone.  A null pointer
  that is dereferenced, an index that an array does not have and a loop that does not end are \<open>None\<close>.
  The assertions are collected in \<open>asserted\<close>.

  The operations run while the calling thread has the scheduler lock, as the code asserts; \<open>Lock\<close> and
  \<open>Unlock\<close> are modelled at the end.  Counters of scheduling events and ticks, 64 bits wide, are integers.
  A switch of threads is modelled up to the point where the fiber of the core takes over.
\<close>

section \<open>State\<close>

definition Initialized :: u16 where "Initialized = 0"

definition Waiting :: u16 where "Waiting = 1"

definition Runnable :: u16 where "Runnable = 2"

definition Terminated :: u16 where "Terminated = 3"

record sched_thread = kthread +
  m_thread_state :: u16
  m_last_scheduled_tick :: int
  m_schedule_count :: int
  m_parent :: "nat option"
  m_num_kernel_waiters :: int
  disable_count :: int
  m_dummy_thread_runnable :: bool

record sched_process =
  process_schedule_count :: int
  m_pinned_threads :: "nat \<Rightarrow> nat option"
  m_running_threads :: "nat \<Rightarrow> nat option"
  m_running_thread_idle_counts :: "nat \<Rightarrow> u64"
  m_running_thread_switch_counts :: "nat \<Rightarrow> u64"

record scheduling_state =
  needs_scheduling :: bool
  interrupt_task_runnable :: bool
  should_count_idle :: bool
  idle_count :: u64
  highest_priority_thread :: "nat option"
  prev_thread :: "nat option"
  m_switch_cur_thread :: "nat option"
  m_switch_highest_priority_thread :: "nat option"
  m_switch_from_schedule :: bool

record 'a kernel =
  threads :: "nat \<Rightarrow> 'a sched_thread_scheme"
  processes :: "nat \<Rightarrow> sched_process"
  schedulers :: "nat \<Rightarrow> scheduling_state"
  m_priority_queue :: k_priority_queue
  m_scheduler_update_needed :: bool
  m_woken_dummy_threads :: "nat list"
  m_owner_thread :: "nat option"
  m_lock_count :: int
  current_thread :: nat
  current_core :: nat
  on_core_thread :: bool
  clock_ticks :: int
  interrupted :: "nat set"
  asserted :: bool

type_synonym ('a, 'b) kern = "('a, 'b) kernel_scheme"

definition set_thread :: "nat \<Rightarrow> ('a sched_thread_scheme \<Rightarrow> 'a sched_thread_scheme) \<Rightarrow> ('a, 'b) kern \<Rightarrow> ('a, 'b) kern" where
  "set_thread t f k = k\<lparr>threads := (threads k)(t := f (threads k t))\<rparr>"

definition set_process :: "nat \<Rightarrow> (sched_process \<Rightarrow> sched_process) \<Rightarrow> ('a, 'b) kern \<Rightarrow> ('a, 'b) kern" where
  "set_process p f k = k\<lparr>processes := (processes k)(p := f (processes k p))\<rparr>"

definition set_scheduler :: "nat \<Rightarrow> (scheduling_state \<Rightarrow> scheduling_state) \<Rightarrow> ('a, 'b) kern \<Rightarrow> ('a, 'b) kern" where
  "set_scheduler c f k = k\<lparr>schedulers := (schedulers k)(c := f (schedulers k c))\<rparr>"

definition assert_that :: "bool \<Rightarrow> ('a, 'b) kern \<Rightarrow> ('a, 'b) kern" where
  "assert_that a k = k\<lparr>asserted := asserted k \<and> a\<rparr>"

definition with_queue :: "(k_priority_queue \<Rightarrow> k_priority_queue option) \<Rightarrow> ('a, 'b) kern \<Rightarrow> ('a, 'b) kern option" where
  "with_queue f k = do {q \<leftarrow> f (m_priority_queue k); Some (k\<lparr>m_priority_queue := q\<rparr>)}"

definition IsSchedulerLockedByCurrentThread :: "('a, 'b) kern \<Rightarrow> bool" where
  "IsSchedulerLockedByCurrentThread k \<longleftrightarrow> m_owner_thread k = Some (current_thread k)"

definition SetSchedulerUpdateNeeded :: "('a, 'b) kern \<Rightarrow> ('a, 'b) kern" where
  "SetSchedulerUpdateNeeded k = k\<lparr>m_scheduler_update_needed := True\<rparr>"

definition ClearSchedulerUpdateNeeded :: "('a, 'b) kern \<Rightarrow> ('a, 'b) kern" where
  "ClearSchedulerUpdateNeeded k = k\<lparr>m_scheduler_update_needed := False\<rparr>"

definition GetState :: "'a sched_thread_scheme \<Rightarrow> u16" where
  "GetState th = m_thread_state th AND 15"

definition IncrementScheduledCount :: "nat \<Rightarrow> ('a, 'b) kern \<Rightarrow> ('a, 'b) kern" where
  "IncrementScheduledCount thread k =
     (case m_parent (threads k thread) of
        None \<Rightarrow> k
      | Some process \<Rightarrow> set_process process (\<lambda>p. p\<lparr>process_schedule_count := process_schedule_count p + 1\<rparr>) k)"

definition SetRunningThread :: "nat \<Rightarrow> nat \<Rightarrow> u64 \<Rightarrow> u64 \<Rightarrow> sched_process \<Rightarrow> sched_process" where
  "SetRunningThread core thread idle switch p =
     p\<lparr>m_running_threads := (m_running_threads p)(core := Some thread),
       m_running_thread_idle_counts := (m_running_thread_idle_counts p)(core := idle),
       m_running_thread_switch_counts := (m_running_thread_switch_counts p)(core := switch)\<rparr>"

section \<open>The highest priority threads\<close>

definition HighestCoreMigrationAllowedPriority :: int where "HighestCoreMigrationAllowedPriority = 2"

definition UpdateHighestPriorityThread :: "nat \<Rightarrow> nat option \<Rightarrow> ('a, 'b) kern \<Rightarrow> u64 \<times> ('a, 'b) kern" where
  "UpdateHighestPriorityThread core highest_thread k =
     (let s = schedulers k core
      in if highest_priority_thread s = highest_thread then (0, k)
         else
           let k1 = (case highest_priority_thread s of
                       None \<Rightarrow> k
                     | Some prev \<Rightarrow> set_thread prev (\<lambda>th. th\<lparr>m_last_scheduled_tick := clock_ticks k\<rparr>) (IncrementScheduledCount prev k));
               k2 = (if should_count_idle s
                     then case highest_thread of
                       Some h \<Rightarrow> (case m_parent (threads k1 h) of
                          None \<Rightarrow> k1
                        | Some process \<Rightarrow> set_process process (SetRunningThread core h (idle_count s) 0) k1)
                     | None \<Rightarrow> set_scheduler core (\<lambda>s. s\<lparr>idle_count := idle_count s + 1\<rparr>) k1
                     else k1)
           in (push_bit core 1,
               set_scheduler core (\<lambda>s. s\<lparr>highest_priority_thread := highest_thread, needs_scheduling := True\<rparr>) k2))"

text \<open>The thread that a core should run: a pinned thread of its process goes before the first of the queue.\<close>

definition select_top :: "nat \<Rightarrow> nat \<Rightarrow> ('a, 'b) kern \<Rightarrow> nat option" where
  "select_top core top_thread k =
     (case m_parent (threads k top_thread) of
        None \<Rightarrow> Some top_thread
      | Some parent \<Rightarrow> (case m_pinned_threads (processes k parent) core of
          None \<Rightarrow> Some top_thread
        | Some pinned \<Rightarrow>
            if pinned \<noteq> top_thread \<and> m_num_kernel_waiters (threads k top_thread) = 0
            then if m_thread_state (threads k pinned) = Runnable then Some pinned else None
            else Some top_thread))"

text \<open>
  The local state of the update: the cores that need scheduling, the top threads, and the kernel.
  \<open>set_top\<close> is the assignment to \<open>top_threads\<close> with the update that follows it.
\<close>

type_synonym ('a, 'b) update = "u64 \<times> (nat \<Rightarrow> nat option) \<times> ('a, 'b) kern"

definition set_top :: "nat \<Rightarrow> nat option \<Rightarrow> ('a, 'b) update \<Rightarrow> ('a, 'b) update" where
  "set_top core top_thread = (\<lambda>(cores, tops, k).
     let (m, k') = UpdateHighestPriorityThread core top_thread k in (cores OR m, tops(core := top_thread), k'))"

definition find_top :: "nat \<Rightarrow> u64 \<times> ('a, 'b) update \<Rightarrow> (u64 \<times> ('a, 'b) update) option" where
  "find_top core = (\<lambda>(idle_cores, cores, tops, k). do {
     top_thread \<leftarrow> GetScheduledFront (int core) (m_priority_queue k);
     Some (case top_thread of
         Some t \<Rightarrow> (idle_cores, set_top core (select_top core t k) (cores, tops, k))
       | None \<Rightarrow> (idle_cores OR push_bit core 1, set_top core None (cores, tops, k)))
   })"

section \<open>Migration\<close>

text \<open>
  The loops that walk a queue: \<open>body\<close> either ends the loop with a result or goes on with new local
  variables; the queue does not change while the loop goes on.
\<close>

partial_function (option) search ::
  "(nat \<Rightarrow> nat option option) \<Rightarrow> (nat \<Rightarrow> 's \<Rightarrow> ('r + 's) option) \<Rightarrow> nat option \<Rightarrow> 's \<Rightarrow> ('r + 's) option" where
  "search next body cur s =
     (case cur of
        None \<Rightarrow> Some (Inr s)
      | Some t \<Rightarrow> do {
          r \<leftarrow> body t s;
          case r of
            Inl x \<Rightarrow> Some (Inl x)
          | Inr s' \<Rightarrow> do {cur' \<leftarrow> next t; search next body cur' s'}
        })"

definition SetActiveCore :: "nat \<Rightarrow> int \<Rightarrow> ('a, 'b) kern \<Rightarrow> ('a, 'b) kern" where
  "SetActiveCore t core = set_thread t (\<lambda>th. th\<lparr>m_core_id := core\<rparr>)"

definition migrate :: "int \<Rightarrow> int \<Rightarrow> nat \<Rightarrow> bool \<Rightarrow> ('a, 'b) kern \<Rightarrow> ('a, 'b) kern option" where
  "migrate prev_core core t to_front k =
     (let k' = SetActiveCore t core k in with_queue (ChangeCore prev_core t to_front (threads k')) k')"

definition top_at :: "(nat \<Rightarrow> nat option) \<Rightarrow> int \<Rightarrow> nat option option" where
  "top_at tops core = (if core < 0 then Some None else if core < int NumCores then Some (tops (nat core)) else None)"

text \<open>One suggested thread of an idle core.  \<open>Inr\<close> has the cores that are candidates for migration.\<close>

definition try_suggested :: "nat \<Rightarrow> ('a, 'b) update \<Rightarrow> nat \<Rightarrow> nat list \<Rightarrow> (('a, 'b) update + nat list) option" where
  "try_suggested core = (\<lambda>(cores, tops, k) suggested candidates. do {
     let suggested_core = m_core_id (threads k suggested);
     top_thread \<leftarrow> top_at tops suggested_core;
     if top_thread \<noteq> Some suggested
     then if (case top_thread of None \<Rightarrow> False | Some t \<Rightarrow> m_priority (threads k t) < HighestCoreMigrationAllowedPriority)
          then Some (Inl (cores, tops, k))
          else do {
            k' \<leftarrow> migrate suggested_core (int core) suggested False k;
            Some (Inl (set_top core (Some suggested) (cores, tops, k')))
          }
     else if length candidates < NumCores then Some (Inr (candidates @ [nat suggested_core])) else None
   })"

fun try_candidates :: "nat \<Rightarrow> nat list \<Rightarrow> ('a, 'b) update \<Rightarrow> ('a, 'b) update option" where
  "try_candidates core [] st = Some st"
| "try_candidates core (candidate # candidates) (cores, tops, k) = do {
     top_thread \<leftarrow> top_at tops (int candidate);
     suggested \<leftarrow> top_thread;
     next_on_candidate \<leftarrow> GetScheduledNext (threads k) (int candidate) suggested (m_priority_queue k);
     case next_on_candidate of
       None \<Rightarrow> try_candidates core candidates (cores, tops, k)
     | Some next \<Rightarrow> do {
         let (cores1, tops1, k1) = set_top candidate (Some next) (cores, tops, k);
         k2 \<leftarrow> migrate (int candidate) (int core) suggested False k1;
         Some (set_top core (Some suggested) (cores1, tops1, k2))
       }
   }"

definition fill_core :: "nat \<Rightarrow> ('a, 'b) update \<Rightarrow> ('a, 'b) update option" where
  "fill_core core st = do {
     let k = snd (snd st);
     front \<leftarrow> GetSuggestedFront (int core) (m_priority_queue k);
     r \<leftarrow> search (\<lambda>t. GetSuggestedNext (threads k) (int core) t (m_priority_queue k)) (try_suggested core st) front [];
     case r of Inl st' \<Rightarrow> Some st' | Inr candidates \<Rightarrow> try_candidates core candidates st
   }"

definition WakeupWaitingDummyThreads :: "('a, 'b) kern \<Rightarrow> ('a, 'b) kern" where
  "WakeupWaitingDummyThreads k =
     (fold (\<lambda>t. set_thread t (\<lambda>th. th\<lparr>m_dummy_thread_runnable := True\<rparr>)) (m_woken_dummy_threads k) k)\<lparr>m_woken_dummy_threads := []\<rparr>"

definition UpdateHighestPriorityThreadsImpl :: "('a, 'b) kern \<Rightarrow> (u64 \<times> ('a, 'b) kern) option" where
  "UpdateHighestPriorityThreadsImpl k0 = do {
     let k1 = ClearSchedulerUpdateNeeded (assert_that (IsSchedulerLockedByCurrentThread k0) k0);
     (idle_cores, st) \<leftarrow> run_ops find_top [0..<NumCores] (0, 0, (\<lambda>_. None), k1);
     (cores, tops, k2) \<leftarrow> each_core fill_core idle_cores st;
     let k3 = WakeupWaitingDummyThreads k2;
     let cur = current_thread k3;
     Some (cores, if is_dummy (threads k3 cur) \<and> GetState (threads k3 cur) \<noteq> Runnable
                  then set_thread cur (\<lambda>th. th\<lparr>m_dummy_thread_runnable := False\<rparr>) k3 else k3)
   }"

definition UpdateHighestPriorityThreads :: "('a, 'b) kern \<Rightarrow> (u64 \<times> ('a, 'b) kern) option" where
  "UpdateHighestPriorityThreads k =
     (if m_scheduler_update_needed k then UpdateHighestPriorityThreadsImpl k else Some (0, k))"

section \<open>Changes of threads\<close>

definition ClearPreviousThread :: "nat \<Rightarrow> ('a, 'b) kern \<Rightarrow> ('a, 'b) kern" where
  "ClearPreviousThread thread k =
     fold (\<lambda>i. set_scheduler i (\<lambda>s. if prev_thread s = Some thread then s\<lparr>prev_thread := None\<rparr> else s)) [0..<NumCores]
       (assert_that (IsSchedulerLockedByCurrentThread k) k)"

definition RegisterDummyThreadForWakeup :: "nat \<Rightarrow> ('a, 'b) kern \<Rightarrow> ('a, 'b) kern" where
  "RegisterDummyThreadForWakeup thread k = k\<lparr>m_woken_dummy_threads := m_woken_dummy_threads k @ [thread]\<rparr>"

text \<open>The last element takes the place of the first occurrence.\<close>

definition UnregisterDummyThreadForWakeup :: "nat \<Rightarrow> ('a, 'b) kern \<Rightarrow> ('a, 'b) kern" where
  "UnregisterDummyThreadForWakeup thread k =
     (let ws = m_woken_dummy_threads k; n = length (takeWhile (\<lambda>w. w \<noteq> thread) ws)
      in if n < length ws then k\<lparr>m_woken_dummy_threads := butlast (ws[n := last ws])\<rparr> else k)"

definition OnThreadStateChanged :: "nat \<Rightarrow> u16 \<Rightarrow> ('a, 'b) kern \<Rightarrow> ('a, 'b) kern option" where
  "OnThreadStateChanged thread old_state k0 =
     (let k = assert_that (IsSchedulerLockedByCurrentThread k0) k0;
          cur_state = m_thread_state (threads k thread)
      in if cur_state = old_state then Some k
         else if old_state = Runnable then do {
           k1 \<leftarrow> with_queue (Remove thread (threads k)) k;
           let k2 = SetSchedulerUpdateNeeded (IncrementScheduledCount thread k1);
           Some (if is_dummy (threads k2 thread) then UnregisterDummyThreadForWakeup thread k2 else k2)
         }
         else if cur_state = Runnable then do {
           k1 \<leftarrow> with_queue (PushBack thread (threads k)) k;
           let k2 = SetSchedulerUpdateNeeded (IncrementScheduledCount thread k1);
           Some (if is_dummy (threads k2 thread) then RegisterDummyThreadForWakeup thread k2 else k2)
         }
         else Some k)"

definition OnThreadPriorityChanged :: "nat \<Rightarrow> int \<Rightarrow> ('a, 'b) kern \<Rightarrow> ('a, 'b) kern option" where
  "OnThreadPriorityChanged thread old_priority k0 =
     (let k = assert_that (IsSchedulerLockedByCurrentThread k0) k0
      in if m_thread_state (threads k thread) = Runnable then do {
           k1 \<leftarrow> with_queue (ChangePriority old_priority (thread = current_thread k) thread (threads k)) k;
           Some (SetSchedulerUpdateNeeded (IncrementScheduledCount thread k1))
         }
         else Some k)"

definition OnThreadAffinityMaskChanged :: "nat \<Rightarrow> u64 \<Rightarrow> int \<Rightarrow> ('a, 'b) kern \<Rightarrow> ('a, 'b) kern option" where
  "OnThreadAffinityMaskChanged thread old_affinity old_core k0 =
     (let k = assert_that (IsSchedulerLockedByCurrentThread k0) k0
      in if m_thread_state (threads k thread) = Runnable then do {
           k1 \<leftarrow> with_queue (ChangeAffinityMask old_core old_affinity thread (threads k)) k;
           Some (SetSchedulerUpdateNeeded (IncrementScheduledCount thread k1))
         }
         else Some k)"

section \<open>Rotation\<close>

definition may_migrate :: "nat option \<Rightarrow> ('a, 'b) kern \<Rightarrow> bool" where
  "may_migrate top_on_suggested_core k \<longleftrightarrow>
     (case top_on_suggested_core of None \<Rightarrow> True | Some t \<Rightarrow> m_priority (threads k t) \<ge> HighestCoreMigrationAllowedPriority)"

text \<open>The migration that moves a suggestion to the front of the queue of \<open>core\<close>.\<close>

definition migrate_counted :: "int \<Rightarrow> int \<Rightarrow> nat \<Rightarrow> bool \<Rightarrow> ('a, 'b) kern \<Rightarrow> ('a, 'b) kern option" where
  "migrate_counted prev_core core t to_front k = do {
     k' \<leftarrow> migrate prev_core core t to_front k;
     Some (IncrementScheduledCount t k')
   }"

definition scheduled_top :: "int \<Rightarrow> ('a, 'b) kern \<Rightarrow> nat option option" where
  "scheduled_top suggested_core k =
     (if suggested_core \<ge> 0 then GetScheduledFront suggested_core (m_priority_queue k) else Some None)"

text \<open>The suggestions of the priority itself: \<open>next_thread\<close> is preferred if it has waited longer.\<close>

definition rotate_suggested ::
  "int \<Rightarrow> nat option \<Rightarrow> nat option \<Rightarrow> ('a, 'b) kern \<Rightarrow> nat \<Rightarrow> unit \<Rightarrow> (('a, 'b) kern + unit) option" where
  "rotate_suggested core top_thread next_thread k suggested _ = do {
     let suggested_core = m_core_id (threads k suggested);
     top_on_suggested_core \<leftarrow> scheduled_top suggested_core k;
     if top_on_suggested_core \<noteq> Some suggested
     then if top_thread \<noteq> next_thread \<and> (case next_thread of None \<Rightarrow> False
               | Some n \<Rightarrow> m_last_scheduled_tick (threads k n) < m_last_scheduled_tick (threads k suggested))
          then Some (Inl k)
          else if may_migrate top_on_suggested_core k
          then map_option Inl (migrate_counted suggested_core core suggested True k)
          else Some (Inr ())
     else Some (Inr ())
   }"

text \<open>The suggestions of a higher priority than the best thread.\<close>

definition rotate_better :: "int \<Rightarrow> nat \<Rightarrow> ('a, 'b) kern \<Rightarrow> nat \<Rightarrow> unit \<Rightarrow> (('a, 'b) kern + unit) option" where
  "rotate_better core best_thread k suggested _ =
     (if m_priority (threads k suggested) \<ge> m_priority (threads k best_thread) then Some (Inl k)
      else do {
        let suggested_core = m_core_id (threads k suggested);
        top_on_suggested_core \<leftarrow> scheduled_top suggested_core k;
        if top_on_suggested_core \<noteq> Some suggested \<and> may_migrate top_on_suggested_core k
        then map_option Inl (migrate_counted suggested_core core suggested True k)
        else Some (Inr ())
      })"

text \<open>The three parts of the rotation.\<close>

definition rotate_front :: "int \<Rightarrow> int \<Rightarrow> ('a, 'b) kern \<Rightarrow> (nat option \<times> nat option \<times> ('a, 'b) kern) option" where
  "rotate_front core priority k = do {
     top_thread \<leftarrow> GetScheduledFront_at core priority (m_priority_queue k);
     case top_thread of
       None \<Rightarrow> Some (top_thread, None, k)
     | Some t \<Rightarrow> do {
         (next_thread, q) \<leftarrow> MoveToScheduledBack t (threads k) (m_priority_queue k);
         let k' = k\<lparr>m_priority_queue := q\<rparr>;
         if next_thread = top_thread then Some (top_thread, next_thread, k')
         else do {n \<leftarrow> next_thread; Some (top_thread, next_thread, IncrementScheduledCount n (IncrementScheduledCount t k'))}
       }
   }"

definition migrate_same :: "int \<Rightarrow> int \<Rightarrow> nat option \<Rightarrow> nat option \<Rightarrow> ('a, 'b) kern \<Rightarrow> ('a, 'b) kern option" where
  "migrate_same core priority top_thread next_thread k = do {
     front \<leftarrow> GetSuggestedFront_at core priority (m_priority_queue k);
     r \<leftarrow> search (\<lambda>t. GetSamePriorityNext core t (m_priority_queue k)) (rotate_suggested core top_thread next_thread k) front ();
     Some (case r of Inl k' \<Rightarrow> k' | Inr _ \<Rightarrow> k)
   }"

definition migrate_better :: "int \<Rightarrow> int \<Rightarrow> ('a, 'b) kern \<Rightarrow> ('a, 'b) kern option" where
  "migrate_better core priority k = do {
     best \<leftarrow> GetScheduledFront core (m_priority_queue k);
     best_thread \<leftarrow> (if best = Some (current_thread k) then GetScheduledNext (threads k) core (current_thread k) (m_priority_queue k) else Some best);
     case best_thread of
       None \<Rightarrow> Some k
     | Some b \<Rightarrow>
         if m_priority (threads k b) \<ge> priority then do {
           front \<leftarrow> GetSuggestedFront core (m_priority_queue k);
           r \<leftarrow> search (\<lambda>t. GetSuggestedNext (threads k) core t (m_priority_queue k)) (rotate_better core b k) front ();
           Some (case r of Inl k' \<Rightarrow> k' | Inr _ \<Rightarrow> k)
         }
         else Some k
   }"

definition RotateScheduledQueue :: "int \<Rightarrow> int \<Rightarrow> ('a, 'b) kern \<Rightarrow> ('a, 'b) kern option" where
  "RotateScheduledQueue core priority k = do {
     (top_thread, next_thread, k1) \<leftarrow> rotate_front core priority (assert_that (IsSchedulerLockedByCurrentThread k) k);
     k2 \<leftarrow> migrate_same core priority top_thread next_thread k1;
     k3 \<leftarrow> migrate_better core priority k2;
     Some (SetSchedulerUpdateNeeded k3)
   }"

definition PreemptThreads :: "('a, 'b) kern \<Rightarrow> ('a, 'b) kern option" where
  "PreemptThreads k =
     run_ops (\<lambda>(core, priority). RotateScheduledQueue core priority) [(0, 59), (1, 59), (2, 59), (3, 63)]
       (assert_that (IsSchedulerLockedByCurrentThread k) k)"

section \<open>Yields\<close>

text \<open>
  The bodies of the yields within the scheduler lock, for the current thread and its process.
\<close>

definition SetYieldScheduleCount :: "nat \<Rightarrow> nat \<Rightarrow> ('a, 'b) kern \<Rightarrow> ('a, 'b) kern" where
  "SetYieldScheduleCount thread process k =
     set_thread thread (\<lambda>th. th\<lparr>m_schedule_count := process_schedule_count (processes k process)\<rparr>) k"

definition move_to_back :: "nat \<Rightarrow> ('a, 'b) kern \<Rightarrow> (nat option \<times> ('a, 'b) kern) option" where
  "move_to_back cur k = do {
     (next_thread, q) \<leftarrow> MoveToScheduledBack cur (threads k) (m_priority_queue k);
     Some (next_thread, IncrementScheduledCount cur (k\<lparr>m_priority_queue := q\<rparr>))
   }"

definition yield_without_migration :: "nat \<Rightarrow> nat \<Rightarrow> ('a, 'b) kern \<Rightarrow> ('a, 'b) kern option" where
  "yield_without_migration cur process k =
     (if m_thread_state (threads k cur) \<noteq> Runnable then Some k
      else do {
        (next_thread, k1) \<leftarrow> move_to_back cur k;
        Some (if next_thread \<noteq> Some cur then SetSchedulerUpdateNeeded k1 else SetYieldScheduleCount cur process k1)
      })"

text \<open>\<open>Inl\<close>: the loop ends, with the suggestion kept or given up; the local variable is \<open>recheck\<close>.\<close>

definition yield_suggested ::
  "int \<Rightarrow> nat \<Rightarrow> nat option \<Rightarrow> ('a, 'b) kern \<Rightarrow> nat \<Rightarrow> bool \<Rightarrow> ((('a, 'b) kern \<times> bool \<times> bool) + bool) option" where
  "yield_suggested core cur next_thread k suggested recheck =
     (let suggested_core = m_core_id (threads k suggested)
      in if suggested_core \<ge> int NumCores then None
      else let running = (if suggested_core \<ge> 0 then highest_priority_thread (schedulers k (nat suggested_core)) else None)
      in if running = Some suggested then Some (Inr recheck)
         else do {
           prefer_next \<leftarrow> (if m_priority (threads k suggested) = m_priority (threads k cur) \<and> next_thread \<noteq> Some cur
             then map_option (\<lambda>n. m_last_scheduled_tick (threads k n) < m_last_scheduled_tick (threads k suggested)) next_thread
             else Some (m_priority (threads k suggested) > m_priority (threads k cur)));
           if prefer_next then Some (Inl (k, False, recheck))
           else if may_migrate running k
           then map_option (\<lambda>k'. Inl (k', True, recheck)) (migrate_counted suggested_core core suggested True k)
           else Some (Inr True)
         })"

definition yield_with_migration :: "nat \<Rightarrow> nat \<Rightarrow> ('a, 'b) kern \<Rightarrow> ('a, 'b) kern option" where
  "yield_with_migration cur process k =
     (if m_thread_state (threads k cur) \<noteq> Runnable then Some k
      else do {
        let core = m_core_id (threads k cur);
        (next_thread, k1) \<leftarrow> move_to_back cur k;
        front \<leftarrow> GetSuggestedFront core (m_priority_queue k1);
        r \<leftarrow> search (\<lambda>t. GetSuggestedNext (threads k1) core t (m_priority_queue k1)) (yield_suggested core cur next_thread k1) front False;
        let (k2, has_suggested, recheck) = (case r of Inl x \<Rightarrow> x | Inr recheck \<Rightarrow> (k1, False, recheck));
        Some (if has_suggested \<or> next_thread \<noteq> Some cur then SetSchedulerUpdateNeeded k2
              else if \<not> recheck then SetYieldScheduleCount cur process k2
              else k2)
      })"

definition yield_any_suggested :: "int \<Rightarrow> ('a, 'b) kern \<Rightarrow> nat \<Rightarrow> unit \<Rightarrow> ((('a, 'b) kern \<times> nat) + unit) option" where
  "yield_any_suggested core k suggested _ = do {
     let suggested_core = m_core_id (threads k suggested);
     top_on_suggested_core \<leftarrow> scheduled_top suggested_core k;
     if top_on_suggested_core \<noteq> Some suggested
     then if may_migrate top_on_suggested_core k
          then map_option (\<lambda>k'. Inl (k', suggested)) (migrate_counted suggested_core core suggested False k)
          else Some (Inl (k, suggested))
     else Some (Inr ())
   }"

definition yield_to_any :: "nat \<Rightarrow> nat \<Rightarrow> ('a, 'b) kern \<Rightarrow> ('a, 'b) kern option" where
  "yield_to_any cur process k =
     (if m_thread_state (threads k cur) \<noteq> Runnable then Some k
      else do {
        let core = m_core_id (threads k cur);
        k1 \<leftarrow> migrate_counted core (- 1) cur False k;
        front \<leftarrow> GetScheduledFront core (m_priority_queue k1);
        if front = None then do {
          first_suggested \<leftarrow> GetSuggestedFront core (m_priority_queue k1);
          r \<leftarrow> search (\<lambda>t. GetSuggestedNext (threads k1) core t (m_priority_queue k1)) (yield_any_suggested core k1) first_suggested ();
          let (k2, suggested) = (case r of Inl (k', t) \<Rightarrow> (k', Some t) | Inr _ \<Rightarrow> (k1, None));
          Some (if suggested \<noteq> Some cur then SetSchedulerUpdateNeeded k2 else SetYieldScheduleCount cur process k2)
        }
        else Some (SetSchedulerUpdateNeeded k1)
      })"

section \<open>The scheduler lock\<close>

definition DisableScheduling :: "('a, 'b) kern \<Rightarrow> ('a, 'b) kern" where
  "DisableScheduling k =
     set_thread (current_thread k) (\<lambda>th. th\<lparr>disable_count := disable_count th + 1\<rparr>)
       (assert_that (disable_count (threads k (current_thread k)) \<ge> 0) k)"

definition EnableDispatch :: "('a, 'b) kern \<Rightarrow> ('a, 'b) kern" where
  "EnableDispatch k =
     set_thread (current_thread k) (\<lambda>th. th\<lparr>disable_count := disable_count th - 1\<rparr>)
       (assert_that (disable_count (threads k (current_thread k)) > 0) k)"

definition RescheduleCores :: "u64 \<Rightarrow> ('a, 'b) kern \<Rightarrow> ('a, 'b) kern" where
  "RescheduleCores core_mask k =
     k\<lparr>interrupted := interrupted k \<union> {i. i < NumCores \<and> core_mask AND push_bit i 1 \<noteq> 0}\<rparr>"

definition RescheduleOtherCores :: "nat \<Rightarrow> u64 \<Rightarrow> ('a, 'b) kern \<Rightarrow> ('a, 'b) kern" where
  "RescheduleOtherCores core cores k =
     (let core_mask = cores AND NOT (push_bit core 1) in if core_mask \<noteq> 0 then RescheduleCores core_mask k else k)"

text \<open>
  \<open>ScheduleImpl\<close> up to the switch to the fiber of the core.  The flag says whether it returns, so that the
  caller goes on, or has switched.
\<close>

definition ScheduleImpl :: "nat \<Rightarrow> ('a, 'b) kern \<Rightarrow> bool \<times> ('a, 'b) kern" where
  "ScheduleImpl core k =
     (let k1 = set_scheduler core (\<lambda>s. s\<lparr>needs_scheduling := False\<rparr>) k;
          s = schedulers k1 core;
          cur = current_thread k1;
          highest = (if interrupt_task_runnable s then None else highest_priority_thread s)
      in if highest = Some cur then (True, k1)
         else (False, set_scheduler core (\<lambda>s. s\<lparr>m_switch_cur_thread := Some cur, m_switch_highest_priority_thread := highest,
                 m_switch_from_schedule := True\<rparr>) k1))"

definition RescheduleCurrentCore :: "nat \<Rightarrow> ('a, 'b) kern \<Rightarrow> bool \<times> ('a, 'b) kern" where
  "RescheduleCurrentCore core k =
     (let k1 = EnableDispatch (assert_that (on_core_thread k \<and> disable_count (threads k (current_thread k)) = 1) k)
      in if needs_scheduling (schedulers k1 core)
         then let k2 = DisableScheduling k1;
                  (returns, k3) = ScheduleImpl core
                    (assert_that (disable_count (threads k2 (current_thread k2)) = 1 \<and> core = current_core k2) k2)
              in (returns, if returns then EnableDispatch k3 else k3)
         else (True, k1))"

text \<open>
  \<open>on_core_thread\<close>: the calling host thread runs a core, and not in the phantom mode.  Any other caller is a dummy
  thread, which blocks in \<open>DummyThreadBeginWait\<close> until it is runnable; blocking of the host thread is not modelled,
  and the assertion on its state is evaluated at once.
\<close>

definition EnableScheduling :: "u64 \<Rightarrow> ('a, 'b) kern \<Rightarrow> bool \<times> ('a, 'b) kern" where
  "EnableScheduling cores k0 =
     (let k = assert_that (disable_count (threads k0 (current_thread k0)) \<ge> 1) k0
      in if \<not> on_core_thread k
         then let k1 = RescheduleCores cores k;
                  k2 = assert_that (disable_count (threads k1 (current_thread k1)) = 1 \<and>
                         GetState (threads k1 (current_thread k1)) \<noteq> Waiting) k1
              in (True, EnableDispatch k2)
         else let k1 = RescheduleOtherCores (current_core k) cores k
              in if disable_count (threads k1 (current_thread k1)) > 1 then (True, EnableDispatch k1)
                 else RescheduleCurrentCore (current_core k1) k1)"

text \<open>\<open>Lock\<close> once the spin lock is free, that is, unless another thread has it.\<close>

definition Lock :: "('a, 'b) kern \<Rightarrow> ('a, 'b) kern" where
  "Lock k =
     (let k1 = (if IsSchedulerLockedByCurrentThread k then assert_that (m_lock_count k > 0) k
                else let k' = assert_that (m_lock_count k = 0 \<and> m_owner_thread k = None) (DisableScheduling k)
                     in k'\<lparr>m_owner_thread := Some (current_thread k')\<rparr>)
      in k1\<lparr>m_lock_count := m_lock_count k1 + 1\<rparr>)"

definition Unlock :: "('a, 'b) kern \<Rightarrow> (bool \<times> ('a, 'b) kern) option" where
  "Unlock k0 =
     (let k = assert_that (IsSchedulerLockedByCurrentThread k0 \<and> m_lock_count k0 > 0) k0;
          k1 = k\<lparr>m_lock_count := m_lock_count k - 1\<rparr>
      in if m_lock_count k1 = 0 then do {
           (cores, k2) \<leftarrow> UpdateHighestPriorityThreads k1;
           Some (EnableScheduling cores (k2\<lparr>m_owner_thread := None\<rparr>))
         }
         else Some (True, k1))"

definition with_scheduler_lock :: "(('a, 'b) kern \<Rightarrow> ('a, 'b) kern option) \<Rightarrow> ('a, 'b) kern \<Rightarrow> (bool \<times> ('a, 'b) kern) option" where
  "with_scheduler_lock body k = do {k' \<leftarrow> body (Lock k); Unlock k'}"

text \<open>The yields: each checks the count of the process first.\<close>

definition yield_with ::
  "(nat \<Rightarrow> nat \<Rightarrow> ('a, 'b) kern \<Rightarrow> ('a, 'b) kern option) \<Rightarrow> ('a, 'b) kern \<Rightarrow> (bool \<times> ('a, 'b) kern) option" where
  "yield_with body k0 = do {
     let cur = current_thread k0;
     let k = assert_that (disable_count (threads k0 cur) = 0 \<and> m_parent (threads k0 cur) \<noteq> None) k0;
     process \<leftarrow> m_parent (threads k cur);
     if m_schedule_count (threads k cur) = process_schedule_count (processes k process) then Some (True, k)
     else with_scheduler_lock (body cur process) k
   }"

definition YieldWithoutCoreMigration :: "('a, 'b) kern \<Rightarrow> (bool \<times> ('a, 'b) kern) option" where
  "YieldWithoutCoreMigration = yield_with yield_without_migration"

definition YieldWithCoreMigration :: "('a, 'b) kern \<Rightarrow> (bool \<times> ('a, 'b) kern) option" where
  "YieldWithCoreMigration = yield_with yield_with_migration"

definition YieldToAnyThread :: "('a, 'b) kern \<Rightarrow> (bool \<times> ('a, 'b) kern) option" where
  "YieldToAnyThread = yield_with yield_to_any"

section \<open>Walking a queue\<close>

primrec scan :: "(nat \<Rightarrow> 's \<Rightarrow> ('r + 's) option) \<Rightarrow> nat list \<Rightarrow> 's \<Rightarrow> ('r + 's) option" where
  "scan body [] s = Some (Inr s)"
| "scan body (t # ts) s = do {
     r \<leftarrow> body t s;
     case r of Inl x \<Rightarrow> Some (Inl x) | Inr s' \<Rightarrow> scan body ts s'
   }"

lemma search_scan:
  assumes "distinct xs" "\<And>t. t \<in> set xs \<Longrightarrow> next t = Some (after t xs)"
  shows "search next body (first xs) s = scan body xs s"
proof -
  have "search next body (first ys) s = scan body ys s" if "xs = pre @ ys" for pre ys
    using that
  proof (induction ys arbitrary: pre s)
    case Nil
    show ?case by (simp add: search.simps)
  next
    case (Cons y ys)
    have "y \<notin> set pre" using Cons.prems assms(1) by auto
    then have "next y = Some (first ys)" using assms(2) [of y] Cons.prems after_split [of y pre ys] by simp
    then show ?case using Cons.IH [of "pre @ [y]"] Cons.prems by (subst search.simps) (cases "body y s"; auto split: sum.splits)
  qed
  from this [of "[]"] show ?thesis by simp
qed

text \<open>The loop keeps \<open>I\<close>, which may speak of the threads passed so far, and its result satisfies \<open>Q\<close>.\<close>

lemma scan_rule:
  assumes "I [] s"
    and "\<And>ys t zs s. xs = ys @ t # zs \<Longrightarrow> I ys s \<Longrightarrow> \<exists>r. body t s = Some r \<and> (case r of Inl x \<Rightarrow> Q x | Inr s' \<Rightarrow> I (ys @ [t]) s')"
  shows "\<exists>r. scan body xs s = Some r \<and> (case r of Inl x \<Rightarrow> Q x | Inr s' \<Rightarrow> I xs s')"
proof -
  have "\<exists>r. scan body zs s = Some r \<and> (case r of Inl x \<Rightarrow> Q x | Inr s' \<Rightarrow> I xs s')" if "xs = ys @ zs" "I ys s" for ys zs s
    using that
  proof (induction zs arbitrary: ys s)
    case (Cons t zs)
    obtain r where r: "body t s = Some r" "case r of Inl x \<Rightarrow> Q x | Inr s' \<Rightarrow> I (ys @ [t]) s'" using assms(2) Cons.prems by blast
    then show ?case using Cons.IH [of "ys @ [t]"] Cons.prems(1) by (cases r) auto
  qed simp
  from this [of "[]" xs s] assms(1) show ?thesis by simp
qed

section \<open>What the operations leave alone\<close>

text \<open>
  \<open>fixed_of\<close> and \<open>thread_fixed\<close> have what no choice of threads changes; the core of a thread changes with
  a migration.
\<close>

definition thread_fixed :: "'a sched_thread_scheme \<Rightarrow> int \<times> u64 \<times> bool \<times> u16 \<times> nat option \<times> int \<times> int \<times> 'a" where
  "thread_fixed th = (m_priority th, m_affinity_mask th, is_dummy th, m_thread_state th, m_parent th, m_num_kernel_waiters th,
     disable_count th, sched_thread.more th)"

definition fixed_of :: "('a, 'b) kern \<Rightarrow> nat option \<times> int \<times> nat \<times> nat \<times> bool \<times> int \<times> nat set \<times> bool \<times> 'b" where
  "fixed_of k = (m_owner_thread k, m_lock_count k, current_thread k, current_core k, on_core_thread k, clock_ticks k, interrupted k,
     asserted k, kernel.more k)"

definition keeps :: "('a, 'b) kern \<Rightarrow> ('a, 'b) kern \<Rightarrow> bool" where
  "keeps k k' \<longleftrightarrow> fixed_of k' = fixed_of k \<and> (\<forall>t. thread_fixed (threads k' t) = thread_fixed (threads k t)) \<and>
     (\<forall>p. m_pinned_threads (processes k' p) = m_pinned_threads (processes k p)) \<and>
     (\<forall>c. interrupt_task_runnable (schedulers k' c) = interrupt_task_runnable (schedulers k c)) \<and>
     (pq_asserted (m_priority_queue k') \<longleftrightarrow> pq_asserted (m_priority_queue k))"

definition stays :: "('a, 'b) kern \<Rightarrow> ('a, 'b) kern \<Rightarrow> bool" where
  "stays k k' \<longleftrightarrow> keeps k k' \<and> m_priority_queue k' = m_priority_queue k \<and> (\<forall>t. m_core_id (threads k' t) = m_core_id (threads k t))"

lemma keeps_refl [simp]: "keeps k k" "stays k k"
  by (simp_all add: keeps_def stays_def)

lemma keeps_trans: "keeps k k' \<Longrightarrow> keeps k' k'' \<Longrightarrow> keeps k k''" and stays_trans: "stays k k' \<Longrightarrow> stays k' k'' \<Longrightarrow> stays k k''"
  by (simp_all add: keeps_def stays_def)

lemma stays_keeps: "stays k k' \<Longrightarrow> keeps k k'"
  by (simp add: stays_def)

lemma keepsD:
  assumes "keeps k k'"
  shows "m_priority (threads k' t) = m_priority (threads k t)" "m_affinity_mask (threads k' t) = m_affinity_mask (threads k t)"
    "is_dummy (threads k' t) = is_dummy (threads k t)" "m_thread_state (threads k' t) = m_thread_state (threads k t)"
    "m_parent (threads k' t) = m_parent (threads k t)" "disable_count (threads k' t) = disable_count (threads k t)"
    "m_num_kernel_waiters (threads k' t) = m_num_kernel_waiters (threads k t)"
    "sched_thread.more (threads k' t) = sched_thread.more (threads k t)"
    "current_thread k' = current_thread k" "m_owner_thread k' = m_owner_thread k" "m_lock_count k' = m_lock_count k"
    "on_core_thread k' = on_core_thread k" "current_core k' = current_core k" "interrupted k' = interrupted k"
    "asserted k' = asserted k" "kernel.more k' = kernel.more k"
    "m_pinned_threads (processes k' p) = m_pinned_threads (processes k p)"
    "interrupt_task_runnable (schedulers k' c) = interrupt_task_runnable (schedulers k c)"
    "pq_asserted (m_priority_queue k') = pq_asserted (m_priority_queue k)"
proof -
  have "fixed_of k' = fixed_of k" "thread_fixed (threads k' t) = thread_fixed (threads k t)" using assms by (simp_all add: keeps_def)
  then show "m_priority (threads k' t) = m_priority (threads k t)" "m_affinity_mask (threads k' t) = m_affinity_mask (threads k t)"
    "is_dummy (threads k' t) = is_dummy (threads k t)" "m_thread_state (threads k' t) = m_thread_state (threads k t)"
    "m_parent (threads k' t) = m_parent (threads k t)" "disable_count (threads k' t) = disable_count (threads k t)"
    "m_num_kernel_waiters (threads k' t) = m_num_kernel_waiters (threads k t)"
    "sched_thread.more (threads k' t) = sched_thread.more (threads k t)"
    "current_thread k' = current_thread k" "m_owner_thread k' = m_owner_thread k" "m_lock_count k' = m_lock_count k"
    "on_core_thread k' = on_core_thread k" "current_core k' = current_core k" "interrupted k' = interrupted k"
    "asserted k' = asserted k" "kernel.more k' = kernel.more k"
    by (simp_all add: fixed_of_def thread_fixed_def)
qed (use assms in \<open>simp_all add: keeps_def\<close>)

definition runnable :: "('a, 'b) kern \<Rightarrow> nat set" where
  "runnable k = {t. m_thread_state (threads k t) = Runnable \<and> \<not> is_dummy (threads k t)}"

text \<open>The run queues hold exactly the runnable threads.\<close>

definition runs :: "('a, 'b) kern \<Rightarrow> contents \<Rightarrow> bool" where
  "runs k C \<longleftrightarrow> pq_inv (m_priority_queue k) (threads k) (runnable k) C"

lemma keeps_runnable: "keeps k k' \<Longrightarrow> runnable k' = runnable k"
  unfolding runnable_def by (simp add: keepsD [of k k'])

lemma pq_inv_cong:
  assumes "\<And>t. t \<in> E \<Longrightarrow> m_priority (ts' t) = m_priority (ts t) \<and> m_core_id (ts' t) = m_core_id (ts t) \<and>
    m_affinity_mask (ts' t) = m_affinity_mask (ts t) \<and> is_dummy (ts' t) = is_dummy (ts t)"
  shows "pq_inv q ts' E C \<longleftrightarrow> pq_inv q ts E C"
proof -
  have "valid_thread (ts' t) = valid_thread (ts t)" "place (ts' t) c = place (ts t) c" "m_priority (ts' t) = m_priority (ts t)"
    if "t \<in> E" for t c using assms [OF that] by (simp_all add: valid_thread_def place_def)
  then have "queued ts' E C \<longleftrightarrow> queued ts E C" unfolding queued_def by (simp cong: conj_cong)
  then show ?thesis by (simp add: pq_inv_def)
qed

lemma stays_runs: "stays k k' \<Longrightarrow> runs k C \<Longrightarrow> runs k' C"
  unfolding runs_def using keeps_runnable [of k k'] keepsD(1-3) [of k k'] pq_inv_cong [of "runnable k" "threads k'" "threads k"]
  by (simp add: stays_def)

lemma staysI:
  assumes "fixed_of k' = fixed_of k" "\<And>t. thread_fixed (threads k' t) = thread_fixed (threads k t)"
    and "\<And>p. m_pinned_threads (processes k' p) = m_pinned_threads (processes k p)"
    and "\<And>c. interrupt_task_runnable (schedulers k' c) = interrupt_task_runnable (schedulers k c)"
    and "m_priority_queue k' = m_priority_queue k" "\<And>t. m_core_id (threads k' t) = m_core_id (threads k t)"
  shows "stays k k'"
  using assms by (simp add: stays_def keeps_def)

lemma assert_that_True [simp]: "a \<Longrightarrow> assert_that a k = k"
  by (simp add: assert_that_def)

lemma stays_simple [simp]:
  "stays k (SetSchedulerUpdateNeeded k)" "stays k (ClearSchedulerUpdateNeeded k)" "stays k (IncrementScheduledCount t k)"
  "stays k (SetYieldScheduleCount t p k)" "stays k (set_thread t (\<lambda>th. th\<lparr>m_last_scheduled_tick := v\<rparr>) k)"
  "stays k (set_process p (SetRunningThread c t i w) k)" "stays k (set_scheduler c (\<lambda>s. s\<lparr>idle_count := idle_count s + 1\<rparr>) k)"
  "stays k (set_scheduler c (\<lambda>s. s\<lparr>highest_priority_thread := h, needs_scheduling := True\<rparr>) k)"
  by (auto intro!: staysI simp: SetSchedulerUpdateNeeded_def ClearSchedulerUpdateNeeded_def IncrementScheduledCount_def SetYieldScheduleCount_def
      SetRunningThread_def fixed_of_def thread_fixed_def set_process_def set_thread_def set_scheduler_def split: option.splits if_splits)

lemma simple_schedulers [simp]:
  "schedulers (SetSchedulerUpdateNeeded k) = schedulers k" "schedulers (ClearSchedulerUpdateNeeded k) = schedulers k"
  "schedulers (IncrementScheduledCount t k) = schedulers k" "schedulers (SetYieldScheduleCount t p k) = schedulers k"
  "schedulers (set_thread t f k) = schedulers k" "schedulers (set_process p g k) = schedulers k"
  "schedulers (set_scheduler c h k) = (schedulers k)(c := h (schedulers k c))"
  by (auto simp: SetSchedulerUpdateNeeded_def ClearSchedulerUpdateNeeded_def IncrementScheduledCount_def SetYieldScheduleCount_def
      set_process_def set_thread_def set_scheduler_def split: option.splits)

lemma UpdateHighestPriorityThread_effect:
  assumes "UpdateHighestPriorityThread c h k = (m, k')"
  shows "stays k k'" "m = (if highest_priority_thread (schedulers k c) = h then 0 else push_bit c 1)"
    "highest_priority_thread (schedulers k' d) = (if d = c then h else highest_priority_thread (schedulers k d))"
    "needs_scheduling (schedulers k' d) \<longleftrightarrow> needs_scheduling (schedulers k d) \<or> d = c \<and> highest_priority_thread (schedulers k c) \<noteq> h"
proof -
  define k1 where "k1 = (case highest_priority_thread (schedulers k c) of None \<Rightarrow> k
    | Some prev \<Rightarrow> set_thread prev (\<lambda>th. th\<lparr>m_last_scheduled_tick := clock_ticks k\<rparr>) (IncrementScheduledCount prev k))"
  define k2 where "k2 = (if should_count_idle (schedulers k c) then case h of
      Some t \<Rightarrow> (case m_parent (threads k1 t) of None \<Rightarrow> k1
        | Some p \<Rightarrow> set_process p (SetRunningThread c t (idle_count (schedulers k c)) 0) k1)
    | None \<Rightarrow> set_scheduler c (\<lambda>s. s\<lparr>idle_count := idle_count s + 1\<rparr>) k1 else k1)"
  have e: "(m, k') = (if highest_priority_thread (schedulers k c) = h then (0, k) else
     (push_bit c 1, set_scheduler c (\<lambda>s. s\<lparr>highest_priority_thread := h, needs_scheduling := True\<rparr>) k2))"
    by (simp only: assms [symmetric] UpdateHighestPriorityThread_def Let_def k1_def k2_def)
  have s1: "stays k k1" "schedulers k1 = schedulers k" unfolding k1_def by (auto split: option.split intro: stays_trans [OF stays_simple(3) stays_simple(5)])
  have s2: "stays k1 k2" "highest_priority_thread (schedulers k2 d) = highest_priority_thread (schedulers k1 d)"
    "needs_scheduling (schedulers k2 d) = needs_scheduling (schedulers k1 d)" for d unfolding k2_def by (auto split: option.split)
  show "m = (if highest_priority_thread (schedulers k c) = h then 0 else push_bit c 1)" using e by (auto split: if_splits)
  show "stays k k'" using e stays_trans [OF stays_trans [OF s1(1) s2(1)] stays_simple(8)] by (auto split: if_splits)
  show "highest_priority_thread (schedulers k' d) = (if d = c then h else highest_priority_thread (schedulers k d))"
    "needs_scheduling (schedulers k' d) \<longleftrightarrow> needs_scheduling (schedulers k d) \<or> d = c \<and> highest_priority_thread (schedulers k c) \<noteq> h"
    using e s1(2) s2(2,3) by (auto split: if_splits)
qed

section \<open>Updates\<close>

text \<open>
  What an update has done so far, since \<open>k0\<close>: the cores whose choice has changed are marked, and need
  scheduling.
\<close>

definition tracked :: "('a, 'b) kern \<Rightarrow> ('a, 'b) update \<Rightarrow> bool" where
  "tracked k0 = (\<lambda>(cores, tops, k). keeps k0 k \<and>
     (\<forall>c. highest_priority_thread (schedulers k c) \<noteq> highest_priority_thread (schedulers k0 c) \<longrightarrow> bit cores c) \<and>
     (\<forall>c. bit cores c \<longrightarrow> c < NumCores \<and> needs_scheduling (schedulers k c)) \<and>
     (\<forall>c. needs_scheduling (schedulers k0 c) \<longrightarrow> needs_scheduling (schedulers k c)))"

definition agreed :: "nat \<Rightarrow> ('a, 'b) update \<Rightarrow> bool" where
  "agreed n = (\<lambda>(cores, tops, k). \<forall>c<n. highest_priority_thread (schedulers k c) = tops c)"

lemma set_top_effect:
  assumes "tracked k0 (cores, tops, k)" "c < NumCores" "set_top c t (cores, tops, k) = (cores', tops', k')"
  shows "tracked k0 (cores', tops', k')" "tops' = tops(c := t)" "stays k k'"
    "highest_priority_thread (schedulers k' d) = (if d = c then t else highest_priority_thread (schedulers k d))"
proof -
  obtain m where m: "UpdateHighestPriorityThread c t k = (m, k')" and o: "cores' = cores OR m" "tops' = tops(c := t)"
    using assms(3) by (auto simp: set_top_def split: prod.splits)
  note u = UpdateHighestPriorityThread_effect [OF m]
  have "bit m d \<longleftrightarrow> highest_priority_thread (schedulers k c) \<noteq> t \<and> d = c" for d
    using u(2) assms(2) by (auto simp: bit_exp_iff NumCores_def)
  then have b: "bit cores' d \<longleftrightarrow> bit cores d \<or> highest_priority_thread (schedulers k c) \<noteq> t \<and> d = c" for d using o(1) by (simp add: bit_or_iff)
  show "tops' = tops(c := t)" "stays k k'" by (fact o(2), fact u(1))
  show h: "highest_priority_thread (schedulers k' d) = (if d = c then t else highest_priority_thread (schedulers k d))" for d by (fact u(3))
  have "keeps k0 k'" using assms(1) u(1) by (auto simp: tracked_def stays_def intro: keeps_trans)
  then show "tracked k0 (cores', tops', k')" using assms(1,2) b h u(4) by (auto simp: tracked_def)
qed

lemma select_top_keeps: "keeps k k' \<Longrightarrow> select_top c t k' = select_top c t k"
  unfolding select_top_def by (simp add: keepsD [of k k'] split: option.split)

text \<open>The choice for a core, before any migration.\<close>

definition chosen :: "('a, 'b) kern \<Rightarrow> contents \<Rightarrow> nat \<Rightarrow> nat option" where
  "chosen k C c = (case first (run_queue C Scheduled c) of None \<Rightarrow> None | Some t \<Rightarrow> select_top c t k)"

lemma find_tops:
  assumes "runs k0 C" "n \<le> NumCores"
  shows "\<exists>idle cores tops k. run_ops find_top [0..<n] (0, 0, (\<lambda>_. None), k0) = Some (idle, cores, tops, k) \<and>
    tracked k0 (cores, tops, k) \<and> agreed n (cores, tops, k) \<and> stays k0 k \<and>
    (\<forall>c. bit idle c \<longleftrightarrow> c < n \<and> run_queue C Scheduled c = []) \<and> (\<forall>c<n. tops c = chosen k0 C c)"
  using assms(2)
proof (induction n)
  case 0
  show ?case by (simp add: tracked_def agreed_def)
next
  case (Suc n)
  then obtain idle cores tops k where r: "run_ops find_top [0..<n] (0, 0, (\<lambda>_. None), k0) = Some (idle, cores, tops, k)"
    and t: "tracked k0 (cores, tops, k)" "agreed n (cores, tops, k)" "stays k0 k"
    and i: "\<And>c. bit idle c \<longleftrightarrow> c < n \<and> run_queue C Scheduled c = []" and c: "\<And>c. c < n \<Longrightarrow> tops c = chosen k0 C c" by auto
  have n: "n < NumCores" using Suc.prems by simp
  have f: "GetScheduledFront (int n) (m_priority_queue k) = Some (first (run_queue C Scheduled n))"
    using stays_runs [OF t(3) assms(1)] pq_front(1) n by (auto simp: runs_def)
  obtain cores' tops' k' where s: "set_top n (chosen k0 C n) (cores, tops, k) = (cores', tops', k')" by (cases "set_top n (chosen k0 C n) (cores, tops, k)") auto
  note st = set_top_effect [OF t(1) n s]
  have "stays k0 k'" using stays_trans [OF t(3) st(3)] .
  define idle' where "idle' = (if run_queue C Scheduled n = [] then idle OR push_bit n 1 else idle)"
  have "find_top n (idle, cores, tops, k) = Some (idle', cores', tops', k')"
    using f s select_top_keeps [OF stays_keeps [OF t(3)]]
    by (cases "run_queue C Scheduled n") (auto simp: find_top_def chosen_def idle'_def)
  then have "run_ops find_top [0..<Suc n] (0, 0, (\<lambda>_. None), k0) = Some (idle', cores', tops', k')" using r by (simp add: run_ops_append)
  moreover have "agreed (Suc n) (cores', tops', k')" using t(2) st(2,4) by (auto simp: agreed_def less_Suc_eq)
  moreover have "bit idle' c \<longleftrightarrow> c < Suc n \<and> run_queue C Scheduled c = []" for c
    using i [of c] n by (cases "c = n") (auto simp: idle'_def bit_or_iff bit_exp_iff NumCores_def)
  moreover have "tops' c = chosen k0 C c" if "c < Suc n" for c using that st(2) c by (auto simp: less_Suc_eq)
  ultimately show ?case using st(1) \<open>stays k0 k'\<close> by blast
qed

section \<open>Migration\<close>

lemma migrate_to:
  assumes "runs k C" "t \<in> runnable k" "valid_thread ((threads k t)\<lparr>m_core_id := c\<rparr>)" "m_core_id (threads k t) \<noteq> c"
  obtains k' where "migrate (m_core_id (threads k t)) c t front k = Some k'" "keeps k k'" "schedulers k' = schedulers k"
    "threads k' = (threads k)(t := (threads k t)\<lparr>m_core_id := c\<rparr>)"
    "runs k' (rehome (m_core_id (threads k t)) front (threads k' t) t C)"
proof -
  define ts where "ts = (threads k)(t := (threads k t)\<lparr>m_core_id := c\<rparr>)"
  obtain q where q: "ChangeCore (m_core_id (threads k t)) t front ts (m_priority_queue k) = Some q"
    "pq_inv q ts (runnable k) (rehome (m_core_id (threads k t)) front (ts t) t C)" "pq_asserted q = pq_asserted (m_priority_queue k)"
    using ChangeCore_inv [OF assms(1) [unfolded runs_def] assms(2,3) ts_def] assms(4) by auto
  define k' where "k' = k\<lparr>threads := ts, m_priority_queue := q\<rparr>"
  have m: "migrate (m_core_id (threads k t)) c t front k = Some k'"
    using q(1) by (simp add: migrate_def SetActiveCore_def set_thread_def with_queue_def k'_def ts_def [symmetric] Let_def)
  moreover have kp: "keeps k k'" using q(3) by (auto simp: keeps_def k'_def fixed_of_def thread_fixed_def ts_def)
  moreover have "runs k' (rehome (m_core_id (threads k t)) front (threads k' t) t C)"
    using q(2) keeps_runnable [OF kp] by (simp add: runs_def k'_def)
  ultimately show ?thesis using that by (simp add: k'_def ts_def)
qed

lemma runnable_valid: "runs k C \<Longrightarrow> t \<in> runnable k \<Longrightarrow> valid_thread (threads k t)"
  by (auto simp: runs_def pq_inv_def dest: queued_valid)

lemma migrate_moves:
  assumes "runs k C" "t \<in> runnable k" "bit (m_affinity_mask (threads k t)) c" "m_core_id (threads k t) \<noteq> int c"
  obtains k' where "migrate (m_core_id (threads k t)) (int c) t front k = Some k'" "keeps k k'" "schedulers k' = schedulers k"
    "threads k' = (threads k)(t := (threads k t)\<lparr>m_core_id := int c\<rparr>)"
    "runs k' (rehome (m_core_id (threads k t)) front (threads k' t) t C)"
proof -
  have v: "valid_thread ((threads k t)\<lparr>m_core_id := int c\<rparr>)" using runnable_valid [OF assms(1,2)] assms(3) by (auto simp: valid_thread_def)
  show ?thesis by (rule migrate_to [OF assms(1,2) v assms(4)]) (fact that)
qed

lemma first_remove1: "first xs \<noteq> Some t \<Longrightarrow> first (remove1 t xs) = first xs"
  by (cases xs) auto

lemma first_removed: "first xs = Some t \<Longrightarrow> first (remove1 t xs) = after t xs"
  by (cases xs) (auto simp: after_def)

text \<open>Without pinned threads the choice is the first thread of each core.\<close>

definition exact :: "(nat \<Rightarrow> nat option) \<Rightarrow> contents \<Rightarrow> bool" where
  "exact tops C \<longleftrightarrow> (\<forall>c<NumCores. tops c = first (run_queue C Scheduled c))"

lemma rehomed_queues:
  assumes "runs k C" "t \<in> runnable k" "d < NumCores" "m_core_id (threads k t) \<noteq> int core" "m_core_id th = int core"
    and "m_priority th = m_priority (threads k t)"
    and "C' = rehome (m_core_id (threads k t)) front th t C"
  shows "d \<noteq> core \<Longrightarrow> run_queue C' Scheduled d = (if m_core_id (threads k t) = int d then remove1 t (run_queue C Scheduled d) else run_queue C Scheduled d)"
    "run_queue C Scheduled core = [] \<Longrightarrow> run_queue C' Scheduled core = [t]"
proof -
  have i: "pq_inv (m_priority_queue k) (threads k) (runnable k) C" using assms(1) by (simp add: runs_def)
  have "valid_thread (threads k t)" using i assms(2) by (auto simp: pq_inv_def dest: queued_valid)
  then obtain p where p: "p < NumPriority" "m_priority (threads k t) = int p" using valid_priority by blast
  show "d \<noteq> core \<Longrightarrow> run_queue C' Scheduled d = (if m_core_id (threads k t) = int d then remove1 t (run_queue C Scheduled d) else run_queue C Scheduled d)"
    unfolding assms(7) using run_queue_other [of d _ th front t C] run_queue_left [OF i assms(3) _ assms(2,6), of front] assms(5) by auto
  show "run_queue C Scheduled core = [] \<Longrightarrow> run_queue C' Scheduled core = [t]"
    unfolding assms(7) using run_queue_entered [OF _ assms(5,4) _ p(1)] p(2) assms(6) by simp
qed

text \<open>
  An idle core gets no thread only if a suggestion waits behind a thread of the highest priorities, or
  every suggested thread runs on its own core with nothing after it.
\<close>

definition urgent :: "('a, 'b) kern \<Rightarrow> nat option \<Rightarrow> bool" where
  "urgent k top_thread \<longleftrightarrow> (\<exists>u. top_thread = Some u \<and> m_priority (threads k u) < HighestCoreMigrationAllowedPriority)"

definition alone :: "('a, 'b) kern \<Rightarrow> (nat \<Rightarrow> nat option) \<Rightarrow> contents \<Rightarrow> nat \<Rightarrow> bool" where
  "alone k tops C t \<longleftrightarrow> (\<exists>d<NumCores. m_core_id (threads k t) = int d \<and> tops d = Some t \<and> after t (run_queue C Scheduled d) = None)"

definition unfillable :: "nat \<Rightarrow> (nat \<Rightarrow> nat option) \<Rightarrow> ('a, 'b) kern \<Rightarrow> contents \<Rightarrow> bool" where
  "unfillable core tops k C \<longleftrightarrow>
     (\<exists>t\<in>set (run_queue C Suggested core). \<exists>d<NumCores. m_core_id (threads k t) = int d \<and> tops d \<noteq> Some t \<and> urgent k (tops d)) \<or>
     (\<forall>t\<in>set (run_queue C Suggested core). alone k tops C t)"

definition filled :: "('a, 'b) kern \<Rightarrow> nat \<Rightarrow> contents \<Rightarrow> ('a, 'b) update \<Rightarrow> contents \<Rightarrow> ('a, 'b) update \<Rightarrow> bool" where
  "filled k0 core C = (\<lambda>(cores, tops, k) C' (cores', tops', k').
     tracked k0 (cores', tops', k') \<and> agreed NumCores (cores', tops', k') \<and> runs k' C' \<and>
     (exact tops C \<longrightarrow> run_queue C Scheduled core = [] \<longrightarrow> exact tops' C') \<and>
     (\<forall>c<NumCores. c \<noteq> core \<longrightarrow> run_queue C Scheduled c = [] \<longrightarrow> run_queue C' Scheduled c = []) \<and>
     (\<forall>c. tops c \<noteq> None \<longrightarrow> tops' c \<noteq> None) \<and>
     (tops' core = None \<longrightarrow> k' = k \<and> tops' = tops \<and> unfillable core tops k C))"

lemma runs_pq: "runs k C \<Longrightarrow> pq_inv (m_priority_queue k) (threads k) (runnable k) C"
  by (simp add: runs_def)

lemma suggested_search:
  assumes "runs k C" "core < NumCores"
  shows "search (\<lambda>t. GetSuggestedNext (threads k) (int core) t (m_priority_queue k)) body (first (run_queue C Suggested core)) s =
    scan body (run_queue C Suggested core) s"
  by (rule search_scan) (use pq_sets(3) [OF runs_pq [OF assms(1)] assms(2)] pq_next(2) [OF runs_pq [OF assms(1)] assms(2)] in simp_all)

lemma suggested_thread:
  assumes "runs k C" "core < NumCores" "t \<in> set (run_queue C Suggested core)"
  shows "t \<in> runnable k" "bit (m_affinity_mask (threads k t)) core" "m_core_id (threads k t) \<noteq> int core" "valid_thread (threads k t)"
    "m_core_id (threads k t) = - 1 \<or> (\<exists>d<NumCores. d \<noteq> core \<and> m_core_id (threads k t) = int d)"
proof -
  show t: "t \<in> runnable k" "bit (m_affinity_mask (threads k t)) core" "m_core_id (threads k t) \<noteq> int core"
    using assms(3) unfolding pq_sets(2) [OF runs_pq [OF assms(1)] assms(2)] by auto
  show v: "valid_thread (threads k t)" using assms(1) t(1) by (auto simp: runs_def pq_inv_def dest: queued_valid)
  show "m_core_id (threads k t) = - 1 \<or> (\<exists>d<NumCores. d \<noteq> core \<and> m_core_id (threads k t) = int d)"
  proof (cases "m_core_id (threads k t) < 0")
    case True
    then show ?thesis using v by (auto simp: valid_thread_def)
  next
    case False
    then have "m_core_id (threads k t) = int (nat (m_core_id (threads k t)))" by simp
    moreover have "nat (m_core_id (threads k t)) < NumCores" "nat (m_core_id (threads k t)) \<noteq> core" using v t(3) False by (auto simp: valid_thread_def)
    ultimately show ?thesis by blast
  qed
qed

text \<open>A suggested thread that is not the choice of its own core moves to the core.\<close>

lemma migrate_filled:
  assumes "tracked k0 (cores, tops, k)" "agreed NumCores (cores, tops, k)" "runs k C" "core < NumCores"
    and t: "t \<in> set (run_queue C Suggested core)" and top_thread: "top_at tops (m_core_id (threads k t)) = Some u" "u \<noteq> Some t"
  obtains k' C' where "migrate (m_core_id (threads k t)) (int core) t False k = Some k'"
    "filled k0 core C (cores, tops, k) C' (set_top core (Some t) (cores, tops, k'))"
proof -
  note s = suggested_thread [OF assms(3,4) t]
  obtain k1 where m: "migrate (m_core_id (threads k t)) (int core) t False k = Some k1" "keeps k k1" "schedulers k1 = schedulers k"
    "threads k1 = (threads k)(t := (threads k t)\<lparr>m_core_id := int core\<rparr>)"
    "runs k1 (rehome (m_core_id (threads k t)) False (threads k1 t) t C)"
    using migrate_moves [OF assms(3) s(1-3), of False] .
  define C' where "C' = rehome (m_core_id (threads k t)) False (threads k1 t) t C"
  have tr: "tracked k0 (cores, tops, k1)" using assms(1) m(2,3) by (auto simp: tracked_def intro: keeps_trans)
  obtain cores' tops' k' where st: "set_top core (Some t) (cores, tops, k1) = (cores', tops', k')"
    by (cases "set_top core (Some t) (cores, tops, k1)") auto
  note e = set_top_effect [OF tr assms(4) st]
  have q: "d \<noteq> core \<Longrightarrow> run_queue C' Scheduled d = (if m_core_id (threads k t) = int d then remove1 t (run_queue C Scheduled d) else run_queue C Scheduled d)"
    "run_queue C Scheduled core = [] \<Longrightarrow> run_queue C' Scheduled core = [t]" if "d < NumCores" for d
    using rehomed_queues [OF assms(3) s(1) that s(3), of "threads k1 t" C' False] m(4) by (simp_all add: C'_def)
  have "exact tops' C'" if "exact tops C" "run_queue C Scheduled core = []"
    unfolding exact_def
  proof (intro allI impI)
    fix d assume d: "d < NumCores"
    show "tops' d = first (run_queue C' Scheduled d)"
    proof (cases "d = core")
      case False
      have "first (run_queue C Scheduled d) \<noteq> Some t" if "m_core_id (threads k t) = int d"
        using top_thread \<open>exact tops C\<close> d that by (simp add: exact_def top_at_def)
      then show ?thesis using q(1) [OF d False] \<open>exact tops C\<close> d False e(2) first_remove1 [of "run_queue C Scheduled d" t] by (auto simp: exact_def)
    qed (use q(2) [OF d] e(2) \<open>run_queue C Scheduled core = []\<close> in simp)
  qed
  then have "filled k0 core C (cores, tops, k) C' (cores', tops', k')"
    using e(1,2,4) assms(2) q(1) stays_runs [OF e(3) m(5)] m(3) by (auto simp: filled_def agreed_def C'_def)
  then show ?thesis using that m(1) st by metis
qed

text \<open>The first thread of a candidate moves to the core, and the one after it takes its place.\<close>

lemma candidate_filled:
  assumes "tracked k0 (cores, tops, k)" "agreed NumCores (cores, tops, k)" "runs k C" "core < NumCores"
    and t: "t \<in> set (run_queue C Suggested core)" "m_core_id (threads k t) = int d" "d < NumCores" "tops d = Some t"
    and nx: "after t (run_queue C Scheduled d) = Some n"
    and st1: "set_top d (Some n) (cores, tops, k) = (cores1, tops1, k1)"
  obtains k2 C' where "migrate (int d) (int core) t False k1 = Some k2"
    "filled k0 core C (cores, tops, k) C' (set_top core (Some t) (cores1, tops1, k2))"
proof -
  note s = suggested_thread [OF assms(3,4) t(1)]
  note e1 = set_top_effect [OF assms(1) t(3) st1]
  have r1: "runs k1 C" using stays_runs [OF e1(3) assms(3)] .
  have s1: "t \<in> runnable k1" "bit (m_affinity_mask (threads k1 t)) core" "m_core_id (threads k1 t) \<noteq> int core" "m_core_id (threads k1 t) = int d"
    using s(1-3) t(2) e1(3) keeps_runnable [of k k1] keepsD(2) [of k k1] by (simp_all add: stays_def)
  obtain k2 where m: "migrate (int d) (int core) t False k1 = Some k2" "keeps k1 k2" "schedulers k2 = schedulers k1"
    "threads k2 = (threads k1)(t := (threads k1 t)\<lparr>m_core_id := int core\<rparr>)" "runs k2 (rehome (int d) False (threads k2 t) t C)"
    using migrate_moves [OF r1 s1(1-3), of False] s1(4) by auto
  define C' where "C' = rehome (int d) False (threads k2 t) t C"
  have tr: "tracked k0 (cores1, tops1, k2)" using e1(1) m(2,3) by (auto simp: tracked_def intro: keeps_trans)
  obtain cores' tops' k' where st: "set_top core (Some t) (cores1, tops1, k2) = (cores', tops', k')"
    by (cases "set_top core (Some t) (cores1, tops1, k2)") auto
  note e = set_top_effect [OF tr assms(4) st]
  have q: "c \<noteq> core \<Longrightarrow> run_queue C' Scheduled c = (if c = d then remove1 t (run_queue C Scheduled c) else run_queue C Scheduled c)"
    "run_queue C Scheduled core = [] \<Longrightarrow> run_queue C' Scheduled core = [t]" if "c < NumCores" for c
    using rehomed_queues [OF r1 s1(1) that s1(3), of "threads k2 t" C' False] m(4) s1(4) by (auto simp: C'_def)
  have "exact tops' C'" if "exact tops C" "run_queue C Scheduled core = []"
    using that q nx t(4) e(2) e1(2) first_removed [of "run_queue C Scheduled d" t] t(3) by (auto simp: exact_def)
  then have "filled k0 core C (cores, tops, k) C' (cores', tops', k')"
    using e(1,2,4) e1(2,4) assms(2) q(1) stays_runs [OF e(3) m(5)] m(3) by (auto simp: filled_def agreed_def C'_def)
  then show ?thesis using that m(1) st by metis
qed

text \<open>The first threads of the candidates, in turn.\<close>

lemma try_candidates_filled:
  assumes "tracked k0 (cores, tops, k)" "agreed NumCores (cores, tops, k)" "runs k C" "core < NumCores"
    and "\<And>t. t \<in> set ys \<Longrightarrow> t \<in> set (run_queue C Suggested core) \<and> (\<exists>d<NumCores. m_core_id (threads k t) = int d \<and> tops d = Some t)"
    and "\<And>t. t \<in> set (run_queue C Suggested core) \<Longrightarrow> t \<notin> set ys \<Longrightarrow> alone k tops C t"
  shows "\<exists>C' st'. try_candidates core (map (\<lambda>t. nat (m_core_id (threads k t))) ys) (cores, tops, k) = Some st' \<and>
    filled k0 core C (cores, tops, k) C' st'"
  using assms(5,6)
proof (induction ys)
  case Nil
  then have "unfillable core tops k C" by (simp add: unfillable_def)
  then show ?case using assms(1-3) by (auto simp: filled_def intro: exI [of _ C])
next
  case (Cons t ys)
  obtain d where d: "t \<in> set (run_queue C Suggested core)" "d < NumCores" "m_core_id (threads k t) = int d" "tops d = Some t"
    using Cons.prems(1) [of t] by auto
  have i: "t \<in> set (run_queue C Scheduled d)"
    using suggested_thread(1) [OF assms(3,4) d(1)] d(2,3) pq_sets(1) [OF runs_pq [OF assms(3)] d(2)] by simp
  note nx = pq_next(1) [OF runs_pq [OF assms(3)] d(2) i]
  show ?case
  proof (cases "after t (run_queue C Scheduled d)")
    case None
    then have "alone k tops C t" using d by (auto simp: alone_def)
    then show ?thesis using Cons nx None d by (simp add: top_at_def) (metis set_ConsD)
  next
    case (Some n)
    obtain cores1 tops1 k1 where s: "set_top d (Some n) (cores, tops, k) = (cores1, tops1, k1)" by (cases "set_top d (Some n) (cores, tops, k)") auto
    obtain k2 C' where m: "migrate (int d) (int core) t False k1 = Some k2"
      "filled k0 core C (cores, tops, k) C' (set_top core (Some t) (cores1, tops1, k2))"
      using candidate_filled [OF assms(1-4) d(1,3,2,4) Some s] .
    have "try_candidates core (map (\<lambda>t. nat (m_core_id (threads k t))) (t # ys)) (cores, tops, k) = Some (set_top core (Some t) (cores1, tops1, k2))"
      using nx Some d s m(1) by (simp add: top_at_def)
    then show ?thesis using m(2) by blast
  qed
qed

lemma fill_core_filled:
  assumes "tracked k0 (cores, tops, k)" "agreed NumCores (cores, tops, k)" "runs k C" "core < NumCores"
  shows "\<exists>C' st'. fill_core core (cores, tops, k) = Some st' \<and> filled k0 core C (cores, tops, k) C' st'"
proof -
  let ?xs = "run_queue C Suggested core" and ?at = "\<lambda>t. nat (m_core_id (threads k t))"
  define cand where "cand t \<longleftrightarrow> (\<exists>d<NumCores. m_core_id (threads k t) = int d \<and> tops d = Some t)" for t
  have "\<exists>r. scan (try_suggested core (cores, tops, k)) ?xs [] = Some r \<and>
    (case r of Inl st' \<Rightarrow> \<exists>C'. filled k0 core C (cores, tops, k) C' st' | Inr cs \<Rightarrow> cs = map ?at ?xs \<and> (\<forall>t\<in>set ?xs. cand t))"
  proof (rule scan_rule [where I = "\<lambda>ys cs. cs = map ?at ys \<and> (\<forall>t\<in>set ys. cand t)"])
    fix ys t zs cs assume x: "?xs = ys @ t # zs" and i: "cs = map ?at ys \<and> (\<forall>t\<in>set ys. cand t)"
    then have t: "t \<in> set ?xs" by simp
    note s = suggested_thread [OF assms(3,4) t]
    obtain u where u: "top_at tops (m_core_id (threads k t)) = Some u" using s(5) by (auto simp: top_at_def)
    show "\<exists>r. try_suggested core (cores, tops, k) t cs = Some r \<and> (case r of Inl st' \<Rightarrow> \<exists>C'. filled k0 core C (cores, tops, k) C' st'
       | Inr cs' \<Rightarrow> cs' = map ?at (ys @ [t]) \<and> (\<forall>t\<in>set (ys @ [t]). cand t))"
    proof (cases "u = Some t")
      case False
      have "unfillable core tops k C" if "urgent k u"
        using s(5) u t that False by (fastforce simp: unfillable_def urgent_def top_at_def split: if_splits)
      then have b: "filled k0 core C (cores, tops, k) C (cores, tops, k)" if "urgent k u" using that assms(1-3) by (simp add: filled_def)
      obtain k' C' where m: "migrate (m_core_id (threads k t)) (int core) t False k = Some k'"
        "filled k0 core C (cores, tops, k) C' (set_top core (Some t) (cores, tops, k'))" using migrate_filled [OF assms t u False] .
      show ?thesis using u False m b by (cases "urgent k u") (auto simp: try_suggested_def urgent_def split: option.splits)
    next
      case True
      then have c: "cand t" using s(5) u by (auto simp: cand_def top_at_def)
      have "length ys < NumCores"
      proof -
        have "distinct ys" using x pq_sets(3) [OF runs_pq [OF assms(3)] assms(4), of Suggested] by auto
        moreover have "inj_on ?at (set ys)" 
        proof (rule inj_onI)
          fix x y assume "x \<in> set ys" "y \<in> set ys" "?at x = ?at y"
          then show "x = y" using i by (metis cand_def nat_int option.inject)
        qed
        moreover have "?at ` set ys \<subseteq> {0..<NumCores} - {core}"
          using i suggested_thread(3) [OF assms(3,4)] x by (fastforce simp: cand_def)
        ultimately have "length ys \<le> card ({0..<NumCores} - {core})" by (metis card_image card_mono distinct_card finite_Diff finite_atLeastLessThan)
        also have "\<dots> < NumCores" using assms(4) by simp
        finally show ?thesis .
      qed
      then show ?thesis using u True i c by (auto simp: try_suggested_def)
    qed
  qed simp
  then obtain r where r: "scan (try_suggested core (cores, tops, k)) ?xs [] = Some r"
    "case r of Inl st' \<Rightarrow> \<exists>C'. filled k0 core C (cores, tops, k) C' st' | Inr cs \<Rightarrow> cs = map ?at ?xs \<and> (\<forall>t\<in>set ?xs. cand t)" by blast
  show ?thesis using r pq_front(2) [OF runs_pq [OF assms(3)] assms(4)] try_candidates_filled [OF assms, of ?xs]
    by (cases r) (auto simp: fill_core_def cand_def suggested_search [OF assms(3,4)])
qed

lemma fill_cores:
  assumes "distinct ds" "\<And>d. d \<in> set ds \<Longrightarrow> d < NumCores \<and> run_queue C Scheduled d = []"
    and "tracked k0 (cores, tops, k)" "agreed NumCores (cores, tops, k)" "runs k C"
  shows "\<exists>C' cores' tops' k'. run_ops fill_core ds (cores, tops, k) = Some (cores', tops', k') \<and> tracked k0 (cores', tops', k') \<and>
    agreed NumCores (cores', tops', k') \<and> runs k' C' \<and> (exact tops C \<longrightarrow> exact tops' C') \<and> (\<forall>c. tops c \<noteq> None \<longrightarrow> tops' c \<noteq> None)"
  using assms
proof (induction ds arbitrary: C cores tops k)
  case Nil
  then show ?case by auto
next
  case (Cons d ds)
  obtain C1 cores1 tops1 k1 where 1: "fill_core d (cores, tops, k) = Some (cores1, tops1, k1)"
    and f: "filled k0 d C (cores, tops, k) C1 (cores1, tops1, k1)"
    using fill_core_filled [OF Cons.prems(3-5), of d] Cons.prems(2) [of d] by auto
  have "run_queue C1 Scheduled e = []" if "e \<in> set ds" for e using f Cons.prems(1,2) that by (auto simp: filled_def)
  then obtain C' cores' tops' k' where r: "run_ops fill_core ds (cores1, tops1, k1) = Some (cores', tops', k')" "tracked k0 (cores', tops', k')"
    "agreed NumCores (cores', tops', k')" "runs k' C'" "exact tops1 C1 \<longrightarrow> exact tops' C'" "\<forall>c. tops1 c \<noteq> None \<longrightarrow> tops' c \<noteq> None"
    using Cons.IH [of C1 cores1 tops1 k1] Cons.prems(1,2) f by (auto simp: filled_def)
  then show ?case using 1 f Cons.prems(2) [of d] by (simp add: filled_def) (metis (no_types, lifting))
qed

lemma stays_dummy [simp]: "stays k (set_thread t (\<lambda>th. th\<lparr>m_dummy_thread_runnable := b\<rparr>) k)" "stays k (k\<lparr>m_woken_dummy_threads := ws\<rparr>)"
  by (auto intro!: staysI simp: set_thread_def fixed_of_def thread_fixed_def)

lemma stays_wakeup: "stays k (WakeupWaitingDummyThreads k)" "schedulers (WakeupWaitingDummyThreads k) = schedulers k"
proof -
  have f: "stays k (fold (\<lambda>t. set_thread t (\<lambda>th. th\<lparr>m_dummy_thread_runnable := True\<rparr>)) ws k)"
    "schedulers (fold (\<lambda>t. set_thread t (\<lambda>th. th\<lparr>m_dummy_thread_runnable := True\<rparr>)) ws k) = schedulers k" for ws
    by (induction ws arbitrary: k) (auto intro: stays_trans [OF stays_dummy(1)])
  show "stays k (WakeupWaitingDummyThreads k)" unfolding WakeupWaitingDummyThreads_def using stays_trans [OF f(1) stays_dummy(2)] by blast
  show "schedulers (WakeupWaitingDummyThreads k) = schedulers k" by (simp add: WakeupWaitingDummyThreads_def f(2))
qed

definition unpinned :: "('a, 'b) kern \<Rightarrow> bool" where
  "unpinned k \<longleftrightarrow> (\<forall>p c. m_pinned_threads (processes k p) c = None)"

lemma unpinned_chosen: "unpinned k \<Longrightarrow> chosen k C c = first (run_queue C Scheduled c)"
  by (auto simp: unpinned_def chosen_def select_top_def split: option.split)

lemma update_chooses:
  assumes "runs k C" "IsSchedulerLockedByCurrentThread k"
  shows "\<exists>cores tops k' C'. UpdateHighestPriorityThreadsImpl k = Some (cores, k') \<and> tracked k (cores, tops, k') \<and>
    agreed NumCores (cores, tops, k') \<and> runs k' C' \<and> (unpinned k \<longrightarrow> exact tops C') \<and> (\<forall>c<NumCores. chosen k C c \<noteq> None \<longrightarrow> tops c \<noteq> None)"
proof -
  define k1 where "k1 = ClearSchedulerUpdateNeeded k"
  have s1: "stays k k1" "schedulers k1 = schedulers k" by (simp_all add: k1_def)
  have r1: "runs k1 C" using stays_runs [OF s1(1) assms(1)] .
  obtain idle cores tops k2 where f: "run_ops find_top [0..<NumCores] (0, 0, (\<lambda>_. None), k1) = Some (idle, cores, tops, k2)"
    "tracked k1 (cores, tops, k2)" "agreed NumCores (cores, tops, k2)" "stays k1 k2"
    "\<And>c. bit idle c \<longleftrightarrow> c < NumCores \<and> run_queue C Scheduled c = []" "\<And>c. c < NumCores \<Longrightarrow> tops c = chosen k1 C c"
    using find_tops [OF r1 order.refl] by blast
  have c1: "chosen k1 C c = chosen k C c" for c using select_top_keeps [OF stays_keeps [OF s1(1)]] by (simp add: chosen_def split: option.split)
  have d: "distinct (filter (bit idle) [0..<64])" "\<And>d. d \<in> set (filter (bit idle) [0..<64]) \<Longrightarrow> d < NumCores \<and> run_queue C Scheduled d = []"
    by (simp, simp only: set_filter mem_Collect_eq f(5))
  obtain C' cores' tops' k3 where e0: "run_ops fill_core (filter (bit idle) [0..<64]) (cores, tops, k2) = Some (cores', tops', k3)"
    and e: "tracked k1 (cores', tops', k3)" "agreed NumCores (cores', tops', k3)" "runs k3 C'" "exact tops C \<longrightarrow> exact tops' C'"
      "\<forall>c. tops c \<noteq> None \<longrightarrow> tops' c \<noteq> None"
    using fill_cores [OF d f(2,3) stays_runs [OF f(4) r1]] by blast
  define k4 where "k4 = WakeupWaitingDummyThreads k3"
  define k' where "k' = (if is_dummy (threads k4 (current_thread k4)) \<and> GetState (threads k4 (current_thread k4)) \<noteq> Runnable
    then set_thread (current_thread k4) (\<lambda>th. th\<lparr>m_dummy_thread_runnable := False\<rparr>) k4 else k4)"
  have s: "stays k3 k'" "schedulers k' = schedulers k3"
    by (auto simp: k'_def k4_def stays_wakeup intro: stays_trans [OF stays_wakeup(1) stays_dummy(1)])
  have "UpdateHighestPriorityThreadsImpl k = Some (cores', k')"
    using f(1) e0 assms(2) by (simp add: UpdateHighestPriorityThreadsImpl_def each_core_run k1_def k'_def k4_def Let_def)
  moreover have "tracked k (cores', tops', k')" using e(1) s s1 by (auto simp: tracked_def stays_def intro: keeps_trans)
  moreover have "agreed NumCores (cores', tops', k')" using e(2) s(2) by (simp add: agreed_def)
  moreover have "exact tops' C'" if "unpinned k" using e(4) f(6) c1 unpinned_chosen [OF that] by (simp add: exact_def)
  moreover have "tops' c \<noteq> None" if "c < NumCores" "chosen k C c \<noteq> None" for c using that e(5) f(6) c1 by simp
  ultimately show ?thesis using stays_runs [OF s(1) e(3)] by blast
qed

text \<open>
  C27.  The update of the highest priority threads.  With the run queues in order and the lock held, the
  update of all cores is defined and breaks no assertion: no null thread is read, and no list of migration
  candidates overflows.  Threads only change cores, each to one that its affinity mask allows.  Unless
  threads are pinned, every core gets the first thread of its run queue as it is after the migrations, and
  no core that had a thread to run loses its last one.  The result marks each core whose choice is new, and
  every marked core needs scheduling.
\<close>

theorem highest_priority_threads_chosen:
  assumes "runs k C" "IsSchedulerLockedByCurrentThread k"
  shows "\<exists>cores k' C'. UpdateHighestPriorityThreadsImpl k = Some (cores, k') \<and> runs k' C' \<and> runnable k' = runnable k \<and>
    (\<forall>t. thread_fixed (threads k' t) = thread_fixed (threads k t)) \<and>
    asserted k' = asserted k \<and> pq_asserted (m_priority_queue k') = pq_asserted (m_priority_queue k) \<and>
    (\<forall>c<NumCores. highest_priority_thread (schedulers k' c) \<noteq> highest_priority_thread (schedulers k c) \<longrightarrow> bit cores c) \<and>
    (\<forall>c. bit cores c \<longrightarrow> c < NumCores \<and> needs_scheduling (schedulers k' c)) \<and>
    (unpinned k \<longrightarrow> (\<forall>c<NumCores. highest_priority_thread (schedulers k' c) = first (run_queue C' Scheduled c) \<and>
       (run_queue C Scheduled c \<noteq> [] \<longrightarrow> run_queue C' Scheduled c \<noteq> [])))"
proof -
  obtain cores tops k' C' where u: "UpdateHighestPriorityThreadsImpl k = Some (cores, k')" "tracked k (cores, tops, k')"
    "agreed NumCores (cores, tops, k')" "runs k' C'" "unpinned k \<longrightarrow> exact tops C'" "\<forall>c<NumCores. chosen k C c \<noteq> None \<longrightarrow> tops c \<noteq> None"
    using update_chooses [OF assms] by blast
  have kp: "keeps k k'" using u(2) by (simp add: tracked_def)
  have "highest_priority_thread (schedulers k' c) = first (run_queue C' Scheduled c) \<and> (run_queue C Scheduled c \<noteq> [] \<longrightarrow> run_queue C' Scheduled c \<noteq> [])"
    if "unpinned k" "c < NumCores" for c
    using that u(3,5,6) unpinned_chosen [OF that(1)] by (auto simp: agreed_def exact_def first_hd)
  moreover have "thread_fixed (threads k' t) = thread_fixed (threads k t)" for t using kp by (simp add: keeps_def)
  moreover have "highest_priority_thread (schedulers k' c) \<noteq> highest_priority_thread (schedulers k c) \<Longrightarrow> bit cores c"
    "bit cores c \<Longrightarrow> c < NumCores \<and> needs_scheduling (schedulers k' c)" for c using u(2) by (simp_all add: tracked_def)
  ultimately show ?thesis using u(1,4) keepsD(15,19) [OF kp] keeps_runnable [OF kp] by blast
qed

text \<open>
  C28.  No idle core is left without reason.  When a core has nothing scheduled, the migration of the
  update gives it one of the threads that may run on it, unless one of them waits behind a thread whose
  priority is too high for migrations, or each of them is the choice of its own core and nothing comes
  after it there.  The choice of every core stays the first thread of its queue.
\<close>

theorem idle_core_filled:
  assumes "runs k C" "exact tops C" "tracked k0 (cores, tops, k)" "agreed NumCores (cores, tops, k)" "core < NumCores"
    and "run_queue C Scheduled core = []"
  shows "\<exists>cores' tops' k' C'. fill_core core (cores, tops, k) = Some (cores', tops', k') \<and> runs k' C' \<and> exact tops' C' \<and>
    (run_queue C' Scheduled core = [] \<longrightarrow>
      (\<exists>t\<in>set (run_queue C Suggested core). \<exists>d<NumCores. \<exists>u. m_core_id (threads k t) = int d \<and>
         first (run_queue C Scheduled d) = Some u \<and> u \<noteq> t \<and> m_priority (threads k u) < HighestCoreMigrationAllowedPriority) \<or>
      (\<forall>t\<in>set (run_queue C Suggested core). \<exists>d<NumCores. run_queue C Scheduled d = [t]))"
proof -
  obtain C' cores' tops' k' where f: "fill_core core (cores, tops, k) = Some (cores', tops', k')"
    "filled k0 core C (cores, tops, k) C' (cores', tops', k')"
    using fill_core_filled [OF assms(3,4,1,5)] by auto
  have e: "exact tops' C'" "runs k' C'" using f(2) assms(2,6) by (simp_all add: filled_def)
  have single: "xs = [t]" if "first xs = Some t" "after t xs = None" for xs and t :: nat
    using that by (cases xs; cases "tl xs") (auto simp: after_def)
  have "unfillable core tops k C" if "run_queue C' Scheduled core = []" using f(2) e(1) assms(5) that by (simp add: filled_def exact_def)
  then have un: "(\<exists>t\<in>set (run_queue C Suggested core). \<exists>d<NumCores. m_core_id (threads k t) = int d \<and> tops d \<noteq> Some t \<and> urgent k (tops d)) \<or>
    (\<forall>t\<in>set (run_queue C Suggested core). alone k tops C t)" if "run_queue C' Scheduled core = []" using that by (simp only: unfillable_def)
  have top_first: "tops d = first (run_queue C Scheduled d)" if "d < NumCores" for d using that assms(2) by (simp add: exact_def)
  have al: "\<exists>d<NumCores. run_queue C Scheduled d = [t]" if "alone k tops C t" for t using that top_first single by (auto simp: alone_def)
  have ur: "\<exists>u. first (run_queue C Scheduled d) = Some u \<and> u \<noteq> t \<and> m_priority (threads k u) < HighestCoreMigrationAllowedPriority"
    if "d < NumCores" "tops d \<noteq> Some t" "urgent k (tops d)" for d t using that top_first by (auto simp: urgent_def)
  show ?thesis using f(1) e un al ur by blast
qed

section \<open>Releasing the lock\<close>

definition queue_view :: "('a, 'b) kern \<Rightarrow> k_priority_queue \<times> (nat \<Rightarrow> int \<times> int \<times> u64 \<times> bool \<times> u16)" where
  "queue_view k = (m_priority_queue k, \<lambda>t. (m_priority (threads k t), m_core_id (threads k t), m_affinity_mask (threads k t),
     is_dummy (threads k t), m_thread_state (threads k t)))"

lemma runs_view: "queue_view k' = queue_view k \<Longrightarrow> runs k C \<Longrightarrow> runs k' C"
proof -
  assume v: "queue_view k' = queue_view k" and r: "runs k C"
  have t: "m_priority (threads k' t) = m_priority (threads k t) \<and> m_core_id (threads k' t) = m_core_id (threads k t) \<and>
    m_affinity_mask (threads k' t) = m_affinity_mask (threads k t) \<and> is_dummy (threads k' t) = is_dummy (threads k t) \<and>
    m_thread_state (threads k' t) = m_thread_state (threads k t)" for t
    using v by (simp add: queue_view_def fun_eq_iff)
  then have "runnable k' = runnable k" by (simp add: runnable_def)
  then show "runs k' C" using r t pq_inv_cong [of "runnable k" "threads k'" "threads k"] v by (simp add: runs_def queue_view_def)
qed

lemma queue_view_simps [simp]:
  "queue_view (assert_that a k) = queue_view k" "queue_view (k\<lparr>m_lock_count := n\<rparr>) = queue_view k" "queue_view (k\<lparr>m_owner_thread := o'\<rparr>) = queue_view k"
  "queue_view (EnableDispatch k) = queue_view k" "queue_view (DisableScheduling k) = queue_view k" "queue_view (RescheduleCores m k) = queue_view k"
  "queue_view (set_scheduler c f k) = queue_view k"
  by (auto simp: queue_view_def assert_that_def EnableDispatch_def DisableScheduling_def RescheduleCores_def set_thread_def set_scheduler_def fun_eq_iff)

lemma dispatch_simps [simp]:
  "schedulers (assert_that a k) = schedulers k" "schedulers (EnableDispatch k) = schedulers k" "schedulers (DisableScheduling k) = schedulers k"
  "schedulers (RescheduleCores m k) = schedulers k" "interrupted (assert_that a k) = interrupted k" "interrupted (EnableDispatch k) = interrupted k"
  "interrupted (DisableScheduling k) = interrupted k" "interrupted (set_scheduler c f k) = interrupted k"
  "current_thread (assert_that a k) = current_thread k" "current_thread (EnableDispatch k) = current_thread k"
  "current_thread (DisableScheduling k) = current_thread k" "current_thread (set_scheduler c f k) = current_thread k"
  "current_thread (RescheduleCores m k) = current_thread k" "threads (assert_that a k) = threads k" "threads (RescheduleCores m k) = threads k"
  "m_owner_thread (assert_that a k) = m_owner_thread k" "m_owner_thread (EnableDispatch k) = m_owner_thread k"
  "m_owner_thread (DisableScheduling k) = m_owner_thread k" "m_owner_thread (set_scheduler c f k) = m_owner_thread k"
  "m_owner_thread (RescheduleCores m k) = m_owner_thread k" "current_core (RescheduleCores m k) = current_core k"
  "current_core (assert_that a k) = current_core k" "on_core_thread (assert_that a k) = on_core_thread k"
  by (auto simp: assert_that_def EnableDispatch_def DisableScheduling_def RescheduleCores_def set_thread_def set_scheduler_def)

lemma ScheduleImpl_effect:
  assumes "ScheduleImpl c k = (returns, k')"
  shows "queue_view k' = queue_view k" "m_owner_thread k' = m_owner_thread k" "interrupted k' = interrupted k"
    "highest_priority_thread (schedulers k' d) = highest_priority_thread (schedulers k d)" "d \<noteq> c \<Longrightarrow> schedulers k' d = schedulers k d"
    "if \<not> interrupt_task_runnable (schedulers k c) \<and> highest_priority_thread (schedulers k c) = Some (current_thread k) then returns
     else \<not> returns \<and> m_switch_from_schedule (schedulers k' c) \<and> m_switch_cur_thread (schedulers k' c) = Some (current_thread k) \<and>
       m_switch_highest_priority_thread (schedulers k' c) =
         (if interrupt_task_runnable (schedulers k c) then None else highest_priority_thread (schedulers k c))"
  using assms by (auto simp: ScheduleImpl_def Let_def split: if_splits)

text \<open>What a core that has a new choice is told.\<close>

definition told :: "nat \<Rightarrow> ('a, 'b) kern \<Rightarrow> bool \<Rightarrow> ('a, 'b) kern \<Rightarrow> bool" where
  "told c k returns k' \<longleftrightarrow>
     (if \<not> (on_core_thread k \<and> c = current_core k) then c \<in> interrupted k' \<and> needs_scheduling (schedulers k' c)
      else if disable_count (threads k (current_thread k)) > 1 then needs_scheduling (schedulers k' c)
      else if \<not> interrupt_task_runnable (schedulers k c) \<and> highest_priority_thread (schedulers k' c) = Some (current_thread k) then returns
      else \<not> returns \<and> m_switch_from_schedule (schedulers k' c) \<and> m_switch_cur_thread (schedulers k' c) = Some (current_thread k) \<and>
        m_switch_highest_priority_thread (schedulers k' c) =
          (if interrupt_task_runnable (schedulers k c) then None else highest_priority_thread (schedulers k' c)))"

lemma RescheduleCores_interrupts: "bit m c \<Longrightarrow> c < NumCores \<Longrightarrow> c \<in> interrupted (RescheduleCores m k)"
  using GetAffinity_bit [of m c] by (simp add: RescheduleCores_def GetAffinity_def)

lemma RescheduleOtherCores_effect:
  shows "queue_view (RescheduleOtherCores d m k) = queue_view k" "schedulers (RescheduleOtherCores d m k) = schedulers k"
    "m_owner_thread (RescheduleOtherCores d m k) = m_owner_thread k" "threads (RescheduleOtherCores d m k) = threads k"
    "current_thread (RescheduleOtherCores d m k) = current_thread k" "current_core (RescheduleOtherCores d m k) = current_core k"
    "\<lbrakk>bit m c; c < NumCores; c \<noteq> d\<rbrakk> \<Longrightarrow> c \<in> interrupted (RescheduleOtherCores d m k)"
proof -
  assume c: "bit m c" "c < NumCores" "c \<noteq> d"
  then have "bit (m AND NOT (push_bit d 1)) c" by (auto simp: bit_cleared simp del: push_bit_of_1)
  moreover from this have "m AND NOT (push_bit d 1) \<noteq> 0" by (metis bit_0_eq bot_apply bot_bool_def)
  ultimately show "c \<in> interrupted (RescheduleOtherCores d m k)" using RescheduleCores_interrupts c(2) by (simp add: RescheduleOtherCores_def Let_def del: push_bit_of_1)
qed (simp_all add: RescheduleOtherCores_def Let_def)

lemma RescheduleCurrentCore_effect:
  assumes "RescheduleCurrentCore c k = (returns, k')"
  shows "queue_view k' = queue_view k" "m_owner_thread k' = m_owner_thread k" "interrupted k' = interrupted k"
    "highest_priority_thread (schedulers k' d) = highest_priority_thread (schedulers k d)" "d \<noteq> c \<Longrightarrow> schedulers k' d = schedulers k d"
    "needs_scheduling (schedulers k c) \<Longrightarrow>
     (if \<not> interrupt_task_runnable (schedulers k c) \<and> highest_priority_thread (schedulers k c) = Some (current_thread k) then returns
      else \<not> returns \<and> m_switch_from_schedule (schedulers k' c) \<and> m_switch_cur_thread (schedulers k' c) = Some (current_thread k) \<and>
        m_switch_highest_priority_thread (schedulers k' c) =
          (if interrupt_task_runnable (schedulers k c) then None else highest_priority_thread (schedulers k c)))"
proof -
  define k1 where "k1 = EnableDispatch (assert_that (on_core_thread k \<and> disable_count (threads k (current_thread k)) = 1) k)"
  define k2 where "k2 = DisableScheduling k1"
  define k3 where "k3 = assert_that (disable_count (threads k2 (current_thread k2)) = 1 \<and> c = current_core k2) k2"
  obtain r k4 where s: "ScheduleImpl c k3 = (r, k4)" by (cases "ScheduleImpl c k3") auto
  note e = ScheduleImpl_effect [OF s]
  have 3: "queue_view k3 = queue_view k" "m_owner_thread k3 = m_owner_thread k" "interrupted k3 = interrupted k" "schedulers k3 = schedulers k"
    "current_thread k3 = current_thread k" "schedulers k1 = schedulers k" by (simp_all add: k3_def k2_def k1_def)
  have c: "(returns, k') = (if needs_scheduling (schedulers k c) then (r, if r then EnableDispatch k4 else k4) else (True, k1))"
    using assms s 3(6) unfolding RescheduleCurrentCore_def k3_def k2_def k1_def Let_def by (simp only: prod.case split: if_splits)
  have 1: "queue_view k1 = queue_view k" "m_owner_thread k1 = m_owner_thread k" "interrupted k1 = interrupted k" by (simp_all add: k1_def)
  show "queue_view k' = queue_view k" "m_owner_thread k' = m_owner_thread k" "interrupted k' = interrupted k"
    "highest_priority_thread (schedulers k' d) = highest_priority_thread (schedulers k d)" "d \<noteq> c \<Longrightarrow> schedulers k' d = schedulers k d"
    using c e(1-5) 3 1 by (auto split: if_splits)
  show "needs_scheduling (schedulers k c) \<Longrightarrow>
     (if \<not> interrupt_task_runnable (schedulers k c) \<and> highest_priority_thread (schedulers k c) = Some (current_thread k) then returns
      else \<not> returns \<and> m_switch_from_schedule (schedulers k' c) \<and> m_switch_cur_thread (schedulers k' c) = Some (current_thread k) \<and>
        m_switch_highest_priority_thread (schedulers k' c) =
          (if interrupt_task_runnable (schedulers k c) then None else highest_priority_thread (schedulers k c)))"
    using c e(6) 3 by (auto split: if_splits)
qed

lemma EnableScheduling_effect:
  assumes "EnableScheduling cores k = (returns, k')"
  shows "queue_view k' = queue_view k" "m_owner_thread k' = m_owner_thread k"
    "highest_priority_thread (schedulers k' c) = highest_priority_thread (schedulers k c)"
    "\<lbrakk>bit cores c; c < NumCores; needs_scheduling (schedulers k c)\<rbrakk> \<Longrightarrow> told c k returns k'"
proof -
  define k0 where "k0 = assert_that (disable_count (threads k (current_thread k)) \<ge> 1) k"
  define k1 where "k1 = RescheduleOtherCores (current_core k0) cores k0"
  note o = RescheduleOtherCores_effect [where d = "current_core k0" and m = cores and k = k0, folded k1_def]
  have 0: "queue_view k0 = queue_view k" "m_owner_thread k0 = m_owner_thread k" "schedulers k0 = schedulers k" "threads k0 = threads k"
    "current_thread k0 = current_thread k" "current_core k0 = current_core k" "on_core_thread k0 = on_core_thread k" by (simp_all add: k0_def)
  consider (host) k2 where "\<not> on_core_thread k" "returns" "k' = EnableDispatch (assert_that k2 (RescheduleCores cores k0))"
    | (disabled) "on_core_thread k" "disable_count (threads k (current_thread k)) > 1" "returns" "k' = EnableDispatch k1"
    | (core) "on_core_thread k" "disable_count (threads k (current_thread k)) \<le> 1" "RescheduleCurrentCore (current_core k) k1 = (returns, k')"
    using assms 0 o(4-6) unfolding EnableScheduling_def k0_def [symmetric] k1_def [symmetric] Let_def by (auto split: if_splits)
  then have "queue_view k' = queue_view k \<and> m_owner_thread k' = m_owner_thread k \<and>
    highest_priority_thread (schedulers k' c) = highest_priority_thread (schedulers k c) \<and>
    (bit cores c \<longrightarrow> c < NumCores \<longrightarrow> needs_scheduling (schedulers k c) \<longrightarrow> told c k returns k')"
  proof cases
    case host
    then show ?thesis using 0 by (simp add: told_def RescheduleCores_interrupts)
  next
    case disabled
    then show ?thesis using 0 o by (simp add: told_def)
  next
    case core
    note r = RescheduleCurrentCore_effect [OF core(3)]
    show ?thesis using r core(1,2) 0 o by (auto simp: told_def)
  qed
  then show "queue_view k' = queue_view k" "m_owner_thread k' = m_owner_thread k"
    "highest_priority_thread (schedulers k' c) = highest_priority_thread (schedulers k c)"
    "\<lbrakk>bit cores c; c < NumCores; needs_scheduling (schedulers k c)\<rbrakk> \<Longrightarrow> told c k returns k'"
    by simp_all
qed

lemma updates:
  assumes "runs k C" "IsSchedulerLockedByCurrentThread k"
  shows "\<exists>cores k' C'. UpdateHighestPriorityThreads k = Some (cores, k') \<and> keeps k k' \<and> runs k' C' \<and>
    (\<forall>c<NumCores. highest_priority_thread (schedulers k' c) \<noteq> highest_priority_thread (schedulers k c) \<longrightarrow>
       bit cores c \<and> needs_scheduling (schedulers k' c))"
proof (cases "m_scheduler_update_needed k")
  case True
  obtain cores tops k' C' where u: "UpdateHighestPriorityThreadsImpl k = Some (cores, k')" "tracked k (cores, tops, k')" "runs k' C'"
    using update_chooses [OF assms] by blast
  then show ?thesis using True by (auto simp: UpdateHighestPriorityThreads_def tracked_def)
next
  case False
  then show ?thesis using assms(1) by (auto simp: UpdateHighestPriorityThreads_def)
qed

lemma unlock_tells:
  assumes "runs k C" "IsSchedulerLockedByCurrentThread k" "m_lock_count k = 1"
  shows "\<exists>returns k' C'. Unlock k = Some (returns, k') \<and> m_owner_thread k' = None \<and> runs k' C' \<and>
    (\<forall>c<NumCores. highest_priority_thread (schedulers k' c) \<noteq> highest_priority_thread (schedulers k c) \<longrightarrow> told c k returns k')"
proof -
  define k1 where "k1 = k\<lparr>m_lock_count := 0\<rparr>"
  have 1: "runs k1 C" "IsSchedulerLockedByCurrentThread k1" using runs_view [OF _ assms(1), of k1] assms(2)
    by (simp_all add: k1_def IsSchedulerLockedByCurrentThread_def)
  obtain cores k2 C' where u: "UpdateHighestPriorityThreads k1 = Some (cores, k2)" "keeps k1 k2" "runs k2 C'"
    "\<And>c. c < NumCores \<Longrightarrow> highest_priority_thread (schedulers k2 c) \<noteq> highest_priority_thread (schedulers k1 c) \<Longrightarrow>
      bit cores c \<and> needs_scheduling (schedulers k2 c)" using updates [OF 1] by blast
  define k3 where "k3 = k2\<lparr>m_owner_thread := None\<rparr>"
  obtain returns k' where e: "EnableScheduling cores k3 = (returns, k')" by (cases "EnableScheduling cores k3") auto
  note ee = EnableScheduling_effect [OF e]
  have "Unlock k = Some (returns, k')" using assms(2,3) u(1) e by (simp add: Unlock_def k1_def k3_def Let_def)
  moreover have "runs k' C'" using runs_view [OF _ u(3), of k'] ee(1) by (simp add: k3_def)
  moreover have "m_owner_thread k' = None" using ee(2) by (simp add: k3_def)
  moreover have "told c k returns k'" if c: "c < NumCores" "highest_priority_thread (schedulers k' c) \<noteq> highest_priority_thread (schedulers k c)" for c
  proof -
    have "bit cores c" "needs_scheduling (schedulers k3 c)" using u(4) c ee(3) by (simp_all add: k3_def k1_def)
    from ee(4) [OF this(1) c(1) this(2)] have t: "told c k3 returns k'" .
    have eq: "on_core_thread k3 = on_core_thread k" "current_core k3 = current_core k" "current_thread k3 = current_thread k"
      "disable_count (threads k3 t) = disable_count (threads k t)"
      "interrupt_task_runnable (schedulers k3 c) = interrupt_task_runnable (schedulers k c)" for t
      using keepsD [OF u(2)] by (simp_all add: k3_def k1_def)
    show ?thesis using t unfolding told_def eq .
  qed
  ultimately show ?thesis by blast
qed

text \<open>
  C29.  No change of a choice is lost when the lock is released.  The outermost \<open>Unlock\<close> returns with the
  lock free and the run queues in order.  Every core with a new choice either is interrupted and needs
  scheduling; or it is the calling core, and then it switches to its choice, or runs it already, or, while
  dispatching is disabled, still needs scheduling.
\<close>

theorem unlock_tells_every_core:
  assumes "runs k C" "IsSchedulerLockedByCurrentThread k" "m_lock_count k = 1"
  shows "\<exists>returns k' C'. Unlock k = Some (returns, k') \<and> m_owner_thread k' = None \<and> runs k' C' \<and>
    (\<forall>c<NumCores. highest_priority_thread (schedulers k' c) \<noteq> highest_priority_thread (schedulers k c) \<longrightarrow>
      (if \<not> (on_core_thread k \<and> c = current_core k) then c \<in> interrupted k' \<and> needs_scheduling (schedulers k' c)
       else if disable_count (threads k (current_thread k)) > 1 then needs_scheduling (schedulers k' c)
       else if \<not> interrupt_task_runnable (schedulers k c) \<and> highest_priority_thread (schedulers k' c) = Some (current_thread k) then returns
       else \<not> returns \<and> m_switch_from_schedule (schedulers k' c) \<and> m_switch_cur_thread (schedulers k' c) = Some (current_thread k) \<and>
         m_switch_highest_priority_thread (schedulers k' c) =
           (if interrupt_task_runnable (schedulers k c) then None else highest_priority_thread (schedulers k' c))))"
  using unlock_tells [OF assms] unfolding told_def .

section \<open>Changes of threads\<close>

text \<open>
  What an operation under the lock promises: it is defined, keeps what no choice changes and leaves the run
  queues in order.
\<close>

definition settles :: "('a, 'b) kern \<Rightarrow> ('a, 'b) kern option \<Rightarrow> bool" where
  "settles k r \<longleftrightarrow> (\<exists>k' C'. r = Some k' \<and> keeps k k' \<and> schedulers k' = schedulers k \<and> runs k' C')"

lemma settlesI: "\<lbrakk>r = Some k'; stays k1 k'; keeps k k1; schedulers k' = schedulers k; runs k1 C\<rbrakk> \<Longrightarrow> settles k r"
  unfolding settles_def by (metis keeps_trans stays_keeps stays_runs)

lemma settles_trans: "settles k (Some k1) \<Longrightarrow> (\<And>C. keeps k k1 \<Longrightarrow> schedulers k1 = schedulers k \<Longrightarrow> runs k1 C \<Longrightarrow> settles k1 r) \<Longrightarrow> settles k r"
  unfolding settles_def by (metis (no_types, opaque_lifting) keeps_trans option.inject)

lemma settles_obtain:
  assumes "settles k r"
  obtains k' C' where "r = Some k'" "keeps k k'" "schedulers k' = schedulers k" "runs k' C'"
  using assms unfolding settles_def by blast

lemma keeps_queue: "pq_asserted q = pq_asserted (m_priority_queue k) \<Longrightarrow> keeps k (k\<lparr>m_priority_queue := q\<rparr>)"
  by (simp add: keeps_def fixed_of_def)

lemma stays_dummies [simp]: "stays k (RegisterDummyThreadForWakeup t k)" "stays k (UnregisterDummyThreadForWakeup t k)"
  "schedulers (RegisterDummyThreadForWakeup t k) = schedulers k" "schedulers (UnregisterDummyThreadForWakeup t k) = schedulers k"
  by (simp_all add: RegisterDummyThreadForWakeup_def UnregisterDummyThreadForWakeup_def Let_def)

text \<open>A change of the queue that the scheduler then takes note of.\<close>

lemma noted:
  assumes "pq_inv q (threads k) (runnable k) C" "pq_asserted q = pq_asserted (m_priority_queue k)"
  shows "settles k (Some (SetSchedulerUpdateNeeded (IncrementScheduledCount t (k\<lparr>m_priority_queue := q\<rparr>))))"
proof (rule settlesI)
  show "keeps k (k\<lparr>m_priority_queue := q\<rparr>)" using keeps_queue [OF assms(2)] .
  show "runs (k\<lparr>m_priority_queue := q\<rparr>) C" using assms(1) by (simp add: runs_def runnable_def)
  show "stays (k\<lparr>m_priority_queue := q\<rparr>) (SetSchedulerUpdateNeeded (IncrementScheduledCount t (k\<lparr>m_priority_queue := q\<rparr>)))"
    by (rule stays_trans [OF stays_simple(3) stays_simple(1)])
qed simp_all

lemma settles_stays: "settles k (Some k1) \<Longrightarrow> stays k1 k2 \<Longrightarrow> schedulers k2 = schedulers k1 \<Longrightarrow> settles k (Some k2)"
  unfolding settles_def by (metis keeps_trans option.inject stays_keeps stays_runs)

lemma settles_refl: "runs k C \<Longrightarrow> settles k (Some k)"
  by (auto simp: settles_def)

lemma threads_set_thread [simp]: "threads (set_thread t f k) = (threads k)(t := f (threads k t))" "m_priority_queue (set_thread t f k) = m_priority_queue k"
  "m_owner_thread (set_thread t f k) = m_owner_thread k" "current_thread (set_thread t f k) = current_thread k"
  by (simp_all add: set_thread_def)

lemma OnThreadStateChanged_settles:
  assumes "runs k C" "IsSchedulerLockedByCurrentThread k" "k1 = set_thread t (\<lambda>th. th\<lparr>m_thread_state := s\<rparr>) k"
    and "s = Runnable \<Longrightarrow> is_dummy (threads k t) \<or> valid_thread (threads k t)"
  shows "settles k1 (OnThreadStateChanged t (m_thread_state (threads k t)) k1)"
proof -
  let ?old = "m_thread_state (threads k t)"
  have l: "assert_that (IsSchedulerLockedByCurrentThread k1) k1 = k1" using assms(2,3) by (simp add: IsSchedulerLockedByCurrentThread_def)
  have th: "threads k1 t = (threads k t)\<lparr>m_thread_state := s\<rparr>" "m_priority_queue k1 = m_priority_queue k" using assms(3) by simp_all
  have v: "m_priority (threads k1 u) = m_priority (threads k u) \<and> m_core_id (threads k1 u) = m_core_id (threads k u) \<and>
    m_affinity_mask (threads k1 u) = m_affinity_mask (threads k u) \<and> is_dummy (threads k1 u) = is_dummy (threads k u)" for u using assms(3) by simp
  have pq: "pq_inv (m_priority_queue k1) (threads k1) (runnable k) C"
    using pq_inv_cong [of "runnable k" "threads k1" "threads k"] v assms(1) th(2) by (simp add: runs_def)
  have E: "runnable k1 = (if s = Runnable \<and> \<not> is_dummy (threads k t) then insert t (runnable k) else runnable k - {t})"
    using assms(3) by (auto simp: runnable_def)
  have vt: "valid_thread (threads k1 t) \<longleftrightarrow> valid_thread (threads k t)" using th(1) by (simp add: valid_thread_def)
  consider (same) "s = ?old" | (leaves) "s \<noteq> ?old" "?old = Runnable" | (enters) "s \<noteq> ?old" "s = Runnable" "?old \<noteq> Runnable"
    | (other) "s \<noteq> ?old" "s \<noteq> Runnable" "?old \<noteq> Runnable" by blast
  then show ?thesis
  proof cases
    case same
    then have "k1 = k" using assms(3) by (simp add: set_thread_def)
    then show ?thesis using assms(1) l same by (simp add: OnThreadStateChanged_def settles_refl)
  next
    case leaves
    then have n: "OnThreadStateChanged t ?old k1 = map_option (\<lambda>q. let k2 = SetSchedulerUpdateNeeded (IncrementScheduledCount t (k1\<lparr>m_priority_queue := q\<rparr>))
        in if is_dummy (threads k2 t) then UnregisterDummyThreadForWakeup t k2 else k2) (Remove t (threads k1) (m_priority_queue k1))"
      using l th(1) by (cases "Remove t (threads k1) (m_priority_queue k1)") (simp_all add: OnThreadStateChanged_def with_queue_def Let_def)
    obtain q where q: "Remove t (threads k1) (m_priority_queue k1) = Some q" "pq_inv q (threads k1) (runnable k1) (if is_dummy (threads k t) then C else dequeue (threads k1 t) t C)"
      "pq_asserted q = pq_asserted (m_priority_queue k1)"
    proof (cases "is_dummy (threads k t)")
      case True
      then have "runnable k1 = runnable k" using E by (auto simp: runnable_def)
      then show ?thesis using that [of "m_priority_queue k1"] True pq th(1) by (simp add: Remove_def)
    next
      case False
      then have "t \<in> runnable k" using leaves(2) by (simp add: runnable_def)
      from Remove_inv [OF pq this] show ?thesis using that E leaves False by auto
    qed
    show ?thesis unfolding n q(1) using settles_stays [OF noted [OF q(2,3), of t] stays_dummies(2,4)] noted [OF q(2,3), of t] by (simp add: Let_def)
  next
    case enters
    then have n: "OnThreadStateChanged t ?old k1 = map_option (\<lambda>q. let k2 = SetSchedulerUpdateNeeded (IncrementScheduledCount t (k1\<lparr>m_priority_queue := q\<rparr>))
        in if is_dummy (threads k2 t) then RegisterDummyThreadForWakeup t k2 else k2) (PushBack t (threads k1) (m_priority_queue k1))"
      using l th(1) by (cases "PushBack t (threads k1) (m_priority_queue k1)") (simp_all add: OnThreadStateChanged_def with_queue_def Let_def)
    have nt: "t \<notin> runnable k" using enters by (simp add: runnable_def)
    obtain q where q: "PushBack t (threads k1) (m_priority_queue k1) = Some q" "pq_inv q (threads k1) (runnable k1) (if is_dummy (threads k t) then C else enqueue False (threads k1 t) t C)"
      "pq_asserted q = pq_asserted (m_priority_queue k1)"
    proof (cases "is_dummy (threads k t)")
      case True
      then have "runnable k1 = runnable k" using E nt by simp
      then show ?thesis using that [of "m_priority_queue k1"] True pq th(1) by (simp add: PushBack_def)
    next
      case False
      from PushBack_inv [OF pq nt] show ?thesis using that E enters False vt assms(4) by auto
    qed
    show ?thesis unfolding n q(1) using settles_stays [OF noted [OF q(2,3), of t] stays_dummies(1,3)] noted [OF q(2,3), of t] by (simp add: Let_def)
  next
    case other
    then have "runnable k1 = runnable k" using E by (auto simp: runnable_def)
    then show ?thesis using pq l th(1) other by (simp add: OnThreadStateChanged_def settles_refl [of _ C] runs_def)
  qed
qed

lemma set_thread_runnable:
  assumes "k1 = set_thread t f k" "m_thread_state (f (threads k t)) = m_thread_state (threads k t)" "is_dummy (f (threads k t)) = is_dummy (threads k t)"
  shows "runnable k1 = runnable k"
  using assms by (auto simp: runnable_def)

text \<open>A thread that is not on the queues may change freely.\<close>

lemma set_thread_idle:
  assumes "runs k C" "k1 = set_thread t f k" "m_thread_state (f (threads k t)) = m_thread_state (threads k t)"
    and "is_dummy (f (threads k t)) = is_dummy (threads k t)" "t \<notin> runnable k"
  shows "runs k1 C"
proof -
  have "threads k1 u = threads k u" if "u \<in> runnable k" for u using that assms(2,5) by auto
  then have "pq_inv (m_priority_queue k) (threads k1) (runnable k) C" using pq_inv_cong [of "runnable k" "threads k1" "threads k"] assms(1)
    by (simp add: runs_def)
  then show ?thesis using set_thread_runnable [OF assms(2-4)] assms(2) by (simp add: runs_def)
qed

lemma OnThreadPriorityChanged_settles:
  assumes "runs k C" "IsSchedulerLockedByCurrentThread k" "k1 = set_thread t (\<lambda>th. th\<lparr>m_priority := p\<rparr>) k"
    and "is_dummy (threads k t) \<or> valid_thread ((threads k t)\<lparr>m_priority := p\<rparr>)"
  shows "settles k1 (OnThreadPriorityChanged t (m_priority (threads k t)) k1)"
proof -
  have l: "assert_that (IsSchedulerLockedByCurrentThread k1) k1 = k1" using assms(2,3) by (simp add: IsSchedulerLockedByCurrentThread_def)
  have E: "runnable k1 = runnable k" using set_thread_runnable [OF assms(3)] by simp
  have ts: "threads k1 = (threads k)(t := (threads k t)\<lparr>m_priority := p\<rparr>)" "m_priority_queue k1 = m_priority_queue k" using assms(3) by simp_all
  show ?thesis
  proof (cases "t \<in> runnable k")
    case True
    then have v: "valid_thread ((threads k t)\<lparr>m_priority := p\<rparr>)" "m_thread_state (threads k t) = Runnable" using assms(4) by (simp_all add: runnable_def)
    obtain q where q: "ChangePriority (m_priority (threads k t)) (t = current_thread k1) t (threads k1) (m_priority_queue k1) = Some q"
      "pq_inv q (threads k1) (runnable k1) (enqueue (t = current_thread k1) (threads k1 t) t (dequeue (threads k t) t C))"
      "pq_asserted q = pq_asserted (m_priority_queue k1)"
      using ChangePriority_inv [OF runs_def [THEN iffD1, OF assms(1)] True v(1) ts(1)] ts(2) E by metis
    show ?thesis using noted [OF q(2,3), of t] q(1) l v(2) ts(1) by (simp add: OnThreadPriorityChanged_def with_queue_def)
  next
    case False
    have r: "runs k1 C" using set_thread_idle [OF assms(1,3) _ _ False] by simp
    show ?thesis
    proof (cases "m_thread_state (threads k t) = Runnable")
      case True
      then have d: "is_dummy (threads k t)" using False by (simp add: runnable_def)
      have "pq_inv (m_priority_queue k1) (threads k1) (runnable k1) C" using r by (simp add: runs_def)
      from noted [OF this, of t] show ?thesis using l True d ts(1) by (simp add: OnThreadPriorityChanged_def with_queue_def ChangePriority_def)
    next
      case False
      then show ?thesis using r l ts(1) by (simp add: OnThreadPriorityChanged_def settles_refl [of _ C])
    qed
  qed
qed

lemma OnThreadAffinityMaskChanged_settles:
  assumes "runs k C" "IsSchedulerLockedByCurrentThread k" "k1 = set_thread t (\<lambda>th. th\<lparr>m_core_id := c, m_affinity_mask := a\<rparr>) k"
    and "is_dummy (threads k t) \<or> valid_thread ((threads k t)\<lparr>m_core_id := c, m_affinity_mask := a\<rparr>)"
  shows "settles k1 (OnThreadAffinityMaskChanged t (m_affinity_mask (threads k t)) (m_core_id (threads k t)) k1)"
proof -
  have l: "assert_that (IsSchedulerLockedByCurrentThread k1) k1 = k1" using assms(2,3) by (simp add: IsSchedulerLockedByCurrentThread_def)
  have E: "runnable k1 = runnable k" using set_thread_runnable [OF assms(3)] by simp
  have ts: "threads k1 = (threads k)(t := (threads k t)\<lparr>m_core_id := c, m_affinity_mask := a\<rparr>)" "m_priority_queue k1 = m_priority_queue k"
    using assms(3) by simp_all
  show ?thesis
  proof (cases "t \<in> runnable k")
    case True
    then have v: "valid_thread ((threads k t)\<lparr>m_core_id := c, m_affinity_mask := a\<rparr>)" "m_thread_state (threads k t) = Runnable"
      using assms(4) by (simp_all add: runnable_def)
    obtain q where q: "ChangeAffinityMask (m_core_id (threads k t)) (m_affinity_mask (threads k t)) t (threads k1) (m_priority_queue k1) = Some q"
      "pq_inv q (threads k1) (runnable k1) (enqueue False (threads k1 t) t (dequeue (threads k t) t C))"
      "pq_asserted q = pq_asserted (m_priority_queue k1)"
      using ChangeAffinityMask_inv [OF runs_def [THEN iffD1, OF assms(1)] True v(1) ts(1)] ts(2) E by metis
    show ?thesis using noted [OF q(2,3), of t] q(1) l v(2) ts(1) by (simp add: OnThreadAffinityMaskChanged_def with_queue_def)
  next
    case False
    have r: "runs k1 C" using set_thread_idle [OF assms(1,3) _ _ False] by simp
    show ?thesis
    proof (cases "m_thread_state (threads k t) = Runnable")
      case True
      then have d: "is_dummy (threads k t)" using False by (simp add: runnable_def)
      have "pq_inv (m_priority_queue k1) (threads k1) (runnable k1) C" using r by (simp add: runs_def)
      from noted [OF this, of t] show ?thesis using l True d ts(1) by (simp add: OnThreadAffinityMaskChanged_def with_queue_def ChangeAffinityMask_def)
    next
      case False
      then show ?thesis using r l ts(1) by (simp add: OnThreadAffinityMaskChanged_def settles_refl [of _ C])
    qed
  qed
qed

section \<open>Suggestions\<close>

lemma runs_front: "runs k C \<Longrightarrow> c < NumCores \<Longrightarrow> GetScheduledFront (int c) (m_priority_queue k) = Some (first (run_queue C Scheduled c))"
  "runs k C \<Longrightarrow> c < NumCores \<Longrightarrow> GetSuggestedFront (int c) (m_priority_queue k) = Some (first (run_queue C Suggested c))"
  by (simp_all add: pq_front [OF runs_pq])

lemma scheduled_top_defined:
  assumes "runs k C" "core < NumCores" "t \<in> set (run_queue C Suggested core)"
  obtains u where "scheduled_top (m_core_id (threads k t)) k = Some u"
  using suggested_thread(5) [OF assms] runs_front(1) [OF assms(1)] by (auto simp: scheduled_top_def)

lemma migrate_counted_settles:
  assumes "runs k C" "core < NumCores" "t \<in> set (run_queue C Suggested core)"
  shows "settles k (migrate_counted (m_core_id (threads k t)) (int core) t front k)"
proof -
  note s = suggested_thread [OF assms]
  obtain k' where m: "migrate (m_core_id (threads k t)) (int core) t front k = Some k'" "keeps k k'" "schedulers k' = schedulers k"
    "runs k' (rehome (m_core_id (threads k t)) front (threads k' t) t C)"
    by (rule migrate_moves [OF assms(1) s(1-3), of front])
  show ?thesis by (rule settlesI [OF _ stays_simple(3) m(2) _ m(4)]) (simp_all add: migrate_counted_def m(1,3))
qed

text \<open>The loops over suggestions, whose bodies end with a settled kernel or go on.\<close>

lemma scan_settles:
  assumes "\<And>t s. t \<in> set xs \<Longrightarrow> \<exists>r. body t s = Some r \<and> (\<forall>x. r = Inl x \<longrightarrow> settles k (Some (f x)))"
  obtains r where "scan body xs s = Some r" "\<And>x. r = Inl x \<Longrightarrow> settles k (Some (f x))"
proof -
  have "\<exists>r. scan body xs s = Some r \<and> (case r of Inl x \<Rightarrow> settles k (Some (f x)) | Inr _ \<Rightarrow> True)"
  proof (rule scan_rule [where I = "\<lambda>_ _. True"])
    fix ys t zs s assume "xs = ys @ t # zs"
    then show "\<exists>r. body t s = Some r \<and> (case r of Inl x \<Rightarrow> settles k (Some (f x)) | Inr _ \<Rightarrow> True)"
      using assms [of t s] by (auto split: sum.splits)
  qed simp
  then obtain r where "scan body xs s = Some r" "case r of Inl x \<Rightarrow> settles k (Some (f x)) | Inr _ \<Rightarrow> True" by blast
  then show ?thesis using that by (cases r) auto
qed

section \<open>Rotation\<close>

lemma put_same [simp]: "put k c p (C k c p) C = C"
  by (simp add: put_def)

lemma scheduled_front_at:
  assumes "runs k C" "core < NumCores" "p < NumPriority"
  shows "GetScheduledFront_at (int core) (int p) (m_priority_queue k) = Some (first (C Scheduled core p))"
    "GetSuggestedFront_at (int core) (int p) (m_priority_queue k) = Some (first (C Suggested core p))"
  using Impl_GetFront_at_first [of "m_priority_queue k" C core p] assms
  by (simp_all add: runs_def pq_inv_def GetScheduledFront_at_def GetSuggestedFront_at_def)

lemma rotate_front_rotates:
  assumes "runs k C" "core < NumCores" "p < NumPriority"
  obtains top_thread next_thread k1 where "rotate_front (int core) (int p) k = Some (top_thread, next_thread, k1)"
    "keeps k k1" "schedulers k1 = schedulers k" "runs k1 (put Scheduled core p (rotate1 (C Scheduled core p)) C)"
proof (cases "C Scheduled core p")
  case Nil
  then have "put Scheduled core p [] C = C" using put_same [of Scheduled core p C] by simp
  note f = scheduled_front_at [OF assms]
  from \<open>put Scheduled core p [] C = C\<close> show ?thesis using that [of None None k] Nil assms(1) f by (simp add: rotate_front_def)
next
  case (Cons t ts)
  note f = scheduled_front_at [OF assms]
  have t: "t \<in> runnable k" "m_core_id (threads k t) = int core" "m_priority (threads k t) = int p"
    using queued_iff [of "threads k" "runnable k" C core p t Scheduled] assms Cons by (auto simp: runs_def pq_inv_def place_def split: if_splits)
  obtain q where q: "MoveToScheduledBack t (threads k) (m_priority_queue k) = Some (Some (hd (rotate1 (C Scheduled core p))), q)"
    "pq_inv q (threads k) (runnable k) (put Scheduled core p (rotate1 (C Scheduled core p)) C)" "pq_asserted q = pq_asserted (m_priority_queue k)"
    using MoveToScheduledBack_inv [OF runs_pq [OF assms(1)] t] Cons by auto
  let ?k = "k\<lparr>m_priority_queue := q\<rparr>" and ?n = "hd (rotate1 (C Scheduled core p))"
  have s: "keeps k ?k" "schedulers ?k = schedulers k" "runs ?k (put Scheduled core p (rotate1 (C Scheduled core p)) C)"
    using keeps_queue [OF q(3)] q(2) by (simp_all add: runs_def runnable_def)
  have st: "stays ?k (IncrementScheduledCount ?n (IncrementScheduledCount t ?k))" by (rule stays_trans [OF stays_simple(3) stays_simple(3)])
  show ?thesis
  proof (cases "?n = t")
    case True
    then show ?thesis using that [of "Some t" "Some t" ?k] q(1) s Cons f by (simp add: rotate_front_def)
  next
    case False
    show ?thesis using that [of "Some t" "Some ?n" "IncrementScheduledCount ?n (IncrementScheduledCount t ?k)"] False q(1) Cons
        keeps_trans [OF s(1) stays_keeps [OF st]] stays_runs [OF st s(3)] f by (simp add: rotate_front_def)
  qed
qed

lemma rotate_suggested_settles:
  assumes "runs k C" "core < NumCores" "t \<in> set (run_queue C Suggested core)"
  shows "\<exists>r. rotate_suggested (int core) top_thread next_thread k t u = Some r \<and> (\<forall>k'. r = Inl k' \<longrightarrow> settles k (Some k'))"
proof -
  obtain v where v: "scheduled_top (m_core_id (threads k t)) k = Some v" using scheduled_top_defined [OF assms] .
  obtain k' C' where m: "migrate_counted (m_core_id (threads k t)) (int core) t True k = Some k'" "settles k (Some k')"
    using migrate_counted_settles [OF assms, of True] by (auto simp: settles_def)
  show ?thesis using v m settles_refl [OF assms(1)] by (auto simp: rotate_suggested_def)
qed

lemma rotate_better_settles:
  assumes "runs k C" "core < NumCores" "t \<in> set (run_queue C Suggested core)"
  shows "\<exists>r. rotate_better (int core) b k t u = Some r \<and> (\<forall>k'. r = Inl k' \<longrightarrow> settles k (Some k'))"
proof -
  obtain v where v: "scheduled_top (m_core_id (threads k t)) k = Some v" using scheduled_top_defined [OF assms] .
  obtain k' where m: "migrate_counted (m_core_id (threads k t)) (int core) t True k = Some k'" "settles k (Some k')"
    using migrate_counted_settles [OF assms, of True] by (auto simp: settles_def)
  show ?thesis using v m settles_refl [OF assms(1)] by (auto simp: rotate_better_def)
qed

lemma migrate_same_settles:
  assumes "runs k C" "core < NumCores" "p < NumPriority"
  shows "settles k (migrate_same (int core) (int p) top_thread next_thread k)"
    "C Suggested core p = [] \<Longrightarrow> migrate_same (int core) (int p) top_thread next_thread k = Some k"
proof -
  let ?xs = "C Suggested core p" and ?body = "rotate_suggested (int core) top_thread next_thread k"
  have rp: "represents (m_priority_queue k) C" using assms(1) by (simp add: runs_def pq_inv_def)
  have i: "t \<in> set (run_queue C Suggested core)" if "t \<in> set ?xs" for t using that assms(3) run_queue_iff by blast
  have "search (\<lambda>t. GetSamePriorityNext (int core) t (m_priority_queue k)) ?body (first ?xs) () = scan ?body ?xs ()"
    by (rule search_scan) (use represents_at(3) [OF rp assms(2,3), of Suggested] GetSamePriorityNext_after [OF rp assms(2,3)] in simp_all)
  then have m: "migrate_same (int core) (int p) top_thread next_thread k = map_option (\<lambda>r. case r of Inl k' \<Rightarrow> k' | Inr _ \<Rightarrow> k) (scan ?body ?xs ())"
    using scheduled_front_at(2) [OF assms] by (cases "scan ?body ?xs ()") (simp_all add: migrate_same_def)
  obtain r where r: "scan ?body ?xs () = Some r" "\<And>k'. r = Inl k' \<Longrightarrow> settles k (Some k')"
    using scan_settles [of ?xs ?body k "\<lambda>x. x" "()"] rotate_suggested_settles [OF assms(1,2) i] by blast
  then show "settles k (migrate_same (int core) (int p) top_thread next_thread k)" using m settles_refl [OF assms(1)] by (cases r) simp_all
  show "?xs = [] \<Longrightarrow> migrate_same (int core) (int p) top_thread next_thread k = Some k" using m by simp
qed

lemma migrate_better_settles:
  assumes "runs k C" "core < NumCores"
  shows "settles k (migrate_better (int core) priority k)" "run_queue C Suggested core = [] \<Longrightarrow> migrate_better (int core) priority k = Some k"
proof -
  let ?xs = "run_queue C Suggested core" and ?best = "first (run_queue C Scheduled core)"
  have "\<exists>bt. (if ?best = Some (current_thread k) then GetScheduledNext (threads k) (int core) (current_thread k) (m_priority_queue k) else Some ?best) = Some bt"
    using pq_next(1) [OF runs_pq [OF assms(1)] assms(2) first_in [of "run_queue C Scheduled core"]] by auto
  then obtain bt where bt: "(if ?best = Some (current_thread k) then GetScheduledNext (threads k) (int core) (current_thread k) (m_priority_queue k) else Some ?best) = Some bt"
    by blast
  show "settles k (migrate_better (int core) priority k)"
  proof (cases bt)
    case (Some b)
    obtain r where r: "scan (rotate_better (int core) b k) ?xs () = Some r" "\<And>k'. r = Inl k' \<Longrightarrow> settles k (Some k')"
      using scan_settles [of ?xs "rotate_better (int core) b k" k "\<lambda>x. x" "()"] rotate_better_settles [OF assms] by blast
    then show ?thesis using Some bt runs_front [OF assms] settles_refl [OF assms(1)]
      by (cases r) (simp_all add: migrate_better_def suggested_search [OF assms])
  qed (use bt runs_front [OF assms] settles_refl [OF assms(1)] in \<open>simp add: migrate_better_def\<close>)
  show "?xs = [] \<Longrightarrow> migrate_better (int core) priority k = Some k"
    using bt runs_front [OF assms] by (cases bt) (simp_all add: migrate_better_def search.simps)
qed

lemma RotateScheduledQueue_rotates:
  assumes "runs k C" "IsSchedulerLockedByCurrentThread k" "core < NumCores" "p < NumPriority"
  shows "settles k (RotateScheduledQueue (int core) (int p) k)"
    "run_queue C Suggested core = [] \<Longrightarrow> \<exists>k'. RotateScheduledQueue (int core) (int p) k = Some k' \<and> keeps k k' \<and>
      runs k' (put Scheduled core p (rotate1 (C Scheduled core p)) C)"
proof -
  let ?C1 = "put Scheduled core p (rotate1 (C Scheduled core p)) C"
  obtain t n k1 where f: "rotate_front (int core) (int p) k = Some (t, n, k1)" "keeps k k1" "schedulers k1 = schedulers k" "runs k1 ?C1"
    by (rule rotate_front_rotates [OF assms(1,3,4)])
  note same = migrate_same_settles [OF f(4) assms(3,4), of t n]
  obtain k2 C2 where k2: "migrate_same (int core) (int p) t n k1 = Some k2" "keeps k1 k2" "schedulers k2 = schedulers k1" "runs k2 C2"
    by (rule settles_obtain [OF same(1)])
  obtain k3 C3 where k3: "migrate_better (int core) (int p) k2 = Some k3" "keeps k2 k3" "schedulers k3 = schedulers k2" "runs k3 C3"
    by (rule settles_obtain [OF migrate_better_settles(1) [OF k2(4) assms(3)]])
  have r: "RotateScheduledQueue (int core) (int p) k = Some (SetSchedulerUpdateNeeded k3)"
    using assms(2) f(1) k2(1) k3(1) by (simp add: RotateScheduledQueue_def)
  show "settles k (RotateScheduledQueue (int core) (int p) k)"
    by (rule settlesI [OF r stays_simple(1) _ _ k3(4)]) (use f k2 k3 in \<open>auto intro: keeps_trans\<close>)
  assume e: "run_queue C Suggested core = []"
  then have "C Suggested core p = []" using assms(4) by (simp add: run_queue_def)
  then have "k2 = k1" using same(2) k2(1) by simp
  moreover have "run_queue ?C1 Suggested core = []" using e by (simp add: run_queue_def)
  then have "k3 = k2" using migrate_better_settles(2) [OF f(4) assms(3)] k3(1) \<open>k2 = k1\<close> by simp
  ultimately show "\<exists>k'. RotateScheduledQueue (int core) (int p) k = Some k' \<and> keeps k k' \<and> runs k' ?C1"
    using r f(2,4) stays_runs [OF stays_simple(1) f(4)] keeps_trans [OF f(2) stays_keeps [OF stays_simple(1)]] by auto
qed

lemma keeps_locked: "keeps k k' \<Longrightarrow> IsSchedulerLockedByCurrentThread k' = IsSchedulerLockedByCurrentThread k"
  using keepsD(9,10) [of k k'] by (simp add: IsSchedulerLockedByCurrentThread_def)

lemma PreemptThreads_settles:
  assumes "runs k C" "IsSchedulerLockedByCurrentThread k"
  shows "settles k (PreemptThreads k)"
proof -
  have all: "settles k (run_ops (\<lambda>(core, priority). RotateScheduledQueue core priority) xs k)"
    if "\<forall>(c, p)\<in>set xs. \<exists>c' p'. c = int c' \<and> c' < NumCores \<and> p = int p' \<and> p' < NumPriority" "runs k C" "IsSchedulerLockedByCurrentThread k" for xs k C
    using that
  proof (induction xs arbitrary: k C)
    case Nil
    then show ?case by (simp add: settles_refl)
  next
    case (Cons x xs)
    obtain c p where x: "x = (int c, int p)" "c < NumCores" "p < NumPriority" using Cons.prems(1) by auto
    obtain k1 C1 where k1: "RotateScheduledQueue (int c) (int p) k = Some k1" "keeps k k1" "schedulers k1 = schedulers k" "runs k1 C1"
      by (rule settles_obtain [OF RotateScheduledQueue_rotates(1) [OF Cons.prems(2,3) x(2,3)]])
    have "settles k1 (run_ops (\<lambda>(core, priority). RotateScheduledQueue core priority) xs k1)"
      using Cons.IH [OF _ k1(4)] Cons.prems k1(2) keeps_locked by auto
    then show ?case using k1 x(1) by (auto simp: settles_def intro: keeps_trans)
  qed
  have "\<forall>(c, p)\<in>set [(0, 59), (1, 59), (2, 59), (3 :: int, 63 :: int)]. \<exists>c' p'. c = int c' \<and> c' < NumCores \<and> p = int p' \<and> p' < NumPriority"
    by (auto simp: NumCores_def NumPriority_64 intro: exI [of _ "nat _"])
  from all [OF this assms] show ?thesis unfolding PreemptThreads_def assert_that_True [OF assms(2)] .
qed

text \<open>
  C30.  Rotation gives every thread of the priority its turn.  \<open>RotateScheduledQueue\<close> is defined and leaves
  the run queues in order.  On a core that no thread is suggested for it moves the first thread of the
  priority to the end and changes nothing else; so after \<open>i\<close> rotations the \<open>i\<close>-th thread is the first.
\<close>

theorem rotation_is_fair:
  assumes "runs k C" "IsSchedulerLockedByCurrentThread k" "core < NumCores" "p < NumPriority" "run_queue C Suggested core = []"
  shows "\<exists>k' C'. run_ops (\<lambda>_. RotateScheduledQueue (int core) (int p)) [0..<i] k = Some k' \<and> runs k' C' \<and>
    C' = put Scheduled core p (rotate i (C Scheduled core p)) C \<and>
    (i < length (C Scheduled core p) \<longrightarrow> first (C' Scheduled core p) = Some (C Scheduled core p ! i))"
proof -
  have "\<exists>k'. run_ops (\<lambda>_. RotateScheduledQueue (int core) (int p)) [0..<i] k = Some k' \<and> keeps k k' \<and>
    runs k' (put Scheduled core p (rotate i (C Scheduled core p)) C)"
  proof (induction i)
    case 0
    then show ?case using assms(1) by simp
  next
    case (Suc i)
    let ?C = "put Scheduled core p (rotate i (C Scheduled core p)) C"
    obtain k1 where k1: "run_ops (\<lambda>_. RotateScheduledQueue (int core) (int p)) [0..<i] k = Some k1" "keeps k k1" "runs k1 ?C" using Suc.IH by blast
    have e: "run_queue ?C Suggested core = []" using assms(5) by (simp add: run_queue_def)
    have l: "IsSchedulerLockedByCurrentThread k1" using keeps_locked [OF k1(2)] assms(2) by simp
    obtain k2 where k2: "RotateScheduledQueue (int core) (int p) k1 = Some k2" "keeps k1 k2"
      "runs k2 (put Scheduled core p (rotate1 (?C Scheduled core p)) ?C)" using RotateScheduledQueue_rotates(2) [OF k1(3) l assms(3,4) e] by blast
    have "put Scheduled core p (rotate1 (?C Scheduled core p)) ?C = put Scheduled core p (rotate (Suc i) (C Scheduled core p)) C"
      by (simp add: put_def)
    with k2(3) have "runs k2 (put Scheduled core p (rotate (Suc i) (C Scheduled core p)) C)" by (simp only:)
    then show ?case using k1(1) k2(1) keeps_trans [OF k1(2) k2(2)] by (simp add: run_ops_append del: put_apply)
  qed
  moreover have "first (rotate i xs) = Some (xs ! i)" if "i < length xs" for xs :: "nat list" using that by (auto simp: first_hd hd_rotate_conv_nth)
  ultimately show ?thesis by fastforce
qed

section \<open>Yields\<close>

lemma move_to_back_moves:
  assumes "runs k C" "cur \<in> runnable k" "0 \<le> m_core_id (threads k cur)"
  obtains n k1 C1 where "move_to_back cur k = Some (Some n, k1)" "keeps k k1" "schedulers k1 = schedulers k" "runs k1 C1"
proof -
  note v = runnable_valid [OF assms(1,2)]
  obtain p where p: "m_priority (threads k cur) = int p" using valid_priority [OF v] by blast
  have c: "m_core_id (threads k cur) = int (nat (m_core_id (threads k cur)))" using assms(3) by simp
  obtain n q C1 where q: "MoveToScheduledBack cur (threads k) (m_priority_queue k) = Some (Some n, q)" "pq_inv q (threads k) (runnable k) C1"
    "pq_asserted q = pq_asserted (m_priority_queue k)"
    using MoveToScheduledBack_inv [OF runs_pq [OF assms(1)] assms(2) c p] by blast
  let ?k = "k\<lparr>m_priority_queue := q\<rparr>"
  have r: "runs ?k C1" using q(2) by (simp add: runs_def runnable_def)
  show ?thesis using that [of n "IncrementScheduledCount cur ?k" C1] q(1) stays_runs [OF stays_simple(3) r]
      keeps_trans [OF keeps_queue [OF q(3)] stays_keeps [OF stays_simple(3)]] by (simp add: move_to_back_def)
qed

text \<open>The current thread, when it yields.\<close>

definition may_yield :: "nat \<Rightarrow> ('a, 'b) kern \<Rightarrow> bool" where
  "may_yield cur k \<longleftrightarrow> m_thread_state (threads k cur) = Runnable \<longrightarrow> \<not> is_dummy (threads k cur) \<and> 0 \<le> m_core_id (threads k cur)"

lemma may_yield_runnable: "may_yield cur k \<Longrightarrow> m_thread_state (threads k cur) = Runnable \<Longrightarrow> cur \<in> runnable k \<and> 0 \<le> m_core_id (threads k cur)"
  by (simp add: may_yield_def runnable_def)

lemma yield_without_migration_settles:
  assumes "runs k C" "may_yield cur k"
  shows "settles k (yield_without_migration cur process k)"
proof (cases "m_thread_state (threads k cur) = Runnable")
  case True
  obtain n k1 C1 where m: "move_to_back cur k = Some (Some n, k1)" "keeps k k1" "schedulers k1 = schedulers k" "runs k1 C1"
    using move_to_back_moves [OF assms(1)] may_yield_runnable [OF assms(2) True] by blast
  have s: "settles k (Some k1)" using m by (auto simp: settles_def)
  show ?thesis using True m(1) settles_stays [OF s stays_simple(1)] settles_stays [OF s stays_simple(4)] by (simp add: yield_without_migration_def)
qed (simp add: yield_without_migration_def settles_refl [OF assms(1)])

lemma yield_suggested_settles:
  assumes "runs k C" "core < NumCores" "t \<in> set (run_queue C Suggested core)"
  shows "\<exists>r. yield_suggested (int core) cur (Some n) k t b = Some r \<and> (\<forall>x. r = Inl x \<longrightarrow> settles k (Some (fst x)))"
proof -
  note s = suggested_thread [OF assms]
  obtain k' where m: "migrate_counted (m_core_id (threads k t)) (int core) t True k = Some k'" "settles k (Some k')"
    using migrate_counted_settles [OF assms, of True] by (auto simp: settles_def)
  have "\<not> m_core_id (threads k t) \<ge> int NumCores" using s(5) by auto
  then show ?thesis using m settles_refl [OF assms(1)] by (auto simp: yield_suggested_def Let_def)
qed

lemma core_of:
  assumes "runs k C" "cur \<in> runnable k" "0 \<le> m_core_id (threads k cur)"
  obtains c where "m_core_id (threads k cur) = int c" "c < NumCores"
  using runnable_valid [OF assms(1,2)] assms(3) that [of "nat (m_core_id (threads k cur))"] by (auto simp: valid_thread_def)

lemma yield_with_migration_settles:
  assumes "runs k C" "may_yield cur k"
  shows "settles k (yield_with_migration cur process k)"
proof (cases "m_thread_state (threads k cur) = Runnable")
  case True
  note y = may_yield_runnable [OF assms(2) True]
  obtain c where c: "m_core_id (threads k cur) = int c" "c < NumCores" using core_of [OF assms(1)] y by blast
  obtain n k1 C1 where m: "move_to_back cur k = Some (Some n, k1)" "keeps k k1" "schedulers k1 = schedulers k" "runs k1 C1"
    using move_to_back_moves [OF assms(1)] y by blast
  let ?body = "yield_suggested (int c) cur (Some n) k1" and ?xs = "run_queue C1 Suggested c"
  obtain r where r: "scan ?body ?xs False = Some r" "\<And>x. r = Inl x \<Longrightarrow> settles k1 (Some (fst x))"
    using scan_settles [of ?xs ?body k1 fst False] yield_suggested_settles [OF m(4) c(2)] by blast
  obtain k2 h b where x: "(case r of Inl x \<Rightarrow> x | Inr recheck \<Rightarrow> (k1, False, recheck)) = (k2, h, b)" by (cases "case r of Inl x \<Rightarrow> x | Inr recheck \<Rightarrow> (k1, False, recheck)") auto
  have "settles k1 (Some k2)" using x r(2) settles_refl [OF m(4)] by (cases r) auto
  then have s: "settles k (Some k2)" using m(2,3) by (auto simp: settles_def intro: keeps_trans)
  have "yield_with_migration cur process k = Some (if h \<or> Some n \<noteq> Some cur then SetSchedulerUpdateNeeded k2
      else if \<not> b then SetYieldScheduleCount cur process k2 else k2)"
    using True m(1) c(1) r(1) x runs_front(2) [OF m(4) c(2)] by (simp add: yield_with_migration_def suggested_search [OF m(4) c(2)])
  then show ?thesis using s settles_stays [OF s stays_simple(1)] settles_stays [OF s stays_simple(4)] by simp
qed (simp add: yield_with_migration_def settles_refl [OF assms(1)])

lemma yield_any_suggested_settles:
  assumes "runs k C" "core < NumCores" "t \<in> set (run_queue C Suggested core)"
  shows "\<exists>r. yield_any_suggested (int core) k t u = Some r \<and> (\<forall>x. r = Inl x \<longrightarrow> settles k (Some (fst x)))"
proof -
  obtain v where v: "scheduled_top (m_core_id (threads k t)) k = Some v" using scheduled_top_defined [OF assms] .
  obtain k' where m: "migrate_counted (m_core_id (threads k t)) (int core) t False k = Some k'" "settles k (Some k')"
    using migrate_counted_settles [OF assms, of False] by (auto simp: settles_def)
  show ?thesis using v m settles_refl [OF assms(1)] by (auto simp: yield_any_suggested_def)
qed

lemma yield_to_any_settles:
  assumes "runs k C" "may_yield cur k"
  shows "settles k (yield_to_any cur process k)"
proof (cases "m_thread_state (threads k cur) = Runnable")
  case True
  note y = may_yield_runnable [OF assms(2) True]
  obtain c where c: "m_core_id (threads k cur) = int c" "c < NumCores" using core_of [OF assms(1)] y by blast
  have v: "valid_thread ((threads k cur)\<lparr>m_core_id := - 1\<rparr>)" using runnable_valid [OF assms(1)] y by (auto simp: valid_thread_def)
  obtain k0 where m: "migrate (m_core_id (threads k cur)) (- 1) cur False k = Some k0" "keeps k k0" "schedulers k0 = schedulers k"
    "runs k0 (rehome (m_core_id (threads k cur)) False (threads k0 cur) cur C)"
    using migrate_to [OF assms(1) _ v, of False] y c(1) by (metis of_nat_0_le_iff neg_0_le_iff_le not_one_le_zero)
  define k1 C1 where "k1 = IncrementScheduledCount cur k0" and "C1 = rehome (m_core_id (threads k cur)) False (threads k0 cur) cur C"
  have k1: "migrate_counted (int c) (- 1) cur False k = Some k1" "runs k1 C1" using m(1) c(1) stays_runs [OF stays_simple(3) m(4)]
    by (simp_all add: migrate_counted_def k1_def C1_def)
  have s1: "settles k (Some k1)" by (rule settlesI [OF refl _ m(2) _ m(4)]) (simp_all add: k1_def m(3))
  let ?body = "yield_any_suggested (int c) k1" and ?xs = "run_queue C1 Suggested c"
  obtain r where r: "scan ?body ?xs () = Some r" "\<And>x. r = Inl x \<Longrightarrow> settles k1 (Some (fst x))"
    using scan_settles [of ?xs ?body k1 fst "()"] yield_any_suggested_settles [OF k1(2) c(2)] by blast
  obtain k2 t where x: "(case r of Inl (k', t) \<Rightarrow> (k', Some t) | Inr _ \<Rightarrow> (k1, None)) = (k2, t)" by (metis surj_pair)
  have "settles k1 (Some k2)" using x r(2) settles_refl [OF k1(2)] by (cases r) auto
  then have s: "settles k (Some k2)" using s1 by (auto simp: settles_def intro: keeps_trans)
  have "yield_to_any cur process k = (if first (run_queue C1 Scheduled c) = None
      then Some (if t \<noteq> Some cur then SetSchedulerUpdateNeeded k2 else SetYieldScheduleCount cur process k2) else Some (SetSchedulerUpdateNeeded k1))"
    using True k1(1) c(1) r(1) x runs_front [OF k1(2) c(2)] by (auto simp: yield_to_any_def Let_def suggested_search [OF k1(2) c(2)])
  then show ?thesis using settles_stays [OF s stays_simple(1)] settles_stays [OF s stays_simple(4)] settles_stays [OF s1 stays_simple(1)] by simp
qed (simp add: yield_to_any_def settles_refl [OF assms(1)])

lemma Lock_effect:
  assumes "m_owner_thread k = None" "m_lock_count k = 0"
  shows "queue_view (Lock k) = queue_view k" "IsSchedulerLockedByCurrentThread (Lock k)" "m_lock_count (Lock k) = 1"
    "current_thread (Lock k) = current_thread k" "schedulers (Lock k) = schedulers k"
  using assms by (simp_all add: Lock_def IsSchedulerLockedByCurrentThread_def Let_def queue_view_def DisableScheduling_def assert_that_def set_thread_def fun_eq_iff)

lemma with_scheduler_lock_settles:
  assumes "runs k C" "m_owner_thread k = None" "m_lock_count k = 0" "runs (Lock k) C \<Longrightarrow> settles (Lock k) (body (Lock k))"
  shows "\<exists>returns k' C'. with_scheduler_lock body k = Some (returns, k') \<and> m_owner_thread k' = None \<and> runs k' C'"
proof -
  note l = Lock_effect [OF assms(2,3)]
  obtain k1 C1 where k1: "body (Lock k) = Some k1" "keeps (Lock k) k1" "schedulers k1 = schedulers (Lock k)" "runs k1 C1"
    by (rule settles_obtain [OF assms(4) [OF runs_view [OF l(1) assms(1)]]])
  have "IsSchedulerLockedByCurrentThread k1" "m_lock_count k1 = 1" using keeps_locked [OF k1(2)] l(2,3) keepsD(11) [OF k1(2)] by simp_all
  from unlock_tells [OF k1(4) this] show ?thesis using k1(1) by (auto simp: with_scheduler_lock_def)
qed

text \<open>
  C31.  Yields.  For a current thread of a process that, if it is runnable, has an active core, each of the
  three yields is defined, whatever threads it meets on its search: it takes the lock, changes the queues,
  and returns or switches with the lock free and the run queues in order.
\<close>

theorem yields_keep_queues:
  assumes "runs k C" "m_owner_thread k = None" "m_lock_count k = 0" "m_parent (threads k (current_thread k)) = Some process"
    and "disable_count (threads k (current_thread k)) = 0"
    and "m_thread_state (threads k (current_thread k)) = Runnable \<longrightarrow>
      \<not> is_dummy (threads k (current_thread k)) \<and> 0 \<le> m_core_id (threads k (current_thread k))"
  shows "(\<exists>returns k' C'. YieldWithoutCoreMigration k = Some (returns, k') \<and> m_owner_thread k' = None \<and> runs k' C') \<and>
    (\<exists>returns k' C'. YieldWithCoreMigration k = Some (returns, k') \<and> m_owner_thread k' = None \<and> runs k' C') \<and>
    (\<exists>returns k' C'. YieldToAnyThread k = Some (returns, k') \<and> m_owner_thread k' = None \<and> runs k' C')"
proof -
  let ?cur = "current_thread k"
  have y: "may_yield ?cur (Lock k)"
    using assms(6) Lock_effect(1) [OF assms(2,3)] by (simp add: may_yield_def queue_view_def fun_eq_iff)
  have "\<exists>returns k' C'. yield_with body k = Some (returns, k') \<and> m_owner_thread k' = None \<and> runs k' C'"
    if "runs (Lock k) C \<Longrightarrow> settles (Lock k) (body ?cur process (Lock k))" for body
    using with_scheduler_lock_settles [OF assms(1-3), of "body ?cur process"] that assms(1,2,4,5)
    by (cases "m_schedule_count (threads k ?cur) = process_schedule_count (processes k process)") (auto simp: yield_with_def Let_def)
  then show ?thesis
    unfolding YieldWithoutCoreMigration_def YieldWithCoreMigration_def YieldToAnyThread_def
    using yield_without_migration_settles [OF _ y] yield_with_migration_settles [OF _ y] yield_to_any_settles [OF _ y] by blast
qed

section \<open>Concrete kernels\<close>

definition example_sched_thread :: "u16 \<Rightarrow> sched_thread" where
  "example_sched_thread s = \<lparr>m_priority = 44, m_core_id = 0, m_affinity_mask = 7, is_dummy = False, m_thread_state = s, m_last_scheduled_tick = 0,
     m_schedule_count = -1, m_parent = Some 0, m_num_kernel_waiters = 0, disable_count = 0, m_dummy_thread_runnable = True\<rparr>"

definition example_threads :: "nat \<Rightarrow> sched_thread" where
  "example_threads t = example_sched_thread (if t = 1 then Runnable else Initialized)"

definition example_kernel :: "bool \<Rightarrow> k_priority_queue \<Rightarrow> (unit, unit) kern" where
  "example_kernel locked q = \<lparr>threads = example_threads,
     processes = (\<lambda>_. \<lparr>process_schedule_count = 0, m_pinned_threads = (\<lambda>_. None), m_running_threads = (\<lambda>_. None),
       m_running_thread_idle_counts = (\<lambda>_. 0), m_running_thread_switch_counts = (\<lambda>_. 0)\<rparr>),
     schedulers = (\<lambda>c. \<lparr>needs_scheduling = False, interrupt_task_runnable = False, should_count_idle = False, idle_count = 0,
       highest_priority_thread = (if c = 0 then Some 1 else None), prev_thread = None, m_switch_cur_thread = None,
       m_switch_highest_priority_thread = None, m_switch_from_schedule = False\<rparr>),
     m_priority_queue = q, m_scheduler_update_needed = True, m_woken_dummy_threads = [],
     m_owner_thread = (if locked then Some 1 else None), m_lock_count = (if locked then 1 else 0), current_thread = 1, current_core = 0,
     on_core_thread = True, clock_ticks = 0, interrupted = {}, asserted = True\<rparr>"

lemma example_kernel_runs:
  obtains q C where "\<forall>l. runs (example_kernel l q) C" "run_queue C Scheduled 0 = [1]" "C Scheduled 0 44 = [1]"
    "\<forall>c. c \<noteq> 0 \<longrightarrow> run_queue C Scheduled c = []" "run_queue C Suggested 0 = []"
proof -
  have v: "valid_thread (example_threads 1)"
    using example_thread_valid(2) by (simp add: valid_thread_def example_threads_def example_sched_thread_def example_thread_def)
  have "pq_inv empty_queue example_threads {} (\<lambda>_ _ _. [])" by (simp add: pq_inv_def represents_empty queued_empty)
  from PushBack_inv [OF this _ v] obtain q where q: "pq_inv q example_threads {1} (enqueue False (example_threads 1) 1 (\<lambda>_ _ _. []))" by auto
  let ?C = "enqueue False (example_threads 1) 1 (\<lambda>_ _ _. [])"
  have E: "runnable (example_kernel l q) = {1}" for l
    by (auto simp: runnable_def example_kernel_def example_threads_def example_sched_thread_def Runnable_def Initialized_def split: if_splits)
  have pl: "place (example_threads 1) c = (if c = 0 then Some Scheduled else if bit (7 :: u64) c then Some Suggested else None)" for c
    by (simp add: place_def example_threads_def example_sched_thread_def)
  have C: "?C k c p = (if p = 44 \<and> place (example_threads 1) c = Some k then [1] else [])" for k c p
    by (auto simp: enqueue_def example_threads_def example_sched_thread_def)
  have only: "concat (map (\<lambda>p. if p = 44 \<and> b then [1 :: nat] else []) [0..<n]) = (if 44 < n \<and> b then [1] else [])" for b and n :: nat
    by (induction n) auto
  have R: "run_queue ?C k c = (if place (example_threads 1) c = Some k then [1] else [])" for k c
    unfolding run_queue_def C NumPriority_64 only by simp
  show ?thesis
  proof (rule that [of q ?C])
    show "\<forall>l. runs (example_kernel l q) ?C" using q E by (simp add: runs_def example_kernel_def)
  qed (simp_all add: R C pl del: One_nat_def)
qed

lemma example_kernel_simps:
  "IsSchedulerLockedByCurrentThread (example_kernel True q)" "m_lock_count (example_kernel True q) = 1" "unpinned (example_kernel l q)"
  "m_owner_thread (example_kernel False q) = None" "m_lock_count (example_kernel False q) = 0"
  by (simp_all add: IsSchedulerLockedByCurrentThread_def example_kernel_def unpinned_def)

theorem highest_priority_threads_chosen_witness:
  "\<exists>q C cores k' C'. runs (example_kernel True q) C \<and> UpdateHighestPriorityThreadsImpl (example_kernel True q) = Some (cores, k') \<and>
     runs k' C' \<and> highest_priority_thread (schedulers k' 0) = first (run_queue C' Scheduled 0) \<and> run_queue C' Scheduled 0 \<noteq> []"
proof -
  obtain q C where r: "\<forall>l. runs (example_kernel l q) C" "run_queue C Scheduled 0 = [1]" "C Scheduled 0 44 = [1]"
    "\<forall>c. c \<noteq> 0 \<longrightarrow> run_queue C Scheduled c = []" "run_queue C Suggested 0 = []" by (rule example_kernel_runs)
  have "0 < NumCores" by (simp add: NumCores_def)
  then show ?thesis using highest_priority_threads_chosen [OF r(1) [rule_format] example_kernel_simps(1)] example_kernel_simps(3) r(1,2) by (metis list.distinct(1))
qed

theorem idle_core_filled_witness:
  "\<exists>q C cores' tops' k' C'. runs (example_kernel True q) C \<and>
     fill_core 1 (0, (\<lambda>c. if c = 0 then Some 1 else None), example_kernel True q) = Some (cores', tops', k') \<and> runs k' C' \<and> exact tops' C'"
proof -
  obtain q C where r: "\<forall>l. runs (example_kernel l q) C" "run_queue C Scheduled 0 = [1]" "C Scheduled 0 44 = [1]"
    "\<forall>c. c \<noteq> 0 \<longrightarrow> run_queue C Scheduled c = []" "run_queue C Suggested 0 = []" by (rule example_kernel_runs)
  let ?tops = "\<lambda>c :: nat. if c = 0 then Some (1 :: nat) else None" and ?k = "example_kernel True q"
  have "exact ?tops C" "tracked ?k (0, ?tops, ?k)" "agreed NumCores (0, ?tops, ?k)" "1 < NumCores" "run_queue C Scheduled 1 = []"
    using r(2) r(4) [rule_format] by (auto simp: exact_def tracked_def agreed_def example_kernel_def NumCores_def)
  from idle_core_filled [OF r(1) [rule_format] this] show ?thesis using r(1) by blast
qed

theorem unlock_tells_every_core_witness:
  "\<exists>q C returns k' C'. runs (example_kernel True q) C \<and> Unlock (example_kernel True q) = Some (returns, k') \<and> m_owner_thread k' = None \<and> runs k' C'"
proof -
  obtain q C where r: "\<forall>l. runs (example_kernel l q) C" "run_queue C Scheduled 0 = [1]" "C Scheduled 0 44 = [1]"
    "\<forall>c. c \<noteq> 0 \<longrightarrow> run_queue C Scheduled c = []" "run_queue C Suggested 0 = []" by (rule example_kernel_runs)
  from unlock_tells_every_core [OF r(1) [rule_format] example_kernel_simps(1,2)] show ?thesis using r(1) by blast
qed

theorem rotation_is_fair_witness:
  "\<exists>q C k' C'. runs (example_kernel True q) C \<and> run_ops (\<lambda>_. RotateScheduledQueue 0 44) [0..<5] (example_kernel True q) = Some k' \<and>
     runs k' C' \<and> C' Scheduled 0 44 = [1]"
proof -
  obtain q C where r: "\<forall>l. runs (example_kernel l q) C" "run_queue C Scheduled 0 = [1]" "C Scheduled 0 44 = [1]"
    "\<forall>c. c \<noteq> 0 \<longrightarrow> run_queue C Scheduled c = []" "run_queue C Suggested 0 = []" by (rule example_kernel_runs)
  have n: "0 < NumCores" "44 < NumPriority" by (simp_all add: NumCores_def NumPriority_64)
  obtain k' C' where k': "run_ops (\<lambda>_. RotateScheduledQueue (int 0) (int 44)) [0..<5] (example_kernel True q) = Some k'" "runs k' C'"
    "C' = put Scheduled 0 44 (rotate 5 (C Scheduled 0 44)) C"
    using rotation_is_fair [OF r(1) [rule_format] example_kernel_simps(1) n r(5), of 5] by blast
  have "C' Scheduled 0 44 = [1]" using k'(3) r(3) by (simp add: rotate_length01)
  moreover have "int 0 = 0" "int 44 = 44" by simp_all
  ultimately show ?thesis using r(1) [rule_format, of True] k'(1,2) by metis
qed

theorem yields_keep_queues_witness:
  "\<exists>q C returns k' C'. runs (example_kernel False q) C \<and> YieldToAnyThread (example_kernel False q) = Some (returns, k') \<and> runs k' C'"
proof -
  obtain q C where r: "\<forall>l. runs (example_kernel l q) C" "run_queue C Scheduled 0 = [1]" "C Scheduled 0 44 = [1]"
    "\<forall>c. c \<noteq> 0 \<longrightarrow> run_queue C Scheduled c = []" "run_queue C Suggested 0 = []" by (rule example_kernel_runs)
  let ?k = "example_kernel False q"
  have "m_parent (threads ?k (current_thread ?k)) = Some 0" "disable_count (threads ?k (current_thread ?k)) = 0"
    "m_thread_state (threads ?k (current_thread ?k)) = Runnable \<longrightarrow> \<not> is_dummy (threads ?k (current_thread ?k)) \<and> 0 \<le> m_core_id (threads ?k (current_thread ?k))"
    by (simp_all add: example_kernel_def example_threads_def example_sched_thread_def)
  from yields_keep_queues [OF r(1) [rule_format] example_kernel_simps(4,5) this] show ?thesis using r(1) by blast
qed

end
