(* ===== verification/KThread.thy ===== *)
theory KThread
  imports KScheduler
begin

text \<open>
  \<^verbatim>\<open>src/core/hle/kernel/k_thread.cpp\<close> and \<^verbatim>\<open>k_thread.h\<close>: the states of a thread, its suspension, and the
  locks with priority inheritance.  A thread that waits for a lock lends its priority to the owner, which
  lends it to the owner of the lock that it waits for itself, and so on.

  A \<open>LockWithPriorityInheritanceInfo\<close> exists for every lock that some thread waits for.  It is a number
  here; \<open>locks\<close> holds the objects and \<open>free_locks\<close> the free list of the slab they come from.  The red-black
  trees of waiting threads are the sequences that they hold, in which a thread is inserted after those it
  does not go before.  An access to a null pointer, the front of an empty tree and the removal of an
  element that a container does not have are undefined.

  The operations are what runs under the scheduler lock.  Those that take it themselves leave no trace of
  that when their caller has it already; \<open>with_scheduler_lock\<close> adds taking and releasing it for a caller
  that has not.  The thread's reason to wait, which only the debugger reads, is left out.

  The main results: through any sequence of operations each thread has the best priority of its own and of
  those that wait for it, directly or through others; restoring priorities ends even when threads wait for
  each other in a circle; releasing a lock hands it to its most urgent waiter; suspending and resuming a
  thread brings back its state.
\<close>

section \<open>State\<close>

text \<open>The queue that a waiting thread waits in, by the class that overrides its operations.\<close>

datatype wait_queue = ThreadQueueImplForKLightLock | OtherQueue nat

record lock_thread = sched_thread +
  m_base_priority :: int
  m_held_lock_info_list :: "nat list"
  m_waiting_lock_info :: "nat option"
  m_address_key :: u64
  m_address_key_value :: u32
  m_is_kernel_address_key :: bool
  m_condvar_tree :: "nat option"
  m_condvar_key :: u64
  m_suspend_request_flags :: u32
  m_suspend_allowed_flags :: u32
  is_pinned :: bool
  m_wait_queue :: "wait_queue option"
  m_wait_result :: u32

record lock_info =
  lock_address_key :: u64
  lock_is_kernel :: bool
  lock_owner :: "nat option"
  lock_tree :: "nat list"
  lock_waiter_count :: u32

record 'a thread_kernel = "'a kernel" +
  locks :: "nat \<Rightarrow> lock_info"
  free_locks :: "nat list"
  cv_trees :: "nat \<Rightarrow> nat list"

type_synonym tkern = "unit lock_thread_ext thread_kernel"

definition set_lock :: "nat \<Rightarrow> (lock_info \<Rightarrow> lock_info) \<Rightarrow> tkern \<Rightarrow> tkern" where
  "set_lock l f k = k\<lparr>locks := (locks k)(l := f (locks k l))\<rparr>"

section \<open>Locks\<close>

text \<open>Where a tree takes a new element: before the first that it goes before.\<close>

definition tree_insert :: "('a \<Rightarrow> bool) \<Rightarrow> 'a \<Rightarrow> 'a list \<Rightarrow> 'a list" where
  "tree_insert goes_before t xs = takeWhile (\<lambda>u. \<not> goes_before u) xs @ t # dropWhile (\<lambda>u. \<not> goes_before u) xs"

definition tree_erase :: "'a \<Rightarrow> 'a list \<Rightarrow> 'a list option" where
  "tree_erase t xs = (if t \<in> set xs then Some (remove1 t xs) else None)"

definition Create :: "u64 \<Rightarrow> bool \<Rightarrow> tkern \<Rightarrow> (nat \<times> tkern) option" where
  "Create address_key is_kernel_address_key k =
     (case free_locks k of
        [] \<Rightarrow> None
      | l # ls \<Rightarrow> Some (l, set_lock l (\<lambda>_. \<lparr>lock_address_key = address_key, lock_is_kernel = is_kernel_address_key, lock_owner = None,
          lock_tree = [], lock_waiter_count = 0\<rparr>) (k\<lparr>free_locks := ls\<rparr>)))"

definition Free_lock :: "nat \<Rightarrow> tkern \<Rightarrow> tkern" where
  "Free_lock l k = k\<lparr>free_locks := l # free_locks k\<rparr>"

definition Lock_AddWaiter :: "nat \<Rightarrow> nat \<Rightarrow> tkern \<Rightarrow> tkern" where
  "Lock_AddWaiter l waiter k =
     set_thread waiter (\<lambda>th. th\<lparr>m_waiting_lock_info := Some l\<rparr>)
       (set_lock l (\<lambda>i. i\<lparr>lock_tree := tree_insert (\<lambda>u. m_priority (threads k waiter) < m_priority (threads k u)) waiter (lock_tree i),
          lock_waiter_count := lock_waiter_count i + 1\<rparr>) k)"

definition Lock_RemoveWaiter :: "nat \<Rightarrow> nat \<Rightarrow> tkern \<Rightarrow> (bool \<times> tkern) option" where
  "Lock_RemoveWaiter l waiter k = do {
     tree \<leftarrow> tree_erase waiter (lock_tree (locks k l));
     let k1 = set_thread waiter (\<lambda>th. th\<lparr>m_waiting_lock_info := None\<rparr>) (set_lock l (\<lambda>i. i\<lparr>lock_tree := tree\<rparr>) k);
     let k2 = set_lock l (\<lambda>i. i\<lparr>lock_waiter_count := lock_waiter_count i - 1\<rparr>) k1;
     Some (lock_waiter_count (locks k2 l) = 0, k2)
   }"

definition GetHighestPriorityWaiter :: "nat \<Rightarrow> tkern \<Rightarrow> nat option" where
  "GetHighestPriorityWaiter l k = (case lock_tree (locks k l) of [] \<Rightarrow> None | t # _ \<Rightarrow> Some t)"

definition GetLockOwner :: "nat \<Rightarrow> tkern \<Rightarrow> nat option" where
  "GetLockOwner t k = (case m_waiting_lock_info (threads k t) of None \<Rightarrow> None | Some l \<Rightarrow> lock_owner (locks k l))"

definition locked :: "tkern \<Rightarrow> tkern" where
  "locked k = assert_that (IsSchedulerLockedByCurrentThread k) k"

definition AddHeldLock :: "nat \<Rightarrow> nat \<Rightarrow> tkern \<Rightarrow> tkern" where
  "AddHeldLock this l k =
     set_thread this (\<lambda>th. th\<lparr>m_held_lock_info_list := l # m_held_lock_info_list th\<rparr>) (set_lock l (\<lambda>i. i\<lparr>lock_owner := Some this\<rparr>) (locked k))"

definition FindHeldLock :: "nat \<Rightarrow> u64 \<Rightarrow> bool \<Rightarrow> tkern \<Rightarrow> nat option" where
  "FindHeldLock this address_key is_kernel_address_key k =
     find (\<lambda>l. lock_address_key (locks k l) = address_key \<and> lock_is_kernel (locks k l) = is_kernel_address_key)
       (m_held_lock_info_list (threads k this))"

definition erase_held :: "nat \<Rightarrow> nat \<Rightarrow> tkern \<Rightarrow> tkern option" where
  "erase_held this l k = do {
     held \<leftarrow> tree_erase l (m_held_lock_info_list (threads k this));
     Some (set_thread this (\<lambda>th. th\<lparr>m_held_lock_info_list := held\<rparr>) k)
   }"

definition add_kernel_waiters :: "nat \<Rightarrow> int \<Rightarrow> tkern \<Rightarrow> tkern" where
  "add_kernel_waiters this n = set_thread this (\<lambda>th. th\<lparr>m_num_kernel_waiters := m_num_kernel_waiters th + n\<rparr>)"

definition AddWaiterImpl :: "nat \<Rightarrow> nat \<Rightarrow> tkern \<Rightarrow> tkern option" where
  "AddWaiterImpl this thread k0 = do {
     let k = assert_that (m_condvar_tree (threads k0 thread) = None) (locked k0);
     let address_key = m_address_key (threads k thread);
     let is_kernel = m_is_kernel_address_key (threads k thread);
     let k1 = (if is_kernel
               then SetSchedulerUpdateNeeded (add_kernel_waiters this 1 (assert_that (m_num_kernel_waiters (threads k this) \<ge> 0) k))
               else k);
     (l, k2) \<leftarrow> (case FindHeldLock this address_key is_kernel k1 of
         Some l \<Rightarrow> Some (l, k1)
       | None \<Rightarrow> do {
           (l, k') \<leftarrow> Create address_key is_kernel k1;
           Some (l, AddHeldLock this l k')
         });
     Some (Lock_AddWaiter l thread k2)
   }"

definition RemoveWaiterImpl :: "nat \<Rightarrow> nat \<Rightarrow> tkern \<Rightarrow> tkern option" where
  "RemoveWaiterImpl this thread k0 = do {
     let k = locked k0;
     let k1 = (if m_is_kernel_address_key (threads k thread)
               then SetSchedulerUpdateNeeded (add_kernel_waiters this (- 1) (assert_that (m_num_kernel_waiters (threads k this) > 0) k))
               else k);
     l \<leftarrow> m_waiting_lock_info (threads k1 thread);
     let k2 = assert_that (lock_owner (locks k1 l) = Some this) k1;
     (last, k3) \<leftarrow> Lock_RemoveWaiter l thread k2;
     if last then do {
       k4 \<leftarrow> erase_held this l k3;
       Some (Free_lock l k4)
     }
     else Some k3
   }"

section \<open>Priority inheritance\<close>

primrec inherit :: "nat list \<Rightarrow> int \<Rightarrow> tkern \<Rightarrow> int option" where
  "inherit [] new_priority k = Some new_priority"
| "inherit (l # ls) new_priority k = do {
     waiter \<leftarrow> GetHighestPriorityWaiter l k;
     inherit ls (min new_priority (m_priority (threads k waiter))) k
   }"

definition cv_goes_before :: "tkern \<Rightarrow> nat \<Rightarrow> nat \<Rightarrow> bool" where
  "cv_goes_before k t u \<longleftrightarrow>
     m_condvar_key (threads k t) < m_condvar_key (threads k u) \<or>
     m_condvar_key (threads k t) = m_condvar_key (threads k u) \<and> m_priority (threads k t) < m_priority (threads k u)"

definition BeforeUpdatePriority :: "nat \<Rightarrow> nat \<Rightarrow> tkern \<Rightarrow> tkern option" where
  "BeforeUpdatePriority tree thread k = do {
     ts \<leftarrow> tree_erase thread (cv_trees k tree);
     Some ((locked k)\<lparr>cv_trees := (cv_trees k)(tree := ts)\<rparr>)
   }"

definition AfterUpdatePriority :: "nat \<Rightarrow> nat \<Rightarrow> tkern \<Rightarrow> tkern" where
  "AfterUpdatePriority tree thread k =
     (locked k)\<lparr>cv_trees := (cv_trees k)(tree := tree_insert (cv_goes_before k thread) thread (cv_trees k tree))\<rparr>"

text \<open>The part of a turn that changes the priority of one thread, and the loop.\<close>

definition change_priority :: "nat \<Rightarrow> int \<Rightarrow> nat option \<Rightarrow> tkern \<Rightarrow> tkern option" where
  "change_priority thread new_priority holder k = do {
     k1 \<leftarrow> (case holder of None \<Rightarrow> Some k | Some owner \<Rightarrow> RemoveWaiterImpl owner thread k);
     k2 \<leftarrow> (case m_condvar_tree (threads k1 thread) of None \<Rightarrow> Some k1 | Some tree \<Rightarrow> BeforeUpdatePriority tree thread k1);
     let old_priority = m_priority (threads k2 thread);
     let k3 = set_thread thread (\<lambda>th. th\<lparr>m_priority := new_priority\<rparr>) k2;
     let k4 = (case m_condvar_tree (threads k3 thread) of None \<Rightarrow> k3 | Some tree \<Rightarrow> AfterUpdatePriority tree thread k3);
     k5 \<leftarrow> (case holder of None \<Rightarrow> Some k4 | Some owner \<Rightarrow> AddWaiterImpl owner thread k4);
     OnThreadPriorityChanged thread old_priority k5
   }"

partial_function (option) RestorePriority_loop :: "nat option \<Rightarrow> tkern \<Rightarrow> tkern option" where
  "RestorePriority_loop cur k =
     (case cur of
        None \<Rightarrow> Some k
      | Some thread \<Rightarrow> do {
          new_priority \<leftarrow> inherit (m_held_lock_info_list (threads k thread)) (m_base_priority (threads k thread)) k;
          if new_priority = m_priority (threads k thread) then Some k
          else do {
            let holder = GetLockOwner thread k;
            k' \<leftarrow> change_priority thread new_priority holder k;
            RestorePriority_loop holder k'
          }
        })"

definition RestorePriority :: "nat \<Rightarrow> tkern \<Rightarrow> tkern option" where
  "RestorePriority thread k = RestorePriority_loop (Some thread) (locked k)"

definition AddWaiter :: "nat \<Rightarrow> nat \<Rightarrow> tkern \<Rightarrow> tkern option" where
  "AddWaiter this thread k = do {
     k1 \<leftarrow> AddWaiterImpl this thread k;
     if m_priority (threads k1 thread) < m_priority (threads k1 this) then RestorePriority this k1 else Some k1
   }"

definition RemoveWaiter :: "nat \<Rightarrow> nat \<Rightarrow> tkern \<Rightarrow> tkern option" where
  "RemoveWaiter this thread k = do {
     k1 \<leftarrow> RemoveWaiterImpl this thread k;
     if m_priority (threads k1 this) = m_priority (threads k1 thread) \<and> m_priority (threads k1 this) < m_base_priority (threads k1 this)
     then RestorePriority this k1 else Some k1
   }"

text \<open>The result is the next owner and whether others still wait.\<close>

definition RemoveWaiterByKey :: "nat \<Rightarrow> u64 \<Rightarrow> bool \<Rightarrow> tkern \<Rightarrow> ((nat option \<times> bool) \<times> tkern) option" where
  "RemoveWaiterByKey this key is_kernel k0 =
     (let k = locked k0
      in case FindHeldLock this key is_kernel k of
           None \<Rightarrow> Some ((None, False), k)
         | Some l \<Rightarrow> do {
             k1 \<leftarrow> erase_held this l k;
             let n = lock_waiter_count (locks k1 l);
             let k2 = (if lock_is_kernel (locks k1 l)
                       then let k' = add_kernel_waiters this (- int (unat n)) k1
                            in SetSchedulerUpdateNeeded (assert_that (m_num_kernel_waiters (threads k' this) \<ge> 0) k')
                       else k1);
             let k3 = assert_that (n > 0) k2;
             next_owner \<leftarrow> GetHighestPriorityWaiter l k3;
             (last, k4) \<leftarrow> Lock_RemoveWaiter l next_owner k3;
             let k5 = (if last then Free_lock l k4
                       else let k' = AddHeldLock next_owner l k4
                            in if lock_is_kernel (locks k' l)
                               then let k'' = add_kernel_waiters next_owner (int (unat (lock_waiter_count (locks k' l)))) k'
                                    in assert_that (m_num_kernel_waiters (threads k'' next_owner) > 0) k''
                               else k');
             k6 \<leftarrow> (if m_priority (threads k5 this) = m_priority (threads k5 next_owner) \<and>
                       m_priority (threads k5 this) < m_base_priority (threads k5 this)
                    then RestorePriority this k5 else Some k5);
             Some ((Some next_owner, \<not> last), k6)
           })"

definition SetBasePriority :: "nat \<Rightarrow> int \<Rightarrow> tkern \<Rightarrow> tkern option" where
  "SetBasePriority this value k =
     RestorePriority this (set_thread this (\<lambda>th. th\<lparr>m_base_priority := value\<rparr>)
       (assert_that (HighestPriority \<le> value \<and> value \<le> LowestPriority) k))"

definition IncreaseBasePriority :: "nat \<Rightarrow> int \<Rightarrow> tkern \<Rightarrow> tkern option" where
  "IncreaseBasePriority this priority k0 =
     (let k = assert_that (\<not> is_pinned (threads k0 this)) (locked (assert_that (HighestPriority \<le> priority \<and> priority \<le> LowestPriority) k0))
      in if m_base_priority (threads k this) > priority
         then RestorePriority this (set_thread this (\<lambda>th. th\<lparr>m_base_priority := priority\<rparr>) k)
         else Some k)"

definition SetUserAddressKey :: "nat \<Rightarrow> u64 \<Rightarrow> u32 \<Rightarrow> tkern \<Rightarrow> tkern" where
  "SetUserAddressKey this key val k =
     set_thread this (\<lambda>th. th\<lparr>m_address_key := key, m_address_key_value := val, m_is_kernel_address_key := False\<rparr>)
       (assert_that (m_waiting_lock_info (threads k this) = None) k)"

definition SetKernelAddressKey :: "nat \<Rightarrow> u64 \<Rightarrow> tkern \<Rightarrow> tkern" where
  "SetKernelAddressKey this key k =
     set_thread this (\<lambda>th. th\<lparr>m_address_key := key, m_is_kernel_address_key := True\<rparr>)
       (assert_that (m_waiting_lock_info (threads k this) = None) k)"

section \<open>States and suspension\<close>

datatype suspend_type = SuspendProcess | SuspendThread | SuspendDebug | SuspendBacktrace | SuspendInit | SuspendSystem

fun suspend_bit :: "suspend_type \<Rightarrow> nat" where
  "suspend_bit SuspendProcess = 4" | "suspend_bit SuspendThread = 5" | "suspend_bit SuspendDebug = 6"
| "suspend_bit SuspendBacktrace = 7" | "suspend_bit SuspendInit = 8" | "suspend_bit SuspendSystem = 9"

definition GetSuspendFlags :: "lock_thread \<Rightarrow> u32" where
  "GetSuspendFlags th = m_suspend_allowed_flags th AND m_suspend_request_flags th"

definition IsSuspended :: "lock_thread \<Rightarrow> bool" where
  "IsSuspended th \<longleftrightarrow> GetSuspendFlags th \<noteq> 0"

definition IsSuspendRequested :: "suspend_type \<Rightarrow> lock_thread \<Rightarrow> bool" where
  "IsSuspendRequested ty th \<longleftrightarrow> m_suspend_request_flags th AND push_bit (suspend_bit ty) 1 \<noteq> 0"

text \<open>A new raw state, which the scheduler takes note of if it differs.\<close>

definition store_state :: "nat \<Rightarrow> u16 \<Rightarrow> tkern \<Rightarrow> tkern option" where
  "store_state this new_state k =
     (let old_state = m_thread_state (threads k this);
          k1 = set_thread this (\<lambda>th. th\<lparr>m_thread_state := new_state\<rparr>) k
      in if new_state \<noteq> old_state then OnThreadStateChanged this old_state k1 else Some k1)"

definition SetState :: "nat \<Rightarrow> u16 \<Rightarrow> tkern \<Rightarrow> tkern option" where
  "SetState this state k =
     store_state this ((m_thread_state (threads k this) AND NOT 15) OR (state AND 15)) k"

definition UpdateState :: "nat \<Rightarrow> tkern \<Rightarrow> tkern option" where
  "UpdateState this k =
     store_state this (ucast (GetSuspendFlags (threads k this)) OR (m_thread_state (threads k this) AND 15)) (locked k)"

definition Continue :: "nat \<Rightarrow> tkern \<Rightarrow> tkern option" where
  "Continue this k0 =
     (let k = locked k0; old_state = m_thread_state (threads k this)
      in OnThreadStateChanged this old_state (set_thread this (\<lambda>th. th\<lparr>m_thread_state := old_state AND 15\<rparr>) k))"

definition TrySuspend :: "nat \<Rightarrow> tkern \<Rightarrow> tkern option" where
  "TrySuspend this k0 =
     (let k = assert_that (m_suspend_request_flags (threads k0 this) \<noteq> 0) (locked k0)
      in if m_num_kernel_waiters (threads k this) > 0 then Some k
         else UpdateState this (assert_that (m_num_kernel_waiters (threads k this) = 0) k))"

definition RequestSuspend :: "nat \<Rightarrow> suspend_type \<Rightarrow> tkern \<Rightarrow> tkern option" where
  "RequestSuspend this ty k =
     TrySuspend this (set_thread this (\<lambda>th. th\<lparr>m_suspend_request_flags := m_suspend_request_flags th OR push_bit (suspend_bit ty) 1\<rparr>) k)"

definition Resume :: "nat \<Rightarrow> suspend_type \<Rightarrow> tkern \<Rightarrow> tkern option" where
  "Resume this ty k =
     UpdateState this (set_thread this (\<lambda>th. th\<lparr>m_suspend_request_flags := m_suspend_request_flags th AND NOT (push_bit (suspend_bit ty) 1)\<rparr>) k)"

definition ContinueIfHasKernelWaiters :: "nat \<Rightarrow> tkern \<Rightarrow> tkern option" where
  "ContinueIfHasKernelWaiters this k = (if m_num_kernel_waiters (threads k this) > 0 then Continue this k else Some k)"

section \<open>The locks and their waiters\<close>

abbreviation prio :: "tkern \<Rightarrow> nat \<Rightarrow> int" where "prio k t \<equiv> m_priority (threads k t)"

abbreviation held :: "tkern \<Rightarrow> nat \<Rightarrow> nat list" where "held k t \<equiv> m_held_lock_info_list (threads k t)"

abbreviation waiting_for :: "tkern \<Rightarrow> nat \<Rightarrow> nat option" where "waiting_for k t \<equiv> m_waiting_lock_info (threads k t)"

abbreviation tree :: "tkern \<Rightarrow> nat \<Rightarrow> nat list" where "tree k l \<equiv> lock_tree (locks k l)"

definition lock_ok :: "tkern \<Rightarrow> nat \<Rightarrow> bool" where
  "lock_ok k l \<longleftrightarrow> distinct (tree k l) \<and> sorted (map (prio k) (tree k l)) \<and> lock_waiter_count (locks k l) = of_nat (length (tree k l)) \<and>
     (\<forall>u\<in>set (tree k l). waiting_for k u = Some l \<and> m_address_key (threads k u) = lock_address_key (locks k l) \<and>
        m_is_kernel_address_key (threads k u) = lock_is_kernel (locks k l))"

definition kernel_count :: "tkern \<Rightarrow> nat list \<Rightarrow> int" where
  "kernel_count k ls = (\<Sum>l\<leftarrow>ls. if lock_is_kernel (locks k l) then int (length (tree k l)) else 0)"

text \<open>
  \<open>T\<close> are the threads that there are.  Within an operation the lock \<open>X\<close> may be without waiters, and the
  counts of kernel waiters may be off by \<open>\<delta>\<close>.
\<close>

definition locks_inv :: "nat set \<Rightarrow> nat option \<Rightarrow> (nat \<Rightarrow> int) \<Rightarrow> tkern \<Rightarrow> bool" where
  "locks_inv T X \<delta> k \<longleftrightarrow> finite T \<and> card T < 2 ^ 32 \<and>
     (\<forall>t. distinct (held k t) \<and> (held k t \<noteq> [] \<longrightarrow> t \<in> T) \<and> m_num_kernel_waiters (threads k t) = kernel_count k (held k t) + \<delta> t) \<and>
     (\<forall>t. \<forall>l\<in>set (held k t). lock_owner (locks k l) = Some t \<and> lock_ok k l \<and> (tree k l = [] \<longleftrightarrow> X = Some l)) \<and>
     (\<forall>u l. waiting_for k u = Some l \<longrightarrow> u \<in> T \<and> m_condvar_tree (threads k u) = None \<and> u \<in> set (tree k l) \<and> (\<exists>t. l \<in> set (held k t))) \<and>
     distinct (free_locks k) \<and> (\<forall>t. set (free_locks k) \<inter> set (held k t) = {}) \<and>
     card T \<le> length (free_locks k) + card (\<Union>t\<in>T. set (held k t)) \<and>
     (\<forall>u c. m_condvar_tree (threads k u) = Some c \<longrightarrow> u \<in> set (cv_trees k c))"

lemma locks_invD:
  assumes "locks_inv T X \<delta> k"
  shows "finite T" "card T < 2 ^ 32" "distinct (held k t)" "held k t \<noteq> [] \<Longrightarrow> t \<in> T"
    "m_num_kernel_waiters (threads k t) = kernel_count k (held k t) + \<delta> t"
    "l \<in> set (held k t) \<Longrightarrow> lock_owner (locks k l) = Some t" "l \<in> set (held k t) \<Longrightarrow> lock_ok k l"
    "l \<in> set (held k t) \<Longrightarrow> tree k l = [] \<longleftrightarrow> X = Some l"
    "waiting_for k u = Some l \<Longrightarrow> u \<in> T" "waiting_for k u = Some l \<Longrightarrow> m_condvar_tree (threads k u) = None"
    "waiting_for k u = Some l \<Longrightarrow> u \<in> set (tree k l)" "waiting_for k u = Some l \<Longrightarrow> \<exists>t. l \<in> set (held k t)"
    "distinct (free_locks k)" "l \<in> set (free_locks k) \<Longrightarrow> l \<notin> set (held k t)"
    "card T \<le> length (free_locks k) + card (\<Union>t\<in>T. set (held k t))"
    "m_condvar_tree (threads k u) = Some c \<Longrightarrow> u \<in> set (cv_trees k c)"
  using assms unfolding locks_inv_def by (blast | force)+

text \<open>What the invariant depends on.\<close>

definition lock_view :: "tkern \<Rightarrow> (nat \<Rightarrow> int \<times> nat list \<times> nat option \<times> u64 \<times> bool \<times> nat option \<times> int) \<times> (nat \<Rightarrow> lock_info) \<times> nat list \<times> (nat \<Rightarrow> nat list)" where
  "lock_view k = (\<lambda>t. (prio k t, held k t, waiting_for k t, m_address_key (threads k t), m_is_kernel_address_key (threads k t),
     m_condvar_tree (threads k t), m_num_kernel_waiters (threads k t)), locks k, free_locks k, cv_trees k)"

lemma lock_viewD:
  assumes "lock_view k' = lock_view k"
  shows "prio k' t = prio k t" "held k' t = held k t" "waiting_for k' t = waiting_for k t" "m_address_key (threads k' t) = m_address_key (threads k t)"
    "m_is_kernel_address_key (threads k' t) = m_is_kernel_address_key (threads k t)" "m_condvar_tree (threads k' t) = m_condvar_tree (threads k t)"
    "m_num_kernel_waiters (threads k' t) = m_num_kernel_waiters (threads k t)" "locks k' = locks k" "free_locks k' = free_locks k" "cv_trees k' = cv_trees k"
  using assms by (simp_all add: lock_view_def fun_eq_iff)

lemma lock_view_inv:
  assumes "lock_view k' = lock_view k"
  shows "locks_inv T X \<delta> k' = locks_inv T X \<delta> k"
proof -
  have "kernel_count k' ls = kernel_count k ls" for ls unfolding kernel_count_def lock_viewD(8) [OF assms] ..
  then show ?thesis by (simp add: locks_inv_def lock_ok_def lock_viewD [OF assms])
qed

lemma more_fields:
  assumes "sched_thread.more th' = sched_thread.more th"
  shows "m_held_lock_info_list th' = m_held_lock_info_list th" "m_waiting_lock_info th' = m_waiting_lock_info th" "m_address_key th' = m_address_key th"
    "m_is_kernel_address_key th' = m_is_kernel_address_key th" "m_condvar_tree th' = m_condvar_tree th" "m_base_priority th' = m_base_priority th"
    "m_suspend_request_flags th' = m_suspend_request_flags th" "m_suspend_allowed_flags th' = m_suspend_allowed_flags th"
  using assms by (cases th; cases th'; simp)+

lemma kernel_more_fields:
  assumes "kernel.more k' = kernel.more k"
  shows "locks k' = locks k" "free_locks k' = free_locks k" "cv_trees k' = cv_trees k"
  using assms by (cases k; cases k'; simp)+

lemma keeps_lock_view:
  fixes k k' :: tkern
  assumes "keeps k k'"
  shows "lock_view k' = lock_view k"
  using more_fields [OF keepsD(8) [OF assms]] kernel_more_fields [OF keepsD(16) [OF assms]] keepsD(1,7) [OF assms] by (simp add: lock_view_def)

section \<open>Waiters\<close>

definition waiters_of :: "tkern \<Rightarrow> nat \<Rightarrow> nat set" where
  "waiters_of k t = {u. GetLockOwner u k = Some t}"

lemma waiters_held:
  assumes "locks_inv T X \<delta> k"
  shows "waiters_of k t = (\<Union>l\<in>set (held k t). set (tree k l))"
proof -
  have "u \<in> waiters_of k t \<longleftrightarrow> (\<exists>l\<in>set (held k t). u \<in> set (tree k l))" for u
  proof
    assume "u \<in> waiters_of k t"
    then obtain l where l: "waiting_for k u = Some l" "lock_owner (locks k l) = Some t" by (auto simp: waiters_of_def GetLockOwner_def split: option.splits)
    then show "\<exists>l\<in>set (held k t). u \<in> set (tree k l)" using locks_invD(6,11,12) [OF assms] by fastforce
  next
    assume "\<exists>l\<in>set (held k t). u \<in> set (tree k l)"
    then obtain l where l: "l \<in> set (held k t)" "u \<in> set (tree k l)" by blast
    then have "waiting_for k u = Some l" "lock_owner (locks k l) = Some t" using locks_invD(6,7) [OF assms l(1)] by (auto simp: lock_ok_def)
    then show "u \<in> waiters_of k t" by (simp add: waiters_of_def GetLockOwner_def)
  qed
  then show ?thesis by blast
qed

lemma waiters_in: "locks_inv T X \<delta> k \<Longrightarrow> waiters_of k t \<subseteq> T"
  using locks_invD(9) by (fastforce simp: waiters_of_def GetLockOwner_def split: option.splits)

lemma owner_in: "locks_inv T X \<delta> k \<Longrightarrow> GetLockOwner u k = Some t \<Longrightarrow> t \<in> T \<and> u \<in> T"
proof -
  assume i: "locks_inv T X \<delta> k" and o: "GetLockOwner u k = Some t"
  then have "held k t \<noteq> []" using waiters_held [OF i, of t] by (auto simp: waiters_of_def)
  then show ?thesis using locks_invD(4) [OF i] waiters_in [OF i, of t] o by (auto simp: waiters_of_def)
qed

text \<open>The priority that a thread should have: its own or the best of those that wait for it.\<close>

definition inherited :: "tkern \<Rightarrow> nat \<Rightarrow> int" where
  "inherited k t = Min (insert (m_base_priority (threads k t)) (prio k ` waiters_of k t))"

lemma inherit_min:
  assumes "\<And>l. l \<in> set ls \<Longrightarrow> tree k l \<noteq> [] \<and> sorted (map (prio k) (tree k l))"
  shows "inherit ls b k = Some (Min (insert b (prio k ` (\<Union>l\<in>set ls. set (tree k l)))))"
  using assms
proof (induction ls arbitrary: b)
  case (Cons l ls)
  obtain u us where u: "tree k l = u # us" "sorted (map (prio k) (u # us))" using Cons.prems [of l] by (cases "tree k l") auto
  let ?W = "prio k ` (\<Union>l\<in>set ls. set (tree k l))"
  have m: "Min (prio k ` set (tree k l)) = prio k u" unfolding u(1) using u(2) by (intro Min_eqI) auto
  have "Min (insert b (prio k ` (\<Union>l\<in>set (l # ls). set (tree k l)))) = Min (insert b ?W \<union> prio k ` set (tree k l))"
    by (rule arg_cong [where f = Min]) auto
  also have "\<dots> = min (Min (insert b ?W)) (prio k u)" using u(1) m by (subst Min_Un) auto
  also have "\<dots> = Min (insert (min b (prio k u)) ?W)" by (cases "?W = {}") (auto simp: min.assoc min.commute min.left_commute)
  finally show ?case using Cons u(1) by (simp add: GetHighestPriorityWaiter_def)
qed simp

lemma inherit_inherited:
  assumes "locks_inv T None \<delta> k"
  shows "inherit (held k t) (m_base_priority (threads k t)) k = Some (inherited k t)"
proof -
  have "inherit (held k t) (m_base_priority (threads k t)) k =
    Some (Min (insert (m_base_priority (threads k t)) (prio k ` (\<Union>l\<in>set (held k t). set (tree k l)))))"
    by (rule inherit_min) (use locks_invD(7,8) [OF assms] in \<open>auto simp: lock_ok_def\<close>)
  then show ?thesis by (simp add: inherited_def waiters_held [OF assms])
qed

lemma locks_invI:
  assumes "finite T" "card T < 2 ^ 32" "\<And>t. distinct (held k t)" "\<And>t. held k t \<noteq> [] \<Longrightarrow> t \<in> T"
    "\<And>t. m_num_kernel_waiters (threads k t) = kernel_count k (held k t) + \<delta> t"
    "\<And>t l. l \<in> set (held k t) \<Longrightarrow> lock_owner (locks k l) = Some t \<and> lock_ok k l \<and> (tree k l = [] \<longleftrightarrow> X = Some l)"
    "\<And>u l. waiting_for k u = Some l \<Longrightarrow> u \<in> T \<and> m_condvar_tree (threads k u) = None \<and> u \<in> set (tree k l) \<and> (\<exists>t. l \<in> set (held k t))"
    "distinct (free_locks k)" "\<And>t l. l \<in> set (free_locks k) \<Longrightarrow> l \<notin> set (held k t)"
    "card T \<le> length (free_locks k) + card (\<Union>t\<in>T. set (held k t))"
    "\<And>u c. m_condvar_tree (threads k u) = Some c \<Longrightarrow> u \<in> set (cv_trees k c)"
  shows "locks_inv T X \<delta> k"
proof -
  have "\<forall>t. distinct (held k t) \<and> (held k t \<noteq> [] \<longrightarrow> t \<in> T) \<and> m_num_kernel_waiters (threads k t) = kernel_count k (held k t) + \<delta> t"
    using assms(3,4,5) by simp
  moreover have "\<forall>t. \<forall>l\<in>set (held k t). lock_owner (locks k l) = Some t \<and> lock_ok k l \<and> (tree k l = [] \<longleftrightarrow> X = Some l)"
    using assms(6) by simp
  moreover have "\<forall>u l. waiting_for k u = Some l \<longrightarrow> u \<in> T \<and> m_condvar_tree (threads k u) = None \<and> u \<in> set (tree k l) \<and> (\<exists>t. l \<in> set (held k t))"
    using assms(7) by simp
  moreover have "\<forall>t. set (free_locks k) \<inter> set (held k t) = {}" using assms(9) by blast
  moreover have "\<forall>u c. m_condvar_tree (threads k u) = Some c \<longrightarrow> u \<in> set (cv_trees k c)" using assms(11) by blast
  ultimately show ?thesis unfolding locks_inv_def using assms(1,2,8,10) by blast
qed

lemma tree_insert_set [simp]: "set (tree_insert P t xs) = insert t (set xs)" "tree_insert P t xs \<noteq> []" "length (tree_insert P t xs) = Suc (length xs)"
proof -
  have e: "takeWhile (\<lambda>u. \<not> P u) xs @ dropWhile (\<lambda>u. \<not> P u) xs = xs" by simp
  have "set xs = set (takeWhile (\<lambda>u. \<not> P u) xs) \<union> set (dropWhile (\<lambda>u. \<not> P u) xs)" by (metis e set_append)
  then show "set (tree_insert P t xs) = insert t (set xs)" by (auto simp: tree_insert_def)
  show "tree_insert P t xs \<noteq> []" by (simp add: tree_insert_def)
  have "length xs = length (takeWhile (\<lambda>u. \<not> P u) xs) + length (dropWhile (\<lambda>u. \<not> P u) xs)" by (metis e length_append)
  then show "length (tree_insert P t xs) = Suc (length xs)" by (simp add: tree_insert_def)
qed

lemma tree_insert_distinct: "distinct xs \<Longrightarrow> t \<notin> set xs \<Longrightarrow> distinct (tree_insert P t xs)"
proof -
  assume d: "distinct xs" "t \<notin> set xs"
  have e: "takeWhile (\<lambda>u. \<not> P u) xs @ dropWhile (\<lambda>u. \<not> P u) xs = xs" by simp
  have "distinct (takeWhile (\<lambda>u. \<not> P u) xs @ dropWhile (\<lambda>u. \<not> P u) xs)" using d(1) by simp
  moreover have "t \<notin> set (takeWhile (\<lambda>u. \<not> P u) xs @ dropWhile (\<lambda>u. \<not> P u) xs)" unfolding e by (fact d(2))
  ultimately show ?thesis unfolding tree_insert_def distinct_append set_append by auto
qed

lemma tree_insert_sorted:
  fixes f :: "nat \<Rightarrow> int"
  assumes "sorted (map f xs)"
  shows "sorted (map f (tree_insert (\<lambda>u. f t < f u) t xs))"
  using assms
proof (induction xs)
  case (Cons x xs)
  show ?case
  proof (cases "f t < f x")
    case True
    then show ?thesis using Cons.prems by (auto simp: tree_insert_def)
  next
    case False
    have "tree_insert (\<lambda>u. f t < f u) t (x # xs) = x # tree_insert (\<lambda>u. f t < f u) t xs" using False by (simp add: tree_insert_def)
    then show ?thesis using Cons False by auto
  qed
qed (simp add: tree_insert_def)

definition kernel_waiters :: "lock_info \<Rightarrow> int" where
  "kernel_waiters i = (if lock_is_kernel i then int (length (lock_tree i)) else 0)"

lemma kernel_count_waiters: "kernel_count k ls = (\<Sum>l\<leftarrow>ls. kernel_waiters (locks k l))"
  by (simp add: kernel_count_def kernel_waiters_def)

lemma kernel_count_same: "(\<And>l. l \<in> set ls \<Longrightarrow> kernel_waiters (locks k' l) = kernel_waiters (locks k l)) \<Longrightarrow> kernel_count k' ls = kernel_count k ls"
  unfolding kernel_count_waiters by (rule arg_cong [where f = sum_list]) simp

lemma kernel_count_remove: "l \<in> set ls \<Longrightarrow> kernel_count k ls = kernel_waiters (locks k l) + kernel_count k (remove1 l ls)"
  by (induction ls) (auto simp: kernel_count_waiters)

lemma kernel_count_upd:
  assumes "distinct ls" "\<And>l'. l' \<noteq> l \<Longrightarrow> locks k' l' = locks k l'"
  shows "kernel_count k' ls = kernel_count k ls + (if l \<in> set ls then kernel_waiters (locks k' l) - kernel_waiters (locks k l) else 0)"
proof (cases "l \<in> set ls")
  case True
  have "kernel_count k' (remove1 l ls) = kernel_count k (remove1 l ls)" by (rule kernel_count_same) (use assms in \<open>metis DiffD2 set_remove1_eq singletonI\<close>)
  then show ?thesis using kernel_count_remove [OF True, of k] kernel_count_remove [OF True, of k'] True by simp
next
  case False
  have "kernel_count k' ls = kernel_count k ls" by (rule kernel_count_same) (use False assms(2) in metis)
  then show ?thesis using False by simp
qed

lemma tkern_simps [simp]:
  "threads (set_lock l f k) = threads k" "locks (set_lock l f k) = (locks k)(l := f (locks k l))" "free_locks (set_lock l f k) = free_locks k"
  "cv_trees (set_lock l f k) = cv_trees k" "locks (set_thread t g k) = locks k" "free_locks (set_thread t g k) = free_locks k" "cv_trees (set_thread t g k) = cv_trees k"
  "threads (Free_lock l k) = threads k" "locks (Free_lock l k) = locks k" "free_locks (Free_lock l k) = l # free_locks k" "cv_trees (Free_lock l k) = cv_trees k"
  "locks (assert_that a k) = locks k" "free_locks (assert_that a k) = free_locks k" "cv_trees (assert_that a k) = cv_trees k"
  "locks (SetSchedulerUpdateNeeded k) = locks k" "free_locks (SetSchedulerUpdateNeeded k) = free_locks k" "cv_trees (SetSchedulerUpdateNeeded k) = cv_trees k"
  "threads (SetSchedulerUpdateNeeded k) = threads k" "threads (locked k) = threads k" "locks (locked k) = locks k" "free_locks (locked k) = free_locks k"
  "cv_trees (locked k) = cv_trees k"
  by (simp_all add: set_lock_def set_thread_def Free_lock_def assert_that_def SetSchedulerUpdateNeeded_def locked_def)

subsection \<open>A lock appears and disappears\<close>

lemma new_lock:
  assumes "locks_inv T None \<delta> k" "free_locks k = l # ls" "this \<in> T"
    "k' = AddHeldLock this l (set_lock l (\<lambda>_. \<lparr>lock_address_key = key, lock_is_kernel = b, lock_owner = None, lock_tree = [], lock_waiter_count = 0\<rparr>)
      (k\<lparr>free_locks := ls\<rparr>))"
  shows "locks_inv T (Some l) \<delta> k'"
proof -
  note i = locks_invD [OF assms(1)]
  have l: "l \<notin> set (held k t)" for t using i(14) [of l t] assms(2) by simp
  have th: "held k' t = (if t = this then l # held k t else held k t)" "waiting_for k' t = waiting_for k t" "prio k' t = prio k t"
    "m_address_key (threads k' t) = m_address_key (threads k t)" "m_is_kernel_address_key (threads k' t) = m_is_kernel_address_key (threads k t)"
    "m_condvar_tree (threads k' t) = m_condvar_tree (threads k t)" "m_num_kernel_waiters (threads k' t) = m_num_kernel_waiters (threads k t)" for t
    by (simp_all add: assms(4) AddHeldLock_def)
  have lk: "locks k' = (locks k)(l := \<lparr>lock_address_key = key, lock_is_kernel = b, lock_owner = Some this, lock_tree = [], lock_waiter_count = 0\<rparr>)"
    "free_locks k' = ls" "cv_trees k' = cv_trees k" by (simp_all add: assms(4) AddHeldLock_def)
  have kc: "kernel_count k' (held k t) = kernel_count k (held k t)" for t using l lk(1) by (intro kernel_count_same) auto
  have U: "(\<Union>t\<in>T. set (held k' t)) = insert l (\<Union>t\<in>T. set (held k t))" "l \<notin> (\<Union>t\<in>T. set (held k t))"
    using assms(3) l unfolding th(1) by (auto split: if_splits)
  have c: "card (\<Union>t\<in>T. set (held k' t)) = Suc (card (\<Union>t\<in>T. set (held k t)))" unfolding U(1) using U(2) i(1) by (intro card_insert_disjoint) auto
  show ?thesis
  proof (rule locks_invI)
    show "lock_owner (locks k' l') = Some t \<and> lock_ok k' l' \<and> (tree k' l' = [] \<longleftrightarrow> Some l = Some l')" if "l' \<in> set (held k' t)" for t l'
    proof (cases "l' = l")
      case True
      then show ?thesis using that th(1) l lk(1) by (auto simp: lock_ok_def split: if_splits)
    next
      case False
      then have h: "l' \<in> set (held k t)" using that th(1) by (auto split: if_splits)
      show ?thesis using i(6,7,8) [OF h] False lk(1) th(2-5) by (auto simp: lock_ok_def)
    qed
    show "u \<in> T \<and> m_condvar_tree (threads k' u) = None \<and> u \<in> set (tree k' l') \<and> (\<exists>t. l' \<in> set (held k' t))" if w: "waiting_for k' u = Some l'" for u l'
    proof -
      have w': "waiting_for k u = Some l'" using w th(2) by simp
      then obtain t where t: "l' \<in> set (held k t)" using i(12) by blast
      then have "l' \<noteq> l" "l' \<in> set (held k' t)" using l th(1) by auto
      then show ?thesis using i(9-11) [OF w'] th(6) lk(1) by auto
    qed
    show "m_num_kernel_waiters (threads k' t) = kernel_count k' (held k' t) + \<delta> t" for t
    proof -
      have "kernel_count k' (l # held k t) = kernel_count k' (held k t)" by (simp add: kernel_count_def lk(1))
      then show ?thesis using i(5) [of t] th(1,7) [of t] kc [of t] by auto
    qed
    show "l' \<notin> set (held k' t)" if "l' \<in> set (free_locks k')" for t l' using that i(13) i(14) [of l' t] assms(2) lk(2) th(1) by auto
  qed (use i(1-4) i(13,15,16) th(1,6) lk(2,3) l assms(2,3) c in \<open>auto split: if_splits\<close>)
qed

lemma drop_lock:
  assumes "locks_inv T (Some l) \<delta> k" "l \<in> set (held k this)"
  obtains k' where "erase_held this l k = Some k'" "locks_inv T None \<delta> (Free_lock l k')"
    "k' = set_thread this (\<lambda>th. th\<lparr>m_held_lock_info_list := remove1 l (m_held_lock_info_list th)\<rparr>) k"
proof -
  note i = locks_invD [OF assms(1)]
  define k' where "k' = set_thread this (\<lambda>th. th\<lparr>m_held_lock_info_list := remove1 l (m_held_lock_info_list th)\<rparr>) k"
  let ?k = "Free_lock l k'"
  have e: "erase_held this l k = Some k'" using assms(2) by (simp add: erase_held_def tree_erase_def k'_def set_thread_def)
  have th: "held ?k t = (if t = this then remove1 l (held k t) else held k t)" "waiting_for ?k t = waiting_for k t" "prio ?k t = prio k t"
    "m_address_key (threads ?k t) = m_address_key (threads k t)" "m_is_kernel_address_key (threads ?k t) = m_is_kernel_address_key (threads k t)"
    "m_condvar_tree (threads ?k t) = m_condvar_tree (threads k t)" "m_num_kernel_waiters (threads ?k t) = m_num_kernel_waiters (threads k t)"
    "locks ?k = locks k" "cv_trees ?k = cv_trees k" "free_locks ?k = l # free_locks k" for t by (simp_all add: k'_def)
  have only: "t = this" if "l \<in> set (held k t)" for t using i(6) [OF that] i(6) [OF assms(2)] by simp
  have set: "set (held ?k t) = set (held k t) - {l}" for t using th(1) i(3) only by auto
  have U: "(\<Union>t\<in>T. set (held ?k t)) = (\<Union>t\<in>T. set (held k t)) - {l}" using set by auto
  have inU: "l \<in> (\<Union>t\<in>T. set (held k t))" using assms(2) i(4) [of this] by (metis UN_iff empty_iff empty_set)
  have "finite (\<Union>t\<in>T. set (held k t))" using i(1) by simp
  then have c: "Suc (card (\<Union>t\<in>T. set (held ?k t))) = card (\<Union>t\<in>T. set (held k t))" unfolding U using inU by (metis card_Suc_Diff1)
  have tl: "tree k l = []" using i(8) [OF assms(2)] by simp
  have "locks_inv T None \<delta> ?k"
  proof (rule locks_invI)
    show "lock_owner (locks ?k l') = Some t \<and> lock_ok ?k l' \<and> (tree ?k l' = [] \<longleftrightarrow> None = Some l')" if "l' \<in> set (held ?k t)" for t l'
      using that set i(6,7,8) [of l' t] th(2-5,8) by (auto simp: lock_ok_def)
    show "u \<in> T \<and> m_condvar_tree (threads ?k u) = None \<and> u \<in> set (tree ?k l') \<and> (\<exists>t. l' \<in> set (held ?k t))" if w: "waiting_for ?k u = Some l'" for u l'
    proof -
      have w': "waiting_for k u = Some l'" using w th(2) by simp
      have "l' \<noteq> l" using i(11) [OF w'] tl by auto
      then show ?thesis using i(9-12) [OF w'] set th(6,8) by fastforce
    qed
    show "m_num_kernel_waiters (threads ?k t) = kernel_count ?k (held ?k t) + \<delta> t" for t
    proof -
      have z: "kernel_count ?k ls = kernel_count k ls" for ls unfolding kernel_count_def th(8) ..
      have "kernel_count k (held ?k t) = kernel_count k (held k t)"
        using th(1) [of t] kernel_count_remove [OF assms(2), of k] tl by (simp add: kernel_waiters_def)
      then show ?thesis using i(5) [of t] th(7) [of t] z by simp
    qed
    show "distinct (free_locks ?k)" using i(13) i(14) [of l this] assms(2) th(10) by auto
    show "l' \<notin> set (held ?k t)" if "l' \<in> set (free_locks ?k)" for t l' using that set i(14) [of l' t] th(10) by auto
    show "t \<in> T" if "held ?k t \<noteq> []" for t using i(4) [of t] set [of t] that by (cases "held k t = []") auto
    show "distinct (held ?k t)" for t using i(3) [of t] th(1) [of t] by (auto split: if_splits)
    show "card T \<le> length (free_locks ?k) + card (\<Union>t\<in>T. set (held ?k t))" using i(15) c th(10) by simp
  qed (use i(1,2,16) th(6,9) in auto)
  then show ?thesis using that e k'_def by blast
qed

subsection \<open>A waiter comes and goes\<close>

lemma lock_thread_simps [simp]:
  "threads (Lock_AddWaiter l t k) = (threads k)(t := (threads k t)\<lparr>m_waiting_lock_info := Some l\<rparr>)"
  "locks (Lock_AddWaiter l t k) = (locks k)(l := (locks k l)\<lparr>lock_tree := tree_insert (\<lambda>u. prio k t < prio k u) t (tree k l),
     lock_waiter_count := lock_waiter_count (locks k l) + 1\<rparr>)"
  "free_locks (Lock_AddWaiter l t k) = free_locks k" "cv_trees (Lock_AddWaiter l t k) = cv_trees k"
  by (simp_all add: Lock_AddWaiter_def set_thread_def set_lock_def)

lemma held_only:
  assumes "locks_inv T X \<delta> k" "l \<in> set (held k t)" "l \<in> set (held k t')"
  shows "t = t'"
  using locks_invD(6) [OF assms(1,2)] locks_invD(6) [OF assms(1,3)] by simp

lemma waiting_held:
  assumes "locks_inv T X \<delta> k" "waiting_for k u = Some l" "GetLockOwner u k = Some t"
  shows "l \<in> set (held k t)"
proof -
  obtain t' where t': "l \<in> set (held k t')" using locks_invD(12) [OF assms(1,2)] by blast
  then have "t' = t" using locks_invD(6) [OF assms(1) t'] assms(2,3) by (simp add: GetLockOwner_def)
  then show ?thesis using t' by simp
qed

lemma AddWaiter_inv:
  assumes "locks_inv T X \<delta> k" "l \<in> set (held k this)" "X = None \<or> X = Some l" "t \<in> T" "waiting_for k t = None"
    "m_condvar_tree (threads k t) = None" "m_address_key (threads k t) = lock_address_key (locks k l)"
    "m_is_kernel_address_key (threads k t) = lock_is_kernel (locks k l)"
  shows "locks_inv T None (\<delta>(this := \<delta> this - (if lock_is_kernel (locks k l) then 1 else 0))) (Lock_AddWaiter l t k)" (is "locks_inv T None ?\<delta> _")
proof -
  define k' where "k' = Lock_AddWaiter l t k"
  note i = locks_invD [OF assms(1)]
  have nt: "t \<notin> set (tree k l')" if "l' \<in> set (held k s)" for l' s using i(7) [OF that] assms(5) by (auto simp: lock_ok_def)
  have th: "held k' s = held k s" "waiting_for k' s = (if s = t then Some l else waiting_for k s)" "prio k' s = prio k s"
    "m_address_key (threads k' s) = m_address_key (threads k s)" "m_is_kernel_address_key (threads k' s) = m_is_kernel_address_key (threads k s)"
    "m_condvar_tree (threads k' s) = m_condvar_tree (threads k s)" "m_num_kernel_waiters (threads k' s) = m_num_kernel_waiters (threads k s)" for s
    by (simp_all add: k'_def)
  have fr: "free_locks k' = free_locks k" "cv_trees k' = cv_trees k" by (simp_all add: k'_def)
  have own: "lock_owner (locks k' l') = lock_owner (locks k l')" for l' by (simp add: k'_def)
  have tr: "tree k' l' = (if l' = l then tree_insert (\<lambda>u. prio k t < prio k u) t (tree k l) else tree k l')" for l' by (simp add: k'_def)
  have pf: "prio k' = prio k" by (rule ext) (rule th(3))
  have ok: "lock_ok k' l'" if h: "l' \<in> set (held k s)" for l' s
  proof (cases "l' = l")
    case True
    have o: "lock_ok k l" using i(7) [OF assms(2)] .
    show ?thesis using o tree_insert_distinct [of "tree k l" t] tree_insert_sorted [of "prio k" "tree k l" t] nt [OF assms(2)] assms(7,8) True
      unfolding lock_ok_def pf th by (auto simp: k'_def)
  next
    case False
    then show ?thesis using i(7) [OF h] nt [OF h] unfolding lock_ok_def pf th by (auto simp: k'_def)
  qed
  have kc: "kernel_count k' (held k s) = kernel_count k (held k s) + (if s = this \<and> lock_is_kernel (locks k l) then 1 else 0)" for s
  proof -
    have "kernel_count k' (held k s) = kernel_count k (held k s) + (if l \<in> set (held k s) then kernel_waiters (locks k' l) - kernel_waiters (locks k l) else 0)"
      by (rule kernel_count_upd) (use i(3) k'_def in auto)
    moreover have "l \<in> set (held k s) \<longleftrightarrow> s = this" using held_only [OF assms(1,2), of s] assms(2) by blast
    ultimately show ?thesis by (simp add: kernel_waiters_def k'_def)
  qed
  show ?thesis unfolding k'_def [symmetric]
  proof (rule locks_invI)
    show "lock_owner (locks k' l') = Some s \<and> lock_ok k' l' \<and> (tree k' l' = [] \<longleftrightarrow> None = Some l')" if "l' \<in> set (held k' s)" for s l'
    proof -
      have h: "l' \<in> set (held k s)" using that th(1) by simp
      have "tree k' l' \<noteq> []" unfolding tr using i(8) [OF h] assms(3) by auto
      then show ?thesis using i(6) [OF h] ok [OF h] own by simp
    qed
    show "u \<in> T \<and> m_condvar_tree (threads k' u) = None \<and> u \<in> set (tree k' l') \<and> (\<exists>s. l' \<in> set (held k' s))" if w: "waiting_for k' u = Some l'" for u l'
    proof (cases "u = t")
      case True
      then have "l' = l" using w th(2) by simp
      then show ?thesis using True assms(2,4,6) th(1,6) tr by auto
    next
      case False
      then have w': "waiting_for k u = Some l'" using w th(2) by simp
      have "u \<in> set (tree k' l')" unfolding tr using i(11) [OF w'] by auto
      then show ?thesis using i(9,10,12) [OF w'] th(1,6) by simp
    qed
    show "m_num_kernel_waiters (threads k' s) = kernel_count k' (held k' s) + ?\<delta> s" for s using i(5) [of s] kc [of s] th(1,7) by simp
    show "card T \<le> length (free_locks k') + card (\<Union>t\<in>T. set (held k' t))" using i(15) unfolding th fr .
  qed (use i(1,2,3,4,13,14,16) th(1,6) fr in auto)
qed

lemma tree_length:
  assumes "locks_inv T X \<delta> k" "l \<in> set (held k t)"
  shows "length (tree k l) < 2 ^ 32" "unat (lock_waiter_count (locks k l)) = length (tree k l)"
proof -
  have o: "lock_ok k l" using locks_invD(7) [OF assms] .
  have "set (tree k l) \<subseteq> T" using o locks_invD(9) [OF assms(1)] by (auto simp: lock_ok_def)
  then have "length (tree k l) \<le> card T" using card_mono [OF locks_invD(1) [OF assms(1)]] o by (metis distinct_card lock_ok_def)
  then show l: "length (tree k l) < 2 ^ 32" using locks_invD(2) [OF assms(1)] by simp
  have "lock_waiter_count (locks k l) = of_nat (length (tree k l))" using o by (simp add: lock_ok_def)
  then show "unat (lock_waiter_count (locks k l)) = length (tree k l)" using l by (simp add: unat_of_nat take_bit_nat_def)
qed

lemma RemoveWaiter_inv:
  assumes "locks_inv T None \<delta> k" "waiting_for k t = Some l" "l \<in> set (held k this)"
    "k' = set_thread t (\<lambda>th. th\<lparr>m_waiting_lock_info := None\<rparr>)
      (set_lock l (\<lambda>i. i\<lparr>lock_tree := remove1 t (tree k l), lock_waiter_count := lock_waiter_count i - 1\<rparr>) k)"
  shows "Lock_RemoveWaiter l t k = Some (tree k l = [t], k')"
    "locks_inv T (if tree k l = [t] then Some l else None) (\<delta>(this := \<delta> this + (if lock_is_kernel (locks k l) then 1 else 0))) k'"
    (is "locks_inv T ?X ?\<delta> k'")
proof -
  note i = locks_invD [OF assms(1)]
  have ok: "lock_ok k l" using i(7) [OF assms(3)] .
  have mem: "t \<in> set (tree k l)" using i(11) [OF assms(2)] .
  have d: "distinct (tree k l)" using ok by (simp add: lock_ok_def)
  have single: "remove1 t (tree k l) = [] \<longleftrightarrow> tree k l = [t]" using mem by (cases "tree k l") (auto split: if_splits)
  have len: "length (tree k l) = Suc (length (remove1 t (tree k l)))" using mem by (simp add: length_remove1) (metis Suc_pred length_pos_if_in_set)
  have cnt: "lock_waiter_count (locks k l) - 1 = of_nat (length (remove1 t (tree k l)))" using ok len by (simp add: lock_ok_def)
  have "(of_nat (length (remove1 t (tree k l))) :: u32) = 0 \<longleftrightarrow> remove1 t (tree k l) = []"
    using tree_length(1) [OF assms(1,3)] len nat_dvd_not_less [of "length (remove1 t (tree k l))" "2 ^ 32"]
    by (auto simp: word_of_nat_eq_0_iff)
  then have "lock_waiter_count (locks k l) = 1 \<longleftrightarrow> tree k l = [t]" using cnt single by (metis eq_iff_diff_eq_0)
  then show "Lock_RemoveWaiter l t k = Some (tree k l = [t], k')"
    using mem by (simp add: Lock_RemoveWaiter_def tree_erase_def assms(4) set_lock_def set_thread_def)
  have nt: "t \<notin> set (tree k l')" if "l' \<in> set (held k s)" "l' \<noteq> l" for l' s using i(7) [OF that(1)] assms(2) that(2) by (auto simp: lock_ok_def)
  have th: "held k' s = held k s" "waiting_for k' s = (if s = t then None else waiting_for k s)" "prio k' s = prio k s"
    "m_address_key (threads k' s) = m_address_key (threads k s)" "m_is_kernel_address_key (threads k' s) = m_is_kernel_address_key (threads k s)"
    "m_condvar_tree (threads k' s) = m_condvar_tree (threads k s)" "m_num_kernel_waiters (threads k' s) = m_num_kernel_waiters (threads k s)" for s
    by (simp_all add: assms(4))
  have lk: "lock_owner (locks k' l') = lock_owner (locks k l')" "tree k' l' = (if l' = l then remove1 t (tree k l) else tree k l')"
    "lock_address_key (locks k' l') = lock_address_key (locks k l')" "lock_is_kernel (locks k' l') = lock_is_kernel (locks k l')"
    "lock_waiter_count (locks k' l') = (if l' = l then lock_waiter_count (locks k l) - 1 else lock_waiter_count (locks k l'))"
    "free_locks k' = free_locks k" "cv_trees k' = cv_trees k" for l' by (simp_all add: assms(4))
  have pf: "prio k' = prio k" by (rule ext) (rule th(3))
  have ok': "lock_ok k' l'" if h: "l' \<in> set (held k s)" for l' s
  proof (cases "l' = l")
    case True
    have "sorted (map (prio k) (remove1 t (tree k l)))" using ok sorted_map_remove1 [of "prio k" "tree k l" t] by (simp add: lock_ok_def)
    then show ?thesis using ok cnt d True unfolding lock_ok_def pf lk th by auto
  next
    case False
    then show ?thesis using i(7) [OF h] nt [OF h] unfolding lock_ok_def pf lk th by auto
  qed
  have kc: "kernel_count k' (held k s) = kernel_count k (held k s) - (if s = this \<and> lock_is_kernel (locks k l) then 1 else 0)" for s
  proof -
    have "kernel_count k' (held k s) = kernel_count k (held k s) + (if l \<in> set (held k s) then kernel_waiters (locks k' l) - kernel_waiters (locks k l) else 0)"
      by (rule kernel_count_upd) (use i(3) assms(4) in auto)
    moreover have "l \<in> set (held k s) \<longleftrightarrow> s = this" using held_only [OF assms(1,3), of s] assms(3) by blast
    ultimately show ?thesis using len lk(2,4) [of l] by (simp add: kernel_waiters_def)
  qed
  show "locks_inv T ?X ?\<delta> k'"
  proof (rule locks_invI)
    show "lock_owner (locks k' l') = Some s \<and> lock_ok k' l' \<and> (tree k' l' = [] \<longleftrightarrow> ?X = Some l')" if "l' \<in> set (held k' s)" for s l'
    proof -
      have h: "l' \<in> set (held k s)" using that th(1) by simp
      have "tree k' l' = [] \<longleftrightarrow> ?X = Some l'" using i(8) [OF h] single lk(2) [of l'] by auto
      then show ?thesis using i(6) [OF h] ok' [OF h] lk(1) by simp
    qed
    show "u \<in> T \<and> m_condvar_tree (threads k' u) = None \<and> u \<in> set (tree k' l') \<and> (\<exists>s. l' \<in> set (held k' s))" if w: "waiting_for k' u = Some l'" for u l'
    proof -
      have w': "waiting_for k u = Some l'" and nu: "u \<noteq> t" using w th(2) by (auto split: if_splits)
      have "u \<in> set (tree k' l')" unfolding lk(2) using i(11) [OF w'] nu by auto
      then show ?thesis using i(9,10,12) [OF w'] th(1,6) by simp
    qed
    show "m_num_kernel_waiters (threads k' s) = kernel_count k' (held k' s) + ?\<delta> s" for s using i(5) [of s] kc [of s] th(1,7) by simp
    show "card T \<le> length (free_locks k') + card (\<Union>t\<in>T. set (held k' t))" using i(15) th(1) lk(6) by simp
  qed (use i(1,2,3,4,13,14,16) th(1,6) lk(6,7) in auto)
qed

subsection \<open>What the lists of waiters do not touch\<close>

definition rest_of :: "lock_thread \<Rightarrow> int \<times> u64 \<times> u32 \<times> bool \<times> nat option \<times> u64 \<times> u32 \<times> u32 \<times> bool \<times> wait_queue option" where
  "rest_of th = (m_base_priority th, m_address_key th, m_address_key_value th, m_is_kernel_address_key th, m_condvar_tree th, m_condvar_key th,
     m_suspend_request_flags th, m_suspend_allowed_flags th, is_pinned th, m_wait_queue th)"

definition untouched :: "tkern \<Rightarrow> tkern \<Rightarrow> bool" where
  "untouched k k' \<longleftrightarrow> queue_view k' = queue_view k \<and> m_owner_thread k' = m_owner_thread k \<and> current_thread k' = current_thread k \<and> m_lock_count k' = m_lock_count k \<and>
     asserted k' = asserted k \<and> cv_trees k' = cv_trees k \<and> (\<forall>t. rest_of (threads k' t) = rest_of (threads k t))"

lemma untouched_refl [simp]: "untouched k k"
  by (simp add: untouched_def)

lemma untouched_trans: "untouched k k' \<Longrightarrow> untouched k' k'' \<Longrightarrow> untouched k k''"
  by (simp add: untouched_def)

lemma untouchedD:
  assumes "untouched k k'"
  shows "prio k' t = prio k t" "m_base_priority (threads k' t) = m_base_priority (threads k t)" "m_condvar_tree (threads k' t) = m_condvar_tree (threads k t)"
    "m_address_key (threads k' t) = m_address_key (threads k t)" "m_is_kernel_address_key (threads k' t) = m_is_kernel_address_key (threads k t)"
    "IsSchedulerLockedByCurrentThread k' = IsSchedulerLockedByCurrentThread k" "asserted k' = asserted k" "cv_trees k' = cv_trees k"
    "runs k C \<Longrightarrow> runs k' C" "is_dummy (threads k' t) = is_dummy (threads k t)" "m_affinity_mask (threads k' t) = m_affinity_mask (threads k t)"
    "m_core_id (threads k' t) = m_core_id (threads k t)" "valid_thread (threads k' t) = valid_thread (threads k t)"
    "m_thread_state (threads k' t) = m_thread_state (threads k t)"
proof -
  have q: "queue_view k' = queue_view k" and r: "rest_of (threads k' t) = rest_of (threads k t)" and
    "IsSchedulerLockedByCurrentThread k' = IsSchedulerLockedByCurrentThread k" "asserted k' = asserted k" "cv_trees k' = cv_trees k"
    using assms by (simp_all add: untouched_def IsSchedulerLockedByCurrentThread_def)
  then show "IsSchedulerLockedByCurrentThread k' = IsSchedulerLockedByCurrentThread k" "asserted k' = asserted k" "cv_trees k' = cv_trees k" by simp_all
  show "prio k' t = prio k t" "is_dummy (threads k' t) = is_dummy (threads k t)" "m_affinity_mask (threads k' t) = m_affinity_mask (threads k t)"
    "m_core_id (threads k' t) = m_core_id (threads k t)" "m_thread_state (threads k' t) = m_thread_state (threads k t)"
    using q by (simp_all add: queue_view_def fun_eq_iff)
  then show "valid_thread (threads k' t) = valid_thread (threads k t)" by (simp add: valid_thread_def)
  show "m_base_priority (threads k' t) = m_base_priority (threads k t)" "m_condvar_tree (threads k' t) = m_condvar_tree (threads k t)"
    "m_address_key (threads k' t) = m_address_key (threads k t)" "m_is_kernel_address_key (threads k' t) = m_is_kernel_address_key (threads k t)"
    using r by (simp_all add: rest_of_def)
  show "runs k C \<Longrightarrow> runs k' C" using runs_view [OF q] .
qed

lemma locked_same [simp]: "IsSchedulerLockedByCurrentThread k \<Longrightarrow> locked k = k"
  by (simp add: locked_def)

lemma untouched_simps:
  "untouched k (add_kernel_waiters this n k)" "untouched k (SetSchedulerUpdateNeeded k)" "untouched k (set_lock l f k)"
  "untouched k (Free_lock l k)" "untouched k (k\<lparr>free_locks := ls\<rparr>)" "untouched k (Lock_AddWaiter l t k)"
  "untouched k (set_thread t (\<lambda>th. th\<lparr>m_waiting_lock_info := w\<rparr>) k)" "untouched k (set_thread t (\<lambda>th. th\<lparr>m_held_lock_info_list := g th\<rparr>) k)"
  by (simp_all add: untouched_def queue_view_def add_kernel_waiters_def SetSchedulerUpdateNeeded_def set_lock_def set_thread_def Free_lock_def
      Lock_AddWaiter_def rest_of_def fun_eq_iff)

lemma untouched_held: "IsSchedulerLockedByCurrentThread k \<Longrightarrow> untouched k (AddHeldLock this l k)"
  unfolding AddHeldLock_def locked_same by (rule untouched_trans, rule untouched_simps(3), rule untouched_simps(8))

lemma lock_ok_cong:
  assumes "\<And>t. prio k' t = prio k t" "\<And>t. waiting_for k' t = waiting_for k t" "\<And>t. m_address_key (threads k' t) = m_address_key (threads k t)"
    "\<And>t. m_is_kernel_address_key (threads k' t) = m_is_kernel_address_key (threads k t)" "locks k' l = locks k l"
  shows "lock_ok k' l = lock_ok k l"
  by (simp add: lock_ok_def assms)

lemma kernel_waiters_inv:
  assumes "locks_inv T X \<delta> k"
  shows "locks_inv T X (\<delta>(this := \<delta> this + n)) (add_kernel_waiters this n k)" (is "locks_inv T X ?\<delta> ?k")
proof -
  note i = locks_invD [OF assms]
  have th: "held ?k s = held k s" "waiting_for ?k s = waiting_for k s" "m_condvar_tree (threads ?k s) = m_condvar_tree (threads k s)"
    "m_num_kernel_waiters (threads ?k s) = m_num_kernel_waiters (threads k s) + (if s = this then n else 0)" for s by (simp_all add: add_kernel_waiters_def)
  have lk: "locks ?k = locks k" "free_locks ?k = free_locks k" "cv_trees ?k = cv_trees k" by (simp_all add: add_kernel_waiters_def)
  have ok: "lock_ok ?k l = lock_ok k l" for l by (rule lock_ok_cong) (simp_all add: add_kernel_waiters_def)
  have kc: "kernel_count ?k ls = kernel_count k ls" for ls unfolding kernel_count_def lk ..
  show ?thesis
  proof (rule locks_invI)
    show "lock_owner (locks ?k l) = Some t \<and> lock_ok ?k l \<and> (tree ?k l = [] \<longleftrightarrow> X = Some l)" if "l \<in> set (held ?k t)" for t l
      using that i(6-8) [of l t] unfolding th lk ok by simp
    show "u \<in> T \<and> m_condvar_tree (threads ?k u) = None \<and> u \<in> set (tree ?k l) \<and> (\<exists>t. l \<in> set (held ?k t))" if "waiting_for ?k u = Some l" for u l
      using that i(9-12) [of u l] unfolding th lk by simp
    show "m_num_kernel_waiters (threads ?k t) = kernel_count ?k (held ?k t) + ?\<delta> t" for t using i(5) [of t] unfolding th kc by simp
    show "card T \<le> length (free_locks ?k) + card (\<Union>t\<in>T. set (held ?k t))" using i(15) unfolding th lk .
    show "l \<notin> set (held ?k t)" if "l \<in> set (free_locks ?k)" for t l using that i(14) [of l t] unfolding th lk by blast
  qed (use i(1-4,13,16) in \<open>simp_all only: th lk\<close>)
qed

subsection \<open>Waiters of a thread\<close>

text \<open>Every lock has a waiter, so there is a free one for a thread that does not wait yet.\<close>

lemma lock_available:
  assumes "locks_inv T None \<delta> k" "t \<in> T" "waiting_for k t = None"
  shows "free_locks k \<noteq> []"
proof
  assume f: "free_locks k = []"
  note i = locks_invD [OF assms(1)]
  let ?L = "\<Union>t\<in>T. set (held k t)"
  have hd: "hd (tree k l) \<in> T - {t} \<and> waiting_for k (hd (tree k l)) = Some l" if "l \<in> ?L" for l
  proof -
    from that obtain s where s: "l \<in> set (held k s)" by blast
    then have "hd (tree k l) \<in> set (tree k l)" using i(8) [OF s] by simp
    then have w: "waiting_for k (hd (tree k l)) = Some l" using i(7) [OF s] by (simp add: lock_ok_def)
    then show ?thesis using i(9) [OF w] assms(3) by auto
  qed
  have "inj_on (\<lambda>l. hd (tree k l)) ?L" by (rule inj_onI) (metis hd option.inject)
  moreover have "(\<lambda>l. hd (tree k l)) ` ?L \<subseteq> T - {t}" using hd by blast
  ultimately have "card ?L \<le> card (T - {t})" using i(1) by (meson card_inj_on_le finite_Diff)
  also have "\<dots> < card T" using i(1) assms(2) by (rule card_Diff1_less)
  finally show False using i(15) f by simp
qed

text \<open>Whether a thread has at most one lock with a kernel key.\<close>

definition one_lock :: "u64 \<Rightarrow> tkern \<Rightarrow> bool" where
  "one_lock a k \<longleftrightarrow> (\<forall>t l l'. l \<in> set (held k t) \<and> l' \<in> set (held k t) \<and> lock_address_key (locks k l) = a \<and> lock_is_kernel (locks k l) \<and>
     lock_address_key (locks k l') = a \<and> lock_is_kernel (locks k l') \<longrightarrow> l = l')"

lemma one_lock_cong:
  assumes "\<And>t. set (held k' t) \<subseteq> set (held k t)" "\<And>l. lock_address_key (locks k' l) = lock_address_key (locks k l)" "\<And>l. lock_is_kernel (locks k' l) = lock_is_kernel (locks k l)"
    "one_lock a k"
  shows "one_lock a k'"
  using assms unfolding one_lock_def by (metis subsetD)

definition lock_change :: "nat set \<Rightarrow> nat \<Rightarrow> nat option \<Rightarrow> tkern \<Rightarrow> tkern \<Rightarrow> bool" where
  "lock_change T t owner k k' \<longleftrightarrow> locks_inv T None (\<lambda>_. 0) k' \<and> untouched k k' \<and>
     (\<forall>u. GetLockOwner u k' = (if u = t then owner else GetLockOwner u k)) \<and> (\<forall>a. one_lock a k \<longrightarrow> one_lock a k')"

lemma owners_AddWaiter:
  assumes "lock_owner (locks k l) = Some this"
  shows "GetLockOwner u (Lock_AddWaiter l t k) = (if u = t then Some this else GetLockOwner u k)"
  using assms by (auto simp: GetLockOwner_def split: option.splits)

lemma kernel_count_nonneg: "kernel_count k ls \<ge> 0"
  by (auto simp: kernel_count_waiters kernel_waiters_def intro!: sum_list_nonneg)

lemma AddWaiterImpl_ok:
  assumes "locks_inv T None (\<lambda>_. 0) k" "this \<in> T" "t \<in> T" "waiting_for k t = None" "m_condvar_tree (threads k t) = None"
    "IsSchedulerLockedByCurrentThread k"
  obtains k' where "AddWaiterImpl this t k = Some k'" "lock_change T t (Some this) k k'"
proof -
  note result = that
  let ?b = "m_is_kernel_address_key (threads k t)" and ?a = "m_address_key (threads k t)"
  let ?d = "if ?b then 1 else (0 :: int)"
  define k1 where "k1 = (if ?b then SetSchedulerUpdateNeeded (add_kernel_waiters this 1 k) else k)"
  have same: "threads k1 = threads (add_kernel_waiters this ?d k)" "locks k1 = locks k" "free_locks k1 = free_locks k" "cv_trees k1 = cv_trees k"
    by (simp_all add: k1_def add_kernel_waiters_def set_thread_def)
  have v: "lock_view k1 = lock_view (add_kernel_waiters this ?d k)" by (simp add: lock_view_def same) (simp add: add_kernel_waiters_def)
  have i1: "locks_inv T None ((\<lambda>_. 0)(this := ?d)) k1" using kernel_waiters_inv [OF assms(1), of this ?d] lock_view_inv [OF v] by simp
  have u1: "untouched k k1" using untouched_trans [OF untouched_simps(1) untouched_simps(2)] by (simp add: k1_def)
  have t1: "waiting_for k1 s = waiting_for k s" for s by (simp add: same add_kernel_waiters_def)
  have own1: "GetLockOwner u k1 = GetLockOwner u k" for u unfolding GetLockOwner_def t1 same(2) ..
  have l1: "IsSchedulerLockedByCurrentThread k1" using untouchedD(6) [OF u1] assms(6) by simp
  have pos: "m_num_kernel_waiters (threads k this) \<ge> 0" using locks_invD(5) [OF assms(1), of this] kernel_count_nonneg [of k "held k this"] by simp
  have pre: "AddWaiterImpl this t k = do {(l, k2) \<leftarrow> (case FindHeldLock this ?a ?b k1 of Some l \<Rightarrow> Some (l, k1)
      | None \<Rightarrow> do {(l, k') \<leftarrow> Create ?a ?b k1; Some (l, AddHeldLock this l k')}); Some (Lock_AddWaiter l t k2)}"
  proof -
    have "assert_that (m_condvar_tree (threads k t) = None) (locked k) = k" "assert_that (m_num_kernel_waiters (threads k this) \<ge> 0) k = k"
      using assms(5,6) pos by simp_all
    then show ?thesis unfolding AddWaiterImpl_def Let_def k1_def by (simp only:)
  qed
  have fin: thesis if e: "AddWaiterImpl this t k = Some (Lock_AddWaiter l t k2)" and h: "l \<in> set (held k2 this)" and
    i2: "locks_inv T X ((\<lambda>_. 0)(this := ?d)) k2" "X = None \<or> X = Some l" and u2: "untouched k1 k2" and
    o: "\<And>u. GetLockOwner u k2 = GetLockOwner u k1" and w: "waiting_for k2 t = None" and
    a: "lock_address_key (locks k2 l) = ?a" "lock_is_kernel (locks k2 l) = ?b" and
    one: "\<And>a. one_lock a k \<Longrightarrow> one_lock a k2" for l k2 X
  proof (rule result [OF e])
    have uk: "untouched k k2" using untouched_trans [OF u1 u2] .
    have "locks_inv T None (((\<lambda>_. 0)(this := ?d))(this := ((\<lambda>_. 0)(this := ?d)) this - (if lock_is_kernel (locks k2 l) then 1 else 0))) (Lock_AddWaiter l t k2)"
      by (rule AddWaiter_inv [OF i2(1) h i2(2) assms(3) w]) (use untouchedD(3-5) [OF uk] assms(5) a in auto)
    moreover have "((\<lambda>_. 0 :: int)(this := ?d))(this := ((\<lambda>_. 0)(this := ?d)) this - (if lock_is_kernel (locks k2 l) then 1 else 0)) = (\<lambda>_. 0)"
      using a(2) by (auto simp: fun_eq_iff)
    moreover have "untouched k (Lock_AddWaiter l t k2)" using untouched_trans [OF uk untouched_simps(6)] .
    moreover have "one_lock a (Lock_AddWaiter l t k2)" if "one_lock a k2" for a by (rule one_lock_cong [OF _ _ _ that]) auto
    ultimately show "lock_change T t (Some this) k (Lock_AddWaiter l t k2)"
      using one owners_AddWaiter [OF locks_invD(6) [OF i2(1) h]] o own1 by (simp add: lock_change_def)
  qed
  have one1: "one_lock a k1" if "one_lock a k" for a by (rule one_lock_cong [OF _ _ _ that]) (auto simp: same add_kernel_waiters_def)
  show thesis
  proof (cases "FindHeldLock this ?a ?b k1")
    case (Some l)
    then have f: "l \<in> set (held k1 this)" "lock_address_key (locks k1 l) = ?a" "lock_is_kernel (locks k1 l) = ?b"
      unfolding FindHeldLock_def find_Some_iff by (auto simp: in_set_conv_nth)
    show thesis by (rule fin [of l k1 None]) (use Some pre f i1 t1 assms(4) one1 in auto)
  next
    case None
    obtain l ls where fl: "free_locks k1 = l # ls" using lock_available [OF i1 assms(3)] t1 assms(4) by (cases "free_locks k1") auto
    define k' where "k' = set_lock l (\<lambda>_. \<lparr>lock_address_key = ?a, lock_is_kernel = ?b, lock_owner = None, lock_tree = [], lock_waiter_count = 0\<rparr>) (k1\<lparr>free_locks := ls\<rparr>)"
    define k2 where "k2 = AddHeldLock this l k'"
    have i2: "locks_inv T (Some l) ((\<lambda>_. 0)(this := ?d)) k2" using new_lock [OF i1 fl assms(2)] by (simp add: k2_def k'_def)
    have u': "untouched k1 k'" unfolding k'_def by (rule untouched_trans [OF untouched_simps(5) untouched_simps(3)])
    then have u2: "untouched k1 k2" unfolding k2_def by (rule untouched_trans [OF _ untouched_held]) (use untouchedD(6) [OF u'] l1 in simp)
    have w2: "waiting_for k2 s = waiting_for k1 s" for s by (simp add: k2_def k'_def AddHeldLock_def)
    have ne: "l' \<noteq> l" if "waiting_for k1 s = Some l'" for s l' using locks_invD(12,14) [OF i1] that fl by fastforce
    have o: "GetLockOwner s k2 = GetLockOwner s k1" for s using ne [of s] by (auto simp: GetLockOwner_def w2 k2_def k'_def AddHeldLock_def split: option.splits)
    have one2: "one_lock a k2" if "one_lock a k" for a
    proof -
      have nl: "l \<notin> set (held k1 s)" for s using locks_invD(14) [OF i1] fl by simp
      have h2: "held k2 s = (if s = this then l # held k1 s else held k1 s)" for s by (simp add: k2_def k'_def AddHeldLock_def)
      have old: "locks k2 l' = locks k1 l'" if "l' \<noteq> l" for l' using that by (simp add: k2_def k'_def AddHeldLock_def)
      have new: "lock_address_key (locks k2 l) = ?a" "lock_is_kernel (locks k2 l) = ?b" by (simp_all add: k2_def k'_def AddHeldLock_def)
      have none: "\<not> (lock_address_key (locks k1 l') = ?a \<and> lock_is_kernel (locks k1 l') = ?b)" if "l' \<in> set (held k1 this)" for l'
        using None that by (auto simp: FindHeldLock_def find_None_iff)
      have key: "x = l" if "x \<in> set (held k2 s)" "lock_address_key (locks k2 x) = lock_address_key (locks k2 l)" "lock_is_kernel (locks k2 x) = lock_is_kernel (locks k2 l)" "s = this"
        for s x using that none [of x] old [of x] new h2 [of s] by (cases "x = l") auto
      show ?thesis unfolding one_lock_def
      proof (intro allI impI, elim conjE)
        fix s x y assume h: "x \<in> set (held k2 s)" "y \<in> set (held k2 s)" and k: "lock_address_key (locks k2 x) = a" "lock_is_kernel (locks k2 x)"
          "lock_address_key (locks k2 y) = a" "lock_is_kernel (locks k2 y)"
        show "x = y"
        proof (cases "x = l \<or> y = l")
          case True
          then have s: "s = this" using h h2 [of s] nl [of s] by (auto split: if_splits)
          show ?thesis using True key [OF h(1) _ _ s] key [OF h(2) _ _ s] k by metis
        next
          case False
          then have "x \<in> set (held k1 s)" "y \<in> set (held k1 s)" "locks k2 x = locks k1 x" "locks k2 y = locks k1 y"
            using h h2 [of s] old [of x] old [of y] by (auto split: if_splits)
          then show ?thesis using k one1 [OF that, unfolded one_lock_def, rule_format, of x s y] by simp
        qed
      qed
    qed
    show thesis by (rule fin [of l k2 "Some l"]) (use None pre fl i2 u2 o w2 t1 assms(4) one2 in \<open>auto simp: Create_def k2_def k'_def AddHeldLock_def\<close>)
  qed
qed

lemma RemoveWaiterImpl_ok:
  assumes "locks_inv T None (\<lambda>_. 0) k" "GetLockOwner t k = Some this" "IsSchedulerLockedByCurrentThread k"
  obtains k' where "RemoveWaiterImpl this t k = Some k'" "lock_change T t None k k'"
proof -
  note result = that
  note i = locks_invD [OF assms(1)]
  let ?b = "m_is_kernel_address_key (threads k t)"
  let ?d = "if ?b then 1 else (0 :: int)"
  obtain l where w: "waiting_for k t = Some l" using assms(2) by (auto simp: GetLockOwner_def split: option.splits)
  have h: "l \<in> set (held k this)" using waiting_held [OF assms(1) w assms(2)] .
  have b: "lock_is_kernel (locks k l) = ?b" using i(7) [OF h] i(11) [OF w] by (auto simp: lock_ok_def)
  define k1 where "k1 = (if ?b then SetSchedulerUpdateNeeded (add_kernel_waiters this (- 1) k) else k)"
  have same: "threads k1 = threads (add_kernel_waiters this (- ?d) k)" "locks k1 = locks k" "free_locks k1 = free_locks k" "cv_trees k1 = cv_trees k"
    by (simp_all add: k1_def add_kernel_waiters_def set_thread_def)
  have v: "lock_view k1 = lock_view (add_kernel_waiters this (- ?d) k)" by (simp add: lock_view_def same) (simp add: add_kernel_waiters_def)
  have i1: "locks_inv T None ((\<lambda>_. 0)(this := - ?d)) k1" using kernel_waiters_inv [OF assms(1), of this "- ?d"] lock_view_inv [OF v] by simp
  have u1: "untouched k k1" using untouched_trans [OF untouched_simps(1) untouched_simps(2)] by (simp add: k1_def)
  have t1: "waiting_for k1 s = waiting_for k s" "held k1 s = held k s" for s by (simp_all add: same add_kernel_waiters_def)
  have pos: "?b \<Longrightarrow> m_num_kernel_waiters (threads k this) > 0"
  proof -
    assume "?b"
    then have "kernel_waiters (locks k l) > 0" using b i(8) [OF h] by (simp add: kernel_waiters_def)
    then show ?thesis using i(5) [of this] kernel_count_remove [OF h, of k] kernel_count_nonneg [of k "remove1 l (held k this)"] by simp
  qed
  define k3 where "k3 = set_thread t (\<lambda>th. th\<lparr>m_waiting_lock_info := None\<rparr>)
    (set_lock l (\<lambda>i. i\<lparr>lock_tree := remove1 t (tree k1 l), lock_waiter_count := lock_waiter_count i - 1\<rparr>) k1)"
  let ?last = "tree k1 l = [t]"
  have w1: "waiting_for k1 t = Some l" and h1: "l \<in> set (held k1 this)" using w h t1 by simp_all
  have r: "Lock_RemoveWaiter l t k1 = Some (?last, k3)" and
    i3: "locks_inv T (if ?last then Some l else None) (((\<lambda>_. 0)(this := - ?d))(this := ((\<lambda>_. 0)(this := - ?d)) this + (if lock_is_kernel (locks k1 l) then 1 else 0))) k3"
    using RemoveWaiter_inv [OF i1 w1 h1 k3_def] by blast+
  have "((\<lambda>_. 0)(this := - ?d))(this := ((\<lambda>_. 0)(this := - ?d)) this + (if lock_is_kernel (locks k1 l) then 1 else 0)) = (\<lambda>_. 0)"
    using b same(2) by (auto simp: fun_eq_iff)
  then have i3: "locks_inv T (if ?last then Some l else None) (\<lambda>_. 0) k3" using i3 by simp
  have u3: "untouched k k3" unfolding k3_def by (rule untouched_trans [OF u1 untouched_trans [OF untouched_simps(3) untouched_simps(7)]])
  have o3: "GetLockOwner u k3 = (if u = t then None else GetLockOwner u k)" for u
    using same(2) t1(1) by (auto simp: GetLockOwner_def k3_def split: option.splits)
  have one3: "one_lock a k3" if "one_lock a k" for a by (rule one_lock_cong [OF _ _ _ that]) (auto simp: k3_def same(2) t1(2) split: if_splits)
  have as: "assert_that (lock_owner (locks k1 l) = Some this) k1 = k1" using i(6) [OF h] same(2) by simp
  have "(if ?b then SetSchedulerUpdateNeeded (add_kernel_waiters this (- 1) (assert_that (m_num_kernel_waiters (threads k this) > 0) k)) else k) = k1"
    using pos by (simp add: k1_def)
  then have pre: "RemoveWaiterImpl this t k = (if ?last then do {k4 \<leftarrow> erase_held this l k3; Some (Free_lock l k4)} else Some k3)"
    unfolding RemoveWaiterImpl_def Let_def locked_same [OF assms(3)] by (simp add: w1 as r)
  show thesis
  proof (cases ?last)
    case True
    have "l \<in> set (held k3 this)" using h1 by (auto simp: k3_def)
    then obtain k4 where k4: "erase_held this l k3 = Some k4" "locks_inv T None (\<lambda>_. 0) (Free_lock l k4)"
      "k4 = set_thread this (\<lambda>th. th\<lparr>m_held_lock_info_list := remove1 l (m_held_lock_info_list th)\<rparr>) k3"
      using drop_lock [of T l "\<lambda>_. 0" k3 this] i3 True by auto
    have "untouched k (Free_lock l k4)" unfolding k4(3) by (rule untouched_trans [OF u3 untouched_trans [OF untouched_simps(8) untouched_simps(4)]])
    moreover have "GetLockOwner u (Free_lock l k4) = GetLockOwner u k3" for u
    proof -
      have "waiting_for (Free_lock l k4) u = waiting_for k3 u" "locks (Free_lock l k4) = locks k3" by (simp_all add: k4(3))
      then show ?thesis unfolding GetLockOwner_def by (simp only:)
    qed
    moreover have "one_lock a (Free_lock l k4)" if "one_lock a k3" for a
      by (rule one_lock_cong [OF _ _ _ that]) (auto simp: k4(3) dest: subsetD [OF set_remove1_subset])
    ultimately have "lock_change T t None k (Free_lock l k4)" using k4(2) o3 one3 by (simp add: lock_change_def)
    then show thesis using result [of "Free_lock l k4"] pre True k4(1) by simp
  next
    case False
    then have "lock_change T t None k k3" using i3 u3 o3 one3 by (simp add: lock_change_def)
    then show thesis using result [of k3] pre False by simp
  qed
qed

lemma owner_waiting:
  assumes "locks_inv T X \<delta> k"
  shows "GetLockOwner u k = None \<longleftrightarrow> waiting_for k u = None"
proof (cases "waiting_for k u")
  case (Some l)
  then obtain t where "l \<in> set (held k t)" using locks_invD(12) [OF assms] by blast
  then show ?thesis using locks_invD(6) [OF assms] Some by (simp add: GetLockOwner_def)
qed (simp add: GetLockOwner_def)

section \<open>A change of priority\<close>

text \<open>What stays when priorities change: all but the priorities, the run queues and the order of the waiters.\<close>

definition stays_but_prio :: "tkern \<Rightarrow> tkern \<Rightarrow> bool" where
  "stays_but_prio k k' \<longleftrightarrow> (\<forall>t. rest_of (threads k' t) = rest_of (threads k t) \<and> GetLockOwner t k' = GetLockOwner t k \<and>
     is_dummy (threads k' t) = is_dummy (threads k t) \<and> m_core_id (threads k' t) = m_core_id (threads k t) \<and>
     m_affinity_mask (threads k' t) = m_affinity_mask (threads k t) \<and> m_thread_state (threads k' t) = m_thread_state (threads k t)) \<and>
     m_owner_thread k' = m_owner_thread k \<and> current_thread k' = current_thread k \<and> m_lock_count k' = m_lock_count k \<and> asserted k' = asserted k \<and>
     (\<forall>a. one_lock a k \<longrightarrow> one_lock a k')"

lemma stays_but_prio_refl [simp]: "stays_but_prio k k"
  by (simp add: stays_but_prio_def)

lemma stays_but_prio_trans: "stays_but_prio k k' \<Longrightarrow> stays_but_prio k' k'' \<Longrightarrow> stays_but_prio k k''"
  by (simp add: stays_but_prio_def)

lemma stays_but_prioD:
  assumes "stays_but_prio k k'"
  shows "m_base_priority (threads k' t) = m_base_priority (threads k t)" "m_condvar_tree (threads k' t) = m_condvar_tree (threads k t)"
    "GetLockOwner t k' = GetLockOwner t k" "IsSchedulerLockedByCurrentThread k' = IsSchedulerLockedByCurrentThread k" "asserted k' = asserted k"
    "is_dummy (threads k' t) = is_dummy (threads k t)" "m_core_id (threads k' t) = m_core_id (threads k t)"
    "m_affinity_mask (threads k' t) = m_affinity_mask (threads k t)" "m_thread_state (threads k' t) = m_thread_state (threads k t)"
    "m_is_kernel_address_key (threads k' t) = m_is_kernel_address_key (threads k t)" "m_address_key (threads k' t) = m_address_key (threads k t)"
proof -
  have r: "rest_of (threads k' t) = rest_of (threads k t)" using assms by (simp add: stays_but_prio_def)
  show "m_base_priority (threads k' t) = m_base_priority (threads k t)" "m_condvar_tree (threads k' t) = m_condvar_tree (threads k t)"
    "m_is_kernel_address_key (threads k' t) = m_is_kernel_address_key (threads k t)" "m_address_key (threads k' t) = m_address_key (threads k t)"
    using r by (simp_all add: rest_of_def)
qed (use assms in \<open>simp_all add: stays_but_prio_def IsSchedulerLockedByCurrentThread_def\<close>)

lemma cv_update_inv:
  assumes "locks_inv T X \<delta> k" "m_condvar_tree (threads k t) = Some c" "k' = AfterUpdatePriority c t (set_thread t (\<lambda>th. th\<lparr>m_priority := p\<rparr>)
    (k\<lparr>cv_trees := (cv_trees k)(c := remove1 t (cv_trees k c))\<rparr>))"
  shows "u \<in> set (cv_trees k c') \<Longrightarrow> u \<in> set (cv_trees k' c')"
  by (cases "u = t"; cases "c' = c") (auto simp: assms(3) AfterUpdatePriority_def in_set_remove1)

lemma set_priority_inv:
  assumes "locks_inv T None \<delta> k" "waiting_for k t = None" "threads k' = (threads k)(t := (threads k t)\<lparr>m_priority := p\<rparr>)" "locks k' = locks k" "free_locks k' = free_locks k"
    "\<And>u c. m_condvar_tree (threads k u) = Some c \<Longrightarrow> u \<in> set (cv_trees k' c)"
  shows "locks_inv T None \<delta> k'"
proof -
  note i = locks_invD [OF assms(1)]
  have th: "held k' s = held k s" "waiting_for k' s = waiting_for k s" "m_condvar_tree (threads k' s) = m_condvar_tree (threads k s)"
    "m_num_kernel_waiters (threads k' s) = m_num_kernel_waiters (threads k s)" "m_address_key (threads k' s) = m_address_key (threads k s)"
    "m_is_kernel_address_key (threads k' s) = m_is_kernel_address_key (threads k s)" for s by (simp_all add: assms(3))
  have ok: "lock_ok k' l" if h: "l \<in> set (held k s)" for l s
  proof -
    have "t \<notin> set (tree k l)" using i(7) [OF h] assms(2) by (auto simp: lock_ok_def)
    then have e: "map (prio k') (tree k l) = map (prio k) (tree k l)" by (auto simp: assms(3))
    show ?thesis using i(7) [OF h] unfolding lock_ok_def th assms(4) e .
  qed
  have kc: "kernel_count k' ls = kernel_count k ls" for ls unfolding kernel_count_def assms(4) ..
  show ?thesis
  proof (rule locks_invI)
    show "lock_owner (locks k' l) = Some s \<and> lock_ok k' l \<and> (tree k' l = [] \<longleftrightarrow> None = Some l)" if "l \<in> set (held k' s)" for s l
      using that i(6,8) [of l s] ok [of l s] unfolding th assms(4) by simp
    show "u \<in> T \<and> m_condvar_tree (threads k' u) = None \<and> u \<in> set (tree k' l) \<and> (\<exists>s. l \<in> set (held k' s))" if "waiting_for k' u = Some l" for u l
      using that i(9-12) [of u l] unfolding th assms(4) by simp
    show "m_num_kernel_waiters (threads k' s) = kernel_count k' (held k' s) + \<delta> s" for s using i(5) [of s] unfolding th kc .
    show "card T \<le> length (free_locks k') + card (\<Union>t\<in>T. set (held k' t))" using i(15) unfolding th assms(5) .
    show "l \<notin> set (held k' s)" if "l \<in> set (free_locks k')" for s l using that i(14) [of l s] unfolding th assms(5) by blast
    show "u \<in> set (cv_trees k' c)" if "m_condvar_tree (threads k' u) = Some c" for u c using that assms(6) unfolding th by blast
  qed (use i(1-4,13) in \<open>simp_all only: th assms(5)\<close>)
qed

lemma owner_cong: "waiting_for k' t = waiting_for k t \<Longrightarrow> locks k' = locks k \<Longrightarrow> GetLockOwner t k' = GetLockOwner t k"
  unfolding GetLockOwner_def by (simp only:)

text \<open>The middle part, for a thread that is in no list of waiters: its place among the threads of a condition variable follows.\<close>

definition reprioritize :: "nat \<Rightarrow> int \<Rightarrow> tkern \<Rightarrow> tkern option" where
  "reprioritize thread p k = do {
     k2 \<leftarrow> (case m_condvar_tree (threads k thread) of None \<Rightarrow> Some k | Some c \<Rightarrow> BeforeUpdatePriority c thread k);
     let k3 = set_thread thread (\<lambda>th. th\<lparr>m_priority := p\<rparr>) k2;
     Some (case m_condvar_tree (threads k3 thread) of None \<Rightarrow> k3 | Some c \<Rightarrow> AfterUpdatePriority c thread k3)
   }"

lemma reprioritize_ok:
  assumes "locks_inv T None \<delta> k" "waiting_for k t = None" "IsSchedulerLockedByCurrentThread k"
  obtains k' where "reprioritize t p k = Some k'" "locks_inv T None \<delta> k'" "threads k' = (threads k)(t := (threads k t)\<lparr>m_priority := p\<rparr>)"
    "locks k' = locks k" "m_priority_queue k' = m_priority_queue k" "m_owner_thread k' = m_owner_thread k" "current_thread k' = current_thread k"
    "asserted k' = asserted k" "m_lock_count k' = m_lock_count k"
proof (cases "m_condvar_tree (threads k t)")
  case None
  let ?k = "set_thread t (\<lambda>th. th\<lparr>m_priority := p\<rparr>) k"
  have "locks_inv T None \<delta> ?k" by (rule set_priority_inv [OF assms(1,2)]) (use locks_invD(16) [OF assms(1)] in auto)
  then show thesis using that [of ?k] None by (simp add: reprioritize_def) (simp add: set_thread_def)
next
  case (Some c)
  let ?k2 = "k\<lparr>cv_trees := (cv_trees k)(c := remove1 t (cv_trees k c))\<rparr>"
  define k' where "k' = AfterUpdatePriority c t (set_thread t (\<lambda>th. th\<lparr>m_priority := p\<rparr>) ?k2)"
  have b: "BeforeUpdatePriority c t k = Some ?k2" using locks_invD(16) [OF assms(1) Some] assms(3) by (simp add: BeforeUpdatePriority_def tree_erase_def)
  have l: "locked (set_thread t (\<lambda>th. th\<lparr>m_priority := p\<rparr>) ?k2) = set_thread t (\<lambda>th. th\<lparr>m_priority := p\<rparr>) ?k2"
    using assms(3) by (intro locked_same) (simp add: IsSchedulerLockedByCurrentThread_def)
  have f: "threads k' = (threads k)(t := (threads k t)\<lparr>m_priority := p\<rparr>)" "locks k' = locks k" "free_locks k' = free_locks k"
    "m_priority_queue k' = m_priority_queue k" "m_owner_thread k' = m_owner_thread k" "current_thread k' = current_thread k" "asserted k' = asserted k" "m_lock_count k' = m_lock_count k"
    unfolding k'_def AfterUpdatePriority_def l by (simp_all add: set_thread_def)
  have "locks_inv T None \<delta> k'"
    by (rule set_priority_inv [OF assms(1,2) f(1-3)]) (use cv_update_inv [OF assms(1) Some k'_def] locks_invD(16) [OF assms(1)] in blast)
  moreover have "reprioritize t p k = Some k'" using Some b by (simp add: reprioritize_def k'_def)
  ultimately show thesis using that f by blast
qed

lemma change_priority_eq:
  "change_priority t p holder k = do {
     k1 \<leftarrow> (case holder of None \<Rightarrow> Some k | Some owner \<Rightarrow> RemoveWaiterImpl owner t k);
     k4 \<leftarrow> reprioritize t p k1;
     k5 \<leftarrow> (case holder of None \<Rightarrow> Some k4 | Some owner \<Rightarrow> AddWaiterImpl owner t k4);
     OnThreadPriorityChanged t (prio k1 t) k5
   }"
proof -
  have "threads k2 = threads k1" if "BeforeUpdatePriority c t k1 = Some k2" for c k1 k2
    using that by (auto simp: BeforeUpdatePriority_def Option.bind_eq_Some_conv)
  then show ?thesis unfolding change_priority_def reprioritize_def Let_def
    by (auto intro!: Option.bind_cong simp: Option.bind_assoc split: option.splits)
qed

lemma OnThreadPriorityChanged_core: "OnThreadPriorityChanged t old k = Some k' \<Longrightarrow> m_core_id (threads k' u) = m_core_id (threads k u)"
  by (auto simp: OnThreadPriorityChanged_def Let_def with_queue_def Option.bind_eq_Some_conv IncrementScheduledCount_def set_process_def
      SetSchedulerUpdateNeeded_def split: if_splits option.splits)

lemma keeps_rest:
  fixes k k' :: tkern
  assumes "keeps k k'"
  shows "rest_of (threads k' t) = rest_of (threads k t)" "GetLockOwner t k' = GetLockOwner t k"
proof -
  have m: "sched_thread.more (threads k' t) = sched_thread.more (threads k t)" using keepsD(8) [OF assms] .
  then have "m_address_key_value (threads k' t) = m_address_key_value (threads k t)" "m_condvar_key (threads k' t) = m_condvar_key (threads k t)"
    "is_pinned (threads k' t) = is_pinned (threads k t)" "m_wait_queue (threads k' t) = m_wait_queue (threads k t)" by (cases "threads k' t"; cases "threads k t"; simp)+
  then show "rest_of (threads k' t) = rest_of (threads k t)" using more_fields [OF m] by (simp add: rest_of_def)
  show "GetLockOwner t k' = GetLockOwner t k" by (rule owner_cong) (use lock_viewD(3,8) [OF keeps_lock_view [OF assms]] in auto)
qed

text \<open>The scheduler takes note of the change whatever was done to the waiters in between.\<close>

lemma priority_noted:
  fixes k k5 :: tkern
  assumes "runs k C" "IsSchedulerLockedByCurrentThread k5" "is_dummy (threads k t) \<or> valid_thread ((threads k t)\<lparr>m_priority := p\<rparr>)"
    "queue_view k5 = queue_view (set_thread t (\<lambda>th. th\<lparr>m_priority := p\<rparr>) k)"
  obtains k' C' where "OnThreadPriorityChanged t (prio k t) k5 = Some k'" "keeps k5 k'" "runs k' C'" "\<And>u. m_core_id (threads k' u) = m_core_id (threads k5 u)"
proof -
  define kk where "kk = set_thread t (\<lambda>th. th\<lparr>m_priority := prio k t\<rparr>) k5"
  have q: "m_priority_queue k5 = m_priority_queue k" "m_core_id (threads k5 u) = m_core_id (threads k u)" "m_affinity_mask (threads k5 u) = m_affinity_mask (threads k u)"
    "is_dummy (threads k5 u) = is_dummy (threads k u)" "m_thread_state (threads k5 u) = m_thread_state (threads k u)"
    "prio k5 u = (if u = t then p else prio k u)" for u using fun_cong [OF arg_cong [OF assms(4), of snd], of u] arg_cong [OF assms(4), of fst]
    by (auto simp: queue_view_def split: if_splits)
  have "queue_view kk = queue_view k" using q by (auto simp: queue_view_def kk_def fun_eq_iff)
  then have r: "runs kk C" using runs_view assms(1) by blast
  have "(threads k5 t)\<lparr>m_priority := p\<rparr> = threads k5 t" using q(6) [of t] by (cases "threads k5 t") auto
  then have e: "k5 = set_thread t (\<lambda>th. th\<lparr>m_priority := p\<rparr>) kk" by (cases k5) (simp add: kk_def set_thread_def)
  have "settles k5 (OnThreadPriorityChanged t (prio kk t) k5)"
    by (rule OnThreadPriorityChanged_settles [OF r _ e])
      (use assms(2,3) q in \<open>auto simp: kk_def IsSchedulerLockedByCurrentThread_def valid_thread_def\<close>)
  moreover have "prio kk t = prio k t" by (simp add: kk_def)
  ultimately obtain k' C' where o: "OnThreadPriorityChanged t (prio k t) k5 = Some k'" "keeps k5 k'" "runs k' C'" using settles_obtain by (metis (no_types))
  show thesis by (rule that [OF o]) (rule OnThreadPriorityChanged_core [OF o(1)])
qed

lemma change_priority_ok:
  assumes "locks_inv T None (\<lambda>_. 0) k" "t \<in> T" "runs k C" "IsSchedulerLockedByCurrentThread k"
    "is_dummy (threads k t) \<or> valid_thread ((threads k t)\<lparr>m_priority := p\<rparr>)"
  obtains k' C' where "change_priority t p (GetLockOwner t k) k = Some k'" "locks_inv T None (\<lambda>_. 0) k'" "runs k' C'" "stays_but_prio k k'"
    "\<And>u. prio k' u = (if u = t then p else prio k u)"
proof -
  let ?h = "GetLockOwner t k"
  have "\<exists>k1. (case ?h of None \<Rightarrow> Some k | Some owner \<Rightarrow> RemoveWaiterImpl owner t k) = Some k1 \<and> lock_change T t None k k1"
  proof (cases ?h)
    case None
    then have "lock_change T t None k k" using assms(1) by (simp add: lock_change_def)
    then show ?thesis using None by simp
  next
    case (Some owner)
    then show ?thesis using RemoveWaiterImpl_ok [OF assms(1) Some assms(4)] by (metis option.simps(5))
  qed
  then obtain k1 where k1: "(case ?h of None \<Rightarrow> Some k | Some owner \<Rightarrow> RemoveWaiterImpl owner t k) = Some k1"
    and i1: "locks_inv T None (\<lambda>_. 0) k1" and u1: "untouched k k1" and o1: "\<And>u. GetLockOwner u k1 = (if u = t then None else GetLockOwner u k)"
    and one1: "\<And>a. one_lock a k \<Longrightarrow> one_lock a k1"
    unfolding lock_change_def by blast
  have w1: "waiting_for k1 t = None" using owner_waiting [OF i1, of t] o1 by simp
  have l1: "IsSchedulerLockedByCurrentThread k1" using untouchedD(6) [OF u1] assms(4) by simp
  obtain k4 where k4: "reprioritize t p k1 = Some k4" "locks_inv T None (\<lambda>_. 0) k4" "threads k4 = (threads k1)(t := (threads k1 t)\<lparr>m_priority := p\<rparr>)"
    "locks k4 = locks k1" "m_priority_queue k4 = m_priority_queue k1" "m_owner_thread k4 = m_owner_thread k1" "current_thread k4 = current_thread k1"
    "asserted k4 = asserted k1" "m_lock_count k4 = m_lock_count k1" using reprioritize_ok [OF i1 w1 l1] by metis
  have o4: "GetLockOwner u k4 = GetLockOwner u k1" for u by (rule owner_cong) (use k4(3,4) in auto)
  have l4: "IsSchedulerLockedByCurrentThread k4" using l1 k4(6,7) by (simp add: IsSchedulerLockedByCurrentThread_def)
  have "\<exists>k5. (case ?h of None \<Rightarrow> Some k4 | Some owner \<Rightarrow> AddWaiterImpl owner t k4) = Some k5 \<and> lock_change T t ?h k4 k5"
  proof (cases ?h)
    case None
    then have "lock_change T t ?h k4 k4" using k4(2) o4 o1 by (simp add: lock_change_def)
    then show ?thesis using None by simp
  next
    case (Some owner)
    have "owner \<in> T" using owner_in [OF assms(1) Some] by simp
    moreover have "m_condvar_tree (threads k t) = None"
      using Some locks_invD(10) [OF assms(1), of t] by (cases "waiting_for k t") (auto simp: GetLockOwner_def)
    then have "m_condvar_tree (threads k4 t) = None" using k4(3) untouchedD(3) [OF u1, of t] by simp
    moreover have "waiting_for k4 t = None" using w1 k4(3) by simp
    ultimately show ?thesis using AddWaiterImpl_ok [OF k4(2) _ assms(2) _ _ l4, of owner] Some by (metis option.simps(5))
  qed
  then obtain k5 where k5: "(case ?h of None \<Rightarrow> Some k4 | Some owner \<Rightarrow> AddWaiterImpl owner t k4) = Some k5"
    and i5: "locks_inv T None (\<lambda>_. 0) k5" and u5: "untouched k4 k5" and o5: "\<And>u. GetLockOwner u k5 = (if u = t then ?h else GetLockOwner u k4)"
    and one5: "\<And>a. one_lock a k4 \<Longrightarrow> one_lock a k5"
    unfolding lock_change_def by blast
  have "queue_view k4 = queue_view (set_thread t (\<lambda>th. th\<lparr>m_priority := p\<rparr>) k)"
    using untouchedD(1,10,11,12,14) [OF u1] u1 k4(3,5) by (auto simp: queue_view_def untouched_def fun_eq_iff)
  then have q5: "queue_view k5 = queue_view (set_thread t (\<lambda>th. th\<lparr>m_priority := p\<rparr>) k)" using u5 by (simp add: untouched_def)
  have l5: "IsSchedulerLockedByCurrentThread k5" using untouchedD(6) [OF u5] l4 by simp
  obtain k' C' where k': "OnThreadPriorityChanged t (prio k t) k5 = Some k'" "keeps k5 k'" "runs k' C'" "\<And>u. m_core_id (threads k' u) = m_core_id (threads k5 u)"
    using priority_noted [OF assms(3) l5 assms(5) q5] by metis
  have e: "change_priority t p ?h k = Some k'" using k1 k4(1) k5 k'(1) untouchedD(1) [OF u1, of t] by (simp add: change_priority_eq)
  have i': "locks_inv T None (\<lambda>_. 0) k'" using lock_view_inv [OF keeps_lock_view [OF k'(2)]] i5 by simp
  have p: "prio k' u = (if u = t then p else prio k u)" for u using keepsD(1) [OF k'(2)] untouchedD(1) [OF u5] k4(3) untouchedD(1) [OF u1] by simp
  have "stays_but_prio k k'" unfolding stays_but_prio_def
  proof (intro conjI allI)
    have "rest_of (threads k4 u) = rest_of (threads k1 u)" for u using k4(3) by (simp add: rest_of_def)
    then show "rest_of (threads k' u) = rest_of (threads k u)" for u using keeps_rest(1) [OF k'(2)] u5 u1 by (simp add: untouched_def)
    have "one_lock a k'" if "one_lock a k5" for a
      by (rule one_lock_cong [OF _ _ _ that]) (use lock_viewD(2,8) [OF keeps_lock_view [OF k'(2)]] in auto)
    moreover have "one_lock a k4" if "one_lock a k1" for a by (rule one_lock_cong [OF _ _ _ that]) (use k4(3,4) in auto)
    ultimately show "one_lock a k \<longrightarrow> one_lock a k'" for a using one1 one5 by blast
    show "GetLockOwner u k' = GetLockOwner u k" for u using keeps_rest(2) [OF k'(2)] o5 o4 o1 by simp
  qed (use keepsD(2,3,4,9,10,11,15) [OF k'(2)] k'(4) u5 u1 k4(3,6-9) untouchedD(10-14) [OF u1] untouchedD(10-14) [OF u5] in \<open>auto simp: untouched_def\<close>)
  then show thesis using that e i' k'(3) p by blast
qed

section \<open>Restoring the priorities\<close>

text \<open>The threads of \<open>T\<close> with their locks and run queues in order, apart from the inherited priorities.\<close>

definition threads_ok :: "nat set \<Rightarrow> tkern \<Rightarrow> bool" where
  "threads_ok T k \<longleftrightarrow> locks_inv T None (\<lambda>_. 0) k \<and> (\<exists>C. runs k C) \<and> IsSchedulerLockedByCurrentThread k \<and>
     (\<forall>t\<in>T. 0 \<le> m_base_priority (threads k t) \<and> m_base_priority (threads k t) \<le> LowestPriority \<and> 0 \<le> prio k t \<and> prio k t \<le> LowestPriority \<and>
        (is_dummy (threads k t) \<or> valid_thread (threads k t)))"

lemma threads_okD:
  assumes "threads_ok T k"
  shows "locks_inv T None (\<lambda>_. 0) k" "\<exists>C. runs k C" "IsSchedulerLockedByCurrentThread k" "t \<in> T \<Longrightarrow> 0 \<le> m_base_priority (threads k t)"
    "t \<in> T \<Longrightarrow> m_base_priority (threads k t) \<le> LowestPriority" "t \<in> T \<Longrightarrow> 0 \<le> prio k t" "t \<in> T \<Longrightarrow> prio k t \<le> LowestPriority"
    "t \<in> T \<Longrightarrow> is_dummy (threads k t) \<or> valid_thread (threads k t)" "finite T"
  using assms locks_invD(1) unfolding threads_ok_def by blast+

definition settled :: "nat set \<Rightarrow> tkern \<Rightarrow> bool" where
  "settled T k \<longleftrightarrow> (\<forall>t\<in>T. prio k t = inherited k t)"

definition settled_but :: "nat set \<Rightarrow> nat option \<Rightarrow> tkern \<Rightarrow> bool" where
  "settled_but T x k \<longleftrightarrow> (\<forall>t\<in>T. Some t \<noteq> x \<longrightarrow> prio k t = inherited k t)"

lemma finite_waiters: "locks_inv T X \<delta> k \<Longrightarrow> finite (waiters_of k t)"
  using finite_subset [OF waiters_in locks_invD(1)] by blast

lemma inherited_range:
  assumes "threads_ok T k" "t \<in> T"
  shows "0 \<le> inherited k t" "inherited k t \<le> m_base_priority (threads k t)" "inherited k t \<le> LowestPriority"
proof -
  let ?S = "insert (m_base_priority (threads k t)) (prio k ` waiters_of k t)"
  have f: "finite ?S" using finite_waiters [OF threads_okD(1) [OF assms(1)]] by simp
  have "\<forall>p\<in>?S. 0 \<le> p" using threads_okD(4,6) [OF assms(1)] assms(2) waiters_in [OF threads_okD(1) [OF assms(1)], of t] by auto
  then show "0 \<le> inherited k t" unfolding inherited_def using f by simp
  show b: "inherited k t \<le> m_base_priority (threads k t)" unfolding inherited_def using f by simp
  show "inherited k t \<le> LowestPriority" using b threads_okD(5) [OF assms] by simp
qed

lemma inherited_mono:
  assumes "finite (waiters_of k t)" "waiters_of k' t = waiters_of k t" "m_base_priority (threads k' t) = m_base_priority (threads k t)"
    "\<And>u. u \<in> waiters_of k t \<Longrightarrow> prio k' u \<le> prio k u"
  shows "inherited k' t \<le> inherited k t"
proof -
  let ?S = "insert (m_base_priority (threads k t)) (prio k ` waiters_of k t)" and ?S' = "insert (m_base_priority (threads k t)) (prio k' ` waiters_of k t)"
  have "\<exists>p'\<in>?S'. p' \<le> p" if "p \<in> ?S" for p using that assms(4) by auto
  then have "\<exists>p'\<in>?S'. p' \<le> Min ?S" using Min_in [of ?S] assms(1) by blast
  then have "Min ?S' \<le> Min ?S" using Min_le [of ?S'] assms(1) by (meson finite_imageI finite_insert order_trans)
  then show ?thesis unfolding inherited_def assms(2,3) .
qed

lemma inherited_cong:
  assumes "waiters_of k' t = waiters_of k t" "m_base_priority (threads k' t) = m_base_priority (threads k t)"
    "\<And>u. u \<in> waiters_of k t \<Longrightarrow> prio k' u = prio k u"
  shows "inherited k' t = inherited k t"
  unfolding inherited_def assms(1,2) using assms(3) by (simp cong: image_cong)

lemma stays_waiters: "stays_but_prio k k' \<Longrightarrow> waiters_of k' t = waiters_of k t"
  by (simp add: waiters_of_def stays_but_prioD(3))

text \<open>One turn: the thread has its priority, and at most the owner of the lock it waits for is off, in the same direction.\<close>

lemma restore_turn:
  assumes "threads_ok T k" "settled_but T (Some t) k" "t \<in> T" "\<sigma> = 1 \<or> \<sigma> = - (1 :: int)" "\<sigma> * inherited k t < \<sigma> * prio k t"
  obtains k' where "change_priority t (inherited k t) (GetLockOwner t k) k = Some k'" "threads_ok T k'" "stays_but_prio k k'"
    "settled_but T (GetLockOwner t k) k'" "\<And>u. prio k' u = (if u = t then inherited k t else prio k u)"
    "\<And>u. GetLockOwner t k = Some u \<Longrightarrow> \<sigma> * inherited k' u \<le> \<sigma> * prio k' u"
proof -
  note r = inherited_range [OF assms(1,3)]
  note d = threads_okD [OF assms(1)]
  obtain C where C: "runs k C" using d(2) by blast
  have v: "is_dummy (threads k t) \<or> valid_thread ((threads k t)\<lparr>m_priority := inherited k t\<rparr>)" using d(8) [OF assms(3)] r by (auto simp: valid_thread_def)
  obtain k' C' where k': "change_priority t (inherited k t) (GetLockOwner t k) k = Some k'" "locks_inv T None (\<lambda>_. 0) k'" "runs k' C'" "stays_but_prio k k'"
    and p: "\<And>u. prio k' u = (if u = t then inherited k t else prio k u)"
    using change_priority_ok [OF d(1) assms(3) C d(3) v] by metis
  note s = stays_but_prioD [OF k'(4)]
  have w: "waiters_of k' u = waiters_of k u" for u using stays_waiters [OF k'(4)] .
  have fw: "finite (waiters_of k u)" for u using finite_waiters [OF d(1)] .
  have ok: "threads_ok T k'" unfolding threads_ok_def
  proof (intro conjI ballI)
    show "is_dummy (threads k' u) \<or> valid_thread (threads k' u)" if "u \<in> T" for u
      using d(8) [OF that] p [of u] r s(6-8) [of u] by (auto simp: valid_thread_def split: if_splits)
  qed (use k'(2,3) s(1,4) d(3-7) p r in auto)
  have other: "inherited k' u = inherited k u" if "GetLockOwner t k \<noteq> Some u" for u
    by (rule inherited_cong [OF w s(1)]) (use that p in \<open>auto simp: waiters_of_def\<close>)
  have "settled_but T (GetLockOwner t k) k'" unfolding settled_but_def
    using other p assms(2) by (auto simp: settled_but_def)
  moreover have "\<sigma> * inherited k' u \<le> \<sigma> * prio k' u" if o: "GetLockOwner t k = Some u" for u
  proof -
    have "\<sigma> * inherited k' u \<le> \<sigma> * inherited k u"
    proof (cases "\<sigma> = 1")
      case True
      have "inherited k' u \<le> inherited k u" by (rule inherited_mono [OF fw w s(1)]) (use p assms(5) True in auto)
      then show ?thesis using True by simp
    next
      case False
      have "inherited k u \<le> inherited k' u" by (rule inherited_mono) (use fw w s(1) p assms(4,5) False in auto)
      then show ?thesis using assms(4) False by simp
    qed
    moreover have "inherited k u = prio k' u" using p [of u] assms(2) owner_in [OF d(1) o] by (auto simp: settled_but_def)
    ultimately show ?thesis by simp
  qed
  ultimately show thesis using that k' ok p by blast
qed

text \<open>
  The loop ends, whatever the threads wait for, since priorities move in one direction only and within their
  range; the measure is how far they can still move.
\<close>

definition room :: "nat set \<Rightarrow> int \<Rightarrow> tkern \<Rightarrow> nat" where
  "room T \<sigma> k = nat (\<Sum>t\<in>T. 64 + \<sigma> * prio k t)"

lemma room_less:
  assumes "threads_ok T k" "t \<in> T" "\<sigma> = 1 \<or> \<sigma> = - (1 :: int)" "\<sigma> * p < \<sigma> * prio k t" "\<And>u. prio k' u = (if u = t then p else prio k u)"
  shows "room T \<sigma> k' < room T \<sigma> k"
proof -
  have f: "finite T" using threads_okD(9) [OF assms(1)] .
  have pos: "0 < 64 + \<sigma> * prio k u" if "u \<in> T" for u using threads_okD(6,7) [OF assms(1) that] assms(3) by (auto simp: LowestPriority_def)
  have "(\<Sum>u\<in>T. 64 + \<sigma> * prio k' u) < (\<Sum>u\<in>T. 64 + \<sigma> * prio k u)"
    using f assms(2,4,5) by (intro sum_strict_mono_ex1) auto
  moreover have "0 < (\<Sum>u\<in>T. 64 + \<sigma> * prio k u)" using f assms(2) pos by (intro sum_pos) auto
  ultimately show ?thesis unfolding room_def by linarith
qed

definition restores :: "nat set \<Rightarrow> tkern \<Rightarrow> tkern option \<Rightarrow> bool" where
  "restores T k r \<longleftrightarrow> (\<exists>k'. r = Some k' \<and> threads_ok T k' \<and> stays_but_prio k k' \<and> settled T k')"

lemma RestorePriority_loop_ok:
  assumes "threads_ok T k" "settled_but T cur k" "\<sigma> = 1 \<or> \<sigma> = - (1 :: int)" "\<And>t. cur = Some t \<Longrightarrow> t \<in> T \<and> \<sigma> * inherited k t \<le> \<sigma> * prio k t"
  shows "restores T k (RestorePriority_loop cur k)"
  using assms
proof (induction "room T \<sigma> k" arbitrary: k cur rule: less_induct)
  case (less k cur)
  show ?case
  proof (cases cur)
    case None
    then have "RestorePriority_loop cur k = Some k" by (simp add: RestorePriority_loop.simps)
    then show ?thesis using less.prems(1,2) None by (simp add: restores_def settled_def settled_but_def)
  next
    case (Some t)
    have t: "t \<in> T" "\<sigma> * inherited k t \<le> \<sigma> * prio k t" using less.prems(4) [OF Some] by auto
    have e: "RestorePriority_loop cur k = (if inherited k t = prio k t then Some k
      else do {k' \<leftarrow> change_priority t (inherited k t) (GetLockOwner t k) k; RestorePriority_loop (GetLockOwner t k) k'})"
      unfolding Some by (subst RestorePriority_loop.simps) (simp add: inherit_inherited [OF threads_okD(1) [OF less.prems(1)]] Let_def)
    show ?thesis
    proof (cases "inherited k t = prio k t")
      case True
      then have "settled T k" using less.prems(2) Some by (auto simp: settled_def settled_but_def)
      then show ?thesis using e True less.prems(1) by (simp add: restores_def)
    next
      case False
      then have lt: "\<sigma> * inherited k t < \<sigma> * prio k t" using t(2) less.prems(3) by auto
      obtain k' where k': "change_priority t (inherited k t) (GetLockOwner t k) k = Some k'" "threads_ok T k'" "stays_but_prio k k'"
        "settled_but T (GetLockOwner t k) k'" and p: "\<And>u. prio k' u = (if u = t then inherited k t else prio k u)"
        and o: "\<And>u. GetLockOwner t k = Some u \<Longrightarrow> \<sigma> * inherited k' u \<le> \<sigma> * prio k' u"
        using restore_turn [OF less.prems(1) less.prems(2) [unfolded Some] t(1) less.prems(3) lt] by metis
      have m: "room T \<sigma> k' < room T \<sigma> k" using room_less [OF less.prems(1) t(1) less.prems(3) lt p] .
      have "restores T k' (RestorePriority_loop (GetLockOwner t k) k')"
        by (rule less.hyps [OF m k'(2,4) less.prems(3)]) (use o owner_in [OF threads_okD(1) [OF less.prems(1)]] in blast)
      then obtain k'' where "RestorePriority_loop (GetLockOwner t k) k' = Some k''" "threads_ok T k''" "stays_but_prio k' k''" "settled T k''"
        unfolding restores_def by blast
      then show ?thesis using e False k'(1) stays_but_prio_trans [OF k'(3)] by (auto simp: restores_def)
    qed
  qed
qed

lemma RestorePriority_ok:
  assumes "threads_ok T k" "settled_but T (Some t) k" "t \<in> T"
  shows "restores T k (RestorePriority t k)"
proof -
  define \<sigma> :: int where "\<sigma> = (if inherited k t \<le> prio k t then 1 else - 1)"
  have "\<sigma> = 1 \<or> \<sigma> = - 1" "\<sigma> * inherited k t \<le> \<sigma> * prio k t" by (auto simp: \<sigma>_def)
  then show ?thesis unfolding RestorePriority_def locked_same [OF threads_okD(3) [OF assms(1)]]
    using assms by (intro RestorePriority_loop_ok [where \<sigma> = \<sigma>]) auto
qed

lemma restoresE:
  assumes "restores T k r"
  obtains k' where "r = Some k'" "threads_ok T k'" "stays_but_prio k k'" "settled T k'"
  using assms unfolding restores_def by blast

section \<open>The operations keep the priorities inherited\<close>

definition pi_inv :: "nat set \<Rightarrow> tkern \<Rightarrow> bool" where
  "pi_inv T k \<longleftrightarrow> threads_ok T k \<and> settled T k"

lemma untouched_ok:
  assumes "threads_ok T k" "untouched k k'" "locks_inv T None (\<lambda>_. 0) k'"
  shows "threads_ok T k'"
  unfolding threads_ok_def
proof (intro conjI ballI)
  show "\<exists>C. runs k' C" using threads_okD(2) [OF assms(1)] untouchedD(9) [OF assms(2)] by blast
  show "0 \<le> m_base_priority (threads k' t)" "m_base_priority (threads k' t) \<le> LowestPriority" "0 \<le> prio k' t" "prio k' t \<le> LowestPriority"
    "is_dummy (threads k' t) \<or> valid_thread (threads k' t)" if "t \<in> T" for t
    using threads_okD(4-8) [OF assms(1) that] untouchedD(1,2,10,13) [OF assms(2), of t] by simp_all
qed (use assms(3) threads_okD(3) [OF assms(1)] untouchedD(6) [OF assms(2)] in auto)

text \<open>A thread is off only if its waiters change.\<close>

lemma untouched_inherited: "untouched k k' \<Longrightarrow> waiters_of k' t = waiters_of k t \<Longrightarrow> inherited k' t = inherited k t"
  by (rule inherited_cong) (auto simp: untouchedD(1,2))

lemma Min_insert_waiter:
  fixes f :: "nat \<Rightarrow> int"
  assumes "finite W"
  shows "Min (insert b (f ` insert t W)) = min (f t) (Min (insert b (f ` W)))"
  using assms by (simp add: insert_commute [of b])

lemma waiters_change:
  assumes "\<And>u. GetLockOwner u k' = (if u = t then x else GetLockOwner u k)"
  shows "waiters_of k' s = (if x = Some s then insert t (waiters_of k s) else waiters_of k s - {t})"
  using assms by (auto simp: waiters_of_def)

lemma restore_if:
  assumes "threads_ok T k" "settled_but T (Some t) k" "t \<in> T" "\<not> c \<Longrightarrow> prio k t = inherited k t"
  shows "restores T k (if c then RestorePriority t k else Some k)"
proof (cases c)
  case False
  then have "settled T k" using assms(2,4) by (auto simp: settled_def settled_but_def)
  then show ?thesis using assms(1) False by (simp add: restores_def)
qed (use RestorePriority_ok [OF assms(1-3)] in simp)

text \<open>What an operation on the locks may change: who waits for whom, the priorities and the run queues.\<close>

definition kept_fields :: "tkern \<Rightarrow> tkern \<Rightarrow> bool" where
  "kept_fields k k' \<longleftrightarrow> (\<forall>t. rest_of (threads k' t) = rest_of (threads k t) \<and> m_thread_state (threads k' t) = m_thread_state (threads k t)) \<and> asserted k' = asserted k \<and>
     m_lock_count k' = m_lock_count k"

lemma untouched_fields: "untouched k k' \<Longrightarrow> kept_fields k k'"
  using untouchedD(14) by (simp add: untouched_def kept_fields_def)

lemma stays_fields: "stays_but_prio k k' \<Longrightarrow> kept_fields k k'"
  by (simp add: stays_but_prio_def kept_fields_def)

lemma kept_fields_trans: "kept_fields k k' \<Longrightarrow> kept_fields k' k'' \<Longrightarrow> kept_fields k k''"
  by (simp add: kept_fields_def)

lemma waiter_added:
  assumes "pi_inv T k" "lock_change T t (Some this) k k1" "this \<in> T" "t \<in> T" "waiting_for k t = None"
  shows "threads_ok T k1" "settled_but T (Some this) k1" "prio k1 this \<le> prio k1 t \<Longrightarrow> prio k1 this = inherited k1 this"
proof -
  have ok: "threads_ok T k" and s: "settled T k" using assms(1) by (simp_all add: pi_inv_def)
  have i1: "locks_inv T None (\<lambda>_. 0) k1" and u: "untouched k k1" and o: "\<And>u. GetLockOwner u k1 = (if u = t then Some this else GetLockOwner u k)"
    using assms(2) by (auto simp: lock_change_def)
  have w0: "t \<notin> waiters_of k s" for s using assms(5) by (simp add: waiters_of_def GetLockOwner_def)
  have w: "waiters_of k1 s = (if s = this then insert t (waiters_of k s) else waiters_of k s)" for s using waiters_change [OF o, of s] w0 by auto
  show ok1: "threads_ok T k1" using untouched_ok [OF ok u i1] .
  have "inherited k1 s = inherited k s" if "s \<noteq> this" for s using untouched_inherited [OF u] w that by simp
  then show "settled_but T (Some this) k1" using s untouchedD(1) [OF u] by (simp add: settled_def settled_but_def)
  have f: "finite (waiters_of k this)" using finite_waiters [OF threads_okD(1) [OF ok]] .
  have "inherited k1 this = min (prio k t) (inherited k this)"
    unfolding inherited_def w untouchedD(2) [OF u] using Min_insert_waiter [OF f, of "m_base_priority (threads k this)" "prio k" t] untouchedD(1) [OF u] by simp
  moreover have "inherited k this = prio k this" using s assms(3) by (simp add: settled_def)
  ultimately show "prio k1 this = inherited k1 this" if "prio k1 this \<le> prio k1 t" using that untouchedD(1) [OF u] by simp
qed

lemma AddWaiter_pi:
  assumes "pi_inv T k" "this \<in> T" "t \<in> T" "waiting_for k t = None" "m_condvar_tree (threads k t) = None"
  obtains k' where "AddWaiter this t k = Some k'" "pi_inv T k'" "\<And>u. GetLockOwner u k' = (if u = t then Some this else GetLockOwner u k)" "kept_fields k k'"
    "\<And>a. one_lock a k \<Longrightarrow> one_lock a k'"
proof -
  have ok: "threads_ok T k" using assms(1) by (simp add: pi_inv_def)
  obtain k1 where k1: "AddWaiterImpl this t k = Some k1" "lock_change T t (Some this) k k1"
    using AddWaiterImpl_ok [OF threads_okD(1) [OF ok] assms(2-5) threads_okD(3) [OF ok]] by blast
  note a = waiter_added [OF assms(1) k1(2) assms(2-4)]
  have "restores T k1 (if prio k1 t < prio k1 this then RestorePriority this k1 else Some k1)" by (rule restore_if [OF a(1,2) assms(2)]) (use a(3) in simp)
  then obtain k' where k': "AddWaiter this t k = Some k'" "threads_ok T k'" "stays_but_prio k1 k'" "settled T k'"
    using k1(1) by (auto simp: AddWaiter_def elim: restoresE)
  have "GetLockOwner u k' = (if u = t then Some this else GetLockOwner u k)" for u using k1(2) stays_but_prioD(3) [OF k'(3)] by (simp add: lock_change_def)
  moreover have "kept_fields k k'" using k1(2) k'(3) by (meson kept_fields_trans lock_change_def stays_fields untouched_fields)
  moreover have "one_lock a k'" if "one_lock a k" for a using that k1(2) k'(3) by (simp add: lock_change_def stays_but_prio_def)
  ultimately show thesis using that k' by (simp add: pi_inv_def)
qed

text \<open>Fewer waiters: a thread is off only if it had the priority of one of them and not its own.\<close>

lemma fewer_waiters:
  assumes "finite (waiters_of k s)" "prio k s = inherited k s" "untouched k k'" "waiters_of k' s \<subseteq> waiters_of k s"
    "\<And>u. u \<in> waiters_of k s \<Longrightarrow> u \<notin> waiters_of k' s \<Longrightarrow> p \<le> prio k u" "p \<noteq> prio k s \<or> m_base_priority (threads k s) \<le> prio k s" "prio k s \<le> p"
  shows "prio k' s = inherited k' s"
proof -
  let ?b = "m_base_priority (threads k s)" and ?W = "waiters_of k s" and ?W' = "waiters_of k' s"
  have f': "finite ?W'" using finite_subset [OF assms(4,1)] .
  have e: "inherited k' s = Min (insert ?b (prio k ` ?W'))" by (simp add: inherited_def untouchedD(1,2) [OF assms(3)])
  have le: "prio k s \<le> ?b" "\<And>u. u \<in> ?W \<Longrightarrow> prio k s \<le> prio k u" unfolding assms(2) inherited_def using assms(1) by simp_all
  have "prio k s \<in> insert ?b (prio k ` ?W')"
  proof (cases "?b \<le> prio k s")
    case False
    have "prio k s \<in> insert ?b (prio k ` ?W)" unfolding assms(2) inherited_def using assms(1) by (intro Min_in) auto
    then obtain u where u: "u \<in> ?W" "prio k u = prio k s" using False by auto
    then have "u \<in> ?W'" using assms(5) [OF u(1)] assms(6,7) False by fastforce
    then show ?thesis using u(2) by (metis image_eqI insertI2)
  qed (use le(1) in simp)
  then have "Min (insert ?b (prio k ` ?W')) = prio k s" using f' le assms(4) by (intro Min_eqI) auto
  then show ?thesis using e untouchedD(1) [OF assms(3)] by simp
qed

lemma RemoveWaiter_pi:
  assumes "pi_inv T k" "GetLockOwner t k = Some this"
  obtains k' where "RemoveWaiter this t k = Some k'" "pi_inv T k'" "\<And>u. GetLockOwner u k' = (if u = t then None else GetLockOwner u k)" "kept_fields k k'"
    "\<And>a. one_lock a k \<Longrightarrow> one_lock a k'"
proof -
  have ok: "threads_ok T k" and s: "settled T k" using assms(1) by (simp_all add: pi_inv_def)
  have T: "this \<in> T" "t \<in> T" using owner_in [OF threads_okD(1) [OF ok] assms(2)] by auto
  obtain k1 where k1: "RemoveWaiterImpl this t k = Some k1" "lock_change T t None k k1"
    using RemoveWaiterImpl_ok [OF threads_okD(1) [OF ok] assms(2) threads_okD(3) [OF ok]] by blast
  have i1: "locks_inv T None (\<lambda>_. 0) k1" and u: "untouched k k1" and o: "\<And>u. GetLockOwner u k1 = (if u = t then None else GetLockOwner u k)"
    using k1(2) by (auto simp: lock_change_def)
  have w: "waiters_of k1 s = waiters_of k s - {t}" for s using waiters_change [OF o, of s] by simp
  have ok1: "threads_ok T k1" using untouched_ok [OF ok u i1] .
  have tw: "t \<in> waiters_of k s \<longleftrightarrow> s = this" for s using assms(2) by (auto simp: waiters_of_def)
  have "inherited k1 s = inherited k s" if "s \<noteq> this" for s using untouched_inherited [OF u] w tw that by auto
  then have sb: "settled_but T (Some this) k1" using s untouchedD(1) [OF u] by (simp add: settled_def settled_but_def)
  have f: "finite (waiters_of k this)" using finite_waiters [OF threads_okD(1) [OF ok]] .
  have st: "prio k this = inherited k this" using s T(1) by (simp add: settled_def)
  have le: "prio k this \<le> prio k t" unfolding st inherited_def using f tw by simp
  let ?c = "prio k1 this = prio k1 t \<and> prio k1 this < m_base_priority (threads k1 this)"
  have "restores T k1 (if ?c then RestorePriority this k1 else Some k1)"
  proof (rule restore_if [OF ok1 sb T(1)])
    assume "\<not> ?c"
    then have "prio k t \<noteq> prio k this \<or> m_base_priority (threads k this) \<le> prio k this" using untouchedD(1,2) [OF u] by auto
    then show "prio k1 this = inherited k1 this" by (intro fewer_waiters [OF f st u, where p = "prio k t"]) (use w le in auto)
  qed
  then obtain k' where k': "RemoveWaiter this t k = Some k'" "threads_ok T k'" "stays_but_prio k1 k'" "settled T k'"
    using k1(1) by (auto simp: RemoveWaiter_def elim: restoresE)
  have "GetLockOwner u k' = (if u = t then None else GetLockOwner u k)" for u using k1(2) stays_but_prioD(3) [OF k'(3)] by (simp add: lock_change_def)
  moreover have "kept_fields k k'" using k1(2) k'(3) by (meson kept_fields_trans lock_change_def stays_fields untouched_fields)
  moreover have "one_lock a k'" if "one_lock a k" for a using that k1(2) k'(3) by (simp add: lock_change_def stays_but_prio_def)
  ultimately show thesis using that k' by (simp add: pi_inv_def)
qed

subsection \<open>A lock passes to its next owner\<close>

lemma transfer_lock:
  assumes "locks_inv T None \<delta> k" "l \<in> set (held k this)" "next_owner \<in> T"
    "k' = AddHeldLock next_owner l (set_thread this (\<lambda>th. th\<lparr>m_held_lock_info_list := remove1 l (m_held_lock_info_list th)\<rparr>) k)"
    "K = kernel_waiters (locks k l)"
  shows "locks_inv T None (\<lambda>t. \<delta> t + (if t = this then K else 0) - (if t = next_owner then K else 0)) k'" (is "locks_inv T None ?\<delta> k'")
proof -
  note i = locks_invD [OF assms(1)]
  have d: "distinct (held k t)" for t using i(3) .
  have only: "t = this" if "l \<in> set (held k t)" for t using held_only [OF assms(1) that assms(2)] .
  have th: "held k' t = (if t = next_owner then [l] else []) @ (if t = this then remove1 l (held k t) else held k t)" "waiting_for k' t = waiting_for k t"
    "prio k' t = prio k t" "m_address_key (threads k' t) = m_address_key (threads k t)"
    "m_is_kernel_address_key (threads k' t) = m_is_kernel_address_key (threads k t)" "m_condvar_tree (threads k' t) = m_condvar_tree (threads k t)"
    "m_num_kernel_waiters (threads k' t) = m_num_kernel_waiters (threads k t)" for t
    by (simp_all add: assms(4) AddHeldLock_def)
  have lk: "locks k' = (locks k)(l := (locks k l)\<lparr>lock_owner := Some next_owner\<rparr>)" "free_locks k' = free_locks k" "cv_trees k' = cv_trees k"
    by (simp_all add: assms(4) AddHeldLock_def)
  have tr: "tree k' l' = tree k l'" "lock_address_key (locks k' l') = lock_address_key (locks k l')" "lock_is_kernel (locks k' l') = lock_is_kernel (locks k l')"
    "lock_waiter_count (locks k' l') = lock_waiter_count (locks k l')" for l' by (simp_all add: lk)
  have ok: "lock_ok k' l' = lock_ok k l'" for l' unfolding lock_ok_def th(2-5) tr ..
  have set: "set (held k' t) = (if t = next_owner then {l} else {}) \<union> (set (held k t) - {l})" for t
    unfolding th(1) using set_remove1_eq [OF d [of t]] only [of t] by auto
  have kc: "kernel_count k' ls = kernel_count k ls" for ls unfolding kernel_count_def tr ..
  have kct: "kernel_count k (held k' t) = kernel_count k (held k t) - (if t = this then K else 0) + (if t = next_owner then K else 0)" for t
  proof -
    have a: "kernel_count k ([l] @ ls) = K + kernel_count k ls" for ls by (simp add: kernel_count_waiters assms(5))
    have "kernel_count k (remove1 l (held k this)) = kernel_count k (held k this) - K" using kernel_count_remove [OF assms(2), of k] assms(5) by simp
    then show ?thesis unfolding th(1) using a by auto
  qed
  have U: "(\<Union>t\<in>T. set (held k' t)) = (\<Union>t\<in>T. set (held k t))"
  proof (rule set_eqI)
    have "this \<in> T" using assms(2) i(4) [of this] by (cases "held k this") auto
    then show "x \<in> (\<Union>t\<in>T. set (held k' t)) \<longleftrightarrow> x \<in> (\<Union>t\<in>T. set (held k t))" for x
      unfolding UN_iff set using assms(2,3) by (cases "x = l") (auto simp: Bex_def)
  qed
  show ?thesis
  proof (rule locks_invI)
    show "lock_owner (locks k' l') = Some t \<and> lock_ok k' l' \<and> (tree k' l' = [] \<longleftrightarrow> None = Some l')" if m: "l' \<in> set (held k' t)" for t l'
    proof (cases "l' = l")
      case True
      then have "t = next_owner" using m set by (auto split: if_splits)
      then show ?thesis using True i(7,8) [OF assms(2)] lk(1) ok tr(1) by simp
    next
      case False
      then have h: "l' \<in> set (held k t)" using m set by (auto split: if_splits)
      then show ?thesis using False i(6-8) [OF h] lk(1) ok tr(1) by simp
    qed
    show "u \<in> T \<and> m_condvar_tree (threads k' u) = None \<and> u \<in> set (tree k' l') \<and> (\<exists>t. l' \<in> set (held k' t))" if w: "waiting_for k' u = Some l'" for u l'
    proof -
      have w': "waiting_for k u = Some l'" using w th(2) by simp
      obtain t where "l' \<in> set (held k t)" using i(12) [OF w'] by blast
      then have "l' \<in> set (held k' (if l' = l then next_owner else t))" using set by auto
      then have "\<exists>t. l' \<in> set (held k' t)" by blast
      then show ?thesis using i(9-11) [OF w'] tr(1) th(6) by simp
    qed
    show "m_num_kernel_waiters (threads k' t) = kernel_count k' (held k' t) + ?\<delta> t" for t using i(5) [of t] kct [of t] th(7) [of t] kc [of "held k' t"] by simp
    show "distinct (held k' t)" for t unfolding th(1) using d [of t] only [of t] set_remove1_eq [OF d [of t]] by auto
    show "t \<in> T" if "held k' t \<noteq> []" for t using that i(4) [of t] assms(3) th(1) [of t] by (cases "held k t = []") (auto split: if_splits)
    show "l' \<notin> set (held k' t)" if "l' \<in> set (free_locks k')" for t l' using that set i(14) [of l' t] i(14) [of l' this] assms(2) lk(2) by auto
    show "card T \<le> length (free_locks k') + card (\<Union>t\<in>T. set (held k' t))" using i(15) unfolding U lk .
  qed (use i(1,2,13,16) th(6) lk(2,3) in auto)
qed

lemma Lock_RemoveWaiter_eq:
  assumes "t \<in> set (tree k l)"
  shows "Lock_RemoveWaiter l t k = Some (lock_waiter_count (locks k l) = 1, set_thread t (\<lambda>th. th\<lparr>m_waiting_lock_info := None\<rparr>)
    (set_lock l (\<lambda>i. i\<lparr>lock_tree := remove1 t (tree k l), lock_waiter_count := lock_waiter_count i - 1\<rparr>) k))"
  using assms by (simp add: Lock_RemoveWaiter_def tree_erase_def set_lock_def set_thread_def)

text \<open>The effect of \<open>RemoveWaiterByKey\<close> up to the restoring of priorities, as the code orders the steps.\<close>

definition hand_over :: "nat \<Rightarrow> nat \<Rightarrow> nat \<Rightarrow> tkern \<Rightarrow> tkern" where
  "hand_over this l next_owner k =
     (let n = int (length (tree k l)); b = lock_is_kernel (locks k l);
          k1 = set_thread this (\<lambda>th. th\<lparr>m_held_lock_info_list := remove1 l (m_held_lock_info_list th)\<rparr>) k;
          k2 = (if b then SetSchedulerUpdateNeeded (add_kernel_waiters this (- n) k1) else k1);
          k4 = set_thread next_owner (\<lambda>th. th\<lparr>m_waiting_lock_info := None\<rparr>)
            (set_lock l (\<lambda>i. i\<lparr>lock_tree := remove1 next_owner (tree k l), lock_waiter_count := lock_waiter_count i - 1\<rparr>) k2)
      in if tree k l = [next_owner] then Free_lock l k4
         else let k5 = AddHeldLock next_owner l k4 in if b then add_kernel_waiters next_owner (n - 1) k5 else k5)"

lemma hand_over_inv:
  assumes "locks_inv T None (\<lambda>_. 0) k" "l \<in> set (held k this)" "tree k l = next_owner # ts"
  shows "locks_inv T None (\<lambda>_. 0) (hand_over this l next_owner k)"
proof -
  note i = locks_invD [OF assms(1)]
  let ?b = "lock_is_kernel (locks k l)" and ?n = "int (length (tree k l))"
  define kA where "kA = set_thread next_owner (\<lambda>th. th\<lparr>m_waiting_lock_info := None\<rparr>)
      (set_lock l (\<lambda>i. i\<lparr>lock_tree := remove1 next_owner (tree k l), lock_waiter_count := lock_waiter_count i - 1\<rparr>) k)"
  have w: "waiting_for k next_owner = Some l" using i(7) [OF assms(2)] assms(3) by (simp add: lock_ok_def)
  have nT: "next_owner \<in> T" using i(9) [OF w] .
  have iA: "locks_inv T (if tree k l = [next_owner] then Some l else None) ((\<lambda>_. 0)(this := if ?b then 1 else 0)) kA"
    using RemoveWaiter_inv(2) [OF assms(1) w assms(2) kA_def] by simp
  have hA: "l \<in> set (held kA this)" using assms(2) by (auto simp: kA_def)
  let ?drop = "set_thread this (\<lambda>th. th\<lparr>m_held_lock_info_list := remove1 l (m_held_lock_info_list th)\<rparr>)"
  show ?thesis
  proof (cases "tree k l = [next_owner]")
    case True
    have "locks_inv T (Some l) ((\<lambda>_. 0)(this := if ?b then 1 else 0)) kA" using iA True by simp
    then have "locks_inv T None ((\<lambda>_. 0)(this := if ?b then 1 else 0)) (Free_lock l (?drop kA))" using hA by (rule drop_lock) blast
    from kernel_waiters_inv [OF this, of this "if ?b then - 1 else 0"]
    have "locks_inv T None (\<lambda>_. 0) (add_kernel_waiters this (if ?b then - 1 else 0) (Free_lock l (?drop kA)))"
      by (rule back_subst [where P = "\<lambda>d. locks_inv T None d (add_kernel_waiters this (if ?b then - 1 else 0) (Free_lock l (?drop kA)))"]) auto
    moreover have "lock_view (hand_over this l next_owner k) = lock_view (add_kernel_waiters this (if ?b then - 1 else 0) (Free_lock l (?drop kA)))"
      using True by (auto simp: hand_over_def lock_view_def kA_def add_kernel_waiters_def fun_eq_iff Let_def)
    ultimately show ?thesis using lock_view_inv by blast
  next
    case False
    define kC where "kC = AddHeldLock next_owner l (?drop kA)"
    let ?K = "if ?b then ?n - 1 else 0"
    have K: "kernel_waiters (locks kA l) = ?K" using assms(3) by (simp add: kA_def kernel_waiters_def)
    have "locks_inv T None ((\<lambda>_. 0)(this := if ?b then 1 else 0)) kA" using iA unfolding if_not_P [OF False] .
    note inv = transfer_lock [OF this hA nT kC_def K [symmetric]]
    from kernel_waiters_inv [OF kernel_waiters_inv [OF inv, of this "if ?b then - ?n else 0"], of next_owner ?K]
    have "locks_inv T None (\<lambda>_. 0) (add_kernel_waiters next_owner ?K (add_kernel_waiters this (if ?b then - ?n else 0) kC))"
      by (rule back_subst [where P = "\<lambda>d. locks_inv T None d (add_kernel_waiters next_owner ?K (add_kernel_waiters this (if ?b then - ?n else 0) kC))"]) auto
    moreover have "lock_view (hand_over this l next_owner k) = lock_view (add_kernel_waiters next_owner ?K (add_kernel_waiters this (if ?b then - ?n else 0) kC))"
      using False by (auto simp: hand_over_def lock_view_def kC_def kA_def add_kernel_waiters_def AddHeldLock_def fun_eq_iff Let_def)
    ultimately show ?thesis using lock_view_inv by blast
  qed
qed

lemma hand_over_untouched:
  assumes "IsSchedulerLockedByCurrentThread k"
  shows "untouched k (hand_over this l next_owner k)"
proof -
  let ?n = "int (length (tree k l))"
  define k1 where "k1 = set_thread this (\<lambda>th. th\<lparr>m_held_lock_info_list := remove1 l (m_held_lock_info_list th)\<rparr>) k"
  define k2 where "k2 = (if lock_is_kernel (locks k l) then SetSchedulerUpdateNeeded (add_kernel_waiters this (- ?n) k1) else k1)"
  define k4 where "k4 = set_thread next_owner (\<lambda>th. th\<lparr>m_waiting_lock_info := None\<rparr>)
    (set_lock l (\<lambda>i. i\<lparr>lock_tree := remove1 next_owner (tree k l), lock_waiter_count := lock_waiter_count i - 1\<rparr>) k2)"
  have u1: "untouched k k1" unfolding k1_def by (rule untouched_simps(8))
  have u2: "untouched k1 k2" using untouched_trans [OF untouched_simps(1) untouched_simps(2)] by (simp add: k2_def)
  have u3: "untouched k2 k4" unfolding k4_def by (rule untouched_trans [OF untouched_simps(3) untouched_simps(7)])
  have u4: "untouched k k4" using untouched_trans [OF u1 untouched_trans [OF u2 u3]] .
  have l4: "IsSchedulerLockedByCurrentThread k4" using untouchedD(6) [OF u4] assms by simp
  have u5: "untouched k (AddHeldLock next_owner l k4)" using untouched_trans [OF u4 untouched_held [OF l4]] .
  have e: "hand_over this l next_owner k = (if tree k l = [next_owner] then Free_lock l k4
    else if lock_is_kernel (locks k l) then add_kernel_waiters next_owner (?n - 1) (AddHeldLock next_owner l k4) else AddHeldLock next_owner l k4)"
    unfolding hand_over_def Let_def k4_def k2_def k1_def ..
  show ?thesis unfolding e using untouched_trans [OF u4 untouched_simps(4)] u5 untouched_trans [OF u5 untouched_simps(1)] by simp
qed

lemma hand_over_owners:
  assumes "locks_inv T None (\<lambda>_. 0) k" "l \<in> set (held k this)" "tree k l = next_owner # ts"
  shows "GetLockOwner u (hand_over this l next_owner k) =
    (if u = next_owner then None else if waiting_for k u = Some l then Some next_owner else GetLockOwner u k)"
proof -
  have w: "waiting_for k u = Some l \<Longrightarrow> u \<in> set (tree k l)" using locks_invD(11) [OF assms(1)] .
  have th: "waiting_for (hand_over this l next_owner k) u = (if u = next_owner then None else waiting_for k u)"
    by (auto simp: hand_over_def Let_def AddHeldLock_def add_kernel_waiters_def)
  have lk: "lock_owner (locks (hand_over this l next_owner k) l') = (if l' = l \<and> tree k l \<noteq> [next_owner] then Some next_owner else lock_owner (locks k l'))" for l'
    by (auto simp: hand_over_def Let_def AddHeldLock_def add_kernel_waiters_def)
  show ?thesis unfolding GetLockOwner_def th lk using w assms(3) by (auto split: option.splits)
qed

lemma RemoveWaiterByKey_eq:
  assumes "locks_inv T None (\<lambda>_. 0) k" "FindHeldLock this key b k = Some l" "tree k l = next_owner # ts" "IsSchedulerLockedByCurrentThread k"
    "l \<in> set (held k this)" "k5 = hand_over this l next_owner k"
  shows "RemoveWaiterByKey this key b k = do {
    k6 \<leftarrow> (if prio k5 this = prio k5 next_owner \<and> prio k5 this < m_base_priority (threads k5 this) then RestorePriority this k5 else Some k5);
    Some ((Some next_owner, ts \<noteq> []), k6)}"
proof -
  note i = locks_invD [OF assms(1)]
  let ?n = "int (length (tree k l))" and ?b = "lock_is_kernel (locks k l)"
  define k1 where "k1 = set_thread this (\<lambda>th. th\<lparr>m_held_lock_info_list := remove1 l (m_held_lock_info_list th)\<rparr>) k"
  define k2 where "k2 = (if ?b then SetSchedulerUpdateNeeded (add_kernel_waiters this (- ?n) k1) else k1)"
  define k4 where "k4 = set_thread next_owner (\<lambda>th. th\<lparr>m_waiting_lock_info := None\<rparr>)
    (set_lock l (\<lambda>i. i\<lparr>lock_tree := remove1 next_owner (tree k l), lock_waiter_count := lock_waiter_count i - 1\<rparr>) k2)"
  have lk: "locks k1 = locks k" "locks k2 = locks k" by (simp_all add: k1_def k2_def add_kernel_waiters_def)
  have er: "erase_held this l k = Some k1" using assms(5) by (simp add: erase_held_def tree_erase_def k1_def set_thread_def)
  have n: "unat (lock_waiter_count (locks k l)) = length (tree k l)" using tree_length(2) [OF assms(1,5)] .
  have cnt1: "lock_waiter_count (locks k l) = 1 \<longleftrightarrow> ts = []"
  proof -
    have "lock_waiter_count (locks k l) = 1 \<longleftrightarrow> unat (lock_waiter_count (locks k l)) = 1" by (simp add: word_unat_eq_iff)
    then show ?thesis using n assms(3) by simp
  qed
  have cnt4: "int (unat (lock_waiter_count (locks k l) - 1)) = ?n - 1"
  proof -
    have "lock_waiter_count (locks k l) \<noteq> 0" using n assms(3) by auto
    then show ?thesis using n assms(3) by (simp add: unat_minus_one)
  qed
  have ker: "m_num_kernel_waiters (threads k this) \<ge> ?n" if ?b
    using i(5) [of this] kernel_count_remove [OF assms(5), of k] kernel_count_nonneg [of k "remove1 l (held k this)"] that by (simp add: kernel_waiters_def)
  let ?d = "- int (unat (lock_waiter_count (locks k1 l)))"
  have a2: "(if lock_is_kernel (locks k1 l) then SetSchedulerUpdateNeeded (assert_that (m_num_kernel_waiters (threads (add_kernel_waiters this ?d k1) this) \<ge> 0)
      (add_kernel_waiters this ?d k1)) else k1) = k2"
    using ker n by (simp add: k2_def lk) (simp add: add_kernel_waiters_def k1_def)
  have rem: "Lock_RemoveWaiter l next_owner k2 = Some (ts = [], k4)" using Lock_RemoveWaiter_eq [of next_owner k2 l] assms(3) lk cnt1 by (simp add: k4_def)
  have l4: "locks k4 l = (locks k l)\<lparr>lock_tree := ts, lock_waiter_count := lock_waiter_count (locks k l) - 1\<rparr>" using assms(3) lk by (simp add: k4_def)
  let ?k' = "AddHeldLock next_owner l k4"
  have k5: "k5 = (if ts = [] then Free_lock l k4 else if ?b then add_kernel_waiters next_owner (?n - 1) ?k' else ?k')"
    unfolding assms(6) hand_over_def Let_def k4_def k2_def k1_def using assms(3) by simp
  have pos: "m_num_kernel_waiters (threads (add_kernel_waiters next_owner (?n - 1) ?k') next_owner) > 0" if ?b "ts \<noteq> []"
  proof -
    have i5: "locks_inv T None (\<lambda>_. 0) k5" unfolding assms(6) by (rule hand_over_inv [OF assms(1,5,3)])
    have "l \<in> set (held k5 next_owner)" using k5 that by (simp add: AddHeldLock_def add_kernel_waiters_def)
    moreover have "kernel_waiters (locks k5 l) > 0" using k5 that l4 by (simp add: kernel_waiters_def AddHeldLock_def add_kernel_waiters_def)
    ultimately have "m_num_kernel_waiters (threads k5 next_owner) > 0"
      using locks_invD(5) [OF i5, of next_owner] kernel_count_remove [of l "held k5 next_owner" k5] kernel_count_nonneg [of k5 "remove1 l (held k5 next_owner)"] by simp
    then show ?thesis using k5 that by simp
  qed
  have a5: "(if ts = [] then Free_lock l k4 else let k' = ?k' in if lock_is_kernel (locks k' l)
      then let k'' = add_kernel_waiters next_owner (int (unat (lock_waiter_count (locks k' l)))) k' in assert_that (m_num_kernel_waiters (threads k'' next_owner) > 0) k''
      else k') = k5"
  proof (cases "ts = []")
    case False
    have "locks ?k' l = (locks k l)\<lparr>lock_tree := ts, lock_waiter_count := lock_waiter_count (locks k l) - 1, lock_owner := Some next_owner\<rparr>"
      using l4 by (simp add: AddHeldLock_def)
    then show ?thesis using False pos k5 cnt4 by (simp add: Let_def)
  qed (simp add: k5)
  have n0: "assert_that (lock_waiter_count (locks k1 l) > 0) k2 = k2" 
  proof -
    have "lock_waiter_count (locks k l) \<noteq> 0" using n assms(3) by auto
    then show ?thesis by (simp add: word_gt_0 lk)
  qed
  have hd: "GetHighestPriorityWaiter l k2 = Some next_owner" using assms(3) lk by (simp add: GetHighestPriorityWaiter_def)
  show ?thesis unfolding RemoveWaiterByKey_def Let_def
    by (simp only: locked_same [OF assms(4)] assms(2) option.case er Option.bind.simps a2 n0 hd rem prod.case a5 [unfolded Let_def])
qed

lemma found_lock:
  assumes "FindHeldLock this key b k = Some l"
  shows "l \<in> set (held k this)" "lock_address_key (locks k l) = key" "lock_is_kernel (locks k l) = b"
  using assms unfolding FindHeldLock_def find_Some_iff by (auto simp: in_set_conv_nth)

lemma hand_over_one_lock:
  assumes "one_lock a k" "\<forall>l'\<in>set (held k next_owner). \<not> (lock_address_key (locks k l') = a \<and> lock_is_kernel (locks k l'))"
  shows "one_lock a (hand_over this l next_owner k)"
proof -
  let ?k = "hand_over this l next_owner k"
  have h: "set (held ?k t) \<subseteq> (if t = next_owner then {l} else {}) \<union> set (held k t)" for t
    by (auto simp: hand_over_def Let_def AddHeldLock_def add_kernel_waiters_def split: if_splits dest: subsetD [OF set_remove1_subset])
  have key: "lock_address_key (locks ?k l') = lock_address_key (locks k l')" "lock_is_kernel (locks ?k l') = lock_is_kernel (locks k l')" for l'
    by (simp_all add: hand_over_def Let_def AddHeldLock_def add_kernel_waiters_def)
  show ?thesis unfolding one_lock_def key
  proof (intro allI impI, elim conjE)
    fix s x y assume m: "x \<in> set (held ?k s)" "y \<in> set (held ?k s)" and k: "lock_address_key (locks k x) = a" "lock_is_kernel (locks k x)"
      "lock_address_key (locks k y) = a" "lock_is_kernel (locks k y)"
    show "x = y"
    proof (cases "s = next_owner")
      case True
      then have "x = l" "y = l" using subsetD [OF h m(1)] subsetD [OF h m(2)] assms(2) k by auto
      then show ?thesis by simp
    next
      case False
      then have "x \<in> set (held k s)" "y \<in> set (held k s)" using subsetD [OF h m(1)] subsetD [OF h m(2)] by auto
      then show ?thesis using assms(1) [unfolded one_lock_def, rule_format, of x s y] k by simp
    qed
  qed
qed

lemma RemoveWaiterByKey_pi:
  assumes "pi_inv T k" "FindHeldLock this key b k = Some l" "tree k l = next_owner # ts"
  obtains k' where "RemoveWaiterByKey this key b k = Some ((Some next_owner, ts \<noteq> []), k')" "pi_inv T k'"
    "\<And>u. GetLockOwner u k' = (if u = next_owner then None else if waiting_for k u = Some l then Some next_owner else GetLockOwner u k)" "kept_fields k k'"
    "\<And>a. one_lock a k \<Longrightarrow> \<forall>l'\<in>set (held k next_owner). \<not> (lock_address_key (locks k l') = a \<and> lock_is_kernel (locks k l')) \<Longrightarrow> one_lock a k'"
proof -
  have ok: "threads_ok T k" and s: "settled T k" using assms(1) by (simp_all add: pi_inv_def)
  note i = threads_okD(1) [OF ok] and locked = threads_okD(3) [OF ok]
  note h = found_lock(1) [OF assms(2)]
  define k5 where "k5 = hand_over this l next_owner k"
  have i5: "locks_inv T None (\<lambda>_. 0) k5" unfolding k5_def by (rule hand_over_inv [OF i h assms(3)])
  have u: "untouched k k5" unfolding k5_def by (rule hand_over_untouched [OF locked])
  have o: "GetLockOwner v k5 = (if v = next_owner then None else if waiting_for k v = Some l then Some next_owner else GetLockOwner v k)" for v
    unfolding k5_def by (rule hand_over_owners [OF i h assms(3)])
  have ok5: "threads_ok T k5" using untouched_ok [OF ok u i5] .
  have tl: "v \<in> set (tree k l) \<longleftrightarrow> waiting_for k v = Some l" for v
    using locks_invD(7) [OF i h] locks_invD(11) [OF i] by (auto simp: lock_ok_def)
  have own: "GetLockOwner v k = Some this" if "waiting_for k v = Some l" for v using locks_invD(6) [OF i h] that by (simp add: GetLockOwner_def)
  have wn: "waiting_for k next_owner = Some l" using tl assms(3) by (metis list.set_intros(1))
  have T: "this \<in> T" "next_owner \<in> T" using owner_in [OF i own [OF wn]] by auto
  have best: "prio k next_owner \<le> prio k v" if "waiting_for k v = Some l" for v
  proof -
    have "v \<in> set (tree k l)" "sorted (map (prio k) (tree k l))" using that tl locks_invD(7) [OF i h] by (simp_all add: lock_ok_def)
    then show ?thesis unfolding assms(3) by auto
  qed
  have f: "finite (waiters_of k v)" for v using finite_waiters [OF i] .
  have st: "prio k v = inherited k v" if "v \<in> T" for v using s that by (simp add: settled_def)
  have le: "prio k this \<le> prio k next_owner" unfolding st [OF T(1)] inherited_def using f own [OF wn] by (simp add: waiters_of_def)
  have rest: "waiters_of k5 v = waiters_of k v" if "v \<noteq> this" "v \<noteq> next_owner" for v using that o own wn by (auto simp: waiters_of_def split: if_splits)
  have less: "waiters_of k5 this \<subseteq> waiters_of k this" if "this \<noteq> next_owner" using that o by (auto simp: waiters_of_def split: if_splits)
  have less': "waiters_of k5 this \<subseteq> waiters_of k this" if "this = next_owner" using that o own by (auto simp: waiters_of_def split: if_splits)
  have gone: "prio k next_owner \<le> prio k v" if "v \<in> waiters_of k this" "v \<notin> waiters_of k5 this" for v
    using that o [of v] best [of v] by (auto simp: waiters_of_def split: if_splits)
  have nxt: "prio k5 next_owner = inherited k5 next_owner" if ne: "next_owner \<noteq> this"
  proof -
    have w: "waiters_of k5 next_owner = waiters_of k next_owner - {next_owner} \<union> (set (tree k l) - {next_owner})"
      using o tl by (auto simp: waiters_of_def split: if_splits)
    have nn: "next_owner \<notin> waiters_of k next_owner" using own [OF wn] ne by (auto simp: waiters_of_def)
    let ?b = "m_base_priority (threads k next_owner)" and ?W = "waiters_of k5 next_owner"
    have in_S: "prio k next_owner \<in> insert ?b (prio k ` waiters_of k next_owner)" unfolding st [OF T(2)] inherited_def using f by (intro Min_in) auto
    have lb: "prio k next_owner \<le> ?b" "\<And>v. v \<in> waiters_of k next_owner \<Longrightarrow> prio k next_owner \<le> prio k v"
      unfolding st [OF T(2)] inherited_def using f by simp_all
    have "Min (insert ?b (prio k ` ?W)) = prio k next_owner"
      by (rule Min_eqI) (use f in_S lb best tl w nn in auto)
    then show ?thesis by (simp add: inherited_def untouchedD(1,2) [OF u])
  qed
  have sb: "settled_but T (Some this) k5" unfolding settled_but_def
  proof (intro ballI impI)
    fix v assume v: "v \<in> T" "Some v \<noteq> Some this"
    show "prio k5 v = inherited k5 v"
    proof (cases "v = next_owner")
      case True
      then show ?thesis using nxt v(2) by simp
    next
      case False
      then show ?thesis using st [OF v(1)] untouched_inherited [OF u rest] untouchedD(1) [OF u] v(2) by simp
    qed
  qed
  let ?c = "prio k5 this = prio k5 next_owner \<and> prio k5 this < m_base_priority (threads k5 this)"
  have "restores T k5 (if ?c then RestorePriority this k5 else Some k5)"
  proof (rule restore_if [OF ok5 sb T(1)])
    assume "\<not> ?c"
    then have "prio k next_owner \<noteq> prio k this \<or> m_base_priority (threads k this) \<le> prio k this" using untouchedD(1,2) [OF u] by auto
    then show "prio k5 this = inherited k5 this"
      by (intro fewer_waiters [OF f st [OF T(1)] u, where p = "prio k next_owner"]) (use gone le less less' in auto)
  qed
  then obtain k' where k': "(if ?c then RestorePriority this k5 else Some k5) = Some k'" "threads_ok T k'" "stays_but_prio k5 k'" "settled T k'"
    by (rule restoresE)
  have "RemoveWaiterByKey this key b k = Some ((Some next_owner, ts \<noteq> []), k')"
    unfolding RemoveWaiterByKey_eq [OF i assms(2,3) locked h k5_def] k'(1) by simp
  moreover have "GetLockOwner v k' = GetLockOwner v k5" for v using stays_but_prioD(3) [OF k'(3)] .
  moreover have "kept_fields k k'" using u k'(3) by (meson kept_fields_trans stays_fields untouched_fields)
  moreover have "one_lock a k'" if "one_lock a k" "\<forall>l'\<in>set (held k next_owner). \<not> (lock_address_key (locks k l') = a \<and> lock_is_kernel (locks k l'))" for a
    using hand_over_one_lock [OF that, of this l] k'(3) by (simp add: k5_def stays_but_prio_def)
  ultimately show thesis using that k' o by (simp add: pi_inv_def)
qed

lemma RemoveWaiterByKey_none: "FindHeldLock this key b k = None \<Longrightarrow> IsSchedulerLockedByCurrentThread k \<Longrightarrow> RemoveWaiterByKey this key b k = Some ((None, False), k)"
  by (simp add: RemoveWaiterByKey_def)

lemma SetBasePriority_pi:
  assumes "pi_inv T k" "this \<in> T" "HighestPriority \<le> v" "v \<le> LowestPriority"
  obtains k' where "SetBasePriority this v k = Some k'" "pi_inv T k'" "\<And>u. GetLockOwner u k' = GetLockOwner u k"
    "kept_fields (set_thread this (\<lambda>th. th\<lparr>m_base_priority := v\<rparr>) k) k'"
proof -
  have ok: "threads_ok T k" and s: "settled T k" using assms(1) by (simp_all add: pi_inv_def)
  note d = threads_okD [OF ok]
  define k1 where "k1 = set_thread this (\<lambda>th. th\<lparr>m_base_priority := v\<rparr>) k"
  have th: "prio k1 t = prio k t" "m_base_priority (threads k1 t) = (if t = this then v else m_base_priority (threads k t))"
    "is_dummy (threads k1 t) = is_dummy (threads k t)" "valid_thread (threads k1 t) = valid_thread (threads k t)" for t
    by (simp_all add: k1_def valid_thread_def)
  have o: "GetLockOwner u k1 = GetLockOwner u k" for u by (rule owner_cong) (simp_all add: k1_def)
  have lv: "lock_view k1 = lock_view k" by (auto simp: lock_view_def k1_def fun_eq_iff)
  have "queue_view k1 = queue_view k" by (auto simp: queue_view_def k1_def fun_eq_iff)
  then have "\<exists>C. runs k1 C" using runs_view d(2) by blast
  then have ok1: "threads_ok T k1" unfolding threads_ok_def using d(1,3-8) th lock_view_inv [OF lv] assms(3,4)
    by (auto simp: k1_def IsSchedulerLockedByCurrentThread_def HighestPriority_def)
  have "inherited k1 t = inherited k t" if "t \<noteq> this" for t using that th by (intro inherited_cong) (auto simp: waiters_of_def o)
  then have "settled_but T (Some this) k1" using s th(1) by (simp add: settled_def settled_but_def)
  then have "restores T k1 (RestorePriority this k1)" using RestorePriority_ok [OF ok1 _ assms(2)] by blast
  then obtain k' where k': "RestorePriority this k1 = Some k'" "threads_ok T k'" "stays_but_prio k1 k'" "settled T k'" by (rule restoresE)
  have "SetBasePriority this v k = Some k'" using k'(1) assms(3,4) by (simp add: SetBasePriority_def k1_def)
  then show thesis using that k'(2,4) stays_but_prioD(3) [OF k'(3)] o stays_fields [OF k'(3)] by (simp add: pi_inv_def k1_def)
qed

lemma IncreaseBasePriority_eq:
  assumes "IsSchedulerLockedByCurrentThread k" "HighestPriority \<le> v" "v \<le> LowestPriority" "\<not> is_pinned (threads k this)"
  shows "IncreaseBasePriority this v k = (if v < m_base_priority (threads k this) then SetBasePriority this v k else Some k)"
  using assms by (simp add: IncreaseBasePriority_def SetBasePriority_def)

subsection \<open>Address keys\<close>

lemma pi_inv_transfer:
  assumes "pi_inv T k" "locks_inv T None (\<lambda>_. 0) k'" "runs k' C'" "IsSchedulerLockedByCurrentThread k'"
    "\<And>t. prio k' t = prio k t \<and> m_base_priority (threads k' t) = m_base_priority (threads k t) \<and> GetLockOwner t k' = GetLockOwner t k \<and>
      is_dummy (threads k' t) = is_dummy (threads k t) \<and> m_core_id (threads k' t) = m_core_id (threads k t) \<and>
      m_affinity_mask (threads k' t) = m_affinity_mask (threads k t)"
  shows "pi_inv T k'"
proof -
  have ok: "threads_ok T k" and s: "settled T k" using assms(1) by (simp_all add: pi_inv_def)
  have "valid_thread (threads k' t) = valid_thread (threads k t)" for t using assms(5) [of t] by (simp add: valid_thread_def)
  then have "threads_ok T k'" unfolding threads_ok_def using assms(2-5) threads_okD(4-8) [OF ok] by auto
  moreover have "inherited k' t = inherited k t" for t using assms(5) by (intro inherited_cong) (auto simp: waiters_of_def)
  ultimately show ?thesis using s assms(5) by (simp add: pi_inv_def settled_def)
qed

lemma set_key_inv:
  assumes "locks_inv T None \<delta> k" "waiting_for k t = None" "k' = set_thread t (\<lambda>th. th\<lparr>m_address_key := a, m_address_key_value := v th, m_is_kernel_address_key := b\<rparr>) k"
  shows "locks_inv T None \<delta> k'"
proof -
  note i = locks_invD [OF assms(1)]
  have th: "held k' s = held k s" "waiting_for k' s = waiting_for k s" "m_condvar_tree (threads k' s) = m_condvar_tree (threads k s)"
    "m_num_kernel_waiters (threads k' s) = m_num_kernel_waiters (threads k s)" "prio k' s = prio k s" for s by (simp_all add: assms(3))
  have lk: "locks k' = locks k" "free_locks k' = free_locks k" "cv_trees k' = cv_trees k" by (simp_all add: assms(3))
  have pf: "prio k' = prio k" by (rule ext) (rule th(5))
  have ok: "lock_ok k' l" if h: "l \<in> set (held k s)" for l s
  proof -
    have "t \<notin> set (tree k l)" using i(7) [OF h] assms(2) by (auto simp: lock_ok_def)
    then have "m_address_key (threads k' u) = m_address_key (threads k u)" "m_is_kernel_address_key (threads k' u) = m_is_kernel_address_key (threads k u)"
      if "u \<in> set (tree k l)" for u using that assms(3) by auto
    then show ?thesis using i(7) [OF h] unfolding lock_ok_def th(2) pf lk by simp
  qed
  have kc: "kernel_count k' ls = kernel_count k ls" for ls unfolding kernel_count_def lk ..
  show ?thesis
  proof (rule locks_invI)
    show "lock_owner (locks k' l) = Some s \<and> lock_ok k' l \<and> (tree k' l = [] \<longleftrightarrow> None = Some l)" if "l \<in> set (held k' s)" for s l
      using that i(6,8) [of l s] ok [of l s] unfolding th lk by simp
    show "u \<in> T \<and> m_condvar_tree (threads k' u) = None \<and> u \<in> set (tree k' l) \<and> (\<exists>s. l \<in> set (held k' s))" if "waiting_for k' u = Some l" for u l
      using that i(9-12) [of u l] unfolding th lk by simp
    show "m_num_kernel_waiters (threads k' s) = kernel_count k' (held k' s) + \<delta> s" for s using i(5) [of s] unfolding th kc .
    show "card T \<le> length (free_locks k') + card (\<Union>t\<in>T. set (held k' t))" using i(15) unfolding th lk .
    show "l \<notin> set (held k' s)" if "l \<in> set (free_locks k')" for s l using that i(14) [of l s] unfolding th lk by blast
  qed (use i(1-4,13,16) in \<open>simp_all only: th lk\<close>)
qed

lemma set_key_pi:
  assumes "pi_inv T k" "waiting_for k t = None" "k' = set_thread t (\<lambda>th. th\<lparr>m_address_key := a, m_address_key_value := v th, m_is_kernel_address_key := b\<rparr>) k"
  shows "pi_inv T k'"
proof -
  have ok: "threads_ok T k" using assms(1) by (simp add: pi_inv_def)
  obtain C where C: "runs k C" using threads_okD(2) [OF ok] by blast
  have "queue_view k' = queue_view k" by (auto simp: queue_view_def assms(3) fun_eq_iff)
  then have r: "runs k' C" using runs_view C by blast
  have o: "GetLockOwner s k' = GetLockOwner s k" for s by (rule owner_cong) (simp_all add: assms(3))
  show ?thesis
    by (rule pi_inv_transfer [OF assms(1) set_key_inv [OF threads_okD(1) [OF ok] assms(2,3)] r])
      (use threads_okD(3) [OF ok] o in \<open>simp_all add: assms(3) IsSchedulerLockedByCurrentThread_def\<close>)
qed

lemma SetUserAddressKey_pi:
  assumes "pi_inv T k" "waiting_for k t = None"
  shows "pi_inv T (SetUserAddressKey t key v k)" "asserted (SetUserAddressKey t key v k) = asserted k"
proof -
  show "pi_inv T (SetUserAddressKey t key v k)" by (rule set_key_pi [OF assms, where a = key and v = "\<lambda>_. v" and b = False]) (simp add: SetUserAddressKey_def assms(2))
  show "asserted (SetUserAddressKey t key v k) = asserted k" by (simp add: SetUserAddressKey_def assms(2) set_thread_def)
qed

lemma SetKernelAddressKey_pi:
  assumes "pi_inv T k" "waiting_for k t = None"
  shows "pi_inv T (SetKernelAddressKey t key k)" "asserted (SetKernelAddressKey t key k) = asserted k"
proof -
  show "pi_inv T (SetKernelAddressKey t key k)"
    by (rule set_key_pi [OF assms, where a = key and v = m_address_key_value and b = True]) (simp add: SetKernelAddressKey_def assms(2) set_thread_def)
  show "asserted (SetKernelAddressKey t key k) = asserted k" by (simp add: SetKernelAddressKey_def assms(2) set_thread_def)
qed

section \<open>States\<close>

lemma OnThreadStateChanged_core: "OnThreadStateChanged t old k = Some k' \<Longrightarrow> m_core_id (threads k' u) = m_core_id (threads k u)"
  by (auto simp: OnThreadStateChanged_def Let_def with_queue_def Option.bind_eq_Some_conv IncrementScheduledCount_def set_process_def assert_that_def
      UnregisterDummyThreadForWakeup_def RegisterDummyThreadForWakeup_def SetSchedulerUpdateNeeded_def set_thread_def split: if_splits option.splits)

text \<open>The result of an operation that gives one thread a new raw state.\<close>

definition new_state :: "nat set \<Rightarrow> nat \<Rightarrow> u16 \<Rightarrow> tkern \<Rightarrow> tkern option \<Rightarrow> bool" where
  "new_state T t s k r \<longleftrightarrow> (\<exists>k'. r = Some k' \<and> pi_inv T k' \<and> asserted k' = asserted k \<and> lock_view k' = lock_view k \<and>
     (\<forall>u. m_thread_state (threads k' u) = (if u = t then s else m_thread_state (threads k u)) \<and> rest_of (threads k' u) = rest_of (threads k u) \<and>
        m_num_kernel_waiters (threads k' u) = m_num_kernel_waiters (threads k u) \<and> is_dummy (threads k' u) = is_dummy (threads k u) \<and>
        GetLockOwner u k' = GetLockOwner u k \<and> prio k' u = prio k u))"

lemma state_changed:
  assumes "pi_inv T k" "t \<in> T" "k1 = set_thread t (\<lambda>th. th\<lparr>m_thread_state := s\<rparr>) k"
  shows "new_state T t s k (OnThreadStateChanged t (m_thread_state (threads k t)) k1)"
proof -
  have ok: "threads_ok T k" using assms(1) by (simp add: pi_inv_def)
  obtain C where C: "runs k C" using threads_okD(2) [OF ok] by blast
  have "settles k1 (OnThreadStateChanged t (m_thread_state (threads k t)) k1)"
    by (rule OnThreadStateChanged_settles [OF C threads_okD(3) [OF ok] assms(3)]) (use threads_okD(8) [OF ok assms(2)] in simp)
  then obtain k' C' where k': "OnThreadStateChanged t (m_thread_state (threads k t)) k1 = Some k'" "keeps k1 k'" "runs k' C'" by (rule settles_obtain)
  have v1: "lock_view k1 = lock_view k" by (auto simp: lock_view_def assms(3) fun_eq_iff)
  then have i': "locks_inv T None (\<lambda>_. 0) k'" using lock_view_inv [OF keeps_lock_view [OF k'(2)]] lock_view_inv threads_okD(1) [OF ok] by blast
  have o1: "GetLockOwner u k1 = GetLockOwner u k" for u by (rule owner_cong) (simp_all add: assms(3))
  have th1: "prio k1 u = prio k u" "rest_of (threads k1 u) = rest_of (threads k u)" "is_dummy (threads k1 u) = is_dummy (threads k u)"
    "m_core_id (threads k1 u) = m_core_id (threads k u)" "m_affinity_mask (threads k1 u) = m_affinity_mask (threads k u)"
    "m_num_kernel_waiters (threads k1 u) = m_num_kernel_waiters (threads k u)" "m_thread_state (threads k1 u) = (if u = t then s else m_thread_state (threads k u))"
    for u by (simp_all add: assms(3) rest_of_def)
  note f = keepsD(1-4,7,15) [OF k'(2)] keeps_rest [OF k'(2)] OnThreadStateChanged_core [OF k'(1)]
  have b: "m_base_priority (threads k' u) = m_base_priority (threads k u)" for u using f(7) [of u] th1(2) [of u] by (simp add: rest_of_def)
  have l: "IsSchedulerLockedByCurrentThread k1" using threads_okD(3) [OF ok] by (simp add: assms(3) IsSchedulerLockedByCurrentThread_def)
  have "pi_inv T k'" by (rule pi_inv_transfer [OF assms(1) i' k'(3)]) (use keeps_locked [OF k'(2)] l f th1 o1 b in simp_all)
  moreover have "asserted k1 = asserted k" by (simp add: assms(3) set_thread_def)
  ultimately show ?thesis unfolding new_state_def using k'(1) f th1 o1 v1 keeps_lock_view [OF k'(2)] by simp
qed

lemma new_state_refl:
  assumes "pi_inv T k" "m_thread_state (threads k t) = s"
  shows "new_state T t s k (Some (set_thread t (\<lambda>th. th\<lparr>m_thread_state := s\<rparr>) k))"
proof -
  have "(threads k t)\<lparr>m_thread_state := s\<rparr> = threads k t" using assms(2) by (cases "threads k t") auto
  then have "set_thread t (\<lambda>th. th\<lparr>m_thread_state := s\<rparr>) k = k" by (cases k) (simp add: set_thread_def)
  then show ?thesis using assms by (auto simp: new_state_def)
qed

lemma store_state_new: "pi_inv T k \<Longrightarrow> t \<in> T \<Longrightarrow> new_state T t s k (store_state t s k)"
  using state_changed [of T k t _ s] new_state_refl [of T k t s] by (auto simp: store_state_def Let_def)

definition set_request :: "nat \<Rightarrow> u32 \<Rightarrow> tkern \<Rightarrow> tkern" where
  "set_request t f = set_thread t (\<lambda>th. th\<lparr>m_suspend_request_flags := f\<rparr>)"

lemma set_request_pi:
  assumes "pi_inv T k"
  shows "pi_inv T (set_request t f k)" "asserted (set_request t f k) = asserted k"
proof -
  let ?k = "set_request t f k"
  have ok: "threads_ok T k" using assms by (simp add: pi_inv_def)
  obtain C where C: "runs k C" using threads_okD(2) [OF ok] by blast
  have "queue_view ?k = queue_view k" by (auto simp: queue_view_def set_request_def fun_eq_iff)
  then have r: "runs ?k C" using runs_view C by blast
  have "lock_view ?k = lock_view k" by (auto simp: lock_view_def set_request_def fun_eq_iff)
  then have i: "locks_inv T None (\<lambda>_. 0) ?k" using lock_view_inv threads_okD(1) [OF ok] by blast
  have o: "GetLockOwner s ?k = GetLockOwner s k" for s by (rule owner_cong) (simp_all add: set_request_def)
  show "pi_inv T ?k" by (rule pi_inv_transfer [OF assms i r])
    (use threads_okD(3) [OF ok] o in \<open>simp_all add: set_request_def IsSchedulerLockedByCurrentThread_def\<close>)
  show "asserted ?k = asserted k" by (simp add: set_request_def set_thread_def)
qed

lemma waiters_count: "pi_inv T k \<Longrightarrow> m_num_kernel_waiters (threads k t) = kernel_count k (held k t) \<and> m_num_kernel_waiters (threads k t) \<ge> 0"
  using locks_invD(5) [of T None "\<lambda>_. 0" k t] kernel_count_nonneg [of k "held k t"] by (simp add: pi_inv_def threads_ok_def)

lemma pi_locked: "pi_inv T k \<Longrightarrow> IsSchedulerLockedByCurrentThread k"
  by (simp add: pi_inv_def threads_ok_def)

lemma UpdateState_new:
  "pi_inv T k \<Longrightarrow> t \<in> T \<Longrightarrow>
   new_state T t (ucast (GetSuspendFlags (threads k t)) OR (m_thread_state (threads k t) AND 15)) k (UpdateState t k)"
  by (simp add: UpdateState_def pi_locked store_state_new)

lemma SetState_new: "pi_inv T k \<Longrightarrow> t \<in> T \<Longrightarrow> new_state T t ((m_thread_state (threads k t) AND NOT 15) OR (s AND 15)) k (SetState t s k)"
  by (simp add: SetState_def store_state_new)

lemma Continue_new: "pi_inv T k \<Longrightarrow> t \<in> T \<Longrightarrow> new_state T t (m_thread_state (threads k t) AND 15) k (Continue t k)"
  using state_changed [of T k t] by (simp add: Continue_def pi_locked Let_def)

lemma RequestSuspend_eq:
  assumes "pi_inv T k" "f = m_suspend_request_flags (threads k t) OR push_bit (suspend_bit ty) 1"
  shows "RequestSuspend t ty k = (if m_num_kernel_waiters (threads k t) > 0 then Some (set_request t f k) else UpdateState t (set_request t f k))"
proof -
  have k0: "set_thread t (\<lambda>th. th\<lparr>m_suspend_request_flags := m_suspend_request_flags th OR push_bit (suspend_bit ty) 1\<rparr>) k = set_request t f k"
    by (simp add: set_request_def set_thread_def assms(2))
  have "bit f (suspend_bit ty)" by (cases ty) (simp_all add: assms(2) bit_or_iff bit_push_bit_iff)
  then have "f \<noteq> 0" by auto
  then have a: "assert_that (m_suspend_request_flags (threads (set_request t f k) t) \<noteq> 0) (set_request t f k) = set_request t f k" by (simp add: set_request_def)
  have l: "locked (set_request t f k) = set_request t f k" using pi_locked [OF set_request_pi(1) [OF assms(1)]] by simp
  have n: "m_num_kernel_waiters (threads (set_request t f k) t) = m_num_kernel_waiters (threads k t)" by (simp add: set_request_def)
  show ?thesis unfolding RequestSuspend_def k0 TrySuspend_def Let_def l a n using waiters_count [OF assms(1), of t] by auto
qed

lemma Resume_eq: "f = m_suspend_request_flags (threads k t) AND NOT (push_bit (suspend_bit ty) 1) \<Longrightarrow> Resume t ty k = UpdateState t (set_request t f k)"
  by (simp add: Resume_def set_request_def set_thread_def)

section \<open>Sequences of operations\<close>

datatype thread_op =
    Op_AddWaiter nat nat | Op_RemoveWaiter nat nat | Op_RemoveWaiterByKey nat u64 bool
  | Op_SetBasePriority nat int | Op_IncreaseBasePriority nat int
  | Op_SetUserAddressKey nat u64 u32 | Op_SetKernelAddressKey nat u64
  | Op_SetState nat u16 | Op_RequestSuspend nat suspend_type | Op_Resume nat suspend_type | Op_Continue nat | Op_ContinueIfHasKernelWaiters nat

primrec thread_step :: "thread_op \<Rightarrow> tkern \<Rightarrow> tkern option" where
  "thread_step (Op_AddWaiter this t) k = AddWaiter this t k"
| "thread_step (Op_RemoveWaiter this t) k = RemoveWaiter this t k"
| "thread_step (Op_RemoveWaiterByKey this key b) k = map_option snd (RemoveWaiterByKey this key b k)"
| "thread_step (Op_SetBasePriority t v) k = SetBasePriority t v k"
| "thread_step (Op_IncreaseBasePriority t v) k = IncreaseBasePriority t v k"
| "thread_step (Op_SetUserAddressKey t key v) k = Some (SetUserAddressKey t key v k)"
| "thread_step (Op_SetKernelAddressKey t key) k = Some (SetKernelAddressKey t key k)"
| "thread_step (Op_SetState t s) k = SetState t s k"
| "thread_step (Op_RequestSuspend t ty) k = RequestSuspend t ty k"
| "thread_step (Op_Resume t ty) k = Resume t ty k"
| "thread_step (Op_Continue t) k = Continue t k"
| "thread_step (Op_ContinueIfHasKernelWaiters t) k = ContinueIfHasKernelWaiters t k"

text \<open>What the callers see to: the threads exist, a thread waits for one lock at a time, priorities are in range.\<close>

primrec thread_pre :: "nat set \<Rightarrow> thread_op \<Rightarrow> tkern \<Rightarrow> bool" where
  "thread_pre T (Op_AddWaiter this t) k \<longleftrightarrow> this \<in> T \<and> t \<in> T \<and> waiting_for k t = None \<and> m_condvar_tree (threads k t) = None"
| "thread_pre T (Op_RemoveWaiter this t) k \<longleftrightarrow> GetLockOwner t k = Some this"
| "thread_pre T (Op_RemoveWaiterByKey this key b) k \<longleftrightarrow> True"
| "thread_pre T (Op_SetBasePriority t v) k \<longleftrightarrow> t \<in> T \<and> HighestPriority \<le> v \<and> v \<le> LowestPriority"
| "thread_pre T (Op_IncreaseBasePriority t v) k \<longleftrightarrow> t \<in> T \<and> HighestPriority \<le> v \<and> v \<le> LowestPriority \<and> \<not> is_pinned (threads k t)"
| "thread_pre T (Op_SetUserAddressKey t key v) k \<longleftrightarrow> waiting_for k t = None"
| "thread_pre T (Op_SetKernelAddressKey t key) k \<longleftrightarrow> waiting_for k t = None"
| "thread_pre T (Op_SetState t s) k \<longleftrightarrow> t \<in> T"
| "thread_pre T (Op_RequestSuspend t ty) k \<longleftrightarrow> t \<in> T"
| "thread_pre T (Op_Resume t ty) k \<longleftrightarrow> t \<in> T"
| "thread_pre T (Op_Continue t) k \<longleftrightarrow> t \<in> T"
| "thread_pre T (Op_ContinueIfHasKernelWaiters t) k \<longleftrightarrow> t \<in> T"

definition thread_inv :: "nat set \<Rightarrow> tkern \<Rightarrow> bool" where
  "thread_inv T k \<longleftrightarrow> pi_inv T k \<and> asserted k"

lemma new_state_inv: "new_state T t s k r \<Longrightarrow> asserted k \<Longrightarrow> \<exists>k'. r = Some k' \<and> thread_inv T k'"
  by (auto simp: new_state_def thread_inv_def)

lemma SetBasePriority_inv:
  assumes "thread_inv T k" "t \<in> T" "HighestPriority \<le> v" "v \<le> LowestPriority"
  shows "\<exists>k'. SetBasePriority t v k = Some k' \<and> thread_inv T k'"
proof -
  have "pi_inv T k" "asserted k" using assms(1) by (simp_all add: thread_inv_def)
  moreover have "asserted (set_thread t (\<lambda>th. th\<lparr>m_base_priority := v\<rparr>) k) = asserted k" by (simp add: set_thread_def)
  ultimately show ?thesis using SetBasePriority_pi [of T k t v] assms(2-4) unfolding thread_inv_def kept_fields_def by metis
qed

lemma RemoveWaiterByKey_inv:
  assumes "thread_inv T k"
  shows "\<exists>r k'. RemoveWaiterByKey this key b k = Some (r, k') \<and> thread_inv T k'"
proof (cases "FindHeldLock this key b k")
  case None
  then show ?thesis using RemoveWaiterByKey_none [OF None pi_locked] assms by (auto simp: thread_inv_def)
next
  case (Some l)
  have p: "pi_inv T k" and a: "asserted k" using assms by (simp_all add: thread_inv_def)
  have "tree k l \<noteq> []" using locks_invD(8) [OF _ found_lock(1) [OF Some]] p by (fastforce simp: pi_inv_def threads_ok_def)
  then obtain n ts where t: "tree k l = n # ts" by (cases "tree k l") auto
  show ?thesis using RemoveWaiterByKey_pi [OF p Some t] a unfolding thread_inv_def kept_fields_def by metis
qed

lemma thread_step_inv:
  assumes "thread_inv T k" "thread_pre T x k"
  shows "\<exists>k'. thread_step x k = Some k' \<and> thread_inv T k'"
proof -
  have p: "pi_inv T k" and a: "asserted k" using assms(1) by (simp_all add: thread_inv_def)
  show ?thesis
  proof (cases x)
    case (Op_AddWaiter this t)
    then show ?thesis using AddWaiter_pi [OF p, of this t] assms(2) a unfolding thread_inv_def kept_fields_def by simp metis
  next
    case (Op_RemoveWaiter this t)
    then show ?thesis using RemoveWaiter_pi [OF p, of t this] assms(2) a unfolding thread_inv_def kept_fields_def by simp metis
  next
    case (Op_RemoveWaiterByKey this key b)
    then show ?thesis using RemoveWaiterByKey_inv [OF assms(1), of this key b] by auto
  next
    case (Op_SetBasePriority t v)
    then show ?thesis using SetBasePriority_inv [OF assms(1)] assms(2) by simp
  next
    case (Op_IncreaseBasePriority t v)
    then show ?thesis using SetBasePriority_inv [OF assms(1), of t v] assms IncreaseBasePriority_eq [OF pi_locked [OF p], of v t] by simp
  next
    case (Op_RequestSuspend t ty)
    let ?k = "set_request t (m_suspend_request_flags (threads k t) OR push_bit (suspend_bit ty) 1) k"
    note s = set_request_pi [OF p, of t "m_suspend_request_flags (threads k t) OR push_bit (suspend_bit ty) 1"]
    have "\<exists>k'. UpdateState t ?k = Some k' \<and> thread_inv T k'" by (rule new_state_inv [OF UpdateState_new [OF s(1)]]) (use s(2) a assms(2) Op_RequestSuspend in auto)
    then show ?thesis using RequestSuspend_eq [OF p refl, of t ty] s a Op_RequestSuspend by (auto simp: thread_inv_def)
  next
    case (Op_Resume t ty)
    note s = set_request_pi [OF p, of t "m_suspend_request_flags (threads k t) AND NOT (push_bit (suspend_bit ty) 1)"]
    show ?thesis unfolding Op_Resume thread_step.simps Resume_eq [OF refl]
      by (rule new_state_inv [OF UpdateState_new [OF s(1)]]) (use s(2) a assms(2) Op_Resume in auto)
  qed (use assms new_state_inv [OF SetState_new [OF p] a] new_state_inv [OF Continue_new [OF p] a] SetUserAddressKey_pi [OF p] SetKernelAddressKey_pi [OF p] a
    in \<open>auto simp: thread_inv_def ContinueIfHasKernelWaiters_def\<close>)
qed

interpretation thread_component: invariant_component "thread_inv T" "thread_pre T" thread_step
  by unfold_locales (use thread_step_inv in \<open>fastforce+\<close>)

section \<open>Properties\<close>

text \<open>Who waits for whom, and the priority that this gives a thread in the absence of deadlock.\<close>

definition waits :: "tkern \<Rightarrow> (nat \<times> nat) set" where
  "waits k = {(u, t). GetLockOwner u k = Some t}"

definition waiting_base_priorities :: "tkern \<Rightarrow> nat \<Rightarrow> int set" where
  "waiting_base_priorities k t = (\<lambda>u. m_base_priority (threads k u)) ` {u. (u, t) \<in> (waits k)\<^sup>*}"

lemma waits_closed:
  assumes "locks_inv T X \<delta> k" "(u, t) \<in> (waits k)\<^sup>*" "t \<in> T"
  shows "u \<in> T"
  using assms(2,3) by (induction rule: converse_rtrancl_induct) (use owner_in [OF assms(1)] in \<open>auto simp: waits_def\<close>)

lemma waits_wf:
  assumes "locks_inv T X \<delta> k" "acyclic (waits k)"
  shows "wf (waits k)"
proof (rule finite_acyclic_wf [OF _ assms(2)])
  have "waits k \<subseteq> T \<times> T" using owner_in [OF assms(1)] by (auto simp: waits_def)
  then show "finite (waits k)" using locks_invD(1) [OF assms(1)] by (meson finite_SigmaI finite_subset)
qed

lemma inherited_transitively:
  assumes "pi_inv T k" "acyclic (waits k)" "t \<in> T"
  shows "prio k t = Min (waiting_base_priorities k t)"
proof -
  have ok: "threads_ok T k" and s: "settled T k" using assms(1) by (simp_all add: pi_inv_def)
  note i = threads_okD(1) [OF ok]
  let ?b = "\<lambda>u. m_base_priority (threads k u)"
  have fin: "finite (waiting_base_priorities k t)" if "t \<in> T" for t
    using finite_subset [OF _ locks_invD(1) [OF i], of "{u. (u, t) \<in> (waits k)\<^sup>*}"] waits_closed [OF i _ that]
    unfolding waiting_base_priorities_def by (meson finite_imageI mem_Collect_eq subsetI)
  show ?thesis using waits_wf [OF i assms(2)] assms(3)
  proof (induction t rule: wf_induct_rule)
    case (less t)
    let ?W = "waiters_of k t"
    have e: "prio k t = Min (insert (?b t) (prio k ` ?W))" using s less.prems by (simp add: settled_def inherited_def)
    have f: "finite ?W" using finite_waiters [OF i] .
    have IH: "prio k u = Min (waiting_base_priorities k u)" "u \<in> T" "(u, t) \<in> waits k" if "u \<in> ?W" for u
      using less.IH [of u] that owner_in [OF i, of u t] by (auto simp: waiters_of_def waits_def)
    have up: "waiting_base_priorities k u \<subseteq> waiting_base_priorities k t" if "u \<in> ?W" for u
      using IH(3) [OF that] unfolding waiting_base_priorities_def by (auto intro: rtrancl.rtrancl_into_rtrancl)
    have ne: "waiting_base_priorities k u \<noteq> {}" for u unfolding waiting_base_priorities_def by auto
    show ?case
    proof (rule Min_eqI [symmetric])
      show "finite (waiting_base_priorities k t)" using fin [OF less.prems] .
      have "prio k t \<in> insert (?b t) (prio k ` ?W)" unfolding e using f by (intro Min_in) auto
      moreover have "?b t \<in> waiting_base_priorities k t" unfolding waiting_base_priorities_def by auto
      moreover have "prio k u \<in> waiting_base_priorities k t" if "u \<in> ?W" for u
        using Min_in [OF fin [OF IH(2) [OF that]] ne] IH(1) [OF that] up [OF that] by auto
      ultimately show "prio k t \<in> waiting_base_priorities k t" by auto
    next
      fix p assume "p \<in> waiting_base_priorities k t"
      then obtain u where u: "(u, t) \<in> (waits k)\<^sup>*" "p = ?b u" unfolding waiting_base_priorities_def by blast
      show "prio k t \<le> p"
      proof (cases "u = t")
        case True
        then show ?thesis unfolding e using u(2) f by simp
      next
        case False
        then obtain v where v: "(u, v) \<in> (waits k)\<^sup>*" "(v, t) \<in> waits k" using u(1) by (metis rtranclE)
        then have w: "v \<in> ?W" by (simp add: waits_def waiters_of_def)
        have "prio k v \<le> p" unfolding IH(1) [OF w] using fin [OF IH(2) [OF w]] v(1) u(2) by (intro Min_le) (auto simp: waiting_base_priorities_def)
        moreover have "prio k t \<le> prio k v" unfolding e using f w by simp
        ultimately show ?thesis by simp
      qed
    qed
  qed
qed

lemma no_lock_found:
  assumes "locks_inv T None \<delta> k" "FindHeldLock this key b k = None" "GetLockOwner u k = Some this"
  shows "\<not> (m_address_key (threads k u) = key \<and> m_is_kernel_address_key (threads k u) = b)"
proof -
  obtain l where w: "waiting_for k u = Some l" using assms(3) by (cases "waiting_for k u") (auto simp: GetLockOwner_def)
  have h: "l \<in> set (held k this)" using waiting_held [OF assms(1) w assms(3)] .
  show ?thesis using assms(2) h locks_invD(7) [OF assms(1) h] locks_invD(11) [OF assms(1) w] by (auto simp: FindHeldLock_def find_None_iff lock_ok_def)
qed

lemma suspend_flags_high:
  fixes f allowed :: u32 and s :: u16
  assumes "allowed AND NOT 0x3F0 = 0"
  shows "(ucast (allowed AND f) OR (s AND 15)) AND 15 = s AND 15"
proof -
  have low: "\<not> bit allowed m" if "m < 4" for m
  proof
    assume "bit allowed m"
    moreover have "m = 0 \<or> m = 1 \<or> m = 2 \<or> m = 3" using that by auto
    then have "\<not> bit (0x3F0 :: u32) m" by auto
    moreover have "possible_bit TYPE(u32) m" using that by simp
    ultimately have "bit (allowed AND NOT 0x3F0) m" unfolding bit_and_iff bit_not_iff by blast
    then show False using assms by simp
  qed
  have b15: "bit (15 :: u16) m \<longleftrightarrow> m < 4" for m
  proof -
    have e: "(15 :: u16) = mask 4" by (simp add: mask_eq_exp_minus_1)
    show ?thesis unfolding e bit_mask_iff by auto
  qed
  show ?thesis by (rule bit_eqI, unfold bit_and_iff bit_or_iff bit_ucast_iff b15) (use low in auto)
qed

lemma suspend_words:
  fixes f allowed :: u32 and s :: u16
  assumes "allowed AND NOT 0x3F0 = 0" "\<not> bit f n" "bit allowed n" "4 \<le> n" "n < 10" "s = ucast (allowed AND f) OR (s AND 15)"
  shows "(f OR push_bit n 1) AND NOT (push_bit n 1) = f" "ucast (allowed AND (f OR push_bit n 1)) OR (s AND 15) \<noteq> Runnable"
    "ucast (allowed AND f) OR ((ucast (allowed AND (f OR push_bit n 1)) OR (s AND 15)) AND 15) = s"
proof -
  show "(f OR push_bit n 1) AND NOT (push_bit n 1) = f"
    by (rule bit_eqI) (use assms(2) in \<open>auto simp: bit_and_iff bit_or_iff bit_not_iff bit_exp_iff\<close>)
  have "bit (ucast (allowed AND (f OR push_bit n 1)) OR (s AND 15)) n" using assms(3-5) by (simp add: bit_and_iff bit_or_iff bit_ucast_iff bit_exp_iff)
  moreover have "\<not> bit Runnable n" using assms(4) bit_exp_iff [of 1 n, where ?'a = u16] by (simp add: Runnable_def)
  ultimately show "ucast (allowed AND (f OR push_bit n 1)) OR (s AND 15) \<noteq> Runnable" by metis
  have "(ucast (allowed AND (f OR push_bit n 1)) OR (s AND 15)) AND 15 = s AND 15" using suspend_flags_high [OF assms(1)] .
  then show "ucast (allowed AND f) OR ((ucast (allowed AND (f OR push_bit n 1)) OR (s AND 15)) AND 15) = s" using assms(6) by simp
qed

text \<open>
  C32.  Priority inheritance under any use.  However the threads of \<open>T\<close> take and give up locks, change their
  priorities and are suspended, in any admissible order: every operation is defined and breaks no assertion,
  the lists of waiters, the counts and the run queues stay in order, and every thread has the best of its own
  priority and those of the threads that wait for it.
\<close>

theorem priorities_stay_inherited:
  assumes "thread_inv T k" "thread_component.admissible T ops k"
  shows "\<exists>k'. run_ops thread_step ops k = Some k' \<and> thread_inv T k' \<and> asserted k' \<and>
    (\<forall>t\<in>T. prio k' t = Min (insert (m_base_priority (threads k' t)) (prio k' ` {u. GetLockOwner u k' = Some t})))"
  using thread_component.run_keeps_inv [OF assms] by (auto simp: thread_inv_def pi_inv_def settled_def inherited_def waiters_of_def)

text \<open>
  C33.  The meaning of inheritance.  After any admissible sequence of operations that leaves no deadlock, the
  priority of a thread is the best of the base priorities of all threads that wait for it, directly or
  through others: a thread never holds up a more urgent one at a lower priority.
\<close>

theorem priorities_cover_all_waiters:
  assumes "thread_inv T k" "thread_component.admissible T ops k" "run_ops thread_step ops k = Some k'" "acyclic (waits k')" "t \<in> T"
  shows "prio k' t = Min (waiting_base_priorities k' t)"
proof -
  have "thread_inv T k'" using thread_component.run_keeps_inv [OF assms(1,2)] assms(3) by auto
  then have "pi_inv T k'" by (simp add: thread_inv_def)
  then show ?thesis using assms(4,5) by (rule inherited_transitively)
qed

text \<open>
  C34.  \<open>RestorePriority\<close> returns for every way in which threads wait for each other, also in a deadlock, and
  afterwards every thread has its inherited priority, if at most the given thread had not.
\<close>

theorem RestorePriority_returns:
  assumes "threads_ok T k" "t \<in> T" "\<forall>u\<in>T. u \<noteq> t \<longrightarrow> prio k u = inherited k u"
  shows "\<exists>k'. RestorePriority t k = Some k' \<and> threads_ok T k' \<and> (\<forall>u\<in>T. prio k' u = inherited k' u) \<and> waits k' = waits k \<and>
    (\<forall>u. m_base_priority (threads k' u) = m_base_priority (threads k u))"
proof -
  have "settled_but T (Some t) k" using assms(3) by (auto simp: settled_but_def)
  then have "restores T k (RestorePriority t k)" using RestorePriority_ok [OF assms(1) _ assms(2)] by blast
  then obtain k' where k': "RestorePriority t k = Some k'" "threads_ok T k'" "stays_but_prio k k'" "settled T k'" by (rule restoresE)
  then show ?thesis using stays_but_prioD(1,3) [OF k'(3)] by (auto simp: settled_def waits_def)
qed

text \<open>
  C35.  Release of a lock.  \<open>RemoveWaiterByKey\<close> finds no lock exactly if nobody waits at the thread with the key.
  Otherwise it returns the waiter of the best priority, which stops waiting and becomes the one that the
  other waiters of the lock wait for; whether there are others is the second result, and nobody else's
  waiting changes.
\<close>

theorem release_hands_over:
  assumes "thread_inv T k"
  shows "\<exists>r more k'. RemoveWaiterByKey this key b k = Some ((r, more), k') \<and> thread_inv T k' \<and>
    (case FindHeldLock this key b k of
       None \<Rightarrow> r = None \<and> \<not> more \<and> k' = k \<and>
         (\<forall>u. GetLockOwner u k = Some this \<longrightarrow> \<not> (m_address_key (threads k u) = key \<and> m_is_kernel_address_key (threads k u) = b))
     | Some l \<Rightarrow> (\<exists>n. r = Some n \<and> m_waiting_lock_info (threads k n) = Some l \<and> GetLockOwner n k = Some this \<and>
         m_address_key (threads k n) = key \<and> m_is_kernel_address_key (threads k n) = b \<and>
         (\<forall>u. m_waiting_lock_info (threads k u) = Some l \<longrightarrow> m_priority (threads k n) \<le> m_priority (threads k u)) \<and>
         (more \<longleftrightarrow> (\<exists>u. u \<noteq> n \<and> m_waiting_lock_info (threads k u) = Some l)) \<and>
         (\<forall>u. GetLockOwner u k' = (if u = n then None else if m_waiting_lock_info (threads k u) = Some l then Some n else GetLockOwner u k))))"
proof (cases "FindHeldLock this key b k")
  case None
  then show ?thesis using RemoveWaiterByKey_none [OF None pi_locked] no_lock_found [OF _ None] assms
    by (auto simp: thread_inv_def pi_inv_def threads_ok_def)
next
  case (Some l)
  have p: "pi_inv T k" and a: "asserted k" using assms by (simp_all add: thread_inv_def)
  then have i: "locks_inv T None (\<lambda>_. 0) k" by (simp add: pi_inv_def threads_ok_def)
  note h = found_lock [OF Some]
  have ok: "lock_ok k l" using locks_invD(7) [OF i h(1)] .
  obtain n ts where t: "tree k l = n # ts" using locks_invD(8) [OF i h(1)] by (cases "tree k l") auto
  obtain k' where k': "RemoveWaiterByKey this key b k = Some ((Some n, ts \<noteq> []), k')" "pi_inv T k'"
    "\<And>u. GetLockOwner u k' = (if u = n then None else if waiting_for k u = Some l then Some n else GetLockOwner u k)" "kept_fields k k'"
    using RemoveWaiterByKey_pi [OF p Some t] by metis
  have w: "waiting_for k u = Some l \<longleftrightarrow> u = n \<or> u \<in> set ts" for u using ok locks_invD(11) [OF i, of u l] t by (auto simp: lock_ok_def)
  have "GetLockOwner n k = Some this" "m_address_key (threads k n) = key" "m_is_kernel_address_key (threads k n) = b"
    using w [of n] locks_invD(6) [OF i h(1)] ok t h(2,3) by (auto simp: GetLockOwner_def lock_ok_def)
  moreover have "prio k n \<le> prio k u" if "u = n \<or> u \<in> set ts" for u using that ok t by (auto simp: lock_ok_def)
  moreover have "ts \<noteq> [] \<longleftrightarrow> (\<exists>u. u \<noteq> n \<and> (u = n \<or> u \<in> set ts))" using ok t by (cases ts) (auto simp: lock_ok_def)
  moreover have "thread_inv T k'" using k'(2,4) a by (simp add: thread_inv_def kept_fields_def)
  ultimately show ?thesis unfolding Some option.case using k'(1,3) w by (intro exI [of _ "Some n"] exI [of _ "ts \<noteq> []"] exI [of _ k']) auto
qed

text \<open>
  C36.  Suspension.  A thread without kernel waiters that is asked to suspend, for a reason that it allows and is not
  suspended for yet, leaves the run queues; resuming it brings back the raw state that it had, and neither
  changes what it waits for or any priority.
\<close>

theorem suspend_then_resume:
  assumes "thread_inv T k" "t \<in> T" "th = threads k t" "m_num_kernel_waiters th = 0" "m_suspend_allowed_flags th AND NOT 0x3F0 = 0"
    and "bit (m_suspend_allowed_flags th) (suspend_bit ty)" "\<not> IsSuspendRequested ty th"
    and "m_thread_state th = ucast (GetSuspendFlags th) OR (m_thread_state th AND 15)"
  shows "\<exists>k1 k2. RequestSuspend t ty k = Some k1 \<and> thread_inv T k1 \<and> t \<notin> runnable k1 \<and> IsSuspended (threads k1 t) \<and>
    Resume t ty k1 = Some k2 \<and> thread_inv T k2 \<and> waits k2 = waits k \<and>
    (\<forall>u. m_thread_state (threads k2 u) = m_thread_state (threads k u) \<and> m_suspend_request_flags (threads k2 u) = m_suspend_request_flags (threads k u) \<and>
       m_priority (threads k2 u) = m_priority (threads k u))"
proof -
  have p: "pi_inv T k" and a: "asserted k" using assms(1) by (simp_all add: thread_inv_def)
  let ?n = "suspend_bit ty" and ?f = "m_suspend_request_flags th" and ?al = "m_suspend_allowed_flags th"
  let ?bit = "push_bit ?n 1 :: u32"
  have n: "4 \<le> ?n" "?n < 10" by (cases ty; simp)+
  have nb: "\<not> bit ?f ?n"
  proof
    assume "bit ?f ?n"
    then have "bit (?f AND ?bit) ?n" using n by (simp add: bit_and_iff bit_exp_iff)
    then show False using assms(7) by (auto simp: IsSuspendRequested_def)
  qed
  note words = suspend_words [OF assms(5) nb assms(6) n assms(8) [unfolded GetSuspendFlags_def]]
  define k0 where "k0 = set_request t (?f OR ?bit) k"
  have p0: "pi_inv T k0" "asserted k0 = asserted k" unfolding k0_def by (rule set_request_pi [OF p])+
  have o0: "GetLockOwner u k0 = GetLockOwner u k" for u by (rule owner_cong) (simp_all add: k0_def set_request_def)
  have r0: "m_thread_state (threads k0 u) = m_thread_state (threads k u)" "prio k0 u = prio k u"
    "m_suspend_request_flags (threads k0 u) = (if u = t then ?f OR ?bit else m_suspend_request_flags (threads k u))" "m_suspend_allowed_flags (threads k0 t) = ?al" for u
    using assms(3) by (simp_all add: k0_def set_request_def)
  have e1: "RequestSuspend t ty k = UpdateState t k0" using RequestSuspend_eq [OF p refl, of t ty] assms(3,4) by (simp add: k0_def)
  let ?s1 = "ucast (?al AND (?f OR ?bit)) OR (m_thread_state th AND 15)"
  have "new_state T t ?s1 k0 (UpdateState t k0)" using UpdateState_new [OF p0(1) assms(2)] r0(1-3) [of t] r0(4) assms(3) by (simp add: GetSuspendFlags_def)
  then obtain k1 where k1: "UpdateState t k0 = Some k1" "pi_inv T k1" "asserted k1 = asserted k0" and t1: "m_thread_state (threads k1 u) = (if u = t then ?s1 else m_thread_state (threads k0 u))"
    "rest_of (threads k1 u) = rest_of (threads k0 u)" "GetLockOwner u k1 = GetLockOwner u k0" "prio k1 u = prio k0 u" for u
    unfolding new_state_def by blast
  have f1: "m_suspend_request_flags (threads k1 t) = ?f OR ?bit" "m_suspend_allowed_flags (threads k1 t) = ?al"
    "m_suspend_request_flags (threads k1 u) = m_suspend_request_flags (threads k0 u)" for u
    using t1(2) [of t] t1(2) [of u] r0(3) [of t] r0(4) by (simp_all add: rest_of_def)
  have sus: "IsSuspended (threads k1 t)"
  proof -
    have "bit (?al AND (?f OR ?bit)) ?n" using assms(6) n by (simp add: bit_and_iff bit_or_iff bit_exp_iff)
    then show ?thesis using f1 by (auto simp: IsSuspended_def GetSuspendFlags_def)
  qed
  have off: "t \<notin> runnable k1" using t1(1) [of t] words(2) by (simp add: runnable_def)
  define k1' where "k1' = set_request t ?f k1"
  have p1: "pi_inv T k1'" "asserted k1' = asserted k1" unfolding k1'_def by (rule set_request_pi [OF k1(2)])+
  have o1: "GetLockOwner u k1' = GetLockOwner u k1" for u by (rule owner_cong) (simp_all add: k1'_def set_request_def)
  have r1: "m_thread_state (threads k1' u) = m_thread_state (threads k1 u)" "prio k1' u = prio k1 u"
    "m_suspend_request_flags (threads k1' u) = (if u = t then ?f else m_suspend_request_flags (threads k1 u))" "m_suspend_allowed_flags (threads k1' t) = ?al" for u
    using f1(2) by (simp_all add: k1'_def set_request_def)
  have e2: "Resume t ty k1 = UpdateState t k1'" using words(1) f1(1) by (intro Resume_eq [THEN trans]) (auto simp: k1'_def)
  have "new_state T t (m_thread_state th) k1' (UpdateState t k1')"
    using UpdateState_new [OF p1(1) assms(2)] r1(1-3) [of t] r1(4) t1(1) [of t] words(3) by (simp add: GetSuspendFlags_def)
  then obtain k2 where k2: "UpdateState t k1' = Some k2" "pi_inv T k2" "asserted k2 = asserted k1'" and
    t2: "m_thread_state (threads k2 u) = (if u = t then m_thread_state th else m_thread_state (threads k1' u))"
    "rest_of (threads k2 u) = rest_of (threads k1' u)" "GetLockOwner u k2 = GetLockOwner u k1'" "prio k2 u = prio k1' u" for u
    unfolding new_state_def by blast
  have "m_suspend_request_flags (threads k2 u) = m_suspend_request_flags (threads k u)" for u
  proof -
    have "m_suspend_request_flags (threads k2 u) = m_suspend_request_flags (threads k1' u)" using t2(2) [of u] by (simp add: rest_of_def)
    then show ?thesis using r1(3) [of u] f1(3) [of u] r0(3) [of u] assms(3) by simp
  qed
  moreover have "m_thread_state (threads k2 u) = m_thread_state (threads k u)" "prio k2 u = prio k u" for u
    using t2(1,4) [of u] r1(1,2) [of u] t1(1,4) [of u] r0(1,2) [of u] assms(3) by auto
  moreover have "waits k2 = waits k" by (simp add: waits_def t2(3) o1 t1(3) o0)
  moreover have "thread_inv T k1" "thread_inv T k2" using k1(2,3) k2(2,3) p0(2) p1(2) a by (simp_all add: thread_inv_def)
  ultimately show ?thesis using e1 e2 k1(1) k2(1) off sus by auto
qed

subsection \<open>Operations called without the lock\<close>

lemma EnableScheduling_more:
  assumes "EnableScheduling cores k = (returns, k')"
  shows "sched_thread.more (threads k' t) = sched_thread.more (threads k t)" "kernel.more k' = kernel.more k"
proof -
  have 1: "sched_thread.more (threads (EnableDispatch k) t) = sched_thread.more (threads k t)" "kernel.more (EnableDispatch k) = kernel.more k"
    "sched_thread.more (threads (DisableScheduling k) t) = sched_thread.more (threads k t)" "kernel.more (DisableScheduling k) = kernel.more k"
    "threads (RescheduleOtherCores c m k) = threads k" "kernel.more (RescheduleOtherCores c m k) = kernel.more k"
    "threads (RescheduleCores m k) = threads k" "kernel.more (RescheduleCores m k) = kernel.more k" for k :: "('c, 'd) kern" and c m
    by (simp_all add: EnableDispatch_def DisableScheduling_def RescheduleOtherCores_def RescheduleCores_def Let_def assert_that_def set_thread_def)
  have 2: "threads (snd (ScheduleImpl c k)) = threads k" "kernel.more (snd (ScheduleImpl c k)) = kernel.more k" for k :: "('c, 'd) kern" and c
    by (simp_all add: ScheduleImpl_def Let_def set_scheduler_def)
  have a: "threads (assert_that b k) = threads k" "kernel.more (assert_that b k) = kernel.more k" for k :: "('c, 'd) kern" and b
    by (simp_all add: assert_that_def)
  have 3: "sched_thread.more (threads (snd (RescheduleCurrentCore c k)) t) = sched_thread.more (threads k t)"
    "kernel.more (snd (RescheduleCurrentCore c k)) = kernel.more k" for k :: "('c, 'd) kern" and c
    by (simp_all add: RescheduleCurrentCore_def Let_def split_beta 1 2 a)
  have "sched_thread.more (threads (snd (EnableScheduling cores k)) t) = sched_thread.more (threads k t)"
    "kernel.more (snd (EnableScheduling cores k)) = kernel.more k"
    by (simp_all add: EnableScheduling_def Let_def 1 3 a)
  then show "sched_thread.more (threads k' t) = sched_thread.more (threads k t)" "kernel.more k' = kernel.more k" using assms by simp_all
qed

lemma Unlock_lock_state:
  fixes k :: tkern
  assumes "runs k C" "IsSchedulerLockedByCurrentThread k" "m_lock_count k = 1" "Unlock k = Some (returns, k')"
  shows "prio k' t = prio k t" "m_base_priority (threads k' t) = m_base_priority (threads k t)" "GetLockOwner t k' = GetLockOwner t k"
proof -
  define k1 where "k1 = k\<lparr>m_lock_count := 0\<rparr>"
  have 1: "runs k1 C" "IsSchedulerLockedByCurrentThread k1" using runs_view [OF _ assms(1), of k1] assms(2)
    by (simp_all add: k1_def IsSchedulerLockedByCurrentThread_def queue_view_def)
  obtain cores k2 where u: "UpdateHighestPriorityThreads k1 = Some (cores, k2)" "keeps k1 k2" using updates [OF 1] by blast
  have e: "EnableScheduling cores (k2\<lparr>m_owner_thread := None\<rparr>) = (returns, k')" using assms(2-4) u(1) by (simp add: Unlock_def k1_def Let_def)
  note m = EnableScheduling_more [OF e] EnableScheduling_effect(1) [OF e]
  have p: "prio k' u = prio k2 u" for u using m(3) by (simp add: queue_view_def fun_eq_iff)
  have k2: "prio k2 t = prio k t" "m_base_priority (threads k2 t) = m_base_priority (threads k t)" "waiting_for k2 t = waiting_for k t" "locks k2 = locks k"
    using keepsD(1) [OF u(2)] more_fields [OF keepsD(8) [OF u(2)], of t] kernel_more_fields [OF keepsD(16) [OF u(2)]] by (simp_all add: k1_def)
  have k': "m_base_priority (threads k' t) = m_base_priority (threads k2 t)" "waiting_for k' t = waiting_for k2 t" "locks k' = locks k2"
    using more_fields [of "threads k' t" "threads k2 t"] m(1) [of t] kernel_more_fields(1) [of k' "k2\<lparr>m_owner_thread := None\<rparr>"] m(2) by simp_all
  show "prio k' t = prio k t" using p k2(1) by simp
  show "m_base_priority (threads k' t) = m_base_priority (threads k t)" using k'(1) k2(2) by simp
  show "GetLockOwner t k' = GetLockOwner t k" by (rule owner_cong) (simp_all add: k' k2)
qed

text \<open>
  C37.  A change of base priority by a thread that does not have the scheduler lock, as the supervisor call makes
  it: the call takes the lock, changes the priority with all that it is passed on to, and releases the lock.
  Afterwards the lock is free, the run queues are in order, every thread has its inherited priority, and
  every core whose choice changed with the release has been told.
\<close>

theorem priority_change_takes_effect:
  assumes "m_owner_thread k = None" "m_lock_count k = 0" "pi_inv T (Lock k)" "t \<in> T" "HighestPriority \<le> v" "v \<le> LowestPriority"
  shows "\<exists>k1 returns k' C'. SetBasePriority t v (Lock k) = Some k1 \<and> with_scheduler_lock (SetBasePriority t v) k = Some (returns, k') \<and>
    m_owner_thread k' = None \<and> runs k' C' \<and> waits k' = waits k \<and> m_base_priority (threads k' t) = v \<and>
    (\<forall>u\<in>T. prio k' u = Min (insert (m_base_priority (threads k' u)) (prio k' ` {w. GetLockOwner w k' = Some u}))) \<and>
    (\<forall>c<NumCores. highest_priority_thread (schedulers k' c) \<noteq> highest_priority_thread (schedulers k1 c) \<longrightarrow> told c k1 returns k')"
proof -
  obtain k1 where k1: "SetBasePriority t v (Lock k) = Some k1" "pi_inv T k1" "\<And>u. GetLockOwner u k1 = GetLockOwner u (Lock k)"
    "kept_fields (set_thread t (\<lambda>th. th\<lparr>m_base_priority := v\<rparr>) (Lock k)) k1" using SetBasePriority_pi [OF assms(3-6)] by metis
  have ok: "threads_ok T k1" and s: "settled T k1" using k1(2) by (simp_all add: pi_inv_def)
  obtain C where C: "runs k1 C" using threads_okD(2) [OF ok] by blast
  have n: "m_lock_count k1 = 1" using k1(4) Lock_effect(3) [OF assms(1,2)] by (simp add: kept_fields_def set_thread_def)
  have b: "m_base_priority (threads k1 t) = v" using k1(4) by (simp add: kept_fields_def rest_of_def)
  obtain returns k' C' where u: "Unlock k1 = Some (returns, k')" "m_owner_thread k' = None" "runs k' C'"
    "\<forall>c<NumCores. highest_priority_thread (schedulers k' c) \<noteq> highest_priority_thread (schedulers k1 c) \<longrightarrow> told c k1 returns k'"
    using unlock_tells [OF C threads_okD(3) [OF ok] n] by blast
  note f = Unlock_lock_state [OF C threads_okD(3) [OF ok] n u(1)]
  have "locks (Lock k) = locks k" "waiting_for (Lock k) w = waiting_for k w" for w
    by (simp_all add: Lock_def DisableScheduling_def assert_that_def set_thread_def Let_def)
  then have "GetLockOwner w (Lock k) = GetLockOwner w k" for w by (intro owner_cong) simp_all
  then have "waits k' = waits k" using f(3) k1(3) by (simp add: waits_def)
  moreover have "prio k' w = Min (insert (m_base_priority (threads k' w)) (prio k' ` {x. GetLockOwner x k' = Some w}))" if "w \<in> T" for w
    using s that by (simp add: settled_def inherited_def waiters_of_def f)
  moreover have "with_scheduler_lock (SetBasePriority t v) k = Some (returns, k')" using k1(1) u(1) by (simp add: with_scheduler_lock_def)
  ultimately show ?thesis using k1(1) u(2-4) b f(2) by (intro exI [of _ k1] exI [of _ returns] exI [of _ k'] exI [of _ C']) simp
qed

section \<open>Concrete threads\<close>

definition example_lock_thread :: "int \<Rightarrow> lock_thread" where
  "example_lock_thread p = \<lparr>m_priority = p, m_core_id = 0, m_affinity_mask = 7, is_dummy = False, m_thread_state = Initialized, m_last_scheduled_tick = 0,
     m_schedule_count = -1, m_parent = Some 0, m_num_kernel_waiters = 0, disable_count = 0, m_dummy_thread_runnable = True,
     m_base_priority = p, m_held_lock_info_list = [], m_waiting_lock_info = None, m_address_key = 0, m_address_key_value = 0, m_is_kernel_address_key = False,
     m_condvar_tree = None, m_condvar_key = 0, m_suspend_request_flags = 0, m_suspend_allowed_flags = 0x3F0, is_pinned = False,
     m_wait_queue = None, m_wait_result = 0\<rparr>"

definition example_tkern :: tkern where
  "example_tkern = \<lparr>threads = (\<lambda>t. example_lock_thread (if t = 0 then 44 else if t = 1 then 30 else 20)),
     processes = (\<lambda>_. \<lparr>process_schedule_count = 0, m_pinned_threads = (\<lambda>_. None), m_running_threads = (\<lambda>_. None),
       m_running_thread_idle_counts = (\<lambda>_. 0), m_running_thread_switch_counts = (\<lambda>_. 0)\<rparr>),
     schedulers = (\<lambda>c. \<lparr>needs_scheduling = False, interrupt_task_runnable = False, should_count_idle = False, idle_count = 0,
       highest_priority_thread = None, prev_thread = None, m_switch_cur_thread = None,
       m_switch_highest_priority_thread = None, m_switch_from_schedule = False\<rparr>),
     m_priority_queue = empty_queue, m_scheduler_update_needed = True, m_woken_dummy_threads = [],
     m_owner_thread = Some 0, m_lock_count = 1, current_thread = 0, current_core = 0, on_core_thread = True, clock_ticks = 0, interrupted = {}, asserted = True,
     locks = (\<lambda>_. \<lparr>lock_address_key = 0, lock_is_kernel = False, lock_owner = None, lock_tree = [], lock_waiter_count = 0\<rparr>),
     free_locks = [0, 1, 2], cv_trees = (\<lambda>_. [])\<rparr>"

lemma example_fields:
  "held example_tkern t = []" "waiting_for example_tkern t = None" "m_condvar_tree (threads example_tkern t) = None" "m_num_kernel_waiters (threads example_tkern t) = 0"
  "GetLockOwner t example_tkern = None" "prio example_tkern t = (if t = 0 then 44 else if t = 1 then 30 else 20)"
  "m_base_priority (threads example_tkern t) = prio example_tkern t" "asserted example_tkern"
  by (simp_all add: example_tkern_def example_lock_thread_def GetLockOwner_def)

lemma example_locks_inv: "locks_inv {0, 1, 2} None (\<lambda>_. 0) example_tkern"
  by (rule locks_invI) (simp_all add: example_fields kernel_count_def, simp_all add: example_tkern_def)

lemma example_thread_inv: "thread_inv {0, 1, 2} example_tkern"
proof -
  have v: "valid_thread (threads example_tkern t)" for t
    using example_thread_valid(2) by (simp add: valid_thread_def example_tkern_def example_lock_thread_def example_thread_def LowestPriority_def)
  have "runnable example_tkern = {}" by (simp add: runnable_def example_tkern_def example_lock_thread_def Runnable_def Initialized_def)
  then have "runs example_tkern (\<lambda>_ _ _. [])" by (simp add: runs_def pq_inv_def represents_empty queued_empty example_tkern_def)
  then have "threads_ok {0, 1, 2} example_tkern" unfolding threads_ok_def using v example_locks_inv
    by (auto simp: example_fields LowestPriority_def) (auto simp: example_tkern_def IsSchedulerLockedByCurrentThread_def)
  moreover have "settled {0, 1, 2} example_tkern" by (simp add: settled_def inherited_def waiters_of_def example_fields)
  ultimately show ?thesis by (simp add: thread_inv_def pi_inv_def example_fields)
qed

text \<open>Thread 1 waits for thread 0.\<close>

lemma example_waits:
  obtains k where "AddWaiter 0 1 example_tkern = Some k" "thread_inv {0, 1, 2} k" "\<forall>u. GetLockOwner u k = (if u = 1 then Some 0 else None)" "kept_fields example_tkern k"
proof -
  have p: "pi_inv {0, 1, 2} example_tkern" using example_thread_inv by (simp add: thread_inv_def)
  have m: "(1 :: nat) \<in> {0, 1, 2}" "(0 :: nat) \<in> {0, 1, 2}" by simp_all
  obtain k where k: "AddWaiter 0 1 example_tkern = Some k" "pi_inv {0, 1, 2} k" "kept_fields example_tkern k"
    and o: "\<And>u. GetLockOwner u k = (if u = 1 then Some 0 else GetLockOwner u example_tkern)"
    using AddWaiter_pi [OF p m(2,1) example_fields(2,3)] by metis
  moreover have "thread_inv {0, 1, 2} k" using k(2,3) by (simp add: thread_inv_def kept_fields_def example_fields)
  ultimately show thesis using that example_fields(5) by simp
qed

lemma example_admissible: "thread_component.admissible {0, 1, 2} [Op_AddWaiter 0 1, Op_RequestSuspend 2 SuspendThread] example_tkern"
  by (simp add: example_fields)

theorem priorities_stay_inherited_witness:
  "\<exists>k'. run_ops thread_step [Op_AddWaiter 0 1, Op_RequestSuspend 2 SuspendThread] example_tkern = Some k' \<and> thread_inv {0, 1, 2} k' \<and> asserted k'"
  using priorities_stay_inherited [OF example_thread_inv example_admissible] by blast

theorem priorities_cover_all_waiters_witness:
  "\<exists>k'. run_ops thread_step [Op_AddWaiter 0 1] example_tkern = Some k' \<and> m_priority (threads k' 0) = 30"
proof -
  obtain k where k: "AddWaiter 0 1 example_tkern = Some k" "thread_inv {0, 1, 2} k" "\<forall>u. GetLockOwner u k = (if u = 1 then Some 0 else None)" "kept_fields example_tkern k"
    by (rule example_waits)
  have r: "run_ops thread_step [Op_AddWaiter 0 1] example_tkern = Some k" using k(1) by simp
  have w: "waits k = {(1, 0)}" using k(3) by (auto simp: waits_def split: if_splits)
  have star: "(u, 0) \<in> (waits k)\<^sup>* \<longleftrightarrow> u = 0 \<or> u = 1" for u unfolding w by (auto elim: rtranclE)
  have ac: "acyclic (waits k)" unfolding w by (auto simp: acyclic_def trancl_insert)
  have "m_base_priority (threads k u) = m_base_priority (threads example_tkern u)" for u using k(4) by (simp add: kept_fields_def rest_of_def)
  then have "waiting_base_priorities k 0 = {44, 30}" unfolding waiting_base_priorities_def star by (auto simp: example_fields)
  moreover have "thread_component.admissible {0, 1, 2} [Op_AddWaiter 0 1] example_tkern" by (simp add: example_fields)
  ultimately have "prio k 0 = 30" using priorities_cover_all_waiters [OF example_thread_inv _ r ac, of 0] by simp
  then show ?thesis using r by blast
qed

text \<open>Threads 0 and 1 wait for each other.\<close>

theorem RestorePriority_returns_witness:
  "\<exists>k k'. GetLockOwner 0 k = Some 1 \<and> GetLockOwner 1 k = Some 0 \<and> threads_ok {0, 1, 2} k \<and> RestorePriority 0 k = Some k' \<and> threads_ok {0, 1, 2} k'"
proof -
  obtain k where k: "AddWaiter 0 1 example_tkern = Some k" "thread_inv {0, 1, 2} k" "\<forall>u. GetLockOwner u k = (if u = 1 then Some 0 else None)" "kept_fields example_tkern k"
    by (rule example_waits)
  have p: "pi_inv {0, 1, 2} k" using k(2) by (simp add: thread_inv_def)
  have i: "locks_inv {0, 1, 2} None (\<lambda>_. 0) k" using p by (simp add: pi_inv_def threads_ok_def)
  have m: "(1 :: nat) \<in> {0, 1, 2}" "(0 :: nat) \<in> {0, 1, 2}" by simp_all
  have w: "waiting_for k 0 = None" using owner_waiting [OF i, of 0] k(3) [rule_format, of 0] by simp
  have c: "m_condvar_tree (threads k 0) = None" using k(4) by (simp add: kept_fields_def rest_of_def example_fields)
  obtain k2 where k2: "AddWaiter 1 0 k = Some k2" "pi_inv {0, 1, 2} k2" "\<And>u. GetLockOwner u k2 = (if u = 0 then Some 1 else GetLockOwner u k)"
    using AddWaiter_pi [OF p m w c] by metis
  have "threads_ok {0, 1, 2} k2" "\<forall>u\<in>{0, 1, 2}. u \<noteq> 0 \<longrightarrow> prio k2 u = inherited k2 u" using k2(2) by (auto simp: pi_inv_def settled_def)
  from RestorePriority_returns [OF this(1) _ this(2)] this(1) show ?thesis using k2(3) [of 0] k2(3) [of 1] k(3) [rule_format, of 1] by auto
qed

theorem release_hands_over_witness:
  "\<exists>k more k'. GetLockOwner 1 k = Some 0 \<and> RemoveWaiterByKey 0 0 False k = Some ((Some 1, more), k') \<and> GetLockOwner 1 k' = None"
proof -
  obtain k where k: "AddWaiter 0 1 example_tkern = Some k" "thread_inv {0, 1, 2} k" "\<forall>u. GetLockOwner u k = (if u = 1 then Some 0 else None)" "kept_fields example_tkern k"
    by (rule example_waits)
  have key: "m_address_key (threads k 1) = 0" "\<not> m_is_kernel_address_key (threads k 1)"
    using k(4) by (simp_all add: kept_fields_def rest_of_def example_tkern_def example_lock_thread_def)
  note r = release_hands_over [OF k(2), of 0 0 False]
  show ?thesis
  proof (cases "FindHeldLock 0 0 False k")
    case None
    then show ?thesis using r k(3) [rule_format, of 1] key by auto
  next
    case (Some l)
    then obtain n more k' where n: "RemoveWaiterByKey 0 0 False k = Some ((Some n, more), k')" "GetLockOwner n k = Some 0"
      "\<forall>u. GetLockOwner u k' = (if u = n then None else if waiting_for k u = Some l then Some n else GetLockOwner u k)" using r by auto
    then have "n = 1" using k(3) [rule_format, of n] by (auto split: if_splits)
    then show ?thesis using n k(3) [rule_format, of 1] by auto
  qed
qed

theorem suspend_then_resume_witness:
  "\<exists>k1 k2. RequestSuspend 2 SuspendThread example_tkern = Some k1 \<and> Resume 2 SuspendThread k1 = Some k2 \<and> m_thread_state (threads k2 2) = Initialized"
proof -
  have e: "threads example_tkern 2 = example_lock_thread 20" by (simp add: example_tkern_def)
  have "bit (0x3F0 :: u32) 5" by simp
  then have "\<exists>k1 k2. RequestSuspend 2 SuspendThread example_tkern = Some k1 \<and> thread_inv {0, 1, 2} k1 \<and> 2 \<notin> runnable k1 \<and> IsSuspended (threads k1 2) \<and>
    Resume 2 SuspendThread k1 = Some k2 \<and> thread_inv {0, 1, 2} k2 \<and> waits k2 = waits example_tkern \<and>
    (\<forall>u. m_thread_state (threads k2 u) = m_thread_state (threads example_tkern u) \<and>
       m_suspend_request_flags (threads k2 u) = m_suspend_request_flags (threads example_tkern u) \<and> m_priority (threads k2 u) = m_priority (threads example_tkern u))"
    by (intro suspend_then_resume [OF example_thread_inv _ refl]) (simp_all add: e example_lock_thread_def IsSuspendRequested_def GetSuspendFlags_def Initialized_def)
  then show ?thesis using e by (auto simp: example_lock_thread_def)
qed

theorem priority_change_takes_effect_witness:
  "\<exists>returns k'. with_scheduler_lock (SetBasePriority 1 50) (example_tkern\<lparr>m_owner_thread := None, m_lock_count := 0\<rparr>) = Some (returns, k') \<and>
     m_owner_thread k' = None \<and> m_base_priority (threads k' 1) = 50"
proof -
  let ?k = "example_tkern\<lparr>m_owner_thread := None, m_lock_count := 0\<rparr>"
  have l: "m_owner_thread ?k = None" "m_lock_count ?k = 0" by simp_all
  have p: "pi_inv {0, 1, 2} example_tkern" using example_thread_inv by (simp add: thread_inv_def)
  then obtain C where C: "runs example_tkern C" by (auto simp: pi_inv_def threads_ok_def)
  have q: "queue_view (Lock ?k) = queue_view example_tkern" using Lock_effect(1) [OF l] by (simp add: queue_view_def)
  have v: "lock_view (Lock ?k) = lock_view example_tkern"
    by (auto simp: lock_view_def Lock_def DisableScheduling_def assert_that_def set_thread_def Let_def IsSchedulerLockedByCurrentThread_def fun_eq_iff)
  have o: "GetLockOwner u (Lock ?k) = GetLockOwner u example_tkern" for u by (rule owner_cong) (simp_all add: lock_viewD(3,8) [OF v])
  have b: "m_base_priority (threads (Lock ?k) u) = m_base_priority (threads example_tkern u)" for u
    by (simp add: Lock_def DisableScheduling_def assert_that_def set_thread_def Let_def IsSchedulerLockedByCurrentThread_def)
  have "pi_inv {0, 1, 2} (Lock ?k)"
    by (rule pi_inv_transfer [OF p _ runs_view [OF q C] Lock_effect(2) [OF l]])
      (use lock_view_inv [OF v] example_locks_inv q o b in \<open>auto simp: queue_view_def fun_eq_iff\<close>)
  from priority_change_takes_effect [OF l this, of 1 50] show ?thesis by (auto simp: HighestPriority_def LowestPriority_def)
qed

end
