(* ===== verification/KLightLock.thy ===== *)
theory KLightLock
  imports KThread
begin

text \<open>
  \<^verbatim>\<open>src/core/hle/kernel/k_light_lock.cpp\<close>, with the waits of \<^verbatim>\<open>k_thread.cpp\<close> and the base class of
  \<^verbatim>\<open>k_thread_queue.cpp\<close>: the lock of kernel objects.  Its word is zero or the address of the thread that has
  the lock, with the lowest bit set if others wait.  Addresses of threads are even and not zero, so that the
  word is \<open>None\<close> or a thread with a bit here.

  The paths without contention are single atomic operations.  The slow paths run under the scheduler lock and
  are one step each; the thread that executes them is the current one.  While \<open>UnlockSlowPath\<close> runs, the bit of
  the word is set, so that the exchange of another thread leaves the word as it is and its slow path starts
  after the lock of the scheduler is released.  How the steps of several threads
  interleave, with each other and with the rest of the kernel, is the relation \<open>light_step\<close>.

  At most one thread has the lock; a thread that sleeps is never forgotten, but gets the lock from its
  predecessor, the most urgent one first.  Both fail for a thread whose wait is cancelled because it is to
  be terminated: it goes on as if it had the lock.
\<close>

section \<open>Waiting\<close>

definition ResultSuccess :: u32 where "ResultSuccess = 0"

definition ResultTerminationRequested :: u32 where "ResultTerminationRequested = 1 OR push_bit 9 59"

definition SetWaitResult :: "nat \<Rightarrow> u32 \<Rightarrow> tkern \<Rightarrow> tkern" where
  "SetWaitResult t wait_result = set_thread t (\<lambda>th. th\<lparr>m_wait_result := wait_result\<rparr>)"

definition set_wait_queue :: "nat \<Rightarrow> wait_queue option \<Rightarrow> tkern \<Rightarrow> tkern" where
  "set_wait_queue t queue = set_thread t (\<lambda>th. th\<lparr>m_wait_queue := queue\<rparr>)"

definition BeginWait :: "nat \<Rightarrow> wait_queue \<Rightarrow> tkern \<Rightarrow> tkern option" where
  "BeginWait this queue k = do {
     k1 \<leftarrow> SetState this Waiting k;
     Some (set_wait_queue this (Some queue) k1)
   }"

text \<open>The base class, for a queue without a timer.\<close>

definition KThreadQueue_EndWait :: "nat \<Rightarrow> u32 \<Rightarrow> tkern \<Rightarrow> tkern option" where
  "KThreadQueue_EndWait waiting_thread wait_result k = do {
     k1 \<leftarrow> SetState waiting_thread Runnable (SetWaitResult waiting_thread wait_result k);
     Some (set_wait_queue waiting_thread None k1)
   }"

definition KThreadQueue_CancelWait :: "nat \<Rightarrow> u32 \<Rightarrow> tkern \<Rightarrow> tkern option" where
  "KThreadQueue_CancelWait waiting_thread wait_result k = do {
     k1 \<leftarrow> SetState waiting_thread Runnable (SetWaitResult waiting_thread wait_result k);
     Some (set_wait_queue waiting_thread None k1)
   }"

definition LightLock_CancelWait :: "nat \<Rightarrow> u32 \<Rightarrow> tkern \<Rightarrow> tkern option" where
  "LightLock_CancelWait waiting_thread wait_result k = do {
     k1 \<leftarrow> (case GetLockOwner waiting_thread k of None \<Rightarrow> Some k | Some owner \<Rightarrow> RemoveWaiter owner waiting_thread k);
     KThreadQueue_CancelWait waiting_thread wait_result k1
   }"

text \<open>The calls are dispatched on the class of the queue; \<open>other\<close> are the operations of the other classes.\<close>

type_synonym queue_ops = "nat \<Rightarrow> nat \<Rightarrow> u32 \<Rightarrow> tkern \<Rightarrow> tkern option"

definition EndWait :: "queue_ops \<Rightarrow> nat \<Rightarrow> u32 \<Rightarrow> tkern \<Rightarrow> tkern option" where
  "EndWait other this wait_result k =
     (if GetState (threads k this) = Waiting
      then (case m_wait_queue (threads k this) of
              None \<Rightarrow> Some (assert_that False k)
            | Some ThreadQueueImplForKLightLock \<Rightarrow> KThreadQueue_EndWait this wait_result k
            | Some (OtherQueue q) \<Rightarrow> other q this wait_result k)
      else Some k)"

definition CancelWait :: "queue_ops \<Rightarrow> nat \<Rightarrow> u32 \<Rightarrow> tkern \<Rightarrow> tkern option" where
  "CancelWait other this wait_result k =
     (if GetState (threads k this) = Waiting
      then (case m_wait_queue (threads k this) of
              None \<Rightarrow> None
            | Some ThreadQueueImplForKLightLock \<Rightarrow> LightLock_CancelWait this wait_result k
            | Some (OtherQueue q) \<Rightarrow> other q this wait_result k)
      else Some k)"

section \<open>The lock\<close>

type_synonym lock_tag = "(nat \<times> bool) option"

text \<open>The loop of the exchange in \<open>Lock\<close>: the old word and the new one.\<close>

definition Lock_exchange :: "nat \<Rightarrow> lock_tag \<Rightarrow> lock_tag \<times> lock_tag" where
  "Lock_exchange cur_thread tag = (tag, case tag of None \<Rightarrow> Some (cur_thread, False) | Some (owner, _) \<Rightarrow> Some (owner, True))"

text \<open>The first result is \<open>false\<close> if the lock is to be tried again.\<close>

definition LockSlowPath :: "u64 \<Rightarrow> nat \<Rightarrow> nat \<Rightarrow> lock_tag \<Rightarrow> tkern \<Rightarrow> (bool \<times> tkern) option" where
  "LockSlowPath key owner cur_thread tag k =
     (if tag \<noteq> Some (owner, True) then Some (False, k)
      else do {
        k1 \<leftarrow> AddWaiter owner cur_thread (SetKernelAddressKey cur_thread key k);
        k2 \<leftarrow> BeginWait cur_thread ThreadQueueImplForKLightLock k1;
        k3 \<leftarrow> (if IsSuspended (threads k2 owner) then ContinueIfHasKernelWaiters owner k2 else Some k2);
        Some (True, k3)
      })"

text \<open>Whether the exchange in \<open>Unlock\<close> succeeds, and the new word.\<close>

definition Unlock_exchange :: "nat \<Rightarrow> lock_tag \<Rightarrow> bool \<times> lock_tag" where
  "Unlock_exchange cur_thread tag = (if tag = Some (cur_thread, False) then (True, None) else (False, tag))"

definition UnlockSlowPath :: "queue_ops \<Rightarrow> u64 \<Rightarrow> nat \<Rightarrow> tkern \<Rightarrow> (lock_tag \<times> tkern) option" where
  "UnlockSlowPath other key owner_thread k = do {
     ((next_owner, has_waiters), k1) \<leftarrow> RemoveWaiterByKey owner_thread key True k;
     (next_tag, k2) \<leftarrow> (case next_owner of
         None \<Rightarrow> Some (None, k1)
       | Some n \<Rightarrow> do {
           k' \<leftarrow> EndWait other n ResultSuccess k1;
           k'' \<leftarrow> (if IsSuspended (threads k' n) then ContinueIfHasKernelWaiters n k' else Some k');
           Some (Some (n, has_waiters), k'')
         });
     k3 \<leftarrow> (if IsSuspended (threads k2 owner_thread) then TrySuspend owner_thread k2 else Some k2);
     Some (next_tag, k3)
   }"

definition IsLocked :: "lock_tag \<Rightarrow> bool" where
  "IsLocked tag \<longleftrightarrow> tag \<noteq> None"

definition IsLockedByThread :: "nat \<Rightarrow> lock_tag \<Rightarrow> bool" where
  "IsLockedByThread cur_thread tag \<longleftrightarrow> (case tag of None \<Rightarrow> False | Some (owner, _) \<Rightarrow> owner = cur_thread)"

section \<open>Interleavings\<close>

text \<open>
  Where a thread is in \<open>Lock\<close> and \<open>Unlock\<close>: outside of both without the lock, before the slow path of
  \<open>Lock\<close> with the owner it saw, after the wait has begun, with the lock, or before the slow path of \<open>Unlock\<close>.
\<close>

datatype lock_point = Outside | Locking nat | Asleep | Inside | Unlocking

record light_lock =
  m_tag :: lock_tag
  point :: "nat \<Rightarrow> lock_point"
  the_kernel :: tkern

text \<open>The kernel as the thread sees it that has just taken the scheduler lock.\<close>

definition acting :: "nat \<Rightarrow> tkern \<Rightarrow> tkern" where
  "acting t k = k\<lparr>current_thread := t, m_owner_thread := Some t\<rparr>"

text \<open>A thread that executes code is not waiting.\<close>

definition running :: "nat \<Rightarrow> tkern \<Rightarrow> bool" where
  "running t k \<longleftrightarrow> GetState (threads k t) \<noteq> Waiting \<and> m_waiting_lock_info (threads k t) = None \<and> m_condvar_tree (threads k t) = None"

text \<open>Who waits for the lock with the key, and at whom.\<close>

definition waits_at :: "u64 \<Rightarrow> tkern \<Rightarrow> nat \<Rightarrow> nat option" where
  "waits_at key k u = (if m_address_key (threads k u) = key \<and> m_is_kernel_address_key (threads k u) then GetLockOwner u k else None)"

text \<open>
  Threads, locks and run queues in order, whoever takes the scheduler lock next; and what the rest of the
  kernel may do in between: anything that keeps this order and has nothing to do with this lock and the
  threads that sleep for it.  Cancelling the wait of such a thread, which \<open>RequestTerminate\<close> does, is excluded here
  and treated on its own at the end.
\<close>

definition kernel_ok :: "nat set \<Rightarrow> u64 \<Rightarrow> tkern \<Rightarrow> bool" where
  "kernel_ok T key k \<longleftrightarrow> thread_inv T (acting 0 k) \<and> one_lock key k \<and> (\<forall>u. m_suspend_allowed_flags (threads k u) AND NOT 0x3F0 = 0)"

definition elsewhere :: "nat set \<Rightarrow> u64 \<Rightarrow> (nat \<Rightarrow> lock_point) \<Rightarrow> tkern \<Rightarrow> tkern \<Rightarrow> bool" where
  "elsewhere T key pt k k' \<longleftrightarrow> kernel_ok T key k' \<and> waits_at key k' = waits_at key k \<and>
     (\<forall>u. pt u = Asleep \<longrightarrow> GetState (threads k' u) = GetState (threads k u) \<and> m_wait_queue (threads k' u) = m_wait_queue (threads k u))"

inductive light_step :: "nat set \<Rightarrow> u64 \<Rightarrow> queue_ops \<Rightarrow> light_lock \<Rightarrow> light_lock \<Rightarrow> bool" for T key other where
  lock: "\<lbrakk>t \<in> T; running t (the_kernel s); point s t = Outside; Lock_exchange t (m_tag s) = (old, tag)\<rbrakk> \<Longrightarrow>
    light_step T key other s (s\<lparr>m_tag := tag, point := (point s)(t := case old of None \<Rightarrow> Inside | Some (owner, _) \<Rightarrow> Locking owner)\<rparr>)"
| lock_slow: "\<lbrakk>t \<in> T; running t (the_kernel s); point s t = Locking owner;
     LockSlowPath key owner t (m_tag s) (acting t (the_kernel s)) = Some (waited, k')\<rbrakk> \<Longrightarrow>
    light_step T key other s (s\<lparr>point := (point s)(t := if waited then Asleep else Outside), the_kernel := k'\<rparr>)"
| wake: "\<lbrakk>t \<in> T; running t (the_kernel s); point s t = Asleep\<rbrakk> \<Longrightarrow>
    light_step T key other s (s\<lparr>point := (point s)(t := Inside)\<rparr>)"
| unlock: "\<lbrakk>t \<in> T; running t (the_kernel s); point s t = Inside; Unlock_exchange t (m_tag s) = (done, tag)\<rbrakk> \<Longrightarrow>
    light_step T key other s (s\<lparr>m_tag := tag, point := (point s)(t := if done then Outside else Unlocking)\<rparr>)"
| unlock_slow: "\<lbrakk>t \<in> T; running t (the_kernel s); point s t = Unlocking;
     UnlockSlowPath other key t (acting t (the_kernel s)) = Some (tag, k')\<rbrakk> \<Longrightarrow>
    light_step T key other s (s\<lparr>m_tag := tag, point := (point s)(t := Outside), the_kernel := k'\<rparr>)"
| other_code: "elsewhere T key (point s) (the_kernel s) k' \<Longrightarrow> light_step T key other s (s\<lparr>the_kernel := k'\<rparr>)"

inductive_cases light_stepE: "light_step T key other s s'"

section \<open>What the steps do\<close>

lemma acting_simps [simp]: "threads (acting t k) = threads k" "locks (acting t k) = locks k" "free_locks (acting t k) = free_locks k" "cv_trees (acting t k) = cv_trees k"
  by (simp_all add: acting_def)

lemma acting_owner [simp]: "GetLockOwner u (acting t k) = GetLockOwner u k"
  by (rule owner_cong) simp_all

lemma acting_one_lock [simp]: "one_lock a (acting t k) = one_lock a k"
  by (simp add: one_lock_def)

lemma acting_waits [simp]: "waits_at key (acting t k) = waits_at key k"
  by (rule ext) (simp add: waits_at_def)

lemma acting_inv:
  assumes "thread_inv T k"
  shows "thread_inv T (acting t k)"
proof -
  have p: "pi_inv T k" using assms by (simp add: thread_inv_def)
  then obtain C where C: "runs k C" and i: "locks_inv T None (\<lambda>_. 0) k" by (auto simp: pi_inv_def threads_ok_def)
  have "queue_view (acting t k) = queue_view k" by (simp add: queue_view_def acting_def)
  then have r: "runs (acting t k) C" using runs_view C by blast
  have "lock_view (acting t k) = lock_view k" by (simp add: lock_view_def)
  then have i': "locks_inv T None (\<lambda>_. 0) (acting t k)" using lock_view_inv i by blast
  have "pi_inv T (acting t k)"
    by (rule pi_inv_transfer [OF p i' r]) (simp_all add: IsSchedulerLockedByCurrentThread_def, simp_all add: acting_def)
  then show ?thesis using assms by (simp add: thread_inv_def acting_def)
qed

lemma acting_again: "acting t (acting u k) = acting t k"
  by (simp add: acting_def)

lemma kernel_okD: "kernel_ok T key k \<Longrightarrow> thread_inv T (acting t k)" "kernel_ok T key k \<Longrightarrow> one_lock key k"
  "kernel_ok T key k \<Longrightarrow> m_suspend_allowed_flags (threads k u) AND NOT 0x3F0 = 0"
  using acting_inv [of T "acting 0 k" t] by (simp_all add: kernel_ok_def acting_again)

lemma low_nibble:
  fixes x s :: u16 and f allowed :: u32
  shows "(x AND 15) AND 15 = x AND 15" "((x AND NOT 15) OR (s AND 15)) AND 15 = s AND 15"
    "allowed AND NOT 0x3F0 = 0 \<Longrightarrow> (ucast (allowed AND f) OR (x AND 15)) AND 15 = x AND 15"
proof -
  show "(x AND 15) AND 15 = x AND 15" by (simp add: and.assoc)
  show "((x AND NOT 15) OR (s AND 15)) AND 15 = s AND 15" by (rule bit_eqI) (auto simp only: bit_and_iff bit_or_iff bit_not_iff)
  assume a: "allowed AND NOT 0x3F0 = 0"
  show "(ucast (allowed AND f) OR (x AND 15)) AND 15 = x AND 15" using suspend_flags_high [OF a] .
qed

text \<open>What the lock sees of the kernel: who waits for it, the states of the threads and their queues.\<close>

definition states :: "tkern \<Rightarrow> nat \<Rightarrow> u16" where
  "states k u = GetState (threads k u)"

definition queues :: "tkern \<Rightarrow> nat \<Rightarrow> wait_queue option" where
  "queues k u = m_wait_queue (threads k u)"

definition allowed :: "tkern \<Rightarrow> nat \<Rightarrow> u32" where
  "allowed k u = m_suspend_allowed_flags (threads k u)"

definition condvars :: "tkern \<Rightarrow> nat \<Rightarrow> nat option" where
  "condvars k u = m_condvar_tree (threads k u)"

lemmas view_defs = states_def queues_def allowed_def condvars_def

lemma acting_views [simp]: "states (acting t k) = states k" "queues (acting t k) = queues k" "allowed (acting t k) = allowed k" "condvars (acting t k) = condvars k"
  by (rule ext, simp add: view_defs)+

text \<open>Whether a thread waits for the lock, if it waits at all.\<close>

definition keyed :: "u64 \<Rightarrow> tkern \<Rightarrow> nat \<Rightarrow> bool" where
  "keyed key k u \<longleftrightarrow> m_address_key (threads k u) = key \<and> m_is_kernel_address_key (threads k u)"

definition acts :: "nat set \<Rightarrow> u64 \<Rightarrow> tkern \<Rightarrow> (nat \<Rightarrow> nat option) \<Rightarrow> (nat \<Rightarrow> u16) \<Rightarrow> (nat \<Rightarrow> wait_queue option) \<Rightarrow> tkern \<Rightarrow> bool" where
  "acts T key k W S Q k' \<longleftrightarrow> thread_inv T k' \<and> (one_lock key k \<longrightarrow> one_lock key k') \<and> waits_at key k' = W \<and> states k' = S \<and> queues k' = Q \<and> allowed k' = allowed k \<and>
     condvars k' = condvars k \<and> (\<forall>u. keyed key k u \<longrightarrow> keyed key k' u)"

lemma actsD:
  assumes "acts T key k W S Q k'"
  shows "thread_inv T k'" "one_lock key k \<Longrightarrow> one_lock key k'" "waits_at key k' = W" "states k' = S" "queues k' = Q" "allowed k' = allowed k" "condvars k' = condvars k"
    "keyed key k u \<Longrightarrow> keyed key k' u"
  using assms by (simp_all add: acts_def)

lemma acts_trans: "acts T key k W S Q k1 \<Longrightarrow> acts T key k1 W' S' Q' k2 \<Longrightarrow> acts T key k W' S' Q' k2"
  by (simp add: acts_def)

lemma acts_refl: "thread_inv T k \<Longrightarrow> acts T key k (waits_at key k) (states k) (queues k) k"
  by (simp add: acts_def)

lemma rest_fields:
  assumes "rest_of th' = rest_of th"
  shows "m_address_key th' = m_address_key th" "m_is_kernel_address_key th' = m_is_kernel_address_key th" "m_wait_queue th' = m_wait_queue th"
    "m_suspend_allowed_flags th' = m_suspend_allowed_flags th" "m_condvar_tree th' = m_condvar_tree th" "m_suspend_request_flags th' = m_suspend_request_flags th"
  using assms by (simp_all add: rest_of_def)

lemma new_state_acts:
  assumes "thread_inv T k" "new_state T t s k r"
  obtains k' where "r = Some k'" "acts T key k (waits_at key k) ((states k)(t := s AND 15)) (queues k) k'"
    "\<And>u. m_suspend_request_flags (threads k' u) = m_suspend_request_flags (threads k u)"
proof -
  obtain k' where k': "r = Some k'" "pi_inv T k'" "asserted k' = asserted k" "lock_view k' = lock_view k"
    "\<forall>u. m_thread_state (threads k' u) = (if u = t then s else m_thread_state (threads k u)) \<and> rest_of (threads k' u) = rest_of (threads k u) \<and> GetLockOwner u k' = GetLockOwner u k"
    using assms(2) unfolding new_state_def by blast
  have r: "rest_of (threads k' u) = rest_of (threads k u)" for u using k'(5) by simp
  have "one_lock a k'" if "one_lock a k" for a by (rule one_lock_cong [OF _ _ _ that]) (simp_all add: lock_viewD(2,8) [OF k'(4)])
  moreover have "waits_at key k' = waits_at key k" using k'(5) rest_fields(1,2) [OF r] by (simp add: waits_at_def fun_eq_iff)
  moreover have "states k' = (states k)(t := s AND 15)" using k'(5) by (simp add: states_def GetState_def fun_eq_iff)
  moreover have "queues k' = queues k" "allowed k' = allowed k" "condvars k' = condvars k" using rest_fields(3,4,5) [OF r] by (simp_all add: view_defs fun_eq_iff)
  moreover have "keyed key k' u = keyed key k u" for u using rest_fields(1,2) [OF r] by (simp add: keyed_def)
  moreover have "thread_inv T k'" using assms(1) k'(2,3) by (simp add: thread_inv_def)
  ultimately have "acts T key k (waits_at key k) ((states k)(t := s AND 15)) (queues k) k'" by (simp add: acts_def)
  then show thesis using that k'(1) rest_fields(6) [OF r] by blast
qed

lemma inv_pi: "thread_inv T k \<Longrightarrow> pi_inv T k"
  by (simp add: thread_inv_def)

lemma SetState_acts:
  assumes "thread_inv T k" "t \<in> T" "s AND 15 = s"
  obtains k' where "SetState t s k = Some k'" "acts T key k (waits_at key k) ((states k)(t := s)) (queues k) k'"
proof -
  obtain k' where k': "SetState t s k = Some k'" "acts T key k (waits_at key k) ((states k)(t := ((m_thread_state (threads k t) AND NOT 15) OR (s AND 15)) AND 15)) (queues k) k'"
    by (rule new_state_acts [OF assms(1) SetState_new [OF inv_pi [OF assms(1)] assms(2), of s], of key])
  then show thesis using that low_nibble(2) [of "m_thread_state (threads k t)" s] assms(3) by simp
qed

text \<open>Continuing and suspending change no state that the lock sees.\<close>

lemma ContinueIf_acts:
  assumes "thread_inv T k" "t \<in> T"
  obtains k' where "(if b then ContinueIfHasKernelWaiters t k else Some k) = Some k'" "acts T key k (waits_at key k) (states k) (queues k) k'"
proof (cases "b \<and> m_num_kernel_waiters (threads k t) > 0")
  case True
  obtain k' where k': "Continue t k = Some k'" "acts T key k (waits_at key k) ((states k)(t := (m_thread_state (threads k t) AND 15) AND 15)) (queues k) k'"
    by (rule new_state_acts [OF assms(1) Continue_new [OF inv_pi [OF assms(1)] assms(2)], of key])
  moreover have "(states k)(t := (m_thread_state (threads k t) AND 15) AND 15) = states k" using low_nibble(1) by (simp add: states_def GetState_def fun_eq_iff)
  ultimately show thesis using that True by (simp add: ContinueIfHasKernelWaiters_def)
next
  case False
  then show thesis using that acts_refl [OF assms(1)] by (auto simp: ContinueIfHasKernelWaiters_def)
qed

lemma UpdateState_acts:
  assumes "thread_inv T k" "t \<in> T" "allowed k t AND NOT 0x3F0 = 0"
  obtains k' where "UpdateState t k = Some k'" "acts T key k (waits_at key k) (states k) (queues k) k'"
proof -
  obtain k' where k': "UpdateState t k = Some k'"
    "acts T key k (waits_at key k) ((states k)(t := (ucast (GetSuspendFlags (threads k t)) OR (m_thread_state (threads k t) AND 15)) AND 15)) (queues k) k'"
    by (rule new_state_acts [OF assms(1) UpdateState_new [OF inv_pi [OF assms(1)] assms(2)], of key])
  moreover have "(states k)(t := (ucast (GetSuspendFlags (threads k t)) OR (m_thread_state (threads k t) AND 15)) AND 15) = states k"
    using low_nibble(3) assms(3) by (simp add: states_def GetState_def GetSuspendFlags_def allowed_def fun_eq_iff)
  ultimately show thesis using that by simp
qed

lemma TrySuspendIf_acts:
  assumes "thread_inv T k" "t \<in> T" "allowed k t AND NOT 0x3F0 = 0"
  obtains k' where "(if IsSuspended (threads k t) then TrySuspend t k else Some k) = Some k'" "acts T key k (waits_at key k) (states k) (queues k) k'"
proof (cases "IsSuspended (threads k t)")
  case True
  then have "m_suspend_request_flags (threads k t) \<noteq> 0" by (auto simp: IsSuspended_def GetSuspendFlags_def)
  then have e: "TrySuspend t k = (if m_num_kernel_waiters (threads k t) > 0 then Some k else UpdateState t k)"
    using pi_locked [OF inv_pi [OF assms(1)]] waiters_count [OF inv_pi [OF assms(1)], of t] by (auto simp: TrySuspend_def Let_def)
  obtain k' where k': "UpdateState t k = Some k'" "acts T key k (waits_at key k) (states k) (queues k) k'" by (rule UpdateState_acts [OF assms])
  then show thesis using that True e acts_refl [OF assms(1)] by (cases "m_num_kernel_waiters (threads k t) > 0") auto
next
  case False
  then show thesis using that acts_refl [OF assms(1)] by simp
qed

lemma views_inv:
  assumes "thread_inv T k" "lock_view k' = lock_view k" "queue_view k' = queue_view k" "asserted k' = asserted k" "m_owner_thread k' = m_owner_thread k"
    "current_thread k' = current_thread k" "\<And>u. m_base_priority (threads k' u) = m_base_priority (threads k u)"
  shows "thread_inv T k'"
proof -
  have p: "pi_inv T k" using assms(1) by (rule inv_pi)
  then obtain C where C: "runs k C" and i: "locks_inv T None (\<lambda>_. 0) k" by (auto simp: pi_inv_def threads_ok_def)
  have o: "GetLockOwner u k' = GetLockOwner u k" for u by (rule owner_cong) (simp_all add: lock_viewD(3,8) [OF assms(2)])
  have "pi_inv T k'" by (rule pi_inv_transfer [OF p _ runs_view [OF assms(3) C]])
    (use lock_view_inv [OF assms(2)] i pi_locked [OF p] assms(3,5-7) o in \<open>auto simp: IsSchedulerLockedByCurrentThread_def queue_view_def fun_eq_iff\<close>)
  then show ?thesis using assms(1,4) by (simp add: thread_inv_def)
qed

lemma set_wait_queue_acts: "thread_inv T k \<Longrightarrow> acts T key k (waits_at key k) (states k) ((queues k)(t := q)) (set_wait_queue t q k)"
proof -
  assume i: "thread_inv T k"
  let ?k = "set_wait_queue t q k"
  have "thread_inv T ?k" by (rule views_inv [OF i]) (auto simp: set_wait_queue_def lock_view_def queue_view_def set_thread_def fun_eq_iff)
  moreover have "GetLockOwner u ?k = GetLockOwner u k" for u by (rule owner_cong) (simp_all add: set_wait_queue_def)
  moreover have "one_lock key k \<Longrightarrow> one_lock key ?k" by (rule one_lock_cong) (auto simp: set_wait_queue_def split: if_splits)
  ultimately show ?thesis by (simp add: acts_def waits_at_def view_defs fun_eq_iff) (auto simp: set_wait_queue_def GetState_def keyed_def)
qed

lemma SetWaitResult_acts: "thread_inv T k \<Longrightarrow> acts T key k (waits_at key k) (states k) (queues k) (SetWaitResult t r k)"
proof -
  assume i: "thread_inv T k"
  let ?k = "SetWaitResult t r k"
  have "thread_inv T ?k" by (rule views_inv [OF i]) (auto simp: SetWaitResult_def lock_view_def queue_view_def set_thread_def fun_eq_iff)
  moreover have "GetLockOwner u ?k = GetLockOwner u k" for u by (rule owner_cong) (simp_all add: SetWaitResult_def)
  moreover have "one_lock key k \<Longrightarrow> one_lock key ?k" by (rule one_lock_cong) (auto simp: SetWaitResult_def split: if_splits)
  ultimately show ?thesis by (simp add: acts_def waits_at_def view_defs fun_eq_iff) (auto simp: SetWaitResult_def GetState_def keyed_def)
qed

lemma state_nibbles: "Waiting AND 15 = Waiting" "Runnable AND 15 = Runnable" "Waiting \<noteq> Runnable"
  by (simp_all add: Waiting_def Runnable_def)

lemma BeginWait_acts:
  assumes "thread_inv T k" "t \<in> T"
  obtains k' where "BeginWait t q k = Some k'" "acts T key k (waits_at key k) ((states k)(t := Waiting)) ((queues k)(t := Some q)) k'"
proof -
  obtain k1 where k1: "SetState t Waiting k = Some k1" "acts T key k (waits_at key k) ((states k)(t := Waiting)) (queues k) k1"
    using SetState_acts [OF assms state_nibbles(1), of key] by blast
  have "acts T key k (waits_at key k) ((states k)(t := Waiting)) ((queues k)(t := Some q)) (set_wait_queue t (Some q) k1)"
    using acts_trans [OF k1(2) set_wait_queue_acts [OF actsD(1) [OF k1(2)], of key t "Some q"]] actsD(3-5) [OF k1(2)] by simp
  then show thesis using that k1(1) by (simp add: BeginWait_def)
qed

lemma KThreadQueue_EndWait_acts:
  assumes "thread_inv T k" "t \<in> T"
  obtains k' where "KThreadQueue_EndWait t r k = Some k'" "acts T key k (waits_at key k) ((states k)(t := Runnable)) ((queues k)(t := None)) k'"
proof -
  note r = SetWaitResult_acts [OF assms(1), of key t r]
  obtain k1 where k1: "SetState t Runnable (SetWaitResult t r k) = Some k1"
    "acts T key (SetWaitResult t r k) (waits_at key (SetWaitResult t r k)) ((states (SetWaitResult t r k))(t := Runnable)) (queues (SetWaitResult t r k)) k1"
    using SetState_acts [OF actsD(1) [OF r] assms(2) state_nibbles(2), of key] by blast
  have 1: "acts T key k (waits_at key k) ((states k)(t := Runnable)) (queues k) k1" using acts_trans [OF r k1(2)] actsD(3-5) [OF r] by simp
  have "acts T key k (waits_at key k) ((states k)(t := Runnable)) ((queues k)(t := None)) (set_wait_queue t None k1)"
    using acts_trans [OF 1 set_wait_queue_acts [OF actsD(1) [OF 1], of key t None]] actsD(3-5) [OF 1] by simp
  then show thesis using that k1(1) by (simp add: KThreadQueue_EndWait_def)
qed

lemma CancelWait_is_EndWait: "KThreadQueue_CancelWait = KThreadQueue_EndWait"
  by (simp add: KThreadQueue_CancelWait_def KThreadQueue_EndWait_def fun_eq_iff)

text \<open>Two changes of the waiters: a thread comes to the lock, and a thread leaves it.\<close>

lemma kept_views:
  assumes "kept_fields k k'"
  shows "states k' = states k" "queues k' = queues k" "allowed k' = allowed k" "condvars k' = condvars k"
    "m_address_key (threads k' u) = m_address_key (threads k u)" "m_is_kernel_address_key (threads k' u) = m_is_kernel_address_key (threads k u)"
proof -
  have r: "rest_of (threads k' u) = rest_of (threads k u)" "m_thread_state (threads k' u) = m_thread_state (threads k u)" for u using assms by (simp_all add: kept_fields_def)
  show "states k' = states k" "queues k' = queues k" "allowed k' = allowed k" "condvars k' = condvars k" using r(2) rest_fields(3,4,5) [OF r(1)]
    by (simp_all add: view_defs GetState_def fun_eq_iff)
  show "m_address_key (threads k' u) = m_address_key (threads k u)" "m_is_kernel_address_key (threads k' u) = m_is_kernel_address_key (threads k u)"
    using rest_fields(1,2) [OF r(1)] by simp_all
qed

lemma join_acts:
  assumes "thread_inv T k" "owner \<in> T" "t \<in> T" "m_waiting_lock_info (threads k t) = None" "m_condvar_tree (threads k t) = None"
  obtains k' where "AddWaiter owner t (SetKernelAddressKey t key k) = Some k'" "acts T key k ((waits_at key k)(t := Some owner)) (states k) (queues k) k'"
proof -
  let ?k = "SetKernelAddressKey t key k"
  have p: "pi_inv T k" and a: "asserted k" using assms(1) by (simp_all add: thread_inv_def)
  have f: "threads ?k = (threads k)(t := (threads k t)\<lparr>m_address_key := key, m_is_kernel_address_key := True\<rparr>)" "locks ?k = locks k"
    using assms(4) by (simp_all add: SetKernelAddressKey_def)
  have p1: "pi_inv T ?k" "asserted ?k" using SetKernelAddressKey_pi [OF p assms(4), of key] a by simp_all
  have w: "waiting_for ?k t = None" "m_condvar_tree (threads ?k t) = None" using assms(4,5) f(1) by simp_all
  obtain k' where k': "AddWaiter owner t ?k = Some k'" "pi_inv T k'" "\<And>u. GetLockOwner u k' = (if u = t then Some owner else GetLockOwner u ?k)" "kept_fields ?k k'"
    "\<And>a. one_lock a ?k \<Longrightarrow> one_lock a k'" using AddWaiter_pi [OF p1(1) assms(2,3) w] by metis
  have o: "GetLockOwner u ?k = GetLockOwner u k" for u by (rule owner_cong) (use f in auto)
  note v = kept_views [OF k'(4)]
  have "one_lock key k \<Longrightarrow> one_lock key ?k" by (rule one_lock_cong) (use f in \<open>auto split: if_splits\<close>)
  moreover have "states ?k = states k" "queues ?k = queues k" "allowed ?k = allowed k" "condvars ?k = condvars k"
    using f(1) by (auto simp: view_defs GetState_def fun_eq_iff)
  moreover have "keyed key k u \<Longrightarrow> keyed key k' u" for u using v(5,6) [of u] f(1) by (simp add: keyed_def)
  moreover have "waits_at key k' = (waits_at key k)(t := Some owner)" using k'(3) v(5,6) o f(1) by (simp add: waits_at_def fun_eq_iff)
  moreover have "thread_inv T k'" using k'(2,4) p1(2) by (simp add: thread_inv_def kept_fields_def)
  ultimately have "acts T key k ((waits_at key k)(t := Some owner)) (states k) (queues k) k'" using v(1-4) k'(5) by (simp add: acts_def)
  then show thesis using that k'(1) by blast
qed

lemma LockSlowPath_acts:
  assumes "thread_inv T k" "owner \<in> T" "t \<in> T" "running t k"
  obtains k' where "LockSlowPath key owner t (Some (owner, True)) k = Some (True, k')"
    "acts T key k ((waits_at key k)(t := Some owner)) ((states k)(t := Waiting)) ((queues k)(t := Some ThreadQueueImplForKLightLock)) k'"
proof -
  have w: "m_waiting_lock_info (threads k t) = None" "m_condvar_tree (threads k t) = None" using assms(4) by (simp_all add: running_def)
  obtain k1 where k1: "AddWaiter owner t (SetKernelAddressKey t key k) = Some k1" "acts T key k ((waits_at key k)(t := Some owner)) (states k) (queues k) k1"
    using join_acts [OF assms(1-3) w, of key] by blast
  obtain k2 where k2: "BeginWait t ThreadQueueImplForKLightLock k1 = Some k2"
    "acts T key k1 (waits_at key k1) ((states k1)(t := Waiting)) ((queues k1)(t := Some ThreadQueueImplForKLightLock)) k2"
    using BeginWait_acts [OF actsD(1) [OF k1(2)] assms(3), of _ key] by blast
  have 2: "acts T key k ((waits_at key k)(t := Some owner)) ((states k)(t := Waiting)) ((queues k)(t := Some ThreadQueueImplForKLightLock)) k2"
    using acts_trans [OF k1(2) k2(2)] actsD(3-5) [OF k1(2)] by simp
  obtain k3 where k3: "(if IsSuspended (threads k2 owner) then ContinueIfHasKernelWaiters owner k2 else Some k2) = Some k3"
    "acts T key k2 (waits_at key k2) (states k2) (queues k2) k3" using ContinueIf_acts [OF actsD(1) [OF 2] assms(2), of _ key] by blast
  show thesis
  proof (rule that)
    show "LockSlowPath key owner t (Some (owner, True)) k = Some (True, k3)" using k1(1) k2(1) k3(1) by (simp add: LockSlowPath_def)
    show "acts T key k ((waits_at key k)(t := Some owner)) ((states k)(t := Waiting)) ((queues k)(t := Some ThreadQueueImplForKLightLock)) k3"
      using acts_trans [OF 2 k3(2)] actsD(3-5) [OF 2] by simp
  qed
qed

text \<open>With one lock per thread and key, the waiters of a thread with the key are those of the lock that is found.\<close>

lemma found_waiters:
  assumes "thread_inv T k" "one_lock key k"
  shows "FindHeldLock t key True k = None \<longleftrightarrow> (\<forall>u. waits_at key k u \<noteq> Some t)"
    "FindHeldLock t key True k = Some l \<Longrightarrow> waits_at key k u = Some t \<longleftrightarrow> m_waiting_lock_info (threads k u) = Some l"
proof -
  have i: "locks_inv T None (\<lambda>_. 0) k" using assms(1) by (simp add: thread_inv_def pi_inv_def threads_ok_def)
  have at: "m_waiting_lock_info (threads k u) = Some l \<Longrightarrow> waits_at key k u = Some t" if "FindHeldLock t key True k = Some l" for u l
  proof -
    assume w: "m_waiting_lock_info (threads k u) = Some l"
    note h = found_lock [OF that]
    have "m_address_key (threads k u) = key" "m_is_kernel_address_key (threads k u)"
      using locks_invD(7) [OF i h(1)] locks_invD(11) [OF i w] h(2,3) by (auto simp: lock_ok_def)
    then show "waits_at key k u = Some t" using w locks_invD(6) [OF i h(1)] by (simp add: waits_at_def GetLockOwner_def)
  qed
  have lk: "\<exists>l. m_waiting_lock_info (threads k u) = Some l \<and> l \<in> set (held k t) \<and> lock_address_key (locks k l) = key \<and> lock_is_kernel (locks k l)"
    if "waits_at key k u = Some t" for u
  proof -
    have o: "GetLockOwner u k = Some t" and kk: "m_address_key (threads k u) = key" "m_is_kernel_address_key (threads k u)"
      using that by (auto simp: waits_at_def split: if_splits)
    obtain l where w: "waiting_for k u = Some l" using o by (cases "waiting_for k u") (auto simp: GetLockOwner_def)
    have h: "l \<in> set (held k t)" using waiting_held [OF i w o] .
    show ?thesis using w h kk locks_invD(7) [OF i h] locks_invD(11) [OF i w] by (auto simp: lock_ok_def)
  qed
  show "waits_at key k u = Some t \<longleftrightarrow> m_waiting_lock_info (threads k u) = Some l" if f: "FindHeldLock t key True k = Some l"
  proof
    assume "waits_at key k u = Some t"
    then obtain l' where l': "m_waiting_lock_info (threads k u) = Some l'" "l' \<in> set (held k t)" "lock_address_key (locks k l') = key" "lock_is_kernel (locks k l')"
      using lk by blast
    then have "l' = l" using assms(2) [unfolded one_lock_def, rule_format, of l' t l] found_lock [OF f] by simp
    then show "m_waiting_lock_info (threads k u) = Some l" using l'(1) by simp
  qed (rule at [OF f])
  show "FindHeldLock t key True k = None \<longleftrightarrow> (\<forall>u. waits_at key k u \<noteq> Some t)"
  proof
    assume "FindHeldLock t key True k = None"
    then show "\<forall>u. waits_at key k u \<noteq> Some t" using lk by (fastforce simp: FindHeldLock_def find_None_iff)
  next
    assume a: "\<forall>u. waits_at key k u \<noteq> Some t"
    show "FindHeldLock t key True k = None"
    proof (rule ccontr)
      assume "FindHeldLock t key True k \<noteq> None"
      then obtain l where f: "FindHeldLock t key True k = Some l" by auto
      have "tree k l \<noteq> []" using locks_invD(8) [OF i found_lock(1) [OF f]] by simp
      then have "waiting_for k (hd (tree k l)) = Some l" using locks_invD(7) [OF i found_lock(1) [OF f]] by (simp add: lock_ok_def)
      then show False using at [OF f] a by blast
    qed
  qed
qed

lemma EndWait_acts:
  assumes "thread_inv T k" "t \<in> T" "states k t = Waiting" "queues k t = Some ThreadQueueImplForKLightLock"
  obtains k' where "EndWait other t r k = Some k'" "acts T key k (waits_at key k) ((states k)(t := Runnable)) ((queues k)(t := None)) k'"
  using KThreadQueue_EndWait_acts [OF assms(1,2), of r key] assms(3,4) by (auto simp: EndWait_def states_def queues_def)

text \<open>The most urgent waiter becomes the owner, and the others wait for it.\<close>

lemma leave_acts:
  assumes "thread_inv T k" "one_lock key k" "\<forall>u o'. waits_at key k u = Some o' \<longrightarrow> o' = t \<and> u \<noteq> t" "waits_at key k u0 = Some t"
  obtains n more k' where "RemoveWaiterByKey t key True k = Some ((Some n, more), k')" "waits_at key k n = Some t" "n \<in> T"
    "\<forall>u. waits_at key k u = Some t \<longrightarrow> prio k n \<le> prio k u" "more \<longleftrightarrow> (\<exists>u. u \<noteq> n \<and> waits_at key k u = Some t)"
    "acts T key k (\<lambda>u. if u = n then None else if waits_at key k u = Some t then Some n else waits_at key k u) (states k) (queues k) k'"
proof -
  note f = found_waiters [OF assms(1,2), of t]
  have p: "pi_inv T k" and a: "asserted k" using assms(1) by (simp_all add: thread_inv_def)
  have i: "locks_inv T None (\<lambda>_. 0) k" using p by (simp add: pi_inv_def threads_ok_def)
  obtain l where l: "FindHeldLock t key True k = Some l" using f(1) assms(4) by fastforce
  have ok: "lock_ok k l" using locks_invD(7) [OF i found_lock(1) [OF l]] .
  obtain n ts where t: "tree k l = n # ts" using locks_invD(8) [OF i found_lock(1) [OF l]] by (cases "tree k l") auto
  have w: "waits_at key k u = Some t \<longleftrightarrow> u = n \<or> u \<in> set ts" for u using f(2) [OF l, of u] ok locks_invD(11) [OF i, of u l] t by (auto simp: lock_ok_def)
  obtain k' where k': "RemoveWaiterByKey t key True k = Some ((Some n, ts \<noteq> []), k')" "pi_inv T k'"
    "\<And>u. GetLockOwner u k' = (if u = n then None else if waiting_for k u = Some l then Some n else GetLockOwner u k)" "kept_fields k k'"
    and one: "\<And>a. one_lock a k \<Longrightarrow> \<forall>l'\<in>set (held k n). \<not> (lock_address_key (locks k l') = a \<and> lock_is_kernel (locks k l')) \<Longrightarrow> one_lock a k'"
    using RemoveWaiterByKey_pi [OF p l t] by metis
  note v = kept_views [OF k'(4)]
  have "\<not> (lock_address_key (locks k l') = key \<and> lock_is_kernel (locks k l'))" if h: "l' \<in> set (held k n)" for l'
  proof
    assume c: "lock_address_key (locks k l') = key \<and> lock_is_kernel (locks k l')"
    have "tree k l' \<noteq> []" using locks_invD(8) [OF i h] by simp
    then have m: "hd (tree k l') \<in> set (tree k l')" by simp
    then have "waits_at key k (hd (tree k l')) = Some n"
      using locks_invD(6,7) [OF i h] c by (auto simp: lock_ok_def waits_at_def GetLockOwner_def)
    then show False using assms(3) w [of n] by blast
  qed
  then have "one_lock key k'" using one [OF assms(2)] by blast
  moreover have "waits_at key k' = (\<lambda>u. if u = n then None else if waits_at key k u = Some t then Some n else waits_at key k u)"
  proof
    show "waits_at key k' u = (if u = n then None else if waits_at key k u = Some t then Some n else waits_at key k u)" for u
    proof (cases "waiting_for k u = Some l")
      case True
      then have "m_address_key (threads k u) = key" "m_is_kernel_address_key (threads k u)" "waits_at key k u = Some t"
        using f(2) [OF l, of u] by (auto simp: waits_at_def split: if_splits)
      then show ?thesis using k'(3) [of u] v(5,6) [of u] True by (simp add: waits_at_def)
    next
      case False
      then show ?thesis using k'(3) [of u] v(5,6) [of u] f(2) [OF l, of u] by (auto simp: waits_at_def)
    qed
  qed
  moreover have "keyed key k' u = keyed key k u" for u using v(5,6) [of u] by (simp add: keyed_def)
  moreover have "thread_inv T k'" using k'(2,4) a by (simp add: thread_inv_def kept_fields_def)
  ultimately have A: "acts T key k (\<lambda>u. if u = n then None else if waits_at key k u = Some t then Some n else waits_at key k u) (states k) (queues k) k'"
    using v(1-4) by (simp add: acts_def)
  have "prio k n \<le> prio k u" if "waits_at key k u = Some t" for u using that w ok t by (auto simp: lock_ok_def)
  moreover have "ts \<noteq> [] \<longleftrightarrow> (\<exists>u. u \<noteq> n \<and> waits_at key k u = Some t)"
  proof -
    have "n \<notin> set ts" using ok t by (simp add: lock_ok_def)
    then show ?thesis unfolding w by (metis empty_iff empty_set hd_in_set)
  qed
  moreover have "n \<in> T" using f(2) [OF l, of n] w [of n] locks_invD(9) [OF i] by blast
  ultimately show thesis using that k'(1) A w [of n] by blast
qed

text \<open>A thread that no longer waits for the lock can run.\<close>

lemma waiter_facts:
  assumes "thread_inv T k" "waits_at key k u = Some v"
  shows "keyed key k u" "condvars k u = None" "GetLockOwner u k = Some v" "u \<in> T" "v \<in> T"
proof -
  have i: "locks_inv T None (\<lambda>_. 0) k" using assms(1) by (simp add: thread_inv_def pi_inv_def threads_ok_def)
  show o: "GetLockOwner u k = Some v" and "keyed key k u" using assms(2) by (auto simp: waits_at_def keyed_def split: if_splits)
  then obtain l where "waiting_for k u = Some l" using owner_waiting [OF i, of u] by auto
  then show "condvars k u = None" using locks_invD(10) [OF i] by (simp add: condvars_def)
  show "u \<in> T" "v \<in> T" using owner_in [OF i o] by auto
qed

lemma acts_running:
  assumes "acts T key k W S Q k'" "keyed key k u" "condvars k u = None" "W u = None" "S u = Runnable"
  shows "running u k'"
proof -
  have i: "locks_inv T None (\<lambda>_. 0) k'" using actsD(1) [OF assms(1)] by (simp add: thread_inv_def pi_inv_def threads_ok_def)
  have "waits_at key k' u = None" using actsD(3) [OF assms(1)] assms(4) by simp
  then have "GetLockOwner u k' = None" using actsD(8) [OF assms(1,2)] by (simp add: waits_at_def keyed_def)
  then have "waiting_for k' u = None" using owner_waiting [OF i] by simp
  moreover have "GetState (threads k' u) = Runnable" using assms(5) actsD(4) [OF assms(1), symmetric] by (simp add: states_def)
  moreover have "m_condvar_tree (threads k' u) = None" using assms(3) actsD(7) [OF assms(1), symmetric] by (simp add: condvars_def)
  ultimately show ?thesis using state_nibbles(3) by (simp add: running_def)
qed

text \<open>A wait that is cancelled: the others wait on.\<close>

lemma CancelWait_acts:
  assumes "thread_inv T k" "waits_at key k u = Some v" "states k u = Waiting" "queues k u = Some ThreadQueueImplForKLightLock"
  obtains k' where "CancelWait other u r k = Some k'" "running u k'"
    "acts T key k ((waits_at key k)(u := None)) ((states k)(u := Runnable)) ((queues k)(u := None)) k'"
proof -
  note w = waiter_facts [OF assms(1,2)]
  have p: "pi_inv T k" and a: "asserted k" using assms(1) by (simp_all add: thread_inv_def)
  obtain k1 where k1: "RemoveWaiter v u k = Some k1" "pi_inv T k1" "kept_fields k k1"
    and o: "\<And>x. GetLockOwner x k1 = (if x = u then None else GetLockOwner x k)" and one: "\<And>a. one_lock a k \<Longrightarrow> one_lock a k1"
    using RemoveWaiter_pi [OF p w(3)] by metis
  note v = kept_views [OF k1(3)]
  have "waits_at key k1 = (waits_at key k)(u := None)" using o v(5,6) by (simp add: waits_at_def fun_eq_iff)
  moreover have "keyed key k1 x = keyed key k x" for x using v(5,6) [of x] by (simp add: keyed_def)
  moreover have "thread_inv T k1" using k1(2,3) a by (simp add: thread_inv_def kept_fields_def)
  ultimately have a1: "acts T key k ((waits_at key k)(u := None)) (states k) (queues k) k1" using v(1-4) one by (simp add: acts_def)
  obtain k2 where k2: "KThreadQueue_EndWait u r k1 = Some k2" "acts T key k1 (waits_at key k1) ((states k1)(u := Runnable)) ((queues k1)(u := None)) k2"
    by (rule KThreadQueue_EndWait_acts [OF actsD(1) [OF a1] w(4)])
  have a2: "acts T key k ((waits_at key k)(u := None)) ((states k)(u := Runnable)) ((queues k)(u := None)) k2"
    using acts_trans [OF a1 k2(2)] actsD(3-5) [OF a1] by simp
  have "CancelWait other u r k = Some k2"
    using assms(3,4) w(3) k1(1) k2(1) by (simp add: CancelWait_def LightLock_CancelWait_def CancelWait_is_EndWait states_def queues_def)
  then show thesis using that a2 acts_running [OF a2 w(1,2)] by simp
qed

lemma UnlockSlowPath_none:
  assumes "thread_inv T k" "one_lock key k" "t \<in> T" "\<forall>u. waits_at key k u \<noteq> Some t" "allowed k t AND NOT 0x3F0 = 0"
  obtains k' where "UnlockSlowPath other key t k = Some (None, k')" "acts T key k (waits_at key k) (states k) (queues k) k'"
proof -
  have "FindHeldLock t key True k = None" using found_waiters(1) [OF assms(1,2)] assms(4) by blast
  then have r: "RemoveWaiterByKey t key True k = Some ((None, False), k)" using RemoveWaiterByKey_none pi_locked [OF inv_pi [OF assms(1)]] by blast
  obtain k' where "(if IsSuspended (threads k t) then TrySuspend t k else Some k) = Some k'" "acts T key k (waits_at key k) (states k) (queues k) k'"
    using TrySuspendIf_acts [OF assms(1,3,5)] by blast
  then show thesis using that r by (simp add: UnlockSlowPath_def)
qed

definition passed_on :: "nat \<Rightarrow> nat \<Rightarrow> (nat \<Rightarrow> nat option) \<Rightarrow> nat \<Rightarrow> nat option" where
  "passed_on t n W u = (if u = n then None else if W u = Some t then Some n else W u)"

lemma UnlockSlowPath_some:
  assumes "thread_inv T k" "one_lock key k" "t \<in> T" "\<forall>u o'. waits_at key k u = Some o' \<longrightarrow> o' = t \<and> u \<noteq> t" "waits_at key k u0 = Some t"
    "\<forall>u. waits_at key k u = Some t \<longrightarrow> states k u = Waiting \<and> queues k u = Some ThreadQueueImplForKLightLock" "allowed k t AND NOT 0x3F0 = 0"
  obtains n more k' where "UnlockSlowPath other key t k = Some (Some (n, more), k')" "waits_at key k n = Some t" "n \<in> T"
    "\<forall>u. waits_at key k u = Some t \<longrightarrow> prio k n \<le> prio k u" "more \<longleftrightarrow> (\<exists>u. u \<noteq> n \<and> waits_at key k u = Some t)"
    "acts T key k (passed_on t n (waits_at key k)) ((states k)(n := Runnable)) ((queues k)(n := None)) k'"
proof -
  obtain n more k1 where r: "RemoveWaiterByKey t key True k = Some ((Some n, more), k1)" and n: "waits_at key k n = Some t" "n \<in> T"
    "\<forall>u. waits_at key k u = Some t \<longrightarrow> prio k n \<le> prio k u" "more \<longleftrightarrow> (\<exists>u. u \<noteq> n \<and> waits_at key k u = Some t)"
    and a: "acts T key k (\<lambda>u. if u = n then None else if waits_at key k u = Some t then Some n else waits_at key k u) (states k) (queues k) k1"
    by (rule leave_acts [OF assms(1,2,4,5)])
  have "(\<lambda>u. if u = n then None else if waits_at key k u = Some t then Some n else waits_at key k u) = passed_on t n (waits_at key k)"
    by (simp add: passed_on_def fun_eq_iff)
  then have a1: "acts T key k (passed_on t n (waits_at key k)) (states k) (queues k) k1" using a by simp
  have s1: "states k1 n = Waiting" "queues k1 n = Some ThreadQueueImplForKLightLock" using assms(6) n(1) actsD(4,5) [OF a1] by simp_all
  obtain k2 where k2: "EndWait other n ResultSuccess k1 = Some k2" "acts T key k1 (waits_at key k1) ((states k1)(n := Runnable)) ((queues k1)(n := None)) k2"
    by (rule EndWait_acts [OF actsD(1) [OF a1] n(2) s1])
  have a2: "acts T key k (passed_on t n (waits_at key k)) ((states k)(n := Runnable)) ((queues k)(n := None)) k2"
    using acts_trans [OF a1 k2(2)] actsD(3-5) [OF a1] by simp
  obtain k3 where k3: "(if IsSuspended (threads k2 n) then ContinueIfHasKernelWaiters n k2 else Some k2) = Some k3"
    "acts T key k2 (waits_at key k2) (states k2) (queues k2) k3" by (rule ContinueIf_acts [OF actsD(1) [OF a2] n(2)])
  have a3: "acts T key k (passed_on t n (waits_at key k)) ((states k)(n := Runnable)) ((queues k)(n := None)) k3"
    using acts_trans [OF a2 k3(2)] actsD(3-5) [OF a2] by simp
  have al: "allowed k3 t AND NOT 0x3F0 = 0" using actsD(6) [OF a3] assms(7) by simp
  obtain k4 where k4: "(if IsSuspended (threads k3 t) then TrySuspend t k3 else Some k3) = Some k4" "acts T key k3 (waits_at key k3) (states k3) (queues k3) k4"
    by (rule TrySuspendIf_acts [OF actsD(1) [OF a3] assms(3) al])
  have a4: "acts T key k (passed_on t n (waits_at key k)) ((states k)(n := Runnable)) ((queues k)(n := None)) k4"
    using acts_trans [OF a3 k4(2)] actsD(3-5) [OF a3] by simp
  have "UnlockSlowPath other key t k = Some (Some (n, more), k4)" using r k2(1) k3(1) k4(1) by (simp add: UnlockSlowPath_def)
  then show thesis using that n a4 by blast
qed

section \<open>The invariant\<close>

text \<open>A thread has the lock once it was handed over, even if it has not yet run again.\<close>

definition sleeps :: "light_lock \<Rightarrow> nat \<Rightarrow> bool" where
  "sleeps s u \<longleftrightarrow> point s u = Asleep \<and> states (the_kernel s) u = Waiting"

definition has_lock :: "light_lock \<Rightarrow> nat \<Rightarrow> bool" where
  "has_lock s u \<longleftrightarrow> point s u = Inside \<or> point s u = Unlocking \<or> point s u = Asleep \<and> states (the_kernel s) u \<noteq> Waiting"

definition light_inv :: "nat set \<Rightarrow> u64 \<Rightarrow> light_lock \<Rightarrow> bool" where
  "light_inv T key s \<longleftrightarrow> kernel_ok T key (the_kernel s) \<and> (\<forall>u. point s u \<noteq> Outside \<longrightarrow> u \<in> T) \<and>
     (\<forall>u. has_lock s u \<longleftrightarrow> (\<exists>b. m_tag s = Some (u, b))) \<and>
     (\<forall>u. sleeps s u \<longrightarrow> (\<exists>v. m_tag s = Some (v, True) \<and> waits_at key (the_kernel s) u = Some v) \<and>
        queues (the_kernel s) u = Some ThreadQueueImplForKLightLock) \<and>
     (\<forall>u. waits_at key (the_kernel s) u \<noteq> None \<longrightarrow> sleeps s u)"

lemma light_invD:
  assumes "light_inv T key s"
  shows "kernel_ok T key (the_kernel s)" "point s u \<noteq> Outside \<Longrightarrow> u \<in> T" "has_lock s u \<longleftrightarrow> (\<exists>b. m_tag s = Some (u, b))"
    "sleeps s u \<Longrightarrow> \<exists>v. m_tag s = Some (v, True) \<and> waits_at key (the_kernel s) u = Some v"
    "sleeps s u \<Longrightarrow> queues (the_kernel s) u = Some ThreadQueueImplForKLightLock" "waits_at key (the_kernel s) u \<noteq> None \<Longrightarrow> sleeps s u"
  using assms unfolding light_inv_def by blast+

lemma acts_kernel_ok: "acts T key k W S Q k' \<Longrightarrow> one_lock key k \<Longrightarrow> \<forall>u. allowed k u AND NOT 0x3F0 = 0 \<Longrightarrow> kernel_ok T key k'"
  using acting_inv [of T k' 0] unfolding acts_def kernel_ok_def allowed_def by (metis acting_one_lock)

lemma kernel_ok_allowed: "kernel_ok T key k \<Longrightarrow> \<forall>u. allowed k u AND NOT 0x3F0 = 0"
  by (simp add: kernel_ok_def allowed_def)

lemma running_awake: "running t k \<Longrightarrow> states k t \<noteq> Waiting"
  by (simp add: running_def states_def)

lemma running_acting [simp]: "running t (acting u k) = running t k"
  by (simp add: running_def)

lemma light_lock_step:
  assumes "light_inv T key s" "t \<in> T" "running t (the_kernel s)" "point s t = Outside" "Lock_exchange t (m_tag s) = (old, tag)"
  shows "light_inv T key (s\<lparr>m_tag := tag, point := (point s)(t := case old of None \<Rightarrow> Inside | Some (owner, _) \<Rightarrow> Locking owner)\<rparr>)"
proof -
  note i = light_invD [OF assms(1)]
  show ?thesis
  proof (cases "m_tag s")
    case None
    then have e: "old = None" "tag = Some (t, False)" using assms(5) by (auto simp: Lock_exchange_def)
    have "\<not> has_lock s u" "\<not> sleeps s u" for u using i(3,4) [of u] None by auto
    moreover have "waits_at key (the_kernel s) u = None" for u using i(6) [of u] calculation(2) by blast
    ultimately show ?thesis using i(1,2) e assms(2) unfolding light_inv_def by (auto simp: has_lock_def sleeps_def)
  next
    case (Some x)
    obtain v b where x: "x = (v, b)" by (cases x)
    have e: "old = Some (v, b)" "tag = Some (v, True)" using assms(5) Some x by (auto simp: Lock_exchange_def)
    let ?s = "s\<lparr>m_tag := tag, point := (point s)(t := case old of None \<Rightarrow> Inside | Some (owner, _) \<Rightarrow> Locking owner)\<rparr>"
    have h: "has_lock ?s u = has_lock s u" "sleeps ?s u = sleeps s u" for u using assms(4) e by (auto simp: has_lock_def sleeps_def)
    show ?thesis unfolding light_inv_def h using i Some x e assms(2) by (auto split: if_splits)
  qed
qed

lemma light_lock_slow_step:
  assumes "light_inv T key s" "t \<in> T" "running t (the_kernel s)" "point s t = Locking owner"
    "LockSlowPath key owner t (m_tag s) (acting t (the_kernel s)) = Some (waited, k')"
  shows "light_inv T key (s\<lparr>point := (point s)(t := if waited then Asleep else Outside), the_kernel := k'\<rparr>)"
proof -
  note i = light_invD [OF assms(1)]
  let ?k = "the_kernel s"
  show ?thesis
  proof (cases "m_tag s = Some (owner, True)")
    case False
    then have e: "\<not> waited" "k' = acting t ?k" using assms(5) by (auto simp: LockSlowPath_def)
    let ?s = "s\<lparr>point := (point s)(t := Outside), the_kernel := acting t ?k\<rparr>"
    have h: "has_lock ?s u = has_lock s u" "sleeps ?s u = sleeps s u" for u using assms(4) by (auto simp: has_lock_def sleeps_def)
    have "kernel_ok T key (acting t ?k)" using i(1) by (simp add: kernel_ok_def acting_again)
    then show ?thesis unfolding light_inv_def using h i e by (auto split: if_splits)
  next
    case True
    have ow: "owner \<in> T" "owner \<noteq> t"
    proof -
      have "has_lock s owner" using i(3) True by blast
      then show "owner \<in> T" "owner \<noteq> t" using i(2) [of owner] assms(4) by (auto simp: has_lock_def)
    qed
    obtain k1 where "LockSlowPath key owner t (Some (owner, True)) (acting t ?k) = Some (True, k1)"
      "acts T key (acting t ?k) ((waits_at key (acting t ?k))(t := Some owner)) ((states (acting t ?k))(t := Waiting))
        ((queues (acting t ?k))(t := Some ThreadQueueImplForKLightLock)) k1"
      by (rule LockSlowPath_acts [OF kernel_okD(1) [OF i(1)] ow(1) assms(2)]) (simp add: assms(3))
    then have e: "waited" and a: "acts T key (acting t ?k) ((waits_at key ?k)(t := Some owner)) ((states ?k)(t := Waiting)) ((queues ?k)(t := Some ThreadQueueImplForKLightLock)) k'"
      using assms(5) True by simp_all
    let ?s = "s\<lparr>point := (point s)(t := Asleep), the_kernel := k'\<rparr>"
    have ok: "kernel_ok T key k'" using acts_kernel_ok [OF a] kernel_okD(2) [OF i(1)] kernel_ok_allowed [OF i(1)] by simp
    have h: "has_lock ?s u = has_lock s u" "sleeps ?s u \<longleftrightarrow> u = t \<or> sleeps s u" for u
      using actsD(4) [OF a] assms(4) by (auto simp: has_lock_def sleeps_def)
    show ?thesis unfolding light_inv_def
    proof (intro conjI allI impI)
      show "\<exists>v. m_tag (s\<lparr>point := (point s)(t := if waited then Asleep else Outside), the_kernel := k'\<rparr>) = Some (v, True) \<and>
        waits_at key (the_kernel (s\<lparr>point := (point s)(t := if waited then Asleep else Outside), the_kernel := k'\<rparr>)) u = Some v"
        if "sleeps (s\<lparr>point := (point s)(t := if waited then Asleep else Outside), the_kernel := k'\<rparr>) u" for u
        using that e h(2) [of u] i(4) [of u] actsD(3) [OF a] True by auto
    qed (use ok e h i(2,3,5,6) assms(2) actsD(3,5) [OF a] True in \<open>auto split: if_splits\<close>)
  qed
qed

lemma light_wake_step:
  assumes "light_inv T key s" "t \<in> T" "running t (the_kernel s)" "point s t = Asleep"
  shows "light_inv T key (s\<lparr>point := (point s)(t := Inside)\<rparr>)"
proof -
  note i = light_invD [OF assms(1)]
  have h: "has_lock (s\<lparr>point := (point s)(t := Inside)\<rparr>) u = has_lock s u" "sleeps (s\<lparr>point := (point s)(t := Inside)\<rparr>) u = sleeps s u" for u
    using assms(4) running_awake [OF assms(3)] by (auto simp: has_lock_def sleeps_def)
  show ?thesis unfolding light_inv_def h using i assms(2) by (auto split: if_splits)
qed

lemma light_unlock_step:
  assumes "light_inv T key s" "t \<in> T" "point s t = Inside" "Unlock_exchange t (m_tag s) = (ok, tag)"
  shows "light_inv T key (s\<lparr>m_tag := tag, point := (point s)(t := if ok then Outside else Unlocking)\<rparr>)"
proof -
  note i = light_invD [OF assms(1)]
  show ?thesis
  proof (cases "m_tag s = Some (t, False)")
    case True
    then have e: "ok" "tag = None" using assms(4) by (auto simp: Unlock_exchange_def)
    have n1: "\<not> sleeps s u" for u using i(4) [of u] True by auto
    then have n: "waits_at key (the_kernel s) u = None" for u using i(6) [of u] by blast
    have "has_lock s u \<longleftrightarrow> u = t" for u using i(3) True by auto
    then show ?thesis unfolding light_inv_def using i(1,2) e n n1 by (auto simp: has_lock_def sleeps_def split: if_splits)
  next
    case False
    then have e: "\<not> ok" "tag = m_tag s" using assms(4) by (auto simp: Unlock_exchange_def)
    let ?s = "s\<lparr>m_tag := tag, point := (point s)(t := if ok then Outside else Unlocking)\<rparr>"
    have h: "has_lock ?s u = has_lock s u" "sleeps ?s u = sleeps s u" for u using assms(3) e by (auto simp: has_lock_def sleeps_def)
    show ?thesis unfolding light_inv_def h using i e assms(2) by (auto split: if_splits)
  qed
qed

lemma light_elsewhere_step:
  assumes "light_inv T key s" "elsewhere T key (point s) (the_kernel s) k'"
  shows "light_inv T key (s\<lparr>the_kernel := k'\<rparr>)"
proof -
  note i = light_invD [OF assms(1)]
  have f: "kernel_ok T key k'" "waits_at key k' = waits_at key (the_kernel s)" "point s u = Asleep \<Longrightarrow> states k' u = states (the_kernel s) u \<and> queues k' u = queues (the_kernel s) u" for u
    using assms(2) by (auto simp: elsewhere_def states_def queues_def)
  have h: "has_lock (s\<lparr>the_kernel := k'\<rparr>) u = has_lock s u" "sleeps (s\<lparr>the_kernel := k'\<rparr>) u = sleeps s u" for u
    using f(3) [of u] by (auto simp: has_lock_def sleeps_def)
  show ?thesis unfolding light_inv_def h using i f by (auto simp: sleeps_def)
qed

text \<open>A thread in the slow path of \<open>Unlock\<close>: the next owner is the most urgent of those that sleep.\<close>

lemma light_unlock_slow_step:
  assumes "light_inv T key s" "t \<in> T" "point s t = Unlocking" "k = the_kernel s"
  obtains tag k' where "UnlockSlowPath other key t (acting t k) = Some (tag, k')"
    "light_inv T key (s\<lparr>m_tag := tag, point := (point s)(t := Outside), the_kernel := k'\<rparr>)"
    "(\<forall>u. \<not> sleeps s u) \<and> tag = None \<or> (\<exists>n b. sleeps s n \<and> tag = Some (n, b) \<and> (\<forall>u. sleeps s u \<longrightarrow> prio k n \<le> prio k u) \<and>
       running n k' \<and> (b \<longleftrightarrow> (\<exists>u. u \<noteq> n \<and> sleeps s u)))"
proof -
  note result = that
  note i = light_invD [OF assms(1), folded assms(4)]
  let ?k = "acting t k"
  have inv: "thread_inv T ?k" "one_lock key ?k" "allowed ?k t AND NOT 0x3F0 = 0" "\<forall>u. allowed ?k u AND NOT 0x3F0 = 0"
    using kernel_okD [OF i(1)] by (simp_all add: allowed_def)
  obtain b0 where tag: "m_tag s = Some (t, b0)" using i(3) [of t] assms(3) by (auto simp: has_lock_def)
  have only: "has_lock s u \<longleftrightarrow> u = t" for u using i(3) [of u] tag by auto
  have w: "waits_at key k u = Some t \<longleftrightarrow> sleeps s u" "waits_at key k u = None \<or> waits_at key k u = Some t" for u
    using i(4) [of u] i(6) [of u] tag by (cases "waits_at key k u"; auto)+
  have nt: "\<not> sleeps s t" using assms(3) by (simp add: sleeps_def)
  show thesis
  proof (cases "\<exists>u. sleeps s u")
    case False
    obtain k' where k': "UnlockSlowPath other key t ?k = Some (None, k')" "acts T key ?k (waits_at key ?k) (states ?k) (queues ?k) k'"
      by (rule UnlockSlowPath_none [OF inv(1,2) assms(2) _ inv(3)]) (use False w in simp)
    let ?s = "s\<lparr>m_tag := None, point := (point s)(t := Outside), the_kernel := k'\<rparr>"
    have ok: "kernel_ok T key k'" using acts_kernel_ok [OF k'(2) inv(2,4)] .
    have h: "sleeps ?s u = sleeps s u" "\<not> has_lock ?s u" for u using assms(3,4) only [of u] actsD(4) [OF k'(2)] by (auto simp: sleeps_def has_lock_def)
    have "waits_at key k' u = None" for u using actsD(3) [OF k'(2)] w [of u] False by auto
    then have "light_inv T key ?s" unfolding light_inv_def using ok h i(2) False by auto
    then show thesis using result k'(1) False by blast
  next
    case True
    then obtain u0 where u0: "waits_at key ?k u0 = Some t" using w by auto
    have pre: "\<forall>u o'. waits_at key ?k u = Some o' \<longrightarrow> o' = t \<and> u \<noteq> t" using w nt by (metis acting_waits option.distinct(1) option.inject)
    have asleep: "\<forall>u. waits_at key ?k u = Some t \<longrightarrow> states ?k u = Waiting \<and> queues ?k u = Some ThreadQueueImplForKLightLock"
      using w i(5) assms(4) by (auto simp: sleeps_def)
    obtain n more k' where k': "UnlockSlowPath other key t ?k = Some (Some (n, more), k')" and n: "waits_at key ?k n = Some t" "n \<in> T"
      "\<forall>u. waits_at key ?k u = Some t \<longrightarrow> prio ?k n \<le> prio ?k u" "more \<longleftrightarrow> (\<exists>u. u \<noteq> n \<and> waits_at key ?k u = Some t)"
      and a: "acts T key ?k (passed_on t n (waits_at key ?k)) ((states ?k)(n := Runnable)) ((queues ?k)(n := None)) k'"
      by (rule UnlockSlowPath_some [OF inv(1,2) assms(2) pre u0 asleep inv(3)])
    let ?s = "s\<lparr>m_tag := Some (n, more), point := (point s)(t := Outside), the_kernel := k'\<rparr>"
    have sn: "sleeps s n" using n(1) w by simp
    have v: "waits_at key k' u = (if u = n then None else if sleeps s u then Some n else None)" "states k' u = (if u = n then Runnable else states k u)"
      "queues k' u = (if u = n then None else queues k u)" for u
      using actsD(3-5) [OF a] w [of u] by (auto simp: passed_on_def)
    have ok: "kernel_ok T key k'" using acts_kernel_ok [OF a inv(2,4)] .
    have h: "sleeps ?s u \<longleftrightarrow> u \<noteq> n \<and> sleeps s u" "has_lock ?s u \<longleftrightarrow> u = n" for u
      using assms(3,4) only [of u] sn nt v(2) [of u] state_nibbles(3) by (auto simp: sleeps_def has_lock_def)
    have more: "more \<longleftrightarrow> (\<exists>u. u \<noteq> n \<and> sleeps s u)" using n(4) w by simp
    have "light_inv T key ?s" unfolding light_inv_def using ok h i(2,5) n(2) v more by (auto split: if_splits)
    moreover have "running n k'" using acts_running [OF a] waiter_facts(1,2) [OF inv(1) n(1)] by (simp add: passed_on_def)
    moreover have "\<forall>u. sleeps s u \<longrightarrow> prio k n \<le> prio k u" using n(3) w by simp
    ultimately show thesis using result [OF k'] sn more by blast
  qed
qed

lemma light_step_inv:
  assumes "light_step T key other s s'" "light_inv T key s"
  shows "light_inv T key s'"
  using assms
proof (induction rule: light_step.induct)
  case (unlock_slow t s tag k')
  obtain tag1 k1 where "UnlockSlowPath other key t (acting t (the_kernel s)) = Some (tag1, k1)"
    "light_inv T key (s\<lparr>m_tag := tag1, point := (point s)(t := Outside), the_kernel := k1\<rparr>)"
    by (rule light_unlock_slow_step [OF unlock_slow.prems unlock_slow.hyps(1,3) refl])
  then show ?case using unlock_slow.hyps(4) by simp
next
  case (lock t s old tag)
  show ?case by (rule light_lock_step [OF lock.prems lock.hyps])
next
  case (lock_slow t s owner waited k')
  show ?case by (rule light_lock_slow_step [OF lock_slow.prems lock_slow.hyps])
next
  case (wake t s)
  show ?case by (rule light_wake_step [OF wake.prems wake.hyps])
next
  case (unlock t s ok tag)
  show ?case by (rule light_unlock_step [OF unlock.prems unlock.hyps(1,3,4)])
next
  case (other_code s k')
  show ?case by (rule light_elsewhere_step [OF other_code.prems other_code.hyps])
qed


text \<open>
  A request to suspend a thread, also one that sleeps or has the lock, and the request to resume it, are code
  that may run in between.
\<close>

lemma set_request_acts: "thread_inv T k \<Longrightarrow> acts T key k (waits_at key k) (states k) (queues k) (set_request t f k)"
proof -
  assume i: "thread_inv T k"
  let ?k = "set_request t f k"
  have "thread_inv T ?k" using i set_request_pi [of T k t f] by (simp add: thread_inv_def)
  moreover have "GetLockOwner u ?k = GetLockOwner u k" for u by (rule owner_cong) (simp_all add: set_request_def)
  moreover have "one_lock key k \<Longrightarrow> one_lock key ?k" by (rule one_lock_cong) (auto simp: set_request_def split: if_splits)
  ultimately show ?thesis by (simp add: acts_def waits_at_def view_defs fun_eq_iff) (auto simp: set_request_def GetState_def keyed_def)
qed

lemma elsewhereI:
  assumes "kernel_ok T key k" "acts T key (acting t k) (waits_at key k) (states k) (queues k) k'"
  shows "elsewhere T key pt k k'"
proof -
  have "kernel_ok T key k'" by (rule acts_kernel_ok [OF assms(2)]) (use kernel_okD(2) [OF assms(1)] kernel_ok_allowed [OF assms(1)] in simp_all)
  moreover have "states k' u = states k u" "queues k' u = queues k u" for u using actsD(4,5) [OF assms(2)] by simp_all
  ultimately show ?thesis using actsD(3) [OF assms(2)] by (simp add: elsewhere_def states_def queues_def)
qed

lemma suspend_elsewhere:
  assumes "kernel_ok T key k" "u \<in> T"
  obtains k1 k2 where "RequestSuspend u ty (acting t k) = Some k1" "elsewhere T key pt k k1" "Resume u ty (acting t k) = Some k2" "elsewhere T key pt k k2"
proof -
  let ?k = "acting t k"
  have i: "thread_inv T ?k" using kernel_okD(1) [OF assms(1)] .
  have u: "\<exists>k'. UpdateState u (set_request u f ?k) = Some k' \<and> acts T key ?k (waits_at key k) (states k) (queues k) k'" for f
  proof -
    note r = set_request_acts [OF i, of key u f]
    have al: "allowed (set_request u f ?k) u AND NOT 0x3F0 = 0" using actsD(6) [OF r] kernel_ok_allowed [OF assms(1)] by simp
    obtain k' where "UpdateState u (set_request u f ?k) = Some k'"
      "acts T key (set_request u f ?k) (waits_at key (set_request u f ?k)) (states (set_request u f ?k)) (queues (set_request u f ?k)) k'"
      by (rule UpdateState_acts [OF actsD(1) [OF r] assms(2) al])
    then show ?thesis using acts_trans [OF r] actsD(3-5) [OF r] by auto
  qed
  have "\<exists>k1. RequestSuspend u ty ?k = Some k1 \<and> acts T key ?k (waits_at key k) (states k) (queues k) k1"
    unfolding RequestSuspend_eq [OF inv_pi [OF i] refl, of u ty] using u set_request_acts [OF i, of key u] by (simp split: if_splits)
  moreover have "\<exists>k2. Resume u ty ?k = Some k2 \<and> acts T key ?k (waits_at key k) (states k) (queues k) k2" unfolding Resume_eq [OF refl] by (rule u)
  ultimately show thesis using that elsewhereI [OF assms(1)] by blast
qed

lemma light_initial_inv:
  assumes "kernel_ok T key k" "\<forall>u. waits_at key k u = None"
  shows "light_inv T key \<lparr>m_tag = None, point = (\<lambda>_. Outside), the_kernel = k\<rparr>"
  using assms by (simp add: light_inv_def has_lock_def sleeps_def)

lemma light_reachable_inv:
  assumes "kernel_ok T key k" "\<forall>u. waits_at key k u = None"
    "(light_step T key other)\<^sup>*\<^sup>* \<lparr>m_tag = None, point = (\<lambda>_. Outside), the_kernel = k\<rparr> s"
  shows "light_inv T key s"
  using assms(3) light_initial_inv [OF assms(1,2)] by (induction rule: rtranclp_induct) (auto intro: light_step_inv)

lemma tag_names: "IsLockedByThread t tag \<longleftrightarrow> (\<exists>b. tag = Some (t, b))"
  by (auto simp: IsLockedByThread_def split: option.splits)

lemma urgent_owner:
  assumes "kernel_ok T key k" "waits_at key k u = Some v"
  shows "GetLockOwner u k = Some v" "v \<in> T" "prio k v \<le> prio k u"
proof -
  have i: "thread_inv T (acting 0 k)" using assms(1) by (simp add: kernel_ok_def)
  have w: "waits_at key (acting 0 k) u = Some v" using assms(2) by simp
  then show o: "GetLockOwner u k = Some v" and T: "v \<in> T" using waiter_facts(3,5) [OF i w] by simp_all
  have s: "settled T (acting 0 k)" and f: "finite (waiters_of (acting 0 k) v)"
    using i finite_waiters by (auto simp: thread_inv_def pi_inv_def threads_ok_def)
  have "u \<in> waiters_of (acting 0 k) v" using o by (simp add: waiters_of_def)
  then have "inherited (acting 0 k) v \<le> prio (acting 0 k) u" unfolding inherited_def using f by simp
  then show "prio k v \<le> prio k u" using s T by (simp add: settled_def)
qed

section \<open>The properties\<close>

text \<open>
  C38.  As long as no wait for the lock is cancelled: however the steps of \<open>Lock\<close> and \<open>Unlock\<close> of the threads interleave
  with each other and with kernel code that keeps threads, locks and run queues in order and leaves the waits
  for this lock and the states of the threads that sleep for it alone (\<open>elsewhere\<close>; suspending and resuming
  threads is such code, \<open>RequestTerminate\<close> of a thread that sleeps is not, and breaks the property, as the last
  theorem of this section shows), the word of the lock names the thread that has the lock:
  at most one thread is past \<open>Lock\<close>, it is the one \<open>IsLockedByCurrentThread\<close> confirms, and the lock is free
  exactly if there is none.
\<close>

theorem light_lock_mutual_exclusion:
  assumes "kernel_ok T key k" "\<forall>u. waits_at key k u = None"
    "(light_step T key other)\<^sup>*\<^sup>* \<lparr>m_tag = None, point = (\<lambda>_. Outside), the_kernel = k\<rparr> s"
  shows "(\<forall>t. point s t = Inside \<or> point s t = Unlocking \<longrightarrow> IsLockedByThread t (m_tag s) \<and> (\<forall>u. point s u = Inside \<or> point s u = Unlocking \<longrightarrow> u = t)) \<and>
    (\<forall>t. has_lock s t \<longleftrightarrow> IsLockedByThread t (m_tag s)) \<and> (IsLocked (m_tag s) \<longleftrightarrow> (\<exists>t. has_lock s t))"
proof -
  note i = light_invD [OF light_reachable_inv [OF assms]]
  have h: "has_lock s t \<longleftrightarrow> IsLockedByThread t (m_tag s)" for t using i(3) by (simp add: tag_names)
  have p: "has_lock s t" if "point s t = Inside \<or> point s t = Unlocking" for t using that by (auto simp: has_lock_def)
  moreover have "u = t" if "has_lock s t" "has_lock s u" for t u using that h by (auto simp: tag_names)
  moreover have "IsLocked (m_tag s) \<longleftrightarrow> (\<exists>t. has_lock s t)" using h by (auto simp: tag_names IsLocked_def)
  ultimately show ?thesis using h by blast
qed

text \<open>
  C39.  No thread sleeps forgotten, under the same condition: while one sleeps, another thread has the lock, inherits its priority and
  cannot leave \<open>Unlock\<close> by the fast path; the slow path returns, gives the lock to the most urgent of the
  threads that sleep, which can run again, and notes in the word whether more of them are left.
\<close>

theorem light_lock_no_lost_wakeup:
  assumes "kernel_ok T key k" "\<forall>u. waits_at key k u = None"
    "(light_step T key other)\<^sup>*\<^sup>* \<lparr>m_tag = None, point = (\<lambda>_. Outside), the_kernel = k\<rparr> s" "sleeps s u"
  shows "\<exists>v. has_lock s v \<and> v \<noteq> u \<and> GetLockOwner u (the_kernel s) = Some v \<and> m_priority (threads (the_kernel s) v) \<le> m_priority (threads (the_kernel s) u) \<and>
    Unlock_exchange v (m_tag s) = (False, m_tag s) \<and>
    (point s v = Unlocking \<longrightarrow> (\<exists>n more k'. UnlockSlowPath other key v (acting v (the_kernel s)) = Some (Some (n, more), k') \<and> sleeps s n \<and> running n k' \<and>
       (\<forall>w. sleeps s w \<longrightarrow> m_priority (threads (the_kernel s) n) \<le> m_priority (threads (the_kernel s) w)) \<and> (more \<longleftrightarrow> (\<exists>w. w \<noteq> n \<and> sleeps s w))))"
proof -
  note I = light_reachable_inv [OF assms(1-3)]
  note i = light_invD [OF I]
  obtain v where v: "m_tag s = Some (v, True)" "waits_at key (the_kernel s) u = Some v" using i(4) [OF assms(4)] by blast
  note o = urgent_owner [OF i(1) v(2)]
  have h: "has_lock s v" using i(3) v(1) by blast
  then have "v \<noteq> u" using assms(4) by (auto simp: has_lock_def sleeps_def)
  moreover have "\<exists>n more k'. UnlockSlowPath other key v (acting v (the_kernel s)) = Some (Some (n, more), k') \<and> sleeps s n \<and> running n k' \<and>
    (\<forall>w. sleeps s w \<longrightarrow> m_priority (threads (the_kernel s) n) \<le> m_priority (threads (the_kernel s) w)) \<and> (more \<longleftrightarrow> (\<exists>w. w \<noteq> n \<and> sleeps s w))"
    if "point s v = Unlocking"
    by (rule light_unlock_slow_step [OF I o(2) that refl, of other]) (use assms(4) in auto)
  ultimately show ?thesis using h o v(1) by (auto simp: Unlock_exchange_def)
qed

text \<open>
  C40.  \<open>RequestTerminate\<close> cancels the wait of a thread.  A thread that sleeps for the lock then leaves \<open>LockSlowPath\<close>,
  which returns true whatever the result of the wait, so that it is past \<open>Lock\<close> at the same time as the
  thread that has the lock.
\<close>

theorem cancelled_wait_breaks_exclusion:
  assumes "kernel_ok T key k" "\<forall>u. waits_at key k u = None"
    "(light_step T key other)\<^sup>*\<^sup>* \<lparr>m_tag = None, point = (\<lambda>_. Outside), the_kernel = k\<rparr> s" "sleeps s u"
  shows "\<exists>v k' s'. has_lock s v \<and> v \<noteq> u \<and> CancelWait other_cancel u ResultTerminationRequested (acting t (the_kernel s)) = Some k' \<and>
    light_step T key other (s\<lparr>the_kernel := k'\<rparr>) s' \<and> point s' u = Inside \<and> has_lock s' v \<and> point s' v = point s v \<and> \<not> IsLockedByThread u (m_tag s')"
proof -
  note i = light_invD [OF light_reachable_inv [OF assms(1-3)]]
  obtain v where v: "m_tag s = Some (v, True)" "waits_at key (the_kernel s) u = Some v" using i(4) [OF assms(4)] by blast
  have p: "point s u = Asleep" "states (the_kernel s) u = Waiting" using assms(4) by (simp_all add: sleeps_def)
  have h: "has_lock s v" using i(3) v(1) by blast
  then have n: "v \<noteq> u" using p by (auto simp: has_lock_def)
  obtain k' where k': "CancelWait other_cancel u ResultTerminationRequested (acting t (the_kernel s)) = Some k'" "running u k'"
    and a: "acts T key (acting t (the_kernel s)) ((waits_at key (acting t (the_kernel s)))(u := None)) ((states (acting t (the_kernel s)))(u := Runnable))
      ((queues (acting t (the_kernel s)))(u := None)) k'"
    by (rule CancelWait_acts [OF kernel_okD(1) [OF i(1)], where key = key and u = u and v = v]) (use v p i(5) [OF assms(4)] in simp_all)
  let ?s = "s\<lparr>the_kernel := k'\<rparr>"
  have "light_step T key other ?s (?s\<lparr>point := (point ?s)(u := Inside)\<rparr>)" by (rule light_step.wake) (use i(2) [of u] p k'(2) in simp_all)
  moreover have "has_lock (?s\<lparr>point := (point ?s)(u := Inside)\<rparr>) v" using h n actsD(4) [OF a] by (auto simp: has_lock_def)
  moreover have "\<not> IsLockedByThread u (m_tag s)" using v(1) n by (simp add: IsLockedByThread_def)
  ultimately show ?thesis using h n k'(1) by (intro exI [of _ v] exI [of _ k'] exI [of _ "?s\<lparr>point := (point ?s)(u := Inside)\<rparr>"]) simp
qed


section \<open>A concrete lock\<close>

lemma example_kernel_ok: "kernel_ok {0, 1, 2} key example_tkern" "waits_at key example_tkern u = None" "running u example_tkern"
proof -
  show "kernel_ok {0, 1, 2} key example_tkern"
    using acting_inv [OF example_thread_inv, of 0] by (simp add: kernel_ok_def one_lock_def example_fields) (simp add: example_tkern_def example_lock_thread_def)
  show "waits_at key example_tkern u = None" by (simp add: waits_at_def example_fields)
  show "running u example_tkern" by (simp add: running_def example_fields) (simp add: example_tkern_def example_lock_thread_def GetState_def Initialized_def Waiting_def)
qed

text \<open>Thread 0 has the lock and is about to release it, thread 1 sleeps for it.\<close>

lemma example_asleep:
  obtains s where "(light_step {0, 1, 2} key other)\<^sup>*\<^sup>* \<lparr>m_tag = None, point = (\<lambda>_. Outside), the_kernel = example_tkern\<rparr> s"
    "m_tag s = Some (0, True)" "point s 0 = Unlocking" "sleeps s 1" "\<forall>u. u \<noteq> 1 \<longrightarrow> \<not> sleeps s u"
proof -
  let ?R = "light_step {0, 1, 2} key other"
  let ?s0 = "\<lparr>m_tag = None, point = (\<lambda>_. Outside), the_kernel = example_tkern\<rparr>"
  let ?s1 = "\<lparr>m_tag = Some (0, False), point = (\<lambda>_. Outside)(0 := Inside), the_kernel = example_tkern\<rparr>"
  let ?s2 = "\<lparr>m_tag = Some (0, True), point = (\<lambda>_. Outside)(0 := Inside, 1 := Locking 0), the_kernel = example_tkern\<rparr>"
  let ?s3 = "\<lparr>m_tag = Some (0, True), point = (\<lambda>_. Outside)(0 := Inside, 1 := Locking 0, 0 := Unlocking), the_kernel = example_tkern\<rparr>"
  have r: "running t example_tkern" for t by (rule example_kernel_ok)
  have m: "(0 :: nat) \<in> {0, 1, 2}" "(1 :: nat) \<in> {0, 1, 2}" by simp_all
  have "?R ?s0 ?s1" using light_step.lock [of 0 "{0, 1, 2}" ?s0 None "Some (0, False)" key other] r by (simp add: Lock_exchange_def)
  moreover have "?R ?s1 ?s2" using light_step.lock [of 1 "{0, 1, 2}" ?s1 "Some (0, False)" "Some (0, True)" key other] r by (simp add: Lock_exchange_def)
  moreover have "?R ?s2 ?s3" using light_step.unlock [of 0 "{0, 1, 2}" ?s2 False "Some (0, True)" key other] r by (simp add: Unlock_exchange_def)
  ultimately have s3: "?R\<^sup>*\<^sup>* ?s0 ?s3" by (meson rtranclp.rtrancl_into_rtrancl rtranclp.rtrancl_refl)
  have i: "thread_inv {0, 1, 2} (acting 1 example_tkern)" using acting_inv [OF example_thread_inv] .
  obtain k where k: "LockSlowPath key 0 1 (Some (0, True)) (acting 1 example_tkern) = Some (True, k)"
    "acts {0, 1, 2} key (acting 1 example_tkern) ((waits_at key (acting 1 example_tkern))(1 := Some 0)) ((states (acting 1 example_tkern))(1 := Waiting))
      ((queues (acting 1 example_tkern))(1 := Some ThreadQueueImplForKLightLock)) k"
    using LockSlowPath_acts [OF i m, of key] r by auto
  let ?s4 = "\<lparr>m_tag = Some (0, True), point = (\<lambda>_. Outside)(0 := Inside, 1 := Locking 0, 0 := Unlocking, 1 := Asleep), the_kernel = k\<rparr>"
  have "?R ?s3 ?s4" using light_step.lock_slow [of 1 "{0, 1, 2}" ?s3 0 key True k other] r k(1) by simp
  then have "?R\<^sup>*\<^sup>* ?s0 ?s4" using s3 by (rule rtranclp.rtrancl_into_rtrancl [rotated])
  moreover have "sleeps ?s4 u \<longleftrightarrow> u = 1" for u using actsD(4) [OF k(2)] by (auto simp: sleeps_def)
  ultimately show thesis using that [of ?s4] by simp
qed

theorem light_lock_mutual_exclusion_witness:
  "\<exists>s. (light_step {0, 1, 2} 0x1000 (\<lambda>_ _ _. Some))\<^sup>*\<^sup>* \<lparr>m_tag = None, point = (\<lambda>_. Outside), the_kernel = example_tkern\<rparr> s \<and>
     point s 0 = Unlocking \<and> IsLockedByThread 0 (m_tag s) \<and> point s 1 \<noteq> Inside \<and> \<not> has_lock s 1"
proof -
  obtain s where s: "(light_step {0, 1, 2} 0x1000 (\<lambda>_ _ _. Some))\<^sup>*\<^sup>* \<lparr>m_tag = None, point = (\<lambda>_. Outside), the_kernel = example_tkern\<rparr> s"
    "m_tag s = Some (0, True)" "point s 0 = Unlocking" by (rule example_asleep)
  have "\<forall>u. waits_at 0x1000 example_tkern u = None" using example_kernel_ok(2) by blast
  from light_lock_mutual_exclusion [OF example_kernel_ok(1) this s(1)]
  show ?thesis using s by (intro exI [of _ s]) (auto simp: IsLockedByThread_def)
qed

theorem light_lock_no_lost_wakeup_witness:
  "\<exists>s k'. (light_step {0, 1, 2} 0x1000 (\<lambda>_ _ _. Some))\<^sup>*\<^sup>* \<lparr>m_tag = None, point = (\<lambda>_. Outside), the_kernel = example_tkern\<rparr> s \<and> sleeps s 1 \<and>
     UnlockSlowPath (\<lambda>_ _ _. Some) 0x1000 0 (acting 0 (the_kernel s)) = Some (Some (1, False), k') \<and> running 1 k'"
proof -
  obtain s where s: "(light_step {0, 1, 2} 0x1000 (\<lambda>_ _ _. Some))\<^sup>*\<^sup>* \<lparr>m_tag = None, point = (\<lambda>_. Outside), the_kernel = example_tkern\<rparr> s"
    "m_tag s = Some (0, True)" "point s 0 = Unlocking" "sleeps s 1" and only: "\<forall>u. u \<noteq> 1 \<longrightarrow> \<not> sleeps s u" by (rule example_asleep)
  have "\<forall>u. waits_at 0x1000 example_tkern u = None" using example_kernel_ok(2) by blast
  from light_lock_no_lost_wakeup [OF example_kernel_ok(1) this s(1,4)]
  obtain v where v: "Unlock_exchange v (m_tag s) = (False, m_tag s)" "has_lock s v" "v \<noteq> 1" and
    u: "point s v = Unlocking \<longrightarrow> (\<exists>n more k'. UnlockSlowPath (\<lambda>_ _ _. Some) 0x1000 v (acting v (the_kernel s)) = Some (Some (n, more), k') \<and> sleeps s n \<and> running n k' \<and>
       (more \<longleftrightarrow> (\<exists>w. w \<noteq> n \<and> sleeps s w)))" by auto
  have "\<forall>u. waits_at 0x1000 example_tkern u = None" using example_kernel_ok(2) by blast
  note i = light_invD(3) [OF light_reachable_inv [OF example_kernel_ok(1) this s(1)]]
  have "v = 0" using i [of v] v(2) s(2) by simp
  then obtain n more k' where n: "UnlockSlowPath (\<lambda>_ _ _. Some) 0x1000 0 (acting 0 (the_kernel s)) = Some (Some (n, more), k')" "sleeps s n" "running n k'"
    "more \<longleftrightarrow> (\<exists>w. w \<noteq> n \<and> sleeps s w)" using u s(3) by auto
  have e: "n = 1" using n(2) only by blast
  then have "\<not> more" using n(4) only by blast
  then show ?thesis using n(1,3) e s(1,4) by auto
qed

theorem cancelled_wait_breaks_exclusion_witness:
  "\<exists>s k' s'. (light_step {0, 1, 2} 0x1000 (\<lambda>_ _ _. Some))\<^sup>*\<^sup>* \<lparr>m_tag = None, point = (\<lambda>_. Outside), the_kernel = example_tkern\<rparr> s \<and>
     CancelWait (\<lambda>_ _ _. Some) 1 ResultTerminationRequested (acting 2 (the_kernel s)) = Some k' \<and>
     light_step {0, 1, 2} 0x1000 (\<lambda>_ _ _. Some) (s\<lparr>the_kernel := k'\<rparr>) s' \<and> point s' 1 = Inside \<and> (\<exists>v. v \<noteq> 1 \<and> has_lock s' v)"
proof -
  obtain s where s: "(light_step {0, 1, 2} 0x1000 (\<lambda>_ _ _. Some))\<^sup>*\<^sup>* \<lparr>m_tag = None, point = (\<lambda>_. Outside), the_kernel = example_tkern\<rparr> s"
    "sleeps s 1" by (rule example_asleep)
  have "\<forall>u. waits_at 0x1000 example_tkern u = None" using example_kernel_ok(2) by blast
  from cancelled_wait_breaks_exclusion [OF example_kernel_ok(1) this s, of "\<lambda>_ _ _. Some" 2] show ?thesis using s(1) by blast
qed

end
