(* ===== verification/CheatVm.thy ===== *)
theory CheatVm
  imports Prelude
begin

text \<open>
  \<^verbatim>\<open>src/core/memory/dmnt_cheat_vm.h\<close> and \<open>.cpp\<close>: the virtual machine that runs cheat
  codes on the memory of the guest.  Instructions are decoded from 32-bit words into
  \<open>opcode_data\<close>; the machine has sixteen 64-bit registers, sixteen saved values, 256 static
  registers and a loop top per register.  Enumerations are the 32-bit words behind them, since the
  decoder casts any nibble to them.

  The calls of the host are the record \<open>callbacks\<close>, over any type \<open>'w\<close> of host states.
  \<open>None\<close> stands for an undefined operation (an array index out of range, a shift by 64 or more)
  and for the fatal assertion in \<open>SkipConditionalBlock\<close>.  Logging with \<open>CommandLog\<close> and
  \<open>LogOpcode\<close> changes no state of the machine and is left out.
\<close>

section \<open>Enumerations and instructions\<close>

definition Op_StoreStatic :: u32 where "Op_StoreStatic = 0"
definition Op_BeginConditionalBlock :: u32 where "Op_BeginConditionalBlock = 1"
definition Op_EndConditionalBlock :: u32 where "Op_EndConditionalBlock = 2"
definition Op_ControlLoop :: u32 where "Op_ControlLoop = 3"
definition Op_LoadRegisterStatic :: u32 where "Op_LoadRegisterStatic = 4"
definition Op_LoadRegisterMemory :: u32 where "Op_LoadRegisterMemory = 5"
definition Op_StoreStaticToAddress :: u32 where "Op_StoreStaticToAddress = 6"
definition Op_PerformArithmeticStatic :: u32 where "Op_PerformArithmeticStatic = 7"
definition Op_BeginKeypressConditionalBlock :: u32 where "Op_BeginKeypressConditionalBlock = 8"
definition Op_PerformArithmeticRegister :: u32 where "Op_PerformArithmeticRegister = 9"
definition Op_StoreRegisterToAddress :: u32 where "Op_StoreRegisterToAddress = 10"
definition Op_Reserved11 :: u32 where "Op_Reserved11 = 11"
definition Op_ExtendedWidth :: u32 where "Op_ExtendedWidth = 12"
definition Op_BeginRegisterConditionalBlock :: u32 where "Op_BeginRegisterConditionalBlock = 0xC0"
definition Op_SaveRestoreRegister :: u32 where "Op_SaveRestoreRegister = 0xC1"
definition Op_SaveRestoreRegisterMask :: u32 where "Op_SaveRestoreRegisterMask = 0xC2"
definition Op_ReadWriteStaticRegister :: u32 where "Op_ReadWriteStaticRegister = 0xC3"
definition Op_DoubleExtendedWidth :: u32 where "Op_DoubleExtendedWidth = 0xF0"
definition Op_PauseProcess :: u32 where "Op_PauseProcess = 0xFF0"
definition Op_ResumeProcess :: u32 where "Op_ResumeProcess = 0xFF1"
definition Op_DebugLog :: u32 where "Op_DebugLog = 0xFFF"

definition Mem_MainNso :: u32 where "Mem_MainNso = 0"
definition Mem_Heap :: u32 where "Mem_Heap = 1"
definition Mem_Alias :: u32 where "Mem_Alias = 2"
definition Mem_Aslr :: u32 where "Mem_Aslr = 3"

definition Cond_GT :: u32 where "Cond_GT = 1"
definition Cond_GE :: u32 where "Cond_GE = 2"
definition Cond_LT :: u32 where "Cond_LT = 3"
definition Cond_LE :: u32 where "Cond_LE = 4"
definition Cond_EQ :: u32 where "Cond_EQ = 5"
definition Cond_NE :: u32 where "Cond_NE = 6"

definition Math_Addition :: u32 where "Math_Addition = 0"
definition Math_Subtraction :: u32 where "Math_Subtraction = 1"
definition Math_Multiplication :: u32 where "Math_Multiplication = 2"
definition Math_LeftShift :: u32 where "Math_LeftShift = 3"
definition Math_RightShift :: u32 where "Math_RightShift = 4"
definition Math_LogicalAnd :: u32 where "Math_LogicalAnd = 5"
definition Math_LogicalOr :: u32 where "Math_LogicalOr = 6"
definition Math_LogicalNot :: u32 where "Math_LogicalNot = 7"
definition Math_LogicalXor :: u32 where "Math_LogicalXor = 8"
definition Math_None :: u32 where "Math_None = 9"

definition Ofs_None :: u32 where "Ofs_None = 0"
definition Ofs_Reg :: u32 where "Ofs_Reg = 1"
definition Ofs_Imm :: u32 where "Ofs_Imm = 2"
definition Ofs_MemReg :: u32 where "Ofs_MemReg = 3"
definition Ofs_MemImm :: u32 where "Ofs_MemImm = 4"
definition Ofs_MemImmReg :: u32 where "Ofs_MemImmReg = 5"

definition Cmp_MemoryRelAddr :: u32 where "Cmp_MemoryRelAddr = 0"
definition Cmp_MemoryOfsReg :: u32 where "Cmp_MemoryOfsReg = 1"
definition Cmp_RegisterRelAddr :: u32 where "Cmp_RegisterRelAddr = 2"
definition Cmp_RegisterOfsReg :: u32 where "Cmp_RegisterOfsReg = 3"
definition Cmp_StaticValue :: u32 where "Cmp_StaticValue = 4"
definition Cmp_OtherRegister :: u32 where "Cmp_OtherRegister = 5"

definition Sr_Restore :: u32 where "Sr_Restore = 0"
definition Sr_Save :: u32 where "Sr_Save = 1"
definition Sr_ClearSaved :: u32 where "Sr_ClearSaved = 2"
definition Sr_ClearRegs :: u32 where "Sr_ClearRegs = 3"

definition Log_MemoryRelAddr :: u32 where "Log_MemoryRelAddr = 0"
definition Log_MemoryOfsReg :: u32 where "Log_MemoryOfsReg = 1"
definition Log_RegisterRelAddr :: u32 where "Log_RegisterRelAddr = 2"
definition Log_RegisterOfsReg :: u32 where "Log_RegisterOfsReg = 3"
definition Log_RegisterValue :: u32 where "Log_RegisterValue = 4"

lemmas vm_enum_defs =
  Op_StoreStatic_def Op_BeginConditionalBlock_def Op_EndConditionalBlock_def Op_ControlLoop_def
  Op_LoadRegisterStatic_def Op_LoadRegisterMemory_def Op_StoreStaticToAddress_def
  Op_PerformArithmeticStatic_def Op_BeginKeypressConditionalBlock_def
  Op_PerformArithmeticRegister_def Op_StoreRegisterToAddress_def Op_Reserved11_def
  Op_ExtendedWidth_def Op_BeginRegisterConditionalBlock_def Op_SaveRestoreRegister_def
  Op_SaveRestoreRegisterMask_def Op_ReadWriteStaticRegister_def Op_DoubleExtendedWidth_def
  Op_PauseProcess_def Op_ResumeProcess_def Op_DebugLog_def Mem_MainNso_def Mem_Heap_def
  Mem_Alias_def Mem_Aslr_def Cond_GT_def Cond_GE_def Cond_LT_def Cond_LE_def Cond_EQ_def
  Cond_NE_def Math_Addition_def Math_Subtraction_def Math_Multiplication_def Math_LeftShift_def
  Math_RightShift_def Math_LogicalAnd_def Math_LogicalOr_def Math_LogicalNot_def
  Math_LogicalXor_def Math_None_def Ofs_None_def Ofs_Reg_def Ofs_Imm_def Ofs_MemReg_def
  Ofs_MemImm_def Ofs_MemImmReg_def Cmp_MemoryRelAddr_def Cmp_MemoryOfsReg_def
  Cmp_RegisterRelAddr_def Cmp_RegisterOfsReg_def Cmp_StaticValue_def Cmp_OtherRegister_def
  Sr_Restore_def Sr_Save_def Sr_ClearSaved_def Sr_ClearRegs_def Log_MemoryRelAddr_def
  Log_MemoryOfsReg_def Log_RegisterRelAddr_def Log_RegisterOfsReg_def Log_RegisterValue_def

text \<open>
  The structs of the header, one constructor each, with their fields in the order of the header; a
  \<open>VmInt\<close> is the 64-bit value of the member that was written.
\<close>

datatype opcode_data =
    StoreStatic u32 u32 u32 u64 u64
      \<comment> \<open>\<open>bit_width mem_type offset_register rel_address value\<close>\<close>
  | BeginConditional u32 u32 u32 u64 u64
      \<comment> \<open>\<open>bit_width mem_type cond_type rel_address value\<close>\<close>
  | EndConditional bool
      \<comment> \<open>\<open>is_else\<close>\<close>
  | ControlLoop bool u32 u32
      \<comment> \<open>\<open>start_loop reg_index num_iters\<close>\<close>
  | LoadRegisterStatic u32 u64
      \<comment> \<open>\<open>reg_index value\<close>\<close>
  | LoadRegisterMemory u32 u32 u32 bool u64
      \<comment> \<open>\<open>bit_width mem_type reg_index load_from_reg rel_address\<close>\<close>
  | StoreStaticToAddress u32 u32 bool bool u32 u64
      \<comment> \<open>\<open>bit_width reg_index increment_reg add_offset_reg offset_reg_index value\<close>\<close>
  | PerformArithmeticStatic u32 u32 u32 u32
      \<comment> \<open>\<open>bit_width reg_index math_type value\<close>\<close>
  | BeginKeypressConditional u32
      \<comment> \<open>\<open>key_mask\<close>\<close>
  | PerformArithmeticRegister u32 u32 u32 u32 u32 bool u64
      \<comment> \<open>\<open>bit_width math_type dst_reg_index src_reg_1_index src_reg_2_index has_immediate value\<close>\<close>
  | StoreRegisterToAddress u32 u32 u32 bool u32 u32 u32 u64
      \<comment> \<open>\<open>bit_width str_reg_index addr_reg_index increment_reg ofs_type mem_type ofs_reg_index
        rel_address\<close>\<close>
  | BeginRegisterConditional u32 u32 u32 u32 u32 u32 u32 u32 u64 u64
      \<comment> \<open>\<open>bit_width cond_type val_reg_index comp_type mem_type addr_reg_index other_reg_index
        ofs_reg_index rel_address value\<close>\<close>
  | SaveRestoreRegister u32 u32 u32
      \<comment> \<open>\<open>dst_index src_index op_type\<close>\<close>
  | SaveRestoreRegisterMask u32 "bool list"
      \<comment> \<open>\<open>op_type should_operate\<close>\<close>
  | ReadWriteStaticRegister u32 u32
      \<comment> \<open>\<open>static_idx idx\<close>\<close>
  | PauseProcess
  | ResumeProcess
  | DebugLog u32 u32 u32 u32 u32 u32 u32 u64
      \<comment> \<open>\<open>bit_width log_id val_type mem_type addr_reg_index val_reg_index ofs_reg_index
        rel_address\<close>\<close>
  | UnrecognizedInstruction u32

record cheat_opcode =
  begin_conditional_block :: bool
  opcode :: opcode_data

section \<open>State\<close>

definition MaximumProgramOpcodeCount :: nat where "MaximumProgramOpcodeCount = 0x400"
definition NumRegisters :: nat where "NumRegisters = 0x10"
definition NumReadableStaticRegisters :: nat where "NumReadableStaticRegisters = 0x80"
definition NumWritableStaticRegisters :: nat where "NumWritableStaticRegisters = 0x80"
definition NumStaticRegisters :: nat where
  "NumStaticRegisters = NumReadableStaticRegisters + NumWritableStaticRegisters"

text \<open>
  The machine.  The depth, a \<open>size_t\<close> in the code, is a natural number: it grows by at most one per turn and would wrap
  around only after two to the 64 of them.
\<close>

record cheat_vm =
  num_opcodes :: nat
  instruction_ptr :: nat
  condition_depth :: nat
  decode_success :: bool
  vm_program :: "u32 list"
  registers :: "u64 list"
  saved_values :: "u64 list"
  static_registers :: "u64 list"
  loop_tops :: "nat list"

definition cheat_vm_default :: cheat_vm where
  "cheat_vm_default = \<lparr>num_opcodes = 0, instruction_ptr = 0, condition_depth = 0, decode_success = False,
     vm_program = replicate MaximumProgramOpcodeCount 0, registers = replicate NumRegisters 0,
     saved_values = replicate NumRegisters 0, static_registers = replicate NumStaticRegisters 0,
     loop_tops = replicate NumRegisters 0\<rparr>"

record memory_region_extents =
  ext_base :: u64
  ext_size :: u64

record cheat_process_metadata =
  process_id :: u64
  title_id :: u64
  main_nso_extents :: memory_region_extents
  heap_extents :: memory_region_extents
  alias_extents :: memory_region_extents
  aslr_extents :: memory_region_extents
  main_nso_build_id :: "u8 list"

record cheat_definition =
  readable_name :: string
  def_num_opcodes :: nat
  def_opcodes :: "u32 list"

record cheat_entry =
  enabled :: bool
  cheat_id :: nat
  cheat_def :: cheat_definition

text \<open>A read returns the bytes that it stores at the given buffer, lowest address first.\<close>

record 'w callbacks =
  MemoryReadUnsafe :: "u64 \<Rightarrow> nat \<Rightarrow> 'w \<Rightarrow> u8 list \<times> 'w"
  MemoryWriteUnsafe :: "u64 \<Rightarrow> u8 list \<Rightarrow> 'w \<Rightarrow> 'w"
  HidKeysDown :: "'w \<Rightarrow> u64 \<times> 'w"
  CbPauseProcess :: "'w \<Rightarrow> 'w"
  CbResumeProcess :: "'w \<Rightarrow> 'w"
  CbDebugLog :: "u8 \<Rightarrow> u64 \<Rightarrow> 'w \<Rightarrow> 'w"

section \<open>Decoding\<close>

text \<open>
  A decoder step takes the machine and the flag \<open>valid\<close>, and returns what it read with both.
\<close>

type_synonym 'a dec = "cheat_vm \<times> bool \<Rightarrow> ('a \<times> cheat_vm \<times> bool) option"

definition GetNextDword :: "u32 dec" where
  "GetNextDword = (\<lambda>(vm, valid).
     if instruction_ptr vm \<ge> num_opcodes vm then Some (0, vm, False)
     else do {
       w \<leftarrow> arr_get (vm_program vm) (instruction_ptr vm);
       Some (w, vm\<lparr>instruction_ptr := instruction_ptr vm + 1\<rparr>, valid)
     })"

definition GetNextVmInt :: "u32 \<Rightarrow> u64 dec" where
  "GetNextVmInt bit_width s = do {
     (first_dword, s1) \<leftarrow> GetNextDword s;
     if bit_width = 1 then Some (ucast (ucast first_dword :: u8), s1)
     else if bit_width = 2 then Some (ucast (ucast first_dword :: u16), s1)
     else if bit_width = 4 then Some (ucast first_dword, s1)
     else if bit_width = 8 then do {
       (second_dword, s2) \<leftarrow> GetNextDword s1;
       Some (push_bit 32 (ucast first_dword) OR ucast second_dword, s2)
     }
     else Some (0, s1)
   }"

text \<open>Two consecutive words as one 64-bit value, read from left to right.\<close>

definition GetNextQword :: "u64 dec" where
  "GetNextQword s = do {
     (first_dword, s1) \<leftarrow> GetNextDword s;
     (second_dword, s2) \<leftarrow> GetNextDword s1;
     Some (push_bit 32 (ucast first_dword) OR ucast second_dword, s2)
   }"

definition nybble :: "nat \<Rightarrow> u32 \<Rightarrow> u32" where
  "nybble n w = drop_bit n w AND 0xF"

definition opcode_type_of :: "u32 \<Rightarrow> u32" where
  "opcode_type_of first_dword =
     (let t0 = nybble 28 first_dword;
          t1 = (if t0 \<ge> Op_ExtendedWidth then push_bit 4 t0 OR nybble 24 first_dword else t0)
      in if t1 \<ge> Op_DoubleExtendedWidth then push_bit 4 t1 OR nybble 20 first_dword else t1)"

definition begins_conditional :: "u32 \<Rightarrow> bool" where
  "begins_conditional opcode_type \<longleftrightarrow> opcode_type = Op_BeginConditionalBlock \<or>
     opcode_type = Op_BeginKeypressConditionalBlock \<or> opcode_type = Op_BeginRegisterConditionalBlock"

definition decode_StoreStatic :: "u32 \<Rightarrow> opcode_data dec" where
  "decode_StoreStatic first_dword s = do {
     (second_dword, s1) \<leftarrow> GetNextDword s;
     let bit_width = nybble 24 first_dword;
     (v, s2) \<leftarrow> GetNextVmInt bit_width s1;
     Some (StoreStatic bit_width (nybble 20 first_dword) (nybble 16 first_dword)
             (push_bit 32 (ucast (first_dword AND 0xFF)) OR ucast second_dword) v, s2)
   }"

definition decode_BeginConditional :: "u32 \<Rightarrow> opcode_data dec" where
  "decode_BeginConditional first_dword s = do {
     (second_dword, s1) \<leftarrow> GetNextDword s;
     let bit_width = nybble 24 first_dword;
     (v, s2) \<leftarrow> GetNextVmInt bit_width s1;
     Some (BeginConditional bit_width (nybble 20 first_dword) (nybble 16 first_dword)
             (push_bit 32 (ucast (first_dword AND 0xFF)) OR ucast second_dword) v, s2)
   }"

definition decode_ControlLoop :: "u32 \<Rightarrow> opcode_data dec" where
  "decode_ControlLoop first_dword s =
     (let start_loop = (nybble 24 first_dword = 0); reg_index = nybble 20 first_dword in
      if start_loop then do {
        (num_iters, s1) \<leftarrow> GetNextDword s;
        Some (ControlLoop start_loop reg_index num_iters, s1)
      }
      else Some (ControlLoop start_loop reg_index 0, s))"

definition decode_LoadRegisterStatic :: "u32 \<Rightarrow> opcode_data dec" where
  "decode_LoadRegisterStatic first_dword s = do {
     (v, s1) \<leftarrow> GetNextQword s;
     Some (LoadRegisterStatic (nybble 16 first_dword) v, s1)
   }"

definition decode_LoadRegisterMemory :: "u32 \<Rightarrow> opcode_data dec" where
  "decode_LoadRegisterMemory first_dword s = do {
     (second_dword, s1) \<leftarrow> GetNextDword s;
     Some (LoadRegisterMemory (nybble 24 first_dword) (nybble 20 first_dword) (nybble 16 first_dword)
             (nybble 12 first_dword \<noteq> 0)
             (push_bit 32 (ucast (first_dword AND 0xFF)) OR ucast second_dword), s1)
   }"

definition decode_StoreStaticToAddress :: "u32 \<Rightarrow> opcode_data dec" where
  "decode_StoreStaticToAddress first_dword s = do {
     (v, s1) \<leftarrow> GetNextQword s;
     Some (StoreStaticToAddress (nybble 24 first_dword) (nybble 16 first_dword)
             (nybble 12 first_dword \<noteq> 0) (nybble 8 first_dword \<noteq> 0) (nybble 4 first_dword) v, s1)
   }"

definition decode_PerformArithmeticStatic :: "u32 \<Rightarrow> opcode_data dec" where
  "decode_PerformArithmeticStatic first_dword s = do {
     (v, s1) \<leftarrow> GetNextDword s;
     Some (PerformArithmeticStatic (nybble 24 first_dword) (nybble 16 first_dword)
             (nybble 12 first_dword) v, s1)
   }"

definition decode_PerformArithmeticRegister :: "u32 \<Rightarrow> opcode_data dec" where
  "decode_PerformArithmeticRegister first_dword s =
     (let bit_width = nybble 24 first_dword; math_type = nybble 20 first_dword;
          dst = nybble 16 first_dword; src1 = nybble 12 first_dword in
      if nybble 8 first_dword \<noteq> 0 then do {
        (v, s1) \<leftarrow> GetNextVmInt bit_width s;
        Some (PerformArithmeticRegister bit_width math_type dst src1 0 True v, s1)
      }
      else Some (PerformArithmeticRegister bit_width math_type dst src1 (nybble 4 first_dword) False 0, s))"

text \<open>The relative address of the instructions with a 36-bit one.\<close>

definition rel_address36 :: "u32 \<Rightarrow> u64 dec" where
  "rel_address36 first_dword s = do {
     (second_dword, s1) \<leftarrow> GetNextDword s;
     Some (push_bit 32 (ucast (first_dword AND 0xF)) OR ucast second_dword, s1)
   }"

definition decode_StoreRegisterToAddress :: "u32 \<Rightarrow> opcode_data dec" where
  "decode_StoreRegisterToAddress first_dword s =
     (let op = (\<lambda>ofs_type mem_type rel_address.
                  StoreRegisterToAddress (nybble 24 first_dword) (nybble 20 first_dword)
                    (nybble 16 first_dword) (nybble 12 first_dword \<noteq> 0) ofs_type mem_type
                    (nybble 4 first_dword) rel_address);
          ofs_type = nybble 8 first_dword in
      if ofs_type = Ofs_None \<or> ofs_type = Ofs_Reg then Some (op ofs_type Mem_MainNso 0, s)
      else if ofs_type = Ofs_Imm then do {
        (a, s1) \<leftarrow> rel_address36 first_dword s;
        Some (op ofs_type Mem_MainNso a, s1)
      }
      else if ofs_type = Ofs_MemReg then Some (op ofs_type (nybble 4 first_dword) 0, s)
      else if ofs_type = Ofs_MemImm \<or> ofs_type = Ofs_MemImmReg then do {
        (a, s1) \<leftarrow> rel_address36 first_dword s;
        Some (op ofs_type (nybble 4 first_dword) a, s1)
      }
      else Some (op Ofs_None Mem_MainNso 0, s))"

definition decode_BeginRegisterConditional :: "u32 \<Rightarrow> opcode_data dec" where
  "decode_BeginRegisterConditional first_dword s =
     (let bit_width = nybble 20 first_dword; comp_type = nybble 8 first_dword;
          op = (\<lambda>mem_type addr_reg other_reg ofs_reg rel_address v.
                  BeginRegisterConditional bit_width (nybble 16 first_dword) (nybble 12 first_dword)
                    comp_type mem_type addr_reg other_reg ofs_reg rel_address v) in
      if comp_type = Cmp_StaticValue then do {
        (v, s1) \<leftarrow> GetNextVmInt bit_width s;
        Some (op Mem_MainNso 0 0 0 0 v, s1)
      }
      else if comp_type = Cmp_OtherRegister then
        Some (op Mem_MainNso 0 (nybble 4 first_dword) 0 0 0, s)
      else if comp_type = Cmp_MemoryRelAddr then do {
        (a, s1) \<leftarrow> rel_address36 first_dword s;
        Some (op (nybble 4 first_dword) 0 0 0 a 0, s1)
      }
      else if comp_type = Cmp_MemoryOfsReg then
        Some (op (nybble 4 first_dword) 0 0 (first_dword AND 0xF) 0 0, s)
      else if comp_type = Cmp_RegisterRelAddr then do {
        (a, s1) \<leftarrow> rel_address36 first_dword s;
        Some (op Mem_MainNso (nybble 4 first_dword) 0 0 a 0, s1)
      }
      else if comp_type = Cmp_RegisterOfsReg then
        Some (op Mem_MainNso (nybble 4 first_dword) 0 (first_dword AND 0xF) 0 0, s)
      else Some (op Mem_MainNso 0 0 0 0 0, s))"

definition decode_DebugLog :: "u32 \<Rightarrow> opcode_data dec" where
  "decode_DebugLog first_dword s =
     (let val_type = nybble 8 first_dword;
          op = (\<lambda>mem_type addr_reg val_reg ofs_reg rel_address.
                  DebugLog (nybble 16 first_dword) (nybble 12 first_dword) val_type mem_type
                    addr_reg val_reg ofs_reg rel_address) in
      if val_type = Log_RegisterValue then Some (op Mem_MainNso 0 (nybble 4 first_dword) 0 0, s)
      else if val_type = Log_MemoryRelAddr then do {
        (a, s1) \<leftarrow> rel_address36 first_dword s;
        Some (op (nybble 4 first_dword) 0 0 0 a, s1)
      }
      else if val_type = Log_MemoryOfsReg then
        Some (op (nybble 4 first_dword) 0 0 (first_dword AND 0xF) 0, s)
      else if val_type = Log_RegisterRelAddr then do {
        (a, s1) \<leftarrow> rel_address36 first_dword s;
        Some (op Mem_MainNso (nybble 4 first_dword) 0 0 a, s1)
      }
      else if val_type = Log_RegisterOfsReg then
        Some (op Mem_MainNso (nybble 4 first_dword) 0 (first_dword AND 0xF) 0, s)
      else Some (op Mem_MainNso 0 0 0 0, s))"

text \<open>The second \<open>switch\<close> of \<open>DecodeNextOpcode\<close>.\<close>

definition decode_body :: "u32 \<Rightarrow> u32 \<Rightarrow> opcode_data dec" where
  "decode_body opcode_type first_dword s =
     (if opcode_type = Op_StoreStatic then decode_StoreStatic first_dword s
      else if opcode_type = Op_BeginConditionalBlock then decode_BeginConditional first_dword s
      else if opcode_type = Op_EndConditionalBlock then
        Some (EndConditional (nybble 24 first_dword = 1), s)
      else if opcode_type = Op_ControlLoop then decode_ControlLoop first_dword s
      else if opcode_type = Op_LoadRegisterStatic then decode_LoadRegisterStatic first_dword s
      else if opcode_type = Op_LoadRegisterMemory then decode_LoadRegisterMemory first_dword s
      else if opcode_type = Op_StoreStaticToAddress then decode_StoreStaticToAddress first_dword s
      else if opcode_type = Op_PerformArithmeticStatic then decode_PerformArithmeticStatic first_dword s
      else if opcode_type = Op_BeginKeypressConditionalBlock then
        Some (BeginKeypressConditional (first_dword AND 0x0FFFFFFF), s)
      else if opcode_type = Op_PerformArithmeticRegister then
        decode_PerformArithmeticRegister first_dword s
      else if opcode_type = Op_StoreRegisterToAddress then decode_StoreRegisterToAddress first_dword s
      else if opcode_type = Op_BeginRegisterConditionalBlock then
        decode_BeginRegisterConditional first_dword s
      else if opcode_type = Op_SaveRestoreRegister then
        Some (SaveRestoreRegister (nybble 16 first_dword) (nybble 8 first_dword) (nybble 4 first_dword), s)
      else if opcode_type = Op_SaveRestoreRegisterMask then
        Some (SaveRestoreRegisterMask (nybble 20 first_dword)
                (map (\<lambda>i. first_dword AND push_bit i 1 \<noteq> 0) [0..<NumRegisters]), s)
      else if opcode_type = Op_ReadWriteStaticRegister then
        Some (ReadWriteStaticRegister (drop_bit 4 first_dword AND 0xFF) (first_dword AND 0xF), s)
      else if opcode_type = Op_PauseProcess then Some (PauseProcess, s)
      else if opcode_type = Op_ResumeProcess then Some (ResumeProcess, s)
      else if opcode_type = Op_DebugLog then decode_DebugLog first_dword s
      else Some (UnrecognizedInstruction opcode_type, fst s, False))"

text \<open>The opcode when the result is true, and the machine.\<close>

definition DecodeNextOpcode :: "cheat_vm \<Rightarrow> (cheat_opcode option \<times> cheat_vm) option" where
  "DecodeNextOpcode vm = do {
     (first_dword, vm1, valid1) \<leftarrow> GetNextDword (vm, decode_success vm);
     if \<not> valid1
     then Some (None, vm1\<lparr>decode_success := decode_success vm1 \<and> valid1\<rparr>)
     else do {
       let opcode_type = opcode_type_of first_dword;
       (op, vm2, valid2) \<leftarrow> decode_body opcode_type first_dword (vm1, valid1);
       Some (if valid2 then Some \<lparr>begin_conditional_block = begins_conditional opcode_type, opcode = op\<rparr>
             else None,
             vm2\<lparr>decode_success := decode_success vm2 \<and> valid2\<rparr>)
     }
   }"

text \<open>
  A decoder step only moves the instruction pointer forward, within the program, and never makes an
  invalid decoding valid again.
\<close>

definition reads :: "cheat_vm \<times> bool \<Rightarrow> cheat_vm \<times> bool \<Rightarrow> bool" where
  "reads s s' \<longleftrightarrow> (\<exists>p. instruction_ptr (fst s) \<le> p \<and> p \<le> max (instruction_ptr (fst s)) (num_opcodes (fst s)) \<and>
     fst s' = (fst s)\<lparr>instruction_ptr := p\<rparr> \<and> (snd s' \<longrightarrow> snd s))"

lemma reads_refl [simp]: "reads s s"
  by (auto simp: reads_def intro!: exI [of _ "instruction_ptr (fst s)"])

lemma reads_trans [trans]:
  assumes "reads s t" "reads t u"
  shows "reads s u"
proof -
  from assms obtain p q where "instruction_ptr (fst s) \<le> p" "p \<le> q"
    "p \<le> max (instruction_ptr (fst s)) (num_opcodes (fst s))" "q \<le> max p (num_opcodes (fst s))"
    "fst u = (fst s)\<lparr>instruction_ptr := q\<rparr>" "snd u \<longrightarrow> snd s"
    unfolding reads_def by auto
  then show ?thesis unfolding reads_def by (intro exI [of _ q]) auto
qed

lemma reads_invalid: "reads s (vm, v) \<Longrightarrow> reads s (vm, False)"
  by (auto simp: reads_def)

lemma GetNextDword_reads:
  assumes "GetNextDword s = Some (w, s')"
  shows "reads s s'"
proof (cases "instruction_ptr (fst s) \<ge> num_opcodes (fst s)")
  case True
  with assms show ?thesis by (cases s) (auto simp: GetNextDword_def intro: reads_invalid [where v = "snd s"])
next
  case False
  with assms show ?thesis
    by (cases s) (auto simp: GetNextDword_def reads_def bind_eq_Some_conv
        intro!: exI [of _ "Suc (instruction_ptr (fst s))"])
qed

lemma GetNextVmInt_reads: "GetNextVmInt bw s = Some (v, s') \<Longrightarrow> reads s s'"
  by (auto simp: GetNextVmInt_def bind_eq_Some_conv split: if_splits
      dest!: GetNextDword_reads intro: reads_trans)

lemma GetNextQword_reads: "GetNextQword s = Some (v, s') \<Longrightarrow> reads s s'"
  by (auto simp: GetNextQword_def bind_eq_Some_conv dest!: GetNextDword_reads intro: reads_trans)

lemma rel_address36_reads: "rel_address36 w s = Some (v, s') \<Longrightarrow> reads s s'"
  by (auto simp: rel_address36_def bind_eq_Some_conv dest!: GetNextDword_reads)

lemmas read_steps = GetNextDword_reads GetNextVmInt_reads GetNextQword_reads rel_address36_reads

lemmas decode_defs = decode_StoreStatic_def decode_BeginConditional_def decode_ControlLoop_def
  decode_LoadRegisterStatic_def decode_LoadRegisterMemory_def decode_StoreStaticToAddress_def
  decode_PerformArithmeticStatic_def decode_PerformArithmeticRegister_def
  decode_StoreRegisterToAddress_def decode_BeginRegisterConditional_def decode_DebugLog_def

lemma decode_reads:
  "decode_StoreStatic w s = Some (op, s') \<Longrightarrow> reads s s'"
  "decode_BeginConditional w s = Some (op, s') \<Longrightarrow> reads s s'"
  "decode_ControlLoop w s = Some (op, s') \<Longrightarrow> reads s s'"
  "decode_LoadRegisterStatic w s = Some (op, s') \<Longrightarrow> reads s s'"
  "decode_LoadRegisterMemory w s = Some (op, s') \<Longrightarrow> reads s s'"
  "decode_StoreStaticToAddress w s = Some (op, s') \<Longrightarrow> reads s s'"
  "decode_PerformArithmeticStatic w s = Some (op, s') \<Longrightarrow> reads s s'"
  "decode_PerformArithmeticRegister w s = Some (op, s') \<Longrightarrow> reads s s'"
  "decode_StoreRegisterToAddress w s = Some (op, s') \<Longrightarrow> reads s s'"
  "decode_BeginRegisterConditional w s = Some (op, s') \<Longrightarrow> reads s s'"
  "decode_DebugLog w s = Some (op, s') \<Longrightarrow> reads s s'"
  by (auto simp: decode_defs Let_def bind_eq_Some_conv split: if_splits
      dest!: read_steps intro: reads_trans)

lemma decode_body_reads:
  assumes "decode_body t w s = Some (op, s')"
  shows "reads s s'"
proof -
  have "reads s (fst s, False)" by (rule reads_invalid [where v = "snd s"]) simp
  with assms show ?thesis
    unfolding decode_body_def by (auto split: if_splits dest: decode_reads)
qed

lemma DecodeNextOpcode_advances:
  assumes "DecodeNextOpcode vm = Some (Some op, vm')"
  obtains p where "instruction_ptr vm < p" "p \<le> num_opcodes vm" "decode_success vm"
    "vm' = vm\<lparr>instruction_ptr := p\<rparr>"
proof -
  from assms obtain w vm1 op' vm2 where
    d: "GetNextDword (vm, decode_success vm) = Some (w, vm1, True)"
      "decode_body (opcode_type_of w) w (vm1, True) = Some (op', vm2, True)"
      "vm' = vm2\<lparr>decode_success := decode_success vm2\<rparr>"
    by (auto simp: DecodeNextOpcode_def bind_eq_Some_conv Let_def split: if_splits)
  from d(1) have v: "instruction_ptr vm < num_opcodes vm" "decode_success vm"
    "vm1 = vm\<lparr>instruction_ptr := instruction_ptr vm + 1\<rparr>"
    by (auto simp: GetNextDword_def bind_eq_Some_conv split: if_splits)
  from decode_body_reads [OF d(2)] v obtain p where
    "instruction_ptr vm + 1 \<le> p" "p \<le> num_opcodes vm" "vm2 = vm\<lparr>instruction_ptr := p\<rparr>"
    by (auto simp: reads_def)
  with v d(3) show thesis by (intro that [of p]) auto
qed

section \<open>Execution\<close>

text \<open>
  The body of the loop of \<open>SkipConditionalBlock\<close>, which goes on or breaks, and the loop.
\<close>

definition Skip_opcode :: "bool \<Rightarrow> nat \<Rightarrow> cheat_opcode \<Rightarrow> cheat_vm \<Rightarrow> bool \<times> cheat_vm" where
  "Skip_opcode is_if desired_depth skip_opcode vm =
     (if begin_conditional_block skip_opcode
      then (True, vm\<lparr>condition_depth := condition_depth vm + 1\<rparr>)
      else case opcode skip_opcode of
        EndConditional is_else \<Rightarrow>
          if \<not> is_else then (True, vm\<lparr>condition_depth := condition_depth vm - 1\<rparr>)
          else if is_if \<and> condition_depth vm - 1 = desired_depth then (False, vm)
          else (True, vm)
      | _ \<Rightarrow> (True, vm))"

lemma Skip_opcode_frame:
  "Skip_opcode is_if d op vm = (b, vm') \<Longrightarrow> \<exists>n. vm' = vm\<lparr>condition_depth := n\<rparr>"
  by (auto simp: Skip_opcode_def split: if_splits opcode_data.splits
      intro: exI [of _ "condition_depth vm"])

function Skip_loop :: "bool \<Rightarrow> nat \<Rightarrow> cheat_vm \<Rightarrow> cheat_vm option" where
  "Skip_loop is_if desired_depth vm =
     (if \<not> condition_depth vm > desired_depth then Some vm
      else case DecodeNextOpcode vm of
        None \<Rightarrow> None
      | Some (None, vm1) \<Rightarrow> Some vm1
      | Some (Some skip_opcode, vm1) \<Rightarrow>
          (case Skip_opcode is_if desired_depth skip_opcode vm1 of
             (True, vm2) \<Rightarrow> Skip_loop is_if desired_depth vm2
           | (False, vm2) \<Rightarrow> Some vm2))"
  by pat_completeness auto
termination
proof (relation "measure (\<lambda>(_, _, vm). num_opcodes vm - instruction_ptr vm)")
  fix is_if d vm x2 x y op xa vm2
  assume a: "DecodeNextOpcode vm = Some x2" "(x, y) = x2" "x = Some op" "(xa, vm2) = Skip_opcode is_if d op y"
  then obtain p where "instruction_ptr vm < p" "p \<le> num_opcodes vm" "y = vm\<lparr>instruction_ptr := p\<rparr>"
    by (auto elim: DecodeNextOpcode_advances)
  moreover from a(4) obtain n where "vm2 = y\<lparr>condition_depth := n\<rparr>"
    using Skip_opcode_frame [of is_if d op y xa vm2] by auto
  ultimately show "((is_if, d, vm2), is_if, d, vm) \<in> measure (\<lambda>(_, _, vm). num_opcodes vm - instruction_ptr vm)"
    by auto
qed simp

declare Skip_loop.simps [simp del]

definition SkipConditionalBlock :: "bool \<Rightarrow> cheat_vm \<Rightarrow> cheat_vm option" where
  "SkipConditionalBlock is_if vm =
     (if condition_depth vm > 0 then Skip_loop is_if (condition_depth vm - 1) vm else None)"

definition GetVmInt :: "u64 \<Rightarrow> u32 \<Rightarrow> u64" where
  "GetVmInt v bit_width =
     (if bit_width = 1 then ucast (ucast v :: u8)
      else if bit_width = 2 then ucast (ucast v :: u16)
      else if bit_width = 4 then ucast (ucast v :: u32)
      else if bit_width = 8 then v
      else 0)"

definition GetCheatProcessAddress :: "cheat_process_metadata \<Rightarrow> u32 \<Rightarrow> u64 \<Rightarrow> u64" where
  "GetCheatProcessAddress metadata mem_type rel_address =
     (if mem_type = Mem_Heap then ext_base (heap_extents metadata) + rel_address
      else if mem_type = Mem_Alias then ext_base (alias_extents metadata) + rel_address
      else if mem_type = Mem_Aslr then ext_base (aslr_extents metadata) + rel_address
      else ext_base (main_nso_extents metadata) + rel_address)"

definition ResetState :: "cheat_vm \<Rightarrow> cheat_vm" where
  "ResetState vm = vm\<lparr>registers := replicate NumRegisters 0, saved_values := replicate NumRegisters 0,
     loop_tops := replicate NumRegisters 0, instruction_ptr := 0, condition_depth := 0,
     decode_success := True\<rparr>"

text \<open>The copy loop and the outer loop of \<open>LoadProgram\<close>.\<close>

primrec LoadProgram_copy :: "nat list \<Rightarrow> u32 list \<Rightarrow> cheat_vm \<Rightarrow> cheat_vm option" where
  "LoadProgram_copy [] opcodes vm = Some vm"
| "LoadProgram_copy (n # ns) opcodes vm = do {
     w \<leftarrow> arr_get opcodes n;
     prog \<leftarrow> arr_set (vm_program vm) (num_opcodes vm) w;
     LoadProgram_copy ns opcodes (vm\<lparr>vm_program := prog, num_opcodes := num_opcodes vm + 1\<rparr>)
   }"

primrec LoadProgram_loop :: "cheat_entry list \<Rightarrow> cheat_vm \<Rightarrow> (bool \<times> cheat_vm) option" where
  "LoadProgram_loop [] vm = Some (True, vm)"
| "LoadProgram_loop (e # es) vm =
     (if \<not> enabled e then LoadProgram_loop es vm
      else if def_num_opcodes (cheat_def e) + num_opcodes vm > MaximumProgramOpcodeCount
      then Some (False, vm\<lparr>num_opcodes := 0\<rparr>)
      else do {
        vm' \<leftarrow> LoadProgram_copy [0..<def_num_opcodes (cheat_def e)] (def_opcodes (cheat_def e)) vm;
        LoadProgram_loop es vm'
      })"

definition LoadProgram :: "cheat_entry list \<Rightarrow> cheat_vm \<Rightarrow> (bool \<times> cheat_vm) option" where
  "LoadProgram entries vm = LoadProgram_loop entries (vm\<lparr>num_opcodes := 0\<rparr>)"

subsection \<open>Bytes and registers\<close>

text \<open>Storing \<open>n\<close> bytes at the address of a 64-bit variable keeps its upper bytes.\<close>

definition overlay :: "nat \<Rightarrow> u8 list \<Rightarrow> u64 \<Rightarrow> u64" where
  "overlay n bs old = le_value (take n bs @ drop n (le_bytes 8 old))"

definition valid_width :: "u32 \<Rightarrow> bool" where
  "valid_width bit_width \<longleftrightarrow> bit_width = 1 \<or> bit_width = 2 \<or> bit_width = 4 \<or> bit_width = 8"

definition reg_get :: "u32 \<Rightarrow> cheat_vm \<Rightarrow> u64 option" where
  "reg_get i vm = arr_get (registers vm) (unat i)"

definition reg_set :: "u32 \<Rightarrow> u64 \<Rightarrow> cheat_vm \<Rightarrow> cheat_vm option" where
  "reg_set i v vm = do { rs \<leftarrow> arr_set (registers vm) (unat i) v; Some (vm\<lparr>registers := rs\<rparr>) }"

text \<open>Reading into a variable that holds \<open>old\<close>, and writing one, at a valid width only.\<close>

definition read_memory ::
  "'w callbacks \<Rightarrow> u32 \<Rightarrow> u64 \<Rightarrow> u64 \<Rightarrow> 'w \<Rightarrow> u64 \<times> 'w" where
  "read_memory cb bit_width address old w =
     (if valid_width bit_width
      then let (bs, w') = MemoryReadUnsafe cb address (unat bit_width) w
           in (overlay (unat bit_width) bs old, w')
      else (old, w))"

definition write_memory :: "'w callbacks \<Rightarrow> u32 \<Rightarrow> u64 \<Rightarrow> u64 \<Rightarrow> 'w \<Rightarrow> 'w" where
  "write_memory cb bit_width address v w =
     (if valid_width bit_width then MemoryWriteUnsafe cb address (le_bytes (unat bit_width) v) w else w)"

definition cond_met :: "u32 \<Rightarrow> u64 \<Rightarrow> u64 \<Rightarrow> bool" where
  "cond_met cond_type src_value cond_value =
     (if cond_type = Cond_GT then src_value > cond_value
      else if cond_type = Cond_GE then src_value \<ge> cond_value
      else if cond_type = Cond_LT then src_value < cond_value
      else if cond_type = Cond_LE then src_value \<le> cond_value
      else if cond_type = Cond_EQ then src_value = cond_value
      else if cond_type = Cond_NE then src_value \<noteq> cond_value
      else False)"

text \<open>Shifting a 64-bit value by 64 or more is undefined.\<close>

definition shift_left :: "u64 \<Rightarrow> u64 \<Rightarrow> u64 option" where
  "shift_left x n = (if n \<ge> 64 then None else Some (push_bit (unat n) x))"

definition shift_right :: "u64 \<Rightarrow> u64 \<Rightarrow> u64 option" where
  "shift_right x n = (if n \<ge> 64 then None else Some (drop_bit (unat n) x))"

definition apply_bit_width :: "u32 \<Rightarrow> u64 \<Rightarrow> u64" where
  "apply_bit_width bit_width v =
     (if bit_width = 1 then ucast (ucast v :: u8)
      else if bit_width = 2 then ucast (ucast v :: u16)
      else if bit_width = 4 then ucast (ucast v :: u32)
      else v)"

text \<open>A register cut to a width, zero for an invalid one.\<close>

definition masked_register :: "u32 \<Rightarrow> u64 \<Rightarrow> u64" where
  "masked_register bit_width v =
     (if bit_width = 1 then ucast (ucast (v AND 0xFF) :: u8)
      else if bit_width = 2 then ucast (ucast (v AND 0xFFFF) :: u16)
      else if bit_width = 4 then ucast (ucast (v AND 0xFFFFFFFF) :: u32)
      else if bit_width = 8 then v AND 0xFFFFFFFFFFFFFFFF
      else 0)"

subsection \<open>The instructions\<close>

definition exec_StoreStatic ::
  "'w callbacks \<Rightarrow> cheat_process_metadata \<Rightarrow> u32 \<Rightarrow> u32 \<Rightarrow> u32 \<Rightarrow> u64 \<Rightarrow> u64 \<Rightarrow> cheat_vm \<times> 'w
     \<Rightarrow> (cheat_vm \<times> 'w) option" where
  "exec_StoreStatic cb metadata bit_width mem_type offset_register rel_address v = (\<lambda>(vm, w). do {
     ofs \<leftarrow> reg_get offset_register vm;
     let dst_address = GetCheatProcessAddress metadata mem_type (rel_address + ofs);
     let dst_value = GetVmInt v bit_width;
     Some (vm, write_memory cb bit_width dst_address dst_value w)
   })"

definition skip_unless :: "bool \<Rightarrow> cheat_vm \<times> 'w \<Rightarrow> (cheat_vm \<times> 'w) option" where
  "skip_unless met = (\<lambda>(vm, w).
     if met then Some (vm, w) else map_option (\<lambda>vm'. (vm', w)) (SkipConditionalBlock True vm))"

definition exec_BeginConditional ::
  "'w callbacks \<Rightarrow> cheat_process_metadata \<Rightarrow> u32 \<Rightarrow> u32 \<Rightarrow> u32 \<Rightarrow> u64 \<Rightarrow> u64 \<Rightarrow> cheat_vm \<times> 'w
     \<Rightarrow> (cheat_vm \<times> 'w) option" where
  "exec_BeginConditional cb metadata bit_width mem_type cond_type rel_address v = (\<lambda>(vm, w).
     let src_address = GetCheatProcessAddress metadata mem_type rel_address;
         (src_value, w') = read_memory cb bit_width src_address 0 w;
         cond_value = GetVmInt v bit_width
     in skip_unless (cond_met cond_type src_value cond_value) (vm, w'))"

definition exec_EndConditional :: "bool \<Rightarrow> cheat_vm \<times> 'w \<Rightarrow> (cheat_vm \<times> 'w) option" where
  "exec_EndConditional is_else = (\<lambda>(vm, w).
     if is_else then map_option (\<lambda>vm'. (vm', w)) (SkipConditionalBlock False vm)
     else Some (if condition_depth vm > 0 then vm\<lparr>condition_depth := condition_depth vm - 1\<rparr> else vm, w))"

definition exec_ControlLoop :: "bool \<Rightarrow> u32 \<Rightarrow> u32 \<Rightarrow> cheat_vm \<times> 'w \<Rightarrow> (cheat_vm \<times> 'w) option" where
  "exec_ControlLoop start_loop reg_index num_iters = (\<lambda>(vm, w).
     if start_loop then do {
       vm1 \<leftarrow> reg_set reg_index (ucast num_iters) vm;
       tops \<leftarrow> arr_set (loop_tops vm1) (unat reg_index) (instruction_ptr vm1);
       Some (vm1\<lparr>loop_tops := tops\<rparr>, w)
     }
     else do {
       r \<leftarrow> reg_get reg_index vm;
       vm1 \<leftarrow> reg_set reg_index (r - 1) vm;
       if r - 1 \<noteq> 0 then do {
         top \<leftarrow> arr_get (loop_tops vm1) (unat reg_index);
         Some (vm1\<lparr>instruction_ptr := top\<rparr>, w)
       }
       else Some (vm1, w)
     })"

definition exec_LoadRegisterStatic :: "u32 \<Rightarrow> u64 \<Rightarrow> cheat_vm \<times> 'w \<Rightarrow> (cheat_vm \<times> 'w) option" where
  "exec_LoadRegisterStatic reg_index v = (\<lambda>(vm, w). do {
     vm1 \<leftarrow> reg_set reg_index v vm;
     Some (vm1, w)
   })"

text \<open>The bytes that are read replace the low bytes of the register.\<close>

definition exec_LoadRegisterMemory ::
  "'w callbacks \<Rightarrow> cheat_process_metadata \<Rightarrow> u32 \<Rightarrow> u32 \<Rightarrow> u32 \<Rightarrow> bool \<Rightarrow> u64 \<Rightarrow> cheat_vm \<times> 'w
     \<Rightarrow> (cheat_vm \<times> 'w) option" where
  "exec_LoadRegisterMemory cb metadata bit_width mem_type reg_index load_from_reg rel_address = (\<lambda>(vm, w). do {
     r \<leftarrow> reg_get reg_index vm;
     let src_address = (if load_from_reg then r + rel_address
                        else GetCheatProcessAddress metadata mem_type rel_address);
     let (r', w') = read_memory cb bit_width src_address r w;
     vm1 \<leftarrow> reg_set reg_index r' vm;
     Some (vm1, w')
   })"

definition exec_StoreStaticToAddress ::
  "'w callbacks \<Rightarrow> u32 \<Rightarrow> u32 \<Rightarrow> bool \<Rightarrow> bool \<Rightarrow> u32 \<Rightarrow> u64 \<Rightarrow> cheat_vm \<times> 'w
     \<Rightarrow> (cheat_vm \<times> 'w) option" where
  "exec_StoreStaticToAddress cb bit_width reg_index increment_reg add_offset_reg offset_reg_index v = (\<lambda>(vm, w). do {
     r \<leftarrow> reg_get reg_index vm;
     ofs \<leftarrow> (if add_offset_reg then reg_get offset_reg_index vm else Some 0);
     let w' = write_memory cb bit_width (r + ofs) v w;
     vm1 \<leftarrow> (if increment_reg then reg_set reg_index (r + ucast bit_width) vm else Some vm);
     Some (vm1, w')
   })"

definition math_static :: "u32 \<Rightarrow> u64 \<Rightarrow> u64 \<Rightarrow> u64 option" where
  "math_static math_type r v =
     (if math_type = Math_Addition then Some (r + v)
      else if math_type = Math_Subtraction then Some (r - v)
      else if math_type = Math_Multiplication then Some (r * v)
      else if math_type = Math_LeftShift then shift_left r v
      else if math_type = Math_RightShift then shift_right r v
      else Some r)"

definition exec_PerformArithmeticStatic ::
  "u32 \<Rightarrow> u32 \<Rightarrow> u32 \<Rightarrow> u32 \<Rightarrow> cheat_vm \<times> 'w \<Rightarrow> (cheat_vm \<times> 'w) option" where
  "exec_PerformArithmeticStatic bit_width reg_index math_type v = (\<lambda>(vm, w). do {
     r \<leftarrow> reg_get reg_index vm;
     r' \<leftarrow> math_static math_type r (ucast v);
     vm1 \<leftarrow> reg_set reg_index (apply_bit_width bit_width r') vm;
     Some (vm1, w)
   })"

definition exec_BeginKeypressConditional :: "u64 \<Rightarrow> u32 \<Rightarrow> cheat_vm \<times> 'w \<Rightarrow> (cheat_vm \<times> 'w) option" where
  "exec_BeginKeypressConditional kDown key_mask s =
     skip_unless (ucast key_mask AND kDown = ucast key_mask) s"

definition math_register :: "u32 \<Rightarrow> u64 \<Rightarrow> u64 \<Rightarrow> u64 option" where
  "math_register math_type a b =
     (if math_type = Math_Addition then Some (a + b)
      else if math_type = Math_Subtraction then Some (a - b)
      else if math_type = Math_Multiplication then Some (a * b)
      else if math_type = Math_LeftShift then shift_left a b
      else if math_type = Math_RightShift then shift_right a b
      else if math_type = Math_LogicalAnd then Some (a AND b)
      else if math_type = Math_LogicalOr then Some (a OR b)
      else if math_type = Math_LogicalNot then Some (NOT a)
      else if math_type = Math_LogicalXor then Some (a XOR b)
      else if math_type = Math_None then Some a
      else Some 0)"

definition exec_PerformArithmeticRegister ::
  "u32 \<Rightarrow> u32 \<Rightarrow> u32 \<Rightarrow> u32 \<Rightarrow> u32 \<Rightarrow> bool \<Rightarrow> u64 \<Rightarrow> cheat_vm \<times> 'w \<Rightarrow> (cheat_vm \<times> 'w) option" where
  "exec_PerformArithmeticRegister bit_width math_type dst src1 src2 has_immediate v = (\<lambda>(vm, w). do {
     a \<leftarrow> reg_get src1 vm;
     b \<leftarrow> (if has_immediate then Some (GetVmInt v bit_width) else reg_get src2 vm);
     res_val \<leftarrow> math_register math_type a b;
     vm1 \<leftarrow> reg_set dst (apply_bit_width bit_width res_val) vm;
     Some (vm1, w)
   })"

definition exec_StoreRegisterToAddress ::
  "'w callbacks \<Rightarrow> cheat_process_metadata \<Rightarrow> u32 \<Rightarrow> u32 \<Rightarrow> u32 \<Rightarrow> bool \<Rightarrow> u32 \<Rightarrow> u32 \<Rightarrow> u32 \<Rightarrow> u64
     \<Rightarrow> cheat_vm \<times> 'w \<Rightarrow> (cheat_vm \<times> 'w) option" where
  "exec_StoreRegisterToAddress cb metadata bit_width str_reg addr_reg increment_reg ofs_type mem_type
       ofs_reg rel_address = (\<lambda>(vm, w). do {
     dst_value \<leftarrow> reg_get str_reg vm;
     a \<leftarrow> reg_get addr_reg vm;
     dst_address \<leftarrow>
       (if ofs_type = Ofs_Reg then map_option ((+) a) (reg_get ofs_reg vm)
        else if ofs_type = Ofs_Imm then Some (a + rel_address)
        else if ofs_type = Ofs_MemReg then Some (GetCheatProcessAddress metadata mem_type a)
        else if ofs_type = Ofs_MemImm then Some (GetCheatProcessAddress metadata mem_type rel_address)
        else if ofs_type = Ofs_MemImmReg
        then Some (GetCheatProcessAddress metadata mem_type (a + rel_address))
        else Some a);
     let w' = write_memory cb bit_width dst_address dst_value w;
     vm1 \<leftarrow> (if increment_reg then reg_set addr_reg (a + ucast bit_width) vm else Some vm);
     Some (vm1, w')
   })"

text \<open>
  The address that a register conditional or a debug log reads, by its operand type
  (\<open>CompareRegisterValueType\<close> and \<open>DebugLogValueType\<close> number these four alike).
\<close>

definition operand_address ::
  "cheat_process_metadata \<Rightarrow> u32 \<Rightarrow> u32 \<Rightarrow> u32 \<Rightarrow> u32 \<Rightarrow> u64 \<Rightarrow> cheat_vm \<Rightarrow> u64 option" where
  "operand_address metadata operand_type mem_type addr_reg ofs_reg rel_address vm =
     (if operand_type = Cmp_MemoryRelAddr then Some (GetCheatProcessAddress metadata mem_type rel_address)
      else if operand_type = Cmp_MemoryOfsReg
      then map_option (GetCheatProcessAddress metadata mem_type) (reg_get ofs_reg vm)
      else if operand_type = Cmp_RegisterRelAddr
      then map_option (\<lambda>a. a + rel_address) (reg_get addr_reg vm)
      else if operand_type = Cmp_RegisterOfsReg
      then do { a \<leftarrow> reg_get addr_reg vm; b \<leftarrow> reg_get ofs_reg vm; Some (a + b) }
      else Some 0)"

definition exec_BeginRegisterConditional ::
  "'w callbacks \<Rightarrow> cheat_process_metadata \<Rightarrow> u32 \<Rightarrow> u32 \<Rightarrow> u32 \<Rightarrow> u32 \<Rightarrow> u32 \<Rightarrow> u32 \<Rightarrow> u32 \<Rightarrow> u32 \<Rightarrow> u64 \<Rightarrow> u64
     \<Rightarrow> cheat_vm \<times> 'w \<Rightarrow> (cheat_vm \<times> 'w) option" where
  "exec_BeginRegisterConditional cb metadata bit_width cond_type val_reg comp_type mem_type addr_reg
       other_reg ofs_reg rel_address v = (\<lambda>(vm, w). do {
     r \<leftarrow> reg_get val_reg vm;
     let src_value = masked_register bit_width r;
     (cond_value, w') \<leftarrow>
       (if comp_type = Cmp_StaticValue then Some (GetVmInt v bit_width, w)
        else if comp_type = Cmp_OtherRegister
        then map_option (\<lambda>r2. (masked_register bit_width r2, w)) (reg_get other_reg vm)
        else do {
          cond_address \<leftarrow> operand_address metadata comp_type mem_type addr_reg ofs_reg rel_address vm;
          Some (read_memory cb bit_width cond_address 0 w)
        });
     skip_unless (cond_met cond_type src_value cond_value) (vm, w')
   })"

definition exec_SaveRestoreRegister :: "u32 \<Rightarrow> u32 \<Rightarrow> u32 \<Rightarrow> cheat_vm \<times> 'w \<Rightarrow> (cheat_vm \<times> 'w) option" where
  "exec_SaveRestoreRegister dst src op_type = (\<lambda>(vm, w).
     if op_type = Sr_ClearRegs then map_option (\<lambda>vm'. (vm', w)) (reg_set dst 0 vm)
     else if op_type = Sr_ClearSaved then do {
       sv \<leftarrow> arr_set (saved_values vm) (unat dst) 0;
       Some (vm\<lparr>saved_values := sv\<rparr>, w)
     }
     else if op_type = Sr_Save then do {
       r \<leftarrow> reg_get src vm;
       sv \<leftarrow> arr_set (saved_values vm) (unat dst) r;
       Some (vm\<lparr>saved_values := sv\<rparr>, w)
     }
     else do {
       v \<leftarrow> arr_get (saved_values vm) (unat src);
       vm1 \<leftarrow> reg_set dst v vm;
       Some (vm1, w)
     })"

text \<open>The loop over the sixteen registers, on the source and the destination array.\<close>

definition masked_copy :: "bool \<Rightarrow> bool list \<Rightarrow> u64 list \<Rightarrow> u64 list \<Rightarrow> u64 list" where
  "masked_copy clear should_operate src dst =
     map (\<lambda>i. if should_operate ! i then (if clear then 0 else src ! i) else dst ! i) [0..<NumRegisters]"

definition exec_SaveRestoreRegisterMask :: "u32 \<Rightarrow> bool list \<Rightarrow> cheat_vm \<times> 'w \<Rightarrow> (cheat_vm \<times> 'w) option" where
  "exec_SaveRestoreRegisterMask op_type should_operate = (\<lambda>(vm, w).
     let clear = (op_type = Sr_ClearSaved \<or> op_type = Sr_ClearRegs) in
     if op_type = Sr_ClearSaved \<or> op_type = Sr_Save
     then Some (vm\<lparr>saved_values := masked_copy clear should_operate (registers vm) (saved_values vm)\<rparr>, w)
     else Some (vm\<lparr>registers := masked_copy clear should_operate (saved_values vm) (registers vm)\<rparr>, w))"

definition exec_ReadWriteStaticRegister :: "u32 \<Rightarrow> u32 \<Rightarrow> cheat_vm \<times> 'w \<Rightarrow> (cheat_vm \<times> 'w) option" where
  "exec_ReadWriteStaticRegister static_idx idx = (\<lambda>(vm, w).
     if unat static_idx < NumReadableStaticRegisters
     then do {
       v \<leftarrow> arr_get (static_registers vm) (unat static_idx);
       vm1 \<leftarrow> reg_set idx v vm;
       Some (vm1, w)
     }
     else do {
       r \<leftarrow> reg_get idx vm;
       sr \<leftarrow> arr_set (static_registers vm) (unat static_idx) r;
       Some (vm\<lparr>static_registers := sr\<rparr>, w)
     })"

definition exec_DebugLog ::
  "'w callbacks \<Rightarrow> cheat_process_metadata \<Rightarrow> u32 \<Rightarrow> u32 \<Rightarrow> u32 \<Rightarrow> u32 \<Rightarrow> u32 \<Rightarrow> u32 \<Rightarrow> u32 \<Rightarrow> u64
     \<Rightarrow> cheat_vm \<times> 'w \<Rightarrow> (cheat_vm \<times> 'w) option" where
  "exec_DebugLog cb metadata bit_width log_id val_type mem_type addr_reg val_reg ofs_reg rel_address = (\<lambda>(vm, w). do {
     (log_value, w') \<leftarrow>
       (if val_type = Log_RegisterValue
        then map_option (\<lambda>r. (masked_register bit_width r, w)) (reg_get val_reg vm)
        else do {
          val_address \<leftarrow> operand_address metadata val_type mem_type addr_reg ofs_reg rel_address vm;
          Some (read_memory cb bit_width val_address 0 w)
        });
     Some (vm, CbDebugLog cb (ucast log_id) log_value w')
   })"

primrec Execute_opcode ::
  "'w callbacks \<Rightarrow> cheat_process_metadata \<Rightarrow> u64 \<Rightarrow> opcode_data \<Rightarrow> cheat_vm \<times> 'w \<Rightarrow> (cheat_vm \<times> 'w) option" where
  "Execute_opcode cb metadata kDown (StoreStatic bw mt ofs rel v) s = exec_StoreStatic cb metadata bw mt ofs rel v s"
| "Execute_opcode cb metadata kDown (BeginConditional bw mt ct rel v) s = exec_BeginConditional cb metadata bw mt ct rel v s"
| "Execute_opcode cb metadata kDown (EndConditional is_else) s = exec_EndConditional is_else s"
| "Execute_opcode cb metadata kDown (ControlLoop start r n) s = exec_ControlLoop start r n s"
| "Execute_opcode cb metadata kDown (LoadRegisterStatic r v) s = exec_LoadRegisterStatic r v s"
| "Execute_opcode cb metadata kDown (LoadRegisterMemory bw mt r lr rel) s = exec_LoadRegisterMemory cb metadata bw mt r lr rel s"
| "Execute_opcode cb metadata kDown (StoreStaticToAddress bw r inc add ofs v) s = exec_StoreStaticToAddress cb bw r inc add ofs v s"
| "Execute_opcode cb metadata kDown (PerformArithmeticStatic bw r mt v) s = exec_PerformArithmeticStatic bw r mt v s"
| "Execute_opcode cb metadata kDown (BeginKeypressConditional m) s = exec_BeginKeypressConditional kDown m s"
| "Execute_opcode cb metadata kDown (PerformArithmeticRegister bw mt d s1 s2 imm v) s =
     exec_PerformArithmeticRegister bw mt d s1 s2 imm v s"
| "Execute_opcode cb metadata kDown (StoreRegisterToAddress bw sr ar inc ot mt orr rel) s =
     exec_StoreRegisterToAddress cb metadata bw sr ar inc ot mt orr rel s"
| "Execute_opcode cb metadata kDown (BeginRegisterConditional bw ct vr cmp mt ar otr orr rel v) s =
     exec_BeginRegisterConditional cb metadata bw ct vr cmp mt ar otr orr rel v s"
| "Execute_opcode cb metadata kDown (SaveRestoreRegister d sr op) s = exec_SaveRestoreRegister d sr op s"
| "Execute_opcode cb metadata kDown (SaveRestoreRegisterMask op m) s = exec_SaveRestoreRegisterMask op m s"
| "Execute_opcode cb metadata kDown (ReadWriteStaticRegister si i) s = exec_ReadWriteStaticRegister si i s"
| "Execute_opcode cb metadata kDown PauseProcess s = Some (fst s, CbPauseProcess cb (snd s))"
| "Execute_opcode cb metadata kDown ResumeProcess s = Some (fst s, CbResumeProcess cb (snd s))"
| "Execute_opcode cb metadata kDown (DebugLog bw li vt mt ar vr orr rel) s =
     exec_DebugLog cb metadata bw li vt mt ar vr orr rel s"
| "Execute_opcode cb metadata kDown (UnrecognizedInstruction t) s = Some s"

text \<open>
  One turn of the main loop: the program has finished (\<open>Inr\<close>) or goes on (\<open>Inl\<close>).  The loop
  may run forever, so it takes fuel; \<open>Running\<close> is what it returns when the fuel is used up.
\<close>

definition Execute_step ::
  "'w callbacks \<Rightarrow> cheat_process_metadata \<Rightarrow> u64 \<Rightarrow> cheat_vm \<times> 'w
     \<Rightarrow> (cheat_vm \<times> 'w + cheat_vm \<times> 'w) option" where
  "Execute_step cb metadata kDown = (\<lambda>(vm, w). do {
     (next_opcode, vm1) \<leftarrow> DecodeNextOpcode vm;
     case next_opcode of
       None \<Rightarrow> Some (Inr (vm1, w))
     | Some cur_opcode \<Rightarrow>
         map_option Inl (Execute_opcode cb metadata kDown (opcode cur_opcode)
           (if begin_conditional_block cur_opcode
            then vm1\<lparr>condition_depth := condition_depth vm1 + 1\<rparr> else vm1, w))
   })"

datatype 's run = Running 's | Finished 's

fun Execute_loop ::
  "nat \<Rightarrow> 'w callbacks \<Rightarrow> cheat_process_metadata \<Rightarrow> u64 \<Rightarrow> cheat_vm \<times> 'w \<Rightarrow> (cheat_vm \<times> 'w) run option" where
  "Execute_loop 0 cb metadata kDown s = Some (Running s)"
| "Execute_loop (Suc fuel) cb metadata kDown s = do {
     r \<leftarrow> Execute_step cb metadata kDown s;
     case r of Inr s' \<Rightarrow> Some (Finished s') | Inl s' \<Rightarrow> Execute_loop fuel cb metadata kDown s'
   }"

definition Execute ::
  "nat \<Rightarrow> 'w callbacks \<Rightarrow> cheat_process_metadata \<Rightarrow> cheat_vm \<times> 'w \<Rightarrow> (cheat_vm \<times> 'w) run option" where
  "Execute fuel cb metadata = (\<lambda>(vm, w).
     let (kDown, w1) = HidKeysDown cb w in Execute_loop fuel cb metadata kDown (ResetState vm, w1))"

end
