(* ===== verification/CheatVmSafety.thy ===== *)
theory CheatVmSafety
  imports CheatVm
begin

text \<open>
  What makes the cheat virtual machine of \<open>CheatVm\<close> safe to run on untrusted programs: decoding
  and execution never leave the arrays of the machine, the two ways in which an instruction can go
  wrong, that programs without loops finish, the meaning of skipping a conditional block, and the
  frame of a run, stated once for every implementation of the callbacks.
\<close>

section \<open>Well-formed machines\<close>

definition vm_ok :: "cheat_vm \<Rightarrow> bool" where
  "vm_ok vm \<longleftrightarrow> length (vm_program vm) = MaximumProgramOpcodeCount \<and> num_opcodes vm \<le> MaximumProgramOpcodeCount \<and>
     length (registers vm) = NumRegisters \<and> length (saved_values vm) = NumRegisters \<and>
     length (static_registers vm) = NumStaticRegisters \<and> length (loop_tops vm) = NumRegisters"

lemma vm_ok_simps [simp]:
  "vm_ok (vm\<lparr>instruction_ptr := p\<rparr>) = vm_ok vm" "vm_ok (vm\<lparr>condition_depth := d\<rparr>) = vm_ok vm"
  "vm_ok (vm\<lparr>decode_success := b\<rparr>) = vm_ok vm"
  by (simp_all add: vm_ok_def)

lemma vm_ok_default: "vm_ok cheat_vm_default"
  by (simp add: vm_ok_def cheat_vm_default_def)

definition reg_ok :: "u32 \<Rightarrow> bool" where
  "reg_ok i \<longleftrightarrow> unat i < NumRegisters"

primrec op_ok :: "opcode_data \<Rightarrow> bool" where
  "op_ok (StoreStatic bw mt ofs rel v) = reg_ok ofs"
| "op_ok (BeginConditional bw mt ct rel v) = True"
| "op_ok (EndConditional is_else) = True"
| "op_ok (ControlLoop start r n) = reg_ok r"
| "op_ok (LoadRegisterStatic r v) = reg_ok r"
| "op_ok (LoadRegisterMemory bw mt r lr rel) = reg_ok r"
| "op_ok (StoreStaticToAddress bw r inc add ofs v) = (reg_ok r \<and> reg_ok ofs)"
| "op_ok (PerformArithmeticStatic bw r mt v) = reg_ok r"
| "op_ok (BeginKeypressConditional m) = True"
| "op_ok (PerformArithmeticRegister bw mt d s1 s2 imm v) = (reg_ok d \<and> reg_ok s1 \<and> reg_ok s2)"
| "op_ok (StoreRegisterToAddress bw sr ar inc ot mt orr rel) = (reg_ok sr \<and> reg_ok ar \<and> reg_ok orr)"
| "op_ok (BeginRegisterConditional bw ct vr cmp mt ar otr orr rel v) =
     (reg_ok vr \<and> reg_ok ar \<and> reg_ok otr \<and> reg_ok orr)"
| "op_ok (SaveRestoreRegister d sr op) = (reg_ok d \<and> reg_ok sr)"
| "op_ok (SaveRestoreRegisterMask op m) = (length m = NumRegisters)"
| "op_ok (ReadWriteStaticRegister si i) = (unat si < NumStaticRegisters \<and> reg_ok i)"
| "op_ok PauseProcess = True"
| "op_ok ResumeProcess = True"
| "op_ok (DebugLog bw li vt mt ar vr orr rel) = (reg_ok ar \<and> reg_ok vr \<and> reg_ok orr)"
| "op_ok (UnrecognizedInstruction t) = True"

lemma unat_and_mask:
  fixes w :: u32
  shows "unat (w AND 0xF) < 16" "unat (w AND 0xFF) < 256"
proof -
  have "w AND 0xF = take_bit 4 w" "w AND 0xFF = take_bit 8 w"
    by (simp_all add: take_bit_eq_mask mask_eq_exp_minus_1)
  then show "unat (w AND 0xF) < 16" "unat (w AND 0xFF) < 256"
    using take_bit_nat_less_exp [of 4 "unat w"] take_bit_nat_less_exp [of 8 "unat w"]
    by (simp_all add: unsigned_take_bit_eq)
qed

lemma reg_ok_nybble [simp]: "reg_ok (nybble n w)" "reg_ok (w AND 0xF)" "reg_ok 0"
  using unat_and_mask(1) by (simp_all add: reg_ok_def nybble_def NumRegisters_def)

section \<open>Decoding is total\<close>

definition decoded :: "('a \<Rightarrow> bool) \<Rightarrow> ('a \<times> cheat_vm \<times> bool) option \<Rightarrow> bool" where
  "decoded P m \<longleftrightarrow> (\<exists>a s'. m = Some (a, s') \<and> P a \<and> vm_ok (fst s'))"

lemma decoded_return: "P a \<Longrightarrow> vm_ok (fst s) \<Longrightarrow> decoded P (Some (a, s))"
  by (auto simp: decoded_def)

lemma decoded_bind:
  "decoded Q m \<Longrightarrow> (\<And>a s'. Q a \<Longrightarrow> vm_ok (fst s') \<Longrightarrow> decoded P (k (a, s'))) \<Longrightarrow> decoded P (m \<bind> k)"
  by (auto simp: decoded_def)

lemma GetNextDword_decoded: "vm_ok (fst s) \<Longrightarrow> decoded (\<lambda>_. True) (GetNextDword s)"
  by (cases s) (auto simp: decoded_def GetNextDword_def vm_ok_def)

lemmas decoded_intros = decoded_return decoded_bind [where Q = "\<lambda>_. True"] GetNextDword_decoded

lemma GetNextVmInt_decoded: "vm_ok (fst s) \<Longrightarrow> decoded (\<lambda>_. True) (GetNextVmInt bw s)"
  unfolding GetNextVmInt_def by (auto intro!: decoded_intros)

lemma GetNextQword_decoded: "vm_ok (fst s) \<Longrightarrow> decoded (\<lambda>_. True) (GetNextQword s)"
  unfolding GetNextQword_def by (auto intro!: decoded_intros)

lemma rel_address36_decoded: "vm_ok (fst s) \<Longrightarrow> decoded (\<lambda>_. True) (rel_address36 w s)"
  unfolding rel_address36_def by (auto intro!: decoded_intros)

lemmas decode_intros = decoded_intros GetNextVmInt_decoded GetNextQword_decoded rel_address36_decoded

lemma decode_StoreStatic_total: "vm_ok (fst s) \<Longrightarrow> decoded op_ok (decode_StoreStatic w s)"
  unfolding decode_StoreStatic_def Let_def by (auto intro!: decode_intros)

lemma decode_BeginConditional_total: "vm_ok (fst s) \<Longrightarrow> decoded op_ok (decode_BeginConditional w s)"
  unfolding decode_BeginConditional_def Let_def by (auto intro!: decode_intros)

lemma decode_ControlLoop_total: "vm_ok (fst s) \<Longrightarrow> decoded op_ok (decode_ControlLoop w s)"
  unfolding decode_ControlLoop_def Let_def by (auto intro!: decode_intros)

lemma decode_LoadRegisterStatic_total: "vm_ok (fst s) \<Longrightarrow> decoded op_ok (decode_LoadRegisterStatic w s)"
  unfolding decode_LoadRegisterStatic_def Let_def by (auto intro!: decode_intros)

lemma decode_LoadRegisterMemory_total: "vm_ok (fst s) \<Longrightarrow> decoded op_ok (decode_LoadRegisterMemory w s)"
  unfolding decode_LoadRegisterMemory_def Let_def by (auto intro!: decode_intros)

lemma decode_StoreStaticToAddress_total: "vm_ok (fst s) \<Longrightarrow> decoded op_ok (decode_StoreStaticToAddress w s)"
  unfolding decode_StoreStaticToAddress_def Let_def by (auto intro!: decode_intros)

lemma decode_PerformArithmeticStatic_total: "vm_ok (fst s) \<Longrightarrow> decoded op_ok (decode_PerformArithmeticStatic w s)"
  unfolding decode_PerformArithmeticStatic_def Let_def by (auto intro!: decode_intros)

lemma decode_PerformArithmeticRegister_total: "vm_ok (fst s) \<Longrightarrow> decoded op_ok (decode_PerformArithmeticRegister w s)"
  unfolding decode_PerformArithmeticRegister_def Let_def by (auto intro!: decode_intros)

lemma decode_StoreRegisterToAddress_total: "vm_ok (fst s) \<Longrightarrow> decoded op_ok (decode_StoreRegisterToAddress w s)"
  unfolding decode_StoreRegisterToAddress_def Let_def by (auto intro!: decode_intros)

lemma decode_BeginRegisterConditional_total: "vm_ok (fst s) \<Longrightarrow> decoded op_ok (decode_BeginRegisterConditional w s)"
  unfolding decode_BeginRegisterConditional_def Let_def by (auto intro!: decode_intros)

lemma decode_DebugLog_total: "vm_ok (fst s) \<Longrightarrow> decoded op_ok (decode_DebugLog w s)"
  unfolding decode_DebugLog_def Let_def by (auto intro!: decode_intros)

lemmas decode_total =
  decode_StoreStatic_total decode_BeginConditional_total decode_ControlLoop_total
  decode_LoadRegisterStatic_total decode_LoadRegisterMemory_total decode_StoreStaticToAddress_total
  decode_PerformArithmeticStatic_total decode_PerformArithmeticRegister_total decode_StoreRegisterToAddress_total
  decode_BeginRegisterConditional_total decode_DebugLog_total

lemma decoded_if:
  "(b \<Longrightarrow> decoded P x) \<Longrightarrow> (\<not> b \<Longrightarrow> decoded P y) \<Longrightarrow> decoded P (if b then x else y)"
  by simp

lemma decode_body_total:
  assumes "vm_ok (fst s)"
  shows "decoded op_ok (decode_body t w s)"
proof -
  have "unat (drop_bit 4 w AND 0xFF) < NumStaticRegisters"
    using unat_and_mask(2) [of "drop_bit 4 w"]
    by (simp add: NumStaticRegisters_def NumReadableStaticRegisters_def NumWritableStaticRegisters_def)
  with assms show ?thesis
    unfolding decode_body_def by (intro decoded_if decode_total decoded_return) simp_all
qed

definition is_begin :: "opcode_data \<Rightarrow> bool" where
  "is_begin op \<longleftrightarrow> (case op of BeginConditional _ _ _ _ _ \<Rightarrow> True | BeginKeypressConditional _ \<Rightarrow> True
     | BeginRegisterConditional _ _ _ _ _ _ _ _ _ _ \<Rightarrow> True | _ \<Rightarrow> False)"

lemma decode_body_begin:
  "decode_body t w s = Some (op, s') \<Longrightarrow> begins_conditional t \<longleftrightarrow> is_begin op"
  by (auto simp: decode_body_def begins_conditional_def decode_defs Let_def bind_eq_Some_conv is_begin_def
      vm_enum_defs split: if_splits)

lemma DecodeNextOpcode_total:
  assumes "vm_ok vm"
  obtains (eof) vm' where "DecodeNextOpcode vm = Some (None, vm')" "vm_ok vm'"
  | (op) op vm' where "DecodeNextOpcode vm = Some (Some op, vm')" "vm_ok vm'" "op_ok (opcode op)"
      "begin_conditional_block op \<longleftrightarrow> is_begin (opcode op)"
proof -
  from assms obtain w vm1 v1 where d: "GetNextDword (vm, decode_success vm) = Some (w, vm1, v1)" "vm_ok vm1"
    using GetNextDword_decoded [of "(vm, decode_success vm)"] by (auto simp: decoded_def)
  show thesis
  proof (cases v1)
    case False
    with d eof show thesis by (auto simp: DecodeNextOpcode_def)
  next
    case True
    from decode_body_total [of "(vm1, v1)" "opcode_type_of w" w] d(2) obtain op1 vm2 v2 where
      b: "decode_body (opcode_type_of w) w (vm1, v1) = Some (op1, vm2, v2)" "op_ok op1" "vm_ok vm2"
      by (auto simp: decoded_def)
    show thesis
    proof (cases v2)
      case False
      with d b True eof show thesis by (auto simp: DecodeNextOpcode_def)
    next
      case v2: True
      with d b True op decode_body_begin [OF b(1)] show thesis by (auto simp: DecodeNextOpcode_def)
    qed
  qed
qed

section \<open>Skipping a block\<close>

text \<open>What skipping and executing keep of a machine: everything but the pointer, the depth and the flag.\<close>

definition same_code :: "cheat_vm \<Rightarrow> cheat_vm \<Rightarrow> bool" where
  "same_code vm vm' \<longleftrightarrow> vm_program vm' = vm_program vm \<and> num_opcodes vm' = num_opcodes vm"

lemma same_code_simps [simp]:
  "same_code vm (vm\<lparr>instruction_ptr := p\<rparr>)" "same_code vm (vm\<lparr>condition_depth := d\<rparr>)" "same_code vm vm"
  "same_code vm (vm\<lparr>registers := rs\<rparr>)" "same_code vm (vm\<lparr>saved_values := rs\<rparr>)"
  "same_code vm (vm\<lparr>static_registers := rs\<rparr>)" "same_code vm (vm\<lparr>loop_tops := ts\<rparr>)"
  "same_code vm (vm\<lparr>registers := rs, loop_tops := ts\<rparr>)" "same_code vm (vm\<lparr>registers := rs, instruction_ptr := p\<rparr>)"
  "same_code (vm\<lparr>condition_depth := d\<rparr>) = same_code vm"
  by (auto simp: same_code_def fun_eq_iff)

lemma DecodeNextOpcode_eof:
  assumes "DecodeNextOpcode vm = Some (None, vm')"
  shows "same_code vm vm'" "instruction_ptr vm \<le> instruction_ptr vm'" "condition_depth vm' = condition_depth vm"
    "\<not> decode_success vm'" "vm_ok vm' = vm_ok vm"
proof -
  from assms obtain w s1 where d: "GetNextDword (vm, decode_success vm) = Some (w, s1)"
    "(\<not> snd s1 \<and> vm' = (fst s1)\<lparr>decode_success := False\<rparr>) \<or>
     (\<exists>op s2. decode_body (opcode_type_of w) w s1 = Some (op, s2) \<and> vm' = (fst s2)\<lparr>decode_success := False\<rparr>)"
    by (fastforce simp: DecodeNextOpcode_def bind_eq_Some_conv Let_def split: if_splits)
  have "\<exists>s2. reads (vm, decode_success vm) s2 \<and> vm' = (fst s2)\<lparr>decode_success := False\<rparr>"
    using d GetNextDword_reads [OF d(1)] decode_body_reads reads_trans by blast
  then show "same_code vm vm'" "instruction_ptr vm \<le> instruction_ptr vm'" "condition_depth vm' = condition_depth vm"
    "\<not> decode_success vm'" "vm_ok vm' = vm_ok vm"
    by (auto simp: reads_def same_code_def)
qed

lemma Skip_loop_total:
  assumes "vm_ok vm"
  shows "\<exists>vm'. Skip_loop is_if d vm = Some vm' \<and> vm_ok vm' \<and> same_code vm vm' \<and> instruction_ptr vm \<le> instruction_ptr vm'"
  using assms
proof (induction "num_opcodes vm - instruction_ptr vm" arbitrary: vm rule: less_induct)
  case less
  note unfold = Skip_loop.simps [of is_if d vm]
  show ?case
  proof (cases "condition_depth vm > d")
    case False
    with less show ?thesis by (auto simp: unfold)
  next
    case True
    from less(2) show ?thesis
    proof (cases rule: DecodeNextOpcode_total)
      case (eof vm')
      with True DecodeNextOpcode_eof [OF eof(1)] show ?thesis by (auto simp: unfold)
    next
      case (op op vm1)
      then obtain p where p: "instruction_ptr vm < p" "p \<le> num_opcodes vm" "vm1 = vm\<lparr>instruction_ptr := p\<rparr>"
        by (auto elim: DecodeNextOpcode_advances)
      obtain b vm2 where b: "Skip_opcode is_if d op vm1 = (b, vm2)" by (cases "Skip_opcode is_if d op vm1")
      obtain n where n: "vm2 = vm1\<lparr>condition_depth := n\<rparr>" using Skip_opcode_frame [OF b] by blast
      have "vm_ok vm2" using n op(2) by simp
      moreover have "num_opcodes vm2 - instruction_ptr vm2 < num_opcodes vm - instruction_ptr vm"
        using p n by (simp add: diff_less_mono2)
      ultimately obtain vm' where
        "Skip_loop is_if d vm2 = Some vm'" "vm_ok vm'" "same_code vm2 vm'" "instruction_ptr vm2 \<le> instruction_ptr vm'"
        using less(1) [of vm2] by blast
      with True op(1) b p n \<open>vm_ok vm2\<close> show ?thesis
        by (cases b) (auto simp: unfold same_code_def)
    qed
  qed
qed

lemma SkipConditionalBlock_total:
  assumes "vm_ok vm"
  shows "SkipConditionalBlock is_if vm = None \<longleftrightarrow> condition_depth vm = 0"
    and "SkipConditionalBlock is_if vm = Some vm' \<Longrightarrow> vm_ok vm' \<and> same_code vm vm' \<and> instruction_ptr vm \<le> instruction_ptr vm'"
  using Skip_loop_total [OF assms, of is_if "condition_depth vm - 1"]
  by (auto simp: SkipConditionalBlock_def split: if_splits)

section \<open>Blocks of instructions\<close>

text \<open>Decoding depends on nothing but the program, the pointer and the flag.\<close>

definition other_state :: "cheat_vm \<Rightarrow> cheat_vm \<Rightarrow> cheat_vm" where
  "other_state x vm = vm\<lparr>condition_depth := condition_depth x, registers := registers x, saved_values := saved_values x,
     static_registers := static_registers x, loop_tops := loop_tops x\<rparr>"

definition at_state :: "cheat_vm \<Rightarrow> cheat_vm \<times> 'a \<Rightarrow> cheat_vm \<times> 'a" where
  "at_state x = (\<lambda>(vm, v). (other_state x vm, v))"

definition state_blind :: "cheat_vm \<Rightarrow> 'a dec \<Rightarrow> bool" where
  "state_blind x f \<longleftrightarrow> (\<forall>s. f (at_state x s) = map_option (\<lambda>(a, s'). (a, at_state x s')) (f s))"

lemma state_blind_return: "state_blind x (\<lambda>s. Some (a, s))"
  by (simp add: state_blind_def)

lemma state_blind_fail: "state_blind x (\<lambda>s. Some (a, fst s, False))"
  by (auto simp: state_blind_def at_state_def)

lemma state_blind_if: "state_blind x f \<Longrightarrow> state_blind x g \<Longrightarrow> state_blind x (\<lambda>s. if b then f s else g s)"
  by (simp add: state_blind_def)

lemma state_blind_bind:
  assumes "state_blind x f" "\<And>a. state_blind x (g a)"
  shows "state_blind x (\<lambda>s. f s \<bind> (\<lambda>(a, s'). g a s'))"
  unfolding state_blind_def
proof
  fix s
  have "f (at_state x s) = map_option (\<lambda>(a, s'). (a, at_state x s')) (f s)"
    "g a (at_state x s') = map_option (\<lambda>(a, s'). (a, at_state x s')) (g a s')" for a s'
    using assms unfolding state_blind_def by blast+
  then show "(f (at_state x s) \<bind> (\<lambda>(a, s'). g a s')) =
      map_option (\<lambda>(a, s'). (a, at_state x s')) (f s \<bind> (\<lambda>(a, s'). g a s'))"
    by (cases "f s") (simp_all add: split_def)
qed

lemma GetNextDword_blind: "state_blind x GetNextDword"
  by (auto simp: state_blind_def GetNextDword_def at_state_def other_state_def arr_get_def split: prod.splits)

lemmas state_blind_intros = state_blind_return state_blind_fail state_blind_if state_blind_bind GetNextDword_blind

lemma operands_blind:
  "state_blind x (GetNextVmInt bw)" "state_blind x GetNextQword" "state_blind x (rel_address36 w)"
  unfolding GetNextVmInt_def [abs_def] GetNextQword_def [abs_def] rel_address36_def [abs_def]
  by (intro state_blind_intros)+

lemma decode_blind:
  "state_blind x (decode_StoreStatic w)" "state_blind x (decode_BeginConditional w)"
  "state_blind x (decode_ControlLoop w)" "state_blind x (decode_LoadRegisterStatic w)"
  "state_blind x (decode_LoadRegisterMemory w)" "state_blind x (decode_StoreStaticToAddress w)"
  "state_blind x (decode_PerformArithmeticStatic w)" "state_blind x (decode_PerformArithmeticRegister w)"
  "state_blind x (decode_StoreRegisterToAddress w)" "state_blind x (decode_BeginRegisterConditional w)"
  "state_blind x (decode_DebugLog w)"
  unfolding decode_defs [abs_def] Let_def
  by (intro state_blind_intros operands_blind)+

lemma decode_body_blind: "state_blind x (decode_body t w)"
  unfolding decode_body_def [abs_def] by (intro state_blind_if decode_blind state_blind_return state_blind_fail)

lemma DecodeNextOpcode_blind:
  assumes "DecodeNextOpcode vm = Some (Some op, vm1)"
  shows "DecodeNextOpcode (other_state x vm) = Some (Some op, other_state x vm1)"
proof -
  from assms obtain w vm2 op' vm3 where
    g: "GetNextDword (vm, decode_success vm) = Some (w, vm2, True)"
      "decode_body (opcode_type_of w) w (vm2, True) = Some (op', vm3, True)"
      "op = \<lparr>begin_conditional_block = begins_conditional (opcode_type_of w), opcode = op'\<rparr>"
      "vm1 = vm3\<lparr>decode_success := decode_success vm3\<rparr>"
    by (auto simp: DecodeNextOpcode_def bind_eq_Some_conv Let_def split: if_splits)
  have "GetNextDword (other_state x vm, decode_success vm) = Some (w, other_state x vm2, True)"
    using GetNextDword_blind [of x, unfolded state_blind_def, rule_format, of "(vm, decode_success vm)"] g(1)
    by (simp add: at_state_def)
  moreover have "decode_body (opcode_type_of w) w (other_state x vm2, True) = Some (op', other_state x vm3, True)"
    using decode_body_blind [of x, unfolded state_blind_def, rule_format, of "opcode_type_of w" w "(vm2, True)"] g(2)
    by (simp add: at_state_def)
  moreover have "decode_success (other_state x vm) = decode_success vm" by (simp add: other_state_def)
  ultimately show ?thesis by (simp add: DecodeNextOpcode_def g(3,4))
qed

definition same_place :: "cheat_vm \<Rightarrow> cheat_vm \<Rightarrow> bool" where
  "same_place vm vm' \<longleftrightarrow> same_code vm vm' \<and> instruction_ptr vm' = instruction_ptr vm \<and> decode_success vm' = decode_success vm"

lemma other_place: "same_place vm vm' \<Longrightarrow> other_state vm' vm = vm'"
  by (simp add: same_place_def same_code_def other_state_def)

lemma same_place_sym: "same_place vm vm' \<Longrightarrow> same_place vm' vm"
  by (simp add: same_place_def same_code_def)

lemma DecodeNextOpcode_place:
  assumes "DecodeNextOpcode vm = Some (Some op, vm1)" "same_place vm vm'"
  shows "DecodeNextOpcode vm' = Some (Some op, vm'\<lparr>instruction_ptr := instruction_ptr vm1\<rparr>)"
proof -
  from assms(1) obtain p where p: "vm1 = vm\<lparr>instruction_ptr := p\<rparr>" by (auto elim: DecodeNextOpcode_advances)
  have "other_state vm' vm1 = vm'\<lparr>instruction_ptr := p\<rparr>" using assms(2) by (simp add: p other_state_def same_place_def same_code_def)
  then show ?thesis using DecodeNextOpcode_blind [OF assms(1), of vm'] other_place [OF assms(2)] p by simp
qed

lemma DecodeNextOpcode_depth:
  assumes "DecodeNextOpcode vm = Some (Some op, vm1)"
  shows "DecodeNextOpcode (vm\<lparr>condition_depth := d\<rparr>) = Some (Some op, vm1\<lparr>condition_depth := d\<rparr>)"
proof -
  from assms obtain p where "vm1 = vm\<lparr>instruction_ptr := p\<rparr>" by (auto elim: DecodeNextOpcode_advances)
  then show ?thesis using DecodeNextOpcode_place [OF assms, of "vm\<lparr>condition_depth := d\<rparr>"] by (simp add: same_place_def)
qed

text \<open>A sequence of instructions as the decoder finds them, and where it ends.\<close>

inductive decodes :: "cheat_vm \<Rightarrow> cheat_opcode list \<Rightarrow> cheat_vm \<Rightarrow> bool" where
  stop: "decodes vm [] vm"
| more: "DecodeNextOpcode vm = Some (Some op, vm1) \<Longrightarrow> decodes vm1 ops vm' \<Longrightarrow> decodes vm (op # ops) vm'"

inductive_cases decodes_NilE: "decodes vm [] vm'"
inductive_cases decodes_ConsE: "decodes vm (op # ops) vm'"

text \<open>
  The nesting of a sequence inside a block, from level \<open>k\<close> on: \<open>None\<close> if it closes the
  block it is in or, for a block that is searched for its else, meets that else.
\<close>

fun nesting :: "bool \<Rightarrow> nat \<Rightarrow> cheat_opcode list \<Rightarrow> nat option" where
  "nesting is_if k [] = Some k"
| "nesting is_if k (op # ops) =
     (if begin_conditional_block op then nesting is_if (k + 1) ops
      else case opcode op of
        EndConditional is_else \<Rightarrow>
          if \<not> is_else then (if k = 0 then None else nesting is_if (k - 1) ops)
          else if is_if \<and> k = 0 then None else nesting is_if k ops
      | _ \<Rightarrow> nesting is_if k ops)"

lemma Skip_opcode_nesting:
  assumes "nesting is_if k (op # ops) = Some n" "condition_depth vm = d + 1 + k"
  obtains k' where "Skip_opcode is_if d op vm = (True, vm\<lparr>condition_depth := d + 1 + k'\<rparr>)"
    "nesting is_if k' ops = Some n"
proof -
  have e: "vm = vm\<lparr>condition_depth := d + 1 + k\<rparr>" using assms(2) by simp
  show thesis
  proof (cases "begin_conditional_block op")
    case True
    with assms that [of "k + 1"] show thesis by (simp add: Skip_opcode_def)
  next
    case False
    show thesis
    proof (cases "\<exists>b. opcode op = EndConditional b")
      case end_block: True
      then obtain b where b: "opcode op = EndConditional b" by blast
      show thesis
      proof (cases b)
        case True
        with assms False b that [of k] show thesis by (auto simp: Skip_opcode_def split: if_splits)
      next
        case no_else: False
        with assms False b that [of "k - 1"] show thesis by (auto simp: Skip_opcode_def split: if_splits)
      qed
    next
      case other: False
      with assms False that [of k] show thesis by (cases "opcode op") (auto simp: Skip_opcode_def)
    qed
  qed
qed

lemma Skip_loop_nesting:
  assumes "decodes vm (ops @ [last_op]) vm'" "nesting is_if k ops = Some 0"
    and last_op: "\<not> begin_conditional_block last_op" "opcode last_op = EndConditional is_else" "is_else \<longrightarrow> is_if"
  shows "Skip_loop is_if d (vm\<lparr>condition_depth := d + 1 + k\<rparr>) =
    Some (vm'\<lparr>condition_depth := if is_else then d + 1 else d\<rparr>)"
  using assms(1,2)
proof (induction ops arbitrary: vm k)
  case Nil
  then have "DecodeNextOpcode vm = Some (Some last_op, vm')" "k = 0"
    by (auto elim!: decodes_ConsE decodes_NilE)
  from DecodeNextOpcode_depth [OF this(1)] this(2) last_op show ?case
    by (auto simp: Skip_loop.simps [of is_if d "vm\<lparr>condition_depth := Suc d\<rparr>"]
        Skip_loop.simps [of is_if d "vm'\<lparr>condition_depth := d\<rparr>"] Skip_opcode_def)
next
  case (Cons op ops)
  from Cons.prems(1) obtain vm1 where d: "DecodeNextOpcode vm = Some (Some op, vm1)"
    "decodes vm1 (ops @ [last_op]) vm'" by (auto elim: decodes_ConsE)
  let ?vm = "vm1\<lparr>condition_depth := d + 1 + k\<rparr>"
  obtain k' where k': "Skip_opcode is_if d op ?vm = (True, ?vm\<lparr>condition_depth := d + 1 + k'\<rparr>)"
    "nesting is_if k' ops = Some 0"
    using Skip_opcode_nesting [OF Cons.prems(2), of ?vm d] by auto
  from Cons.IH [OF d(2) k'(2)] k'(1) DecodeNextOpcode_depth [OF d(1), of "d + 1 + k"] show ?case
    by (subst Skip_loop.simps) simp
qed

lemma decodes_frame:
  "decodes vm ops vm' \<Longrightarrow> vm' = vm\<lparr>instruction_ptr := instruction_ptr vm'\<rparr>"
proof (induction rule: decodes.induct)
  case (more vm op vm1 ops vm')
  from more(1) obtain p where "vm1 = vm\<lparr>instruction_ptr := p\<rparr>" by (auto elim: DecodeNextOpcode_advances)
  with more(3) show ?case by simp
qed simp

section \<open>Loading\<close>

definition entries_code :: "cheat_entry list \<Rightarrow> u32 list" where
  "entries_code entries =
     concat (map (\<lambda>e. take (def_num_opcodes (cheat_def e)) (def_opcodes (cheat_def e))) (filter enabled entries))"

lemma LoadProgram_copy_copies:
  assumes "length (vm_program vm) = MaximumProgramOpcodeCount" "i + n \<le> length ops"
    and "num_opcodes vm + n \<le> MaximumProgramOpcodeCount"
  shows "LoadProgram_copy [i..<i + n] ops vm = Some (vm\<lparr>
    vm_program := take (num_opcodes vm) (vm_program vm) @ take n (drop i ops) @ drop (num_opcodes vm + n) (vm_program vm),
    num_opcodes := num_opcodes vm + n\<rparr>)"
  using assms
proof (induction n arbitrary: i vm)
  case (Suc n)
  let ?vm = "vm\<lparr>vm_program := (vm_program vm)[num_opcodes vm := ops ! i], num_opcodes := num_opcodes vm + 1\<rparr>"
  have "[i..<i + Suc n] = i # [Suc i..<Suc i + n]" by (simp add: upt_conv_Cons)
  moreover have "take (num_opcodes ?vm) (vm_program ?vm) = take (num_opcodes vm) (vm_program vm) @ [ops ! i]"
    using Suc.prems by (simp add: take_Suc_conv_app_nth)
  moreover have "drop i ops = ops ! i # drop (Suc i) ops" using Suc.prems by (simp add: Cons_nth_drop_Suc)
  ultimately show ?case using Suc.IH [of ?vm "Suc i"] Suc.prems by simp
qed simp

lemma LoadProgram_loop_loads:
  assumes "vm_ok vm" "\<forall>e\<in>set entries. enabled e \<longrightarrow> def_num_opcodes (cheat_def e) \<le> length (def_opcodes (cheat_def e))"
  shows "\<exists>vm'. LoadProgram_loop entries vm =
      Some (num_opcodes vm + length (entries_code entries) \<le> MaximumProgramOpcodeCount, vm') \<and> vm_ok vm' \<and>
    (if num_opcodes vm + length (entries_code entries) \<le> MaximumProgramOpcodeCount
     then take (num_opcodes vm') (vm_program vm') = take (num_opcodes vm) (vm_program vm) @ entries_code entries
     else num_opcodes vm' = 0) \<and>
    vm' = vm\<lparr>vm_program := vm_program vm', num_opcodes := num_opcodes vm'\<rparr>"
  using assms
proof (induction entries arbitrary: vm)
  case Nil
  then show ?case by (auto simp: entries_code_def vm_ok_def)
next
  case (Cons e es)
  let ?n = "def_num_opcodes (cheat_def e)" and ?ops = "def_opcodes (cheat_def e)"
  show ?case
  proof (cases "enabled e")
    case False
    then have "entries_code (e # es) = entries_code es" "LoadProgram_loop (e # es) vm = LoadProgram_loop es vm"
      by (simp_all add: entries_code_def)
    moreover have "\<forall>e\<in>set es. enabled e \<longrightarrow> def_num_opcodes (cheat_def e) \<le> length (def_opcodes (cheat_def e))"
      using Cons.prems(2) by simp
    ultimately show ?thesis using Cons.IH [OF Cons.prems(1)] by (simp only:)
  next
    case en: True
    with Cons.prems have c: "entries_code (e # es) = take ?n ?ops @ entries_code es" "?n \<le> length ?ops"
      by (auto simp: entries_code_def)
    show ?thesis
    proof (cases "num_opcodes vm + ?n \<le> MaximumProgramOpcodeCount")
      case False
      with en c Cons.prems show ?thesis
        by (intro exI [of _ "vm\<lparr>num_opcodes := 0\<rparr>"]) (auto simp: vm_ok_def)
    next
      case True
      let ?vm = "vm\<lparr>vm_program := take (num_opcodes vm) (vm_program vm) @ take ?n ?ops @
          drop (num_opcodes vm + ?n) (vm_program vm), num_opcodes := num_opcodes vm + ?n\<rparr>"
      have l: "LoadProgram_loop (e # es) vm = LoadProgram_loop es ?vm"
        using LoadProgram_copy_copies [of vm 0 ?n ?ops] c(2) True en Cons.prems(1)
        by (simp add: vm_ok_def add.commute)
      have ok: "vm_ok ?vm" using Cons.prems(1) c(2) True by (auto simp: vm_ok_def)
      have tk: "take (num_opcodes ?vm) (vm_program ?vm) = take (num_opcodes vm) (vm_program vm) @ take ?n ?ops"
        using Cons.prems(1) c(2) True by (simp add: vm_ok_def)
      have len: "num_opcodes ?vm + length (entries_code es) = num_opcodes vm + length (entries_code (e # es))"
        using c by simp
      from Cons.IH [OF ok] Cons.prems(2) obtain vm' where
        "LoadProgram_loop es ?vm = Some (num_opcodes ?vm + length (entries_code es) \<le> MaximumProgramOpcodeCount, vm')"
        "vm_ok vm'"
        "if num_opcodes ?vm + length (entries_code es) \<le> MaximumProgramOpcodeCount
         then take (num_opcodes vm') (vm_program vm') = take (num_opcodes ?vm) (vm_program ?vm) @ entries_code es
         else num_opcodes vm' = 0"
        "vm' = ?vm\<lparr>vm_program := vm_program vm', num_opcodes := num_opcodes vm'\<rparr>" by auto
      then show ?thesis unfolding l len tk c(1) by (intro exI [of _ vm']) simp
    qed
  qed
qed

section \<open>Executing an instruction\<close>

text \<open>The ways an instruction can go wrong.\<close>

definition is_shift :: "u32 \<Rightarrow> bool" where
  "is_shift math_type \<longleftrightarrow> math_type = Math_LeftShift \<or> math_type = Math_RightShift"

fun goes_wrong :: "opcode_data \<Rightarrow> cheat_vm \<Rightarrow> bool" where
  "goes_wrong (PerformArithmeticStatic bw r mt v) vm \<longleftrightarrow> is_shift mt \<and> v \<ge> 64"
| "goes_wrong (PerformArithmeticRegister bw mt d s1 s2 imm v) vm \<longleftrightarrow>
     is_shift mt \<and> (if imm then GetVmInt v bw else registers vm ! unat s2) \<ge> 64"
| "goes_wrong (EndConditional is_else) vm \<longleftrightarrow> is_else \<and> condition_depth vm = 0"
| "goes_wrong _ vm \<longleftrightarrow> False"

lemma reg_get_ok [simp]: "vm_ok vm \<Longrightarrow> reg_ok i \<Longrightarrow> reg_get i vm = Some (registers vm ! unat i)"
  by (simp add: reg_get_def reg_ok_def vm_ok_def)

lemma reg_set_ok [simp]:
  "vm_ok vm \<Longrightarrow> reg_ok i \<Longrightarrow> reg_set i v vm = Some (vm\<lparr>registers := (registers vm)[unat i := v]\<rparr>)"
  by (simp add: reg_set_def reg_ok_def vm_ok_def)

lemma vm_ok_arrays [simp]:
  "vm_ok vm \<Longrightarrow> vm_ok (vm\<lparr>registers := (registers vm)[i := v]\<rparr>)"
  "vm_ok vm \<Longrightarrow> vm_ok (vm\<lparr>registers := (registers vm)[i := v], instruction_ptr := p\<rparr>)"
  "vm_ok vm \<Longrightarrow> vm_ok (vm\<lparr>registers := (registers vm)[i := v], loop_tops := (loop_tops vm)[j := p]\<rparr>)"
  "vm_ok vm \<Longrightarrow> vm_ok (vm\<lparr>saved_values := (saved_values vm)[i := v]\<rparr>)"
  "vm_ok vm \<Longrightarrow> vm_ok (vm\<lparr>static_registers := (static_registers vm)[i := v]\<rparr>)"
  "vm_ok vm \<Longrightarrow> vm_ok (vm\<lparr>registers := masked_copy c m src dst\<rparr>)"
  "vm_ok vm \<Longrightarrow> vm_ok (vm\<lparr>saved_values := masked_copy c m src dst\<rparr>)"
  by (simp_all add: vm_ok_def masked_copy_def)

lemma array_access_ok [simp]:
  "vm_ok vm \<Longrightarrow> reg_ok i \<Longrightarrow> arr_get (saved_values vm) (unat i) = Some (saved_values vm ! unat i)"
  "vm_ok vm \<Longrightarrow> reg_ok i \<Longrightarrow> arr_set (saved_values vm) (unat i) v = Some ((saved_values vm)[unat i := v])"
  "vm_ok vm \<Longrightarrow> reg_ok i \<Longrightarrow> arr_get (loop_tops vm) (unat i) = Some (loop_tops vm ! unat i)"
  "vm_ok vm \<Longrightarrow> reg_ok i \<Longrightarrow> arr_set (loop_tops vm) (unat i) t = Some ((loop_tops vm)[unat i := t])"
  by (simp_all add: vm_ok_def reg_ok_def)

lemma math_defined:
  "math_static mt a b = None \<longleftrightarrow> is_shift mt \<and> b \<ge> 64"
  "math_register mt a b = None \<longleftrightarrow> is_shift mt \<and> b \<ge> 64"
  by (auto simp: math_static_def math_register_def is_shift_def shift_left_def shift_right_def vm_enum_defs)

lemma ucast_shift_bound: "(64 \<le> (ucast (v :: u32) :: u64)) = (64 \<le> v)"
proof -
  have "unat v < 2 ^ LENGTH(32)" by (rule unsigned_less)
  then have "take_bit 64 (unat v) = unat v" by (simp add: take_bit_nat_eq_self)
  then show ?thesis by (simp add: word_le_nat_alt unsigned_ucast_eq)
qed

text \<open>
  The result of an instruction on a well-formed machine: \<open>None\<close> exactly when it goes wrong;
  otherwise a well-formed machine with the same program, whose pointer has not moved back unless the
  instruction is the end of a loop.
\<close>

definition steps_to :: "bool \<Rightarrow> opcode_data \<Rightarrow> cheat_vm \<Rightarrow> (cheat_vm \<times> 'w) option \<Rightarrow> bool" where
  "steps_to wrong op vm r \<longleftrightarrow> (r = None \<longleftrightarrow> wrong) \<and>
     (\<forall>vm' w'. r = Some (vm', w') \<longrightarrow> vm_ok vm' \<and> same_code vm vm' \<and>
        ((\<forall>i n. op \<noteq> ControlLoop False i n) \<longrightarrow> instruction_ptr vm \<le> instruction_ptr vm'))"

lemma skip_unless_steps:
  assumes "vm_ok vm" "condition_depth vm > 0"
  shows "steps_to False op vm (skip_unless met (vm, w))"
  using SkipConditionalBlock_total [OF assms(1), of True] assms(1,2)
  by (auto simp: steps_to_def skip_unless_def)

lemma operand_address_ok:
  assumes "vm_ok vm" "reg_ok ar" "reg_ok orr"
  shows "\<exists>a. operand_address md t mt ar orr rel vm = Some a"
  using assms by (auto simp: operand_address_def)

lemma Execute_opcode_steps:
  assumes "vm_ok vm" "op_ok op" "is_begin op \<Longrightarrow> condition_depth vm > 0"
  shows "steps_to (goes_wrong op vm) op vm (Execute_opcode cb md k op (vm, w))"
proof (cases op)
  case (StoreStatic bw mt ofs rel v)
  with assms show ?thesis by (auto simp: steps_to_def exec_StoreStatic_def Let_def)
next
  case (BeginConditional bw mt ct rel v)
  with assms skip_unless_steps [of vm] show ?thesis
    by (auto simp: exec_BeginConditional_def Let_def is_begin_def split: prod.splits)
next
  case (EndConditional is_else)
  with assms SkipConditionalBlock_total [OF assms(1), of False] show ?thesis
    by (auto simp: steps_to_def exec_EndConditional_def)
next
  case (ControlLoop start r n)
  with assms show ?thesis
    by (auto simp: steps_to_def exec_ControlLoop_def)
next
  case (LoadRegisterStatic r v)
  with assms show ?thesis by (auto simp: steps_to_def exec_LoadRegisterStatic_def)
next
  case (LoadRegisterMemory bw mt r lr rel)
  with assms show ?thesis
    by (auto simp: steps_to_def exec_LoadRegisterMemory_def Let_def split: prod.splits)
next
  case (StoreStaticToAddress bw r inc add ofs v)
  with assms show ?thesis by (auto simp: steps_to_def exec_StoreStaticToAddress_def Let_def)
next
  case (PerformArithmeticStatic bw r mt v)
  with assms math_defined(1) [of mt "registers vm ! unat r" "ucast v"] show ?thesis
    by (cases "math_static mt (registers vm ! unat r) (ucast v)")
      (auto simp: steps_to_def exec_PerformArithmeticStatic_def ucast_shift_bound)
next
  case (BeginKeypressConditional m)
  with assms skip_unless_steps [of vm] show ?thesis
    by (auto simp: exec_BeginKeypressConditional_def is_begin_def)
next
  case (PerformArithmeticRegister bw mt d s1 s2 imm v)
  let ?b = "if imm then GetVmInt v bw else registers vm ! unat s2"
  from PerformArithmeticRegister assms math_defined(2) [of mt "registers vm ! unat s1" ?b] show ?thesis
    by (cases "math_register mt (registers vm ! unat s1) ?b")
      (auto simp: steps_to_def exec_PerformArithmeticRegister_def split: if_splits)
next
  case (StoreRegisterToAddress bw sr ar inc ot mt orr rel)
  with assms show ?thesis by (auto simp: steps_to_def exec_StoreRegisterToAddress_def Let_def)
next
  case (BeginRegisterConditional bw ct vr cmp mt ar otr orr rel v)
  with assms operand_address_ok [of vm ar orr md cmp mt rel] skip_unless_steps [of vm] show ?thesis
    by (auto simp: exec_BeginRegisterConditional_def Let_def is_begin_def split: prod.splits)
next
  case (SaveRestoreRegister d sr op)
  with assms show ?thesis by (auto simp: steps_to_def exec_SaveRestoreRegister_def)
next
  case (SaveRestoreRegisterMask op m)
  with assms show ?thesis by (auto simp: steps_to_def exec_SaveRestoreRegisterMask_def Let_def)
next
  case (ReadWriteStaticRegister si i)
  with assms have "unat si < length (static_registers vm)" by (simp add: vm_ok_def)
  with ReadWriteStaticRegister assms show ?thesis
    by (auto simp: steps_to_def exec_ReadWriteStaticRegister_def)
next
  case (DebugLog bw li vt mt ar vr orr rel)
  with assms operand_address_ok [of vm ar orr md vt mt rel] show ?thesis
    by (auto simp: steps_to_def exec_DebugLog_def split: prod.splits)
qed (use assms in \<open>auto simp: steps_to_def\<close>)

section \<open>Steps and runs\<close>

text \<open>The machine an instruction is executed on: a block that begins counts before it is tested.\<close>

definition entered :: "cheat_opcode \<Rightarrow> cheat_vm \<Rightarrow> cheat_vm" where
  "entered op vm = (if begin_conditional_block op then vm\<lparr>condition_depth := condition_depth vm + 1\<rparr> else vm)"

lemma entered_plain [simp]: "\<not> begin_conditional_block op \<Longrightarrow> entered op vm = vm"
  by (simp add: entered_def)

lemma Execute_step_cases:
  assumes "vm_ok vm"
  obtains (finished) vm' where "Execute_step cb md k (vm, w) = Some (Inr (vm', w))"
      "DecodeNextOpcode vm = Some (None, vm')" "vm_ok vm'" "same_code vm vm'"
  | (wrong) op vm1 where "Execute_step cb md k (vm, w) = None" "DecodeNextOpcode vm = Some (Some op, vm1)"
      "goes_wrong (opcode op) (entered op vm1)"
  | (step) op vm1 vm' w' where "Execute_step cb md k (vm, w) = Some (Inl (vm', w'))"
      "DecodeNextOpcode vm = Some (Some op, vm1)" "\<not> goes_wrong (opcode op) (entered op vm1)"
      "Execute_opcode cb md k (opcode op) (entered op vm1, w) = Some (vm', w')" "vm_ok vm'" "same_code vm vm'"
      "(\<forall>i n. opcode op \<noteq> ControlLoop False i n) \<Longrightarrow> instruction_ptr vm < instruction_ptr vm'"
      "instruction_ptr vm < num_opcodes vm"
  using assms
proof (cases rule: DecodeNextOpcode_total)
  case (eof vm')
  with DecodeNextOpcode_eof [OF eof(1)] show thesis by (intro finished [of vm']) (auto simp: Execute_step_def)
next
  case (op op vm1)
  then obtain p where p: "instruction_ptr vm < p" "p \<le> num_opcodes vm" "vm1 = vm\<lparr>instruction_ptr := p\<rparr>"
    by (auto elim: DecodeNextOpcode_advances)
  let ?vm = "entered op vm1"
  have v: "vm_ok ?vm" "is_begin (opcode op) \<Longrightarrow> condition_depth ?vm > 0"
    using op by (auto simp: entered_def)
  have e: "Execute_step cb md k (vm, w) = map_option Inl (Execute_opcode cb md k (opcode op) (?vm, w))"
    using op(1) by (simp add: Execute_step_def entered_def)
  have s: "steps_to (goes_wrong (opcode op) ?vm) (opcode op) ?vm (Execute_opcode cb md k (opcode op) (?vm, w))"
    using Execute_opcode_steps [OF v(1) op(3) v(2)] by simp
  show thesis
  proof (cases "Execute_opcode cb md k (opcode op) (?vm, w)")
    case None
    with s e op(1) wrong show thesis by (auto simp: steps_to_def)
  next
    case (Some r)
    then obtain vm' w' where r: "Execute_opcode cb md k (opcode op) (?vm, w) = Some (vm', w')" by (cases r) auto
    with s have "\<not> goes_wrong (opcode op) ?vm" "vm_ok vm'" "same_code ?vm vm'"
      "(\<forall>i n. opcode op \<noteq> ControlLoop False i n) \<longrightarrow> instruction_ptr ?vm \<le> instruction_ptr vm'"
      by (auto simp: steps_to_def)
    moreover have "same_code vm vm'" "instruction_ptr ?vm = p"
      using \<open>same_code ?vm vm'\<close> p(3) by (auto simp: entered_def same_code_def split: if_splits)
    ultimately show thesis using step [of vm' w' op vm1] e op(1) r p by auto
  qed
qed

section \<open>Programs without loops\<close>

text \<open>
  The instructions of a program, decoded one after the other from the pointer on: operand words are
  part of their instruction and are not decoded on their own.
\<close>

function instructions :: "cheat_vm \<Rightarrow> cheat_opcode list" where
  "instructions vm = (case DecodeNextOpcode vm of Some (Some op, vm1) \<Rightarrow> op # instructions vm1 | _ \<Rightarrow> [])"
  by pat_completeness auto
termination
proof (relation "measure (\<lambda>vm. num_opcodes vm - instruction_ptr vm)")
  fix vm x2 x y op
  assume "DecodeNextOpcode vm = Some x2" "(x, y) = x2" "x = Some op"
  then obtain p where "instruction_ptr vm < p" "p \<le> num_opcodes vm" "y = vm\<lparr>instruction_ptr := p\<rparr>"
    by (auto elim: DecodeNextOpcode_advances)
  then show "(y, vm) \<in> measure (\<lambda>vm. num_opcodes vm - instruction_ptr vm)" by auto
qed simp

declare instructions.simps [simp del]

lemma instructions_Cons: "DecodeNextOpcode vm = Some (Some op, vm1) \<Longrightarrow> instructions vm = op # instructions vm1"
  by (simp add: instructions.simps [of vm])

lemma instructions_stopped: "\<not> decode_success vm \<Longrightarrow> instructions vm = []"
  by (subst instructions.simps) (auto elim: DecodeNextOpcode_advances split: option.splits)

lemma instructions_place: "same_place vm vm' \<Longrightarrow> instructions vm' = instructions vm"
proof (induction vm arbitrary: vm' rule: instructions.induct)
  case (1 vm)
  show ?case
  proof (cases "\<exists>op vm1. DecodeNextOpcode vm = Some (Some op, vm1)")
    case True
    then obtain op vm1 where d: "DecodeNextOpcode vm = Some (Some op, vm1)" by blast
    then obtain p where p: "vm1 = vm\<lparr>instruction_ptr := p\<rparr>" by (auto elim: DecodeNextOpcode_advances)
    have "same_place vm1 (vm'\<lparr>instruction_ptr := p\<rparr>)" using 1(2) by (simp add: p same_place_def same_code_def)
    from 1(1) [OF d refl refl this] instructions_Cons [OF d] instructions_Cons [OF DecodeNextOpcode_place [OF d 1(2)]] p show ?thesis by simp
  next
    case False
    then have "\<nexists>op vm1. DecodeNextOpcode vm' = Some (Some op, vm1)" using DecodeNextOpcode_place same_place_sym [OF 1(2)] by blast
    with False show ?thesis by (auto simp: instructions.simps [of vm] instructions.simps [of vm'] split: option.splits)
  qed
qed

text \<open>
  Instructions that cannot go wrong in a block of depth \<open>d\<close>: an else is inside of a block, and a
  shift has a constant amount below 64.
\<close>

fun shift_ok :: "opcode_data \<Rightarrow> bool" where
  "shift_ok (PerformArithmeticStatic bw r mt v) \<longleftrightarrow> \<not> is_shift mt \<or> v < 64"
| "shift_ok (PerformArithmeticRegister bw mt d s1 s2 imm v) \<longleftrightarrow> \<not> is_shift mt \<or> imm \<and> GetVmInt v bw < 64"
| "shift_ok _ \<longleftrightarrow> True"

definition depth_after :: "nat \<Rightarrow> cheat_opcode \<Rightarrow> nat" where
  "depth_after d op = (if begin_conditional_block op then d + 1 else if opcode op = EndConditional False then d - 1 else d)"

fun harmless :: "nat \<Rightarrow> cheat_opcode list \<Rightarrow> bool" where
  "harmless d [] \<longleftrightarrow> True"
| "harmless d (op # ops) \<longleftrightarrow> shift_ok (opcode op) \<and> (opcode op \<noteq> EndConditional True \<or> d > 0) \<and> harmless (depth_after d op) ops"

fun ends_loop :: "opcode_data \<Rightarrow> bool" where
  "ends_loop (ControlLoop start r n) \<longleftrightarrow> \<not> start"
| "ends_loop _ \<longleftrightarrow> False"

lemma not_ends_loop: "\<not> ends_loop op \<longleftrightarrow> (\<forall>i n. op \<noteq> ControlLoop False i n)"
  by (cases op) auto

lemma harmless_right: "harmless d (op # ops) \<Longrightarrow> condition_depth vm = d \<Longrightarrow> (begin_conditional_block op \<longleftrightarrow> is_begin (opcode op)) \<Longrightarrow>
    \<not> goes_wrong (opcode op) (entered op vm)"
  by (cases "opcode op") (auto simp: entered_def is_begin_def not_le)

lemma Skip_opcode_depth:
  assumes "Skip_opcode is_if d op vm = (b, vm2)" "begin_conditional_block op \<longleftrightarrow> is_begin (opcode op)"
  shows "vm2 = vm\<lparr>condition_depth := depth_after (condition_depth vm) op\<rparr>"
  using assms by (cases "opcode op") (auto simp: Skip_opcode_def depth_after_def is_begin_def split: if_splits)

text \<open>What remains of the program after a skip, and the depth that goes with it.\<close>

definition continues :: "cheat_vm \<Rightarrow> cheat_vm \<Rightarrow> bool" where
  "continues vm vm' \<longleftrightarrow> set (instructions vm') \<subseteq> set (instructions vm) \<and>
     (harmless (condition_depth vm) (instructions vm) \<longrightarrow> harmless (condition_depth vm') (instructions vm'))"

lemma continues_place: "same_place vm vm' \<Longrightarrow> condition_depth vm' = condition_depth vm \<Longrightarrow> continues vm vm'"
  by (simp add: continues_def instructions_place)

lemma continues_trans: "continues vm vm1 \<Longrightarrow> continues vm1 vm2 \<Longrightarrow> continues vm vm2"
  by (auto simp: continues_def)

lemma DecodeNextOpcode_begins:
  assumes "DecodeNextOpcode vm = Some (Some op, vm1)"
  shows "begin_conditional_block op \<longleftrightarrow> is_begin (opcode op)"
  using assms by (auto simp: DecodeNextOpcode_def bind_eq_Some_conv Let_def split: if_splits dest: decode_body_begin)

lemma continues_over:
  assumes "DecodeNextOpcode vm = Some (Some op, vm1)" "same_place vm1 vm2" "condition_depth vm2 = depth_after (condition_depth vm) op"
  shows "continues vm vm2"
  using instructions_Cons [OF assms(1)] instructions_place [OF assms(2)] assms(3) by (auto simp: continues_def)

lemma Skip_loop_continues: "Skip_loop is_if d vm = Some vm' \<Longrightarrow> continues vm vm'"
proof (induction is_if d vm rule: Skip_loop.induct)
  case (1 is_if d vm)
  note unfold = Skip_loop.simps [of is_if d vm]
  show ?case
  proof (cases "condition_depth vm > d \<and> (\<exists>op vm1. DecodeNextOpcode vm = Some (Some op, vm1))")
    case True
    then obtain op vm1 where d: "condition_depth vm > d" "DecodeNextOpcode vm = Some (Some op, vm1)" by blast
    then obtain p where p: "vm1 = vm\<lparr>instruction_ptr := p\<rparr>" by (auto elim: DecodeNextOpcode_advances)
    obtain b vm2 where b: "Skip_opcode is_if d op vm1 = (b, vm2)" by (cases "Skip_opcode is_if d op vm1")
    have v: "vm2 = vm1\<lparr>condition_depth := depth_after (condition_depth vm1) op\<rparr>" using Skip_opcode_depth [OF b DecodeNextOpcode_begins [OF d(2)]] .
    have o: "continues vm vm2" by (rule continues_over [OF d(2)]) (use v p in \<open>simp_all add: same_place_def\<close>)
    show ?thesis
    proof (cases b)
      case True
      then have "Skip_loop is_if d vm2 = Some vm'" using 1(2) d b by (simp add: unfold)
      then have "continues vm2 vm'" using 1(1) d b True by simp
      with o show ?thesis by (rule continues_trans)
    next
      case False
      then show ?thesis using 1(2) d b o by (simp add: unfold)
    qed
  next
    case False
    then have "vm' = vm \<or> DecodeNextOpcode vm = Some (None, vm')" using 1(2) by (auto simp: unfold split: if_splits option.splits)
    then show ?thesis using DecodeNextOpcode_eof(4) instructions_stopped by (auto simp: continues_def)
  qed
qed

lemma Execute_opcode_place:
  assumes "Execute_opcode cb md k op (vm, w) = Some (vm', w')" "\<not> ends_loop op"
  shows "same_place vm vm' \<and> condition_depth vm' = (if op = EndConditional False then condition_depth vm - 1 else condition_depth vm) \<or>
    op \<noteq> EndConditional False \<and> (\<exists>b. SkipConditionalBlock b vm = Some vm')"
  using assms
  by (cases op) (auto simp: same_place_def same_code_def exec_StoreStatic_def exec_BeginConditional_def exec_EndConditional_def exec_ControlLoop_def
      exec_LoadRegisterStatic_def exec_LoadRegisterMemory_def exec_StoreStaticToAddress_def exec_PerformArithmeticStatic_def
      exec_BeginKeypressConditional_def exec_PerformArithmeticRegister_def exec_StoreRegisterToAddress_def exec_BeginRegisterConditional_def
      exec_SaveRestoreRegister_def exec_SaveRestoreRegisterMask_def exec_ReadWriteStaticRegister_def exec_DebugLog_def
      skip_unless_def reg_set_def Let_def bind_eq_Some_conv split: if_splits prod.splits)

lemma Execute_opcode_continues:
  assumes "DecodeNextOpcode vm = Some (Some op, vm1)" "Execute_opcode cb md k (opcode op) (entered op vm1, w) = Some (vm', w')"
    and "\<not> ends_loop (opcode op)"
  shows "continues vm vm'"
proof -
  note begins = DecodeNextOpcode_begins [OF assms(1)]
  from assms(1) obtain p where p: "vm1 = vm\<lparr>instruction_ptr := p\<rparr>" by (auto elim: DecodeNextOpcode_advances)
  have e: "same_place vm1 (entered op vm1)" "condition_depth (entered op vm1) = (if begin_conditional_block op then condition_depth vm + 1 else condition_depth vm)"
    by (simp_all add: entered_def same_place_def p)
  from Execute_opcode_place [OF assms(2,3)] show ?thesis
  proof (elim disjE conjE exE)
    assume "same_place (entered op vm1) vm'"
      "condition_depth vm' = (if opcode op = EndConditional False then condition_depth (entered op vm1) - 1 else condition_depth (entered op vm1))"
    then show ?thesis using e begins
      by (intro continues_over [OF assms(1)]) (auto simp: same_place_def same_code_def depth_after_def is_begin_def)
  next
    fix b
    assume n: "opcode op \<noteq> EndConditional False" and "SkipConditionalBlock b (entered op vm1) = Some vm'"
    then have "continues (entered op vm1) vm'" using Skip_loop_continues by (auto simp: SkipConditionalBlock_def split: if_splits)
    moreover have "continues vm (entered op vm1)" using e n by (intro continues_over [OF assms(1)]) (simp_all add: depth_after_def)
    ultimately show ?thesis using continues_trans by blast
  qed
qed

text \<open>The program of a machine, and that no instruction of it ends a loop.\<close>

definition loop_free :: "cheat_vm \<Rightarrow> bool" where
  "loop_free vm \<longleftrightarrow> list_all (\<lambda>op. \<not> ends_loop (opcode op)) (instructions (ResetState vm))"

lemma Execute_loop_finishes:
  assumes "vm_ok vm" "\<forall>op\<in>set (instructions vm). \<not> ends_loop (opcode op)" "num_opcodes vm - instruction_ptr vm < fuel"
  shows "(\<exists>s'. Execute_loop fuel cb md k (vm, w) = Some (Finished s')) \<or>
    Execute_loop fuel cb md k (vm, w) = None \<and> \<not> harmless (condition_depth vm) (instructions vm)"
  using assms
proof (induction fuel arbitrary: vm w)
  case (Suc fuel)
  from Suc.prems(1) show ?case
  proof (cases rule: Execute_step_cases [where cb = cb and md = md and k = k and w = w])
    case (finished vm')
    then show ?thesis by simp
  next
    case (wrong op vm1)
    then have d: "condition_depth vm1 = condition_depth vm" by (auto elim: DecodeNextOpcode_advances)
    have "\<not> harmless (condition_depth vm) (op # instructions vm1)"
      using harmless_right [OF _ d DecodeNextOpcode_begins [OF wrong(2)]] wrong(3) by blast
    with wrong(1) instructions_Cons [OF wrong(2)] show ?thesis by simp
  next
    case (step op vm1 vm' w')
    have n: "\<not> ends_loop (opcode op)" using Suc.prems(2) instructions_Cons [OF step(2)] by simp
    note c = Execute_opcode_continues [OF step(2,4) n]
    have "instruction_ptr vm < instruction_ptr vm'" using n by (intro step(7)) (simp add: not_ends_loop)
    with step(8,6) Suc.prems(3) have "num_opcodes vm' - instruction_ptr vm' < fuel" by (auto simp: same_code_def)
    from Suc.IH [OF step(5) _ this, of w'] c Suc.prems(2) step(1) show ?thesis by (auto simp: continues_def)
  qed
qed simp

section \<open>Frames\<close>

text \<open>
  A relation between host states that every callback respects is respected by every run: what the
  callbacks cannot do, no cheat program can do.  A write has at most eight bytes.
\<close>

locale callback_frame =
  fixes cb :: "'w callbacks" and frame :: "'w \<Rightarrow> 'w \<Rightarrow> bool"
  assumes frame_refl: "frame w w"
    and frame_trans: "frame w w' \<Longrightarrow> frame w' w'' \<Longrightarrow> frame w w''"
    and frame_read: "n \<le> 8 \<Longrightarrow> frame w (snd (MemoryReadUnsafe cb a n w))"
    and frame_write: "length bs \<le> 8 \<Longrightarrow> frame w (MemoryWriteUnsafe cb a bs w)"
    and frame_keys: "frame w (snd (HidKeysDown cb w))"
    and frame_pause: "frame w (CbPauseProcess cb w)"
    and frame_resume: "frame w (CbResumeProcess cb w)"
    and frame_log: "frame w (CbDebugLog cb i v w)"
begin

lemma read_memory_frame: "frame w (snd (read_memory cb bw a old w))"
  using frame_read [of "unat bw" w a] frame_refl [of w]
  by (auto simp: read_memory_def valid_width_def split_def Let_def)

lemma read_memory_frame_eq: "read_memory cb bw a old w = (x, w') \<Longrightarrow> frame w w'"
  using read_memory_frame [of w bw a old] by simp

lemma write_memory_frame: "frame w (write_memory cb bw a v w)"
proof -
  have "length (le_bytes n v) = n" for n by (induction n arbitrary: v) simp_all
  then show ?thesis using frame_write frame_refl by (auto simp: write_memory_def valid_width_def)
qed

lemma skip_unless_frame: "skip_unless met (vm, w) = Some (vm', w') \<Longrightarrow> w' = w"
  by (auto simp: skip_unless_def split: if_splits)

lemmas exec_frames = read_memory_frame write_memory_frame frame_refl frame_pause frame_resume

lemma Execute_opcode_frame:
  assumes "Execute_opcode cb md k op (vm, w) = Some (vm', w')"
  shows "frame w w'"
proof (cases op)
  case (StoreStatic bw mt ofs rel v)
  with assms show ?thesis by (auto simp: exec_StoreStatic_def Let_def bind_eq_Some_conv intro: write_memory_frame)
next
  case (BeginConditional bw mt ct rel v)
  with assms have "w' = snd (read_memory cb bw (GetCheatProcessAddress md mt rel) 0 w)"
    by (auto simp: exec_BeginConditional_def Let_def split_def dest: skip_unless_frame)
  then show ?thesis by (simp add: read_memory_frame)
next
  case (LoadRegisterMemory bw mt r lr rel)
  with assms show ?thesis
    by (auto simp: exec_LoadRegisterMemory_def Let_def bind_eq_Some_conv split_def intro: read_memory_frame)
next
  case (StoreStaticToAddress bw r inc add ofs v)
  with assms show ?thesis
    by (auto simp: exec_StoreStaticToAddress_def Let_def bind_eq_Some_conv intro: write_memory_frame)
next
  case (StoreRegisterToAddress bw sr ar inc ot mt orr rel)
  with assms show ?thesis
    by (auto simp: exec_StoreRegisterToAddress_def Let_def bind_eq_Some_conv intro: write_memory_frame)
next
  case (BeginRegisterConditional bw ct vr cmp mt ar otr orr rel v)
  with assms obtain b vm1 w1 where "skip_unless b (vm1, w1) = Some (vm', w')"
    "w1 = w \<or> (\<exists>a x. read_memory cb bw a 0 w = (x, w1))"
    by (auto simp: exec_BeginRegisterConditional_def Let_def bind_eq_Some_conv split: if_splits) blast
  moreover from this(1) have "w' = w1" by (rule skip_unless_frame)
  ultimately show ?thesis using read_memory_frame_eq frame_refl by blast
next
  case (DebugLog bw li vt mt ar vr orr rel)
  with assms obtain w1 v where "w' = CbDebugLog cb (ucast li) v w1" "w1 = w \<or> (\<exists>a x. read_memory cb bw a 0 w = (x, w1))"
    by (auto simp: exec_DebugLog_def Let_def bind_eq_Some_conv split: if_splits)
  moreover from this(2) have "frame w w1" using read_memory_frame_eq frame_refl by blast
  ultimately show ?thesis using frame_log frame_trans by blast
qed (use assms in \<open>auto simp: exec_EndConditional_def exec_ControlLoop_def exec_LoadRegisterStatic_def
  exec_PerformArithmeticStatic_def exec_BeginKeypressConditional_def exec_PerformArithmeticRegister_def
  exec_SaveRestoreRegister_def exec_SaveRestoreRegisterMask_def exec_ReadWriteStaticRegister_def Let_def bind_eq_Some_conv
  split: if_splits dest: skip_unless_frame intro: exec_frames\<close>)

lemma Execute_loop_frame:
  assumes "Execute_loop fuel cb md k (vm, w) \<in> {Some (Running (vm', w')), Some (Finished (vm', w'))}"
  shows "frame w w'"
  using assms
proof (induction fuel arbitrary: vm w)
  case 0
  then show ?case by (simp add: frame_refl)
next
  case (Suc fuel)
  then obtain r where r: "Execute_step cb md k (vm, w) = Some r" by (cases "Execute_step cb md k (vm, w)") auto
  show ?case
  proof (cases r)
    case (Inr s)
    with r have "snd s = w" by (auto simp: Execute_step_def bind_eq_Some_conv split: option.splits)
    with Suc.prems r Inr show ?thesis by (cases s) (auto simp: frame_refl)
  next
    case (Inl s)
    obtain vm1 w1 where s: "s = (vm1, w1)" by (cases s)
    with r Inl obtain vm0 op where "Execute_opcode cb md k op (vm0, w) = Some (vm1, w1)"
      by (auto simp: Execute_step_def bind_eq_Some_conv split: option.splits)
    then have "frame w w1" by (rule Execute_opcode_frame)
    moreover have "frame w1 w'" using Suc.IH [of vm1 w1] Suc.prems r Inl s by simp
    ultimately show ?thesis by (rule frame_trans)
  qed
qed

lemma Execute_frame:
  assumes "Execute fuel cb md (vm, w) \<in> {Some (Running (vm', w')), Some (Finished (vm', w'))}"
  shows "frame w w'"
proof -
  obtain kd w1 where k: "HidKeysDown cb w = (kd, w1)" by fastforce
  with assms have "frame w1 w'" by (intro Execute_loop_frame [of fuel md kd "ResetState vm"]) (simp add: Execute_def)
  moreover have "frame w w1" using frame_keys [of w] k by simp
  ultimately show ?thesis using frame_trans by blast
qed

end

section \<open>Properties\<close>

text \<open>
  C10.  On a well-formed machine one turn of the main loop never leaves an array, whatever the program
  words are, and keeps the machine well-formed.  It is undefined in exactly two cases: the instruction
  shifts by 64 or more, or it is an else outside of every conditional block, which reaches the fatal
  assertion that the comment in \<open>SkipConditionalBlock\<close> believes impossible.
\<close>

theorem Execute_step_safe:
  assumes "vm_ok vm"
  shows "(Execute_step cb metadata kDown (vm, w) = None \<longleftrightarrow>
      (\<exists>op vm1. DecodeNextOpcode vm = Some (Some op, vm1) \<and> goes_wrong (opcode op) (entered op vm1))) \<and>
    (\<forall>vm' w'. Execute_step cb metadata kDown (vm, w) \<in> {Some (Inl (vm', w')), Some (Inr (vm', w'))} \<longrightarrow>
      vm_ok vm' \<and> vm_program vm' = vm_program vm \<and> num_opcodes vm' = num_opcodes vm)"
  using assms
proof (cases rule: Execute_step_cases [where cb = cb and md = metadata and k = kDown and w = w])
  case (finished vm')
  then show ?thesis by (auto simp: same_code_def)
next
  case (wrong op vm1)
  then show ?thesis by auto
next
  case (step op vm1 vm' w')
  then show ?thesis by (auto simp: same_code_def)
qed

definition null_callbacks :: "unit callbacks" where
  "null_callbacks = \<lparr>MemoryReadUnsafe = (\<lambda>a n w. (replicate n 0, w)), MemoryWriteUnsafe = (\<lambda>a bs w. w),
     HidKeysDown = (\<lambda>w. (0, w)), CbPauseProcess = id, CbResumeProcess = id, CbDebugLog = (\<lambda>i v w. w)\<rparr>"

definition loaded :: "u32 list \<Rightarrow> cheat_vm" where
  "loaded ws = cheat_vm_default\<lparr>vm_program := ws @ replicate (MaximumProgramOpcodeCount - length ws) 0,
     num_opcodes := length ws, decode_success := True\<rparr>"

lemma loaded_ok: "length ws \<le> MaximumProgramOpcodeCount \<Longrightarrow> vm_ok (loaded ws)"
  by (simp add: vm_ok_def loaded_def cheat_vm_default_def)

definition metadata_example :: cheat_process_metadata where
  "metadata_example = \<lparr>process_id = 81, title_id = 0, main_nso_extents = \<lparr>ext_base = 0x8000000, ext_size = 0x100000\<rparr>,
     heap_extents = \<lparr>ext_base = 0x20000000, ext_size = 0x1000\<rparr>, alias_extents = \<lparr>ext_base = 0, ext_size = 0\<rparr>,
     aslr_extents = \<lparr>ext_base = 0, ext_size = 0\<rparr>, main_nso_build_id = replicate 0x20 0\<rparr>"

lemmas decode_eval = DecodeNextOpcode_def GetNextDword_def opcode_type_of_def nybble_def decode_body_def decode_defs
  vm_enum_defs Let_def begins_conditional_def loaded_def cheat_vm_default_def MaximumProgramOpcodeCount_def

theorem Execute_step_safe_witness:
  "Execute_step null_callbacks metadata_example 0 (loaded [0x21000000], ()) = None \<and>
   Execute_step null_callbacks metadata_example 0 (loaded [0x70003000, 64], ()) = None \<and>
   Execute_step null_callbacks metadata_example 0 (loaded [0x70003000, 63], ()) \<noteq> None"
proof -
  have d: "\<exists>vm1. DecodeNextOpcode (loaded [0x21000000]) =
      Some (Some \<lparr>begin_conditional_block = False, opcode = EndConditional True\<rparr>, vm1) \<and> condition_depth vm1 = 0"
    "\<exists>vm1. DecodeNextOpcode (loaded [0x70003000, v]) =
      Some (Some \<lparr>begin_conditional_block = False, opcode = PerformArithmeticStatic 0 0 3 v\<rparr>, vm1)" for v
    by (simp_all add: decode_eval)
  have ok: "vm_ok (loaded [0x21000000])" "vm_ok (loaded [0x70003000, v])" for v
    by (simp_all add: loaded_ok MaximumProgramOpcodeCount_def)
  have g: "goes_wrong (PerformArithmeticStatic 0 0 3 v) vm \<longleftrightarrow> 64 \<le> v" for v vm
    by (simp add: is_shift_def vm_enum_defs)
  have "Execute_step null_callbacks metadata_example 0 (loaded [0x21000000], ()) = None"
    using d(1) Execute_step_safe [OF ok(1), of null_callbacks metadata_example 0 "()"] by auto
  moreover have "Execute_step null_callbacks metadata_example 0 (loaded [0x70003000, v], ()) = None \<longleftrightarrow> 64 \<le> v" for v
    using d(2) [of v] Execute_step_safe [OF ok(2), of null_callbacks metadata_example 0 v "()"] g by auto
  ultimately show ?thesis by simp
qed

text \<open>
  C11.  A program without a loop end finishes within one turn of the main loop per program word and one
  more, whatever the memory holds and whichever blocks are skipped, unless it is undefined on the way.
  The loop ends that count are those among the instructions of the program as they are decoded from its
  first word on.  It can be undefined only if the program has an else outside of every conditional
  block or a shift whose amount is not a constant below 64 (\<open>harmless\<close>), which can be told from the
  words alone; any other program without a loop end does finish.
\<close>

theorem loop_free_programs_finish:
  assumes "vm_ok vm" "loop_free vm" "num_opcodes vm < fuel"
  shows "(\<exists>vm' w'. Execute fuel cb metadata (vm, w) = Some (Finished (vm', w'))) \<or>
    Execute fuel cb metadata (vm, w) = None \<and> \<not> harmless 0 (instructions (ResetState vm))"
proof -
  obtain k w1 where k: "HidKeysDown cb w = (k, w1)" by fastforce
  have "vm_ok (ResetState vm)" "\<forall>op\<in>set (instructions (ResetState vm)). \<not> ends_loop (opcode op)"
    "num_opcodes (ResetState vm) - instruction_ptr (ResetState vm) < fuel"
    using assms by (auto simp: vm_ok_def ResetState_def loop_free_def list_all_iff)
  from Execute_loop_finishes [OF this, of cb metadata k w1] show ?thesis by (auto simp: Execute_def k ResetState_def)
qed

text \<open>The second word of the program, an operand, is the word of a loop end.\<close>

theorem loop_free_programs_finish_witness:
  "\<exists>vm' w'. Execute 4 null_callbacks metadata_example (loaded [0x70000000, 0x31000000, 0xFF000000], ()) = Some (Finished (vm', w'))"
proof -
  let ?vm = "loaded [0x70000000, 0x31000000, 0xFF000000]"
  have i: "instructions (ResetState ?vm) = [\<lparr>begin_conditional_block = False, opcode = PerformArithmeticStatic 0 0 0 0x31000000\<rparr>,
      \<lparr>begin_conditional_block = False, opcode = PauseProcess\<rparr>]"
    by (simp add: instructions.simps decode_eval ResetState_def)
  have h: "loop_free ?vm" "harmless 0 (instructions (ResetState ?vm))"
    unfolding loop_free_def i by (simp_all add: is_shift_def vm_enum_defs)
  have "vm_ok ?vm" "num_opcodes ?vm < 4" by (simp_all add: loaded_ok MaximumProgramOpcodeCount_def, simp add: loaded_def)
  from loop_free_programs_finish [OF this(1) h(1) this(2), of null_callbacks metadata_example "()"] h(2) show ?thesis by blast
qed

text \<open>
  C12.  Skipping a conditional block.  If the words from the instruction pointer on decode to a
  balanced body (the blocks it begins it also ends, and when an else is looked for it has none of its
  own level) followed by the end of the block, or by its else where that is allowed, then
  \<open>SkipConditionalBlock\<close> stops right behind that instruction: after an end the block is left,
  after an else the machine is still inside of it.  Nothing else of the machine changes.
\<close>

theorem SkipConditionalBlock_exact:
  assumes "decodes vm (body @ [last_op]) vm'" "nesting is_if 0 body = Some 0"
    and "\<not> begin_conditional_block last_op" "opcode last_op = EndConditional is_else" "is_else \<longrightarrow> is_if"
    and "condition_depth vm > 0"
  shows "SkipConditionalBlock is_if vm =
    Some (vm\<lparr>instruction_ptr := instruction_ptr vm',
      condition_depth := if is_else then condition_depth vm else condition_depth vm - 1\<rparr>)"
proof -
  have "vm' = vm\<lparr>instruction_ptr := instruction_ptr vm'\<rparr>" using assms(1) by (rule decodes_frame)
  then have "vm'\<lparr>condition_depth := d\<rparr> = vm\<lparr>instruction_ptr := instruction_ptr vm', condition_depth := d\<rparr>" for d
    by (metis (no_types) cheat_vm.surjective cheat_vm.update_convs(3))
  with Skip_loop_nesting [OF assms(1-5), of "condition_depth vm - 1"] assms(6) show ?thesis
    by (simp add: SkipConditionalBlock_def)
qed

theorem SkipConditionalBlock_exact_witness:
  "SkipConditionalBlock True ((loaded [0x80000001, 0x20000000, 0x21000000])\<lparr>condition_depth := 1\<rparr>) =
     Some ((loaded [0x80000001, 0x20000000, 0x21000000])\<lparr>instruction_ptr := 3, condition_depth := 1\<rparr>)"
proof -
  let ?vm = "(loaded [0x80000001, 0x20000000, 0x21000000])\<lparr>condition_depth := 1\<rparr>"
  let ?b = "[\<lparr>begin_conditional_block = True, opcode = BeginKeypressConditional 1\<rparr>,
    \<lparr>begin_conditional_block = False, opcode = EndConditional False\<rparr>]"
  let ?l = "\<lparr>begin_conditional_block = False, opcode = EndConditional True\<rparr>"
  have d: "DecodeNextOpcode ?vm = Some (Some (?b ! 0), ?vm\<lparr>instruction_ptr := 1\<rparr>)"
    "DecodeNextOpcode (?vm\<lparr>instruction_ptr := 1\<rparr>) = Some (Some (?b ! 1), ?vm\<lparr>instruction_ptr := 2\<rparr>)"
    "DecodeNextOpcode (?vm\<lparr>instruction_ptr := 2\<rparr>) = Some (Some ?l, ?vm\<lparr>instruction_ptr := 3\<rparr>)"
    by (simp_all add: decode_eval)
  have "decodes ?vm (?b @ [?l]) (?vm\<lparr>instruction_ptr := 3\<rparr>)"
    using decodes.more [OF d(1) decodes.more [OF d(2) decodes.more [OF d(3) decodes.stop]]] by simp
  from SkipConditionalBlock_exact [OF this, of True True] show ?thesis by (simp add: loaded_def cheat_vm_default_def)
qed

text \<open>
  Loading a list of cheats.  When no enabled entry claims more words than it has, loading stays
  in the arrays.  It succeeds exactly when the enabled entries fit in the program memory, and then
  the program is their words in the order of the list; otherwise the machine is left without a
  program.
\<close>

theorem LoadProgram_loads:
  assumes "vm_ok vm" "\<forall>e\<in>set entries. enabled e \<longrightarrow> def_num_opcodes (cheat_def e) \<le> length (def_opcodes (cheat_def e))"
  shows "\<exists>vm'. LoadProgram entries vm =
      Some (length (entries_code entries) \<le> MaximumProgramOpcodeCount, vm') \<and> vm_ok vm' \<and>
    (if length (entries_code entries) \<le> MaximumProgramOpcodeCount
     then take (num_opcodes vm') (vm_program vm') = entries_code entries else num_opcodes vm' = 0) \<and>
    vm' = vm\<lparr>vm_program := vm_program vm', num_opcodes := num_opcodes vm'\<rparr>"
  using LoadProgram_loop_loads [of "vm\<lparr>num_opcodes := 0\<rparr>" entries] assms
  by (auto simp: LoadProgram_def vm_ok_def)

definition entry_example :: "bool \<Rightarrow> u32 list \<Rightarrow> cheat_entry" where
  "entry_example en ws = \<lparr>enabled = en, cheat_id = 1,
     cheat_def = \<lparr>readable_name = ''x'', def_num_opcodes = length ws, def_opcodes = ws\<rparr>\<rparr>"

theorem LoadProgram_loads_witness:
  "\<exists>vm'. LoadProgram [entry_example True [1, 2], entry_example False [3], entry_example True [4]] cheat_vm_default =
     Some (True, vm') \<and> take (num_opcodes vm') (vm_program vm') = [1, 2, 4]"
  using LoadProgram_loads [OF vm_ok_default, of "[entry_example True [1, 2], entry_example False [3], entry_example True [4]]"]
  by (auto simp: entry_example_def entries_code_def MaximumProgramOpcodeCount_def)

definition spinning :: "u64 \<Rightarrow> nat \<Rightarrow> cheat_vm" where
  "spinning v p = (loaded [0x40000000, 0, 0, 0x31000000])\<lparr>registers := v # replicate 15 0, instruction_ptr := p\<rparr>"

lemma spinning_step:
  "Execute_step cb md k (spinning v 0, w) = Some (Inl (spinning 0 3, w))"
  "Execute_step cb md k (spinning 0 3, w) = Some (Inl (spinning (- 1) 0, w))"
  by (simp_all add: Execute_step_def spinning_def decode_eval exec_LoadRegisterStatic_def exec_ControlLoop_def
      GetNextQword_def reg_get_def reg_set_def arr_get_def arr_set_def NumRegisters_def)

text \<open>
  C13.  A program of four words keeps the machine busy forever: it clears register 0 and then ends a
  loop that was never begun, so the counter wraps around and the machine jumps to loop top 0, the
  first word.  Nothing in \<open>Execute\<close> bounds the number of instructions.
\<close>

theorem unbounded_cheat_program:
  "\<exists>vm' w'. Execute fuel cb metadata (loaded [0x40000000, 0, 0, 0x31000000], w) = Some (Running (vm', w'))"
proof -
  obtain k w1 where "HidKeysDown cb w = (k, w1)" by fastforce
  moreover have "\<exists>vm'. Execute_loop fuel cb metadata k (spinning v p, w1) = Some (Running (vm', w1))"
    if "p = 0 \<or> p = 3 \<and> v = 0" for v p
    using that
  proof (induction fuel arbitrary: v p)
    case (Suc fuel)
    then show ?case using spinning_step(1) [of cb metadata k v w1] spinning_step(2) [of cb metadata k w1]
      by auto
  qed simp
  moreover have "ResetState (loaded [0x40000000, 0, 0, 0x31000000]) = spinning 0 0"
    by (simp add: ResetState_def spinning_def loaded_def cheat_vm_default_def NumRegisters_def numeral_eq_Suc)
  ultimately show ?thesis by (simp add: Execute_def) blast
qed

end
