(* ===== verification/GuestMemory.thy ===== *)
theory GuestMemory
  imports Prelude
begin

text \<open>
  \<^verbatim>\<open>src/common/page_table.h\<close>, \<^verbatim>\<open>src/common/page_table.cpp\<close> and
  \<^verbatim>\<open>src/core/memory.cpp\<close>: the page table of a guest process and every access to guest
  memory that goes through it.

  Addresses of the guest and of the host, page numbers and sizes are 64-bit unsigned integers, kept as
  natural numbers with the wrap-around written out.  The memory of the host is the function
  \<open>ram\<close> on host addresses; it may be accessed in the \<open>dram_size\<close> bytes from
  \<open>backing_base\<close> (\<open>HostMemory::BackingBasePointer\<close>) on, and \<open>None\<close> stands for any
  other access, a null pointer included, and for a page number outside of the table.

  What the code asks of the GPU (\<open>HandleRasterizerDownload\<close>, \<open>HandleRasterizerWrite\<close>)
  and of the host memory (\<open>host_buffer->Map\<close>, \<open>Unmap\<close>, \<open>Protect\<close>) is
  recorded in \<open>host_events\<close>, in order.  Only a page table that is the current one is mapped,
  unmapped or protected, as \<^verbatim>\<open>src/core/hle/kernel/k_page_table_base.cpp\<close> does.
\<close>

section \<open>Page tables\<close>

definition YUZU_PAGEBITS :: nat where "YUZU_PAGEBITS = 12"
definition YUZU_PAGESIZE :: nat where "YUZU_PAGESIZE = 4096"
definition DramBase :: nat where "DramBase = 0x80000000"

datatype page_type = Unmapped | Memory | DebugMemory | RasterizerCachedMemory

text \<open>A pointer and its type in one word (\<open>PageInfo\<close>).\<close>

primrec type_value :: "page_type \<Rightarrow> nat" where
  "type_value Unmapped = 0"
| "type_value Memory = 1"
| "type_value DebugMemory = 2"
| "type_value RasterizerCachedMemory = 3"

definition Store_raw :: "nat \<Rightarrow> page_type \<Rightarrow> nat" where
  "Store_raw pointer ptype = pointer OR type_value ptype"

definition ExtractPointer :: "nat \<Rightarrow> nat" where
  "ExtractPointer raw = raw AND (2 ^ 64 - 4)"

definition ExtractType :: "nat \<Rightarrow> page_type" where
  "ExtractType raw =
     (let t = raw AND 3 in
      if t = 0 then Unmapped else if t = 1 then Memory else if t = 2 then DebugMemory
      else RasterizerCachedMemory)"

record page_entry =
  raw :: nat
  block :: nat
  addr :: nat

record page_table =
  entries :: "page_entry list"
  current_address_space_width_in_bits :: nat
  page_size :: nat
  fastmem_arena :: bool

definition page_table_default :: page_table where
  "page_table_default = \<lparr>entries = [], current_address_space_width_in_bits = 0, page_size = 0, fastmem_arena = False\<rparr>"

text \<open>New pages come from the operating system and are zero; a table of the same size is kept.\<close>

definition Resize :: "nat \<Rightarrow> nat \<Rightarrow> page_table \<Rightarrow> page_table option" where
  "Resize address_space_width_in_bits page_size_in_bits pt =
     (if page_size_in_bits \<le> address_space_width_in_bits \<and> address_space_width_in_bits - page_size_in_bits < 64 \<and>
         page_size_in_bits < 64
      then Some (let n = 2 ^ (address_space_width_in_bits - page_size_in_bits) in
        pt\<lparr>entries := (if n = length (entries pt) then entries pt
                       else replicate n \<lparr>raw = 0, block = 0, addr = 0\<rparr>),
           current_address_space_width_in_bits := address_space_width_in_bits,
           page_size := 2 ^ page_size_in_bits\<rparr>)
      else None)"

text \<open>The results of a traversal step: whether the page is mapped, its entry and the context.\<close>

record traversal_entry =
  phys_addr :: nat
  block_size :: nat

record traversal_context =
  next_page :: nat
  next_offset :: nat

definition ContinueTraversal :: "traversal_context \<Rightarrow> page_table \<Rightarrow> bool \<times> traversal_entry \<times> traversal_context" where
  "ContinueTraversal context pt =
     (let context' = \<lparr>next_page = add64 (next_page context) 1,
                      next_offset = add64 (next_offset context) (page_size pt)\<rparr>
      in if next_page context < length (entries pt) \<and> addr (entries pt ! next_page context) \<noteq> 0
         then (True, \<lparr>phys_addr = add64 (addr (entries pt ! next_page context)) (next_offset context),
                      block_size = page_size pt\<rparr>, context')
         else (False, \<lparr>phys_addr = 0, block_size = page_size pt\<rparr>, context'))"

definition BeginTraversal :: "nat \<Rightarrow> page_table \<Rightarrow> bool \<times> traversal_entry \<times> traversal_context" where
  "BeginTraversal address pt =
     ContinueTraversal \<lparr>next_page = address div page_size pt, next_offset = address\<rparr> pt"

definition GetPhysicalAddress :: "nat \<Rightarrow> page_table \<Rightarrow> nat option option" where
  "GetPhysicalAddress virt_addr pt =
     (if virt_addr > 2 ^ current_address_space_width_in_bits pt then Some None
      else do {
        e \<leftarrow> arr_get (entries pt) (virt_addr div page_size pt);
        Some (Some (add64 (addr e) virt_addr))
      })"

section \<open>State\<close>

datatype host_event =
    HostMap nat nat nat nat bool
  | HostUnmap nat nat bool
  | HostProtect nat nat nat
  | RasterizerDownload nat nat
  | RasterizerWrite nat nat

record memory_impl =
  current_page_table :: page_table
  ram :: "nat \<Rightarrow> u8"
  backing_base :: nat
  dram_size :: nat
  use_reactive_flushing :: bool
  host_events :: "host_event list"

definition event :: "host_event \<Rightarrow> memory_impl \<Rightarrow> memory_impl" where
  "event e m = m\<lparr>host_events := host_events m @ [e]\<rparr>"

text \<open>\<open>DeviceMemory::GetPointer\<close>.\<close>

definition DeviceGetPointer :: "nat \<Rightarrow> memory_impl \<Rightarrow> nat" where
  "DeviceGetPointer paddr m = add64 (backing_base m) (sub64 paddr DramBase)"

text \<open>\<open>memcpy\<close> from and to host memory.\<close>

definition host_valid :: "nat \<Rightarrow> nat \<Rightarrow> memory_impl \<Rightarrow> bool" where
  "host_valid ptr n m \<longleftrightarrow> backing_base m \<le> ptr \<and> ptr + n \<le> backing_base m + dram_size m"

definition host_read :: "nat \<Rightarrow> nat \<Rightarrow> memory_impl \<Rightarrow> u8 list option" where
  "host_read ptr n m = (if host_valid ptr n m then Some (map (ram m) [ptr..<ptr + n]) else None)"

definition store_bytes :: "nat \<Rightarrow> u8 list \<Rightarrow> (nat \<Rightarrow> u8) \<Rightarrow> nat \<Rightarrow> u8" where
  "store_bytes ptr bs f = (\<lambda>a. if ptr \<le> a \<and> a < ptr + length bs then bs ! (a - ptr) else f a)"

definition host_write :: "nat \<Rightarrow> u8 list \<Rightarrow> memory_impl \<Rightarrow> memory_impl option" where
  "host_write ptr bs m = (if host_valid ptr (length bs) m then Some (m\<lparr>ram := store_bytes ptr bs (ram m)\<rparr>) else None)"

text \<open>\<open>memcpy\<close> into a buffer of the host, at an offset.\<close>

definition buffer_store :: "nat \<Rightarrow> u8 list \<Rightarrow> u8 list \<Rightarrow> u8 list option" where
  "buffer_store off bs buf =
     (if off + length bs \<le> length buf then Some (take off buf @ bs @ drop (off + length bs) buf) else None)"

definition buffer_load :: "nat \<Rightarrow> nat \<Rightarrow> u8 list \<Rightarrow> u8 list option" where
  "buffer_load off n buf = (if off + n \<le> length buf then Some (take n (drop off buf)) else None)"

definition SetCurrentPageTable :: "page_table \<Rightarrow> bool \<Rightarrow> bool \<Rightarrow> memory_impl \<Rightarrow> memory_impl" where
  "SetCurrentPageTable pt is_application fastmem_enabled m =
     m\<lparr>current_page_table := pt\<lparr>fastmem_arena := is_application \<and> fastmem_enabled\<rparr>\<rparr>"

definition AddressSpaceContains :: "page_table \<Rightarrow> nat \<Rightarrow> nat \<Rightarrow> bool" where
  "AddressSpaceContains pt a sz \<longleftrightarrow>
     add64 a sz \<ge> a \<and> add64 a sz \<le> 2 ^ current_address_space_width_in_bits pt"

section \<open>Mapping\<close>

definition entry_at :: "nat \<Rightarrow> memory_impl \<Rightarrow> page_entry option" where
  "entry_at page m = arr_get (entries (current_page_table m)) page"

definition set_entry :: "nat \<Rightarrow> page_entry \<Rightarrow> memory_impl \<Rightarrow> memory_impl option" where
  "set_entry page e m = do {
     es \<leftarrow> arr_set (entries (current_page_table m)) page e;
     Some (m\<lparr>current_page_table := (current_page_table m)\<lparr>entries := es\<rparr>\<rparr>)
   }"

text \<open>
  The two loops of \<open>MapPages\<close>; they run until the page number is \<open>base + size\<close>, that is
  \<open>size\<close> times.
\<close>

primrec MapPages_clear :: "nat \<Rightarrow> nat \<Rightarrow> page_type \<Rightarrow> memory_impl \<Rightarrow> memory_impl option" where
  "MapPages_clear 0 base ptype m = Some m"
| "MapPages_clear (Suc n) base ptype m = do {
     e \<leftarrow> entry_at base m;
     m1 \<leftarrow> set_entry base (e\<lparr>raw := Store_raw 0 ptype, addr := 0, block := 0\<rparr>) m;
     MapPages_clear n (add64 base 1) ptype m1
   }"

primrec MapPages_fill :: "nat \<Rightarrow> nat \<Rightarrow> nat \<Rightarrow> nat \<Rightarrow> page_type \<Rightarrow> memory_impl \<Rightarrow> memory_impl option" where
  "MapPages_fill 0 orig_base base target ptype m = Some m"
| "MapPages_fill (Suc n) orig_base base target ptype m = do {
     let host_ptr = sub64 (DeviceGetPointer target m) (mul64 base YUZU_PAGESIZE);
     let backing = sub64 target (mul64 base YUZU_PAGESIZE);
     e \<leftarrow> entry_at base m;
     m1 \<leftarrow> set_entry base (e\<lparr>raw := Store_raw host_ptr ptype, addr := backing,
       block := mul64 orig_base YUZU_PAGESIZE\<rparr>) m;
     MapPages_fill n orig_base (add64 base 1) (add64 target YUZU_PAGESIZE) ptype m1
   }"

definition MapPages :: "nat \<Rightarrow> nat \<Rightarrow> nat \<Rightarrow> page_type \<Rightarrow> memory_impl \<Rightarrow> memory_impl option" where
  "MapPages base sz target ptype m =
     (if target = 0 then MapPages_clear sz base ptype m else MapPages_fill sz base base target ptype m)"

definition MapMemoryRegion :: "nat \<Rightarrow> nat \<Rightarrow> nat \<Rightarrow> nat \<Rightarrow> bool \<Rightarrow> memory_impl \<Rightarrow> memory_impl option" where
  "MapMemoryRegion base sz target perms separate_heap m = do {
     m1 \<leftarrow> MapPages (base div YUZU_PAGESIZE) (sz div YUZU_PAGESIZE) target Memory m;
     Some (if fastmem_arena (current_page_table m1)
           then event (HostMap base (sub64 target DramBase) sz perms separate_heap) m1 else m1)
   }"

definition UnmapRegion :: "nat \<Rightarrow> nat \<Rightarrow> bool \<Rightarrow> memory_impl \<Rightarrow> memory_impl option" where
  "UnmapRegion base sz separate_heap m = do {
     m1 \<leftarrow> MapPages (base div YUZU_PAGESIZE) (sz div YUZU_PAGESIZE) 0 Unmapped m;
     Some (if fastmem_arena (current_page_table m1) then event (HostUnmap base sz separate_heap) m1 else m1)
   }"

text \<open>
  The loop of \<open>ProtectRegion\<close> over the page addresses below \<open>stop\<close>; the address may
  wrap around, so the loop is partial.
\<close>

definition flush_protect :: "nat \<Rightarrow> nat \<Rightarrow> nat \<Rightarrow> memory_impl \<Rightarrow> memory_impl" where
  "flush_protect protect_begin protect_bytes perms m =
     (if protect_bytes > 0 then event (HostProtect protect_begin protect_bytes perms) m else m)"

partial_function (option) ProtectRegion_loop ::
  "nat \<Rightarrow> nat \<Rightarrow> nat \<Rightarrow> nat \<Rightarrow> nat \<Rightarrow> memory_impl \<Rightarrow> memory_impl option" where
  [code]: "ProtectRegion_loop perms stop a protect_begin protect_bytes m =
     (if \<not> a < stop then Some (flush_protect protect_begin protect_bytes perms m)
      else Option.bind (entry_at (a div YUZU_PAGESIZE) m) (\<lambda>e.
        if ExtractType (raw e) = RasterizerCachedMemory
        then ProtectRegion_loop perms stop (add64 a YUZU_PAGESIZE) protect_begin 0
               (flush_protect protect_begin protect_bytes perms m)
        else ProtectRegion_loop perms stop (add64 a YUZU_PAGESIZE)
               (if protect_bytes = 0 then a else protect_begin) (add64 protect_bytes YUZU_PAGESIZE) m))"

definition ProtectRegion :: "nat \<Rightarrow> nat \<Rightarrow> nat \<Rightarrow> memory_impl \<Rightarrow> memory_impl option" where
  "ProtectRegion vaddr sz perms m =
     (if \<not> fastmem_arena (current_page_table m) then Some m
      else ProtectRegion_loop perms (add64 vaddr sz) vaddr 0 0 m)"

section \<open>Pointers\<close>

text \<open>A null pointer is zero.\<close>

definition GetPointerFromRasterizerCachedMemory :: "nat \<Rightarrow> memory_impl \<Rightarrow> nat option" where
  "GetPointerFromRasterizerCachedMemory vaddr m = do {
     e \<leftarrow> entry_at (vaddr div YUZU_PAGESIZE) m;
     Some (if addr e \<noteq> 0 then DeviceGetPointer (add64 (addr e) vaddr) m else 0)
   }"

definition GetPointerFromDebugMemory :: "nat \<Rightarrow> memory_impl \<Rightarrow> nat option" where
  "GetPointerFromDebugMemory vaddr m = do {
     e \<leftarrow> entry_at (vaddr div YUZU_PAGESIZE) m;
     Some (if addr e \<noteq> 0 then DeviceGetPointer (add64 (addr e) vaddr) m else 0)
   }"

datatype pointer_call = NoCall | OnUnmapped | OnRasterizer

definition GetPointerImpl :: "nat \<Rightarrow> memory_impl \<Rightarrow> (nat \<times> pointer_call) option" where
  "GetPointerImpl vaddr0 m =
     (let vaddr = vaddr0 AND 0xffffffffffff in
      if AddressSpaceContains (current_page_table m) vaddr 1
      then do {
        e \<leftarrow> entry_at (vaddr div YUZU_PAGESIZE) m;
        let pointer = ExtractPointer (raw e);
        if pointer \<noteq> 0 then Some (add64 pointer vaddr, NoCall)
        else case ExtractType (raw e) of
          Memory \<Rightarrow> Some (0, NoCall)
        | DebugMemory \<Rightarrow> map_option (\<lambda>p. (p, NoCall)) (GetPointerFromDebugMemory vaddr m)
        | RasterizerCachedMemory \<Rightarrow> map_option (\<lambda>p. (p, OnRasterizer)) (GetPointerFromRasterizerCachedMemory vaddr m)
        | Unmapped \<Rightarrow> Some (0, OnUnmapped)
      }
      else Some (0, OnUnmapped))"

definition GetPointerSilent :: "nat \<Rightarrow> memory_impl \<Rightarrow> nat option" where
  "GetPointerSilent vaddr m = map_option fst (GetPointerImpl vaddr m)"

definition GetSpan :: "nat \<Rightarrow> nat \<Rightarrow> memory_impl \<Rightarrow> nat option" where
  "GetSpan a sz m = do {
     e1 \<leftarrow> entry_at (a div YUZU_PAGESIZE) m;
     e2 \<leftarrow> entry_at (add64 a sz div YUZU_PAGESIZE) m;
     if block e1 = block e2 then GetPointerSilent a m else Some 0
   }"

definition IsValidVirtualAddress :: "nat \<Rightarrow> memory_impl \<Rightarrow> bool" where
  "IsValidVirtualAddress vaddr m =
     (let page = vaddr div YUZU_PAGESIZE; es = entries (current_page_table m) in
      if page \<ge> length es then False
      else ExtractPointer (raw (es ! page)) \<noteq> 0 \<or> ExtractType (raw (es ! page)) = RasterizerCachedMemory \<or>
        ExtractType (raw (es ! page)) = DebugMemory)"

partial_function (option) IsValidVirtualAddressRange_loop :: "nat \<Rightarrow> nat \<Rightarrow> memory_impl \<Rightarrow> bool option" where
  [code]: "IsValidVirtualAddressRange_loop stop page m =
     (if \<not> page < stop then Some True
      else if \<not> IsValidVirtualAddress page m then Some False
      else IsValidVirtualAddressRange_loop stop (add64 page YUZU_PAGESIZE) m)"

definition IsValidVirtualAddressRange :: "nat \<Rightarrow> nat \<Rightarrow> memory_impl \<Rightarrow> bool option" where
  "IsValidVirtualAddressRange base sz m =
     IsValidVirtualAddressRange_loop (add64 base sz) (AlignDown base YUZU_PAGESIZE) m"

section \<open>Single values\<close>

text \<open>\<open>Read\<close> and \<open>Write\<close> of a type of \<open>n\<close> bytes.\<close>

definition Read :: "nat \<Rightarrow> nat \<Rightarrow> memory_impl \<Rightarrow> (u64 \<times> memory_impl) option" where
  "Read n a m = do {
     (ptr, call) \<leftarrow> GetPointerImpl a m;
     let m1 = (if call = OnRasterizer then event (RasterizerDownload a n) m else m);
     if ptr \<noteq> 0 then do {
       bs \<leftarrow> host_read ptr n m1;
       Some (le_value bs, m1)
     }
     else Some (0, m1)
   }"

definition Write :: "nat \<Rightarrow> nat \<Rightarrow> u64 \<Rightarrow> memory_impl \<Rightarrow> memory_impl option" where
  "Write n a data m = do {
     (ptr, call) \<leftarrow> GetPointerImpl a m;
     let m1 = (if call = OnRasterizer then event (RasterizerWrite a n) m else m);
     if ptr \<noteq> 0 then host_write ptr (le_bytes n data) m1 else Some m1
   }"

definition WriteExclusive :: "nat \<Rightarrow> nat \<Rightarrow> u64 \<Rightarrow> u64 \<Rightarrow> memory_impl \<Rightarrow> (bool \<times> memory_impl) option" where
  "WriteExclusive n a data expected m = do {
     (ptr, call) \<leftarrow> GetPointerImpl a m;
     let m1 = (if call = OnRasterizer then event (RasterizerWrite a n) m else m);
     if ptr \<noteq> 0 then do {
       bs \<leftarrow> host_read ptr n m1;
       if bs = le_bytes n expected then do {
         m2 \<leftarrow> host_write ptr (le_bytes n data) m1;
         Some (True, m2)
       }
       else Some (False, m1)
     }
     else Some (True, m1)
   }"

definition Read8 :: "nat \<Rightarrow> memory_impl \<Rightarrow> (u8 \<times> memory_impl) option" where
  "Read8 a m = map_option (apfst ucast) (Read 1 a m)"

definition Read16 :: "nat \<Rightarrow> memory_impl \<Rightarrow> (u16 \<times> memory_impl) option" where
  "Read16 a m =
     (if a mod 2 = 0 then map_option (apfst ucast) (Read 2 a m)
      else do {
        (v1, m1) \<leftarrow> Read 1 a m;
        (v2, m2) \<leftarrow> Read 1 (add64 a 1) m1;
        Some (ucast (push_bit 8 (ucast v2 :: u32) OR ucast v1), m2)
      })"

definition Read32 :: "nat \<Rightarrow> memory_impl \<Rightarrow> (u32 \<times> memory_impl) option" where
  "Read32 a m =
     (if a mod 4 = 0 then map_option (apfst ucast) (Read 4 a m)
      else do {
        (v1, m1) \<leftarrow> Read16 a m;
        (v2, m2) \<leftarrow> Read16 (add64 a 2) m1;
        Some (push_bit 16 (ucast v2 :: u32) OR ucast v1, m2)
      })"

definition Read64 :: "nat \<Rightarrow> memory_impl \<Rightarrow> (u64 \<times> memory_impl) option" where
  "Read64 a m =
     (if a mod 8 = 0 then Read 8 a m
      else do {
        (v1, m1) \<leftarrow> Read32 a m;
        (v2, m2) \<leftarrow> Read32 (add64 a 4) m1;
        Some (push_bit 32 (ucast v2 :: u64) OR ucast v1, m2)
      })"

definition Write8 :: "nat \<Rightarrow> u8 \<Rightarrow> memory_impl \<Rightarrow> memory_impl option" where
  "Write8 a data m = Write 1 a (ucast data) m"

definition Write16 :: "nat \<Rightarrow> u16 \<Rightarrow> memory_impl \<Rightarrow> memory_impl option" where
  "Write16 a data m =
     (if a mod 2 = 0 then Write 2 a (ucast data) m
      else do {
        m1 \<leftarrow> Write 1 a (ucast (ucast data :: u8)) m;
        Write 1 (add64 a 1) (ucast (ucast (drop_bit 8 data) :: u8)) m1
      })"

definition Write32 :: "nat \<Rightarrow> u32 \<Rightarrow> memory_impl \<Rightarrow> memory_impl option" where
  "Write32 a data m =
     (if a mod 4 = 0 then Write 4 a (ucast data) m
      else do {
        m1 \<leftarrow> Write16 a (ucast data) m;
        Write16 (add64 a 2) (ucast (drop_bit 16 data)) m1
      })"

definition Write64 :: "nat \<Rightarrow> u64 \<Rightarrow> memory_impl \<Rightarrow> memory_impl option" where
  "Write64 a data m =
     (if a mod 8 = 0 then Write 8 a data m
      else do {
        m1 \<leftarrow> Write32 a (ucast data) m;
        Write32 (add64 a 4) (ucast (drop_bit 32 data)) m1
      })"

primrec ReadCString :: "nat \<Rightarrow> nat \<Rightarrow> memory_impl \<Rightarrow> (u8 list \<times> memory_impl) option" where
  "ReadCString 0 vaddr m = Some ([], m)"
| "ReadCString (Suc max_length) vaddr m = do {
     (c, m1) \<leftarrow> Read8 vaddr m;
     if c = 0 then Some ([], m1)
     else do {
       (cs, m2) \<leftarrow> ReadCString max_length (add64 vaddr 1) m1;
       Some (c # cs, m2)
     }
   }"

section \<open>Blocks\<close>

text \<open>
  \<open>WalkBlock\<close> with its three callbacks, over the memory and whatever else the callbacks change.
\<close>

type_synonym 'b walk = "memory_impl \<times> 'b \<Rightarrow> (memory_impl \<times> 'b) option"

function WalkBlock_loop ::
  "(nat \<Rightarrow> nat \<Rightarrow> nat \<Rightarrow> 'b walk) \<Rightarrow> (nat \<Rightarrow> nat \<Rightarrow> nat \<Rightarrow> 'b walk) \<Rightarrow> (nat \<Rightarrow> nat \<Rightarrow> nat \<Rightarrow> nat \<Rightarrow> 'b walk)
     \<Rightarrow> nat \<Rightarrow> nat \<Rightarrow> nat \<Rightarrow> nat \<Rightarrow> bool \<Rightarrow> memory_impl \<times> 'b \<Rightarrow> (bool \<times> memory_impl \<times> 'b) option" where
  "WalkBlock_loop on_unmapped on_memory on_rasterizer remaining_size page_index page_offset offset user_accessible s =
     (if remaining_size = 0 then Some (user_accessible, s)
      else do {
        let copy_amount = min (YUZU_PAGESIZE - page_offset) remaining_size;
        let current_vaddr = add64 (mul64 page_index YUZU_PAGESIZE) page_offset;
        e \<leftarrow> entry_at page_index (fst s);
        s' \<leftarrow> (case ExtractType (raw e) of
            Unmapped \<Rightarrow> on_unmapped offset copy_amount current_vaddr s
          | Memory \<Rightarrow> on_memory offset copy_amount
              (add64 (add64 (ExtractPointer (raw e)) page_offset) (mul64 page_index YUZU_PAGESIZE)) s
          | DebugMemory \<Rightarrow> do {
              p \<leftarrow> GetPointerFromDebugMemory current_vaddr (fst s);
              on_memory offset copy_amount p s
            }
          | RasterizerCachedMemory \<Rightarrow> do {
              p \<leftarrow> GetPointerFromRasterizerCachedMemory current_vaddr (fst s);
              on_rasterizer current_vaddr offset copy_amount p s
            });
        WalkBlock_loop on_unmapped on_memory on_rasterizer (remaining_size - copy_amount) (add64 page_index 1) 0
          (offset + copy_amount) (user_accessible \<and> ExtractType (raw e) \<noteq> Unmapped) s'
      })"
  by pat_completeness auto
termination
  by (relation "measure (\<lambda>(_, _, _, remaining_size, _, page_offset, _). remaining_size + (if page_offset = 0 then 0 else 1))")
    (auto simp: YUZU_PAGESIZE_def)

declare WalkBlock_loop.simps [simp del]

definition WalkBlock ::
  "(nat \<Rightarrow> nat \<Rightarrow> nat \<Rightarrow> 'b walk) \<Rightarrow> (nat \<Rightarrow> nat \<Rightarrow> nat \<Rightarrow> 'b walk) \<Rightarrow> (nat \<Rightarrow> nat \<Rightarrow> nat \<Rightarrow> nat \<Rightarrow> 'b walk)
     \<Rightarrow> nat \<Rightarrow> nat \<Rightarrow> memory_impl \<times> 'b \<Rightarrow> (bool \<times> memory_impl \<times> 'b) option" where
  "WalkBlock on_unmapped on_memory on_rasterizer a sz s =
     (if \<not> AddressSpaceContains (current_page_table (fst s)) a sz
      then map_option (Pair False) (on_unmapped 0 sz a s)
      else WalkBlock_loop on_unmapped on_memory on_rasterizer sz (a div YUZU_PAGESIZE) (a mod YUZU_PAGESIZE) 0 True s)"

text \<open>The callbacks of each walk, then the walk.\<close>

definition read_unmapped :: "nat \<Rightarrow> nat \<Rightarrow> nat \<Rightarrow> u8 list walk" where
  "read_unmapped offset copy_amount current_vaddr = (\<lambda>(m, buf).
     map_option (Pair m) (buffer_store offset (replicate copy_amount 0) buf))"

definition read_memory_page :: "nat \<Rightarrow> nat \<Rightarrow> nat \<Rightarrow> u8 list walk" where
  "read_memory_page offset copy_amount ptr = (\<lambda>(m, buf). do {
     bs \<leftarrow> host_read ptr copy_amount m;
     map_option (Pair m) (buffer_store offset bs buf)
   })"

definition read_cached_page :: "bool \<Rightarrow> nat \<Rightarrow> nat \<Rightarrow> nat \<Rightarrow> nat \<Rightarrow> u8 list walk" where
  "read_cached_page unsafe current_vaddr offset copy_amount ptr = (\<lambda>(m, buf).
     read_memory_page offset copy_amount ptr
       (if \<not> unsafe then event (RasterizerDownload current_vaddr copy_amount) m else m, buf))"

definition ReadBlockImpl :: "nat \<Rightarrow> nat \<Rightarrow> bool \<Rightarrow> u8 list \<Rightarrow> memory_impl \<Rightarrow> (bool \<times> memory_impl \<times> u8 list) option" where
  "ReadBlockImpl a sz unsafe buffer m =
     WalkBlock read_unmapped read_memory_page (read_cached_page unsafe) a sz (m, buffer)"

definition skip_unmapped :: "nat \<Rightarrow> nat \<Rightarrow> nat \<Rightarrow> unit walk" where
  "skip_unmapped offset copy_amount current_vaddr s = Some s"

definition write_memory_page :: "u8 list \<Rightarrow> nat \<Rightarrow> nat \<Rightarrow> nat \<Rightarrow> unit walk" where
  "write_memory_page buffer offset copy_amount ptr = (\<lambda>(m, u). do {
     bs \<leftarrow> buffer_load offset copy_amount buffer;
     m1 \<leftarrow> host_write ptr bs m;
     Some (m1, u)
   })"

definition write_cached_page :: "bool \<Rightarrow> u8 list \<Rightarrow> nat \<Rightarrow> nat \<Rightarrow> nat \<Rightarrow> nat \<Rightarrow> unit walk" where
  "write_cached_page unsafe buffer current_vaddr offset copy_amount ptr = (\<lambda>(m, u).
     write_memory_page buffer offset copy_amount ptr
       (if \<not> unsafe then event (RasterizerWrite current_vaddr copy_amount) m else m, u))"

definition WriteBlockImpl :: "nat \<Rightarrow> nat \<Rightarrow> bool \<Rightarrow> u8 list \<Rightarrow> memory_impl \<Rightarrow> (bool \<times> memory_impl) option" where
  "WriteBlockImpl a sz unsafe buffer m = map_option (map_prod id fst)
     (WalkBlock skip_unmapped (write_memory_page buffer) (write_cached_page unsafe buffer) a sz (m, ()))"

definition zero_memory_page :: "nat \<Rightarrow> nat \<Rightarrow> nat \<Rightarrow> unit walk" where
  "zero_memory_page offset copy_amount ptr = (\<lambda>(m, u). do {
     m1 \<leftarrow> host_write ptr (replicate copy_amount 0) m;
     Some (m1, u)
   })"

definition zero_cached_page :: "nat \<Rightarrow> nat \<Rightarrow> nat \<Rightarrow> nat \<Rightarrow> unit walk" where
  "zero_cached_page current_vaddr offset copy_amount ptr = (\<lambda>(m, u).
     zero_memory_page offset copy_amount ptr (event (RasterizerWrite current_vaddr copy_amount) m, u))"

definition ZeroBlock :: "nat \<Rightarrow> nat \<Rightarrow> memory_impl \<Rightarrow> (bool \<times> memory_impl) option" where
  "ZeroBlock a sz m = map_option (map_prod id fst)
     (WalkBlock skip_unmapped zero_memory_page zero_cached_page a sz (m, ()))"

definition copy_unmapped :: "nat \<Rightarrow> nat \<Rightarrow> nat \<Rightarrow> nat \<Rightarrow> unit walk" where
  "copy_unmapped dest_addr offset copy_amount current_vaddr = (\<lambda>(m, u). do {
     (_, m1) \<leftarrow> ZeroBlock (add64 dest_addr offset) copy_amount m;
     Some (m1, u)
   })"

definition copy_memory_page :: "nat \<Rightarrow> nat \<Rightarrow> nat \<Rightarrow> nat \<Rightarrow> unit walk" where
  "copy_memory_page dest_addr offset copy_amount ptr = (\<lambda>(m, u). do {
     bs \<leftarrow> host_read ptr copy_amount m;
     (_, m1) \<leftarrow> WriteBlockImpl (add64 dest_addr offset) copy_amount False bs m;
     Some (m1, u)
   })"

definition copy_cached_page :: "nat \<Rightarrow> nat \<Rightarrow> nat \<Rightarrow> nat \<Rightarrow> nat \<Rightarrow> unit walk" where
  "copy_cached_page dest_addr current_vaddr offset copy_amount ptr = (\<lambda>(m, u).
     copy_memory_page dest_addr offset copy_amount ptr (event (RasterizerDownload current_vaddr copy_amount) m, u))"

definition CopyBlock :: "nat \<Rightarrow> nat \<Rightarrow> nat \<Rightarrow> memory_impl \<Rightarrow> (bool \<times> memory_impl) option" where
  "CopyBlock dest_addr src_addr sz m = map_option (map_prod id fst)
     (WalkBlock (copy_unmapped dest_addr) (copy_memory_page dest_addr) (copy_cached_page dest_addr) dest_addr sz (m, ()))"

text \<open>The result is true for \<open>ResultSuccess\<close>, false for \<open>ResultInvalidCurrentMemory\<close>.\<close>

definition PerformCacheOperation ::
  "(nat \<Rightarrow> nat \<Rightarrow> nat \<Rightarrow> memory_impl \<Rightarrow> memory_impl) \<Rightarrow> nat \<Rightarrow> nat \<Rightarrow> memory_impl \<Rightarrow> (bool \<times> memory_impl) option" where
  "PerformCacheOperation cb dest_addr sz m = do {
     (_, m', had_unmapped) \<leftarrow> WalkBlock
       (\<lambda>offset copy_amount current_vaddr (m, had_unmapped). Some (m, True))
       (\<lambda>offset copy_amount host_ptr s. Some s)
       (\<lambda>current_vaddr offset copy_amount host_ptr (m, had_unmapped).
          Some (cb current_vaddr offset copy_amount m, had_unmapped)) dest_addr sz (m, False);
     Some (\<not> had_unmapped, m')
   }"

definition InvalidateDataCache :: "nat \<Rightarrow> nat \<Rightarrow> memory_impl \<Rightarrow> (bool \<times> memory_impl) option" where
  "InvalidateDataCache = PerformCacheOperation (\<lambda>current_vaddr offset n. event (RasterizerDownload current_vaddr n))"

definition StoreDataCache :: "nat \<Rightarrow> nat \<Rightarrow> memory_impl \<Rightarrow> (bool \<times> memory_impl) option" where
  "StoreDataCache = PerformCacheOperation (\<lambda>current_vaddr offset n. event (RasterizerWrite current_vaddr n))"

definition FlushDataCache :: "nat \<Rightarrow> nat \<Rightarrow> memory_impl \<Rightarrow> (bool \<times> memory_impl) option" where
  "FlushDataCache = PerformCacheOperation (\<lambda>current_vaddr offset n. event (RasterizerWrite current_vaddr n))"

section \<open>Page types\<close>

definition num_pages :: "nat \<Rightarrow> nat \<Rightarrow> nat" where
  "num_pages vaddr sz =
     add64 (sub64 (sub64 (add64 vaddr sz) 1 div YUZU_PAGESIZE) (vaddr div YUZU_PAGESIZE)) 1"

definition mark_debug :: "bool \<Rightarrow> nat \<Rightarrow> memory_impl \<Rightarrow> memory_impl option" where
  "mark_debug debug vaddr m = do {
     e \<leftarrow> entry_at (vaddr div YUZU_PAGESIZE) m;
     if debug then
       (case ExtractType (raw e) of
          Memory \<Rightarrow> set_entry (vaddr div YUZU_PAGESIZE) (e\<lparr>raw := Store_raw 0 DebugMemory\<rparr>) m
        | _ \<Rightarrow> Some m)
     else
       (case ExtractType (raw e) of
          DebugMemory \<Rightarrow> do {
            pointer \<leftarrow> GetPointerFromDebugMemory (AlignDown vaddr YUZU_PAGESIZE) m;
            set_entry (vaddr div YUZU_PAGESIZE)
              (e\<lparr>raw := Store_raw (sub64 pointer (AlignDown vaddr YUZU_PAGESIZE)) Memory\<rparr>) m
          }
        | _ \<Rightarrow> Some m)
   }"

definition mark_cached :: "bool \<Rightarrow> nat \<Rightarrow> memory_impl \<Rightarrow> memory_impl option" where
  "mark_cached cached vaddr m = do {
     e \<leftarrow> entry_at (vaddr div YUZU_PAGESIZE) m;
     if cached then
       (case ExtractType (raw e) of
          Unmapped \<Rightarrow> Some m
        | DebugMemory \<Rightarrow> set_entry (vaddr div YUZU_PAGESIZE) (e\<lparr>raw := Store_raw 0 RasterizerCachedMemory\<rparr>) m
        | Memory \<Rightarrow> set_entry (vaddr div YUZU_PAGESIZE) (e\<lparr>raw := Store_raw 0 RasterizerCachedMemory\<rparr>) m
        | RasterizerCachedMemory \<Rightarrow> Some m)
     else
       (case ExtractType (raw e) of
          RasterizerCachedMemory \<Rightarrow> do {
            pointer \<leftarrow> GetPointerFromRasterizerCachedMemory (AlignDown vaddr YUZU_PAGESIZE) m;
            if pointer = 0 then set_entry (vaddr div YUZU_PAGESIZE) (e\<lparr>raw := Store_raw 0 Unmapped\<rparr>) m
            else set_entry (vaddr div YUZU_PAGESIZE)
              (e\<lparr>raw := Store_raw (sub64 pointer (AlignDown vaddr YUZU_PAGESIZE)) Memory\<rparr>) m
          }
        | _ \<Rightarrow> Some m)
   }"

text \<open>The loop over the pages, the same in both functions.\<close>

primrec mark_pages :: "(nat \<Rightarrow> memory_impl \<Rightarrow> memory_impl option) \<Rightarrow> nat \<Rightarrow> nat \<Rightarrow> memory_impl \<Rightarrow> memory_impl option" where
  "mark_pages mark 0 vaddr m = Some m"
| "mark_pages mark (Suc n) vaddr m = Option.bind (mark vaddr m) (mark_pages mark n (add64 vaddr YUZU_PAGESIZE))"

definition PermRead :: nat where "PermRead = 1"
definition PermWrite :: nat where "PermWrite = 2"

definition MarkRegionDebug :: "nat \<Rightarrow> nat \<Rightarrow> bool \<Rightarrow> memory_impl \<Rightarrow> memory_impl option" where
  "MarkRegionDebug vaddr sz debug m =
     (if vaddr = 0 \<or> \<not> AddressSpaceContains (current_page_table m) vaddr sz then Some m
      else mark_pages (mark_debug debug) (num_pages vaddr sz) vaddr
        (if fastmem_arena (current_page_table m)
         then event (HostProtect vaddr sz (if debug then 0 else PermRead OR PermWrite)) m else m))"

definition RasterizerMarkRegionCached :: "nat \<Rightarrow> nat \<Rightarrow> bool \<Rightarrow> memory_impl \<Rightarrow> memory_impl option" where
  "RasterizerMarkRegionCached vaddr sz cached m =
     (if vaddr = 0 \<or> \<not> AddressSpaceContains (current_page_table m) vaddr sz then Some m
      else mark_pages (mark_cached cached) (num_pages vaddr sz) vaddr
        (if fastmem_arena (current_page_table m)
         then event (HostProtect vaddr sz
                ((if \<not> use_reactive_flushing m \<or> \<not> cached then PermRead else 0) OR
                 (if \<not> cached then PermWrite else 0))) m
         else m))"

end
