(* ===== verification/GuestMemoryProps.thy ===== *)
theory GuestMemoryProps
  imports GuestMemory
begin

text \<open>
  What the page table and the accesses of \<open>GuestMemory\<close> mean.  \<open>translate\<close> is the
  abstract view of a well-formed memory, a partial function from guest to host addresses.  Mapping
  and unmapping update it, changing page types keeps it, and the page-wise walks of the block
  operations are the byte-wise accesses it describes.  The walk itself is treated once, in the locale
  \<open>block_walker\<close>, which every block operation interprets.
\<close>

section \<open>Arithmetic\<close>

lemma add64_lt: "add64 a b < 2 ^ 64"
  by (simp add: add64_def)

lemma sub64_lt: "sub64 a b < 2 ^ 64"
  by (simp add: sub64_def)

lemma add64_sub64: "a < 2 ^ 64 \<Longrightarrow> add64 (sub64 a b) b = a"
proof -
  assume "a < 2 ^ 64"
  have "int (add64 (sub64 a b) b) = ((int a - int b) mod 2 ^ 64 + int b) mod 2 ^ 64"
    by (simp add: add64_def sub64_def zmod_int)
  also have "\<dots> = int a" using \<open>a < 2 ^ 64\<close> by (simp add: mod_add_left_eq)
  finally show ?thesis by simp
qed

lemma sub64_add64: "a < 2 ^ 64 \<Longrightarrow> sub64 (add64 a b) b = a"
proof -
  assume "a < 2 ^ 64"
  have "int (sub64 (add64 a b) b) = ((int a + int b) mod 2 ^ 64 - int b) mod 2 ^ 64"
    by (simp add: add64_def sub64_def zmod_int)
  also have "\<dots> = int a" using \<open>a < 2 ^ 64\<close> by (simp add: mod_diff_left_eq)
  finally show ?thesis by simp
qed

lemma add64_add64: "add64 (add64 a b) c = add64 a (b + c)"
  by (simp add: add64_def mod_add_left_eq add.assoc)

lemma add64_commute: "add64 a b = add64 b a"
  by (simp add: add64_def add.commute)

lemma sub64_mod4: "a mod 4 = 0 \<Longrightarrow> b mod 4 = 0 \<Longrightarrow> sub64 a b mod 4 = 0"
proof -
  assume "a mod 4 = 0" "b mod 4 = 0"
  then have "(4::int) dvd int a - int b"
    by (metis dvd_diff mod_eq_0_iff_dvd of_nat_dvd_iff of_nat_numeral)
  then have "(4::int) dvd (int a - int b) mod 2 ^ 64" by (simp add: dvd_mod)
  moreover have "0 \<le> (int a - int b) mod 2 ^ 64" by simp
  ultimately show ?thesis unfolding sub64_def
    by (metis dvd_imp_mod_0 int_nat_eq nat_0_le of_nat_dvd_iff of_nat_numeral)
qed

section \<open>A pointer and its type in one word\<close>

lemma bit_of_multiple4: "p mod 4 = 0 \<Longrightarrow> bit p n \<Longrightarrow> 2 \<le> n" for p :: nat
proof -
  assume "p mod 4 = 0" "bit p n"
  then have "p = push_bit 2 (p div 4)" by (auto simp: push_bit_eq_mult)
  with \<open>bit p n\<close> show "2 \<le> n" by (metis bit_push_bit_iff_nat)
qed

lemma bit_bounded: "p < 2 ^ k \<Longrightarrow> bit p n \<Longrightarrow> n < k" for p :: nat
  by (metis bit_take_bit_iff take_bit_nat_eq_self)

lemma pointer_mask: "(2 ^ 64 - 4 :: nat) = push_bit 2 (mask 62)"
  by (simp add: mask_eq_exp_minus_1 push_bit_eq_mult)

lemma Store_raw_simps:
  assumes "p mod 4 = 0" "p < 2 ^ 64"
  shows "ExtractPointer (Store_raw p t) = p" "ExtractType (Store_raw p t) = t"
proof -
  have tv: "type_value t < 2 ^ 2" by (cases t) simp_all
  have "bit p n \<Longrightarrow> n - 2 < 62" for n using bit_bounded [OF assms(2), of n] by simp
  then show "ExtractPointer (Store_raw p t) = p"
    unfolding ExtractPointer_def Store_raw_def pointer_mask
    using bit_of_multiple4 [OF assms(1)] bit_bounded [OF tv]
    by (intro bit_eqI) (auto simp: bit_and_iff bit_or_iff bit_push_bit_iff_nat bit_mask_iff dest: leD)
  have "x AND 3 = take_bit 2 x" for x :: nat by (simp add: take_bit_eq_mask mask_eq_exp_minus_1)
  moreover have "take_bit 2 (p OR type_value t) = take_bit 2 (type_value t)"
    unfolding take_bit_or using assms(1) by (simp add: take_bit_eq_mod)
  moreover have "take_bit 2 (type_value t) = type_value t" by (cases t) (simp_all add: take_bit_eq_mod)
  ultimately show "ExtractType (Store_raw p t) = t"
    by (cases t) (simp_all add: ExtractType_def Store_raw_def)
qed

section \<open>Well-formed memories and translation\<close>

definition host_ok :: "memory_impl \<Rightarrow> bool" where
  "host_ok m \<longleftrightarrow> backing_base m mod YUZU_PAGESIZE = 0 \<and> 0 < backing_base m \<and>
     backing_base m + dram_size m \<le> 2 ^ 64 \<and> DramBase + dram_size m \<le> 2 ^ 64"

definition dram_page :: "memory_impl \<Rightarrow> nat \<Rightarrow> bool" where
  "dram_page m p \<longleftrightarrow> p mod YUZU_PAGESIZE = 0 \<and> DramBase \<le> p \<and> p + YUZU_PAGESIZE \<le> DramBase + dram_size m"

text \<open>The physical address of the page that entry \<open>e\<close> of page \<open>i\<close> maps.\<close>

definition page_phys :: "nat \<Rightarrow> page_entry \<Rightarrow> nat" where
  "page_phys i e = add64 (addr e) (i * YUZU_PAGESIZE)"

definition page_pointer :: "memory_impl \<Rightarrow> nat \<Rightarrow> page_entry \<Rightarrow> nat" where
  "page_pointer m i e = sub64 (DeviceGetPointer (page_phys i e) m) (i * YUZU_PAGESIZE)"

definition entry_ok :: "memory_impl \<Rightarrow> nat \<Rightarrow> page_entry \<Rightarrow> bool" where
  "entry_ok m i e \<longleftrightarrow>
     (if addr e = 0 then raw e = 0
      else addr e < 2 ^ 64 \<and> dram_page m (page_phys i e) \<and> page_pointer m i e \<noteq> 0 \<and>
        (raw e = Store_raw (page_pointer m i e) Memory \<or> raw e = Store_raw 0 DebugMemory \<or>
         raw e = Store_raw 0 RasterizerCachedMemory))"

definition space_top :: "memory_impl \<Rightarrow> nat" where
  "space_top m = 2 ^ current_address_space_width_in_bits (current_page_table m)"

definition table_ok :: "memory_impl \<Rightarrow> bool" where
  "table_ok m \<longleftrightarrow> page_size (current_page_table m) = YUZU_PAGESIZE \<and>
     current_address_space_width_in_bits (current_page_table m) \<le> 48 \<and>
     length (entries (current_page_table m)) * YUZU_PAGESIZE = space_top m"

definition mem_ok :: "memory_impl \<Rightarrow> bool" where
  "mem_ok m \<longleftrightarrow> host_ok m \<and> table_ok m \<and>
     (\<forall>i < length (entries (current_page_table m)). entry_ok m i (entries (current_page_table m) ! i))"

definition page_entry_of :: "memory_impl \<Rightarrow> nat \<Rightarrow> page_entry" where
  "page_entry_of m v = entries (current_page_table m) ! (v div YUZU_PAGESIZE)"

definition translate :: "memory_impl \<Rightarrow> nat \<Rightarrow> nat option" where
  "translate m v =
     (if v < space_top m \<and> addr (page_entry_of m v) \<noteq> 0
      then Some (DeviceGetPointer (page_phys (v div YUZU_PAGESIZE) (page_entry_of m v)) m + v mod YUZU_PAGESIZE)
      else None)"

definition cached :: "memory_impl \<Rightarrow> nat \<Rightarrow> bool" where
  "cached m v \<longleftrightarrow> v < space_top m \<and> ExtractType (raw (page_entry_of m v)) = RasterizerCachedMemory"

definition guest_byte :: "memory_impl \<Rightarrow> nat \<Rightarrow> u8" where
  "guest_byte m v = (case translate m v of None \<Rightarrow> 0 | Some h \<Rightarrow> ram m h)"

lemma space_top_le: "mem_ok m \<Longrightarrow> space_top m \<le> 2 ^ 48"
  unfolding space_top_def by (rule power_increasing) (simp_all add: mem_ok_def table_ok_def)

lemma page_in_table:
  assumes "mem_ok m"
  shows "v div YUZU_PAGESIZE < length (entries (current_page_table m)) \<longleftrightarrow> v < space_top m"
proof -
  have "space_top m = length (entries (current_page_table m)) * YUZU_PAGESIZE"
    using assms by (simp add: mem_ok_def table_ok_def)
  then show ?thesis by (simp add: div_less_iff_less_mult YUZU_PAGESIZE_def)
qed

lemma page_entry_ok:
  assumes "mem_ok m" "v < space_top m"
  shows "entry_ok m (v div YUZU_PAGESIZE) (page_entry_of m v)"
  using assms page_in_table [OF assms(1), of v] by (simp add: mem_ok_def page_entry_of_def)

lemma DeviceGetPointer_dram:
  assumes "host_ok m" "DramBase \<le> p" "p < DramBase + dram_size m"
  shows "DeviceGetPointer p m = backing_base m + (p - DramBase)"
proof -
  have "sub64 p DramBase = p - DramBase" using assms by (intro sub64_exact) (auto simp: host_ok_def)
  moreover have "backing_base m + (p - DramBase) < 2 ^ 64"
    using assms unfolding host_ok_def by linarith
  ultimately show ?thesis by (simp add: DeviceGetPointer_def add64_exact)
qed

text \<open>The three ways to a pointer agree with the translation.\<close>

lemma page_pointer_mod4:
  assumes "host_ok m" "dram_page m (page_phys i e)"
  shows "page_pointer m i e mod 4 = 0"
proof -
  have "DeviceGetPointer (page_phys i e) m = backing_base m + (page_phys i e - DramBase)"
    using assms by (intro DeviceGetPointer_dram) (auto simp: dram_page_def YUZU_PAGESIZE_def)
  moreover have "4 dvd backing_base m" "4 dvd page_phys i e" "(4::nat) dvd DramBase"
    using assms unfolding host_ok_def dram_page_def YUZU_PAGESIZE_def DramBase_def
    by (auto intro: dvd_trans [of 4 4096])
  ultimately have "DeviceGetPointer (page_phys i e) m mod 4 = 0" by auto
  then show ?thesis unfolding page_pointer_def by (rule sub64_mod4) (simp add: YUZU_PAGESIZE_def)
qed

lemma page_pointer_reaches:
  assumes "host_ok m" "dram_page m (page_phys i e)" "off < YUZU_PAGESIZE"
  shows "add64 (page_pointer m i e) (i * YUZU_PAGESIZE + off) = DeviceGetPointer (page_phys i e) m + off"
proof -
  have p: "DramBase \<le> page_phys i e" "page_phys i e + YUZU_PAGESIZE \<le> DramBase + dram_size m"
    using assms(2) by (auto simp: dram_page_def)
  then have d: "DeviceGetPointer (page_phys i e) m = backing_base m + (page_phys i e - DramBase)"
    using assms(1) by (intro DeviceGetPointer_dram) (auto simp: YUZU_PAGESIZE_def)
  then have "DeviceGetPointer (page_phys i e) m + off < 2 ^ 64"
    using p assms(1,3) unfolding host_ok_def by linarith
  moreover from this have "add64 (page_pointer m i e) (i * YUZU_PAGESIZE) = DeviceGetPointer (page_phys i e) m"
    unfolding page_pointer_def by (intro add64_sub64) simp
  ultimately show ?thesis
    using add64_add64 [of "page_pointer m i e" "i * YUZU_PAGESIZE" off] by (simp add: add64_exact)
qed

lemma backing_reaches:
  assumes "host_ok m" "dram_page m (page_phys i e)" "off < YUZU_PAGESIZE"
  shows "DeviceGetPointer (add64 (addr e) (i * YUZU_PAGESIZE + off)) m = DeviceGetPointer (page_phys i e) m + off"
proof -
  have p: "DramBase \<le> page_phys i e" "page_phys i e + YUZU_PAGESIZE \<le> DramBase + dram_size m"
    using assms(2) by (auto simp: dram_page_def)
  then have "add64 (addr e) (i * YUZU_PAGESIZE + off) = page_phys i e + off"
    using add64_add64 [of "addr e" "i * YUZU_PAGESIZE" off] assms(1,3)
    by (simp add: add64_exact page_phys_def [symmetric] host_ok_def)
  moreover have "DeviceGetPointer (page_phys i e + off) m = backing_base m + (page_phys i e + off - DramBase)"
    "DeviceGetPointer (page_phys i e) m = backing_base m + (page_phys i e - DramBase)"
    using p assms by (intro DeviceGetPointer_dram; simp add: YUZU_PAGESIZE_def)+
  ultimately show ?thesis using p by simp
qed

lemma page_split: "v div YUZU_PAGESIZE * YUZU_PAGESIZE + v mod YUZU_PAGESIZE = v"
  by simp

lemma page_mod_less: "v mod YUZU_PAGESIZE < YUZU_PAGESIZE"
  by (simp add: YUZU_PAGESIZE_def)

lemma entry_at_ok [simp]:
  "mem_ok m \<Longrightarrow> v < space_top m \<Longrightarrow> entry_at (v div YUZU_PAGESIZE) m = Some (page_entry_of m v)"
  by (simp add: entry_at_def page_entry_of_def page_in_table)

lemma extract_zero: "ExtractPointer 0 = 0" "ExtractType 0 = Unmapped"
  by (simp_all add: ExtractPointer_def ExtractType_def)

lemma page_cases:
  assumes "mem_ok m" "v < space_top m"
  obtains (unmapped) "ExtractType (raw (page_entry_of m v)) = Unmapped" "translate m v = None"
      "ExtractPointer (raw (page_entry_of m v)) = 0"
  | (memory) h where "ExtractType (raw (page_entry_of m v)) = Memory" "translate m v = Some h"
      "ExtractPointer (raw (page_entry_of m v)) \<noteq> 0" "add64 (ExtractPointer (raw (page_entry_of m v))) v = h"
  | (debug) h where "ExtractType (raw (page_entry_of m v)) = DebugMemory" "translate m v = Some h"
      "ExtractPointer (raw (page_entry_of m v)) = 0" "GetPointerFromDebugMemory v m = Some h"
  | (raster) h where "ExtractType (raw (page_entry_of m v)) = RasterizerCachedMemory" "translate m v = Some h"
      "ExtractPointer (raw (page_entry_of m v)) = 0" "GetPointerFromRasterizerCachedMemory v m = Some h"
proof -
  let ?e = "page_entry_of m v" and ?i = "v div YUZU_PAGESIZE"
  have ok: "entry_ok m ?i ?e" "host_ok m" using page_entry_ok [OF assms] assms(1) by (auto simp: mem_ok_def)
  show thesis
  proof (cases "addr ?e = 0")
    case True
    with ok show thesis using unmapped by (simp add: entry_ok_def extract_zero translate_def)
  next
    case False
    let ?h = "DeviceGetPointer (page_phys ?i ?e) m + v mod YUZU_PAGESIZE"
    have d: "dram_page m (page_phys ?i ?e)" "page_pointer m ?i ?e \<noteq> 0" using ok(1) False by (auto simp: entry_ok_def)
    have t: "translate m v = Some ?h" using False assms(2) by (simp add: translate_def)
    have b: "DeviceGetPointer (add64 (addr ?e) v) m = ?h"
      using backing_reaches [OF ok(2) d(1) page_mod_less [of v]] by simp
    have pt: "page_pointer m ?i ?e mod 4 = 0" "page_pointer m ?i ?e < 2 ^ 64"
      using page_pointer_mod4 [OF ok(2) d(1)] sub64_lt by (auto simp: page_pointer_def)
    from ok(1) False consider "raw ?e = Store_raw (page_pointer m ?i ?e) Memory" | "raw ?e = Store_raw 0 DebugMemory"
      | "raw ?e = Store_raw 0 RasterizerCachedMemory" by (auto simp: entry_ok_def)
    then show thesis
    proof cases
      case 1
      with Store_raw_simps [OF pt] t d(2) page_pointer_reaches [OF ok(2) d(1) page_mod_less [of v]]
      show thesis by (intro memory [of ?h]) simp_all
    next
      case 2
      with t b assms False show thesis
        by (intro debug [of ?h]) (simp_all add: Store_raw_simps GetPointerFromDebugMemory_def)
    next
      case 3
      with t b assms False show thesis
        by (intro raster [of ?h]) (simp_all add: Store_raw_simps GetPointerFromRasterizerCachedMemory_def)
    qed
  qed
qed

text \<open>Addresses of one page are translated alike.\<close>

lemma page_of: "r < n \<Longrightarrow> (q * n + r) div n = q" "r < n \<Longrightarrow> (q * n + r) mod n = r" for q n r :: nat
  by simp_all

lemma same_page:
  assumes "v mod YUZU_PAGESIZE + i < YUZU_PAGESIZE"
  shows "(v + i) div YUZU_PAGESIZE = v div YUZU_PAGESIZE" "(v + i) mod YUZU_PAGESIZE = v mod YUZU_PAGESIZE + i"
proof -
  have v: "v + i = v div YUZU_PAGESIZE * YUZU_PAGESIZE + (v mod YUZU_PAGESIZE + i)" by simp
  show "(v + i) div YUZU_PAGESIZE = v div YUZU_PAGESIZE" "(v + i) mod YUZU_PAGESIZE = v mod YUZU_PAGESIZE + i"
    by (subst v, rule page_of [OF assms])+
qed

lemma translate_chunk:
  assumes "mem_ok m" "v < space_top m" "v mod YUZU_PAGESIZE + i < YUZU_PAGESIZE"
  shows "translate m (v + i) = map_option (\<lambda>h. h + i) (translate m v)" "cached m (v + i) = cached m v"
    "v + i < space_top m"
proof -
  have "page_entry_of m (v + i) = page_entry_of m v" using same_page [OF assms(3)] by (simp add: page_entry_of_def)
  moreover show "v + i < space_top m"
    using assms(2) same_page(1) [OF assms(3)] page_in_table [OF assms(1)] by metis
  ultimately show "translate m (v + i) = map_option (\<lambda>h. h + i) (translate m v)" "cached m (v + i) = cached m v"
    using same_page [OF assms(3)] assms(2) by (simp_all add: translate_def cached_def)
qed

lemma translate_host_valid:
  assumes "mem_ok m" "translate m v = Some h" "v mod YUZU_PAGESIZE + n \<le> YUZU_PAGESIZE"
  shows "host_valid h n m" "h \<noteq> 0"
proof -
  let ?e = "page_entry_of m v" and ?i = "v div YUZU_PAGESIZE"
  have v: "v < space_top m" "addr ?e \<noteq> 0" "h = DeviceGetPointer (page_phys ?i ?e) m + v mod YUZU_PAGESIZE"
    using assms(2) by (auto simp: translate_def split: if_splits)
  have d: "host_ok m" "dram_page m (page_phys ?i ?e)"
    using page_entry_ok [OF assms(1) v(1)] v(2) assms(1) by (auto simp: entry_ok_def mem_ok_def)
  have "DeviceGetPointer (page_phys ?i ?e) m = backing_base m + (page_phys ?i ?e - DramBase)"
    using d by (intro DeviceGetPointer_dram) (auto simp: dram_page_def YUZU_PAGESIZE_def)
  moreover have "DramBase \<le> page_phys ?i ?e" "page_phys ?i ?e + YUZU_PAGESIZE \<le> DramBase + dram_size m" "0 < backing_base m"
    using d by (auto simp: dram_page_def host_ok_def)
  ultimately show "host_valid h n m" "h \<noteq> 0" using v(3) assms(3) unfolding host_valid_def by auto
qed

section \<open>Walking a block\<close>

definition same_table :: "memory_impl \<Rightarrow> memory_impl \<Rightarrow> bool" where
  "same_table m0 m \<longleftrightarrow> current_page_table m = current_page_table m0 \<and> backing_base m = backing_base m0 \<and>
     dram_size m = dram_size m0"

lemma same_table_refl [simp]: "same_table m m"
  by (simp add: same_table_def)

lemma same_table_eqs:
  assumes "same_table m0 m"
  shows "translate m = translate m0" "cached m = cached m0" "mem_ok m = mem_ok m0" "space_top m = space_top m0"
    "host_valid = (\<lambda>p n k. host_valid p n k)" "host_valid p n m = host_valid p n m0"
    "current_page_table m = current_page_table m0"
  using assms by (auto simp: same_table_def fun_eq_iff translate_def cached_def mem_ok_def space_top_def host_valid_def
      page_entry_of_def DeviceGetPointer_def host_ok_def table_ok_def entry_ok_def dram_page_def page_pointer_def)

text \<open>
  A run of \<open>n\<close> bytes of the guest that lie in one page: not mapped, or mapped to consecutive
  bytes of the host.
\<close>

definition unmapped_run :: "memory_impl \<Rightarrow> nat \<Rightarrow> nat \<Rightarrow> bool" where
  "unmapped_run m v n \<longleftrightarrow> (\<forall>i<n. translate m (v + i) = None \<and> \<not> cached m (v + i))"

definition mapped_run :: "memory_impl \<Rightarrow> bool \<Rightarrow> nat \<Rightarrow> nat \<Rightarrow> nat \<Rightarrow> bool" where
  "mapped_run m c v n h \<longleftrightarrow> host_valid h n m \<and> (\<forall>i<n. translate m (v + i) = Some (h + i) \<and> cached m (v + i) = c)"

locale block_walker =
  fixes on_unmapped :: "nat \<Rightarrow> nat \<Rightarrow> nat \<Rightarrow> 'b walk" and on_memory :: "nat \<Rightarrow> nat \<Rightarrow> nat \<Rightarrow> 'b walk"
    and on_rasterizer :: "nat \<Rightarrow> nat \<Rightarrow> nat \<Rightarrow> nat \<Rightarrow> 'b walk"
    and progress :: "memory_impl \<Rightarrow> nat \<Rightarrow> nat \<Rightarrow> nat \<Rightarrow> memory_impl \<times> 'b \<Rightarrow> bool"
  assumes keeps_table: "progress m0 a n k s \<Longrightarrow> same_table m0 (fst s)"
    and unmapped_step: "\<lbrakk>mem_ok m0; a + n \<le> space_top m0; progress m0 a n k s; k + c \<le> n; unmapped_run m0 (a + k) c\<rbrakk>
      \<Longrightarrow> \<exists>s'. on_unmapped k c (a + k) s = Some s' \<and> progress m0 a n (k + c) s'"
    and memory_step: "\<lbrakk>mem_ok m0; a + n \<le> space_top m0; progress m0 a n k s; k + c \<le> n; mapped_run m0 False (a + k) c h\<rbrakk>
      \<Longrightarrow> \<exists>s'. on_memory k c h s = Some s' \<and> progress m0 a n (k + c) s'"
    and rasterizer_step: "\<lbrakk>mem_ok m0; a + n \<le> space_top m0; progress m0 a n k s; k + c \<le> n; mapped_run m0 True (a + k) c h\<rbrakk>
      \<Longrightarrow> \<exists>s'. on_rasterizer (a + k) k c h s = Some s' \<and> progress m0 a n (k + c) s'"
begin

lemma chunk_step:
  assumes "mem_ok m0" "a + n \<le> space_top m0" "progress m0 a n k s" "k + c \<le> n" "0 < c"
    and "(a + k) mod YUZU_PAGESIZE + c \<le> YUZU_PAGESIZE" "e = page_entry_of m0 (a + k)"
  shows "\<exists>s'. (case ExtractType (raw e) of
            Unmapped \<Rightarrow> on_unmapped k c (a + k) s
          | Memory \<Rightarrow> on_memory k c (add64 (ExtractPointer (raw e)) (a + k)) s
          | DebugMemory \<Rightarrow> GetPointerFromDebugMemory (a + k) (fst s) \<bind> (\<lambda>p. on_memory k c p s)
          | RasterizerCachedMemory \<Rightarrow> GetPointerFromRasterizerCachedMemory (a + k) (fst s) \<bind>
              (\<lambda>p. on_rasterizer (a + k) k c p s)) = Some s' \<and>
      progress m0 a n (k + c) s' \<and>
      (ExtractType (raw e) \<noteq> Unmapped \<longleftrightarrow> (\<forall>i\<in>{k..<k + c}. translate m0 (a + i) \<noteq> None))"
proof -
  have v: "a + k < space_top m0" using assms(2,4,5) by simp
  have tr: "translate m0 (a + k + i) = map_option (\<lambda>h. h + i) (translate m0 (a + k))"
    "cached m0 (a + k + i) = cached m0 (a + k)" if "i < c" for i
    using translate_chunk [OF assms(1) v, of i] assms(6) that by auto
  have all: "(\<forall>i\<in>{k..<k + c}. translate m0 (a + i) \<noteq> None) \<longleftrightarrow> translate m0 (a + k) \<noteq> None"
  proof
    assume "translate m0 (a + k) \<noteq> None"
    show "\<forall>i\<in>{k..<k + c}. translate m0 (a + i) \<noteq> None"
    proof
      fix i assume "i \<in> {k..<k + c}"
      then have "i - k < c" "a + k + (i - k) = a + i" by auto
      with tr(1) [of "i - k"] \<open>translate m0 (a + k) \<noteq> None\<close> show "translate m0 (a + i) \<noteq> None" by auto
    qed
  qed (use assms(5) in auto)
  have st: "same_table m0 (fst s)" using assms(3) by (rule keeps_table)
  then have g: "GetPointerFromDebugMemory (a + k) (fst s) = GetPointerFromDebugMemory (a + k) m0"
    "GetPointerFromRasterizerCachedMemory (a + k) (fst s) = GetPointerFromRasterizerCachedMemory (a + k) m0"
    by (auto simp: same_table_def GetPointerFromDebugMemory_def GetPointerFromRasterizerCachedMemory_def
        entry_at_def DeviceGetPointer_def cong: if_cong)
  have run: "mapped_run m0 (cached m0 (a + k)) (a + k) c h" if "translate m0 (a + k) = Some h" for h
    using that tr translate_host_valid(1) [OF assms(1) that assms(6)] by (simp add: mapped_run_def)
  from assms(1) v show ?thesis
  proof (cases rule: page_cases)
    case unmapped
    then have "unmapped_run m0 (a + k) c" using tr by (simp add: unmapped_run_def cached_def)
    from unmapped_step [OF assms(1-4) this] unmapped assms(7) show ?thesis unfolding all by auto
  next
    case (memory h)
    with run have "mapped_run m0 False (a + k) c h" by (simp add: cached_def)
    from memory_step [OF assms(1-4) this] memory assms(7) show ?thesis unfolding all by auto
  next
    case (debug h)
    with run have "mapped_run m0 False (a + k) c h" by (simp add: cached_def)
    from memory_step [OF assms(1-4) this] debug assms(7) g show ?thesis unfolding all by auto
  next
    case (raster h)
    with run v have "mapped_run m0 True (a + k) c h" by (simp add: cached_def)
    from rasterizer_step [OF assms(1-4) this] raster assms(7) g show ?thesis unfolding all by auto
  qed
qed

lemma walk_loop:
  assumes "mem_ok m0" "a + n \<le> space_top m0" "progress m0 a n k s" "k + rest = n"
    and "rest = 0 \<or> pg * YUZU_PAGESIZE + off = a + k \<and> off < YUZU_PAGESIZE"
  shows "\<exists>s'. WalkBlock_loop on_unmapped on_memory on_rasterizer rest pg off k u s =
      Some (u \<and> (\<forall>i\<in>{k..<n}. translate m0 (a + i) \<noteq> None), s') \<and> progress m0 a n n s'"
  using assms(3-5)
proof (induction rest arbitrary: pg off k u s rule: less_induct)
  case (less rest)
  note unfold = WalkBlock_loop.simps [of on_unmapped on_memory on_rasterizer rest pg off k u s]
  show ?case
  proof (cases "rest = 0")
    case True
    then show ?thesis unfolding unfold using less.prems by (intro exI [of _ s]) simp
  next
    case False
    define c where "c = min (YUZU_PAGESIZE - off) rest"
    from False less.prems(3) have pg: "pg * YUZU_PAGESIZE + off = a + k" "off < YUZU_PAGESIZE" by auto
    have page: "(a + k) div YUZU_PAGESIZE = pg" "(a + k) mod YUZU_PAGESIZE = off"
      using page_of [OF pg(2), of pg] pg(1) by simp_all
    have c: "0 < c" "c \<le> rest" "off + c \<le> YUZU_PAGESIZE" using pg(2) False by (auto simp: c_def)
    have k: "k + c \<le> n" "a + k < space_top m0" using less.prems(2) c assms(2) by auto
    have top: "space_top m0 \<le> 2 ^ 48" using assms(1) by (rule space_top_le)
    then have "pg * YUZU_PAGESIZE < 2 ^ 48" "pg < 2 ^ 48" using pg k(2) by (auto simp: YUZU_PAGESIZE_def)
    then have small: "mul64 pg YUZU_PAGESIZE = pg * YUZU_PAGESIZE" "add64 pg (Suc 0) = Suc pg"
      "add64 (pg * YUZU_PAGESIZE) off = a + k"
      using pg k(2) top by (simp_all add: mul64_exact add64_exact)
    define e where "e = page_entry_of m0 (a + k)"
    have ea: "entry_at pg (fst s) = Some e"
      using entry_at_ok [OF assms(1) k(2)] keeps_table [OF less.prems(1)] page(1)
      by (simp add: e_def entry_at_def same_table_def)
    have ptr: "add64 (add64 p off) (pg * YUZU_PAGESIZE) = add64 p (a + k)" for p
      unfolding add64_add64 using pg(1) by (simp add: add.commute)
    from chunk_step [OF assms(1,2) less.prems(1) k(1) c(1) _ e_def] c(3) page(2) obtain s1 where s1:
      "(case ExtractType (raw e) of
            Unmapped \<Rightarrow> on_unmapped k c (a + k) s
          | Memory \<Rightarrow> on_memory k c (add64 (ExtractPointer (raw e)) (a + k)) s
          | DebugMemory \<Rightarrow> GetPointerFromDebugMemory (a + k) (fst s) \<bind> (\<lambda>p. on_memory k c p s)
          | RasterizerCachedMemory \<Rightarrow> GetPointerFromRasterizerCachedMemory (a + k) (fst s) \<bind>
              (\<lambda>p. on_rasterizer (a + k) k c p s)) = Some s1"
      "progress m0 a n (k + c) s1"
      "ExtractType (raw e) \<noteq> Unmapped \<longleftrightarrow> (\<forall>i\<in>{k..<k + c}. translate m0 (a + i) \<noteq> None)" by auto
    let ?u = "u \<and> ExtractType (raw e) \<noteq> Unmapped"
    have step: "WalkBlock_loop on_unmapped on_memory on_rasterizer rest pg off k u s =
        WalkBlock_loop on_unmapped on_memory on_rasterizer (rest - c) (pg + 1) 0 (k + c) ?u s1"
      using False s1(1) by (simp add: unfold Let_def ea small ptr c_def [symmetric] cong: page_type.case_cong)
    have "rest - c = 0 \<or> (pg + 1) * YUZU_PAGESIZE + 0 = a + (k + c) \<and> 0 < YUZU_PAGESIZE"
      using pg by (auto simp: c_def min_def)
    with less.IH [of "rest - c" "k + c" s1 "pg + 1" 0 ?u] s1(2) c less.prems(2) False obtain s' where
      "WalkBlock_loop on_unmapped on_memory on_rasterizer (rest - c) (pg + 1) 0 (k + c) ?u s1 =
        Some (?u \<and> (\<forall>i\<in>{k + c..<n}. translate m0 (a + i) \<noteq> None), s')" "progress m0 a n n s'" by auto
    moreover have "{k..<n} = {k..<k + c} \<union> {k + c..<n}" using k(1) by auto
    ultimately show ?thesis unfolding step s1(3) by (auto simp: ball_Un)
  qed
qed

lemma walk:
  assumes "mem_ok m0" "a + n \<le> space_top m0" "progress m0 a n 0 s"
  shows "\<exists>s'. WalkBlock on_unmapped on_memory on_rasterizer a n s =
      Some (\<forall>i<n. translate m0 (a + i) \<noteq> None, s') \<and> progress m0 a n n s'"
proof -
  have "add64 a n = a + n" using assms(2) space_top_le [OF assms(1)] by (intro add64_exact) simp
  then have "AddressSpaceContains (current_page_table (fst s)) a n"
    using assms(2) keeps_table [OF assms(3)] by (simp add: AddressSpaceContains_def same_table_def space_top_def)
  with walk_loop [OF assms, of n "a div YUZU_PAGESIZE" "a mod YUZU_PAGESIZE" True] show ?thesis
    by (auto simp: WalkBlock_def page_mod_less)
qed

end

lemma WalkBlock_outside:
  assumes "mem_ok m" "\<not> a + n \<le> space_top m" "a < 2 ^ 64" "n < 2 ^ 64"
  shows "WalkBlock on_unmapped on_memory on_rasterizer a n (m, b) = map_option (Pair False) (on_unmapped 0 n a (m, b))"
proof -
  have "\<not> AddressSpaceContains (current_page_table m) a n"
  proof (cases "a + n < 2 ^ 64")
    case True
    then show ?thesis using assms(2) by (simp add: AddressSpaceContains_def add64_exact space_top_def)
  next
    case False
    then have "add64 a n = a + n - 2 ^ 64" using assms(3,4) by (simp add: add64_def mod_if)
    then have "add64 a n < a" using False assms(3,4) by linarith
    then show ?thesis by (simp add: AddressSpaceContains_def)
  qed
  then show ?thesis by (simp add: WalkBlock_def)
qed

section \<open>The block operations, byte by byte\<close>

text \<open>
  What a walk over the first \<open>k\<close> of the bytes from \<open>a\<close> on has told the GPU: nothing if it
  is unsafe, otherwise the events of one kind that cover exactly the cached bytes.
\<close>

definition announced ::
  "bool \<Rightarrow> (nat \<Rightarrow> nat \<Rightarrow> host_event) \<Rightarrow> memory_impl \<Rightarrow> nat \<Rightarrow> nat \<Rightarrow> host_event list \<Rightarrow> bool" where
  "announced unsafe mk m a k ev \<longleftrightarrow>
     (if unsafe then ev = []
      else (\<forall>e\<in>set ev. \<exists>v n. e = mk v n) \<and>
        {w. \<exists>v n. mk v n \<in> set ev \<and> v \<le> w \<and> w < v + n} = {w. a \<le> w \<and> w < a + k \<and> cached m w})"

lemma announced_start: "announced unsafe mk m a 0 []"
  by (simp add: announced_def)

lemma run_extends:
  assumes "\<forall>i<c. cached m (a + k + i) = b"
  shows "{w. a \<le> w \<and> w < a + (k + c) \<and> cached m w} =
    {w. a \<le> w \<and> w < a + k \<and> cached m w} \<union> (if b then {w. a + k \<le> w \<and> w < a + k + c} else {})"
proof -
  have "cached m w = b" if "a + k \<le> w" "w < a + k + c" for w
    using assms [rule_format, of "w - (a + k)"] that by auto
  moreover have "w < a + (k + c) \<longleftrightarrow> w < a + k \<or> a + k \<le> w \<and> w < a + k + c" for w by auto
  ultimately show ?thesis by (cases b) auto
qed

lemma announced_quiet:
  assumes "announced unsafe mk m a k ev" "\<forall>i<c. \<not> cached m (a + k + i)"
  shows "announced unsafe mk m a (k + c) ev"
  using assms run_extends [of c m a k False] by (simp add: announced_def)

lemma announced_event:
  assumes "announced unsafe mk m a k ev" "\<forall>i<c. cached m (a + k + i)"
    and inj: "\<And>v n v' n'. mk v n = mk v' n' \<longleftrightarrow> v = v' \<and> n = n'"
  shows "announced unsafe mk m a (k + c) (if unsafe then ev else ev @ [mk (a + k) c])"
proof (cases unsafe)
  case False
  have "{w. \<exists>v n. mk v n \<in> set (ev @ [mk (a + k) c]) \<and> v \<le> w \<and> w < v + n} =
      {w. \<exists>v n. mk v n \<in> set ev \<and> v \<le> w \<and> w < v + n} \<union> {w. a + k \<le> w \<and> w < a + k + c}"
    by (auto simp: inj)
  with False assms(1) run_extends [of c m a k True] assms(2) show ?thesis by (auto simp: announced_def)
qed (use assms(1) in \<open>simp add: announced_def\<close>)

primrec write_bytes :: "memory_impl \<Rightarrow> nat \<Rightarrow> u8 list \<Rightarrow> (nat \<Rightarrow> u8) \<Rightarrow> nat \<Rightarrow> u8" where
  "write_bytes m a [] f = f"
| "write_bytes m a (b # bs) f =
     write_bytes m (a + 1) bs (case translate m a of None \<Rightarrow> f | Some h \<Rightarrow> f(h := b))"

lemma write_bytes_append:
  "write_bytes m a (xs @ ys) f = write_bytes m (a + length xs) ys (write_bytes m a xs f)"
  by (induction xs arbitrary: a f) simp_all

lemma write_bytes_unmapped: "unmapped_run m a (length bs) \<Longrightarrow> write_bytes m a bs f = f"
proof (induction bs arbitrary: a)
  case (Cons b bs)
  then have "unmapped_run m (a + 1) (length bs)" "translate m a = None"
    by (force simp: unmapped_run_def)+
  with Cons.IH show ?case by simp
qed simp

lemma store_bytes_Cons: "store_bytes h (b # bs) f = store_bytes (h + 1) bs (f(h := b))"
  by (rule ext) (auto simp: store_bytes_def nth_Cons' Suc_diff_le)

lemma write_bytes_run:
  assumes "\<forall>i<length bs. translate m (a + i) = Some (h + i)"
  shows "write_bytes m a bs f = store_bytes h bs f"
  using assms
proof (induction bs arbitrary: a h f)
  case Nil
  then show ?case by (auto simp: store_bytes_def fun_eq_iff)
next
  case (Cons b bs)
  have "\<forall>i<length bs. translate m (a + 1 + i) = Some (h + 1 + i)"
    using Cons.prems by (metis Suc_eq_plus1 add.assoc add.commute length_Cons Suc_less_eq)
  moreover have "translate m a = Some h" using Cons.prems [rule_format, of 0] by simp
  ultimately show ?case using Cons.IH by (simp add: store_bytes_Cons)
qed

lemma store_bytes_same: "store_bytes h (map f [h..<h + n]) f = f"
  by (rule ext) (auto simp: store_bytes_def)

text \<open>Reading.\<close>

definition read_progress ::
  "bool \<Rightarrow> u8 list \<Rightarrow> memory_impl \<Rightarrow> nat \<Rightarrow> nat \<Rightarrow> nat \<Rightarrow> memory_impl \<times> u8 list \<Rightarrow> bool" where
  "read_progress unsafe buf0 m0 a n k s \<longleftrightarrow> n \<le> length buf0 \<and>
     (\<exists>ev. s = (m0\<lparr>host_events := host_events m0 @ ev\<rparr>, map (guest_byte m0) [a..<a + k] @ drop k buf0) \<and>
       announced unsafe RasterizerDownload m0 a k ev)"

lemma buffer_grows:
  assumes "k + c \<le> n" "n \<le> length buf0" "bs = map (guest_byte m0) [a + k..<a + k + c]"
  shows "buffer_store k bs (map (guest_byte m0) [a..<a + k] @ drop k buf0) =
    Some (map (guest_byte m0) [a..<a + (k + c)] @ drop (k + c) buf0)"
proof -
  have "[a..<a + (k + c)] = [a..<a + k] @ [a + k..<a + k + c]"
    using upt_add_eq_append [of a "a + k" c] by (simp add: add.assoc)
  then show ?thesis using assms(1,2) unfolding assms(3) by (simp add: buffer_store_def add.commute)
qed

lemma guest_bytes_run:
  assumes "mapped_run m0 b v c h"
  shows "map (ram m0) [h..<h + c] = map (guest_byte m0) [v..<v + c]"
  using assms by (intro nth_equalityI) (auto simp: mapped_run_def guest_byte_def)

lemma guest_bytes_unmapped:
  assumes "unmapped_run m0 v c"
  shows "replicate c 0 = map (guest_byte m0) [v..<v + c]"
  using assms by (intro nth_equalityI) (auto simp: unmapped_run_def guest_byte_def)

interpretation reading: block_walker read_unmapped read_memory_page "read_cached_page unsafe" "read_progress unsafe buf0"
proof
  fix m0 a n k s
  assume "read_progress unsafe buf0 m0 a n k s"
  then show "same_table m0 (fst s)" by (auto simp: read_progress_def same_table_def)
next
  fix m0 a n k s c
  assume p: "read_progress unsafe buf0 m0 a n k s" "k + c \<le> n" and u: "unmapped_run m0 (a + k) c"
  from p obtain ev where "n \<le> length buf0" "announced unsafe RasterizerDownload m0 a k ev"
    "s = (m0\<lparr>host_events := host_events m0 @ ev\<rparr>, map (guest_byte m0) [a..<a + k] @ drop k buf0)"
    by (auto simp: read_progress_def)
  with p(2) u buffer_grows [OF p(2) _ guest_bytes_unmapped [OF u], of buf0]
    announced_quiet [of unsafe RasterizerDownload m0 a k ev c]
  show "\<exists>s'. read_unmapped k c (a + k) s = Some s' \<and> read_progress unsafe buf0 m0 a n (k + c) s'"
    by (auto simp: read_unmapped_def read_progress_def unmapped_run_def)
next
  fix m0 a n k s c h
  assume p: "read_progress unsafe buf0 m0 a n k s" "k + c \<le> n" and r: "mapped_run m0 False (a + k) c h"
  from p obtain ev where "n \<le> length buf0" "announced unsafe RasterizerDownload m0 a k ev"
    "s = (m0\<lparr>host_events := host_events m0 @ ev\<rparr>, map (guest_byte m0) [a..<a + k] @ drop k buf0)"
    by (auto simp: read_progress_def)
  with p(2) r buffer_grows [OF p(2) _ guest_bytes_run [OF r], of buf0]
    announced_quiet [of unsafe RasterizerDownload m0 a k ev c]
  show "\<exists>s'. read_memory_page k c h s = Some s' \<and> read_progress unsafe buf0 m0 a n (k + c) s'"
    by (auto simp: read_memory_page_def read_progress_def mapped_run_def host_read_def host_valid_def)
next
  fix m0 a n k s c h
  assume p: "read_progress unsafe buf0 m0 a n k s" "k + c \<le> n" and r: "mapped_run m0 True (a + k) c h"
  from p obtain ev where "n \<le> length buf0" "announced unsafe RasterizerDownload m0 a k ev"
    "s = (m0\<lparr>host_events := host_events m0 @ ev\<rparr>, map (guest_byte m0) [a..<a + k] @ drop k buf0)"
    by (auto simp: read_progress_def)
  with p(2) r buffer_grows [OF p(2) _ guest_bytes_run [OF r], of buf0]
    announced_event [of unsafe RasterizerDownload m0 a k ev c]
  show "\<exists>s'. read_cached_page unsafe (a + k) k c h s = Some s' \<and> read_progress unsafe buf0 m0 a n (k + c) s'"
    by (auto simp: read_cached_page_def read_memory_page_def read_progress_def mapped_run_def host_read_def
        host_valid_def event_def)
qed

lemma ReadBlockImpl_inside:
  assumes "mem_ok m" "a + n \<le> space_top m" "n \<le> length buf"
  shows "\<exists>ev. ReadBlockImpl a n unsafe buf m = Some (\<forall>i<n. translate m (a + i) \<noteq> None,
      m\<lparr>host_events := host_events m @ ev\<rparr>, map (guest_byte m) [a..<a + n] @ drop n buf) \<and>
    announced unsafe RasterizerDownload m a n ev"
proof -
  have "read_progress unsafe buf m a n 0 (m, buf)"
    using assms(3) by (auto simp: read_progress_def announced_start intro!: exI [of _ "[]"])
  from reading.walk [OF assms(1,2) this] show ?thesis by (auto simp: ReadBlockImpl_def read_progress_def)
qed

lemma ReadBlockImpl_outside:
  assumes "mem_ok m" "\<not> a + n \<le> space_top m" "a < 2 ^ 64" "n < 2 ^ 64" "n \<le> length buf"
  shows "ReadBlockImpl a n unsafe buf m = Some (False, m, replicate n 0 @ drop n buf)"
  unfolding ReadBlockImpl_def WalkBlock_outside [OF assms(1-4)]
  using assms(5) by (simp add: read_unmapped_def buffer_store_def)

text \<open>Writing and zeroing, which is writing zeros.\<close>

definition write_progress ::
  "bool \<Rightarrow> u8 list \<Rightarrow> memory_impl \<Rightarrow> nat \<Rightarrow> nat \<Rightarrow> nat \<Rightarrow> memory_impl \<times> unit \<Rightarrow> bool" where
  "write_progress unsafe buffer m0 a n k s \<longleftrightarrow> n \<le> length buffer \<and>
     (\<exists>ev. fst s = m0\<lparr>ram := write_bytes m0 a (take k buffer) (ram m0), host_events := host_events m0 @ ev\<rparr> \<and>
       announced unsafe RasterizerWrite m0 a k ev)"

lemma write_progress_table: "write_progress unsafe buffer m0 a n k s \<Longrightarrow> same_table m0 (fst s)"
  by (auto simp: write_progress_def same_table_def)

lemma write_grows:
  assumes "k + c \<le> n" "n \<le> length buffer"
  shows "write_bytes m0 a (take (k + c) buffer) f =
    write_bytes m0 (a + k) (take c (drop k buffer)) (write_bytes m0 a (take k buffer) f)"
  using assms by (simp add: take_add write_bytes_append min_absorb2)

lemma write_progress_unmapped:
  assumes "write_progress unsafe buffer m0 a n k s" "k + c \<le> n" "unmapped_run m0 (a + k) c"
  shows "write_progress unsafe buffer m0 a n (k + c) s"
proof -
  from assms(1) have "n \<le> length buffer" by (simp add: write_progress_def)
  then have "write_bytes m0 (a + k) (take c (drop k buffer)) f = f" for f
    using assms(2,3) by (intro write_bytes_unmapped) (simp add: min_absorb2)
  with assms show ?thesis
    using write_grows [OF assms(2) \<open>n \<le> length buffer\<close>, of m0 a "ram m0"] announced_quiet [of unsafe RasterizerWrite m0 a k _ c]
    by (auto simp: write_progress_def unmapped_run_def)
qed

lemma write_progress_run:
  assumes p: "write_progress unsafe buffer m0 a n k s" "k + c \<le> n" and r: "mapped_run m0 b (a + k) c h"
  shows "\<exists>m1. host_write h (take c (drop k buffer))
      (if b \<and> \<not> unsafe then event (RasterizerWrite (a + k) c) (fst s) else fst s) = Some m1 \<and>
    write_progress unsafe buffer m0 a n (k + c) (m1, u)"
proof -
  from p(1) obtain ev where n: "n \<le> length buffer" and ev: "announced unsafe RasterizerWrite m0 a k ev"
    and s: "fst s = m0\<lparr>ram := write_bytes m0 a (take k buffer) (ram m0), host_events := host_events m0 @ ev\<rparr>"
    by (auto simp: write_progress_def)
  have l: "length (take c (drop k buffer)) = c" using n p(2) by simp
  have w: "write_bytes m0 (a + k) (take c (drop k buffer)) f = store_bytes h (take c (drop k buffer)) f" for f
    by (rule write_bytes_run) (use l r in \<open>simp add: mapped_run_def\<close>)
  have v: "host_valid h (length (take c (drop k buffer))) m0" unfolding l using r by (simp add: mapped_run_def)
  let ?ev = "if b \<and> \<not> unsafe then ev @ [RasterizerWrite (a + k) c] else ev"
  have "announced unsafe RasterizerWrite m0 a (k + c) ?ev"
    using announced_event [OF ev, of c] announced_quiet [OF ev, of c] r by (cases b) (auto simp: mapped_run_def)
  then have "write_progress unsafe buffer m0 a n (k + c)
      (m0\<lparr>ram := write_bytes m0 a (take (k + c) buffer) (ram m0), host_events := host_events m0 @ ?ev\<rparr>, u)"
    unfolding write_progress_def using n by (intro conjI exI [of _ ?ev]) simp_all
  moreover have "host_write h (take c (drop k buffer))
      (if b \<and> \<not> unsafe then event (RasterizerWrite (a + k) c) (fst s) else fst s) =
    Some (m0\<lparr>ram := write_bytes m0 a (take (k + c) buffer) (ram m0), host_events := host_events m0 @ ?ev\<rparr>)"
    using v by (simp add: s host_write_def host_valid_def event_def write_grows [OF p(2) n] w)
  ultimately show ?thesis by blast
qed

interpretation writing: block_walker skip_unmapped "write_memory_page buffer" "write_cached_page unsafe buffer"
  "write_progress unsafe buffer"
proof
  fix m0 a n k s
  assume p: "write_progress unsafe buffer m0 a n k s"
  then show "same_table m0 (fst s)" by (rule write_progress_table)
  fix c
  assume c: "k + c \<le> n"
  { assume "unmapped_run m0 (a + k) c"
    with p c show "\<exists>s'. skip_unmapped k c (a + k) s = Some s' \<and> write_progress unsafe buffer m0 a n (k + c) s'"
      by (simp add: skip_unmapped_def write_progress_unmapped) }
  fix h
  have n: "n \<le> length buffer" using p by (simp add: write_progress_def)
  { assume "mapped_run m0 False (a + k) c h"
    from write_progress_run [OF p c this, of "snd s"] n c
    show "\<exists>s'. write_memory_page buffer k c h s = Some s' \<and> write_progress unsafe buffer m0 a n (k + c) s'"
      by (auto simp: write_memory_page_def buffer_load_def split_def) }
  { assume "mapped_run m0 True (a + k) c h"
    from write_progress_run [OF p c this, of "snd s"] n c
    show "\<exists>s'. write_cached_page unsafe buffer (a + k) k c h s = Some s' \<and> write_progress unsafe buffer m0 a n (k + c) s'"
      by (auto simp: write_cached_page_def write_memory_page_def buffer_load_def split_def) }
qed

interpretation zeroing: block_walker skip_unmapped zero_memory_page zero_cached_page
  "\<lambda>m0 a n. write_progress False (replicate n 0) m0 a n"
proof
  fix m0 a n k s
  assume p: "write_progress False (replicate n 0) m0 a n k s"
  then show "same_table m0 (fst s)" by (rule write_progress_table)
  fix c
  assume c: "k + c \<le> n"
  { assume "unmapped_run m0 (a + k) c"
    with p c show "\<exists>s'. skip_unmapped k c (a + k) s = Some s' \<and> write_progress False (replicate n 0) m0 a n (k + c) s'"
      by (simp add: skip_unmapped_def write_progress_unmapped) }
  fix h
  { assume "mapped_run m0 False (a + k) c h"
    from write_progress_run [OF p c this, of "snd s"] c
    show "\<exists>s'. zero_memory_page k c h s = Some s' \<and> write_progress False (replicate n 0) m0 a n (k + c) s'"
      by (auto simp: zero_memory_page_def split_def) }
  { assume "mapped_run m0 True (a + k) c h"
    from write_progress_run [OF p c this, of "snd s"] c
    show "\<exists>s'. zero_cached_page (a + k) k c h s = Some s' \<and> write_progress False (replicate n 0) m0 a n (k + c) s'"
      by (auto simp: zero_cached_page_def zero_memory_page_def split_def) }
qed

lemma WriteBlockImpl_inside:
  assumes "mem_ok m" "a + n \<le> space_top m" "n \<le> length buffer"
  shows "\<exists>ev. WriteBlockImpl a n unsafe buffer m = Some (\<forall>i<n. translate m (a + i) \<noteq> None,
      m\<lparr>ram := write_bytes m a (take n buffer) (ram m), host_events := host_events m @ ev\<rparr>) \<and>
    announced unsafe RasterizerWrite m a n ev"
proof -
  have "write_progress unsafe buffer m a n 0 (m, ())"
    using assms(3) by (auto simp: write_progress_def announced_start intro!: exI [of _ "[]"])
  from writing.walk [OF assms(1,2) this] show ?thesis by (auto simp: WriteBlockImpl_def write_progress_def)
qed

lemma ZeroBlock_inside:
  assumes "mem_ok m" "a + n \<le> space_top m"
  shows "\<exists>ev. ZeroBlock a n m = Some (\<forall>i<n. translate m (a + i) \<noteq> None,
      m\<lparr>ram := write_bytes m a (replicate n 0) (ram m), host_events := host_events m @ ev\<rparr>) \<and>
    announced False RasterizerWrite m a n ev"
proof -
  have "write_progress False (replicate n 0) m a n 0 (m, ())"
    by (auto simp: write_progress_def announced_start intro!: exI [of _ "[]"])
  from zeroing.walk [OF assms this] show ?thesis by (auto simp: ZeroBlock_def write_progress_def)
qed

text \<open>Copying, as it is written.\<close>

definition copy_progress :: "memory_impl \<Rightarrow> nat \<Rightarrow> nat \<Rightarrow> nat \<Rightarrow> memory_impl \<times> unit \<Rightarrow> bool" where
  "copy_progress m0 a n k s \<longleftrightarrow> (\<exists>ev. fst s = m0\<lparr>host_events := host_events m0 @ ev\<rparr>)"

lemma copy_step:
  assumes "mem_ok m0" "a + n \<le> space_top m0" "copy_progress m0 a n k s" "k + c \<le> n" "mapped_run m0 b (a + k) c h"
  shows "\<exists>s'. copy_memory_page a k c h s = Some s' \<and> copy_progress m0 a n (k + c) s'"
proof -
  from assms(3) obtain ev where s: "fst s = m0\<lparr>host_events := host_events m0 @ ev\<rparr>" by (auto simp: copy_progress_def)
  let ?bs = "map (ram m0) [h..<h + c]"
  have st: "same_table m0 (fst s)" using s by (simp add: same_table_def)
  have r: "host_read h c (fst s) = Some ?bs"
    using assms(5) s by (simp add: host_read_def host_valid_def mapped_run_def)
  have "mem_ok (fst s)" "a + k + c \<le> space_top (fst s)" using assms(1,2,4) same_table_eqs [OF st] by auto
  from WriteBlockImpl_inside [OF this, of ?bs False] obtain ev' res where
    w: "WriteBlockImpl (a + k) c False ?bs (fst s) = Some (res, (fst s)\<lparr>ram := write_bytes (fst s) (a + k) ?bs (ram m0),
      host_events := host_events (fst s) @ ev'\<rparr>)" using s by auto
  have "write_bytes (fst s) (a + k) ?bs (ram m0) = store_bytes h ?bs (ram m0)"
    by (rule write_bytes_run) (use assms(5) same_table_eqs [OF st] in \<open>simp add: mapped_run_def\<close>)
  moreover have "add64 a k = a + k"
    using assms(2,4) space_top_le [OF assms(1)] by (intro add64_exact) simp
  ultimately show ?thesis using r w s
    by (auto simp: copy_memory_page_def split_def copy_progress_def store_bytes_same)
qed

interpretation copying: block_walker "copy_unmapped a" "copy_memory_page a" "copy_cached_page a"
  "\<lambda>m0 a' n k s. a' = a \<and> copy_progress m0 a' n k s"
proof
  fix m0 a' n k s
  assume p: "a' = a \<and> copy_progress m0 a' n k s"
  then obtain ev where s: "fst s = m0\<lparr>host_events := host_events m0 @ ev\<rparr>" by (auto simp: copy_progress_def)
  then show st: "same_table m0 (fst s)" by (simp add: same_table_def)
  fix c
  assume ok: "mem_ok m0" "a' + n \<le> space_top m0" and c: "k + c \<le> n"
  have p': "copy_progress m0 a n k s" "a + n \<le> space_top m0" using p ok by auto
  { assume u: "unmapped_run m0 (a' + k) c"
    have "mem_ok (fst s)" "a + k + c \<le> space_top (fst s)" using ok p c same_table_eqs [OF st] by auto
    from ZeroBlock_inside [OF this] obtain ev' res where
      z: "ZeroBlock (a + k) c (fst s) = Some (res, (fst s)\<lparr>ram := write_bytes (fst s) (a + k) (replicate c 0) (ram m0),
        host_events := host_events (fst s) @ ev'\<rparr>)" using s by auto
    have "unmapped_run (fst s) (a + k) c" using u p same_table_eqs [OF st] by (simp add: unmapped_run_def)
    then have "write_bytes (fst s) (a + k) (replicate c 0) (ram m0) = ram m0"
      by (intro write_bytes_unmapped) simp
    moreover have "add64 a k = a + k" using p' c space_top_le [OF ok(1)] by (intro add64_exact) simp
    ultimately show "\<exists>s'. copy_unmapped a k c (a' + k) s = Some s' \<and> a' = a \<and> copy_progress m0 a' n (k + c) s'"
      using z s p by (auto simp: copy_unmapped_def split_def copy_progress_def) }
  fix h
  { assume "mapped_run m0 False (a' + k) c h"
    with copy_step [OF ok(1) p'(2,1) c, of False h] p
    show "\<exists>s'. copy_memory_page a k c h s = Some s' \<and> a' = a \<and> copy_progress m0 a' n (k + c) s'" by simp }
  { assume "mapped_run m0 True (a' + k) c h"
    moreover have "copy_progress m0 a n k (event (RasterizerDownload (a + k) c) (fst s), snd s)"
      using s by (auto simp: copy_progress_def event_def)
    ultimately show "\<exists>s'. copy_cached_page a (a' + k) k c h s = Some s' \<and> a' = a \<and> copy_progress m0 a' n (k + c) s'"
      using copy_step [OF ok(1) p'(2) _ c, of "(event (RasterizerDownload (a + k) c) (fst s), snd s)" True h] p
      by (simp add: copy_cached_page_def split_def) }
qed

section \<open>Changing the page table\<close>

text \<open>What an operation on the page table leaves alone.\<close>

definition only_pages :: "memory_impl \<Rightarrow> memory_impl \<Rightarrow> bool" where
  "only_pages m m' \<longleftrightarrow> (\<exists>es. length es = length (entries (current_page_table m)) \<and>
     m' = m\<lparr>current_page_table := (current_page_table m)\<lparr>entries := es\<rparr>\<rparr>)"

lemma only_pages_refl [simp]: "only_pages m m"
  by (auto simp: only_pages_def intro!: exI [of _ "entries (current_page_table m)"])

lemma only_pages_trans: "only_pages m1 m2 \<Longrightarrow> only_pages m2 m3 \<Longrightarrow> only_pages m1 m3"
  by (auto simp: only_pages_def)

lemma only_pages_eqs:
  assumes "only_pages m m'"
  shows "space_top m' = space_top m" "DeviceGetPointer p m' = DeviceGetPointer p m" "host_ok m' = host_ok m"
    "backing_base m' = backing_base m" "dram_size m' = dram_size m" "ram m' = ram m" "host_events m' = host_events m"
    "length (entries (current_page_table m')) = length (entries (current_page_table m))"
    "table_ok m' = table_ok m" "entry_ok m' = entry_ok m"
    "fastmem_arena (current_page_table m') = fastmem_arena (current_page_table m)"
  using assms by (auto simp: only_pages_def space_top_def DeviceGetPointer_def host_ok_def table_ok_def entry_ok_def
      fun_eq_iff dram_page_def page_pointer_def)

lemma mem_ok_event [simp]: "mem_ok (event e m) = mem_ok m" "translate (event e m) = translate m"
  "space_top (event e m) = space_top m" "ram (event e m) = ram m" "current_page_table (event e m) = current_page_table m"
  using same_table_eqs [of m "event e m"] by (simp_all add: same_table_def event_def space_top_def)

lemma set_entry_ok:
  assumes "mem_ok m" "i < length (entries (current_page_table m))" "entry_ok m i e"
  obtains m' where "set_entry i e m = Some m'" "mem_ok m'" "only_pages m m'"
    "\<And>v. translate m' v = (if v < space_top m \<and> v div YUZU_PAGESIZE = i
      then if addr e = 0 then None else Some (DeviceGetPointer (page_phys i e) m + v mod YUZU_PAGESIZE)
      else translate m v)"
    "entries (current_page_table m') = (entries (current_page_table m))[i := e]"
proof -
  let ?m = "m\<lparr>current_page_table := (current_page_table m)\<lparr>entries := (entries (current_page_table m))[i := e]\<rparr>\<rparr>"
  have op: "only_pages m ?m"
    unfolding only_pages_def by (intro exI [of _ "(entries (current_page_table m))[i := e]"]) simp
  have "mem_ok ?m" using assms only_pages_eqs [OF op] by (auto simp: mem_ok_def nth_list_update)
  moreover have "translate ?m v = (if v < space_top m \<and> v div YUZU_PAGESIZE = i
      then if addr e = 0 then None else Some (DeviceGetPointer (page_phys i e) m + v mod YUZU_PAGESIZE)
      else translate m v)" for v
    using assms(2) only_pages_eqs(1,2) [OF op] by (simp add: translate_def page_entry_of_def nth_list_update)
  ultimately show thesis using assms(2) op by (intro that [of ?m]) (simp_all add: set_entry_def)
qed

text \<open>One page of a mapping.\<close>

lemma mapped_entry_ok:
  assumes "host_ok m" "dram_page m target" "target \<noteq> base * YUZU_PAGESIZE"
    and "backing_base m + (target - DramBase) \<noteq> base * YUZU_PAGESIZE" "base * YUZU_PAGESIZE < 2 ^ 64"
    and "addr e = sub64 target (base * YUZU_PAGESIZE)"
    and "raw e = Store_raw (sub64 (DeviceGetPointer target m) (base * YUZU_PAGESIZE)) Memory"
  shows "entry_ok m base e" "page_phys base e = target" "addr e \<noteq> 0"
proof -
  have t: "target < 2 ^ 64" "DramBase \<le> target" "target < DramBase + dram_size m"
    using assms(1,2) by (auto simp: host_ok_def dram_page_def YUZU_PAGESIZE_def)
  then have d: "DeviceGetPointer target m = backing_base m + (target - DramBase)"
    using assms(1) by (intro DeviceGetPointer_dram)
  have dl: "DeviceGetPointer target m < 2 ^ 64" unfolding DeviceGetPointer_def by (simp only: add64_lt)
  show ph: "page_phys base e = target" using add64_sub64 [OF t(1)] assms(6) by (simp add: page_phys_def)
  have nz: "sub64 x (base * YUZU_PAGESIZE) \<noteq> 0" if "x < 2 ^ 64" "x \<noteq> base * YUZU_PAGESIZE" for x
  proof
    assume "sub64 x (base * YUZU_PAGESIZE) = 0"
    with add64_sub64 [OF that(1), of "base * YUZU_PAGESIZE"] that(2) assms(5) show False by (simp add: add64_def)
  qed
  show "addr e \<noteq> 0" using nz [OF t(1) assms(3)] assms(6) by simp
  then show "entry_ok m base e"
    using assms(2,4,6,7) ph nz [OF dl] d sub64_lt by (auto simp: entry_ok_def page_pointer_def)
qed

lemma page_range:
  "v div YUZU_PAGESIZE = i \<longleftrightarrow> i * YUZU_PAGESIZE \<le> v \<and> v < (i + 1) * YUZU_PAGESIZE"
  by (auto simp: YUZU_PAGESIZE_def)

lemma page_top: "mem_ok m \<Longrightarrow> i < length (entries (current_page_table m)) \<Longrightarrow> (i + 1) * YUZU_PAGESIZE \<le> space_top m"
  using mult_le_mono1 [of "i + 1" "length (entries (current_page_table m))" YUZU_PAGESIZE]
  by (simp add: mem_ok_def table_ok_def)

lemma MapPages_fill_maps:
  assumes "mem_ok m" "base + n \<le> length (entries (current_page_table m))" "target mod YUZU_PAGESIZE = 0"
    and "DramBase \<le> target" "target + n * YUZU_PAGESIZE \<le> DramBase + dram_size m"
    and "target \<noteq> base * YUZU_PAGESIZE" "backing_base m + (target - DramBase) \<noteq> base * YUZU_PAGESIZE"
  shows "\<exists>m'. MapPages_fill n orig_base base target Memory m = Some m' \<and> mem_ok m' \<and> only_pages m m' \<and>
    (\<forall>v. translate m' v =
      (if base * YUZU_PAGESIZE \<le> v \<and> v < (base + n) * YUZU_PAGESIZE
       then Some (backing_base m + (target - DramBase) + (v - base * YUZU_PAGESIZE)) else translate m v))"
  using assms
proof (induction n arbitrary: base target m)
  case 0
  then show ?case by auto
next
  case (Suc n)
  have b: "base < length (entries (current_page_table m))" using Suc.prems(2) by simp
  have top: "(base + 1) * YUZU_PAGESIZE \<le> space_top m" "space_top m \<le> 2 ^ 48"
    using page_top [OF Suc.prems(1) b] space_top_le [OF Suc.prems(1)] by auto
  then have small: "mul64 base YUZU_PAGESIZE = base * YUZU_PAGESIZE" "add64 base (Suc 0) = Suc base" "base * YUZU_PAGESIZE < 2 ^ 64"
    by (auto simp: mul64_exact add64_exact YUZU_PAGESIZE_def)
  have h: "host_ok m" using Suc.prems(1) by (simp add: mem_ok_def)
  have dp: "dram_page m target" using Suc.prems(3-5) by (simp add: dram_page_def)
  have t: "add64 target YUZU_PAGESIZE = target + YUZU_PAGESIZE \<or> n = 0"
    using Suc.prems(5) h by (cases n) (auto simp: add64_exact host_ok_def YUZU_PAGESIZE_def)
  have d: "DeviceGetPointer target m = backing_base m + (target - DramBase)"
    using h dp by (intro DeviceGetPointer_dram) (auto simp: dram_page_def YUZU_PAGESIZE_def)
  define e where "e = (entries (current_page_table m) ! base)\<lparr>raw := Store_raw (sub64 (DeviceGetPointer target m) (base * YUZU_PAGESIZE)) Memory,
    addr := sub64 target (base * YUZU_PAGESIZE), block := mul64 orig_base YUZU_PAGESIZE\<rparr>"
  have e: "entry_ok m base e" "page_phys base e = target" "addr e \<noteq> 0"
    by (rule mapped_entry_ok [OF h dp Suc.prems(6,7) small(3)]; simp add: e_def)+
  obtain m1 where m1: "set_entry base e m = Some m1" "mem_ok m1" "only_pages m m1"
    "\<And>v. translate m1 v = (if v < space_top m \<and> v div YUZU_PAGESIZE = base
      then Some (backing_base m + (target - DramBase) + v mod YUZU_PAGESIZE) else translate m v)"
    using e(2,3) d by (rule_tac set_entry_ok [OF Suc.prems(1) b e(1)]) simp_all
  have step: "MapPages_fill (Suc n) orig_base base target Memory m =
      MapPages_fill n orig_base (base + 1) (add64 target YUZU_PAGESIZE) Memory m1"
    using m1(1) b small by (simp add: entry_at_def e_def)
  have pg: "v < space_top m \<and> v div YUZU_PAGESIZE = base \<longleftrightarrow> base * YUZU_PAGESIZE \<le> v \<and> v < (base + 1) * YUZU_PAGESIZE"
    "base * YUZU_PAGESIZE \<le> v \<Longrightarrow> v < (base + 1) * YUZU_PAGESIZE \<Longrightarrow> v mod YUZU_PAGESIZE = v - base * YUZU_PAGESIZE" for v
    using top(1) page_range [of v base] by (auto simp: minus_div_mult_eq_mod [symmetric])
  show ?case
  proof (cases "n = 0")
    case True
    then show ?thesis unfolding step using m1(2,3) by (intro exI [of _ m1]) (auto simp: m1(4) pg)
  next
    case False
    then have t': "add64 target YUZU_PAGESIZE = target + YUZU_PAGESIZE" using t by simp
    have "\<exists>m'. MapPages_fill n orig_base (base + 1) (target + YUZU_PAGESIZE) Memory m1 = Some m' \<and> mem_ok m' \<and> only_pages m1 m' \<and>
      (\<forall>v. translate m' v = (if (base + 1) * YUZU_PAGESIZE \<le> v \<and> v < (base + 1 + n) * YUZU_PAGESIZE
       then Some (backing_base m1 + (target + YUZU_PAGESIZE - DramBase) + (v - (base + 1) * YUZU_PAGESIZE)) else translate m1 v))"
      using m1(2,3) Suc.prems only_pages_eqs [OF m1(3)] by (intro Suc.IH) (auto simp: YUZU_PAGESIZE_def)
    then obtain m' where m': "MapPages_fill n orig_base (base + 1) (target + YUZU_PAGESIZE) Memory m1 = Some m'" "mem_ok m'"
      "only_pages m1 m'" "\<And>v. translate m' v = (if (base + 1) * YUZU_PAGESIZE \<le> v \<and> v < (base + 1 + n) * YUZU_PAGESIZE
       then Some (backing_base m + (target + YUZU_PAGESIZE - DramBase) + (v - (base + 1) * YUZU_PAGESIZE)) else translate m1 v)"
      using only_pages_eqs [OF m1(3)] by auto
    have "translate m' v = (if base * YUZU_PAGESIZE \<le> v \<and> v < (base + Suc n) * YUZU_PAGESIZE
        then Some (backing_base m + (target - DramBase) + (v - base * YUZU_PAGESIZE)) else translate m v)" for v
      using Suc.prems(4) pg [of v] by (auto simp: m'(4) m1(4) YUZU_PAGESIZE_def)
    with m' only_pages_trans [OF m1(3) m'(3)] show ?thesis unfolding step t' by auto
  qed
qed

lemma MapPages_clear_unmaps:
  assumes "mem_ok m" "base + n \<le> length (entries (current_page_table m))"
  shows "\<exists>m'. MapPages_clear n base Unmapped m = Some m' \<and> mem_ok m' \<and> only_pages m m' \<and>
    (\<forall>v. translate m' v =
      (if base * YUZU_PAGESIZE \<le> v \<and> v < (base + n) * YUZU_PAGESIZE then None else translate m v))"
  using assms
proof (induction n arbitrary: base m)
  case 0
  then show ?case by auto
next
  case (Suc n)
  have b: "base < length (entries (current_page_table m))" using Suc.prems(2) by simp
  have top: "(base + 1) * YUZU_PAGESIZE \<le> space_top m" "space_top m \<le> 2 ^ 48"
    using page_top [OF Suc.prems(1) b] space_top_le [OF Suc.prems(1)] by auto
  then have small: "add64 base (Suc 0) = Suc base" by (auto simp: add64_exact YUZU_PAGESIZE_def)
  define e where "e = (entries (current_page_table m) ! base)\<lparr>raw := Store_raw 0 Unmapped, addr := 0, block := 0\<rparr>"
  have e: "entry_ok m base e" "addr e = 0" by (simp_all add: entry_ok_def e_def Store_raw_def)
  obtain m1 where m1: "set_entry base e m = Some m1" "mem_ok m1" "only_pages m m1"
    "\<And>v. translate m1 v = (if v < space_top m \<and> v div YUZU_PAGESIZE = base then None else translate m v)"
    using e(2) by (rule_tac set_entry_ok [OF Suc.prems(1) b e(1)]) simp_all
  have "base + 1 + n \<le> length (entries (current_page_table m1))"
    using Suc.prems(2) only_pages_eqs [OF m1(3)] by simp
  from Suc.IH [OF m1(2) this] obtain m' where m': "MapPages_clear n (base + 1) Unmapped m1 = Some m'" "mem_ok m'"
    "only_pages m1 m'" "\<And>v. translate m' v =
      (if (base + 1) * YUZU_PAGESIZE \<le> v \<and> v < (base + 1 + n) * YUZU_PAGESIZE then None else translate m1 v)" by auto
  have "translate m' v =
      (if base * YUZU_PAGESIZE \<le> v \<and> v < (base + Suc n) * YUZU_PAGESIZE then None else translate m v)" for v
    using page_range [of v base] top(1) by (auto simp: m'(4) m1(4) YUZU_PAGESIZE_def)
  with m' only_pages_trans [OF m1(3) m'(3)] m1(1) b small show ?case by (simp add: entry_at_def e_def)
qed

subsection \<open>Marking pages\<close>

text \<open>The contract of a function that changes the type of one page, and of the loop over pages.\<close>

definition retyped :: "memory_impl \<Rightarrow> memory_impl \<Rightarrow> bool" where
  "retyped m m' \<longleftrightarrow> mem_ok m' \<and> translate m' = translate m \<and> only_pages m m'"

lemma retyped_refl: "mem_ok m \<Longrightarrow> retyped m m"
  by (simp add: retyped_def)

lemma retyped_trans: "retyped m1 m2 \<Longrightarrow> retyped m2 m3 \<Longrightarrow> retyped m1 m3"
  by (auto simp: retyped_def intro: only_pages_trans)

locale page_marker =
  fixes mark :: "nat \<Rightarrow> memory_impl \<Rightarrow> memory_impl option"
  assumes mark_retypes: "\<lbrakk>mem_ok m; v < space_top m\<rbrakk> \<Longrightarrow> \<exists>m'. mark v m = Some m' \<and> retyped m m'"
begin

lemma mark_pages_retypes:
  assumes "mem_ok m" "n = 0 \<or> v div YUZU_PAGESIZE + n \<le> length (entries (current_page_table m))"
  shows "\<exists>m'. mark_pages mark n v m = Some m' \<and> retyped m m'"
  using assms
proof (induction n arbitrary: v m)
  case 0
  then show ?case by (simp add: retyped_refl)
next
  case (Suc n)
  then have "v div YUZU_PAGESIZE < length (entries (current_page_table m))" by simp
  then have v: "v < space_top m" using page_in_table [OF Suc.prems(1)] by simp
  from mark_retypes [OF Suc.prems(1) v] obtain m1 where m1: "mark v m = Some m1" "retyped m m1" by blast
  have "v + YUZU_PAGESIZE < 2 ^ 64" using v space_top_le [OF Suc.prems(1)] by (simp add: YUZU_PAGESIZE_def)
  then have a: "add64 v YUZU_PAGESIZE = v + YUZU_PAGESIZE" "(v + YUZU_PAGESIZE) div YUZU_PAGESIZE = v div YUZU_PAGESIZE + 1"
    by (simp_all add: add64_exact YUZU_PAGESIZE_def)
  have "mem_ok m1" "length (entries (current_page_table m1)) = length (entries (current_page_table m))"
    using m1(2) only_pages_eqs(8) [of m m1] by (auto simp: retyped_def)
  with Suc.IH [of m1 "v + YUZU_PAGESIZE"] Suc.prems(2) a obtain m2 where
    "mark_pages mark n (v + YUZU_PAGESIZE) m1 = Some m2" "retyped m1 m2" by auto
  with m1 retyped_trans show ?case unfolding mark_pages.simps a(1) by auto
qed

lemma region_retypes:
  assumes "mem_ok m" "AddressSpaceContains (current_page_table m) v n" "v \<noteq> 0" "v < 2 ^ 64" "n < 2 ^ 64"
  shows "\<exists>m'. mark_pages mark (num_pages v n) v m = Some m' \<and> retyped m m'"
proof -
  have top: "space_top m \<le> 2 ^ 48" "add64 v n = v + n" "v + n \<le> space_top m"
  proof -
    show "space_top m \<le> 2 ^ 48" using assms(1) by (rule space_top_le)
    have "v + n < 2 ^ 64"
    proof (rule ccontr)
      assume "\<not> v + n < 2 ^ 64"
      moreover from this have "add64 v n = v + n - 2 ^ 64" using assms(4,5) by (simp add: add64_def mod_if)
      ultimately have "add64 v n < v" using assms(4,5) by linarith
      with assms(2) show False by (simp add: AddressSpaceContains_def)
    qed
    then show "add64 v n = v + n" by (rule add64_exact)
    with assms(2) show "v + n \<le> space_top m" by (simp add: AddressSpaceContains_def space_top_def)
  qed
  have "sub64 (v + n) 1 = v + n - 1" using top assms(3) by (intro sub64_exact) simp_all
  then have np: "num_pages v n = add64 (sub64 ((v + n - 1) div YUZU_PAGESIZE) (v div YUZU_PAGESIZE)) 1"
    by (simp add: num_pages_def top(2))
  have "num_pages v n = 0 \<or> v div YUZU_PAGESIZE + num_pages v n \<le> length (entries (current_page_table m))"
  proof (cases "v div YUZU_PAGESIZE \<le> (v + n - 1) div YUZU_PAGESIZE")
    case True
    have "v + n - 1 < space_top m" using top(3) assms(3) by simp
    then have "(v + n - 1) div YUZU_PAGESIZE < length (entries (current_page_table m))"
      using page_in_table [OF assms(1)] by simp
    moreover have "(v + n - 1) div YUZU_PAGESIZE < 2 ^ 48" using top by (simp add: YUZU_PAGESIZE_def)
    ultimately show ?thesis using True unfolding np by (simp add: sub64_exact add64_exact)
  next
    case False
    then have "n = 0" "(v - 1) div YUZU_PAGESIZE + 1 = v div YUZU_PAGESIZE" using assms(3)
      by (auto simp: YUZU_PAGESIZE_def)
    moreover have "sub64 k (k + 1) = 2 ^ 64 - 1" for k by (simp add: sub64_def)
    ultimately show ?thesis unfolding np by (simp add: add64_def flip: \<open>(v - 1) div YUZU_PAGESIZE + 1 = v div YUZU_PAGESIZE\<close>)
  qed
  from mark_pages_retypes [OF assms(1) this] show ?thesis .
qed

end

text \<open>Changing the type of a mapped page keeps its address.\<close>

lemma set_type_retypes:
  assumes "mem_ok m" "v < space_top m" "e' = (page_entry_of m v)\<lparr>raw := r\<rparr>"
    and "entry_ok m (v div YUZU_PAGESIZE) e'"
  shows "\<exists>m'. set_entry (v div YUZU_PAGESIZE) e' m = Some m' \<and> retyped m m'"
proof -
  have i: "v div YUZU_PAGESIZE < length (entries (current_page_table m))" using page_in_table assms by simp
  have same: "addr e' = addr (page_entry_of m v)" "page_phys i e' = page_phys i (page_entry_of m v)" for i
    by (simp_all add: assms(3) page_phys_def)
  obtain m' where m': "set_entry (v div YUZU_PAGESIZE) e' m = Some m'" "mem_ok m'" "only_pages m m'"
    "\<And>w. translate m' w = (if w < space_top m \<and> w div YUZU_PAGESIZE = v div YUZU_PAGESIZE
      then if addr e' = 0 then None else Some (DeviceGetPointer (page_phys (v div YUZU_PAGESIZE) e') m + w mod YUZU_PAGESIZE)
      else translate m w)"
    using set_entry_ok [OF assms(1) i assms(4)] by metis
  have "translate m' w = translate m w" for w
  proof (cases "w div YUZU_PAGESIZE = v div YUZU_PAGESIZE")
    case True
    then have "page_entry_of m w = page_entry_of m v" by (simp add: page_entry_of_def)
    then show ?thesis using True unfolding m'(4) by (simp add: translate_def same)
  qed (simp add: m'(4))
  with m' show ?thesis by (auto simp: retyped_def)
qed

text \<open>A mapped page can have any of the three types.\<close>

lemma page_types_ok:
  assumes "mem_ok m" "v < space_top m" "translate m v \<noteq> None"
  shows "entry_ok m (v div YUZU_PAGESIZE) ((page_entry_of m v)\<lparr>raw := Store_raw 0 DebugMemory\<rparr>)"
    "entry_ok m (v div YUZU_PAGESIZE) ((page_entry_of m v)\<lparr>raw := Store_raw 0 RasterizerCachedMemory\<rparr>)"
    "entry_ok m (v div YUZU_PAGESIZE)
       ((page_entry_of m v)\<lparr>raw := Store_raw (page_pointer m (v div YUZU_PAGESIZE) (page_entry_of m v)) Memory\<rparr>)"
  using page_entry_ok [OF assms(1,2)] assms(2,3)
  by (auto simp: entry_ok_def translate_def page_phys_def page_pointer_def split: if_splits)

text \<open>The pointer that unmarking stores.\<close>

lemma unmark_pointer:
  assumes "mem_ok m" "v < space_top m" "translate m v \<noteq> None"
  shows "GetPointerFromDebugMemory (AlignDown v YUZU_PAGESIZE) m =
      Some (DeviceGetPointer (page_phys (v div YUZU_PAGESIZE) (page_entry_of m v)) m)"
    "GetPointerFromRasterizerCachedMemory (AlignDown v YUZU_PAGESIZE) m =
      Some (DeviceGetPointer (page_phys (v div YUZU_PAGESIZE) (page_entry_of m v)) m)"
    "DeviceGetPointer (page_phys (v div YUZU_PAGESIZE) (page_entry_of m v)) m \<noteq> 0"
    "AlignDown v YUZU_PAGESIZE = v div YUZU_PAGESIZE * YUZU_PAGESIZE"
proof -
  show al: "AlignDown v YUZU_PAGESIZE = v div YUZU_PAGESIZE * YUZU_PAGESIZE"
    by (simp add: AlignDown_def minus_mod_eq_div_mult)
  have d: "AlignDown v YUZU_PAGESIZE div YUZU_PAGESIZE = v div YUZU_PAGESIZE" unfolding al by (simp add: YUZU_PAGESIZE_def)
  have a: "addr (page_entry_of m v) \<noteq> 0" using assms(3) by (auto simp: translate_def split: if_splits)
  then have "dram_page m (page_phys (v div YUZU_PAGESIZE) (page_entry_of m v))" "host_ok m"
    using page_entry_ok [OF assms(1,2)] assms(1) by (auto simp: entry_ok_def mem_ok_def)
  then show "DeviceGetPointer (page_phys (v div YUZU_PAGESIZE) (page_entry_of m v)) m \<noteq> 0"
    by (subst DeviceGetPointer_dram) (auto simp: dram_page_def YUZU_PAGESIZE_def host_ok_def)
  show "GetPointerFromDebugMemory (AlignDown v YUZU_PAGESIZE) m =
      Some (DeviceGetPointer (page_phys (v div YUZU_PAGESIZE) (page_entry_of m v)) m)"
    "GetPointerFromRasterizerCachedMemory (AlignDown v YUZU_PAGESIZE) m =
      Some (DeviceGetPointer (page_phys (v div YUZU_PAGESIZE) (page_entry_of m v)) m)"
    using a entry_at_ok [OF assms(1,2)]
    by (simp_all add: GetPointerFromDebugMemory_def GetPointerFromRasterizerCachedMemory_def d)
      (simp_all add: al page_phys_def)
qed

lemma mark_page_retypes:
  assumes "mem_ok m" "v < space_top m"
  shows "\<exists>m'. mark_debug b v m = Some m' \<and> retyped m m'" "\<exists>m'. mark_cached b v m = Some m' \<and> retyped m m'"
proof -
  let ?e = "page_entry_of m v" and ?i = "v div YUZU_PAGESIZE"
  have same: "retyped m m" using assms(1) by (rule retyped_refl)
  have to: "\<exists>m'. set_entry ?i (?e\<lparr>raw := r\<rparr>) m = Some m' \<and> retyped m m'"
    if "entry_ok m ?i (?e\<lparr>raw := r\<rparr>)" for r
    using set_type_retypes [OF assms refl that] .
  have un: "sub64 (DeviceGetPointer (page_phys ?i ?e) m) (AlignDown v YUZU_PAGESIZE) = page_pointer m ?i ?e"
    by (simp add: page_pointer_def AlignDown_def minus_mod_eq_div_mult)
  from assms show "\<exists>m'. mark_debug b v m = Some m' \<and> retyped m m'"
  proof (cases rule: page_cases)
    case (memory h)
    then show ?thesis using same to [OF page_types_ok(1) [OF assms]] assms by (simp add: mark_debug_def)
  next
    case (debug h)
    then show ?thesis using same to [OF page_types_ok(3) [OF assms]] assms unmark_pointer [OF assms] un
      by (simp add: mark_debug_def)
  qed (use same assms in \<open>simp_all add: mark_debug_def\<close>)
  from assms show "\<exists>m'. mark_cached b v m = Some m' \<and> retyped m m'"
  proof (cases rule: page_cases)
    case (memory h)
    then show ?thesis using same to [OF page_types_ok(2) [OF assms]] assms by (simp add: mark_cached_def)
  next
    case (debug h)
    then show ?thesis using same to [OF page_types_ok(2) [OF assms]] assms by (simp add: mark_cached_def)
  next
    case (raster h)
    then show ?thesis using same to [OF page_types_ok(3) [OF assms]] assms unmark_pointer [OF assms] un
      by (simp add: mark_cached_def)
  qed (use same assms in \<open>simp_all add: mark_cached_def\<close>)
qed

interpretation debug_marker: page_marker "mark_debug b"
  by unfold_locales (rule mark_page_retypes(1))

interpretation cached_marker: page_marker "mark_cached b"
  by unfold_locales (rule mark_page_retypes(2))

section \<open>Properties\<close>

text \<open>Two small memories: eight pages of which none, or three of different types, are mapped.\<close>

definition memory_with :: "page_entry list \<Rightarrow> memory_impl" where
  "memory_with es = \<lparr>current_page_table = \<lparr>entries = es, current_address_space_width_in_bits = 15, page_size = 4096,
     fastmem_arena = False\<rparr>, ram = (\<lambda>a. of_nat a), backing_base = 0x10000000, dram_size = 0x8000,
     use_reactive_flushing = False, host_events = []\<rparr>"

definition no_page :: page_entry where
  "no_page = \<lparr>raw = 0, block = 0, addr = 0\<rparr>"

definition fresh_memory :: memory_impl where
  "fresh_memory = memory_with (replicate 8 no_page)"

definition some_page :: "nat \<Rightarrow> page_type \<Rightarrow> page_entry" where
  "some_page pointer t = \<lparr>raw = Store_raw pointer t, block = 0x1000, addr = 0x80000000\<rparr>"

definition mapped_memory :: memory_impl where
  "mapped_memory = memory_with [no_page, some_page 0x10000000 Memory, some_page 0 RasterizerCachedMemory,
     some_page 0 DebugMemory, no_page, no_page, no_page, no_page]"

lemma memory_with_top [simp]: "space_top (memory_with es) = 0x8000"
  by (simp add: space_top_def memory_with_def)

lemma memory_with_ok:
  assumes "length es = 8" "\<forall>i<8. entry_ok (memory_with es) i (es ! i)"
  shows "mem_ok (memory_with es)"
  using assms by (simp add: mem_ok_def host_ok_def table_ok_def space_top_def memory_with_def YUZU_PAGESIZE_def DramBase_def)

lemma fresh_ok: "mem_ok fresh_memory" "space_top fresh_memory = 0x8000"
  unfolding fresh_memory_def using memory_with_ok [of "replicate 8 no_page"] by (simp_all add: entry_ok_def no_page_def)

lemma some_page_ok:
  assumes "1 \<le> i" "i \<le> 3" "pointer = (if t = Memory then 0x10000000 else 0)" "t \<noteq> Unmapped"
  shows "entry_ok (memory_with es) i (some_page pointer t)"
proof -
  let ?m = "memory_with es" and ?e = "some_page pointer t"
  have p: "page_phys i ?e = 0x80000000 + i * 4096"
    using assms(1,2) by (simp add: page_phys_def YUZU_PAGESIZE_def add64_exact some_page_def)
  have "DeviceGetPointer (page_phys i ?e) ?m = 0x10000000 + i * 4096"
    unfolding p using assms(1,2)
    by (subst DeviceGetPointer_dram) (auto simp: host_ok_def memory_with_def YUZU_PAGESIZE_def DramBase_def)
  then have "page_pointer ?m i ?e = 0x10000000"
    using assms(1,2) by (simp add: page_pointer_def YUZU_PAGESIZE_def sub64_exact)
  moreover have "dram_page ?m (page_phys i ?e)"
    unfolding p using assms(1,2) by (auto simp: dram_page_def memory_with_def YUZU_PAGESIZE_def DramBase_def)
  ultimately show ?thesis using assms(3,4) by (cases t) (simp_all add: entry_ok_def some_page_def)
qed

lemma all_less_8: "(\<forall>i<8. P i) \<longleftrightarrow> P 0 \<and> P 1 \<and> P 2 \<and> P 3 \<and> P 4 \<and> P 5 \<and> P 6 \<and> P 7" for P :: "nat \<Rightarrow> bool"
proof -
  have "(\<forall>i<8. P i) \<longleftrightarrow> (\<forall>i\<in>set [0..<8]. P i)" by auto
  also have "[0..<8] = [0, 1, 2, 3, 4, 5, 6, 7::nat]" by (simp add: upt_rec)
  finally show ?thesis by simp
qed

lemma mapped_ok: "mem_ok mapped_memory" "space_top mapped_memory = 0x8000"
proof -
  have "entry_ok m i no_page" for m i by (simp add: entry_ok_def no_page_def)
  then show "mem_ok mapped_memory" "space_top mapped_memory = 0x8000"
    unfolding mapped_memory_def by (intro memory_with_ok) (simp_all add: all_less_8 some_page_ok)
qed

lemma translate_mapped:
  assumes "0x1000 \<le> v" "v < 0x4000"
  shows "translate mapped_memory v = Some (0x10000000 + v)"
proof -
  let ?i = "v div YUZU_PAGESIZE"
  have i: "1 \<le> ?i" "?i \<le> 3" using assms by (simp_all add: YUZU_PAGESIZE_def)
  then have "?i = 1 \<or> ?i = 2 \<or> ?i = 3" by linarith
  then have "\<exists>p t. page_entry_of mapped_memory v = some_page p t"
    by (elim disjE) (auto simp: page_entry_of_def mapped_memory_def memory_with_def)
  then obtain p t where e: "page_entry_of mapped_memory v = some_page p t" by blast
  have ph: "page_phys ?i (some_page p t) = 0x80000000 + ?i * 4096"
    using i by (simp add: page_phys_def YUZU_PAGESIZE_def add64_exact some_page_def)
  have "DeviceGetPointer (0x80000000 + ?i * 4096) mapped_memory = 0x10000000 + ?i * 4096"
    using i by (subst DeviceGetPointer_dram)
      (auto simp: host_ok_def mapped_memory_def memory_with_def YUZU_PAGESIZE_def DramBase_def)
  moreover have "addr (some_page p t) \<noteq> 0" by (simp add: some_page_def)
  ultimately have "translate mapped_memory v = Some (0x10000000 + ?i * 4096 + v mod YUZU_PAGESIZE)"
    using assms mapped_ok(2) by (simp add: translate_def e ph)
  then show ?thesis by (simp add: YUZU_PAGESIZE_def)
qed

text \<open>
  C14.  \<open>MapMemoryRegion\<close> makes exactly the addresses of the region translate to consecutive
  bytes of the device memory, \<open>UnmapRegion\<close> takes exactly these translations away again, and
  both stay in the table and leave every byte of memory alone.  The two inequations exclude that the
  offset kept for a page is zero, which the code takes for a page that is not mapped.
\<close>

theorem MapMemoryRegion_maps:
  assumes "mem_ok m" "base mod YUZU_PAGESIZE = 0" "n mod YUZU_PAGESIZE = 0" "base + n \<le> space_top m"
    and "target mod YUZU_PAGESIZE = 0" "DramBase \<le> target" "target + n \<le> DramBase + dram_size m"
    and "target \<noteq> base" "backing_base m + (target - DramBase) \<noteq> base"
  shows "\<exists>m' m''. MapMemoryRegion base n target perms separate_heap m = Some m' \<and> mem_ok m' \<and> ram m' = ram m \<and>
    (\<forall>v. translate m' v =
      (if base \<le> v \<and> v < base + n then Some (backing_base m + (target - DramBase) + (v - base)) else translate m v)) \<and>
    UnmapRegion base n separate_heap m' = Some m'' \<and> mem_ok m'' \<and> ram m'' = ram m \<and>
    (\<forall>v. translate m'' v = (if base \<le> v \<and> v < base + n then None else translate m v))"
proof -
  let ?b = "base div YUZU_PAGESIZE" and ?n = "n div YUZU_PAGESIZE"
  have bn: "?b * YUZU_PAGESIZE = base" "?n * YUZU_PAGESIZE = n" "(?b + ?n) * YUZU_PAGESIZE = base + n"
    using assms(2,3) page_split [of base] page_split [of n] by (auto simp: add_mult_distrib)
  have len: "?b + ?n \<le> length (entries (current_page_table m))"
  proof -
    have "(?b + ?n) * YUZU_PAGESIZE \<le> length (entries (current_page_table m)) * YUZU_PAGESIZE"
      using assms(1,4) bn(3) by (simp add: mem_ok_def table_ok_def)
    then show ?thesis by (simp add: YUZU_PAGESIZE_def)
  qed
  have t0: "target \<noteq> 0" using assms(6) by (simp add: DramBase_def)
  from MapPages_fill_maps [OF assms(1) len assms(5,6), of ?b] assms(7-9) bn obtain m1 where m1:
    "MapPages ?b ?n target Memory m = Some m1" "mem_ok m1" "only_pages m m1"
    "\<And>v. translate m1 v = (if base \<le> v \<and> v < base + n then Some (backing_base m + (target - DramBase) + (v - base))
      else translate m v)"
    using t0 by (auto simp: MapPages_def)
  let ?m1 = "if fastmem_arena (current_page_table m1)
    then event (HostMap base (sub64 target DramBase) n perms separate_heap) m1 else m1"
  have "?b + ?n \<le> length (entries (current_page_table ?m1))"
    using len only_pages_eqs(8) [OF m1(3)] by (simp add: event_def)
  moreover have "mem_ok ?m1" using m1(2) by simp
  ultimately obtain m2 where m2: "MapPages ?b ?n 0 Unmapped ?m1 = Some m2" "mem_ok m2" "only_pages ?m1 m2"
    "\<And>v. translate m2 v = (if base \<le> v \<and> v < base + n then None else translate ?m1 v)"
    using MapPages_clear_unmaps [of ?m1 ?b ?n] bn by (auto simp: MapPages_def)
  let ?m2 = "if fastmem_arena (current_page_table m2) then event (HostUnmap base n separate_heap) m2 else m2"
  have "MapMemoryRegion base n target perms separate_heap m = Some ?m1" "UnmapRegion base n separate_heap ?m1 = Some ?m2"
    using m1(1) m2(1) by (simp_all add: MapMemoryRegion_def UnmapRegion_def)
  moreover have "ram ?m1 = ram m" "ram ?m2 = ram m" using only_pages_eqs(6) [OF m1(3)] only_pages_eqs(6) [OF m2(3)] by auto
  moreover have "translate ?m1 = translate m1" "translate ?m2 = translate m2" "mem_ok ?m1" "mem_ok ?m2"
    using m1(2) m2(2) by simp_all
  ultimately show ?thesis using m1(4) m2(4) by (intro exI [of _ ?m1] exI [of _ ?m2]) simp
qed

theorem MapMemoryRegion_maps_witness:
  "\<exists>m' m''. MapMemoryRegion 0x1000 0x2000 0x80002000 3 False fresh_memory = Some m' \<and>
     translate m' 0x1004 = Some 0x10002004 \<and> UnmapRegion 0x1000 0x2000 False m' = Some m'' \<and> translate m'' 0x1004 = None"
proof -
  have e: "backing_base fresh_memory = 0x10000000" "dram_size fresh_memory = 0x8000"
    by (simp_all add: fresh_memory_def memory_with_def)
  from MapMemoryRegion_maps [OF fresh_ok(1), of "0x1000" "0x2000" "0x80002000" 3 False]
  show ?thesis by (force simp: fresh_ok(2) e YUZU_PAGESIZE_def DramBase_def)
qed

text \<open>
  C15.  Reading a block, which goes page by page through the four page types, gives exactly the bytes
  that a byte-wise translation of the addresses gives, zero where a page is not mapped, and returns
  whether all of them are mapped.  Only the buffer and the requests to the GPU change; unless the read
  is unsafe these ask for exactly the bytes in cached pages.
\<close>

theorem ReadBlock_reads_bytes:
  assumes "mem_ok m" "a + n \<le> space_top m" "n \<le> length buf"
  shows "\<exists>ev. ReadBlockImpl a n unsafe buf m =
      Some (\<forall>i<n. translate m (a + i) \<noteq> None, m\<lparr>host_events := host_events m @ ev\<rparr>,
        map (guest_byte m) [a..<a + n] @ drop n buf) \<and>
    announced unsafe RasterizerDownload m a n ev"
  using ReadBlockImpl_inside [OF assms] .

theorem ReadBlock_reads_bytes_witness:
  "\<exists>m'. ReadBlockImpl 0x1FFE 4 False [0, 0, 0, 0] mapped_memory = Some (True, m', [0xFE, 0xFF, 0, 1])"
proof -
  have "guest_byte mapped_memory v = of_nat (0x10000000 + v)" if "0x1000 \<le> v" "v < 0x4000" for v
    using translate_mapped [OF that] by (simp add: guest_byte_def mapped_memory_def memory_with_def)
  moreover have "[0x1FFE..<0x2002] = [0x1FFE, 0x1FFF, 0x2000, 0x2001::nat]" by (simp add: upt_rec)
  moreover have "\<forall>i<4. translate mapped_memory (0x1FFE + i) \<noteq> None" using translate_mapped by auto
  ultimately show ?thesis
    using ReadBlock_reads_bytes [OF mapped_ok(1), of "0x1FFE" 4 "[0, 0, 0, 0]" False] by (auto simp: mapped_ok(2))
qed

text \<open>Reading back what was written.\<close>

lemma write_bytes_get:
  assumes "inj_on (\<lambda>i. translate m (a + i)) {..<length bs}" "\<forall>i<length bs. translate m (a + i) \<noteq> None" "i < length bs"
  shows "write_bytes m a bs f (the (translate m (a + i))) = bs ! i"
  using assms
proof (induction bs arbitrary: i rule: rev_induct)
  case (snoc b bs)
  let ?h = "the (translate m (a + length bs))"
  have l: "write_bytes m a (bs @ [b]) f = (write_bytes m a bs f)(?h := b)"
    using snoc.prems(2) by (auto simp: write_bytes_append)
  show ?case
  proof (cases "i = length bs")
    case True
    then show ?thesis by (simp add: l)
  next
    case False
    then have i: "i < length bs" using snoc.prems(3) by simp
    then have "translate m (a + i) \<noteq> translate m (a + length bs)"
      using snoc.prems(1) by (auto simp: inj_on_def)
    moreover have "translate m (a + i) \<noteq> None" "translate m (a + length bs) \<noteq> None" using snoc.prems(2) i by auto
    ultimately have "the (translate m (a + i)) \<noteq> ?h" by auto
    moreover have "inj_on (\<lambda>i. translate m (a + i)) {..<length bs}"
      using snoc.prems(1) by (rule inj_on_subset) auto
    ultimately show ?thesis using snoc.IH [of i] snoc.prems(2) i by (simp add: l nth_append)
  qed
qed simp

lemma guest_bytes_written:
  assumes "inj_on (\<lambda>i. translate m (a + i)) {..<length bs}" "\<forall>i<length bs. translate m (a + i) \<noteq> None"
    and "same_table m m'" "ram m' = write_bytes m a bs (ram m)"
  shows "map (guest_byte m') [a..<a + length bs] = bs"
proof (rule nth_equalityI)
  fix i assume "i < length (map (guest_byte m') [a..<a + length bs])"
  then have i: "i < length bs" by simp
  with write_bytes_get [OF assms(1,2) i, of "ram m"] assms(2)
  show "map (guest_byte m') [a..<a + length bs] ! i = bs ! i"
    by (auto simp: guest_byte_def same_table_eqs(1) [OF assms(3)] assms(4))
qed simp

text \<open>
  C16.  Writing a block has exactly the effect of writing its bytes one after the other through the
  translation, zeroing a block is writing zeros, and both return whether every byte is mapped.  When
  every byte is mapped and no two addresses of the block share a byte of the host, the guest then reads
  the bytes that were written.
\<close>

theorem WriteBlock_writes_bytes:
  assumes "mem_ok m" "a + n \<le> space_top m" "length bs = n"
  shows "(\<exists>ev. WriteBlockImpl a n unsafe bs m = Some (\<forall>i<n. translate m (a + i) \<noteq> None,
        m\<lparr>ram := write_bytes m a bs (ram m), host_events := host_events m @ ev\<rparr>) \<and>
      announced unsafe RasterizerWrite m a n ev) \<and>
    (\<exists>ev. ZeroBlock a n m = Some (\<forall>i<n. translate m (a + i) \<noteq> None,
        m\<lparr>ram := write_bytes m a (replicate n 0) (ram m), host_events := host_events m @ ev\<rparr>) \<and>
      announced False RasterizerWrite m a n ev) \<and>
    (inj_on (\<lambda>i. translate m (a + i)) {..<n} \<longrightarrow> (\<forall>i<n. translate m (a + i) \<noteq> None) \<longrightarrow>
      map (guest_byte (m\<lparr>ram := write_bytes m a bs (ram m)\<rparr>)) [a..<a + n] = bs)"
proof (intro conjI impI)
  show "\<exists>ev. WriteBlockImpl a n unsafe bs m = Some (\<forall>i<n. translate m (a + i) \<noteq> None,
        m\<lparr>ram := write_bytes m a bs (ram m), host_events := host_events m @ ev\<rparr>) \<and> announced unsafe RasterizerWrite m a n ev"
    using WriteBlockImpl_inside [OF assms(1,2), of bs unsafe] assms(3) by simp
  show "\<exists>ev. ZeroBlock a n m = Some (\<forall>i<n. translate m (a + i) \<noteq> None,
        m\<lparr>ram := write_bytes m a (replicate n 0) (ram m), host_events := host_events m @ ev\<rparr>) \<and> announced False RasterizerWrite m a n ev"
    using ZeroBlock_inside [OF assms(1,2)] .
  assume "inj_on (\<lambda>i. translate m (a + i)) {..<n}" "\<forall>i<n. translate m (a + i) \<noteq> None"
  then show "map (guest_byte (m\<lparr>ram := write_bytes m a bs (ram m)\<rparr>)) [a..<a + n] = bs"
    using guest_bytes_written [of m a bs] assms(3) by (simp add: same_table_def)
qed

theorem WriteBlock_writes_bytes_witness:
  "\<exists>m'. WriteBlockImpl 0x2FFF 2 False [7, 9] mapped_memory = Some (True, m') \<and> ram m' 0x10002FFF = 7 \<and> ram m' 0x10003000 = 9"
proof -
  have "\<forall>i<2. translate mapped_memory (0x2FFF + i) \<noteq> None" using translate_mapped by auto
  moreover have "translate mapped_memory 0x2FFF = Some 0x10002FFF" "translate mapped_memory 0x3000 = Some 0x10003000"
    using translate_mapped by simp_all
  ultimately show ?thesis
    using WriteBlock_writes_bytes [OF mapped_ok(1), of "0x2FFF" 2 "[7, 9]" False] by (auto simp: mapped_ok(2))
qed

text \<open>
  C17.  \<open>CopyBlock\<close> copies nothing.  It walks over the destination and writes every piece back to
  where it was found, so that whatever the source address is, no byte of memory changes; the result
  says whether the destination is mapped.
\<close>

theorem CopyBlock_copies_nothing:
  assumes "mem_ok m" "dest_addr + n \<le> space_top m"
  shows "\<exists>ev. CopyBlock dest_addr src_addr n m =
    Some (\<forall>i<n. translate m (dest_addr + i) \<noteq> None, m\<lparr>host_events := host_events m @ ev\<rparr>)"
proof -
  have "dest_addr = dest_addr \<and> copy_progress m dest_addr n 0 (m, ())"
    by (auto simp: copy_progress_def intro!: exI [of _ "[]"])
  from copying.walk [OF assms this] show ?thesis by (auto simp: CopyBlock_def copy_progress_def)
qed

theorem CopyBlock_copies_nothing_witness:
  "\<exists>m'. CopyBlock 0x1000 0x2000 4 mapped_memory = Some (True, m') \<and> ram m' = ram mapped_memory \<and>
     guest_byte mapped_memory 0x1004 \<noteq> guest_byte mapped_memory 0x1005"
proof -
  have "\<forall>i<4. translate mapped_memory (0x1000 + i) \<noteq> None" using translate_mapped by auto
  moreover have "guest_byte mapped_memory v = of_nat (0x10000000 + v)" if "0x1000 \<le> v" "v < 0x4000" for v
    using translate_mapped [OF that] by (simp add: guest_byte_def mapped_memory_def memory_with_def)
  ultimately show ?thesis
    using CopyBlock_copies_nothing [OF mapped_ok(1), of "0x1000" 4 "0x2000"] by (auto simp: mapped_ok(2))
qed

text \<open>
  Marking a region as debugged or not, or as cached by the GPU or not, changes page types only:
  it stays in the table whatever the region is, and every address keeps its translation, so the guest
  sees the same bytes.
\<close>

theorem marking_keeps_memory:
  assumes "mem_ok m" "v < 2 ^ 64" "n < 2 ^ 64"
  shows "(\<exists>m'. MarkRegionDebug v n b m = Some m' \<and> mem_ok m' \<and> translate m' = translate m \<and> ram m' = ram m) \<and>
    (\<exists>m'. RasterizerMarkRegionCached v n b m = Some m' \<and> mem_ok m' \<and> translate m' = translate m \<and> ram m' = ram m)"
proof (cases "v = 0 \<or> \<not> AddressSpaceContains (current_page_table m) v n")
  case True
  then show ?thesis using assms(1) by (auto simp: MarkRegionDebug_def RasterizerMarkRegionCached_def)
next
  case False
  have d: "\<exists>m'. mark_pages (mark_debug b) (num_pages v n) v k = Some m' \<and> mem_ok m' \<and> translate m' = translate m \<and> ram m' = ram m"
    and c: "\<exists>m'. mark_pages (mark_cached b) (num_pages v n) v k = Some m' \<and> mem_ok m' \<and> translate m' = translate m \<and> ram m' = ram m"
    if k: "k = m \<or> (\<exists>e. k = event e m)" for k
  proof -
    have ok: "mem_ok k" "AddressSpaceContains (current_page_table k) v n" "v \<noteq> 0" "translate k = translate m" "ram k = ram m"
      using k False assms(1) by auto
    show "\<exists>m'. mark_pages (mark_debug b) (num_pages v n) v k = Some m' \<and> mem_ok m' \<and> translate m' = translate m \<and> ram m' = ram m"
      using debug_marker.region_retypes [OF ok(1-3) assms(2,3), of b] ok(4,5) only_pages_eqs(6) by (fastforce simp: retyped_def)
    show "\<exists>m'. mark_pages (mark_cached b) (num_pages v n) v k = Some m' \<and> mem_ok m' \<and> translate m' = translate m \<and> ram m' = ram m"
      using cached_marker.region_retypes [OF ok(1-3) assms(2,3), of b] ok(4,5) only_pages_eqs(6) by (fastforce simp: retyped_def)
  qed
  show ?thesis
    unfolding MarkRegionDebug_def RasterizerMarkRegionCached_def if_not_P [OF False]
    by (intro conjI d c) auto
qed

theorem marking_keeps_memory_witness:
  "\<exists>m'. RasterizerMarkRegionCached 0x1800 0x1000 True mapped_memory = Some m' \<and> translate m' 0x1800 = Some 0x10001800"
  using marking_keeps_memory [OF mapped_ok(1), of "0x1800" "0x1000" True] translate_mapped [of "0x1800"] by force

end
