(* ===== verification/GuestMemoryValues.thy ===== *)
theory GuestMemoryValues
  imports GuestMemoryProps
begin

text \<open>
  Accesses of one to eight bytes at any alignment, in terms of the bytes of the guest, and the check of
  an address range.  An access that is not aligned is split into smaller ones until each part lies in
  one page, so that the parts may be mapped to different places.
\<close>

section \<open>Values and their bytes\<close>

lemma length_le_bytes [simp]: "length (le_bytes n v) = n"
  by (induction n arbitrary: v) simp_all

lemma bit_le_value: "bit (le_value bs) i \<longleftrightarrow> i < 64 \<and> i div 8 < length bs \<and> bit (bs ! (i div 8)) (i mod 8)"
proof (induction bs arbitrary: i)
  case (Cons b bs)
  show ?case
  proof (cases "i < 8")
    case True
    then have "i div 8 = 0" "i mod 8 = i" by auto
    with True show ?thesis by (simp add: bit_or_iff bit_push_bit_iff bit_ucast_iff)
  next
    case False
    then have "i div 8 = Suc ((i - 8) div 8)" "i mod 8 = (i - 8) mod 8"
      by (simp_all add: le_div_geq le_mod_geq)
    moreover have "\<not> bit b i" using False by (simp add: impossible_bit)
    ultimately show ?thesis using False Cons.IH [of "i - 8"]
      by (auto simp: bit_or_iff bit_push_bit_iff bit_ucast_iff)
  qed
qed simp

lemma nth_le_bytes: "i < n \<Longrightarrow> le_bytes n v ! i = ucast (drop_bit (8 * i) v)"
proof (induction n arbitrary: i v)
  case (Suc n)
  then show ?case by (cases i) (simp_all add: drop_bit_drop_bit add.commute)
qed simp

lemma le_value_le_bytes: "le_value (le_bytes n v) = take_bit (8 * n) v"
proof (rule bit_word_eqI)
  fix i
  assume "i < LENGTH(64)"
  moreover have "i div 8 < n \<longleftrightarrow> i < 8 * n" by auto
  moreover have "8 * (i div 8) + i mod 8 = i" by simp
  ultimately show "bit (le_value (le_bytes n v)) i \<longleftrightarrow> bit (take_bit (8 * n) v) i"
    by (auto simp: bit_le_value nth_le_bytes bit_ucast_iff bit_drop_bit_eq bit_take_bit_iff)
qed

lemma le_value_append:
  "le_value (xs @ ys) = le_value xs OR push_bit (8 * length xs) (le_value ys)"
  by (induction xs) (simp_all add: push_bit_or push_bit_push_bit or.assoc add.commute)

lemma le_bytes_append: "le_bytes (k + n) v = le_bytes k v @ le_bytes n (drop_bit (8 * k) v)"
  by (induction k arbitrary: v) (simp_all add: drop_bit_drop_bit add.commute)

lemma le_bytes_low:
  assumes "take_bit (8 * n) v = take_bit (8 * n) w"
  shows "le_bytes n v = le_bytes n w"
proof (rule nth_equalityI)
  fix i
  assume i: "i < length (le_bytes n v)"
  have "bit (ucast (drop_bit (8 * i) v) :: u8) j = bit (ucast (drop_bit (8 * i) w) :: u8) j" for j
  proof (cases "j < 8")
    case True
    then have "8 * i + j < 8 * n" using i by simp
    moreover have "bit (take_bit (8 * n) v) (8 * i + j) = bit (take_bit (8 * n) w) (8 * i + j)" using assms by simp
    ultimately show ?thesis by (auto simp: bit_ucast_iff bit_drop_bit_eq bit_take_bit_iff)
  qed (simp add: impossible_bit)
  then have "ucast (drop_bit (8 * i) v) = (ucast (drop_bit (8 * i) w) :: u8)" by (auto intro: bit_eqI)
  then show "le_bytes n v ! i = le_bytes n w ! i" using i by (simp add: nth_le_bytes)
qed simp

lemma le_value_short:
  "length bs \<le> n \<Longrightarrow> take_bit (8 * n) (le_value bs) = le_value bs"
  by (rule bit_word_eqI) (auto simp: bit_take_bit_iff bit_le_value)

lemma ucast_cut: "ucast (ucast v :: 'h::len word) = take_bit LENGTH('h) v" for v :: u64
  by (rule bit_word_eqI) (auto simp: bit_ucast_iff bit_take_bit_iff)

lemma le_value_zeros: "le_value (replicate n 0) = 0"
  by (induction n) simp_all

section \<open>One access\<close>

lemma GetPointerImpl_ok:
  assumes "mem_ok m" "a < space_top m"
  shows "GetPointerImpl a m = Some (case translate m a of None \<Rightarrow> (0, OnUnmapped)
    | Some h \<Rightarrow> (h, if cached m a then OnRasterizer else NoCall))"
proof -
  have a: "a < 2 ^ 48" using assms space_top_le [OF assms(1)] by simp
  have "a AND 0xffffffffffff = take_bit 48 a"
    by (simp add: take_bit_eq_mask mask_eq_exp_minus_1)
  then have m: "a AND 0xffffffffffff = a" using a by (simp add: take_bit_nat_eq_self)
  have c: "AddressSpaceContains (current_page_table m) a (Suc 0)"
    using a assms(2) by (simp add: AddressSpaceContains_def add64_exact space_top_def)
  from assms show ?thesis
    by (cases rule: page_cases) (use assms in \<open>simp_all add: GetPointerImpl_def m c cached_def Let_def\<close>)
qed

text \<open>What an access leaves: a memory that differs by events, or by events and written bytes.\<close>

definition observed :: "memory_impl \<Rightarrow> memory_impl \<Rightarrow> bool" where
  "observed m m' \<longleftrightarrow> (\<exists>ev. m' = m\<lparr>host_events := host_events m @ ev\<rparr>)"

definition wrote :: "memory_impl \<Rightarrow> nat \<Rightarrow> u8 list \<Rightarrow> memory_impl \<Rightarrow> bool" where
  "wrote m a bs m' \<longleftrightarrow>
     (\<exists>ev. m' = m\<lparr>ram := write_bytes m a bs (ram m), host_events := host_events m @ ev\<rparr>)"

lemma observed_same:
  assumes "observed m m'"
  shows "same_table m m'" "mem_ok m' = mem_ok m" "space_top m' = space_top m" "translate m' = translate m"
    "guest_byte m' = guest_byte m" "cached m' = cached m"
proof -
  show st: "same_table m m'" using assms by (auto simp: observed_def same_table_def)
  show "mem_ok m' = mem_ok m" "space_top m' = space_top m" "translate m' = translate m" "cached m' = cached m"
    using same_table_eqs [OF st] by simp_all
  then show "guest_byte m' = guest_byte m" using assms by (auto simp: guest_byte_def fun_eq_iff observed_def split: option.split)
qed

lemma observed_trans: "observed m1 m2 \<Longrightarrow> observed m2 m3 \<Longrightarrow> observed m1 m3"
  by (auto simp: observed_def)

lemma wrote_same:
  assumes "wrote m a bs m'"
  shows "same_table m m'" "mem_ok m' = mem_ok m" "space_top m' = space_top m" "translate m' = translate m"
proof -
  show st: "same_table m m'" using assms by (auto simp: wrote_def same_table_def)
  show "mem_ok m' = mem_ok m" "space_top m' = space_top m" "translate m' = translate m"
    using same_table_eqs [OF st] by simp_all
qed

lemma write_bytes_cong: "translate m' = translate m \<Longrightarrow> write_bytes m' a bs f = write_bytes m a bs f"
  by (induction bs arbitrary: a f) simp_all

lemma wrote_append:
  assumes "wrote m a xs m1" "wrote m1 (a + length xs) ys m2"
  shows "wrote m a (xs @ ys) m2"
proof -
  have "translate m1 = translate m" using wrote_same [OF assms(1)] by simp
  then have "write_bytes m1 b bs f = write_bytes m b bs f" for b bs f by (rule write_bytes_cong)
  with assms show ?thesis by (auto simp: wrote_def write_bytes_append)
qed

lemma observed_refl [simp]: "observed m m"
  by (auto simp: observed_def intro!: exI [of _ "[]"])

lemma cached_mapped: "mem_ok m \<Longrightarrow> cached m a \<Longrightarrow> translate m a \<noteq> None"
  by (erule page_cases [of m a]) (auto simp: cached_def)

lemma page_bytes:
  assumes "mem_ok m" "a < space_top m" "a mod YUZU_PAGESIZE + n \<le> YUZU_PAGESIZE" "i < n"
  shows "translate m (a + i) = map_option (\<lambda>h. h + i) (translate m a)"
  using translate_chunk(1) [OF assms(1,2)] assms(3,4) by simp

lemma Read_ok:
  assumes "mem_ok m" "a < space_top m" "a mod YUZU_PAGESIZE + n \<le> YUZU_PAGESIZE"
  obtains m' where "Read n a m = Some (le_value (map (guest_byte m) [a..<a + n]), m')" "observed m m'"
proof (cases "translate m a")
  case None
  then have "map (guest_byte m) [a..<a + n] = replicate n 0"
    using page_bytes [OF assms] by (intro nth_equalityI) (simp_all add: guest_byte_def)
  with None show thesis
    using GetPointerImpl_ok [OF assms(1,2)] by (intro that [of m]) (simp_all add: Read_def le_value_zeros)
next
  case (Some h)
  let ?m = "if cached m a then event (RasterizerDownload a n) m else m"
  have "map (guest_byte m) [a..<a + n] = map (ram m) [h..<h + n]"
    using Some page_bytes [OF assms] by (intro nth_equalityI) (simp_all add: guest_byte_def)
  moreover have "host_valid h n m" "h \<noteq> 0" using translate_host_valid [OF assms(1) Some assms(3)] by auto
  moreover have "observed m ?m" by (auto simp: observed_def event_def intro: exI [of _ "[]"])
  ultimately show thesis
    using GetPointerImpl_ok [OF assms(1,2)] Some
    by (intro that [of ?m]) (simp_all add: Read_def host_read_def host_valid_def event_def)
qed

lemma Write_ok:
  assumes "mem_ok m" "a < space_top m" "a mod YUZU_PAGESIZE + n \<le> YUZU_PAGESIZE"
  obtains m' where "Write n a v m = Some m'" "wrote m a (le_bytes n v) m'"
proof (cases "translate m a")
  case None
  then have "write_bytes m a (le_bytes n v) f = f" for f
    using page_bytes [OF assms] cached_mapped [OF assms(1)]
    by (intro write_bytes_unmapped) (fastforce simp: unmapped_run_def)
  with None show thesis
    using GetPointerImpl_ok [OF assms(1,2)] by (intro that [of m]) (auto simp: Write_def wrote_def intro!: exI [of _ "[]"])
next
  case (Some h)
  then have "write_bytes m a (le_bytes n v) f = store_bytes h (le_bytes n v) f" for f
    using page_bytes [OF assms] by (intro write_bytes_run) simp
  moreover have "host_valid h n m" "h \<noteq> 0" using translate_host_valid [OF assms(1) Some assms(3)] by auto
  moreover define ev where "ev = (if cached m a then [RasterizerWrite a n] else [])"
  ultimately have "Write n a v m =
      Some (m\<lparr>ram := write_bytes m a (le_bytes n v) (ram m), host_events := host_events m @ ev\<rparr>)"
    using GetPointerImpl_ok [OF assms(1,2)] Some
    by (simp add: Write_def host_write_def host_valid_def event_def)
  then show thesis by (rule that) (auto simp: wrote_def)
qed

section \<open>Accesses at any alignment\<close>

text \<open>An aligned access of a power of two lies in one page, and so does a byte.\<close>

lemma aligned_in_page:
  assumes "k dvd YUZU_PAGESIZE" "a mod k = 0" "0 < k"
  shows "a mod YUZU_PAGESIZE + k \<le> YUZU_PAGESIZE"
proof -
  have "a mod YUZU_PAGESIZE mod k = 0" using assms(1,2) by (simp add: mod_mod_cancel)
  then obtain q where q: "a mod YUZU_PAGESIZE = k * q" by (auto elim: dvdE simp: mod_eq_0_iff_dvd)
  from assms(1) obtain p where p: "YUZU_PAGESIZE = k * p" by blast
  have "k * q < k * p" using page_mod_less [of a] q p by simp
  then have "q + 1 \<le> p" by simp
  then have "k * (q + 1) \<le> k * p" by (rule mult_le_mono2)
  then show ?thesis using q p by simp
qed

lemma power_dvd_page: "1 dvd YUZU_PAGESIZE" "2 dvd YUZU_PAGESIZE" "4 dvd YUZU_PAGESIZE" "8 dvd YUZU_PAGESIZE"
  by (simp_all add: YUZU_PAGESIZE_def)

text \<open>What it means that a reader or a writer of \<open>n\<close> bytes is right at every address.\<close>

definition reads_bytes :: "nat \<Rightarrow> (nat \<Rightarrow> memory_impl \<Rightarrow> ('v::len word \<times> memory_impl) option) \<Rightarrow> bool" where
  "reads_bytes n rd \<longleftrightarrow> (\<forall>m a. mem_ok m \<longrightarrow> a + n \<le> space_top m \<longrightarrow>
     (\<exists>m'. rd a m = Some (ucast (le_value (map (guest_byte m) [a..<a + n])), m') \<and> observed m m'))"

definition writes_bytes :: "nat \<Rightarrow> (nat \<Rightarrow> 'v::len word \<Rightarrow> memory_impl \<Rightarrow> memory_impl option) \<Rightarrow> bool" where
  "writes_bytes n wr \<longleftrightarrow> (\<forall>m a v. mem_ok m \<longrightarrow> a + n \<le> space_top m \<longrightarrow>
     (\<exists>m'. wr a v m = Some m' \<and> wrote m a (le_bytes n (ucast v)) m'))"

lemma reads_bytesD:
  assumes "reads_bytes n rd" "mem_ok m" "a + n \<le> space_top m"
  obtains m' where "rd a m = Some (ucast (le_value (map (guest_byte m) [a..<a + n])), m')" "observed m m'"
  using assms by (auto simp: reads_bytes_def)

lemma writes_bytesD:
  assumes "writes_bytes n wr" "mem_ok m" "a + n \<le> space_top m"
  obtains m' where "wr a v m = Some m'" "wrote m a (le_bytes n (ucast v)) m'"
  using assms unfolding writes_bytes_def by blast

lemma Read8_reads: "reads_bytes 1 Read8"
  unfolding reads_bytes_def
proof (intro allI impI)
  fix m a
  assume a: "mem_ok m" "a + 1 \<le> space_top m"
  then obtain m' where "Read 1 a m = Some (le_value (map (guest_byte m) [a..<a + 1]), m')" "observed m m'"
    by (rule_tac Read_ok [of m a 1]) (auto simp: Suc_le_eq page_mod_less)
  then show "\<exists>m'. Read8 a m = Some (ucast (le_value (map (guest_byte m) [a..<a + 1])), m') \<and> observed m m'"
    by (auto simp: Read8_def)
qed

text \<open>A reader that reads aligned values at once and others in two halves.\<close>

lemma halves_read:
  fixes rd :: "nat \<Rightarrow> memory_impl \<Rightarrow> ('h::len word \<times> memory_impl) option"
  assumes "reads_bytes k rd" "LENGTH('h) = 8 * k" "2 * k \<le> 8" "mem_ok m" "a + 2 * k \<le> space_top m"
  shows "\<exists>v1 m1 v2 m2. rd a m = Some (v1, m1) \<and> rd (add64 a k) m1 = Some (v2, m2) \<and> observed m m2 \<and>
    push_bit (8 * k) (ucast v2) OR ucast v1 = le_value (map (guest_byte m) [a..<a + 2 * k])"
proof -
  let ?l = "\<lambda>b. le_value (map (guest_byte m) [b..<b + k])"
  obtain m1 where m1: "rd a m = Some (ucast (?l a), m1)" "observed m m1"
    using assms by (rule_tac reads_bytesD [OF assms(1), of m a]) auto
  note same = observed_same [OF m1(2)]
  have a: "add64 a k = a + k" using assms(5) space_top_le [OF assms(4)] by (intro add64_exact) simp
  obtain m2 where m2: "rd (a + k) m1 = Some (ucast (?l (a + k)), m2)" "observed m1 m2"
    using assms same by (rule_tac reads_bytesD [OF assms(1), of m1 "a + k"]) auto
  have cut: "ucast (ucast (?l b) :: 'h word) = ?l b" for b
    using le_value_short [of "map (guest_byte m) [b..<b + k]" k] assms(2) by (simp add: ucast_cut)
  have "[a..<a + 2 * k] = [a..<a + k] @ [a + k..<a + k + k]"
    using upt_add_eq_append [of a "a + k" k] by (simp add: mult_2 add.assoc)
  then have "le_value (map (guest_byte m) [a..<a + 2 * k]) = ?l a OR push_bit (8 * k) (?l (a + k))"
    by (simp add: le_value_append)
  with m1 m2 show ?thesis
    by (intro exI [of _ "ucast (?l a)"] exI [of _ m1] exI [of _ "ucast (?l (a + k))"] exI [of _ m2])
      (auto simp: cut a or.commute intro: observed_trans)
qed

lemma aligned_read:
  assumes "k \<in> {2, 4, 8}" "a mod k = 0" "mem_ok m" "a + k \<le> space_top m"
  shows "\<exists>m'. Read k a m = Some (le_value (map (guest_byte m) [a..<a + k]), m') \<and> observed m m'"
proof -
  have "a < space_top m" "a mod YUZU_PAGESIZE + k \<le> YUZU_PAGESIZE"
    using assms aligned_in_page [of k a] power_dvd_page by auto
  with assms(3) show ?thesis by (rule_tac Read_ok [of m a k]) auto
qed

lemma Read1_Read8: "Read 1 a m = map_option (apfst ucast) (Read8 a m)"
proof -
  have "ucast (ucast v :: u8) = v" if "Read 1 a m = Some (v, m')" for v m'
  proof -
    from that have "v = 0 \<or> (\<exists>b :: u8. v = ucast b)"
      by (auto simp: Read_def Let_def bind_eq_Some_conv host_read_def split: if_splits)
    moreover have "take_bit 8 (ucast b :: u64) = ucast b" for b :: u8
      using le_value_short [of "[b]" 1] by simp
    ultimately show ?thesis by (auto simp: ucast_cut)
  qed
  then show ?thesis by (cases "Read 1 a m") (auto simp: Read8_def)
qed

lemma Read16_reads: "reads_bytes 2 Read16"
  unfolding reads_bytes_def
proof (intro allI impI)
  fix m a
  assume a: "mem_ok m" "a + 2 \<le> space_top m"
  show "\<exists>m'. Read16 a m = Some (ucast (le_value (map (guest_byte m) [a..<a + 2])), m') \<and> observed m m'"
  proof (cases "a mod 2 = 0")
    case True
    from aligned_read [OF _ True a] True show ?thesis by (auto simp: Read16_def)
  next
    case False
    from halves_read [OF Read8_reads, of m a] a obtain v1 m1 v2 m2 where
      h: "Read8 a m = Some (v1, m1)" "Read8 (add64 a 1) m1 = Some (v2, m2)" "observed m m2"
        "push_bit 8 (ucast v2) OR ucast v1 = le_value (map (guest_byte m) [a..<a + 2])" by auto
    have "ucast (push_bit 8 (ucast (ucast v2 :: u64) :: u32) OR ucast (ucast v1 :: u64)) =
        (ucast (push_bit 8 (ucast v2) OR ucast v1 :: u64) :: u16)"
      by (rule bit_word_eqI) (auto simp: bit_ucast_iff bit_or_iff bit_push_bit_iff)
    with h False show ?thesis
      by (simp add: Read16_def Read1_Read8 [unfolded One_nat_def])
  qed
qed

lemma Read32_reads: "reads_bytes 4 Read32"
  unfolding reads_bytes_def
proof (intro allI impI)
  fix m a
  assume a: "mem_ok m" "a + 4 \<le> space_top m"
  show "\<exists>m'. Read32 a m = Some (ucast (le_value (map (guest_byte m) [a..<a + 4])), m') \<and> observed m m'"
  proof (cases "a mod 4 = 0")
    case True
    from aligned_read [OF _ True a] True show ?thesis by (auto simp: Read32_def)
  next
    case False
    from halves_read [OF Read16_reads, of m a] a obtain v1 m1 v2 m2 where
      h: "Read16 a m = Some (v1, m1)" "Read16 (add64 a 2) m1 = Some (v2, m2)" "observed m m2"
        "push_bit 16 (ucast v2) OR ucast v1 = le_value (map (guest_byte m) [a..<a + 4])" by auto
    have "push_bit 16 (ucast v2 :: u32) OR ucast v1 = ucast (push_bit 16 (ucast v2) OR ucast v1 :: u64)"
      by (rule bit_word_eqI) (auto simp: bit_ucast_iff bit_or_iff bit_push_bit_iff)
    with h False show ?thesis by (simp add: Read32_def)
  qed
qed

lemma Read64_reads: "reads_bytes 8 Read64"
  unfolding reads_bytes_def
proof (intro allI impI)
  fix m a
  assume a: "mem_ok m" "a + 8 \<le> space_top m"
  show "\<exists>m'. Read64 a m = Some (ucast (le_value (map (guest_byte m) [a..<a + 8])), m') \<and> observed m m'"
  proof (cases "a mod 8 = 0")
    case True
    from aligned_read [OF _ True a] True show ?thesis by (auto simp: Read64_def)
  next
    case False
    from halves_read [OF Read32_reads, of m a] a obtain v1 m1 v2 m2 where
      "Read32 a m = Some (v1, m1)" "Read32 (add64 a 4) m1 = Some (v2, m2)" "observed m m2"
      "push_bit 32 (ucast v2) OR ucast v1 = le_value (map (guest_byte m) [a..<a + 8])" by auto
    with False show ?thesis by (simp add: Read64_def)
  qed
qed

text \<open>The same for writers.\<close>

lemma halves_written:
  fixes wr :: "nat \<Rightarrow> 'h::len word \<Rightarrow> memory_impl \<Rightarrow> memory_impl option"
  assumes "writes_bytes k wr" "LENGTH('h) = 8 * k" "2 * k \<le> 8" "mem_ok m" "a + 2 * k \<le> space_top m"
  shows "\<exists>m1 m2. wr a (ucast v) m = Some m1 \<and> wr (add64 a k) (ucast (drop_bit (8 * k) v)) m1 = Some m2 \<and>
    wrote m a (le_bytes (2 * k) v) m2"
proof -
  have low: "le_bytes k (ucast (ucast w :: 'h word)) = le_bytes k w" for w :: u64
    using assms(2) by (intro le_bytes_low) (simp add: ucast_cut)
  obtain m1 where m1: "wr a (ucast v) m = Some m1" "wrote m a (le_bytes k v) m1"
    using assms low by (rule_tac writes_bytesD [OF assms(1), of m a "ucast v"]) auto
  note same = wrote_same [OF m1(2)]
  have a: "add64 a k = a + k" using assms(5) space_top_le [OF assms(4)] by (intro add64_exact) simp
  obtain m2 where m2: "wr (a + k) (ucast (drop_bit (8 * k) v)) m1 = Some m2"
    "wrote m1 (a + k) (le_bytes k (drop_bit (8 * k) v)) m2"
    using assms same low by (rule_tac writes_bytesD [OF assms(1), of m1 "a + k" "ucast (drop_bit (8 * k) v)"]) auto
  have "wrote m a (le_bytes (2 * k) v) m2"
    unfolding mult_2 le_bytes_append by (rule wrote_append [OF m1(2)]) (use m2(2) in simp)
  with m1 m2 show ?thesis by (intro exI [of _ m1] exI [of _ m2]) (simp add: a)
qed

lemma aligned_write:
  assumes "k \<in> {2, 4, 8}" "a mod k = 0" "mem_ok m" "a + k \<le> space_top m"
  shows "\<exists>m'. Write k a v m = Some m' \<and> wrote m a (le_bytes k v) m'"
proof -
  have "a < space_top m" "a mod YUZU_PAGESIZE + k \<le> YUZU_PAGESIZE"
    using assms aligned_in_page [of k a] power_dvd_page by auto
  with assms(3) show ?thesis by (rule_tac Write_ok [of m a k v]) auto
qed

lemma Write8_writes: "writes_bytes 1 Write8"
  unfolding writes_bytes_def
proof (intro allI impI)
  fix m a v
  assume "mem_ok m" "a + 1 \<le> space_top m"
  then show "\<exists>m'. Write8 a v m = Some m' \<and> wrote m a (le_bytes 1 (ucast v)) m'"
    by (rule_tac Write_ok [of m a 1 "ucast v"]) (auto simp: Write8_def Suc_le_eq page_mod_less)
qed

lemma Write16_writes: "writes_bytes 2 Write16"
  unfolding writes_bytes_def
proof (intro allI impI)
  fix m a and v :: u16
  assume a: "mem_ok m" "a + 2 \<le> space_top m"
  show "\<exists>m'. Write16 a v m = Some m' \<and> wrote m a (le_bytes 2 (ucast v)) m'"
  proof (cases "a mod 2 = 0")
    case True
    from aligned_write [OF _ True a] True show ?thesis by (auto simp: Write16_def)
  next
    case False
    from halves_written [OF Write8_writes, of m a "ucast v"] a obtain m1 m2 where
      h: "Write8 a (ucast (ucast v :: u64)) m = Some m1"
        "Write8 (add64 a 1) (ucast (drop_bit 8 (ucast v :: u64))) m1 = Some m2"
        "wrote m a (le_bytes 2 (ucast v)) m2" by auto
    have "ucast (ucast v :: u64) = (ucast v :: u8)" "ucast (drop_bit 8 (ucast v :: u64)) = (ucast (drop_bit 8 v) :: u8)"
      by (rule bit_word_eqI; auto simp: bit_ucast_iff bit_drop_bit_eq dest: bit_imp_le_length)+
    with h False show ?thesis by (simp add: Write16_def Write8_def)
  qed
qed

lemma Write32_writes: "writes_bytes 4 Write32"
  unfolding writes_bytes_def
proof (intro allI impI)
  fix m a and v :: u32
  assume a: "mem_ok m" "a + 4 \<le> space_top m"
  show "\<exists>m'. Write32 a v m = Some m' \<and> wrote m a (le_bytes 4 (ucast v)) m'"
  proof (cases "a mod 4 = 0")
    case True
    from aligned_write [OF _ True a] True show ?thesis by (auto simp: Write32_def)
  next
    case False
    from halves_written [OF Write16_writes, of m a "ucast v"] a obtain m1 m2 where
      h: "Write16 a (ucast (ucast v :: u64)) m = Some m1"
        "Write16 (add64 a 2) (ucast (drop_bit 16 (ucast v :: u64))) m1 = Some m2"
        "wrote m a (le_bytes 4 (ucast v)) m2" by auto
    have "ucast (ucast v :: u64) = (ucast v :: u16)" "ucast (drop_bit 16 (ucast v :: u64)) = (ucast (drop_bit 16 v) :: u16)"
      by (rule bit_word_eqI; auto simp: bit_ucast_iff bit_drop_bit_eq dest: bit_imp_le_length)+
    with h False show ?thesis by (simp add: Write32_def)
  qed
qed

lemma Write64_writes: "writes_bytes 8 Write64"
  unfolding writes_bytes_def
proof (intro allI impI)
  fix m a and v :: u64
  assume a: "mem_ok m" "a + 8 \<le> space_top m"
  show "\<exists>m'. Write64 a v m = Some m' \<and> wrote m a (le_bytes 8 (ucast v)) m'"
  proof (cases "a mod 8 = 0")
    case True
    from aligned_write [OF _ True a] True show ?thesis by (auto simp: Write64_def)
  next
    case False
    from halves_written [OF Write32_writes, of m a v] a obtain m1 m2 where
      "Write32 a (ucast v) m = Some m1" "Write32 (add64 a 4) (ucast (drop_bit 32 v)) m1 = Some m2"
      "wrote m a (le_bytes 8 v) m2" by auto
    with False show ?thesis by (simp add: Write64_def)
  qed
qed

section \<open>Ranges of addresses\<close>

lemma IsValidVirtualAddress_iff: "mem_ok m \<Longrightarrow> IsValidVirtualAddress v m \<longleftrightarrow> translate m v \<noteq> None"
proof (cases "v < space_top m")
  case True
  assume ok: "mem_ok m"
  have "entries (current_page_table m) ! (v div YUZU_PAGESIZE) = page_entry_of m v" by (simp add: page_entry_of_def)
  with ok True page_in_table [OF ok, of v] show ?thesis
    by (cases rule: page_cases [OF ok True]) (auto simp: IsValidVirtualAddress_def Let_def)
qed (auto simp: IsValidVirtualAddress_def page_in_table not_less translate_def Let_def simp flip: not_less)

lemma IsValidVirtualAddressRange_loop_decides:
  assumes "mem_ok m" "page mod YUZU_PAGESIZE = 0" "stop < 2 ^ 64"
  shows "IsValidVirtualAddressRange_loop stop page m = Some (\<forall>v. page \<le> v \<and> v < stop \<longrightarrow> translate m v \<noteq> None)"
  using assms(2)
proof (induction "stop - page" arbitrary: page rule: less_induct)
  case less
  note unfold = IsValidVirtualAddressRange_loop.simps [of stop page m]
  show ?case
  proof (cases "page < stop")
    case False
    then show ?thesis by (auto simp: unfold)
  next
    case in_range: True
    show ?thesis
    proof (cases "translate m page = None")
      case True
      then show ?thesis using in_range by (auto simp: unfold IsValidVirtualAddress_iff [OF assms(1)])
    next
      case False
      then have p: "page < space_top m" by (auto simp: translate_def split: if_splits)
      then have a: "add64 page YUZU_PAGESIZE = page + YUZU_PAGESIZE"
        using space_top_le [OF assms(1)] by (intro add64_exact) (simp add: YUZU_PAGESIZE_def)
      have here: "translate m v \<noteq> None" if "page \<le> v" "v < page + YUZU_PAGESIZE" for v
      proof -
        have "page mod YUZU_PAGESIZE + (v - page) < YUZU_PAGESIZE" using less.prems that by simp
        from translate_chunk(1) [OF assms(1) p this] False that show ?thesis by auto
      qed
      have "IsValidVirtualAddressRange_loop stop (page + YUZU_PAGESIZE) m =
          Some (\<forall>v. page + YUZU_PAGESIZE \<le> v \<and> v < stop \<longrightarrow> translate m v \<noteq> None)"
        using in_range less.prems by (intro less.hyps) (auto simp: YUZU_PAGESIZE_def)
      moreover have "(\<forall>v. page + YUZU_PAGESIZE \<le> v \<and> v < stop \<longrightarrow> translate m v \<noteq> None) \<longleftrightarrow>
          (\<forall>v. page \<le> v \<and> v < stop \<longrightarrow> translate m v \<noteq> None)"
        using here by (meson add_leD1 not_less)
      ultimately show ?thesis using in_range False by (simp add: unfold IsValidVirtualAddress_iff [OF assms(1)] a)
    qed
  qed
qed

section \<open>Properties\<close>

text \<open>
  C18.  Reading a 16-, 32- or 64-bit value at any address, aligned or not and across pages of any
  type, gives the little-endian value of the guest's bytes there, and changes no byte.
\<close>

theorem values_read_bytes:
  assumes "mem_ok m" "a + 8 \<le> space_top m"
  shows "(\<exists>m'. Read64 a m = Some (le_value (map (guest_byte m) [a..<a + 8]), m') \<and> observed m m') \<and>
    (\<exists>m'. Read32 a m = Some (ucast (le_value (map (guest_byte m) [a..<a + 4])), m') \<and> observed m m') \<and>
    (\<exists>m'. Read16 a m = Some (ucast (le_value (map (guest_byte m) [a..<a + 2])), m') \<and> observed m m')"
  using assms Read64_reads Read32_reads Read16_reads unfolding reads_bytes_def by fastforce

theorem values_read_bytes_witness:
  "\<exists>m'. Read64 0x1FFD mapped_memory = Some (0x0403020100FFFEFD, m') \<and> ram m' = ram mapped_memory"
proof -
  have "guest_byte mapped_memory v = of_nat (0x10000000 + v)" if "0x1000 \<le> v" "v < 0x4000" for v
    using translate_mapped [OF that] by (simp add: guest_byte_def mapped_memory_def memory_with_def)
  moreover have "[0x1FFD..<0x2005] = [0x1FFD, 0x1FFE, 0x1FFF, 0x2000, 0x2001, 0x2002, 0x2003, 0x2004::nat]" by (simp add: upt_rec)
  ultimately have "le_value (map (guest_byte mapped_memory) [0x1FFD..<0x1FFD + 8]) = 0x0403020100FFFEFD" by simp
  with values_read_bytes [OF mapped_ok(1), of "0x1FFD"] show ?thesis by (auto simp: mapped_ok(2) observed_def)
qed

text \<open>
  A 64-bit value written at any address, aligned or not and across pages, is read back, when the
  eight bytes are mapped to different bytes of the host.
\<close>

theorem Write64_then_Read64:
  assumes "mem_ok m" "a + 8 \<le> space_top m" "\<forall>i<8. translate m (a + i) \<noteq> None"
    and "inj_on (\<lambda>i. translate m (a + i)) {..<8}"
  shows "\<exists>m1 m2. Write64 a v m = Some m1 \<and> Read64 a m1 = Some (v, m2)"
proof -
  from assms(1,2) Write64_writes obtain m1 where m1: "Write64 a v m = Some m1" "wrote m a (le_bytes 8 v) m1"
    unfolding writes_bytes_def by fastforce
  note same = wrote_same [OF m1(2)]
  from same assms(1,2) Read64_reads obtain m2 where
    "Read64 a m1 = Some (le_value (map (guest_byte m1) [a..<a + 8]), m2)" unfolding reads_bytes_def by fastforce
  moreover have "map (guest_byte m1) [a..<a + 8] = le_bytes 8 v"
  proof (rule nth_equalityI)
    fix i assume "i < length (map (guest_byte m1) [a..<a + 8])"
    then have i: "i < 8" by simp
    have "ram m1 = write_bytes m a (le_bytes 8 v) (ram m)" using m1(2) by (auto simp: wrote_def)
    with i assms(3,4) write_bytes_get [of m a "le_bytes 8 v" i "ram m"] same(4)
    show "map (guest_byte m1) [a..<a + 8] ! i = le_bytes 8 v ! i" by (auto simp: guest_byte_def)
  qed simp
  ultimately show ?thesis using m1(1) by (simp add: le_value_le_bytes take_bit_word_eq_self)
qed

theorem Write64_then_Read64_witness:
  "\<exists>m1 m2. Write64 0x2FF9 0x1122334455667788 mapped_memory = Some m1 \<and> Read64 0x2FF9 m1 = Some (0x1122334455667788, m2)"
proof (rule Write64_then_Read64)
  have t: "translate mapped_memory (0x2FF9 + i) = Some (0x10002FF9 + i)" if "i < 8" for i using translate_mapped that by simp
  then show "\<forall>i<8. translate mapped_memory (0x2FF9 + i) \<noteq> None" by simp
  show "inj_on (\<lambda>i. translate mapped_memory (0x2FF9 + i)) {..<8}" by (rule inj_onI) (use t in simp)
qed (simp_all add: mapped_ok)

text \<open>
  \<open>IsValidVirtualAddressRange\<close> returns, and tells whether every address is mapped from the
  start of the first page up to the end of the range.
\<close>

theorem IsValidVirtualAddressRange_decides:
  assumes "mem_ok m" "base + n < 2 ^ 64"
  shows "IsValidVirtualAddressRange base n m =
    Some (\<forall>v. AlignDown base YUZU_PAGESIZE \<le> v \<and> v < base + n \<longrightarrow> translate m v \<noteq> None)"
  using IsValidVirtualAddressRange_loop_decides [OF assms(1) _ assms(2)] AlignDown_dvd [of YUZU_PAGESIZE base] assms(2)
  by (simp add: IsValidVirtualAddressRange_def add64_exact mod_eq_0_iff_dvd)

theorem IsValidVirtualAddressRange_decides_witness:
  "IsValidVirtualAddressRange 0x1234 0x2000 mapped_memory = Some True"
proof -
  have "\<forall>v. AlignDown 0x1234 YUZU_PAGESIZE \<le> v \<and> v < 0x1234 + 0x2000 \<longrightarrow> translate mapped_memory v \<noteq> None"
    using translate_mapped by (simp add: AlignDown_def YUZU_PAGESIZE_def)
  with IsValidVirtualAddressRange_decides [OF mapped_ok(1), of "0x1234" "0x2000"] show ?thesis by simp
qed

end
