(* ===== verification/CheatEngine.thy ===== *)
theory CheatEngine
  imports CheatVmSafety GuestMemoryValues
begin

text \<open>
  \<^verbatim>\<open>src/core/memory/cheat_engine.h\<close> and \<open>.cpp\<close>: the callbacks through which the
  virtual machine of \<open>CheatVm\<close> reaches the memory of \<open>GuestMemory\<close>, the parser of cheat files,
  and the engine that reloads and runs the cheats once per period.

  The state of the host has, for every process identifier of the kernel, the memory and the
  suspension of the process, the state of the buttons, and the cached process pointer, which is kept as
  the identifier of the process that it points to.  Instruction cache invalidations and the debug log
  are recorded.  \<open>undefined_access\<close> is set by an access that is undefined: a dangling cached pointer
  or an access outside of host memory.

  No cheat program can reach beyond what the callbacks allow, the parser inverts printing and
  its results are safe to load, and the engine does what a cheat asks for.
\<close>

section \<open>Callbacks\<close>

record guest_process =
  gp_memory :: memory_impl
  gp_ended :: bool
  gp_suspended :: bool
  gp_invalidated :: "(nat \<times> nat) list"

record vm_host =
  processes :: "u64 \<rightharpoonup> guest_process"
  cached_process :: "u64 option"
  cached_process_id :: u64
  hid_ready :: bool
  press_state :: u64
  debug_log :: "(u8 \<times> u64) list"
  undefined_access :: bool

text \<open>The process pointer, null or a process, and the host with the pointer cached.\<close>

definition GetProcess :: "cheat_process_metadata \<Rightarrow> vm_host \<Rightarrow> u64 option \<times> vm_host" where
  "GetProcess metadata h =
     (if cached_process h \<noteq> None \<and> cached_process_id h = process_id metadata then (cached_process h, h)
      else let p = (if processes h (process_id metadata) = None then None else Some (process_id metadata))
           in (p, h\<lparr>cached_process := p, cached_process_id := process_id metadata\<rparr>))"

definition in_extents :: "u64 \<Rightarrow> memory_region_extents \<Rightarrow> bool" where
  "in_extents a e \<longleftrightarrow> \<not> (a < ext_base e \<or> a \<ge> ext_base e + ext_size e)"

definition IsAddressInRange :: "cheat_process_metadata \<Rightarrow> u64 \<Rightarrow> bool" where
  "IsAddressInRange metadata a \<longleftrightarrow>
     \<not> (\<not> in_extents a (main_nso_extents metadata) \<and> \<not> in_extents a (heap_extents metadata) \<and>
        \<not> in_extents a (alias_extents metadata) \<and> \<not> in_extents a (aslr_extents metadata))"

definition set_process :: "u64 \<Rightarrow> guest_process \<Rightarrow> vm_host \<Rightarrow> vm_host" where
  "set_process i p h = h\<lparr>processes := (processes h)(i \<mapsto> p)\<rparr>"

definition StdMemoryReadUnsafe :: "cheat_process_metadata \<Rightarrow> u64 \<Rightarrow> nat \<Rightarrow> vm_host \<Rightarrow> u8 list \<times> vm_host" where
  "StdMemoryReadUnsafe metadata address n h0 =
     (case GetProcess metadata h0 of
        (None, h) \<Rightarrow> (replicate n 0, h)
      | (Some i, h) \<Rightarrow>
          if \<not> IsAddressInRange metadata address then (replicate n 0, h)
          else case processes h i of
            None \<Rightarrow> (replicate n 0, h\<lparr>undefined_access := True\<rparr>)
          | Some p \<Rightarrow>
              if \<not> IsValidVirtualAddress (unat address) (gp_memory p) then (replicate n 0, h)
              else case ReadBlockImpl (unat address) n False (replicate n 0) (gp_memory p) of
                None \<Rightarrow> (replicate n 0, h\<lparr>undefined_access := True\<rparr>)
              | Some (_, m, bs) \<Rightarrow> (bs, set_process i (p\<lparr>gp_memory := m\<rparr>) h))"

definition StdMemoryWriteUnsafe :: "cheat_process_metadata \<Rightarrow> u64 \<Rightarrow> u8 list \<Rightarrow> vm_host \<Rightarrow> vm_host" where
  "StdMemoryWriteUnsafe metadata address bs h0 =
     (case GetProcess metadata h0 of
        (None, h) \<Rightarrow> h
      | (Some i, h) \<Rightarrow>
          if \<not> IsAddressInRange metadata address then h
          else case processes h i of
            None \<Rightarrow> h\<lparr>undefined_access := True\<rparr>
          | Some p \<Rightarrow>
              if \<not> IsValidVirtualAddress (unat address) (gp_memory p) then h
              else case WriteBlockImpl (unat address) (length bs) False bs (gp_memory p) of
                None \<Rightarrow> h\<lparr>undefined_access := True\<rparr>
              | Some (success, m) \<Rightarrow> set_process i (p\<lparr>gp_memory := m, gp_invalidated :=
                  (if success then gp_invalidated p @ [(unat address, length bs)] else gp_invalidated p)\<rparr>) h)"

text \<open>All 64 bits are buttons, so the mask changes nothing.\<close>

definition NpadButton_All :: u64 where "NpadButton_All = 0xFFFFFFFFFFFFFFFF"

definition StdHidKeysDown :: "vm_host \<Rightarrow> u64 \<times> vm_host" where
  "StdHidKeysDown h =
     (if \<not> hid_ready h then (0, h) else (press_state h AND NpadButton_All, h\<lparr>press_state := 0\<rparr>))"

text \<open>
  \<open>KProcess::SetActivity\<close> on the suspension of the process.  Suspending its threads is \<open>RequestSuspend\<close> of the
  threads of the kernel, whose state is not shared with the host state here.
\<close>

definition SetActivity :: "bool \<Rightarrow> guest_process \<Rightarrow> guest_process" where
  "SetActivity paused p =
     (if gp_ended p \<or> gp_suspended p = paused then p else p\<lparr>gp_suspended := paused\<rparr>)"

definition StdSetPaused :: "bool \<Rightarrow> cheat_process_metadata \<Rightarrow> vm_host \<Rightarrow> vm_host" where
  "StdSetPaused paused metadata h0 =
     (case GetProcess metadata h0 of
        (None, h) \<Rightarrow> h
      | (Some i, h) \<Rightarrow>
          (case processes h i of
             None \<Rightarrow> h\<lparr>undefined_access := True\<rparr>
           | Some p \<Rightarrow> if gp_suspended p \<noteq> paused then set_process i (SetActivity paused p) h else h))"

definition StdPauseProcess :: "cheat_process_metadata \<Rightarrow> vm_host \<Rightarrow> vm_host" where
  "StdPauseProcess = StdSetPaused True"

definition StdResumeProcess :: "cheat_process_metadata \<Rightarrow> vm_host \<Rightarrow> vm_host" where
  "StdResumeProcess = StdSetPaused False"

definition StdDebugLog :: "u8 \<Rightarrow> u64 \<Rightarrow> vm_host \<Rightarrow> vm_host" where
  "StdDebugLog i v h = h\<lparr>debug_log := debug_log h @ [(i, v)]\<rparr>"

definition StandardVmCallbacks :: "cheat_process_metadata \<Rightarrow> vm_host callbacks" where
  "StandardVmCallbacks metadata = \<lparr>MemoryReadUnsafe = StdMemoryReadUnsafe metadata,
     MemoryWriteUnsafe = StdMemoryWriteUnsafe metadata, HidKeysDown = StdHidKeysDown,
     CbPauseProcess = StdPauseProcess metadata, CbResumeProcess = StdResumeProcess metadata, CbDebugLog = StdDebugLog\<rparr>"

section \<open>Cheat files\<close>

text \<open>The classes of characters of the C locale; a character above 127 is in none.\<close>

definition isspace :: "char \<Rightarrow> bool" where
  "isspace c \<longleftrightarrow> of_char c = (32 :: nat) \<or> 9 \<le> (of_char c :: nat) \<and> (of_char c :: nat) \<le> 13"

definition hex_digit :: "char \<Rightarrow> nat option" where
  "hex_digit c =
     (let n = of_char c :: nat in
      if 48 \<le> n \<and> n \<le> 57 then Some (n - 48)
      else if 65 \<le> n \<and> n \<le> 70 then Some (n - 55)
      else if 97 \<le> n \<and> n \<le> 102 then Some (n - 87)
      else None)"

definition isxdigit :: "char \<Rightarrow> bool" where
  "isxdigit c \<longleftrightarrow> hex_digit c \<noteq> None"

definition strtoul16 :: "string \<Rightarrow> nat" where
  "strtoul16 = foldl (\<lambda>v c. 16 * v + the (hex_digit c)) 0"

definition NameSize :: nat where "NameSize = 0x40"
definition OpcodesSize :: nat where "OpcodesSize = 0x100"

definition cheat_entry_default :: cheat_entry where
  "cheat_entry_default = \<lparr>enabled = False, cheat_id = 0,
     cheat_def = \<lparr>readable_name = replicate NameSize (CHR 0x00), def_num_opcodes = 0,
       def_opcodes = replicate OpcodesSize 0\<rparr>\<rparr>"

text \<open>
  The size of a name and the name, cut to the size of its array.  The text is given from the start of
  the name on; reading past its end is undefined.
\<close>

fun ExtractName_loop :: "string \<Rightarrow> char \<Rightarrow> nat option" where
  "ExtractName_loop [] match = None"
| "ExtractName_loop (c # cs) match = (if c = match then Some 0 else map_option Suc (ExtractName_loop cs match))"

definition ExtractName :: "string \<Rightarrow> char \<Rightarrow> (nat \<times> string) option" where
  "ExtractName rest match = do {
     name_size \<leftarrow> ExtractName_loop rest match;
     Some (name_size, take (if name_size > NameSize then NameSize else name_size) rest)
   }"

definition set_name :: "string \<Rightarrow> cheat_entry \<Rightarrow> cheat_entry" where
  "set_name name e =
     (let n = min NameSize (length name); old = readable_name (cheat_def e)
      in e\<lparr>cheat_def := (cheat_def e)\<lparr>readable_name := (take n name @ drop n old)[NameSize - 1 := CHR 0x00]\<rparr>\<rparr>)"

definition add_opcode :: "u32 \<Rightarrow> cheat_entry \<Rightarrow> cheat_entry option" where
  "add_opcode w e = do {
     ops \<leftarrow> arr_set (def_opcodes (cheat_def e)) (def_num_opcodes (cheat_def e)) w;
     Some (e\<lparr>cheat_def := (cheat_def e)\<lparr>def_opcodes := ops, def_num_opcodes := def_num_opcodes (cheat_def e) + 1\<rparr>\<rparr>)
   }"

text \<open>
  The main loop of \<open>Parse\<close>, on the text from the current index on; the empty list is the result
  of every failure.
\<close>

function Parse_loop :: "string \<Rightarrow> cheat_entry list \<Rightarrow> nat option \<Rightarrow> cheat_entry list option" where
  "Parse_loop [] out current_entry = Some out"
| "Parse_loop (c # rest) out current_entry =
     (if isspace c then Parse_loop rest out current_entry
      else if c = CHR ''{'' then do {
        e \<leftarrow> arr_get out 0;
        if def_num_opcodes (cheat_def e) > 0 then Some []
        else do {
          (name_size, name) \<leftarrow> ExtractName rest (CHR ''}'');
          if name = [] then Some []
          else Parse_loop (drop (name_size + 1) rest) (out[0 := set_name name e]) (Some 0)
        }
      }
      else if c = CHR ''['' then do {
        (name_size, name) \<leftarrow> ExtractName rest (CHR '']'');
        if name = [] then Some []
        else Parse_loop (drop (name_size + 1) rest) (out @ [set_name name cheat_entry_default]) (Some (length out))
      }
      else if isxdigit c then
        (case current_entry of
           None \<Rightarrow> Some []
         | Some j \<Rightarrow> do {
             e \<leftarrow> arr_get out j;
             if def_num_opcodes (cheat_def e) \<ge> OpcodesSize then Some []
             else if \<not> list_all isxdigit (take 8 (c # rest)) then Some []
             else do {
               e' \<leftarrow> add_opcode (of_nat (strtoul16 (take 8 (c # rest)))) e;
               Parse_loop (drop 8 rest) (out[j := e']) current_entry
             }
           })
      else Some [])"
  by pat_completeness auto
termination by (relation "measure (\<lambda>(text, _, _). length text)") auto

declare Parse_loop.simps [simp del]

definition finish_entry :: "nat \<Rightarrow> cheat_entry \<Rightarrow> cheat_entry" where
  "finish_entry i e = e\<lparr>enabled := def_num_opcodes (cheat_def e) > 0, cheat_id := i\<rparr>"

text \<open>After a failure the result is empty.\<close>

definition Parse :: "string \<Rightarrow> cheat_entry list option" where
  "Parse text = map_option (\<lambda>out. map (\<lambda>(i, e). finish_entry i e) (enumerate 0 out))
     (Parse_loop text [cheat_entry_default] None)"

section \<open>The engine\<close>

record cheat_engine =
  eng_vm :: cheat_vm
  eng_metadata :: cheat_process_metadata
  eng_cheats :: "cheat_entry list"
  is_pending_reload :: bool

definition CheatEngine_new :: "cheat_entry list \<Rightarrow> u8 list \<Rightarrow> cheat_engine" where
  "CheatEngine_new cheats build_id =
     (let nowhere = \<lparr>ext_base = 0, ext_size = 0\<rparr> in
      \<lparr>eng_vm = cheat_vm_default,
       eng_metadata = \<lparr>process_id = 0, title_id = 0, main_nso_extents = nowhere, heap_extents = nowhere,
         alias_extents = nowhere, aslr_extents = nowhere, main_nso_build_id = build_id\<rparr>,
       eng_cheats = cheats, is_pending_reload = False\<rparr>)"

text \<open>What \<open>Initialize\<close> asks of the kernel: the process, its program, and its regions.\<close>

definition Initialize ::
  "u64 \<Rightarrow> u64 \<Rightarrow> memory_region_extents \<Rightarrow> memory_region_extents \<Rightarrow> memory_region_extents \<Rightarrow> cheat_engine \<Rightarrow> cheat_engine" where
  "Initialize pid program_id heap alias_code alias_region eng =
     eng\<lparr>eng_metadata := (eng_metadata eng)\<lparr>process_id := pid, title_id := program_id, heap_extents := heap,
        aslr_extents := alias_code, alias_extents := alias_region\<rparr>, is_pending_reload := True\<rparr>"

definition SetMainMemoryParameters :: "u64 \<Rightarrow> u64 \<Rightarrow> cheat_engine \<Rightarrow> cheat_engine" where
  "SetMainMemoryParameters main_region_begin main_region_size eng =
     eng\<lparr>eng_metadata := (eng_metadata eng)\<lparr>main_nso_extents :=
       \<lparr>ext_base = main_region_begin, ext_size = main_region_size\<rparr>\<rparr>\<rparr>"

definition Reload :: "cheat_entry list \<Rightarrow> cheat_engine \<Rightarrow> cheat_engine" where
  "Reload reload_cheats eng = eng\<lparr>eng_cheats := reload_cheats, is_pending_reload := True\<rparr>"

definition FrameCallback :: "nat \<Rightarrow> cheat_engine \<times> vm_host \<Rightarrow> (cheat_engine \<times> vm_host) run option" where
  "FrameCallback fuel = (\<lambda>(eng, h). do {
     (_, vm) \<leftarrow> (if is_pending_reload eng then LoadProgram (eng_cheats eng) (eng_vm eng) else Some (True, eng_vm eng));
     let eng1 = eng\<lparr>eng_vm := vm, is_pending_reload := False\<rparr>;
     if num_opcodes vm = 0 then Some (Finished (eng1, h))
     else do {
       r \<leftarrow> Execute fuel (StandardVmCallbacks (eng_metadata eng)) (eng_metadata eng) (vm, h);
       Some (case r of Running (vm', h') \<Rightarrow> Running (eng1\<lparr>eng_vm := vm'\<rparr>, h')
             | Finished (vm', h') \<Rightarrow> Finished (eng1\<lparr>eng_vm := vm'\<rparr>, h'))
     }
   })"

section \<open>What the callbacks can reach\<close>

lemma WriteBlockImpl_outside:
  assumes "mem_ok m" "\<not> a + n \<le> space_top m" "a < 2 ^ 64" "n < 2 ^ 64"
  shows "WriteBlockImpl a n unsafe bs m = Some (False, m)"
  unfolding WriteBlockImpl_def WalkBlock_outside [OF assms] by (simp add: skip_unmapped_def)

lemma write_bytes_frame:
  assumes "\<forall>k<length bs. translate m (a + k) \<noteq> Some x"
  shows "write_bytes m a bs f x = f x"
  using assms
proof (induction bs arbitrary: a f)
  case (Cons b bs)
  have "\<forall>k<length bs. translate m (a + 1 + k) \<noteq> Some x"
    using Cons.prems by (auto simp: add.assoc dest: spec [of _ "Suc _"])
  moreover have "translate m a \<noteq> Some x" using Cons.prems by (auto dest: spec [of _ 0])
  ultimately show ?case using Cons.IH by (auto split: option.splits)
qed simp

text \<open>
  The invariant of the host: the memory of every process is well-formed, and the cached pointer is to a
  process that still exists and is the one its identifier says.
\<close>

definition vm_host_ok :: "vm_host \<Rightarrow> bool" where
  "vm_host_ok h \<longleftrightarrow> (\<forall>i p. processes h i = Some p \<longrightarrow> mem_ok (gp_memory p)) \<and>
     (\<forall>i. cached_process h = Some i \<longrightarrow> i = cached_process_id h \<and> processes h i \<noteq> None)"

text \<open>
  The bytes of the host that a cheat may change: those that back the eight bytes from a mapped guest
  address on which is in one of the regions of the metadata.
\<close>

definition reachable_byte :: "cheat_process_metadata \<Rightarrow> memory_impl \<Rightarrow> nat \<Rightarrow> bool" where
  "reachable_byte metadata m x \<longleftrightarrow> (\<exists>v k. IsAddressInRange metadata v \<and> translate m (unat v) \<noteq> None \<and> k < 8 \<and>
     translate m (unat v + k) = Some x)"

definition memory_confined :: "cheat_process_metadata \<Rightarrow> memory_impl \<Rightarrow> memory_impl \<Rightarrow> bool" where
  "memory_confined metadata m m' \<longleftrightarrow> same_table m m' \<and> (\<forall>x. ram m' x \<noteq> ram m x \<longrightarrow> reachable_byte metadata m x)"

definition host_confined :: "cheat_process_metadata \<Rightarrow> vm_host \<Rightarrow> vm_host \<Rightarrow> bool" where
  "host_confined metadata h h' \<longleftrightarrow> (vm_host_ok h \<longrightarrow> vm_host_ok h' \<and> undefined_access h' = undefined_access h \<and>
     (\<forall>i. i \<noteq> process_id metadata \<longrightarrow> processes h' i = processes h i) \<and>
     rel_option (\<lambda>p p'. gp_ended p' = gp_ended p \<and> memory_confined metadata (gp_memory p) (gp_memory p'))
       (processes h (process_id metadata)) (processes h' (process_id metadata)))"

lemma memory_confined_refl [simp]: "memory_confined metadata m m"
  by (simp add: memory_confined_def)

lemma memory_confined_trans:
  assumes "memory_confined metadata m m'" "memory_confined metadata m' m''"
  shows "memory_confined metadata m m''"
proof -
  have s: "same_table m m'" "same_table m' m''" using assms by (auto simp: memory_confined_def)
  then have "reachable_byte metadata m' = reachable_byte metadata m"
    by (simp add: fun_eq_iff reachable_byte_def same_table_eqs(1))
  then show ?thesis using assms s by (auto simp: memory_confined_def same_table_def) metis
qed

lemma host_confined_refl: "host_confined metadata h h"
  by (simp add: host_confined_def option.rel_refl)

lemma host_confined_trans:
  assumes "host_confined metadata h h'" "host_confined metadata h' h''"
  shows "host_confined metadata h h''"
  using assms memory_confined_trans
  by (auto simp: host_confined_def elim!: option.rel_cases) (blast+)?

lemma GetProcess_ok:
  assumes "vm_host_ok h" "GetProcess metadata h = (r, h')"
  shows "vm_host_ok h'" "processes h' = processes h" "undefined_access h' = undefined_access h"
    "r = (if processes h (process_id metadata) = None then None else Some (process_id metadata))"
  using assms by (auto simp: vm_host_ok_def GetProcess_def Let_def split: if_splits)

lemma set_process_confined:
  assumes "vm_host_ok h" "processes h (process_id metadata) = Some p"
    and "gp_ended p' = gp_ended p" "memory_confined metadata (gp_memory p) (gp_memory p')"
  shows "host_confined metadata h (set_process (process_id metadata) p' h)"
proof -
  have "mem_ok (gp_memory p) = mem_ok (gp_memory p')"
    using assms(4) same_table_eqs(3) by (auto simp: memory_confined_def)
  with assms show ?thesis by (auto simp: host_confined_def vm_host_ok_def set_process_def)
qed

text \<open>Each callback keeps to the reachable bytes.\<close>

lemma read_confined:
  assumes "n \<le> 8"
  shows "host_confined metadata h (snd (StdMemoryReadUnsafe metadata a n h))"
proof (cases "vm_host_ok h")
  case ok: True
  obtain r h1 where g: "GetProcess metadata h = (r, h1)" by fastforce
  note h1 = GetProcess_ok [OF ok g]
  have c: "host_confined metadata h h1" using h1 by (simp add: host_confined_def option.rel_refl)
  show ?thesis
  proof (cases "processes h (process_id metadata)")
    case None
    with g h1 c show ?thesis by (simp add: StdMemoryReadUnsafe_def)
  next
    case (Some p)
    then have m: "mem_ok (gp_memory p)" using ok by (auto simp: vm_host_ok_def)
    let ?a = "unat a" and ?m = "gp_memory p"
    have a: "?a < 2 ^ 64" using unsigned_less [of a, where ?'a = nat] by simp
    have n: "n < 2 ^ 64" using assms by simp
    have "\<exists>res m' bs. ReadBlockImpl ?a n False (replicate n 0) ?m = Some (res, m', bs) \<and> memory_confined metadata ?m m'"
    proof (cases "?a + n \<le> space_top ?m")
      case True
      with ReadBlockImpl_inside [OF m, of ?a n "replicate n 0" False] show ?thesis
        by (auto simp: memory_confined_def same_table_def)
    next
      case False
      with ReadBlockImpl_outside [OF m False a n, of "replicate n 0" False] show ?thesis by fastforce
    qed
    then obtain res m' bs where b: "ReadBlockImpl ?a n False (replicate n 0) ?m = Some (res, m', bs)"
      "memory_confined metadata ?m m'" by blast
    have "host_confined metadata h1 (set_process (process_id metadata) (p\<lparr>gp_memory := m'\<rparr>) h1)"
      using h1 Some b(2) by (intro set_process_confined) simp_all
    with c have "host_confined metadata h (set_process (process_id metadata) (p\<lparr>gp_memory := m'\<rparr>) h1)"
      by (rule host_confined_trans)
    with g h1 Some b(1) c show ?thesis by (simp add: StdMemoryReadUnsafe_def)
  qed
qed (simp add: host_confined_def)

lemma write_confined:
  assumes "length bs \<le> 8"
  shows "host_confined metadata h (StdMemoryWriteUnsafe metadata a bs h)"
proof (cases "vm_host_ok h")
  case ok: True
  obtain r h1 where g: "GetProcess metadata h = (r, h1)" by fastforce
  note h1 = GetProcess_ok [OF ok g]
  have c: "host_confined metadata h h1" using h1 by (simp add: host_confined_def option.rel_refl)
  let ?a = "unat a"
  have ids: "IsAddressInRange metadata a \<Longrightarrow> translate m ?a \<noteq> None \<Longrightarrow> k < length bs \<Longrightarrow>
      translate m (?a + k) = Some x \<Longrightarrow> reachable_byte metadata m x" for m k x
    using assms unfolding reachable_byte_def by (meson less_le_trans)
  show ?thesis
  proof (cases "\<exists>p. processes h (process_id metadata) = Some p \<and> IsAddressInRange metadata a \<and>
      IsValidVirtualAddress ?a (gp_memory p)")
    case False
    with g h1 c show ?thesis by (cases "processes h (process_id metadata)") (auto simp: StdMemoryWriteUnsafe_def)
  next
    case True
    then obtain p where Some: "processes h (process_id metadata) = Some p" and r: "IsAddressInRange metadata a"
      and v: "IsValidVirtualAddress ?a (gp_memory p)" by blast
    let ?m = "gp_memory p"
    have m: "mem_ok ?m" using ok Some by (auto simp: vm_host_ok_def)
    have a: "?a < 2 ^ 64" using unsigned_less [of a, where ?'a = nat] by simp
    have n: "length bs < 2 ^ 64" using assms by simp
    have t: "translate ?m ?a \<noteq> None" using v IsValidVirtualAddress_iff [OF m] by simp
    have "\<exists>res m'. WriteBlockImpl ?a (length bs) False bs ?m = Some (res, m') \<and> memory_confined metadata ?m m'"
    proof (cases "?a + length bs \<le> space_top ?m")
      case True
      moreover have "reachable_byte metadata ?m x" if "write_bytes ?m ?a bs (ram ?m) x \<noteq> ram ?m x" for x
        using that write_bytes_frame [of bs ?m ?a x] ids [OF r t] by blast
      ultimately show ?thesis using WriteBlockImpl_inside [OF m, of ?a "length bs" bs False]
        by (auto simp: memory_confined_def same_table_def)
    next
      case False
      with WriteBlockImpl_outside [OF m False a n, of False bs] show ?thesis by fastforce
    qed
    then obtain res m' where b: "WriteBlockImpl ?a (length bs) False bs ?m = Some (res, m')"
      "memory_confined metadata ?m m'" by blast
    let ?p = "p\<lparr>gp_memory := m', gp_invalidated :=
      (if res then gp_invalidated p @ [(?a, length bs)] else gp_invalidated p)\<rparr>"
    have "host_confined metadata h1 (set_process (process_id metadata) ?p h1)"
      using h1 Some b(2) by (intro set_process_confined) simp_all
    with c have "host_confined metadata h (set_process (process_id metadata) ?p h1)"
      by (rule host_confined_trans)
    with g h1 Some b(1) r v show ?thesis by (simp add: StdMemoryWriteUnsafe_def)
  qed
qed (simp add: host_confined_def)

lemma paused_confined: "host_confined metadata h (StdSetPaused b metadata h)"
proof (cases "vm_host_ok h")
  case ok: True
  obtain r h1 where g: "GetProcess metadata h = (r, h1)" by fastforce
  note h1 = GetProcess_ok [OF ok g]
  have c: "host_confined metadata h h1" using h1 by (simp add: host_confined_def option.rel_refl)
  show ?thesis
  proof (cases "processes h (process_id metadata)")
    case None
    with g h1 c show ?thesis by (simp add: StdSetPaused_def)
  next
    case (Some p)
    have "host_confined metadata h1 (set_process (process_id metadata) (SetActivity b p) h1)"
      using h1 Some by (intro set_process_confined [where p = p]) (simp_all add: SetActivity_def)
    with c have "host_confined metadata h (set_process (process_id metadata) (SetActivity b p) h1)"
      by (rule host_confined_trans)
    with g h1 Some c show ?thesis by (simp add: StdSetPaused_def)
  qed
qed (simp add: host_confined_def)

lemma keys_confined: "host_confined metadata h (snd (StdHidKeysDown h))"
  by (simp add: StdHidKeysDown_def host_confined_def vm_host_ok_def option.rel_refl)

lemma log_confined: "host_confined metadata h (StdDebugLog i v h)"
  by (simp add: StdDebugLog_def host_confined_def vm_host_ok_def option.rel_refl)

interpretation engine: callback_frame "StandardVmCallbacks metadata" "host_confined metadata"
proof
  show "host_confined metadata h h' \<Longrightarrow> host_confined metadata h' h'' \<Longrightarrow> host_confined metadata h h''" for h h' h''
    by (rule host_confined_trans)
qed (simp_all add: StandardVmCallbacks_def host_confined_refl read_confined write_confined paused_confined
  StdPauseProcess_def StdResumeProcess_def keys_confined log_confined)

section \<open>Running the engine\<close>

text \<open>A program of one store of a 32-bit value to the main module.\<close>

lemma store_program_runs:
  assumes "vm_ok vm" "take (num_opcodes vm) (vm_program vm) = [0x04000000, off, val]" "2 \<le> fuel"
  shows "\<exists>vm'. Execute fuel cb metadata (vm, w) = Some (Finished (vm',
    MemoryWriteUnsafe cb (ext_base (main_nso_extents metadata) + ucast off) (le_bytes 4 (ucast val)) (snd (HidKeysDown cb w))))"
proof -
  obtain k w1 where k: "HidKeysDown cb w = (k, w1)" by fastforce
  let ?vm = "ResetState vm"
  have n: "num_opcodes vm = 3" "length (vm_program vm) = 0x400"
    using assms(1) arg_cong [OF assms(2), of length] by (auto simp: vm_ok_def MaximumProgramOpcodeCount_def)
  have p: "vm_program vm ! 0 = 0x04000000" "vm_program vm ! 1 = off" "vm_program vm ! 2 = val"
    using arg_cong [OF assms(2), of "\<lambda>l. l ! 0"] arg_cong [OF assms(2), of "\<lambda>l. l ! 1"]
      arg_cong [OF assms(2), of "\<lambda>l. l ! 2"] n by simp_all
  have "DecodeNextOpcode ?vm = Some (Some \<lparr>begin_conditional_block = False,
      opcode = StoreStatic 4 0 0 (ucast off) (ucast val)\<rparr>, ?vm\<lparr>instruction_ptr := 3\<rparr>)"
    using n p by (simp add: decode_eval ResetState_def GetNextVmInt_def Suc_numeral flip: numeral_2_eq_2)
  moreover have "DecodeNextOpcode (?vm\<lparr>instruction_ptr := 3\<rparr>) =
      Some (None, ?vm\<lparr>instruction_ptr := 3, decode_success := False\<rparr>)"
    using n by (simp add: decode_eval ResetState_def)
  moreover obtain f where "fuel = Suc (Suc f)" using assms(3) by (metis Suc_le_D numeral_2_eq_2 Suc_le_mono)
  moreover have "reg_get 0 (?vm\<lparr>instruction_ptr := 3\<rparr>) = Some 0"
    by (simp add: reg_get_def arr_get_def ResetState_def NumRegisters_def)
  moreover have "GetVmInt (ucast val) 4 = (ucast val :: u64)"
    by (rule bit_word_eqI) (auto simp: GetVmInt_def bit_simps dest: bit_imp_le_length)
  ultimately show ?thesis
    using k by (auto simp: Execute_def Execute_step_def exec_StoreStatic_def write_memory_def valid_width_def
        GetCheatProcessAddress_def vm_enum_defs)
qed

section \<open>Parsing\<close>

text \<open>
  A cheat file in its usual form: each cheat is its name in brackets and its words in eight
  hexadecimal digits, each followed by one character, here a space.
\<close>

definition hex_char :: "nat \<Rightarrow> char" where
  "hex_char n = char_of (if n < 10 then 48 + n else 55 + n)"

primrec hex_text :: "nat \<Rightarrow> nat \<Rightarrow> string" where
  "hex_text 0 v = []"
| "hex_text (Suc k) v = hex_text k (v div 16) @ [hex_char (v mod 16)]"

definition print_opcodes :: "u32 list \<Rightarrow> string" where
  "print_opcodes ws = concat (map (\<lambda>w. hex_text 8 (unat w) @ '' '') ws)"

definition print_cheat :: "string \<times> u32 list \<Rightarrow> string" where
  "print_cheat c = CHR ''['' # fst c @ CHR '']'' # CHR 0x0A # print_opcodes (snd c)"

definition print_cheats :: "(string \<times> u32 list) list \<Rightarrow> string" where
  "print_cheats cs = concat (map print_cheat cs)"

definition padded_entry :: "string \<times> u32 list \<Rightarrow> cheat_entry" where
  "padded_entry c = cheat_entry_default\<lparr>cheat_def :=
     \<lparr>readable_name = fst c @ replicate (NameSize - length (fst c)) (CHR 0x00), def_num_opcodes = length (snd c),
      def_opcodes = snd c @ replicate (OpcodesSize - length (snd c)) 0\<rparr>\<rparr>"

definition printable :: "string \<times> u32 list \<Rightarrow> bool" where
  "printable c \<longleftrightarrow> fst c \<noteq> [] \<and> length (fst c) < NameSize \<and> CHR '']'' \<notin> set (fst c) \<and> length (snd c) \<le> OpcodesSize"

lemma hex_digit_char: "n < 16 \<Longrightarrow> hex_digit (hex_char n) = Some n"
  by (auto simp: hex_digit_def hex_char_def Let_def)

lemma hex_text_length [simp]: "length (hex_text k v) = k"
  by (induction k arbitrary: v) simp_all

lemma hex_text_digits: "list_all isxdigit (hex_text k v)"
  by (induction k arbitrary: v) (simp_all add: isxdigit_def hex_digit_char)

lemma strtoul16_snoc: "strtoul16 (cs @ [c]) = 16 * strtoul16 cs + the (hex_digit c)"
  by (simp add: strtoul16_def)

lemma strtoul16_hex_text: "v < 16 ^ k \<Longrightarrow> strtoul16 (hex_text k v) = v"
proof (induction k arbitrary: v)
  case 0
  then show ?case by (simp add: strtoul16_def)
next
  case (Suc k)
  then have "v div 16 < 16 ^ k" by (simp add: less_mult_imp_div_less mult.commute)
  then show ?case using Suc.IH [of "v div 16"] by (simp add: strtoul16_snoc hex_digit_char)
qed

lemma digits_not_special:
  assumes "isxdigit c"
  shows "\<not> isspace c" "c \<noteq> CHR ''{''" "c \<noteq> CHR ''[''"
  using assms by (auto simp: isxdigit_def isspace_def hex_digit_def Let_def split: if_splits)

lemma Parse_loop_space: "isspace c \<Longrightarrow> Parse_loop (c # rest) out j = Parse_loop rest out j"
  by (subst Parse_loop.simps) simp

lemma padded_add_opcode:
  assumes "length (snd c) < OpcodesSize"
  shows "add_opcode w (padded_entry c) = Some (padded_entry (fst c, snd c @ [w]))"
proof -
  obtain k where "OpcodesSize - length (snd c) = Suc k" using assms by (metis Suc_diff_Suc)
  moreover from this have "OpcodesSize - Suc (length (snd c)) = k" by simp
  ultimately show ?thesis
    by (simp add: add_opcode_def padded_entry_def cheat_entry_default_def arr_set_def list_update_append)
qed

lemma Parse_loop_opcode:
  assumes "j < length out" "out ! j = padded_entry c" "length (snd c) < OpcodesSize"
  shows "Parse_loop (hex_text 8 (unat w) @ CHR '' '' # rest) out (Some j) =
    Parse_loop rest (out[j := padded_entry (fst c, snd c @ [w])]) (Some j)"
proof -
  obtain d ds where h: "hex_text 8 (unat w) = d # ds" "length ds = 7"
    using hex_text_length [of 8 "unat w"] by (cases "hex_text 8 (unat w)") (auto simp del: hex_text_length)
  have d: "isxdigit d" "list_all isxdigit (d # ds)" using hex_text_digits [of 8 "unat w"] h(1) by simp_all
  have "unat w < 16 ^ 8" using unsigned_less [of w, where ?'a = nat] by simp
  then have v: "strtoul16 (d # ds) = unat w" using strtoul16_hex_text [of "unat w" 8] h(1) by simp
  have t: "take 8 (d # ds @ CHR '' '' # rest) = d # ds" "drop 8 (ds @ CHR '' '' # rest) = rest" using h(2) by simp_all
  show ?thesis
    unfolding h(1) append_Cons
    by (subst Parse_loop.simps)
      (use assms d digits_not_special [OF d(1)] t v padded_add_opcode [OF assms(3), of w]
       in \<open>simp add: arr_get_def padded_entry_def\<close>)
qed

lemma Parse_loop_opcodes:
  assumes "j < length out" "out ! j = padded_entry c" "length (snd c) + length ws \<le> OpcodesSize"
  shows "Parse_loop (print_opcodes ws @ rest) out (Some j) =
    Parse_loop rest (out[j := padded_entry (fst c, snd c @ ws)]) (Some j)"
  using assms
proof (induction ws arbitrary: c out)
  case Nil
  then show ?case by (metis append.right_neutral append_Nil concat.simps(1) list.map(1) list_update_id print_opcodes_def prod.collapse)
next
  case (Cons w ws)
  let ?c = "(fst c, snd c @ [w])" and ?out = "out[j := padded_entry (fst c, snd c @ [w])]"
  have "Parse_loop (print_opcodes (w # ws) @ rest) out (Some j) = Parse_loop (print_opcodes ws @ rest) ?out (Some j)"
    using Parse_loop_opcode [of j out c w "print_opcodes ws @ rest"] Cons.prems by (simp add: print_opcodes_def)
  also have "\<dots> = Parse_loop rest (?out[j := padded_entry (fst ?c, snd ?c @ ws)]) (Some j)"
    using Cons.prems by (intro Cons.IH) simp_all
  finally show ?case by simp
qed

lemma ExtractName_found:
  assumes "match \<notin> set name" "length name \<le> NameSize"
  shows "ExtractName (name @ match # rest) match = Some (length name, name)"
proof -
  have "ExtractName_loop (name @ match # rest) match = Some (length name)"
    using assms(1) by (induction name) auto
  then show ?thesis using assms(2) by (simp add: ExtractName_def)
qed

lemma set_name_padded:
  assumes "length name < NameSize"
  shows "set_name name cheat_entry_default = padded_entry (name, [])"
proof -
  let ?l = "name @ replicate (NameSize - length name) (CHR 0x00)"
  have "?l ! (NameSize - 1) = CHR 0x00"
    using assms by (auto simp: nth_append NameSize_def)
  then have "?l[NameSize - 1 := CHR 0x00] = ?l" by (metis list_update_id)
  then show ?thesis using assms
    by (simp add: set_name_def padded_entry_def cheat_entry_default_def Let_def min_absorb2 OpcodesSize_def)
qed

lemma Parse_loop_cheat:
  assumes "printable c"
  shows "Parse_loop (print_cheat c @ rest) out j = Parse_loop rest (out @ [padded_entry c]) (Some (length out))"
proof -
  obtain name ws where c: "c = (name, ws)" by (cases c)
  have p: "name \<noteq> []" "length name < NameSize" "CHR '']'' \<notin> set name" "length ws \<le> OpcodesSize"
    using assms by (simp_all add: printable_def c)
  let ?tail = "CHR 0x0A # print_opcodes ws @ rest"
  have "Parse_loop (print_cheat c @ rest) out j = Parse_loop (CHR ''['' # name @ CHR '']'' # ?tail) out j"
    by (simp add: print_cheat_def c)
  also have "\<dots> = Parse_loop ?tail (out @ [padded_entry (name, [])]) (Some (length out))"
    using p by (subst Parse_loop.simps) (simp add: ExtractName_found set_name_padded isspace_def)
  also have "\<dots> = Parse_loop (print_opcodes ws @ rest) (out @ [padded_entry (name, [])]) (Some (length out))"
    by (rule Parse_loop_space) (simp add: isspace_def)
  also have "\<dots> = Parse_loop rest (out @ [padded_entry c]) (Some (length out))"
    using Parse_loop_opcodes [of "length out" "out @ [padded_entry (name, [])]" "(name, [])" ws rest] p by (simp add: c)
  finally show ?thesis .
qed

lemma Parse_loop_cheats:
  "list_all printable cs \<Longrightarrow> Parse_loop (print_cheats cs) out j = Some (out @ map padded_entry cs)"
proof (induction cs arbitrary: out j)
  case Nil
  then show ?case by (simp add: print_cheats_def Parse_loop.simps(1))
next
  case (Cons c cs)
  then show ?case using Parse_loop_cheat [of c "print_cheats cs" out j] by (simp add: print_cheats_def)
qed

text \<open>What holds of every entry that the parser makes, whatever the text.\<close>

definition entry_shape :: "cheat_entry \<Rightarrow> bool" where
  "entry_shape e \<longleftrightarrow> length (readable_name (cheat_def e)) = NameSize \<and>
     readable_name (cheat_def e) ! (NameSize - 1) = CHR 0x00 \<and>
     length (def_opcodes (cheat_def e)) = OpcodesSize \<and> def_num_opcodes (cheat_def e) \<le> OpcodesSize"

text \<open>Every bracket and brace that may begin a name is closed somewhere behind it.\<close>

definition names_closed :: "string \<Rightarrow> bool" where
  "names_closed s \<longleftrightarrow> (\<forall>i<length s. (s ! i = CHR ''['' \<longrightarrow> CHR '']'' \<in> set (drop i s)) \<and>
     (s ! i = CHR ''{'' \<longrightarrow> CHR ''}'' \<in> set (drop i s)))"

lemma names_closed_drop:
  assumes "names_closed s"
  shows "names_closed (drop n s)"
  unfolding names_closed_def
proof (intro allI impI)
  fix i assume "i < length (drop n s)"
  then have "n + i < length s" by simp
  moreover have "drop i (drop n s) = drop (n + i) s" "drop n s ! i = s ! (n + i)"
    using \<open>i < length (drop n s)\<close> by (simp_all add: add.commute)
  ultimately show "(drop n s ! i = CHR ''['' \<longrightarrow> CHR '']'' \<in> set (drop i (drop n s))) \<and>
    (drop n s ! i = CHR ''{'' \<longrightarrow> CHR ''}'' \<in> set (drop i (drop n s)))"
    using assms by (simp add: names_closed_def)
qed

lemma shape_default: "entry_shape cheat_entry_default"
  by (simp add: entry_shape_def cheat_entry_default_def NameSize_def)

lemma shape_set_name: "entry_shape e \<Longrightarrow> entry_shape (set_name name e)"
  by (simp add: entry_shape_def set_name_def Let_def NameSize_def)

lemma shape_add_opcode:
  assumes "entry_shape e" "def_num_opcodes (cheat_def e) < OpcodesSize"
  shows "\<exists>e'. add_opcode w e = Some e' \<and> entry_shape e'"
  using assms by (simp add: entry_shape_def add_opcode_def arr_set_def)

lemma ExtractName_closed:
  "match \<in> set rest \<Longrightarrow> \<exists>n name. ExtractName rest match = Some (n, name)"
proof -
  have "match \<in> set rest \<Longrightarrow> ExtractName_loop rest match \<noteq> None" by (induction rest) auto
  then show "match \<in> set rest \<Longrightarrow> \<exists>n name. ExtractName rest match = Some (n, name)" by (auto simp: ExtractName_def)
qed

definition parse_ok :: "cheat_entry list \<Rightarrow> nat option \<Rightarrow> bool" where
  "parse_ok out j \<longleftrightarrow> out \<noteq> [] \<and> list_all entry_shape out \<and> (\<forall>i. j = Some i \<longrightarrow> i < length out)"

lemma parse_ok_update: "parse_ok out j \<Longrightarrow> i < length out \<Longrightarrow> entry_shape e \<Longrightarrow> parse_ok (out[i := e]) (Some i)"
  by (auto simp: parse_ok_def list_all_length nth_list_update)

lemma parse_ok_append: "parse_ok out j \<Longrightarrow> entry_shape e \<Longrightarrow> parse_ok (out @ [e]) (Some (length out))"
  by (simp add: parse_ok_def)

lemma Parse_loop_shape:
  assumes "parse_ok out j"
  shows "(Parse_loop s out j = None \<longrightarrow> \<not> names_closed s) \<and>
    (\<forall>out'. Parse_loop s out j = Some out' \<longrightarrow> list_all entry_shape out')"
  using assms
proof (induction s out j rule: Parse_loop.induct)
  case (1 out j)
  then show ?case by (simp add: Parse_loop.simps(1) parse_ok_def)
next
  case (2 c rest out j)
  let ?s = "c # rest"
  have closed: "names_closed ?s \<Longrightarrow> names_closed (drop n rest)" for n
    using names_closed_drop [of ?s "Suc n"] by simp
  have named: "names_closed ?s \<Longrightarrow> (c = CHR ''['' \<longrightarrow> CHR '']'' \<in> set rest) \<and> (c = CHR ''{'' \<longrightarrow> CHR ''}'' \<in> set rest)"
    by (auto simp: names_closed_def dest: spec [of _ 0])
  have out0: "arr_get out 0 = Some (out ! 0)" "entry_shape (out ! 0)" "0 < length out"
    using "2.prems" by (auto simp: parse_ok_def arr_get_def list_all_length)
  consider (space) "isspace c" | (master) "\<not> isspace c" "c = CHR ''{''" | (cheat) "\<not> isspace c" "c = CHR ''[''"
    | (digit) "\<not> isspace c" "c \<noteq> CHR ''{''" "c \<noteq> CHR ''[''" "isxdigit c"
    | (other) "\<not> isspace c" "c \<noteq> CHR ''{''" "c \<noteq> CHR ''[''" "\<not> isxdigit c" by blast
  then show ?case
  proof cases
    case space
    with "2.IH"(1) [OF space "2.prems"] closed [of 0] show ?thesis by (auto simp: Parse_loop_space)
  next
    case master
    note p = Parse_loop.simps(2) [of c rest out j]
    show ?thesis
    proof (cases "def_num_opcodes (cheat_def (out ! 0)) > 0 \<or> ExtractName rest (CHR ''}'') = None \<or>
        snd (the (ExtractName rest (CHR ''}''))) = []")
      case True
      with master out0 named ExtractName_closed [of "CHR ''}''" rest] show ?thesis
        by (cases "ExtractName rest (CHR ''}'')"; subst (1 2) p) (auto simp: arr_get_def)
    next
      case False
      then obtain n name where e: "ExtractName rest (CHR ''}'') = Some (n, name)" "name \<noteq> []"
        "\<not> def_num_opcodes (cheat_def (out ! 0)) > 0" by auto
      have "parse_ok (out[0 := set_name name (out ! 0)]) (Some 0)"
        using "2.prems" out0 by (intro parse_ok_update shape_set_name) auto
      from "2.IH"(2) [OF master out0(1) e(3,1) refl e(2) this] closed [of "n + 1"] master out0 e show ?thesis
        by (subst (1 2) p) auto
    qed
  next
    case cheat
    note p = Parse_loop.simps(2) [of c rest out j]
    show ?thesis
    proof (cases "ExtractName rest (CHR '']'') = None \<or> snd (the (ExtractName rest (CHR '']''))) = []")
      case True
      with cheat named ExtractName_closed [of "CHR '']''" rest] show ?thesis
        by (cases "ExtractName rest (CHR '']'')"; subst (1 2) p) auto
    next
      case False
      then obtain n name where e: "ExtractName rest (CHR '']'') = Some (n, name)" "name \<noteq> []" by auto
      have "parse_ok (out @ [set_name name cheat_entry_default]) (Some (length out))"
        using "2.prems" by (intro parse_ok_append shape_set_name shape_default)
      from "2.IH"(3) [OF cheat(1) _ cheat(2) e(1) refl e(2) this] closed [of "n + 1"] cheat e show ?thesis
        by (subst (1 2) p) auto
    qed
  next
    case digit
    note p = Parse_loop.simps(2) [of c rest out j]
    show ?thesis
    proof (cases "\<exists>i. j = Some i \<and> def_num_opcodes (cheat_def (out ! i)) < OpcodesSize \<and> list_all isxdigit (take 8 ?s)")
      case False
      with digit "2.prems" show ?thesis
        by (subst (1 2) p) (auto simp: parse_ok_def arr_get_def not_le split: option.splits)
    next
      case True
      then obtain i where i: "j = Some i" "\<not> def_num_opcodes (cheat_def (out ! i)) \<ge> OpcodesSize"
        "\<not> \<not> list_all isxdigit (take 8 ?s)" by auto
      have o: "i < length out" "entry_shape (out ! i)" using "2.prems" i(1) by (auto simp: parse_ok_def list_all_length)
      then have g: "arr_get out i = Some (out ! i)" by (simp add: arr_get_def)
      obtain e where e: "add_opcode (of_nat (strtoul16 (take 8 ?s))) (out ! i) = Some e" "entry_shape e"
        using shape_add_opcode [OF o(2)] i(2) by (meson not_le)
      have "parse_ok (out[i := e]) j" using parse_ok_update [OF "2.prems" o(1) e(2)] i(1) by simp
      from "2.IH"(4) [OF digit i(1) g i(2,3) e(1) this] closed [of 8] digit i g e show ?thesis
        by (subst (1 2) p) auto
    qed
  next
    case other
    then show ?thesis by (subst (1 2) Parse_loop.simps(2)) simp
  qed
qed

section \<open>Properties\<close>

text \<open>The turn after a reload of a single static store.\<close>

lemma store_cheat_runs:
  assumes "vm_ok (eng_vm eng)" "list_all entry_shape cheats" "entries_code cheats = [0x04000000, off, val]" "2 \<le> fuel"
  shows "\<exists>eng'. FrameCallback fuel (Reload cheats eng, h) = Some (Finished (eng',
    StdMemoryWriteUnsafe (eng_metadata eng) (ext_base (main_nso_extents (eng_metadata eng)) + ucast off)
      (le_bytes 4 (ucast val)) (snd (StdHidKeysDown h))))"
proof -
  let ?md = "eng_metadata eng"
  obtain vm where l: "LoadProgram cheats (eng_vm eng) = Some (True, vm)" "vm_ok vm" "num_opcodes vm \<noteq> 0"
    "take (num_opcodes vm) (vm_program vm) = [0x04000000, off, val]"
    using LoadProgram_loop_loads [of "eng_vm eng\<lparr>num_opcodes := 0\<rparr>" cheats] assms(1-3)
    by (fastforce simp: LoadProgram_def vm_ok_def entry_shape_def list_all_iff MaximumProgramOpcodeCount_def)
  with store_program_runs [OF l(2,4) assms(4), of "StandardVmCallbacks ?md" ?md h] show ?thesis
    by (auto simp: StandardVmCallbacks_def FrameCallback_def Reload_def Let_def)
qed

text \<open>A game whose main module is the mapped example memory, and a cheat for it.\<close>

definition engine_example :: cheat_engine where
  "engine_example = \<lparr>eng_vm = cheat_vm_default, eng_metadata = metadata_example\<lparr>main_nso_extents :=
     \<lparr>ext_base = 0x1000, ext_size = 0x3000\<rparr>\<rparr>, eng_cheats = [], is_pending_reload = False\<rparr>"

definition host_example :: vm_host where
  "host_example = \<lparr>processes = [81 \<mapsto> \<lparr>gp_memory = mapped_memory, gp_ended = False, gp_suspended = False, gp_invalidated = []\<rparr>],
     cached_process = None, cached_process_id = 0, hid_ready = False, press_state = 0, debug_log = [], undefined_access = False\<rparr>"

definition cheats_example :: "cheat_entry list" where
  "cheats_example = [finish_entry 1 (padded_entry (''HP'', [0x04000000, 4, 0x63]))]"

lemma example_facts:
  "vm_ok (eng_vm engine_example)" "vm_host_ok host_example" "\<not> undefined_access host_example"
  "list_all entry_shape cheats_example" "entries_code cheats_example = [0x04000000, 4, 0x63]"
  "IsAddressInRange (eng_metadata engine_example) 0x1004" "process_id (eng_metadata engine_example) = 81"
  "ext_base (main_nso_extents (eng_metadata engine_example)) = 0x1000"
  "processes host_example 81 = Some \<lparr>gp_memory = mapped_memory, gp_ended = False, gp_suspended = False, gp_invalidated = []\<rparr>"
  by (simp_all add: engine_example_def host_example_def cheats_example_def vm_ok_default vm_host_ok_def mapped_ok
      entry_shape_def finish_entry_def padded_entry_def cheat_entry_default_def NameSize_def OpcodesSize_def nth_append
      entries_code_def IsAddressInRange_def in_extents_def metadata_example_def)

text \<open>
  C19.  A turn of the engine, whatever cheats it has and however far their program runs, makes no undefined
  access and changes no other process; it leaves the page table of the process alone and changes no
  byte of the host except those that back the eight bytes from some mapped guest address on that is in one of the
  four regions of the metadata.
\<close>

theorem FrameCallback_confined:
  assumes "vm_host_ok h" "FrameCallback fuel (eng, h) \<in> {Some (Running (eng', h')), Some (Finished (eng', h'))}"
  shows "vm_host_ok h' \<and> undefined_access h' = undefined_access h \<and>
    (\<forall>i. i \<noteq> process_id (eng_metadata eng) \<longrightarrow> processes h' i = processes h i) \<and>
    (\<forall>p. processes h (process_id (eng_metadata eng)) = Some p \<longrightarrow>
      (\<exists>p'. processes h' (process_id (eng_metadata eng)) = Some p' \<and> same_table (gp_memory p) (gp_memory p') \<and>
        (\<forall>x. ram (gp_memory p') x \<noteq> ram (gp_memory p) x \<longrightarrow> reachable_byte (eng_metadata eng) (gp_memory p) x)))"
proof -
  let ?md = "eng_metadata eng"
  obtain b vm where l: "(if is_pending_reload eng then LoadProgram (eng_cheats eng) (eng_vm eng) else Some (True, eng_vm eng)) =
    Some (b, vm)" using assms(2) by (auto simp: FrameCallback_def bind_eq_Some_conv)
  have "host_confined ?md h h'"
  proof (cases "num_opcodes vm = 0")
    case True
    with assms(2) l show ?thesis by (auto simp: FrameCallback_def host_confined_refl)
  next
    case False
    with assms(2) l obtain r where r: "Execute fuel (StandardVmCallbacks ?md) ?md (vm, h) = Some r"
      by (cases "Execute fuel (StandardVmCallbacks ?md) ?md (vm, h)") (auto simp: FrameCallback_def)
    with False assms(2) l have "\<exists>vm'. r = Running (vm', h') \<or> r = Finished (vm', h')"
      by (auto simp: FrameCallback_def Let_def split: run.splits)
    with r obtain vm' where "Execute fuel (StandardVmCallbacks ?md) ?md (vm, h) \<in>
      {Some (Running (vm', h')), Some (Finished (vm', h'))}" by auto
    then show ?thesis by (rule engine.Execute_frame)
  qed
  with assms(1) show ?thesis by (auto simp: host_confined_def memory_confined_def option_rel_Some1)
qed

theorem FrameCallback_confined_witness:
  "\<exists>eng' h'. FrameCallback 2 (Reload cheats_example engine_example, host_example) = Some (Finished (eng', h')) \<and>
     vm_host_ok h' \<and> \<not> undefined_access h'"
proof -
  obtain eng' h' where r: "FrameCallback 2 (Reload cheats_example engine_example, host_example) = Some (Finished (eng', h'))"
    using store_cheat_runs [OF example_facts(1,4,5), of 2 host_example] by auto
  with FrameCallback_confined [OF example_facts(2), of 2 "Reload cheats_example engine_example" eng' h'] example_facts(3)
  show ?thesis by auto
qed

text \<open>
  C20.  Parsing is the inverse of printing: from a file with any number of cheats, each with a name of 1 to 63
  characters without a closing bracket and at most 256 words, the parser gives the empty master cheat
  and then these cheats with exactly their names and words, numbered from 1 on and enabled unless they
  have no words.
\<close>

theorem Parse_print_cheats:
  assumes "list_all printable cs"
  shows "Parse (print_cheats cs) =
    Some (map (\<lambda>(i, c). finish_entry i (padded_entry c)) (enumerate 0 (([], []) # cs)))"
proof -
  have "cheat_entry_default = padded_entry ([], [])" by (simp add: padded_entry_def cheat_entry_default_def)
  then show ?thesis using Parse_loop_cheats [OF assms, of "[cheat_entry_default]" None]
    by (simp add: Parse_def enumerate_map_upt) (simp add: enumerate_eq_zip zip_map2 split_def)
qed

lemma hex_text_numeral: "hex_text (numeral k) v = hex_text (pred_numeral k) (v div 16) @ [hex_char (v mod 16)]"
  using hex_text.simps(2) [of "pred_numeral k" v] by (simp only: numeral_eq_Suc [of k, symmetric])

lemma hex_chars: "hex_char 0 = CHR ''0''" "hex_char 3 = CHR ''3''" "hex_char 4 = CHR ''4''" "hex_char 6 = CHR ''6''"
  "hex_char 10 = CHR ''A''" "hex_char 11 = CHR ''B''" "hex_char 12 = CHR ''C''" "hex_char 13 = CHR ''D''"
  by (simp_all add: hex_char_def char_of_def bit_0)

theorem Parse_print_cheats_witness:
  "map_option (map (\<lambda>e. (enabled e, cheat_id e, take (def_num_opcodes (cheat_def e)) (def_opcodes (cheat_def e)))))
     (Parse (CHR ''['' # ''HP'' @ CHR '']'' # CHR 0x0A # ''04000000 0000ABCD 00000063 '')) =
   Some [(False, 0, []), (True, 1, [0x04000000, 0xABCD, 0x63])]"
proof -
  let ?c = "(''HP'', [0x04000000, 0xABCD, 0x63]) :: string \<times> u32 list"
  have "print_cheats [?c] = CHR ''['' # ''HP'' @ CHR '']'' # CHR 0x0A # ''04000000 0000ABCD 00000063 ''"
    by (simp add: print_cheats_def print_cheat_def print_opcodes_def hex_text_numeral hex_chars)
  moreover have "printable ?c" by (simp add: printable_def NameSize_def OpcodesSize_def)
  ultimately show ?thesis using Parse_print_cheats [of "[?c]"]
    by (simp add: finish_entry_def padded_entry_def cheat_entry_default_def)
qed

text \<open>
  C21.  On any text in which every opening bracket and brace has a closing one behind it the parser
  returns, and on every text its result, if it has one, is safe to load: each name ends in a zero, each entry has at
  most as many words as its array, its number is its position, it is enabled when it has words, and
  loading the list into a well-formed machine stays in the arrays and gives a well-formed machine.
\<close>

theorem Parse_safe:
  assumes "vm_ok vm"
  shows "(names_closed s \<longrightarrow> Parse s \<noteq> None) \<and>
    (\<forall>es. Parse s = Some es \<longrightarrow> (\<forall>i<length es. entry_shape (es ! i) \<and> cheat_id (es ! i) = i \<and>
        (enabled (es ! i) \<longleftrightarrow> def_num_opcodes (cheat_def (es ! i)) > 0)) \<and>
      (\<exists>b vm'. LoadProgram es vm = Some (b, vm') \<and> vm_ok vm'))"
proof -
  have "parse_ok [cheat_entry_default] None" by (simp add: parse_ok_def shape_default)
  note loop = Parse_loop_shape [OF this, of s]
  have "(\<forall>i<length es. entry_shape (es ! i) \<and> cheat_id (es ! i) = i \<and>
      (enabled (es ! i) \<longleftrightarrow> def_num_opcodes (cheat_def (es ! i)) > 0))" if p: "Parse s = Some es" for es
  proof -
    obtain out where o: "list_all entry_shape out" "es = map (\<lambda>(i, e). finish_entry i e) (enumerate 0 out)"
      using loop p by (auto simp: Parse_def)
    then have "\<forall>i<length es. es ! i = finish_entry i (out ! i) \<and> entry_shape (out ! i)"
      by (simp add: nth_enumerate_eq list_all_length)
    then show ?thesis by (simp add: finish_entry_def entry_shape_def)
  qed
  moreover from this have "\<exists>b vm'. LoadProgram es vm = Some (b, vm') \<and> vm_ok vm'" if "Parse s = Some es" for es
    using that assms LoadProgram_loop_loads [of "vm\<lparr>num_opcodes := 0\<rparr>" es]
    by (fastforce simp: LoadProgram_def vm_ok_def entry_shape_def in_set_conv_nth)
  moreover have "names_closed s \<longrightarrow> Parse s \<noteq> None" using loop by (auto simp: Parse_def)
  ultimately show ?thesis by blast
qed

theorem Parse_safe_witness: "Parse (CHR ''['' # ''A'' @ [CHR '']'']) \<noteq> None"
  using Parse_safe [OF vm_ok_default, of "CHR ''['' # ''A'' @ [CHR '']'']"]
  by (auto simp: names_closed_def less_Suc_eq numeral_3_eq_3)

text \<open>
  A cheat that stores a 32-bit value into the main module does so: when the reloaded cheats come
  to that one store, its address is in the regions, and its four bytes are mapped to different
  bytes of the host, the next turn of the engine finishes, the game then reads the little-endian bytes of the value there,
  and the instruction cache of the four bytes has been invalidated.
\<close>

theorem store_cheat_pokes:
  assumes "vm_ok (eng_vm eng)" "list_all entry_shape cheats" "entries_code cheats = [0x04000000, off, val]" "2 \<le> fuel"
    and "vm_host_ok h" "processes h (process_id (eng_metadata eng)) = Some p"
    and "a = ext_base (main_nso_extents (eng_metadata eng)) + ucast off" "IsAddressInRange (eng_metadata eng) a"
    and "\<forall>i<4. translate (gp_memory p) (unat a + i) \<noteq> None"
    and "inj_on (\<lambda>i. translate (gp_memory p) (unat a + i)) {..<4}"
  shows "\<exists>eng' h' p'. FrameCallback fuel (Reload cheats eng, h) = Some (Finished (eng', h')) \<and>
    processes h' (process_id (eng_metadata eng)) = Some p' \<and>
    map (guest_byte (gp_memory p')) [unat a..<unat a + 4] = le_bytes 4 (ucast val) \<and>
    gp_invalidated p' = gp_invalidated p @ [(unat a, 4)]"
proof -
  let ?md = "eng_metadata eng" and ?m = "gp_memory p" and ?bs = "le_bytes 4 (ucast val)"
  have m: "mem_ok ?m" using assms(5,6) by (auto simp: vm_host_ok_def)
  have top: "unat a + 4 \<le> space_top ?m"
  proof -
    have "translate ?m (unat a + 3) \<noteq> None" using assms(9) by simp
    then show ?thesis by (auto simp: translate_def split: if_splits)
  qed
  let ?h = "snd (StdHidKeysDown h)"
  obtain eng' where x: "FrameCallback fuel (Reload cheats eng, h) = Some (Finished (eng', StdMemoryWriteUnsafe ?md a ?bs ?h))"
    using store_cheat_runs [OF assms(1-4), of h] unfolding assms(7) by blast
  have "vm_host_ok ?h" "processes ?h = processes h" using assms(5) by (simp_all add: StdHidKeysDown_def vm_host_ok_def)
  note g = GetProcess_ok [OF this(1), of ?md] this(2)
  obtain r h1 where h1: "GetProcess ?md ?h = (r, h1)" by fastforce
  from WriteBlockImpl_inside [OF m top, of ?bs False] obtain ev where w:
    "WriteBlockImpl (unat a) 4 False ?bs ?m =
      Some (True, ?m\<lparr>ram := write_bytes ?m (unat a) ?bs (ram ?m), host_events := host_events ?m @ ev\<rparr>)"
    using assms(9) by auto
  let ?m' = "?m\<lparr>ram := write_bytes ?m (unat a) ?bs (ram ?m), host_events := host_events ?m @ ev\<rparr>"
  have "StdMemoryWriteUnsafe ?md a ?bs ?h = set_process (process_id ?md)
      (p\<lparr>gp_memory := ?m', gp_invalidated := gp_invalidated p @ [(unat a, 4)]\<rparr>) h1"
    using g(2,4) [OF h1] g(5) h1 assms(6,8,9) w IsValidVirtualAddress_iff [OF m, of "unat a"]
    by (auto simp: StdMemoryWriteUnsafe_def dest: spec [of _ 0])
  moreover have "map (guest_byte ?m') [unat a..<unat a + 4] = ?bs"
    using guest_bytes_written [of ?m "unat a" ?bs ?m'] assms(9,10) by (simp add: same_table_def)
  ultimately show ?thesis using x by (auto simp: set_process_def)
qed

lemma le_bytes_numeral: "le_bytes (numeral k) v = ucast v # le_bytes (pred_numeral k) (drop_bit 8 v)"
  using le_bytes.simps(2) [of "pred_numeral k" v] by (simp only: numeral_eq_Suc [of k, symmetric])

theorem store_cheat_pokes_witness:
  "\<exists>eng' h' p'. FrameCallback 2 (Reload cheats_example engine_example, host_example) = Some (Finished (eng', h')) \<and>
     processes h' 81 = Some p' \<and> map (guest_byte (gp_memory p')) [0x1004..<0x1008] = [0x63, 0, 0, 0]"
proof -
  have t: "translate mapped_memory (0x1004 + i) = Some (0x10001004 + i)" if "i < 4" for i
    using translate_mapped [of "0x1004 + i"] that by simp
  have "(0x1004 :: u64) = ext_base (main_nso_extents (eng_metadata engine_example)) + ucast (4 :: u32)"
    by (simp add: example_facts(8))
  moreover have "inj_on (\<lambda>i. translate mapped_memory (0x1004 + i)) {..<4}" using t by (auto simp: inj_on_def)
  moreover have "le_bytes 4 (ucast (0x63 :: u32)) = [0x63, 0, 0, 0 :: u8]"
    by (simp add: le_bytes_numeral)
  ultimately show ?thesis
    using store_cheat_pokes [OF example_facts(1,4,5) _ example_facts(2), of 2 _ "0x1004"] t example_facts(6-9) by fastforce
qed

end
