(* ===== verification/Spec2Isabelle.thy ===== *)
theory Spec2Isabelle
  imports KHandleTable KResourceLimit KMemoryBlockManager KPageHeap KLightLock CheatEngine
begin

text \<open>
  \<^bold>\<open>A verification development for the core of the Eden emulator.\<close>

  Eden runs programs of a game console.  Under \<^verbatim>\<open>src/core/hle/kernel\<close> it reimplements the kernel of the
  console: objects with reference counts and the handles by which a process names them, resource limits,
  the blocks of an address space, the physical pages, and threads with their scheduler.  The memory of a
  process (\<^verbatim>\<open>src/core/memory.cpp\<close>) goes through a page table of the emulator
  (\<^verbatim>\<open>src/common/page_table.h\<close>), and a cheat engine (\<^verbatim>\<open>src/core/memory\<close>) runs small untrusted programs
  against that memory once per period.  These parts carry the logic of their own that does not depend on the
  host, and they are what the theories here model, each from its source, one definition per function.

  \<^bold>\<open>Conventions.\<close>  Unsigned integers are words where wrap-around or bit operations matter, and otherwise natural
  or integer numbers with the wrap-around written out (\<open>add64\<close>, \<open>sub64\<close>) or ruled out by an invariant.
  Undefined behaviour of the C++ code (an index out of range, a null pointer, a shift by the width, signed
  overflow) is \<open>None\<close>, so that a theorem that an operation returns \<open>Some\<close> says that it is free of it.
  \<open>ASSERT\<close> only logs in the code and execution goes on; the models go on as well, and where the assertions
  matter they are collected (\<open>asserted\<close>) and proved to hold.  Operations under a spin lock or under the
  scheduler lock are single steps.

  \<^bold>\<open>The theories.\<close>

  \<^item> \<open>Prelude\<close>: machine integers, checked array access, alignment, and the locales \<open>invariant_component\<close> (a
    component that keeps an invariant over admissible sequences of operations) and \<open>handle_store\<close> (a map from
    handles to objects).

  \<^item> \<open>KAutoObject\<close> (\<^verbatim>\<open>k_auto_object.h\<close>): reference counts, result codes.

  \<^item> \<open>KHandleTable\<close> (\<^verbatim>\<open>k_handle_table.h\<close>, \<open>.cpp\<close>): the table is a partial map from handles to objects under any
    sequence of \<open>Add\<close> and \<open>Remove\<close>; no admissible sequence leaves the arrays; a removed handle stays invalid;
    \<open>GetMultipleObjects\<close> opens all or nothing.

  \<^item> \<open>KResourceLimit\<close> (\<^verbatim>\<open>k_resource_limit.cpp\<close>, \<^verbatim>\<open>k_scoped_resource_reservation.h\<close>): for all interleavings of
    reserving, waiting and releasing (the step relation \<open>rl_step\<close>, by rule induction) what is handed out stays
    below the limit and is accounted for.

  \<^item> \<open>KMemoryBlock\<close>, \<open>KMemoryBlockManager\<close> (\<^verbatim>\<open>k_memory_block.h\<close>, \<^verbatim>\<open>k_memory_block_manager.cpp\<close>): a block with its
    states and locks; the partition of the address space as a function from pages to properties, which
    \<open>Update\<close>, \<open>UpdateIfMatch\<close>, \<open>UpdateLock\<close> and \<open>UpdateAttribute\<close> change on exactly the range.  The four share
    the loop \<open>update_loop\<close> and the locale \<open>block_op\<close>.  The three that pass over blocks are undefined if the range
    starts inside the first block and that block needs no change; for \<open>Update\<close> this case is proved to be the only
    one.  The search for a free area is safe.  The audit \<open>CheckState\<close> overlooks the counts of the first block.

  \<^item> \<open>KPageBitmap\<close>, \<open>KPageHeap\<close> (\<^verbatim>\<open>k_page_bitmap.h\<close>, \<^verbatim>\<open>k_page_heap.cpp\<close>, \<^verbatim>\<open>tiny_mt.h\<close>): the hierarchical bitmap is
    a finite set, the heap of physical pages a set of free bytes; allocation takes exactly the block that was
    asked for and succeeds when a large enough block is free, freeing gives it back; the storage computed in
    advance is enough.

  \<^item> \<open>KPriorityQueue\<close> (\<^verbatim>\<open>k_priority_queue.h\<close>, \<^verbatim>\<open>k_affinity_mask.h\<close>): the intrusive lists and bit sets implement,
    for each core, the threads that belong there in priority order.

  \<^item> \<open>KScheduler\<close> (\<^verbatim>\<open>k_scheduler.cpp\<close>, \<^verbatim>\<open>global_scheduler_context.cpp\<close>, \<^verbatim>\<open>k_scheduler_lock.h\<close>): every core is given
    the first thread of its queue, idle cores are filled by migration, no change of a choice is lost when the
    lock is released, rotation is fair, yields keep the queues in order.

  \<^item> \<open>KThread\<close> (\<^verbatim>\<open>k_thread.cpp\<close>, \<^verbatim>\<open>k_thread.h\<close>): locks with priority inheritance, thread states and suspension, as an
    extension of the records of \<open>KScheduler\<close>.  Through any sequence of operations (an interpretation of
    \<open>invariant_component\<close>) each thread has the best priority of its own and of those that wait for it; passing
    priorities on ends even in a deadlock; releasing a lock hands it to the most urgent waiter; a suspended
    thread leaves the run queues and comes back; a change of priority reaches the cores when the lock is
    released.

  \<^item> \<open>KLightLock\<close> (\<^verbatim>\<open>k_light_lock.cpp\<close>, \<^verbatim>\<open>k_thread_queue.cpp\<close>): the lock of kernel objects and the waits of threads on
    queues.  The steps of any number of threads and of the rest of the kernel interleave (the step relation
    \<open>light_step\<close>, by rule induction).  As long as no wait for the lock is cancelled, at most one thread has the lock,
    and a thread that sleeps for it gets it from its predecessor in the order of priorities.  Cancelling such a
    wait, as \<open>RequestTerminate\<close> does, breaks this, which is a theorem as well.

  \<^item> \<open>CheatVm\<close>, \<open>CheatVmSafety\<close> (\<^verbatim>\<open>dmnt_cheat_vm.cpp\<close>): decoder and interpreter of the cheat machine over any
    callbacks; a turn stays within the arrays and is undefined in two known cases only; a program whose
    instructions, as decoded from its first word on, end no loop finishes unless it runs into one of the two,
    which its words rule out (\<open>harmless\<close>); skipping a conditional block is exact.

  \<^item> \<open>GuestMemory\<close>, \<open>GuestMemoryProps\<close>, \<open>GuestMemoryValues\<close> (\<^verbatim>\<open>memory.cpp\<close>, \<^verbatim>\<open>page_table.h\<close>): mapping, block
    accesses and single values, proved equal to byte-wise accesses through one address translation.  The
    page-wise walk is treated once, in the locale \<open>block_walker\<close>.

  \<^item> \<open>CheatEngine\<close> (\<^verbatim>\<open>cheat_engine.cpp\<close>): the callbacks of the machine on guest memory, the parser and the
    engine.  It interprets the frame of \<open>CheatVmSafety\<close> on the memory of \<open>GuestMemory\<close>: no cheat program
    reaches beyond the regions of the metadata.

  \<^bold>\<open>Bounds and fuel.\<close>  Loops over data are structural recursions.  \<open>Execute\<close> of the cheat machine, which has no
  bound, is the iteration of its turn; that programs without loop ends finish within one turn per word (or
  are undefined, in the known cases), and that another program never does, are theorems.  The walks along a run queue (\<open>search\<close>) are partial functions
  whose definedness is proved from the invariant of the queues, and so is \<open>RestorePriority_loop\<close>, whose measure is
  how far the priorities can still move.  The heap of pages is taken below 32 GiB, far
  beyond the memory of the console, so that its sums do not wrap around.  The counts of locks and shares of a
  memory block are 16-bit words and the theorems state the bound.

  \<^bold>\<open>Parameters.\<close>  The hardware timer, the entropy source, the buttons, the dynamic casts by class token
  and the wait queues of other kernel objects are arguments of the definitions that use them.

  \<^bold>\<open>Not modelled.\<close>  The GPU, audio, input, network and user interface parts and the system services, which work on
  host APIs, files and floating point; the just-in-time compiler for ARM code and the shader compiler, which
  have no specification in the repository; the switch of host fibers, timers and host threads.  Of the kernel:
  the page table operations above the block manager, processes, synchronization objects and sessions, the
  creation and termination of threads, and the start-up code.  Text that is only logged is not part of any state.
\<close>

end
